(* ===== verification/Prelude.thy ===== *)
theory Prelude
  imports Main "HOL-Library.Word"
begin

text \<open>
  The prelude of the development: how an operation of the kernel can fail, the sequencing of
  operations that can fail, the system parameters of \<^verbatim>\<open>kernel/param.h\<close>, checked array
  accesses, and the generic facts on lists and machine words the components share.
\<close>

section \<open>Failure as a value\<close>

text \<open>
  \<open>Panic m\<close> is a call of the kernel's \<^verbatim>\<open>panic(m)\<close>, which never returns.
  \<open>OutOfBounds\<close> is an access outside an object (an array index that is out of range, a
  null pointer), \<open>Overflow\<close> a signed addition that leaves the range of \<^verbatim>\<open>int\<close>:
  undefined behaviour in C, so the model stops there instead of inventing a result.
  \<open>Blocked c\<close> marks the point where an operation that is modelled without other processes
  would go to sleep on the channel \<open>c\<close>.
\<close>

text \<open>
  Sleep channels are addresses of kernel objects that the code compares for equality only;
  different objects have different addresses.
\<close>

datatype channel = ChNull | ChTicks | ChProc nat | ChCons | ChPipeRead nat | ChPipeWrite nat
  | ChLog | ChBuf nat | ChInode nat | ChUart

datatype kerror = Panic string | OutOfBounds | Overflow | Blocked channel

type_synonym 'a res = "kerror + 'a"

definition bnd :: "'a res \<Rightarrow> ('a \<Rightarrow> 'b res) \<Rightarrow> 'b res" where
  "bnd m f = (case m of Inl e \<Rightarrow> Inl e | Inr x \<Rightarrow> f x)"

text \<open>The collection of rewrite rules that execute sequences of fallible operations.\<close>

named_theorems res_simps

lemma bnd_Inl [simp, res_simps]: "bnd (Inl e) f = Inl e"
  by (simp add: bnd_def)

lemma bnd_Inr [simp, res_simps]: "bnd (Inr x) f = f x"
  by (simp add: bnd_def)

lemma bnd_assoc: "bnd (bnd m f) g = bnd m (\<lambda>x. bnd (f x) g)"
  by (simp add: bnd_def split: sum.splits)

lemma bnd_eq_Inr [res_simps]: "bnd m f = Inr y \<longleftrightarrow> (\<exists>x. m = Inr x \<and> f x = Inr y)"
  by (simp add: bnd_def split: sum.splits)

lemma bnd_eq_Inl [res_simps]:
  "bnd m f = Inl e \<longleftrightarrow> m = Inl e \<or> (\<exists>x. m = Inr x \<and> f x = Inl e)"
  by (simp add: bnd_def split: sum.splits)

lemma bnd_cong [fundef_cong]:
  "m = m' \<Longrightarrow> (\<And>x. m' = Inr x \<Longrightarrow> f x = f' x) \<Longrightarrow> bnd m f = bnd m' f'"
  by (simp add: bnd_def split: sum.splits)

text \<open>A \<^verbatim>\<open>for\<close> loop over a list whose body can fail stops at the first failure.\<close>

fun foldres :: "('a \<Rightarrow> 's \<Rightarrow> 's res) \<Rightarrow> 'a list \<Rightarrow> 's \<Rightarrow> 's res" where
  "foldres f [] s = Inr s"
| "foldres f (x # xs) s = bnd (f x s) (foldres f xs)"

lemma foldres_append: "foldres f (xs @ ys) s = bnd (foldres f xs s) (foldres f ys)"
  by (induction xs arbitrary: s) (simp_all add: bnd_assoc cong: bnd_cong)

text \<open>The loop rule: an invariant over the processed prefix, with progress of every iteration.\<close>

lemma foldres_rule:
  assumes "I [] s"
    and "\<And>ys x zs t. xs = ys @ x # zs \<Longrightarrow> I ys t \<Longrightarrow> \<exists>t'. f x t = Inr t' \<and> I (ys @ [x]) t'"
  shows "\<exists>t. foldres f xs s = Inr t \<and> I xs t"
  using assms(2)
proof (induction xs rule: rev_induct)
  case Nil
  then show ?case using assms(1) by simp
next
  case (snoc x xs)
  have "\<exists>t. foldres f xs s = Inr t \<and> I xs t"
    by (rule snoc.IH) (use snoc.prems in fastforce)
  then show ?case using snoc.prems [of xs x "[]"] by (fastforce simp: foldres_append)
qed

text \<open>Loops over a whole table keep their range folded.\<close>

declare upt_rec_numeral [simp del]

section \<open>Parameters of the system\<close>

text \<open>\<^verbatim>\<open>kernel/param.h\<close>.\<close>

abbreviation (input) NPROC :: nat where "NPROC \<equiv> 64"
abbreviation (input) NOFILE :: nat where "NOFILE \<equiv> 16"
abbreviation (input) NFILE :: nat where "NFILE \<equiv> 100"
abbreviation (input) NINODE :: nat where "NINODE \<equiv> 50"
abbreviation (input) NDEV :: nat where "NDEV \<equiv> 10"
abbreviation (input) MAXOPBLOCKS :: nat where "MAXOPBLOCKS \<equiv> 10"
abbreviation (input) LOGSIZE :: nat where "LOGSIZE \<equiv> 30"
abbreviation (input) NBUF :: nat where "NBUF \<equiv> 30"

section \<open>Machine words\<close>

type_synonym u8 = "8 word"
type_synonym u16 = "16 word"
type_synonym u32 = "32 word"
type_synonym u64 = "64 word"

lemma uint_u64_of_nat [simp]: "n < 2 ^ 64 \<Longrightarrow> uint (word_of_nat n :: u64) = int n"
  by (simp add: unsigned_of_nat take_bit_nat_eq_self)

lemma int_unat: "int (unat w) = uint w"
  by simp

lemma unat_u64_of_nat [simp]: "n < 2 ^ 64 \<Longrightarrow> unat (word_of_nat n :: u64) = n"
  by (simp add: unat_of_nat take_bit_nat_eq_self)

end
