(* ===== verification/Spinlock.thy ===== *)
theory Spinlock
  imports Prelude
begin

text \<open>
  \<^verbatim>\<open>kernel/spinlock.c\<close>: spin locks and the nesting of disabled interrupts, for any number
  of harts whose memory accesses interleave. \<^verbatim>\<open>acquire\<close> and \<^verbatim>\<open>release\<close> are
  split at the accesses to the lock that other harts can see: the check of \<^verbatim>\<open>holding\<close>,
  each atomic swap, the store of \<^verbatim>\<open>lk->cpu\<close>, the releasing swap. The other theories use
  critical sections as single steps, which the mutual exclusion proved here justifies.
\<close>

section \<open>Locks and harts\<close>

record spinlock =
  locked :: bool
  lkcpu :: "nat option"

datatype lpc = Idle | Spin nat | Won nat | Unlock nat

text \<open>
  \<^verbatim>\<open>struct cpu\<close> without the process, the interrupt enable bit of the hart, and the point of
  \<^verbatim>\<open>acquire\<close> or \<^verbatim>\<open>release\<close> it is at.
\<close>

record hart =
  noff :: int
  intena :: bool
  intr :: bool
  lpc :: lpc

record lst =
  lk :: "nat \<Rightarrow> spinlock"
  hart :: "nat \<Rightarrow> hart"

definition lk_upd :: "nat \<Rightarrow> (spinlock \<Rightarrow> spinlock) \<Rightarrow> lst \<Rightarrow> lst" where
  "lk_upd l f s = s\<lparr>lk := (lk s)(l := f (lk s l))\<rparr>"

definition hart_upd :: "nat \<Rightarrow> (hart \<Rightarrow> hart) \<Rightarrow> lst \<Rightarrow> lst" where
  "hart_upd c f s = s\<lparr>hart := (hart s)(c := f (hart s c))\<rparr>"

lemma upd_simps [simp]:
  "lk (lk_upd l f s) = (lk s)(l := f (lk s l))" "hart (lk_upd l f s) = hart s"
  "lk (hart_upd c g s) = lk s" "hart (hart_upd c g s) = (hart s)(c := g (hart s c))"
  by (simp_all add: lk_upd_def hart_upd_def)

section \<open>The operations\<close>

definition initlock :: "nat \<Rightarrow> lst \<Rightarrow> lst" where
  "initlock l s = lk_upd l (\<lambda>k. k\<lparr>locked := False, lkcpu := None\<rparr>) s"

definition holding :: "nat \<Rightarrow> nat \<Rightarrow> lst \<Rightarrow> bool" where
  "holding c l s \<longleftrightarrow> locked (lk s l) \<and> lkcpu (lk s l) = Some c"

definition push_off :: "nat \<Rightarrow> lst \<Rightarrow> lst" where
  "push_off c s =
     (let old = intr (hart s c);
          s1 = hart_upd c (\<lambda>h. h\<lparr>intr := False\<rparr>) s;
          s2 = (if noff (hart s1 c) = 0 then hart_upd c (\<lambda>h. h\<lparr>intena := old\<rparr>) s1 else s1) in
      hart_upd c (\<lambda>h. h\<lparr>noff := noff h + 1\<rparr>) s2)"

definition pop_off :: "nat \<Rightarrow> lst \<Rightarrow> lst res" where
  "pop_off c s =
     (if intr (hart s c) then Inl (Panic ''pop_off - interruptible'')
      else if noff (hart s c) < 1 then Inl (Panic ''pop_off'')
      else
        let s1 = hart_upd c (\<lambda>h. h\<lparr>noff := noff h - 1\<rparr>) s in
        Inr (if noff (hart s1 c) = 0 \<and> intena (hart s1 c)
             then hart_upd c (\<lambda>h. h\<lparr>intr := True\<rparr>) s1 else s1))"

text \<open>The pieces of \<^verbatim>\<open>acquire\<close>: entry, one iteration of the swap loop, the record of the owner.\<close>

definition acquire_enter :: "nat \<Rightarrow> nat \<Rightarrow> lst \<Rightarrow> lst res" where
  "acquire_enter c l s =
     (let s1 = push_off c s in
      if holding c l s1 then Inl (Panic ''acquire'')
      else Inr (hart_upd c (\<lambda>h. h\<lparr>lpc := Spin l\<rparr>) s1))"

definition acquire_swap :: "nat \<Rightarrow> nat \<Rightarrow> lst \<Rightarrow> lst" where
  "acquire_swap c l s =
     (let old = locked (lk s l); s1 = lk_upd l (\<lambda>k. k\<lparr>locked := True\<rparr>) s in
      if old then s1 else hart_upd c (\<lambda>h. h\<lparr>lpc := Won l\<rparr>) s1)"

definition acquire_done :: "nat \<Rightarrow> nat \<Rightarrow> lst \<Rightarrow> lst" where
  "acquire_done c l s = hart_upd c (\<lambda>h. h\<lparr>lpc := Idle\<rparr>) (lk_upd l (\<lambda>k. k\<lparr>lkcpu := Some c\<rparr>) s)"

text \<open>The pieces of \<^verbatim>\<open>release\<close>: the check and the cleared owner, then the releasing swap and \<^verbatim>\<open>pop_off\<close>.\<close>

definition release_enter :: "nat \<Rightarrow> nat \<Rightarrow> lst \<Rightarrow> lst res" where
  "release_enter c l s =
     (if \<not> holding c l s then Inl (Panic ''release'')
      else Inr (hart_upd c (\<lambda>h. h\<lparr>lpc := Unlock l\<rparr>) (lk_upd l (\<lambda>k. k\<lparr>lkcpu := None\<rparr>) s)))"

definition release_swap :: "nat \<Rightarrow> nat \<Rightarrow> lst \<Rightarrow> lst res" where
  "release_swap c l s =
     pop_off c (hart_upd c (\<lambda>h. h\<lparr>lpc := Idle\<rparr>) (lk_upd l (\<lambda>k. k\<lparr>locked := False\<rparr>) s))"

text \<open>Without interference; a hart that finds the lock taken spins, which is \<open>Blocked\<close>.\<close>

definition acquire :: "nat \<Rightarrow> nat \<Rightarrow> lst \<Rightarrow> lst res" where
  "acquire c l s =
     bnd (acquire_enter c l s) (\<lambda>s1.
     if locked (lk s1 l) then Inl (Blocked ChNull) else Inr (acquire_done c l (acquire_swap c l s1)))"

definition release :: "nat \<Rightarrow> nat \<Rightarrow> lst \<Rightarrow> lst res" where
  "release c l s = bnd (release_enter c l s) (release_swap c l)"

text \<open>The checks of \<^verbatim>\<open>sched()\<close> on locks and interrupts.\<close>

definition sched_checks :: "nat \<Rightarrow> nat \<Rightarrow> lst \<Rightarrow> unit res" where
  "sched_checks c plock s =
     (if \<not> holding c plock s then Inl (Panic ''sched p->lock'')
      else if noff (hart s c) \<noteq> 1 then Inl (Panic ''sched locks'')
      else if intr (hart s c) then Inl (Panic ''sched interruptible'')
      else Inr ())"

section \<open>Interleaved execution\<close>

text \<open>
  A hart between the two ends of a lock operation, or in the critical section, is using the lock.
  \<open>depth\<close> are the locks that account for its \<^verbatim>\<open>push_off\<close>s.
\<close>

definition owns :: "lst \<Rightarrow> nat \<Rightarrow> nat \<Rightarrow> bool" where
  "owns s c l \<longleftrightarrow> holding c l s \<or> lpc (hart s c) = Won l \<or> lpc (hart s c) = Unlock l"

definition depth :: "lst \<Rightarrow> nat \<Rightarrow> nat set" where
  "depth s c = {l. owns s c l \<or> lpc (hart s c) = Spin l}"

text \<open>
  The steps: any hart takes its next step. A hart starts \<^verbatim>\<open>acquire\<close> on a lock it does not
  own, releases locks it holds, and nests further \<^verbatim>\<open>push_off\<close> and \<^verbatim>\<open>pop_off\<close>
  pairs; interrupts are enabled explicitly only outside all of them, as the kernel does.
\<close>

inductive lstep :: "lst \<Rightarrow> lst \<Rightarrow> bool" where
  enter: "lpc (hart s c) = Idle \<Longrightarrow> \<not> owns s c l \<Longrightarrow> acquire_enter c l s = Inr s' \<Longrightarrow> lstep s s'"
| swap: "lpc (hart s c) = Spin l \<Longrightarrow> lstep s (acquire_swap c l s)"
| owner: "lpc (hart s c) = Won l \<Longrightarrow> lstep s (acquire_done c l s)"
| unlock: "lpc (hart s c) = Idle \<Longrightarrow> release_enter c l s = Inr s' \<Longrightarrow> lstep s s'"
| unlocked: "lpc (hart s c) = Unlock l \<Longrightarrow> release_swap c l s = Inr s' \<Longrightarrow> lstep s s'"
| push: "lpc (hart s c) = Idle \<Longrightarrow> lstep s (push_off c s)"
| pop: "lpc (hart s c) = Idle \<Longrightarrow> int (card (depth s c)) < noff (hart s c) \<Longrightarrow> pop_off c s = Inr s' \<Longrightarrow> lstep s s'"
| intr_on: "noff (hart s c) = 0 \<Longrightarrow> lstep s (hart_upd c (\<lambda>h. h\<lparr>intr := True\<rparr>) s)"
| intr_off: "lstep s (hart_upd c (\<lambda>h. h\<lparr>intr := False\<rparr>) s)"

definition lst_boot :: lst where
  "lst_boot = \<lparr>lk = (\<lambda>_. \<lparr>locked = False, lkcpu = None\<rparr>),
     hart = (\<lambda>_. \<lparr>noff = 0, intena = False, intr = False, lpc = Idle\<rparr>)\<rparr>"

inductive lreach :: "lst \<Rightarrow> bool" where
  boot: "lreach lst_boot"
| step: "lreach s \<Longrightarrow> lstep s s' \<Longrightarrow> lreach s'"

inductive_cases lstepE: "lstep s s'"

definition lock_inv :: "lst \<Rightarrow> bool" where
  "lock_inv s \<longleftrightarrow>
     (\<forall>l c c'. owns s c l \<longrightarrow> owns s c' l \<longrightarrow> c = c') \<and>
     (\<forall>l. locked (lk s l) \<longleftrightarrow> (\<exists>c. owns s c l)) \<and>
     (\<forall>l c. lkcpu (lk s l) = Some c \<longrightarrow> locked (lk s l)) \<and>
     (\<forall>l c. lpc (hart s c) = Won l \<or> lpc (hart s c) = Unlock l \<longrightarrow> lkcpu (lk s l) = None) \<and>
     (\<forall>c l. lpc (hart s c) = Spin l \<longrightarrow> \<not> owns s c l) \<and>
     (\<forall>c. finite (depth s c) \<and> int (card (depth s c)) \<le> noff (hart s c)) \<and>
     (\<forall>c. 0 < noff (hart s c) \<longrightarrow> \<not> intr (hart s c))"

section \<open>The invariant\<close>

lemma lock_invD:
  assumes "lock_inv s"
  shows "owns s c l \<Longrightarrow> owns s c' l \<Longrightarrow> c = c'" "locked (lk s l) \<longleftrightarrow> (\<exists>c. owns s c l)"
    "lkcpu (lk s l) = Some c \<Longrightarrow> locked (lk s l)"
    "lpc (hart s c) = Won l \<Longrightarrow> lkcpu (lk s l) = None"
    "lpc (hart s c) = Spin l \<Longrightarrow> \<not> owns s c l"
    "finite (depth s c)" "int (card (depth s c)) \<le> noff (hart s c)"
    "0 < noff (hart s c) \<Longrightarrow> \<not> intr (hart s c)"
    "lpc (hart s c) = Unlock l \<Longrightarrow> lkcpu (lk s l) = None"
  using assms unfolding lock_inv_def by blast+

text \<open>
  Only the lock part of the state and the program counters matter for ownership: a step that keeps
  them and changes the interrupt state of one hart consistently keeps the invariant.
\<close>

lemma owns_eq:
  "lk s' = lk s \<Longrightarrow> (\<And>c. lpc (hart s' c) = lpc (hart s c)) \<Longrightarrow> owns s' = owns s \<and> depth s' = depth s"
  by (intro conjI ext) (simp_all add: owns_def holding_def depth_def)

lemma lock_inv_irq:
  assumes "lock_inv s" "lk s' = lk s" "\<And>c. lpc (hart s' c) = lpc (hart s c)"
    "\<And>c. int (card (depth s c)) \<le> noff (hart s' c)" "\<And>c. 0 < noff (hart s' c) \<Longrightarrow> \<not> intr (hart s' c)"
  shows "lock_inv s'"
proof -
  have own: "owns s' = owns s" and dep: "depth s' = depth s" using owns_eq [OF assms(2,3)] by auto
  show ?thesis unfolding lock_inv_def own dep assms(2,3)
    using assms(1) [unfolded lock_inv_def] assms(4,5) by blast
qed

lemma push_off_simps [simp]:
  "lk (push_off c s) = lk s" "lpc (hart (push_off c s) d) = lpc (hart s d)"
  "noff (hart (push_off c s) d) = (if d = c then noff (hart s d) + 1 else noff (hart s d))"
  "intr (hart (push_off c s) d) = (if d = c then False else intr (hart s d))"
  by (simp_all add: push_off_def Let_def)

lemma pop_off_simps:
  assumes "pop_off c s = Inr s'"
  shows "lk s' = lk s" "lpc (hart s' d) = lpc (hart s d)"
    "noff (hart s' d) = (if d = c then noff (hart s d) - 1 else noff (hart s d))"
    "d \<noteq> c \<Longrightarrow> intr (hart s' d) = intr (hart s d)" "noff (hart s' c) \<noteq> 0 \<Longrightarrow> \<not> intr (hart s' c)"
  using assms by (auto simp: pop_off_def Let_def split: if_splits)

lemma push_off_inv: "lock_inv s \<Longrightarrow> lock_inv (push_off c s)"
  by (rule lock_inv_irq) (auto dest: lock_invD(8) intro: order_trans [OF lock_invD(7)])

lemma pop_off_inv:
  assumes "lock_inv s" "int (card (depth s c)) < noff (hart s c)" "pop_off c s = Inr s'"
  shows "lock_inv s'"
proof (rule lock_inv_irq [OF assms(1)])
  fix d
  show "int (card (depth s d)) \<le> noff (hart s' d)"
    using pop_off_simps(3) [OF assms(3), of d] lock_invD(7) [OF assms(1), of d] assms(2) by (cases "d = c") auto
  show "\<not> intr (hart s' d)" if "0 < noff (hart s' d)"
    using pop_off_simps(3-5) [OF assms(3)] lock_invD(8) [OF assms(1), of d] that by (cases "d = c") auto
qed (use pop_off_simps [OF assms(3)] in auto)

text \<open>A change of one hart's program counter that keeps what it owns, or extends what it waits for.\<close>

lemma enter_inv:
  assumes inv: "lock_inv s" and idle: "lpc (hart s c) = Idle" and no: "\<not> owns s c l"
    and e: "acquire_enter c l s = Inr s'"
  shows "lock_inv s'"
proof -
  have s': "s' = hart_upd c (\<lambda>h. h\<lparr>lpc := Spin l\<rparr>) (push_off c s)"
    using e by (auto simp: acquire_enter_def Let_def split: if_splits)
  have lp: "lpc (hart s' d) = (if d = c then Spin l else lpc (hart s d))" and lks: "lk s' = lk s" for d
    by (simp_all add: s')
  have nf: "noff (hart s' d) = (if d = c then noff (hart s d) + 1 else noff (hart s d))"
    and it: "intr (hart s' d) = (if d = c then False else intr (hart s d))" for d by (simp_all add: s')
  have own: "owns s' d k = owns s d k" for d k
    using idle by (auto simp: owns_def holding_def lp lks)
  have dep: "depth s' d = (if d = c then insert l (depth s c) else depth s d)" for d
    using idle by (auto simp: depth_def own lp)
  have "l \<notin> depth s c" using no idle by (simp add: depth_def)
  then have "int (card (depth s' d)) \<le> noff (hart s' d)" "finite (depth s' d)" for d
    using lock_invD(6,7) [OF inv, of d] by (auto simp: dep nf)
  then show ?thesis unfolding lock_inv_def own lks
    using lock_invD [OF inv] no by (auto simp: lp nf it split: if_splits)
qed

lemma swap_inv:
  assumes inv: "lock_inv s" and pc: "lpc (hart s c) = Spin l"
  shows "lock_inv (acquire_swap c l s)"
proof (cases "locked (lk s l)")
  case True
  then have "(lk s l)\<lparr>locked := True\<rparr> = lk s l" by simp
  then have "acquire_swap c l s = s" using True by (simp add: acquire_swap_def lk_upd_def fun_upd_idem)
  then show ?thesis using inv by simp
next
  case False
  let ?s = "acquire_swap c l s"
  have s': "lk ?s = (lk s)(l := (lk s l)\<lparr>locked := True\<rparr>)" "hart ?s = (hart s)(c := (hart s c)\<lparr>lpc := Won l\<rparr>)"
    using False by (simp_all add: acquire_swap_def Let_def)
  have nocpu: "lkcpu (lk s l) = None" using lock_invD(3) [OF inv, of l] False by (cases "lkcpu (lk s l)") auto
  have noown: "\<not> owns s d l" for d using lock_invD(2) [OF inv, of l] False by blast
  have own: "owns ?s d k = (owns s d k \<or> d = c \<and> k = l)" for d k
    using pc nocpu False by (cases "k = l"; cases "d = c") (auto simp: owns_def holding_def s')
  have dep: "depth ?s d = depth s d" for d
    using pc by (auto simp: depth_def own s' split: if_splits)
  show ?thesis unfolding lock_inv_def
  proof (intro conjI allI impI)
    fix d k assume "lpc (hart ?s d) = Spin k"
    then show "\<not> owns ?s d k" using lock_invD(5) [OF inv] by (auto simp: own s' split: if_splits)
  next
    fix k d assume "lpc (hart ?s d) = Won k \<or> lpc (hart ?s d) = Unlock k"
    then show "lkcpu (lk ?s k) = None"
      using lock_invD(4,9) [OF inv, of d k] nocpu by (auto simp: s' split: if_splits)
  qed (use lock_invD [OF inv] noown own dep in \<open>auto simp: s'\<close>)
qed

lemma owner_inv:
  assumes inv: "lock_inv s" and pc: "lpc (hart s c) = Won l"
  shows "lock_inv (acquire_done c l s)"
proof -
  let ?s = "acquire_done c l s"
  have s': "lk ?s = (lk s)(l := (lk s l)\<lparr>lkcpu := Some c\<rparr>)" "hart ?s = (hart s)(c := (hart s c)\<lparr>lpc := Idle\<rparr>)"
    by (simp_all add: acquire_done_def)
  have o: "owns s c l" using pc by (simp add: owns_def)
  have lo: "locked (lk s l)" using lock_invD(2) [OF inv] o by blast
  have nocpu: "lkcpu (lk s l) = None" using lock_invD(4,9) [OF inv] pc by blast
  have uniq: "owns s d l \<Longrightarrow> d = c" for d using lock_invD(1) [OF inv _ o] by blast
  have own: "owns ?s d k = owns s d k" for d k
    using pc lo nocpu by (cases "k = l"; cases "d = c") (auto simp: owns_def holding_def s')
  have dep: "depth ?s d = depth s d" for d
    using pc by (auto simp: depth_def own s' split: if_splits)
  show ?thesis unfolding lock_inv_def
  proof (intro conjI allI impI)
    fix k d assume a: "lpc (hart ?s d) = Won k \<or> lpc (hart ?s d) = Unlock k"
    then have "d \<noteq> c" "owns s d k" by (auto simp: s' owns_def split: if_splits)
    then show "lkcpu (lk ?s k) = None"
      using lock_invD(4,9) [OF inv, of d k] a uniq by (auto simp: s' split: if_splits)
  qed (use lock_invD [OF inv] own dep lo in \<open>auto simp: s' split: if_splits\<close>)
qed

lemma unlock_inv:
  assumes inv: "lock_inv s" and idle: "lpc (hart s c) = Idle" and r: "release_enter c l s = Inr s'"
  shows "lock_inv s'"
proof -
  have h: "holding c l s" and s0: "s' = hart_upd c (\<lambda>h. h\<lparr>lpc := Unlock l\<rparr>) (lk_upd l (\<lambda>k. k\<lparr>lkcpu := None\<rparr>) s)"
    using r by (auto simp: release_enter_def split: if_splits)
  have s': "lk s' = (lk s)(l := (lk s l)\<lparr>lkcpu := None\<rparr>)" "hart s' = (hart s)(c := (hart s c)\<lparr>lpc := Unlock l\<rparr>)"
    by (simp_all add: s0)
  have o: "owns s c l" using h by (simp add: owns_def)
  have own: "owns s' d k = owns s d k" for d k
    using idle h by (cases "k = l"; cases "d = c") (auto simp: owns_def holding_def s')
  have dep: "depth s' d = depth s d" for d
    using idle by (auto simp: depth_def own s' split: if_splits)
  show ?thesis unfolding lock_inv_def
  proof (intro conjI allI impI)
    fix k d assume a: "lpc (hart s' d) = Won k \<or> lpc (hart s' d) = Unlock k"
    then show "lkcpu (lk s' k) = None"
      using lock_invD(4,9) [OF inv, of d k] by (auto simp: s' split: if_splits)
  qed (use lock_invD [OF inv] own dep in \<open>auto simp: s' split: if_splits\<close>)
qed

lemma unlocked_inv:
  assumes inv: "lock_inv s" and pc: "lpc (hart s c) = Unlock l" and r: "release_swap c l s = Inr s'"
  shows "lock_inv s'"
proof -
  let ?t = "hart_upd c (\<lambda>h. h\<lparr>lpc := Idle\<rparr>) (lk_upd l (\<lambda>k. k\<lparr>locked := False\<rparr>) s)"
  have o: "owns s c l" using pc by (simp add: owns_def)
  have nocpu: "lkcpu (lk s l) = None" using lock_invD(4,9) [OF inv] pc by blast
  have uniq: "owns s d l \<Longrightarrow> d = c" for d using lock_invD(1) [OF inv _ o] by blast
  have own: "owns ?t d k = (owns s d k \<and> k \<noteq> l)" for d k
    using pc nocpu uniq by (cases "k = l"; cases "d = c") (auto simp: owns_def holding_def)
  have dep: "depth ?t d = (if d = c then depth s c - {l} else depth s d)" for d
    using pc uniq by (auto simp: depth_def own split: if_splits)
  have l: "l \<in> depth s c" using o by (simp add: depth_def)
  have it: "lock_inv ?t" unfolding lock_inv_def
  proof (intro conjI allI impI)
    fix k d assume a: "lpc (hart ?t d) = Won k \<or> lpc (hart ?t d) = Unlock k"
    then show "lkcpu (lk ?t k) = None"
      using lock_invD(4,9) [OF inv, of d k] by (auto split: if_splits)
  next
    fix d show "int (card (depth ?t d)) \<le> noff (hart ?t d)"
      using lock_invD(6,7) [OF inv, of d] card_Diff1_le [of "depth s c" l] by (auto simp: dep)
  next
    fix k show "locked (lk ?t k) = (\<exists>d. owns ?t d k)"
      using lock_invD(2) [OF inv, of k] own by auto
  qed (use lock_invD [OF inv] own dep nocpu in \<open>auto split: if_splits\<close>)
  have ct: "int (card (depth ?t c)) < noff (hart ?t c)"
  proof -
    have "card (depth s c - {l}) < card (depth s c)" using l lock_invD(6) [OF inv] by (intro card_Diff1_less)
    then show ?thesis using lock_invD(7) [OF inv, of c] by (simp add: dep)
  qed
  show ?thesis by (rule pop_off_inv [OF it ct r [unfolded release_swap_def]])
qed

lemma lock_inv_boot: "lock_inv lst_boot"
  by (simp add: lock_inv_def lst_boot_def owns_def holding_def depth_def)

lemma lstep_inv: "lstep s s' \<Longrightarrow> lock_inv s \<Longrightarrow> lock_inv s'"
proof (induction rule: lstep.induct)
  case (intr_on s c)
  show ?case
  proof (rule lock_inv_irq [OF intr_on(2)])
    fix d
    let ?s = "hart_upd c (\<lambda>h. h\<lparr>intr := True\<rparr>) s"
    show "int (card (depth s d)) \<le> noff (hart ?s d)"
      using lock_invD(7) [OF intr_on(2), of d] by (cases "d = c") simp_all
    show "0 < noff (hart ?s d) \<Longrightarrow> \<not> intr (hart ?s d)"
      using lock_invD(8) [OF intr_on(2), of d] intr_on(1) by (cases "d = c") simp_all
  qed simp_all
next
  case (intr_off s c)
  show ?case by (rule lock_inv_irq [OF intr_off]) (use lock_invD(7,8) [OF intr_off] in auto)
next
  case (enter s c l s')
  then show ?case using enter_inv by blast
next
  case (unlock s c l s')
  then show ?case using unlock_inv by blast
next
  case (unlocked s c l s')
  then show ?case using unlocked_inv by blast
next
  case (pop s c s')
  then show ?case using pop_off_inv by blast
qed (simp_all add: swap_inv owner_inv push_off_inv)

lemma lreach_inv: "lreach s \<Longrightarrow> lock_inv s"
  by (induction rule: lreach.induct) (auto intro: lock_inv_boot lstep_inv)

section \<open>Sequential use\<close>

text \<open>Nested \<^verbatim>\<open>push_off\<close> and \<^verbatim>\<open>pop_off\<close>.\<close>

fun push_n :: "nat \<Rightarrow> nat \<Rightarrow> lst \<Rightarrow> lst" where
  "push_n c 0 s = s"
| "push_n c (Suc n) s = push_n c n (push_off c s)"

fun pop_n :: "nat \<Rightarrow> nat \<Rightarrow> lst \<Rightarrow> lst res" where
  "pop_n c 0 s = Inr s"
| "pop_n c (Suc n) s = bnd (pop_off c s) (pop_n c n)"

text \<open>The interrupt state of a hart in terms of its depth \<open>n\<close>: off while nested.\<close>

definition nested :: "nat \<Rightarrow> nat \<Rightarrow> bool \<Rightarrow> lst \<Rightarrow> bool" where
  "nested c n b s \<longleftrightarrow> noff (hart s c) = int n \<and> (if n = 0 then intr (hart s c) = b else \<not> intr (hart s c) \<and> intena (hart s c) = b)"

lemma push_off_nested: "nested c n b s \<Longrightarrow> nested c (Suc n) b (push_off c s)"
  by (auto simp: nested_def push_off_def Let_def)

lemma pop_off_nested: "nested c (Suc n) b s \<Longrightarrow> \<exists>s'. pop_off c s = Inr s' \<and> nested c n b s' \<and> lk s' = lk s"
  by (auto simp: nested_def pop_off_def Let_def)

lemma push_n_nested: "nested c k b s \<Longrightarrow> nested c (n + k) b (push_n c n s)"
proof (induction n arbitrary: s k)
  case (Suc n)
  then show ?case using Suc.IH [OF push_off_nested [OF Suc.prems]] by simp
qed simp

lemma pop_n_nested: "nested c (n + k) b s \<Longrightarrow> \<exists>s'. pop_n c n s = Inr s' \<and> nested c k b s'"
proof (induction n arbitrary: s)
  case (Suc n)
  then show ?case using pop_off_nested [of c "n + k" b s] by fastforce
qed auto

section \<open>Properties\<close>

text \<open>
  C24: in every reachable state of any number of harts that interleave their lock operations, no
  two harts use the same lock at once, a lock is marked as taken exactly while a hart uses it, and
  a hart that uses or waits for a lock has its interrupts off.
\<close>

theorem mutual_exclusion:
  assumes "lreach s"
  shows "(owns s c l \<and> owns s c' l \<longrightarrow> c = c') \<and> (locked (lk s l) \<longleftrightarrow> (\<exists>d. owns s d l)) \<and>
    (l \<in> depth s c \<longrightarrow> \<not> intr (hart s c))"
proof -
  note inv = lreach_inv [OF assms]
  have "0 < noff (hart s c)" if "l \<in> depth s c"
  proof -
    have "0 < card (depth s c)" using that lock_invD(6) [OF inv] by (auto simp: card_gt_0_iff)
    then show ?thesis using lock_invD(7) [OF inv, of c] by linarith
  qed
  then show ?thesis using lock_invD(1,2,8) [OF inv] by blast
qed

theorem mutual_exclusion_witness:
  "\<exists>s. lreach s \<and> owns s 0 7 \<and> \<not> owns s 1 7 \<and> \<not> intr (hart s 0)"
proof -
  let ?s1 = "hart_upd 0 (\<lambda>h. h\<lparr>lpc := Spin 7\<rparr>) (push_off 0 lst_boot)"
  let ?s2 = "acquire_swap 0 7 ?s1"
  have "acquire_enter 0 7 lst_boot = Inr ?s1"
    by (simp add: acquire_enter_def holding_def lst_boot_def push_off_def hart_upd_def)
  moreover have "\<not> owns lst_boot 0 7" "lpc (hart lst_boot 0) = Idle" by (simp_all add: lst_boot_def owns_def holding_def)
  ultimately have "lstep lst_boot ?s1" by (intro lstep.enter)
  moreover have "lstep ?s1 ?s2" by (rule lstep.swap) simp
  ultimately have r: "lreach ?s2" by (meson lreach.intros)
  have o: "owns ?s2 0 7" by (simp add: owns_def acquire_swap_def lst_boot_def push_off_def hart_upd_def lk_upd_def)
  then have "7 \<in> depth ?s2 0" by (simp add: depth_def)
  then show ?thesis using r o mutual_exclusion [OF r, of 0 7 1] by (intro exI [of _ ?s2]) auto
qed

text \<open>
  The lock operations do not panic in a reachable state where their callers keep the
  discipline: a hart that holds a lock can release it and the release completes, a hart that waits
  can take the lock once it is free; acquiring a lock that the hart holds already panics instead
  of spinning for ever.
\<close>

theorem lock_operations_progress:
  assumes "lreach s" "lpc (hart s c) = Idle"
  shows "if holding c l s then acquire_enter c l s = Inl (Panic ''acquire'') \<and>
        (\<exists>s1 s2. release_enter c l s = Inr s1 \<and> release_swap c l s1 = Inr s2 \<and> \<not> locked (lk s2 l) \<and>
           noff (hart s2 c) = noff (hart s c) - 1)
      else release_enter c l s = Inl (Panic ''release'') \<and>
        (\<exists>s1. acquire_enter c l s = Inr s1 \<and> (\<not> locked (lk s l) \<longrightarrow> holding c l (acquire_done c l (acquire_swap c l s1))))"
proof -
  note inv = lreach_inv [OF assms(1)]
  show ?thesis
  proof (cases "holding c l s")
    case True
    then have "l \<in> depth s c" by (simp add: depth_def owns_def)
    then have "0 < card (depth s c)" using lock_invD(6) [OF inv] by (auto simp: card_gt_0_iff)
    then have n: "0 < noff (hart s c)" using lock_invD(7) [OF inv, of c] by linarith
    then have "\<not> intr (hart s c)" using lock_invD(8) [OF inv] by blast
    then show ?thesis using True n
      by (simp add: acquire_enter_def release_enter_def release_swap_def pop_off_def Let_def) (simp add: holding_def)
  next
    case False
    then show ?thesis
      by (simp add: acquire_enter_def release_enter_def acquire_done_def acquire_swap_def Let_def) (simp add: holding_def)
  qed
qed

theorem lock_operations_progress_witness:
  "lreach lst_boot \<and> release_enter 0 3 lst_boot = Inl (Panic ''release'')"
  using lock_operations_progress [OF lreach.boot, of 0 3] lreach.boot
  by (simp add: lst_boot_def holding_def split: if_splits)

text \<open>
  \<^verbatim>\<open>push_off\<close> and \<^verbatim>\<open>pop_off\<close> are matched: after \<open>n\<close> of the first,
  interrupts are off, and \<open>n\<close> of the second restore the interrupt state and the depth.
\<close>

theorem push_pop_nested:
  assumes "noff (hart s c) = 0"
  shows "(0 < n \<longrightarrow> \<not> intr (hart (push_n c n s) c)) \<and>
    (\<exists>s'. pop_n c n (push_n c n s) = Inr s' \<and> intr (hart s' c) = intr (hart s c) \<and> noff (hart s' c) = 0)"
proof -
  have "nested c 0 (intr (hart s c)) s" using assms by (simp add: nested_def)
  then have "nested c n (intr (hart s c)) (push_n c n s)" using push_n_nested [of c 0 _ s n] by simp
  moreover from this obtain s' where "pop_n c n (push_n c n s) = Inr s'" "nested c 0 (intr (hart s c)) s'"
    using pop_n_nested [of c n 0 _ "push_n c n s"] by auto
  ultimately show ?thesis by (auto simp: nested_def)
qed

theorem push_pop_nested_witness:
  "\<exists>s'. pop_n 0 3 (push_n 0 3 lst_boot) = Inr s' \<and> noff (hart s' 0) = 0"
  using push_pop_nested [of lst_boot 0 3] by (auto simp: lst_boot_def)

end
