(* ===== verification/RunQueue.thy ===== *)
theory RunQueue
  imports Prelude
begin

text \<open>
  The run queues of the MLFQ scheduler: \<^verbatim>\<open>kernel/queue.h\<close> and
  \<^verbatim>\<open>kernel/queue.c\<close>. One table of \<^verbatim>\<open>NPROC + 2 * NUM_QUEUES\<close>
  entries holds three doubly linked lists. Entry \<open>i < NPROC\<close> belongs to process \<open>i\<close>;
  entries \<open>64 + 2 q\<close> and \<open>65 + 2 q\<close> are the head and the tail of queue \<open>q\<close>.
  The theory gives the operations on the table, the abstraction of a table to three lists of
  process indices, and the refinement of every operation to the list operation it stands for.
\<close>

section \<open>The table and its macros\<close>

abbreviation (input) NUM_QUEUES :: int where "NUM_QUEUES \<equiv> 3"
abbreviation (input) QTABLE_SIZE :: int where "QTABLE_SIZE \<equiv> 70"
abbreviation (input) QUEUE_HIGH :: int where "QUEUE_HIGH \<equiv> 2"
abbreviation (input) QUEUE_MEDIUM :: int where "QUEUE_MEDIUM \<equiv> 1"
abbreviation (input) QUEUE_LOW :: int where "QUEUE_LOW \<equiv> 0"
abbreviation (input) DEFAULT_PASS :: u64 where "DEFAULT_PASS \<equiv> 1"
abbreviation (input) EMPTY :: int where "EMPTY \<equiv> -1"

record qentry =
  qpass :: u64
  qprev :: u64
  qnext :: u64

type_synonym qtable = "qentry list"

text \<open>The table before the first call: a global array, which C fills with zero bytes.\<close>

definition qtable_bss :: qtable where
  "qtable_bss = replicate 70 \<lparr>qpass = 0, qprev = 0, qnext = 0\<rparr>"

definition gethead :: "int \<Rightarrow> int" where
  "gethead q = int NPROC + q * 2"

definition gettail :: "int \<Rightarrow> int" where
  "gettail q = int NPROC + q * 2 + 1"

text \<open>Reads and writes of \<^verbatim>\<open>qtable[i]\<close>: an index outside the table is undefined.\<close>

definition qget :: "qtable \<Rightarrow> int \<Rightarrow> qentry res" where
  "qget qt i = (if 0 \<le> i \<and> i < QTABLE_SIZE then Inr (qt ! nat i) else Inl OutOfBounds)"

definition qupd :: "qtable \<Rightarrow> int \<Rightarrow> (qentry \<Rightarrow> qentry) \<Rightarrow> qtable res" where
  "qupd qt i f =
     (if 0 \<le> i \<and> i < QTABLE_SIZE then Inr (qt[nat i := f (qt ! nat i)]) else Inl OutOfBounds)"

definition set_pass :: "u64 \<Rightarrow> qentry \<Rightarrow> qentry" where "set_pass v e = e\<lparr>qpass := v\<rparr>"
definition set_prev :: "u64 \<Rightarrow> qentry \<Rightarrow> qentry" where "set_prev v e = e\<lparr>qprev := v\<rparr>"
definition set_next :: "u64 \<Rightarrow> qentry \<Rightarrow> qentry" where "set_next v e = e\<lparr>qnext := v\<rparr>"

lemmas set_field_defs = set_pass_def set_prev_def set_next_def

definition firstid :: "qtable \<Rightarrow> int \<Rightarrow> u64 res" where
  "firstid qt q = bnd (qget qt q) (\<lambda>e. Inr (qnext e))"

definition nonempty :: "qtable \<Rightarrow> int \<Rightarrow> bool res" where
  "nonempty qt q = bnd (firstid qt q) (\<lambda>f. Inr (f < 64))"

section \<open>The operations of queue.c\<close>

text \<open>
  The four stores that splice \<^verbatim>\<open>to_insert\<close> in after \<^verbatim>\<open>curr\<close>, in the
  order of the code; the last store follows the link written by the second.
\<close>

definition splice_after :: "qtable \<Rightarrow> u64 \<Rightarrow> u64 \<Rightarrow> u64 \<Rightarrow> qtable res" where
  "splice_after qt0 cur to_insert p =
     bnd (qupd qt0 (uint to_insert) (set_pass p)) (\<lambda>qt1.
     bnd (qget qt1 (uint cur)) (\<lambda>c.
     bnd (qupd qt1 (uint to_insert) (set_next (qnext c))) (\<lambda>qt2.
     bnd (qupd qt2 (uint to_insert) (set_prev cur)) (\<lambda>qt3.
     bnd (qupd qt3 (uint cur) (set_next to_insert)) (\<lambda>qt4.
     bnd (qget qt4 (uint to_insert)) (\<lambda>t.
     qupd qt4 (uint (qnext t)) (set_prev to_insert)))))))"

definition enqueue :: "qtable \<Rightarrow> int \<Rightarrow> u64 \<Rightarrow> u64 \<Rightarrow> qtable res" where
  "enqueue qt queue_num to_insert p =
     splice_after qt (word_of_int (gethead queue_num)) to_insert p"

definition enqueue_back :: "qtable \<Rightarrow> int \<Rightarrow> u64 \<Rightarrow> u64 \<Rightarrow> qtable res" where
  "enqueue_back qt queue_num to_insert p =
     bnd (qget qt (gettail queue_num)) (\<lambda>t.
     splice_after qt (qprev t) to_insert p)"

text \<open>
  The first store of \<^verbatim>\<open>remove_pid\<close> and the other three. \<^verbatim>\<open>scheduler\<close> reaches them with
  interrupts on and no lock held, so an interrupt handler that enqueues can run in between; what
  then happens is \<open>dequeue_race_loses\<close> below.
\<close>

definition unlink_next :: "qtable \<Rightarrow> int \<Rightarrow> qtable res" where
  "unlink_next qt pid_to_delete =
     bnd (qget qt pid_to_delete) (\<lambda>d. qupd qt (uint (qprev d)) (set_next (qnext d)))"

definition unlink_rest :: "qtable \<Rightarrow> int \<Rightarrow> qtable res" where
  "unlink_rest qt1 pid_to_delete =
     bnd (qget qt1 pid_to_delete) (\<lambda>d.
     bnd (qupd qt1 (uint (qnext d)) (set_prev (qprev d))) (\<lambda>qt2.
     bnd (qupd qt2 pid_to_delete (set_next 999)) (\<lambda>qt3.
     qupd qt3 pid_to_delete (set_prev 999))))"

definition remove_pid :: "qtable \<Rightarrow> int \<Rightarrow> qtable res" where
  "remove_pid qt pid_to_delete =
     bnd (unlink_next qt pid_to_delete) (\<lambda>qt1. unlink_rest qt1 pid_to_delete)"

lemmas remove_pid_defs = remove_pid_def unlink_next_def unlink_rest_def

text \<open>
  The scan of \<^verbatim>\<open>dequeue\<close>. The loop variable is a \<^verbatim>\<open>uint64_t\<close>, so the
  loop condition \<^verbatim>\<open>i >= QUEUE_LOW\<close> always holds and \<^verbatim>\<open>--i\<close> wraps
  from 0 to the largest word: the loop ends only at an entry whose \<^verbatim>\<open>next\<close> is below
  \<^verbatim>\<open>NPROC\<close> or at an index outside the table.
\<close>

definition scan_idx :: "u64 \<Rightarrow> u64" where
  "scan_idx i = 64 + push_bit 1 i"

definition scan_left :: "u64 \<Rightarrow> nat" where
  "scan_left i = (let idx = unat (scan_idx i) in if idx < 70 then Suc idx else 0)"

lemma scan_idx_pred: "scan_idx (i - 1) = scan_idx i - 2"
  by (simp add: scan_idx_def push_bit_eq_mult algebra_simps)

lemma unat_minus_2:
  fixes x :: u64
  shows "unat (x - 2) = (if 2 \<le> unat x then unat x - 2 else unat x + 2 ^ 64 - 2)"
  using unat_sub_if_size [of x 2] by (simp add: word_size word_le_nat_alt)

lemma scan_left_pred:
  assumes "uint (scan_idx i) < QTABLE_SIZE"
  shows "scan_left (i - 1) < scan_left i"
proof -
  define n where "n = unat (scan_idx i)"
  have b: "n < 70"
    using assms int_unat [of "scan_idx i"] unfolding n_def by linarith
  have m: "unat (scan_idx (i - 1)) = (if 2 \<le> n then n - 2 else n + 2 ^ 64 - 2)"
    unfolding scan_idx_pred unat_minus_2 n_def ..
  have "(70::nat) \<le> 2 ^ 64 - 2"
    by simp
  then have "70 \<le> n + 2 ^ 64 - 2"
    by linarith
  then have "unat (scan_idx (i - 1)) < 70 \<Longrightarrow> unat (scan_idx (i - 1)) < n"
    unfolding m by (auto split: if_splits)
  then show ?thesis
    unfolding scan_left_def Let_def n_def [symmetric] using b by auto
qed

function dequeue_scan :: "qtable \<Rightarrow> u64 \<Rightarrow> u64 res" where
  "dequeue_scan qt i =
     (let idx = scan_idx i in
      bnd (nonempty qt (uint idx)) (\<lambda>ne.
      if ne then Inr idx else dequeue_scan qt (i - 1)))"
  by pat_completeness auto
termination
  by (relation "measure (\<lambda>(qt, i). scan_left i)")
    (auto simp: nonempty_def firstid_def qget_def Let_def intro!: scan_left_pred split: if_splits)

text \<open>
  \<^verbatim>\<open>dequeue\<close> returns the process index and the new table. The code's
  \<^verbatim>\<open>head == EMPTY\<close> test comes after a loop that can only leave with
  \<^verbatim>\<open>head = idx\<close>, an index of the table.
\<close>

definition dequeue :: "qtable \<Rightarrow> (int \<times> qtable) res" where
  "dequeue qt =
     bnd (dequeue_scan qt 2) (\<lambda>idx.
     let head = uint idx in
     if head = EMPTY then Inr (head, qt)
     else bnd (firstid qt head) (\<lambda>to_delete.
          bnd (remove_pid qt (sint (ucast to_delete :: 32 word))) (\<lambda>qt'.
          Inr (sint to_delete, qt'))))"

text \<open>\<^verbatim>\<open>initialize\<close>: the loop runs over the heads, two entries per step.\<close>

function initialize_loop :: "int \<Rightarrow> qtable \<Rightarrow> qtable res" where
  "initialize_loop i qt0 =
     (if i < QTABLE_SIZE then
        bnd (qupd qt0 i (set_next (word_of_int (i + 1)))) (\<lambda>qt1.
        bnd (qupd qt1 (i + 1) (set_prev (word_of_int i))) (\<lambda>qt2.
        bnd (qupd qt2 i (set_pass 0)) (\<lambda>qt3.
        bnd (qupd qt3 (i + 1) (set_pass 65535)) (\<lambda>qt4.
        initialize_loop (i + 2) qt4))))
      else Inr qt0)"
  by pat_completeness auto
termination
  by (relation "measure (\<lambda>(i, qt). nat (QTABLE_SIZE - i))") auto

definition initialize :: "qtable \<Rightarrow> int \<Rightarrow> qtable res" where
  "initialize qt num_queues = initialize_loop (QTABLE_SIZE - num_queues * 2) qt"

declare dequeue_scan.simps [simp del] initialize_loop.simps [simp del]


lemma all_less_three: "(\<forall>q<3. P q) \<longleftrightarrow> P 0 \<and> P 1 \<and> P (2::nat)"
  by (auto simp: less_Suc_eq numeral_3_eq_3 numeral_2_eq_2)

section \<open>Abstraction: three lists of process indices\<close>

text \<open>
  An abstract state gives for every queue number the list of processes in it, front first.
  Two entries are linked when the \<^verbatim>\<open>next\<close> of one and the \<^verbatim>\<open>prev\<close> of
  the other agree; a queue is the chain from its head through its processes to its tail.
\<close>

type_synonym mlfq = "nat \<Rightarrow> nat list"

definition linked :: "qtable \<Rightarrow> nat \<Rightarrow> nat \<Rightarrow> bool" where
  "linked qt a b \<longleftrightarrow> qnext (qt ! a) = word_of_nat b \<and> qprev (qt ! b) = word_of_nat a"

definition nodes :: "nat \<Rightarrow> nat list \<Rightarrow> nat list" where
  "nodes q xs = (64 + 2 * q) # xs @ [65 + 2 * q]"

definition rq_inv :: "qtable \<Rightarrow> mlfq \<Rightarrow> bool" where
  "rq_inv qt Q \<longleftrightarrow> length qt = 70 \<and>
     (\<forall>q<3. successively (linked qt) (nodes q (Q q)) \<and> distinct (Q q) \<and> set (Q q) \<subseteq> {..<64}) \<and>
     (\<forall>q<3. \<forall>r<3. q \<noteq> r \<longrightarrow> set (Q q) \<inter> set (Q r) = {})"

definition queued :: "mlfq \<Rightarrow> nat set" where
  "queued Q = (\<Union>q<3. set (Q q))"

lemma rq_invD:
  assumes "rq_inv qt Q"
  shows "length qt = 70"
    and "q < 3 \<Longrightarrow> successively (linked qt) (nodes q (Q q))"
    and "q < 3 \<Longrightarrow> distinct (Q q)"
    and "q < 3 \<Longrightarrow> set (Q q) \<subseteq> {..<64}"
    and "q < 3 \<Longrightarrow> r < 3 \<Longrightarrow> q \<noteq> r \<Longrightarrow> set (Q q) \<inter> set (Q r) = {}"
  using assms unfolding rq_inv_def by blast+

lemma distinct_nodes [simp]:
  "distinct xs \<Longrightarrow> set xs \<subseteq> {..<64} \<Longrightarrow> distinct (nodes q xs)"
  by (force simp: nodes_def)

lemma set_nodes_bound: "q < 3 \<Longrightarrow> set xs \<subseteq> {..<64} \<Longrightarrow> set (nodes q xs) \<subseteq> {..<70}"
  by (auto simp: nodes_def)

lemma nodes_disjoint:
  "q \<noteq> r \<Longrightarrow> set xs \<subseteq> {..<64} \<Longrightarrow> set ys \<subseteq> {..<64} \<Longrightarrow> set xs \<inter> set ys = {} \<Longrightarrow>
   set (nodes q xs) \<inter> set (nodes r ys) = {}"
  by (force simp: nodes_def)

text \<open>What a change of links does to a chain that does not meet the changed entries.\<close>

lemma chain_frame:
  assumes "\<And>x. x \<in> set (butlast zs) \<Longrightarrow> qnext (qt' ! x) = qnext (qt ! x)"
    and "\<And>x. x \<in> set (tl zs) \<Longrightarrow> qprev (qt' ! x) = qprev (qt ! x)"
  shows "successively (linked qt') zs = successively (linked qt) zs"
  using assms
proof (induction zs rule: induct_list012)
  case (3 x y zs)
  then have "successively (linked qt') (y # zs) = successively (linked qt) (y # zs)"
    by (intro "3.IH") (auto split: if_splits)
  moreover have "linked qt' x y = linked qt x y"
    using "3.prems" by (simp add: linked_def)
  ultimately show ?case by simp
qed simp_all

definition spliced :: "qtable \<Rightarrow> nat \<Rightarrow> nat \<Rightarrow> nat \<Rightarrow> qtable \<Rightarrow> bool" where
  "spliced qt a p b qt' \<longleftrightarrow> length qt' = 70 \<and>
     (\<forall>x<70. qnext (qt' ! x) = (if x = p then word_of_nat b else if x = a then word_of_nat p
                                 else qnext (qt ! x))) \<and>
     (\<forall>x<70. qprev (qt' ! x) = (if x = p then word_of_nat a else if x = b then word_of_nat p
                                 else qprev (qt ! x)))"

definition unspliced :: "qtable \<Rightarrow> nat \<Rightarrow> nat \<Rightarrow> nat \<Rightarrow> qtable \<Rightarrow> bool" where
  "unspliced qt a p b qt' \<longleftrightarrow> length qt' = 70 \<and>
     (\<forall>x<70. qnext (qt' ! x) = (if x = p then 999 else if x = a then word_of_nat b
                                 else qnext (qt ! x))) \<and>
     (\<forall>x<70. qprev (qt' ! x) = (if x = p then 999 else if x = b then word_of_nat a
                                 else qprev (qt ! x)))"

lemma splice_after_spliced:
  assumes "length qt = 70" "a < 70" "p < 70" "b < 70" "distinct [a, p, b]"
    and "qnext (qt ! a) = word_of_nat b"
  shows "\<exists>qt'. splice_after qt (word_of_nat a) (word_of_nat p) v = Inr qt' \<and> spliced qt a p b qt'"
  using assms
  by (simp add: splice_after_def qupd_def qget_def spliced_def set_field_defs nth_list_update)

lemma remove_pid_unspliced:
  assumes "length qt = 70" "a < 70" "p < 70" "b < 70" "distinct [a, p, b]"
    and "linked qt a p" "linked qt p b"
  shows "\<exists>qt'. remove_pid qt (int p) = Inr qt' \<and> unspliced qt a p b qt'"
  using assms
  by (simp add: remove_pid_defs qupd_def qget_def unspliced_def linked_def set_field_defs nth_list_update)

lemma splicedD:
  assumes "spliced qt a p b qt'" "x < 70" "x \<noteq> p"
  shows "x \<noteq> a \<Longrightarrow> qnext (qt' ! x) = qnext (qt ! x)"
    and "x \<noteq> b \<Longrightarrow> qprev (qt' ! x) = qprev (qt ! x)"
  using assms by (simp_all add: spliced_def)

lemma unsplicedD:
  assumes "unspliced qt a p b qt'" "x < 70" "x \<noteq> p"
  shows "x \<noteq> a \<Longrightarrow> qnext (qt' ! x) = qnext (qt ! x)"
    and "x \<noteq> b \<Longrightarrow> qprev (qt' ! x) = qprev (qt ! x)"
  using assms by (simp_all add: unspliced_def)

text \<open>The two halves of a chain on either side of the pair that changes.\<close>

lemma chain_halves:
  assumes n: "\<And>x. x < 70 \<Longrightarrow> x \<noteq> p \<Longrightarrow> x \<noteq> a \<Longrightarrow> qnext (qt' ! x) = qnext (qt ! x)"
    and p: "\<And>x. x < 70 \<Longrightarrow> x \<noteq> p \<Longrightarrow> x \<noteq> b \<Longrightarrow> qprev (qt' ! x) = qprev (qt ! x)"
    and d: "distinct (xs @ a # b # ys)" "p \<notin> set (xs @ a # b # ys)"
    and le: "set (xs @ a # b # ys) \<subseteq> {..<70}"
  shows "successively (linked qt') (xs @ [a]) = successively (linked qt) (xs @ [a])"
    and "successively (linked qt') (b # ys) = successively (linked qt) (b # ys)"
proof -
  show "successively (linked qt') (xs @ [a]) = successively (linked qt) (xs @ [a])"
  proof (rule chain_frame)
    fix x assume "x \<in> set (butlast (xs @ [a]))"
    then show "qnext (qt' ! x) = qnext (qt ! x)"
      using d le by (intro n) auto
  next
    fix x assume "x \<in> set (tl (xs @ [a]))"
    then have "x \<in> set (xs @ [a])" by (cases xs) auto
    then show "qprev (qt' ! x) = qprev (qt ! x)"
      using d le by (intro p) auto
  qed
  show "successively (linked qt') (b # ys) = successively (linked qt) (b # ys)"
  proof (rule chain_frame)
    fix x assume "x \<in> set (butlast (b # ys))"
    then have "x \<in> set (b # ys)" by (rule in_set_butlastD)
    then show "qnext (qt' ! x) = qnext (qt ! x)"
      using d le by (intro n) auto
  next
    fix x assume "x \<in> set (tl (b # ys))"
    then show "qprev (qt' ! x) = qprev (qt ! x)"
      using d le by (intro p) auto
  qed
qed

lemma chain_spliced:
  assumes sp: "spliced qt a p b qt'"
    and ch: "successively (linked qt) (xs @ a # b # ys)"
    and d: "distinct (xs @ a # b # ys)" "p \<notin> set (xs @ a # b # ys)"
    and le: "set (xs @ a # b # ys) \<subseteq> {..<70}" "p < 70"
  shows "successively (linked qt') (xs @ a # p # b # ys)"
proof -
  note halves = chain_halves [OF splicedD(1) [OF sp] splicedD(2) [OF sp] d le(1)]
  have "linked qt' a p" "linked qt' p b"
    using sp d le by (auto simp: linked_def spliced_def)
  then show ?thesis
    using ch halves by (simp add: successively_append_iff successively_Cons)
qed

lemma chain_unspliced:
  assumes sp: "unspliced qt a p b qt'"
    and ch: "successively (linked qt) (xs @ a # p # b # ys)"
    and d: "distinct (xs @ a # p # b # ys)"
    and le: "set (xs @ a # p # b # ys) \<subseteq> {..<70}"
  shows "successively (linked qt') (xs @ a # b # ys)"
proof -
  have "distinct (xs @ a # b # ys)" "p \<notin> set (xs @ a # b # ys)" "set (xs @ a # b # ys) \<subseteq> {..<70}"
    using d le by auto
  note halves = chain_halves [OF unsplicedD(1) [OF sp] unsplicedD(2) [OF sp] this]
  have "linked qt' a b"
    using sp d le by (auto simp: linked_def unspliced_def)
  then show ?thesis
    using ch halves by (simp add: successively_append_iff successively_Cons)
qed

section \<open>Refinement of the operations\<close>

abbreviation pid_word :: "nat \<Rightarrow> u64" where
  "pid_word p \<equiv> word_of_nat p"

lemma rq_inv_update:
  assumes inv: "rq_inv qt Q" and q: "q < 3" and len: "length qt' = 70"
    and chain: "successively (linked qt') (nodes q xs)"
    and xs: "distinct xs" "set xs \<subseteq> {..<64}"
    and dis: "\<And>r. r < 3 \<Longrightarrow> r \<noteq> q \<Longrightarrow> set xs \<inter> set (Q r) = {}"
    and frame: "\<And>r x. r < 3 \<Longrightarrow> r \<noteq> q \<Longrightarrow> x \<in> set (nodes r (Q r)) \<Longrightarrow>
      qnext (qt' ! x) = qnext (qt ! x) \<and> qprev (qt' ! x) = qprev (qt ! x)"
  shows "rq_inv qt' (Q(q := xs))"
proof -
  have "successively (linked qt') (nodes r (Q r))" if r: "r < 3" "r \<noteq> q" for r
  proof -
    have "successively (linked qt') (nodes r (Q r)) = successively (linked qt) (nodes r (Q r))"
      by (rule chain_frame) (use frame [OF r] in \<open>auto simp: nodes_def dest: in_set_butlastD\<close>)
    with rq_invD(2) [OF inv r(1)] show ?thesis by simp
  qed
  with assms rq_invD [OF inv] show ?thesis
    unfolding rq_inv_def by (simp add: Int_commute)
qed

lemma enqueue_between:
  assumes inv: "rq_inv qt Q" and q: "q < 3" and p: "p < 64" "p \<notin> queued Q"
    and split: "nodes q (Q q) = us @ a # b # vs"
    and result: "nodes q xs = us @ a # p # b # vs" "set xs = insert p (set (Q q))" "distinct xs"
  shows "\<exists>qt'. splice_after qt (word_of_nat a) (pid_word p) v = Inr qt' \<and> rq_inv qt' (Q(q := xs))"
proof -
  note inv' = rq_invD [OF inv]
  have pn: "p \<notin> set (nodes r (Q r))" if "r < 3" for r
    using p that by (auto simp: nodes_def queued_def)
  have d: "distinct (us @ a # b # vs)" "set (us @ a # b # vs) \<subseteq> {..<70}" "p \<notin> set (us @ a # b # vs)"
    unfolding split [symmetric]
    using inv'(3,4) [OF q] set_nodes_bound [OF q] pn [OF q] by auto
  have ch: "successively (linked qt) (us @ a # b # vs)"
    using inv'(2) [OF q] by (simp add: split)
  have ab: "qnext (qt ! a) = word_of_nat b"
    using ch by (simp add: successively_append_iff linked_def)
  obtain qt' where qt': "splice_after qt (word_of_nat a) (pid_word p) v = Inr qt'"
    and sp: "spliced qt a p b qt'"
    using splice_after_spliced [of qt a p b v] inv'(1) d p ab by auto
  have "rq_inv qt' (Q(q := xs))"
  proof (rule rq_inv_update [OF inv q])
    show "length qt' = 70" using sp by (simp add: spliced_def)
    show "successively (linked qt') (nodes q xs)"
      unfolding result(1) using chain_spliced [OF sp ch d(1,3,2)] p by simp
    show "distinct xs" "set xs \<subseteq> {..<64}"
      using result inv'(4) [OF q] p by auto
  next
    fix r assume r: "r < 3" "r \<noteq> q"
    show "set xs \<inter> set (Q r) = {}"
      using result inv'(5) [OF q r(1)] r p by (auto simp: queued_def)
    fix x assume x: "x \<in> set (nodes r (Q r))"
    have "set (nodes r (Q r)) \<inter> set (nodes q (Q q)) = {}"
      using nodes_disjoint [OF r(2) inv'(4) [OF r(1)] inv'(4) [OF q] inv'(5) [OF r(1) q r(2)]] .
    then have "x \<noteq> a" "x \<noteq> b" "x \<noteq> p" "x < 70"
      using x pn [OF r(1)] split set_nodes_bound [OF r(1) inv'(4) [OF r(1)]] by auto
    then show "qnext (qt' ! x) = qnext (qt ! x) \<and> qprev (qt' ! x) = qprev (qt ! x)"
      using sp by (simp add: spliced_def)
  qed
  with qt' show ?thesis by blast
qed

lemma enqueue_refines:
  assumes "rq_inv qt Q" "q < 3" "p < 64" "p \<notin> queued Q"
  shows "\<exists>qt'. enqueue qt (int q) (pid_word p) v = Inr qt' \<and> rq_inv qt' (Q(q := p # Q q))"
proof -
  obtain b vs where bv: "Q q @ [65 + 2 * q] = b # vs"
    by (cases "Q q @ [65 + 2 * q]") auto
  have "gethead (int q) = int (64 + 2 * q)"
    by (simp add: gethead_def)
  moreover have "\<exists>qt'. splice_after qt (word_of_nat (64 + 2 * q)) (pid_word p) v = Inr qt' \<and>
      rq_inv qt' (Q(q := p # Q q))"
    by (rule enqueue_between [OF assms, where us = "[]" and b = b and vs = vs])
      (use assms rq_invD(3) [OF assms(1,2)] bv in \<open>auto simp: nodes_def queued_def\<close>)
  ultimately show ?thesis
    by (simp only: enqueue_def of_int_of_nat_eq)
qed

lemma enqueue_back_refines:
  assumes "rq_inv qt Q" "q < 3" "p < 64" "p \<notin> queued Q"
  shows "\<exists>qt'. enqueue_back qt (int q) (pid_word p) v = Inr qt' \<and> rq_inv qt' (Q(q := Q q @ [p]))"
proof -
  obtain us a where ua: "(64 + 2 * q) # Q q = us @ [a]"
    by (metis rev_exhaust list.distinct(1))
  have split: "nodes q (Q q) = us @ a # (65 + 2 * q) # []"
    using ua by (simp add: nodes_def)
  have "successively (linked qt) (us @ a # (65 + 2 * q) # [])"
    using rq_invD(2) [OF assms(1,2)] split by simp
  then have "qprev (qt ! (65 + 2 * q)) = word_of_nat a"
    by (simp add: successively_append_iff linked_def)
  moreover have "qget qt (gettail (int q)) = Inr (qt ! (65 + 2 * q))"
    using assms(2) by (simp add: qget_def gettail_def nat_add_distrib nat_mult_distrib algebra_simps)
  moreover have "\<exists>qt'. splice_after qt (word_of_nat a) (pid_word p) v = Inr qt' \<and>
      rq_inv qt' (Q(q := Q q @ [p]))"
    by (rule enqueue_between [OF assms split])
      (use assms rq_invD(3) [OF assms(1,2)] ua in \<open>auto simp: nodes_def queued_def\<close>)
  ultimately show ?thesis
    by (simp add: enqueue_back_def)
qed


text \<open>The queue the documentation asks to serve: the highest one that is not empty.\<close>

definition highest :: "mlfq \<Rightarrow> nat option" where
  "highest Q = (if Q 2 \<noteq> [] then Some 2 else if Q 1 \<noteq> [] then Some 1
     else if Q 0 \<noteq> [] then Some 0 else None)"

lemma highest_Some: "highest Q = Some q \<Longrightarrow> q < 3 \<and> Q q \<noteq> [] \<and> (\<forall>r. q < r \<longrightarrow> r < 3 \<longrightarrow> Q r = [])"
  by (auto simp: highest_def less_Suc_eq numeral_3_eq_3 numeral_2_eq_2 split: if_splits)

lemma queued_empty_iff: "queued Q = {} \<longleftrightarrow> highest Q = None"
  by (auto simp: queued_def highest_def less_Suc_eq numeral_3_eq_3 numeral_2_eq_2)

lemma firstid_head:
  assumes "rq_inv qt Q" "q < 3"
  shows "firstid qt (int (64 + 2 * q)) = Inr (word_of_nat (hd (Q q @ [65 + 2 * q])))"
proof -
  have "successively (linked qt) (nodes q (Q q))"
    using rq_invD(2) [OF assms] .
  then have "qnext (qt ! (64 + 2 * q)) = word_of_nat (hd (Q q @ [65 + 2 * q]))"
    by (simp add: nodes_def successively_Cons linked_def)
  then show ?thesis
    using assms(2) by (simp add: firstid_def qget_def nat_add_distrib nat_mult_distrib)
qed

lemma less_64_word: "n < 70 \<Longrightarrow> (word_of_nat n :: u64) < 64 \<longleftrightarrow> n < 64"
  by (simp add: word_less_nat_alt)

lemma nonempty_head:
  assumes "rq_inv qt Q" "q < 3"
  shows "nonempty qt (int (64 + 2 * q)) = Inr (Q q \<noteq> [])"
proof -
  have "hd (Q q @ [65 + 2 * q]) < 70 \<and> (hd (Q q @ [65 + 2 * q]) < 64 \<longleftrightarrow> Q q \<noteq> [])"
    using rq_invD(4) [OF assms] assms(2) by (cases "Q q") auto
  then show ?thesis
    by (simp add: nonempty_def firstid_head [OF assms, simplified] less_64_word)
qed

lemma scan_heads: "scan_idx 2 = 68" "scan_idx 1 = 66" "scan_idx 0 = 64"
  by (simp_all add: scan_idx_def push_bit_eq_mult)

lemma dequeue_scan_heads:
  assumes "rq_inv qt Q"
  shows "dequeue_scan qt 2 =
    (case highest Q of Some q \<Rightarrow> Inr (word_of_nat (64 + 2 * q)) | None \<Rightarrow> dequeue_scan qt (- 1))"
proof -
  have "nonempty qt 68 = Inr (Q 2 \<noteq> [])" "nonempty qt 66 = Inr (Q 1 \<noteq> [])"
    "nonempty qt 64 = Inr (Q 0 \<noteq> [])"
    using nonempty_head [OF assms, of 2] nonempty_head [OF assms, of 1]
      nonempty_head [OF assms, of 0] by simp_all
  then show ?thesis
    unfolding highest_def
    using dequeue_scan.simps [of qt 2] dequeue_scan.simps [of qt 1] dequeue_scan.simps [of qt 0]
    by (simp add: scan_heads)
qed

lemma pid_word_sint [simp]:
  "p < 64 \<Longrightarrow> sint (ucast (pid_word p) :: 32 word) = int p"
  "p < 64 \<Longrightarrow> sint (pid_word p) = int p"
  by (simp_all add: unsigned_of_nat signed_of_nat take_bit_nat_eq_self signed_take_bit_int_eq_self)

lemma remove_pid_refines:
  assumes inv: "rq_inv qt Q" and q: "q < 3" and Qq: "Q q = p # xs"
  shows "\<exists>qt'. remove_pid qt (int p) = Inr qt' \<and> unspliced qt (64 + 2 * q) p (hd (xs @ [65 + 2 * q])) qt' \<and>
    rq_inv qt' (Q(q := xs))"
proof -
  note inv' = rq_invD [OF inv]
  obtain b vs where bv: "xs @ [65 + 2 * q] = b # vs"
    by (cases "xs @ [65 + 2 * q]") auto
  have split: "nodes q (Q q) = [] @ (64 + 2 * q) # p # b # vs"
    using Qq bv by (simp add: nodes_def)
  have p: "p < 64" and nb: "set (nodes q (Q q)) \<subseteq> {..<70}" and dn: "distinct (nodes q (Q q))"
    using inv'(3,4) [OF q] Qq set_nodes_bound [OF q inv'(4) [OF q]] by auto
  have ch: "successively (linked qt) ([] @ (64 + 2 * q) # p # b # vs)"
    using inv'(2) [OF q] split by simp
  obtain qt' where qt': "remove_pid qt (int p) = Inr qt'" and us: "unspliced qt (64 + 2 * q) p b qt'"
    using remove_pid_unspliced [of qt "64 + 2 * q" p b] inv'(1) ch dn nb p unfolding split by auto
  have "rq_inv qt' (Q(q := xs))"
  proof (rule rq_inv_update [OF inv q])
    show "length qt' = 70" using us by (simp add: unspliced_def)
    show "successively (linked qt') (nodes q xs)"
      using chain_unspliced [OF us ch] dn nb unfolding split by (simp add: nodes_def bv)
    show "distinct xs" "set xs \<subseteq> {..<64}"
      using inv'(3,4) [OF q] Qq by auto
  next
    fix r assume r: "r < 3" "r \<noteq> q"
    show "set xs \<inter> set (Q r) = {}"
      using inv'(5) [OF q r(1)] r Qq by auto
    fix x assume x: "x \<in> set (nodes r (Q r))"
    have "set (nodes r (Q r)) \<inter> set (nodes q (Q q)) = {}"
      using nodes_disjoint [OF r(2) inv'(4) [OF r(1)] inv'(4) [OF q] inv'(5) [OF r(1) q r(2)]] .
    then have "x \<noteq> 64 + 2 * q" "x \<noteq> b" "x \<noteq> p" "x < 70"
      using x split set_nodes_bound [OF r(1) inv'(4) [OF r(1)]] by auto
    then show "qnext (qt' ! x) = qnext (qt ! x) \<and> qprev (qt' ! x) = qprev (qt ! x)"
      using us by (simp add: unspliced_def)
  qed
  moreover have "b = hd (xs @ [65 + 2 * q])"
    using bv by simp
  ultimately show ?thesis
    using qt' us by simp
qed

lemma firstid_front:
  assumes "rq_inv qt Q" "q < 3" "Q q = p # xs"
  shows "firstid qt (int (64 + 2 * q)) = Inr (pid_word p)" "p < 64"
  using firstid_head [OF assms(1,2)] rq_invD(4) [OF assms(1,2)] assms(3) by simp_all

lemma dequeue_refines:
  assumes inv: "rq_inv qt Q" and hi: "highest Q = Some q" and Qq: "Q q = p # xs"
  shows "\<exists>qt'. dequeue qt = Inr (int p, qt') \<and> unspliced qt (64 + 2 * q) p (hd (xs @ [65 + 2 * q])) qt' \<and>
    rq_inv qt' (Q(q := xs))"
proof -
  have q: "q < 3" using highest_Some [OF hi] by simp
  note f = firstid_front [OF inv q Qq]
  have "uint (word_of_nat (64 + 2 * q) :: u64) = int (64 + 2 * q)"
    using q by (intro uint_u64_of_nat) simp
  then show ?thesis
    using remove_pid_refines [OF inv q Qq] f by (auto simp: dequeue_def dequeue_scan_heads [OF inv] hi Let_def)
qed

text \<open>
  The race in \<^verbatim>\<open>dequeue\<close>. \<^verbatim>\<open>scheduler\<close> calls it after \<^verbatim>\<open>intr_on()\<close> and without a lock. When
  process \<open>x\<close> is alone in its queue and an interrupt wakes process \<open>y\<close> of the same queue
  after the first store of \<^verbatim>\<open>remove_pid\<close>, the table is broken once the other stores are done: the head
  of the queue points to its tail although the tail points back to \<open>y\<close>, so \<^verbatim>\<open>dequeue\<close> takes the queue for
  empty, and \<open>y\<close>, and everything enqueued behind it, is not run until the next boost rebuilds the table.
\<close>

lemma dequeue_race_loses:
  assumes "rq_inv qt Q" "q < 3" "Q q = [x]" "y < 64" "y \<noteq> x"
  shows "\<exists>qt1 qt2 qt3. unlink_next qt (int x) = Inr qt1 \<and> enqueue_back qt1 (int q) (pid_word y) v = Inr qt2 \<and>
    unlink_rest qt2 (int x) = Inr qt3 \<and> nonempty qt3 (gethead (int q)) = Inr False \<and>
    qprev (qt3 ! (65 + 2 * q)) = pid_word y \<and> (\<forall>Q'. \<not> rq_inv qt3 Q')"
proof -
  define h t where ht: "h = 64 + 2 * q" "t = 65 + 2 * q"
  have len: "length qt = 70" and x: "x < 64" and ch: "linked qt h x" "linked qt x t"
    using rq_invD [OF assms(1)] assms(2,3) by (fastforce simp: nodes_def ht)+
  have i: "gettail (int q) = int t" "gethead (int q) = int h"
    by (simp_all add: ht gettail_def gethead_def)
  have d: "x \<noteq> h" "x \<noteq> t" "y \<noteq> h" "y \<noteq> t" "h \<noteq> t" "h < 70" "t < 70" "x < 70" "y < 70" using x assms(2,4) by (auto simp: ht)
  have w: "uint (word_of_nat n :: u64) = int n" if "n < 70" for n
    using that by (simp add: uint_u64_of_nat)
  note W = w [OF d(6)] w [OF d(7)] w [OF d(8)] w [OF d(9)]
  define qt1 where "qt1 = qt[h := set_next (word_of_nat t) (qt ! h)]"
  define qt2 where "qt2 = qt1[y := set_prev (word_of_nat x) (set_next (word_of_nat t) (set_pass v (qt1 ! y))),
    x := set_next (pid_word y) (qt1 ! x), t := set_prev (pid_word y) (qt1 ! t)]"
  define qt3 where "qt3 = qt2[y := set_prev (word_of_nat h) (qt2 ! y), x := set_prev 999 (set_next 999 (qt2 ! x))]"
  have "unlink_next qt (int x) = Inr qt1"
    using ch d len by (simp add: unlink_next_def qget_def qupd_def linked_def W qt1_def)
  moreover have "enqueue_back qt1 (int q) (pid_word y) v = Inr qt2"
    using ch d len assms(5)
    by (simp add: enqueue_back_def splice_after_def i qget_def qupd_def linked_def W qt2_def qt1_def nth_list_update set_field_defs)
  moreover have "unlink_rest qt2 (int x) = Inr qt3"
    using ch d len assms(5)
    by (simp add: unlink_rest_def qget_def qupd_def linked_def W qt3_def qt2_def qt1_def nth_list_update set_field_defs)
  moreover have n: "qnext (qt3 ! h) = word_of_nat t" "qprev (qt3 ! t) = pid_word y" "length qt3 = 70"
    using d len by (simp_all add: qt3_def qt2_def qt1_def nth_list_update set_field_defs)
  moreover have "nonempty qt3 (gethead (int q)) = Inr False"
    using n d unfolding i by (simp add: nonempty_def firstid_def qget_def less_64_word) (simp add: ht)
  moreover have "\<not> rq_inv qt3 Q'" for Q'
  proof
    assume r: "rq_inv qt3 Q'"
    have "Q' q = []" using nonempty_head [OF r assms(2), folded ht] \<open>nonempty qt3 (gethead (int q)) = Inr False\<close> unfolding i by simp
    then have "linked qt3 h t" using rq_invD(2) [OF r assms(2)] by (simp add: nodes_def ht)
    then have "unat (word_of_nat h :: u64) = unat (pid_word y)" using n(2) by (simp add: linked_def)
    then show False using d by (simp add: unat_of_nat take_bit_nat_eq_self)
  qed
  ultimately show ?thesis unfolding ht [symmetric] by blast
qed

text \<open>\<^verbatim>\<open>initialize\<close> empties the three queues, whatever the table held.\<close>

lemma initialize_frame:
  assumes "length qt = 70"
  shows "\<exists>qt'. initialize qt 3 = Inr qt' \<and> rq_inv qt' (\<lambda>_. []) \<and> (\<forall>x<64. qt' ! x = qt ! x)"
  using assms
  by (simp add: initialize_def initialize_loop.simps [of 64] initialize_loop.simps [of 66]
      initialize_loop.simps [of 68] initialize_loop.simps [of 70] qupd_def rq_inv_def nodes_def
      linked_def set_field_defs nth_list_update all_less_three)


section \<open>The interface the scheduler relies on\<close>

lemma length_three_filters:
  "(\<And>p. f p < (3::nat)) \<Longrightarrow>
   length (filter (\<lambda>p. f p = 2) ps) + (length (filter (\<lambda>p. f p = 1) ps) + length (filter (\<lambda>p. f p = 0) ps))
   = length ps"
proof (induction ps)
  case (Cons p ps)
  have "f p = 0 \<or> f p = 1 \<or> f p = 2"
    using Cons.prems [of p] by arith
  then show ?case
    using Cons by auto
qed simp

text \<open>The order in which the queued processes are served when nothing else happens.\<close>

definition service_order :: "mlfq \<Rightarrow> nat list" where
  "service_order Q = Q 2 @ Q 1 @ Q 0"

lemma service_order_pop:
  "highest Q = Some q \<Longrightarrow> service_order Q = hd (Q q) # service_order (Q(q := tl (Q q)))"
  by (auto simp: highest_def service_order_def split: if_splits)

lemma set_service_order: "set (service_order Q) = queued Q"
  by (auto simp: service_order_def queued_def less_Suc_eq numeral_3_eq_3 numeral_2_eq_2)

lemma service_order_Nil: "service_order Q = [] \<longleftrightarrow> highest Q = None"
  by (auto simp: service_order_def highest_def)

fun drain :: "('s \<Rightarrow> (int \<times> 's) res) \<Rightarrow> nat \<Rightarrow> 's \<Rightarrow> (int list \<times> 's) res" where
  "drain deq 0 s = Inr ([], s)"
| "drain deq (Suc n) s =
     bnd (deq s) (\<lambda>(p, s'). bnd (drain deq n s') (\<lambda>(ps, s''). Inr (p # ps, s'')))"

locale run_queue =
  fixes invar :: "'s \<Rightarrow> mlfq \<Rightarrow> bool"
    and push :: "'s \<Rightarrow> nat \<Rightarrow> nat \<Rightarrow> 's res"
    and pop :: "'s \<Rightarrow> (int \<times> 's) res"
    and clear :: "'s \<Rightarrow> 's res"
  assumes push_ok: "invar s Q \<Longrightarrow> q < 3 \<Longrightarrow> p < 64 \<Longrightarrow> p \<notin> queued Q \<Longrightarrow>
      \<exists>s'. push s q p = Inr s' \<and> invar s' (Q(q := Q q @ [p]))"
    and pop_ok: "invar s Q \<Longrightarrow> highest Q = Some q \<Longrightarrow>
      \<exists>s'. pop s = Inr (int (hd (Q q)), s') \<and> invar s' (Q(q := tl (Q q)))"
    and clear_ok: "invar s Q \<Longrightarrow> \<exists>s'. clear s = Inr s' \<and> invar s' (\<lambda>_. [])"
begin

lemma drain_order:
  "invar s Q \<Longrightarrow> \<exists>s' Q'. drain pop (length (service_order Q)) s = Inr (map int (service_order Q), s') \<and>
     invar s' Q' \<and> queued Q' = {}"
proof (induction "length (service_order Q)" arbitrary: s Q)
  case 0
  then show ?case by (auto simp: set_service_order [symmetric])
next
  case (Suc n)
  then obtain q where q: "highest Q = Some q"
    by (cases "highest Q") (auto simp: service_order_Nil [symmetric])
  let ?Q = "Q(q := tl (Q q))"
  obtain s1 where s1: "pop s = Inr (int (hd (Q q)), s1)" "invar s1 ?Q"
    using pop_ok [OF Suc.prems q] by blast
  have so: "service_order Q = hd (Q q) # service_order ?Q"
    using service_order_pop [OF q] .
  with Suc.hyps(2) have "n = length (service_order ?Q)" by simp
  from Suc.hyps(1) [OF this s1(2)] s1(1) show ?case
    by (auto simp: so)
qed

lemma push_many:
  assumes "invar s Q" "distinct ps" "set ps \<subseteq> {..<64}" "set ps \<inter> queued Q = {}" "\<And>p. f p < 3"
  shows "\<exists>s'. foldres (\<lambda>p t. push t (f p) p) ps s = Inr s' \<and>
    invar s' (\<lambda>q. Q q @ filter (\<lambda>p. f p = q) ps)"
  using assms
proof (induction ps arbitrary: s Q)
  case Nil
  then show ?case by simp
next
  case (Cons p ps)
  let ?Q = "Q(f p := Q (f p) @ [p])"
  obtain s1 where s1: "push s (f p) p = Inr s1" "invar s1 ?Q"
    using push_ok [of s Q "f p" p] Cons.prems by auto
  have "queued ?Q = insert p (queued Q)"
    using Cons.prems(5) [of p] by (auto simp: queued_def split: if_splits)
  with Cons.prems have "set ps \<inter> queued ?Q = {}" by auto
  obtain s2 where "foldres (\<lambda>p t. push t (f p) p) ps s1 = Inr s2"
    and s2: "invar s2 (\<lambda>q. ?Q q @ filter (\<lambda>p. f p = q) ps)"
    using Cons.IH [OF s1(2) _ _ \<open>set ps \<inter> queued ?Q = {}\<close>] Cons.prems by auto
  moreover have "(\<lambda>q. ?Q q @ filter (\<lambda>p. f p = q) ps) = (\<lambda>q. Q q @ filter (\<lambda>p. f p = q) (p # ps))"
    by (auto simp: fun_eq_iff)
  ultimately show ?case
    using s1(1) by (metis (no_types, lifting) bnd_Inr foldres.simps(2))
qed

end

abbreviation rq_push :: "qtable \<Rightarrow> nat \<Rightarrow> nat \<Rightarrow> qtable res" where
  "rq_push qt q p \<equiv> enqueue_back qt (int q) (pid_word p) DEFAULT_PASS"

interpretation rq: run_queue rq_inv rq_push dequeue "\<lambda>qt. initialize qt 3"
proof unfold_locales
  fix qt Q q
  assume inv: "rq_inv qt Q" and hi: "highest Q = Some q"
  then obtain p xs where "Q q = p # xs"
    using highest_Some [OF hi] by (cases "Q q") auto
  then show "\<exists>s'. dequeue qt = Inr (int (hd (Q q)), s') \<and> rq_inv s' (Q(q := tl (Q q)))"
    using dequeue_refines [OF inv hi] by auto
next
  fix qt Q
  assume "rq_inv qt Q"
  then show "\<exists>s'. initialize qt 3 = Inr s' \<and> rq_inv s' (\<lambda>_. [])"
    using initialize_frame [OF rq_invD(1)] by blast
qed (rule enqueue_back_refines)

section \<open>The empty run queue\<close>

lemma dequeue_scan_nonempty:
  "dequeue_scan qt i = Inr idx \<Longrightarrow> \<exists>f. firstid qt (uint idx) = Inr f \<and> f < 64"
proof (induction qt i rule: dequeue_scan.induct)
  case (1 qt i)
  then show ?case
    by (subst (asm) (2) dequeue_scan.simps)
      (auto simp: Let_def nonempty_def res_simps split: if_splits)
qed

lemma scan_idx_slots: "scan_idx (word_of_int (int j - 32)) = word_of_int (2 * int j)"
  by (simp add: scan_idx_def push_bit_eq_mult algebra_simps)

text \<open>Below the heads the scan walks down the even process entries.\<close>

lemma dequeue_scan_slots:
  assumes "\<And>x. x < 64 \<Longrightarrow> qnext (qt ! x) = 0 \<or> qnext (qt ! x) = 999" and "j < 32"
  shows "dequeue_scan qt (word_of_int (int j - 32)) = Inl OutOfBounds \<or>
    (\<exists>idx. dequeue_scan qt (word_of_int (int j - 32)) = Inr idx \<and> firstid qt (uint idx) = Inr 0)"
  using assms(2)
proof (induction j)
  case 0
  have "scan_idx (word_of_int (- 32)) = 0" "scan_idx (- 33) = - 2"
    using scan_idx_slots [of 0] by (simp_all add: scan_idx_def push_bit_eq_mult)
  then show ?case
    using assms(1) [of 0] dequeue_scan.simps [of qt "- 32"] dequeue_scan.simps [of qt "- 33"]
    by (auto simp: nonempty_def firstid_def qget_def)
next
  case (Suc j)
  have i: "scan_idx (word_of_int (int (Suc j) - 32)) = word_of_nat (2 * Suc j)"
    using scan_idx_slots [of "Suc j"] by simp
  have f: "firstid qt (uint (word_of_nat (2 * Suc j) :: u64)) = Inr (qnext (qt ! (2 * Suc j)))"
  proof -
    have "uint (word_of_nat (2 * Suc j) :: u64) = int (2 * Suc j)"
      using Suc.prems by (intro uint_u64_of_nat) simp
    then show ?thesis
      using Suc.prems unfolding firstid_def qget_def by (simp del: of_nat_mult of_nat_Suc)
  qed
  have "qnext (qt ! (2 * Suc j)) = 0 \<or> qnext (qt ! (2 * Suc j)) = 999"
    using Suc.prems by (intro assms(1)) simp
  moreover have "word_of_int (int (Suc j) - 32) - 1 = (word_of_int (int j - 32) :: u64)"
    by simp
  ultimately have "dequeue_scan qt (word_of_int (int (Suc j) - 32)) =
      (if qnext (qt ! (2 * Suc j)) = 0 then Inr (word_of_nat (2 * Suc j))
       else dequeue_scan qt (word_of_int (int j - 32)))"
    by (subst dequeue_scan.simps) (elim disjE, simp_all only: i f nonempty_def Let_def bnd_Inr, simp_all)
  then show ?case
    using Suc.IH Suc.prems f by (cases "qnext (qt ! (2 * Suc j)) = 0") (simp_all only: if_True if_False, auto)
qed


section \<open>Properties\<close>

text \<open>
  C7: Rules 1 and 2 of the scheduler at the level of the table. Enqueue any distinct processes, each
  at the back of a queue of its own choice, on a freshly initialized table, and dequeue as often:
  every call succeeds and the processes come out by priority, first in first out within a queue.
\<close>

theorem run_queue_service_order:
  assumes "length qt = 70" "distinct ps" "set ps \<subseteq> {..<64}" "\<And>p. f p < 3"
  shows "\<exists>qt1 qt2 qt3. initialize qt 3 = Inr qt1 \<and>
    foldres (\<lambda>p t. enqueue_back t (int (f p)) (pid_word p) DEFAULT_PASS) ps qt1 = Inr qt2 \<and>
    drain dequeue (length ps) qt2 =
      Inr (map int (filter (\<lambda>p. f p = 2) ps @ filter (\<lambda>p. f p = 1) ps @ filter (\<lambda>p. f p = 0) ps), qt3)"
proof -
  obtain qt1 where qt1: "initialize qt 3 = Inr qt1" "rq_inv qt1 (\<lambda>_. [])"
    using initialize_frame [OF assms(1)] by blast
  let ?Q = "\<lambda>q. filter (\<lambda>p. f p = q) ps"
  obtain qt2 where qt2: "foldres (\<lambda>p t. rq_push t (f p) p) ps qt1 = Inr qt2" "rq_inv qt2 ?Q"
    using rq.push_many [where f = f, OF qt1(2) assms(2,3) _ assms(4)] by (auto simp: queued_def)
  have "length (service_order ?Q) = length ps"
    using length_three_filters [OF assms(4)] by (simp add: service_order_def)
  with rq.drain_order [OF qt2(2)] qt1(1) qt2(1) show ?thesis
    by (auto simp: service_order_def)
qed

theorem run_queue_service_order_witness:
  "\<exists>qt1 qt2 qt3. initialize qtable_bss 3 = Inr qt1 \<and>
    foldres (\<lambda>p t. enqueue_back t (int (if p = 7 then 2 else 0)) (pid_word p) DEFAULT_PASS) [5, 7, 3] qt1
      = Inr qt2 \<and>
    drain dequeue 3 qt2 = Inr ([7, 5, 3], qt3)"
proof -
  have "length ([5, 7, 3] :: nat list) = 3" "length qtable_bss = 70"
    by (simp_all add: qtable_bss_def)
  then show ?thesis
    using run_queue_service_order [of qtable_bss "[5, 7, 3]" "\<lambda>p. if p = 7 then 2 else 0"]
    by (simp add: numeral_3_eq_3 del: foldres.simps drain.simps)
qed

text \<open>
  \<^verbatim>\<open>dequeue\<close> on a well-formed table whose queues are not all empty returns the
  first process of the highest queue that is not empty, unlinks exactly that process, and leaves a
  well-formed table for the remaining lists.
\<close>

theorem dequeue_serves_highest:
  assumes "rq_inv qt Q" "highest Q = Some q"
  shows "\<exists>qt'. dequeue qt = Inr (int (hd (Q q)), qt') \<and> rq_inv qt' (Q(q := tl (Q q))) \<and>
    qnext (qt' ! hd (Q q)) = 999 \<and> qprev (qt' ! hd (Q q)) = 999"
proof -
  obtain p xs where Qq: "Q q = p # xs"
    using highest_Some [OF assms(2)] by (cases "Q q") auto
  moreover have "p < 64"
    using rq_invD(4) [OF assms(1), of q] highest_Some [OF assms(2)] Qq by auto
  ultimately show ?thesis
    using dequeue_refines [OF assms Qq] by (auto simp: unspliced_def)
qed

theorem dequeue_serves_highest_witness:
  "\<exists>qt1 qt2 qt3. initialize qtable_bss 3 = Inr qt1 \<and> enqueue_back qt1 QUEUE_LOW 9 DEFAULT_PASS = Inr qt2 \<and>
     dequeue qt2 = Inr (9, qt3) \<and> rq_inv qt3 (\<lambda>_. []) \<and> qnext (qt3 ! 9) = 999"
proof -
  obtain qt1 where qt1: "initialize qtable_bss 3 = Inr qt1" "rq_inv qt1 (\<lambda>_. [])"
    using initialize_frame [of qtable_bss] by (auto simp: qtable_bss_def)
  let ?Q = "(\<lambda>_::nat. [])(0 := [9::nat])"
  obtain qt2 where qt2: "enqueue_back qt1 QUEUE_LOW 9 DEFAULT_PASS = Inr qt2" "rq_inv qt2 ?Q"
    using enqueue_back_refines [OF qt1(2), of 0 9 1] by (auto simp: queued_def)
  have "?Q(0 := []) = (\<lambda>_. [])"
    by auto
  then show ?thesis
    using qt1 qt2 dequeue_serves_highest [OF qt2(2), of 0] by (auto simp: highest_def)
qed

text \<open>
  The documentation of \<^verbatim>\<open>dequeue\<close> promises -1 when every queue is empty. On no
  table at all does it return -1: whatever it returns is the index of a process entry.
\<close>

theorem dequeue_never_EMPTY:
  assumes "dequeue qt = Inr (p, qt')"
  shows "p \<noteq> EMPTY \<and> 0 \<le> p \<and> p < int NPROC"
proof -
  obtain idx where idx: "dequeue_scan qt 2 = Inr idx" and
    rest: "(if uint idx = EMPTY then Inr (uint idx, qt)
      else bnd (firstid qt (uint idx)) (\<lambda>to_delete.
           bnd (remove_pid qt (sint (ucast to_delete :: 32 word))) (\<lambda>qt'.
           Inr (sint to_delete, qt')))) = Inr (p, qt')"
    using assms by (auto simp: dequeue_def Let_def bnd_eq_Inr)
  obtain f where f: "firstid qt (uint idx) = Inr f" "f < 64"
    using dequeue_scan_nonempty [OF idx] by blast
  have "uint idx \<noteq> EMPTY"
    using uint_ge_0 [of idx] by linarith
  then have "p = sint f"
    using rest f by (auto simp: bnd_eq_Inr)
  moreover have "f = pid_word (unat f)" "unat f < 64"
    using f(2) by (simp_all add: word_less_nat_alt)
  ultimately have "p = int (unat f)"
    by (metis pid_word_sint(2))
  with \<open>unat f < 64\<close> show ?thesis
    by linarith
qed

theorem dequeue_never_EMPTY_witness:
  "\<exists>qt'. dequeue (qtable_bss[68 := \<lparr>qpass = 0, qprev = 0, qnext = 5\<rparr>]) = Inr (5, qt') \<and> (5::int) \<noteq> EMPTY"
proof -
  let ?qt = "qtable_bss[68 := \<lparr>qpass = 0, qprev = 0, qnext = 5\<rparr>]"
  have "\<exists>qt'. dequeue ?qt = Inr (5, qt')"
    by (simp add: dequeue_def dequeue_scan.simps [of _ 2] scan_heads nonempty_def firstid_def
        qget_def qupd_def remove_pid_defs qtable_bss_def Let_def)
  then show ?thesis
    using dequeue_never_EMPTY [of ?qt 5] by auto
qed

text \<open>
  C39: what \<^verbatim>\<open>dequeue\<close> does when every queue is empty and process 0 has run before (its
  entry carries the mark 999 that \<^verbatim>\<open>remove_pid\<close> leaves; the other process entries are
  unused or carry the mark too): the scan runs past the heads into the process entries and the call
  ends in an access outside the table.
\<close>

theorem dequeue_idle_out_of_bounds:
  assumes "rq_inv qt Q" "queued Q = {}"
    and "\<And>x. x < 64 \<Longrightarrow> qnext (qt ! x) = 0 \<or> qnext (qt ! x) = 999"
    and "qprev (qt ! 0) = 999"
  shows "dequeue qt = Inl OutOfBounds"
proof -
  have "remove_pid qt 0 = Inl OutOfBounds"
    using assms(4) by (simp add: remove_pid_defs qget_def qupd_def)
  moreover have "dequeue_scan qt 2 = dequeue_scan qt (word_of_int (int 31 - 32))"
    using dequeue_scan_heads [OF assms(1)] assms(2) by (simp add: queued_empty_iff)
  moreover have "uint idx \<noteq> EMPTY" for idx :: u64
    using uint_ge_0 [of idx] by linarith
  ultimately show ?thesis
    using dequeue_scan_slots [OF assms(3), of 31] by (auto simp: dequeue_def Let_def)
qed

theorem dequeue_idle_out_of_bounds_witness:
  "\<exists>qt1 qt2 qt3. initialize qtable_bss 3 = Inr qt1 \<and> enqueue_back qt1 QUEUE_MEDIUM 0 DEFAULT_PASS = Inr qt2 \<and>
     dequeue qt2 = Inr (0, qt3) \<and> dequeue qt3 = Inl OutOfBounds"
proof -
  obtain qt1 where qt1: "initialize qtable_bss 3 = Inr qt1" "rq_inv qt1 (\<lambda>_. [])"
    "\<And>x. x < 64 \<Longrightarrow> qt1 ! x = qtable_bss ! x"
    using initialize_frame [of qtable_bss] by (auto simp: qtable_bss_def)
  let ?Q = "(\<lambda>_. [])(1 := [0::nat])"
  obtain qt2 where qt2: "enqueue_back qt1 1 0 1 = Inr qt2" "rq_inv qt2 ?Q" "spliced qt1 66 0 67 qt2"
    using splice_after_spliced [of qt1 66 0 67 1] enqueue_back_refines [OF qt1(2), of 1 0 1]
      rq_invD(1) [OF qt1(2)] rq_invD(2) [OF qt1(2), of 1]
    by (auto simp: queued_def enqueue_back_def gettail_def qget_def nodes_def linked_def)
  obtain qt3 where qt3: "dequeue qt2 = Inr (0, qt3)" "rq_inv qt3 (?Q(1 := []))" "unspliced qt2 66 0 67 qt3"
    using dequeue_refines [OF qt2(2), of 1 0 "[]"] by (auto simp: highest_def)
  have "dequeue qt3 = Inl OutOfBounds"
  proof (rule dequeue_idle_out_of_bounds [OF qt3(2)])
    fix x :: nat assume "x < 64"
    then show "qnext (qt3 ! x) = 0 \<or> qnext (qt3 ! x) = 999"
      using qt3(3) qt2(3) qt1(3) [of x] by (simp add: unspliced_def spliced_def qtable_bss_def)
  qed (use qt3(3) in \<open>auto simp: queued_def unspliced_def\<close>)
  with qt1(1) qt2(1) qt3(1) show ?thesis
    by auto
qed

end
