(* ===== verification/Kstring.thy ===== *)
theory Kstring
  imports Prelude
begin

text \<open>
  \<^verbatim>\<open>kernel/string.c\<close>: the byte and string routines of the kernel, on a byte-addressed memory.
  A pointer is the unsigned value of its address; no object of the kernel wraps around the end of
  the address space, so pointer arithmetic is the arithmetic of natural numbers. The theory also
  gives the little-endian 64-bit loads and stores that the page allocator and the page tables use.
\<close>

type_synonym mem = "nat \<Rightarrow> u8"

section \<open>The routines\<close>

text \<open>\<^verbatim>\<open>memset\<close>: the loop writes the bytes in ascending order.\<close>

fun memset_loop :: "mem \<Rightarrow> nat \<Rightarrow> u8 \<Rightarrow> nat \<Rightarrow> nat \<Rightarrow> mem" where
  "memset_loop m dst c i 0 = m"
| "memset_loop m dst c i (Suc k) = memset_loop (m(dst + i := c)) dst c (Suc i) k"

definition memset :: "mem \<Rightarrow> nat \<Rightarrow> u8 \<Rightarrow> nat \<Rightarrow> mem" where
  "memset m dst c n = memset_loop m dst c 0 n"

fun memcmp :: "mem \<Rightarrow> nat \<Rightarrow> nat \<Rightarrow> nat \<Rightarrow> int" where
  "memcmp m s1 s2 0 = 0"
| "memcmp m s1 s2 (Suc n) =
     (if m s1 \<noteq> m s2 then uint (m s1) - uint (m s2) else memcmp m (s1 + 1) (s2 + 1) n)"

text \<open>The two loops of \<^verbatim>\<open>memmove\<close>: from the end downwards, and upwards.\<close>

fun move_down :: "mem \<Rightarrow> nat \<Rightarrow> nat \<Rightarrow> nat \<Rightarrow> mem" where
  "move_down m d s 0 = m"
| "move_down m d s (Suc n) = move_down (m(d - 1 := m (s - 1))) (d - 1) (s - 1) n"

fun move_up :: "mem \<Rightarrow> nat \<Rightarrow> nat \<Rightarrow> nat \<Rightarrow> mem" where
  "move_up m d s 0 = m"
| "move_up m d s (Suc n) = move_up (m(d := m s)) (d + 1) (s + 1) n"

definition memmove :: "mem \<Rightarrow> nat \<Rightarrow> nat \<Rightarrow> nat \<Rightarrow> mem" where
  "memmove m dst src n =
     (if n = 0 then m
      else if src < dst \<and> src + n > dst then move_down m (dst + n) (src + n) n
      else move_up m dst src n)"

definition memcpy :: "mem \<Rightarrow> nat \<Rightarrow> nat \<Rightarrow> nat \<Rightarrow> mem" where
  "memcpy m dst src n = memmove m dst src n"

fun strncmp :: "mem \<Rightarrow> nat \<Rightarrow> nat \<Rightarrow> nat \<Rightarrow> int" where
  "strncmp m p q 0 = 0"
| "strncmp m p q (Suc n) =
     (if m p \<noteq> 0 \<and> m p = m q then strncmp m (p + 1) (q + 1) n else uint (m p) - uint (m q))"

text \<open>
  \<^verbatim>\<open>strncpy\<close> with its signed counter: the first loop copies up to and including the NUL,
  the second pads with NULs. Both use \<^verbatim>\<open>n-- > 0\<close>, which also decrements on exit.
\<close>

function strncpy_copy :: "mem \<Rightarrow> nat \<Rightarrow> nat \<Rightarrow> int \<Rightarrow> mem \<times> nat \<times> int" where
  "strncpy_copy m s t n =
     (if n > 0 then
        let c = m t; m' = m(s := c) in
        if c \<noteq> 0 then strncpy_copy m' (s + 1) (t + 1) (n - 1) else (m', s + 1, n - 1)
      else (m, s, n - 1))"
  by pat_completeness auto
termination
  by (relation "measure (\<lambda>(m, s, t, n). nat n)") auto

function strncpy_pad :: "mem \<Rightarrow> nat \<Rightarrow> int \<Rightarrow> mem" where
  "strncpy_pad m s n = (if n > 0 then strncpy_pad (m(s := 0)) (s + 1) (n - 1) else m)"
  by pat_completeness auto
termination
  by (relation "measure (\<lambda>(m, s, n). nat n)") auto

definition strncpy :: "mem \<Rightarrow> nat \<Rightarrow> nat \<Rightarrow> int \<Rightarrow> mem" where
  "strncpy m s t n = (let (m', s', n') = strncpy_copy m s t n in strncpy_pad m' s' n')"

text \<open>\<^verbatim>\<open>safestrcpy\<close>: \<^verbatim>\<open>--n > 0\<close> leaves room for the terminating NUL.\<close>

function safestrcpy_loop :: "mem \<Rightarrow> nat \<Rightarrow> nat \<Rightarrow> int \<Rightarrow> mem \<times> nat" where
  "safestrcpy_loop m s t n =
     (if n - 1 > 0 then
        let c = m t; m' = m(s := c) in
        if c \<noteq> 0 then safestrcpy_loop m' (s + 1) (t + 1) (n - 1) else (m', s + 1)
      else (m, s))"
  by pat_completeness auto
termination
  by (relation "measure (\<lambda>(m, s, t, n). nat n)") auto

definition safestrcpy :: "mem \<Rightarrow> nat \<Rightarrow> nat \<Rightarrow> int \<Rightarrow> mem" where
  "safestrcpy m s t n =
     (if n \<le> 0 then m else let (m', s') = safestrcpy_loop m s t n in m'(s' := 0))"

text \<open>\<^verbatim>\<open>strlen\<close> does not return on a memory without a NUL after \<open>s\<close>.\<close>

partial_function (option) strlen_from :: "mem \<Rightarrow> nat \<Rightarrow> nat \<Rightarrow> nat option" where
  "strlen_from m s n = (if m (s + n) \<noteq> 0 then strlen_from m s (Suc n) else Some n)"

definition strlen :: "mem \<Rightarrow> nat \<Rightarrow> nat option" where
  "strlen m s = strlen_from m s 0"

declare strncpy_copy.simps [simp del] strncpy_pad.simps [simp del] safestrcpy_loop.simps [simp del]

section \<open>What the loops compute\<close>

lemma memset_loop_apply:
  "memset_loop m dst c i k a = (if dst + i \<le> a \<and> a < dst + i + k then c else m a)"
proof (induction k arbitrary: m i)
  case (Suc k)
  show ?case unfolding memset_loop.simps Suc.IH by auto
qed auto

lemma memset_apply: "memset m dst c n a = (if dst \<le> a \<and> a < dst + n then c else m a)"
  by (simp add: memset_def memset_loop_apply)

lemma move_up_apply:
  "d \<le> s \<or> s + n \<le> d \<Longrightarrow> move_up m d s n a = (if d \<le> a \<and> a < d + n then m (s + (a - d)) else m a)"
proof (induction n arbitrary: m d s)
  case (Suc n)
  have "move_up m d s (Suc n) a = (if d + 1 \<le> a \<and> a < d + 1 + n
      then (m(d := m s)) (s + 1 + (a - (d + 1))) else (m(d := m s)) a)"
    unfolding move_up.simps by (rule Suc.IH) (use Suc.prems in auto)
  also have "\<dots> = (if d \<le> a \<and> a < d + Suc n then m (s + (a - d)) else m a)"
  proof (cases "a = d")
    case False
    have "s + 1 + (a - (d + 1)) = s + (a - d)" if "d + 1 \<le> a" using that by arith
    then show ?thesis using False Suc.prems by auto
  qed (use Suc.prems in auto)
  finally show ?case .
qed auto

lemma move_down_apply:
  "n \<le> s \<Longrightarrow> s < d \<Longrightarrow> move_down m d s n a = (if d - n \<le> a \<and> a < d then m (s - (d - a)) else m a)"
proof (induction n arbitrary: m d s)
  case (Suc n)
  have "move_down m d s (Suc n) a = (if d - 1 - n \<le> a \<and> a < d - 1
      then (m(d - 1 := m (s - 1))) (s - 1 - (d - 1 - a)) else (m(d - 1 := m (s - 1))) a)"
    unfolding move_down.simps by (rule Suc.IH) (use Suc.prems in auto)
  also have "\<dots> = (if d - Suc n \<le> a \<and> a < d then m (s - (d - a)) else m a)"
  proof (cases "a = d - 1")
    case False
    have "s - 1 - (d - 1 - a) = s - (d - a)" if "a < d - 1" using that by arith
    then show ?thesis using False Suc.prems by auto
  qed (use Suc.prems in auto)
  finally show ?case .
qed auto

lemma memmove_apply:
  "memmove m dst src n a = (if dst \<le> a \<and> a < dst + n then m (src + (a - dst)) else m a)"
proof -
  consider "n = 0" | "0 < n" "src < dst" "src + n > dst" | "0 < n" "dst \<le> src \<or> src + n \<le> dst"
    by linarith
  then show ?thesis
  proof cases
    case 2
    then show ?thesis
      using move_down_apply [of n "src + n" "dst + n" m a] by (auto simp: memmove_def)
  qed (auto simp: memmove_def move_up_apply)
qed

lemma memcmp_zero_iff: "memcmp m s1 s2 n = 0 \<longleftrightarrow> (\<forall>i<n. m (s1 + i) = m (s2 + i))"
proof (induction n arbitrary: s1 s2)
  case (Suc n)
  show ?case
    using Suc.IH [of "s1 + 1" "s2 + 1"] by (auto simp: less_Suc_eq_0_disj word_uint_eq_iff)
qed simp

text \<open>The string at an address, as a list of bytes without its NUL.\<close>

definition cstr :: "mem \<Rightarrow> nat \<Rightarrow> u8 list \<Rightarrow> bool" where
  "cstr m s xs \<longleftrightarrow> 0 \<notin> set xs \<and> m (s + length xs) = 0 \<and> (\<forall>i<length xs. m (s + i) = xs ! i)"

lemma cstr_Nil [simp]: "cstr m s [] \<longleftrightarrow> m s = 0"
  by (simp add: cstr_def)

lemma cstr_Cons [simp]: "cstr m s (x # xs) \<longleftrightarrow> x \<noteq> 0 \<and> m s = x \<and> cstr m (s + 1) xs"
  by (auto simp: cstr_def less_Suc_eq_0_disj)

lemma cstr_byte: "cstr m s xs \<Longrightarrow> i < length xs \<Longrightarrow> m (s + i) = xs ! i \<and> xs ! i \<noteq> 0"
  by (metis cstr_def nth_mem)

lemma cstr_cong: "(\<And>i. i \<le> length xs \<Longrightarrow> m (s + i) = m' (s' + i)) \<Longrightarrow> cstr m s xs \<longleftrightarrow> cstr m' s' xs"
  by (simp add: cstr_def)

lemma strlen_from_cstr:
  "cstr m s xs \<Longrightarrow> n \<le> length xs \<Longrightarrow> strlen_from m s n = Some (length xs)"
proof (induction "length xs - n" arbitrary: n)
  case 0
  then show ?case by (subst strlen_from.simps) (simp add: cstr_def)
next
  case (Suc k)
  then have "strlen_from m s (Suc n) = Some (length xs)" by simp
  then show ?case using Suc.hyps(2) Suc.prems cstr_byte [of m s xs n]
    by (subst strlen_from.simps) auto
qed

lemma strlen_cstr: "cstr m s xs \<Longrightarrow> strlen m s = Some (length xs)"
  by (simp add: strlen_def strlen_from_cstr)

text \<open>\<^verbatim>\<open>strncmp\<close> compares two strings up to \<open>n\<close> bytes.\<close>

lemma strncmp_zero_iff:
  "cstr m p xs \<Longrightarrow> cstr m q ys \<Longrightarrow> strncmp m p q n = 0 \<longleftrightarrow> take n xs = take n ys"
proof (induction n arbitrary: p q xs ys)
  case (Suc n)
  have [simp]: "uint (m p) - uint (m q) = 0 \<longleftrightarrow> m p = m q" by (auto simp: word_uint_eq_iff)
  show ?case
    using Suc.prems Suc.IH [of "p + 1" _ "q + 1"]
    by (cases xs; cases ys) (auto simp: word_uint_eq_iff)
qed simp

text \<open>
  The bytes that \<^verbatim>\<open>strncpy\<close> leaves: the string, cut at \<open>n\<close>, then NULs up to \<open>n\<close>.
  The source must not overlap the destination.
\<close>

lemma strncpy_pad_apply:
  "strncpy_pad m s n a = (if s \<le> a \<and> a < s + nat n then 0 else m a)"
proof (induction m s n rule: strncpy_pad.induct)
  case (1 m s n)
  show ?case
  proof (cases "n > 0")
    case True
    then have "strncpy_pad m s n a = strncpy_pad (m(s := 0)) (s + 1) (n - 1) a"
      by (subst strncpy_pad.simps) simp
    also have "\<dots> = (if s + 1 \<le> a \<and> a < s + 1 + nat (n - 1) then 0 else (m(s := 0)) a)"
      by (rule "1.IH" [OF True])
    also have "\<dots> = (if s \<le> a \<and> a < s + nat n then 0 else m a)"
      using True by (cases "a = s") auto
    finally show ?thesis .
  qed (subst strncpy_pad.simps, auto)
qed

lemma strncpy_step:
  "n \<le> 0 \<Longrightarrow> strncpy m s t n = m"
  "0 < n \<Longrightarrow> m t = 0 \<Longrightarrow> strncpy m s t n = strncpy_pad (m(s := 0)) (s + 1) (n - 1)"
  "0 < n \<Longrightarrow> m t \<noteq> 0 \<Longrightarrow> strncpy m s t n = strncpy (m(s := m t)) (s + 1) (t + 1) (n - 1)"
  unfolding strncpy_def strncpy_copy.simps [of m s t n]
  by (simp_all add: strncpy_pad.simps [of m s "n - 1"])

lemma strncpy_apply:
  "cstr m t xs \<Longrightarrow> t + length xs < s \<or> s + nat n \<le> t \<Longrightarrow>
   strncpy m s t n a = (if s \<le> a \<and> a < s + nat n then (if a - s < length xs then xs ! (a - s) else 0) else m a)"
proof (induction xs arbitrary: m s t n)
  case Nil
  then show ?case
    by (cases "n \<le> 0") (auto simp: strncpy_step strncpy_pad_apply)
next
  case (Cons x xs)
  show ?case
  proof (cases "n \<le> 0")
    case False
    have c: "cstr (m(s := x)) (t + 1) xs"
      using Cons.prems False cstr_cong [of xs m "t + 1" "m(s := x)" "t + 1"] by auto
    have "strncpy m s t n a = strncpy (m(s := x)) (s + 1) (t + 1) (n - 1) a"
      using Cons.prems False by (subst strncpy_step) auto
    also have "\<dots> = (if s + 1 \<le> a \<and> a < s + 1 + nat (n - 1)
        then (if a - (s + 1) < length xs then xs ! (a - (s + 1)) else 0) else (m(s := x)) a)"
      by (rule Cons.IH [OF c]) (use Cons.prems False in auto)
    also have "\<dots> = (if s \<le> a \<and> a < s + nat n
        then (if a - s < length (x # xs) then (x # xs) ! (a - s) else 0) else m a)"
      using False by (cases "a = s") (auto simp: nth_Cons')
    finally show ?thesis .
  qed (auto simp: strncpy_step)
qed

lemma safestrcpy_step:
  "safestrcpy m s t 1 = m(s := 0)"
  "1 < n \<Longrightarrow> m t = 0 \<Longrightarrow> safestrcpy m s t n = m(s := 0, s + 1 := 0)"
  "1 < n \<Longrightarrow> m t \<noteq> 0 \<Longrightarrow> safestrcpy m s t n = safestrcpy (m(s := m t)) (s + 1) (t + 1) (n - 1)"
  unfolding safestrcpy_def safestrcpy_loop.simps [of m s t 1] safestrcpy_loop.simps [of m s t n]
  by simp_all

lemma safestrcpy_cstr:
  "cstr m t xs \<Longrightarrow> 0 < n \<Longrightarrow> t + length xs < s \<or> s + nat n \<le> t \<Longrightarrow>
   cstr (safestrcpy m s t n) s (take (nat n - 1) xs) \<and>
   (\<forall>a. a < s \<or> s + nat n \<le> a \<longrightarrow> safestrcpy m s t n a = m a)"
proof (induction xs arbitrary: m s t n)
  case Nil
  then show ?case by (cases "n = 1") (auto simp: safestrcpy_step)
next
  case (Cons x xs)
  show ?case
  proof (cases "n = 1")
    case False
    let ?m = "safestrcpy (m(s := x)) (s + 1) (t + 1) (n - 1)"
    have n: "nat n - 1 = Suc (nat (n - 1) - 1)" using Cons.prems False by auto
    have c: "cstr (m(s := x)) (t + 1) xs"
      using Cons.prems False cstr_cong [of xs m "t + 1" "m(s := x)" "t + 1"] by auto
    have eq: "safestrcpy m s t n = ?m"
      using Cons.prems False by (subst safestrcpy_step) auto
    have IH: "cstr ?m (s + 1) (take (nat (n - 1) - 1) xs)"
      "\<forall>a. a < s + 1 \<or> s + 1 + nat (n - 1) \<le> a \<longrightarrow> ?m a = (m(s := x)) a"
    proof -
      have "0 < n - 1" "t + 1 + length xs < s + 1 \<or> s + 1 + nat (n - 1) \<le> t + 1"
        using Cons.prems False by auto
      from Cons.IH [OF c this] show "cstr ?m (s + 1) (take (nat (n - 1) - 1) xs)"
        "\<forall>a. a < s + 1 \<or> s + 1 + nat (n - 1) \<le> a \<longrightarrow> ?m a = (m(s := x)) a" by blast+
    qed
    have "?m s = x" using IH(2) by simp
    moreover have "?m a = m a" if "a < s \<or> s + nat n \<le> a" for a
    proof -
      have "a < s + 1 \<or> s + 1 + nat (n - 1) \<le> a" "a \<noteq> s" using that Cons.prems False by auto
      then show ?thesis using IH(2) by auto
    qed
    ultimately show ?thesis unfolding eq n using IH(1) Cons.prems by auto
  qed (use safestrcpy_step(1) in auto)
qed

section \<open>Little-endian loads and stores\<close>

text \<open>
  What the RISC-V loads and stores of \<open>k\<close> bytes do to the memory; values are unsigned.
\<close>

fun load_le :: "mem \<Rightarrow> nat \<Rightarrow> nat \<Rightarrow> nat" where
  "load_le m a 0 = 0"
| "load_le m a (Suc k) = unat (m a) + 256 * load_le m (a + 1) k"

fun store_le :: "mem \<Rightarrow> nat \<Rightarrow> nat \<Rightarrow> nat \<Rightarrow> mem" where
  "store_le m a v 0 = m"
| "store_le m a v (Suc k) = store_le (m(a := word_of_nat v)) (a + 1) (v div 256) k"

definition load64 :: "mem \<Rightarrow> nat \<Rightarrow> nat" where
  "load64 m a = load_le m a 8"

definition store64 :: "mem \<Rightarrow> nat \<Rightarrow> nat \<Rightarrow> mem" where
  "store64 m a v = store_le m a v 8"

lemma store_le_other: "b < a \<or> a + k \<le> b \<Longrightarrow> store_le m a v k b = m b"
  by (induction k arbitrary: m a v) auto

lemma load_le_cong: "(\<And>i. i < k \<Longrightarrow> m (a + i) = m' (a + i)) \<Longrightarrow> load_le m a k = load_le m' a k"
proof (induction k arbitrary: a)
  case (Suc k)
  have "load_le m (a + 1) k = load_le m' (a + 1) k"
    by (rule Suc.IH) (use Suc.prems [of "Suc _"] in simp)
  then show ?case using Suc.prems [of 0] by simp
qed simp

lemma load_le_store_le: "load_le (store_le m a v k) a k = v mod 256 ^ k"
proof (induction k arbitrary: m a v)
  case (Suc k)
  have "load_le (store_le m a v (Suc k)) a (Suc k) = v mod 256 + 256 * (v div 256 mod 256 ^ k)"
    using Suc.IH [of "m(a := word_of_nat v)" "a + 1" "v div 256"]
    by (simp add: store_le_other unat_of_nat take_bit_eq_mod del: fun_upd_apply)
      (simp add: store_le_other unat_of_nat take_bit_eq_mod)
  then show ?case by (simp add: mod_mult2_eq)
qed simp

lemma load64_store64_same [simp]: "v < 2 ^ 64 \<Longrightarrow> load64 (store64 m a v) a = v"
  by (simp add: load64_def store64_def load_le_store_le)

lemma store64_other [simp]: "b < a \<or> a + 8 \<le> b \<Longrightarrow> store64 m a v b = m b"
  by (simp add: store64_def store_le_other)

lemma load64_cong: "(\<And>b. a \<le> b \<Longrightarrow> b < a + 8 \<Longrightarrow> m b = m' b) \<Longrightarrow> load64 m a = load64 m' a"
  unfolding load64_def by (rule load_le_cong) simp

lemma load64_store64_other [simp]: "b + 8 \<le> a \<or> a + 8 \<le> b \<Longrightarrow> load64 (store64 m a v) b = load64 m b"
  by (rule load64_cong) auto

lemma load_le_less: "load_le m a k < 256 ^ k"
proof (induction k arbitrary: a)
  case (Suc k)
  have "unat (m a) < 256" using unsigned_less [of "m a"] by simp
  then show ?case using Suc.IH [of "a + 1"] by simp
qed simp

lemma load64_less [simp]: "load64 m a < 2 ^ 64"
  using load_le_less [of m a 8] by (simp add: load64_def)

lemma load_le_zero: "(\<And>i. i < k \<Longrightarrow> m (a + i) = 0) \<Longrightarrow> load_le m a k = 0"
proof (induction k arbitrary: a)
  case (Suc k)
  have "load_le m (a + 1) k = 0"
    by (rule Suc.IH) (use Suc.prems [of "Suc _"] in simp)
  then show ?case using Suc.prems [of 0] by simp
qed simp

lemma load64_zero: "(\<And>b. a \<le> b \<Longrightarrow> b < a + 8 \<Longrightarrow> m b = 0) \<Longrightarrow> load64 m a = 0"
  unfolding load64_def by (rule load_le_zero) simp

lemma load64_memset_zero [simp]: "d \<le> a \<Longrightarrow> a + 8 \<le> d + n \<Longrightarrow> load64 (memset m d 0 n) a = 0"
  by (rule load64_zero) (simp add: memset_apply)

lemma load64_memset_other [simp]: "a + 8 \<le> d \<or> d + n \<le> a \<Longrightarrow> load64 (memset m d c n) a = load64 m a"
  by (rule load64_cong) (auto simp: memset_apply)

section \<open>Properties\<close>

text \<open>
  \<^verbatim>\<open>memmove\<close> moves the bytes that were at the source before the call, whatever the
  overlap of source and destination, and writes nothing else; so does \<^verbatim>\<open>memcpy\<close>.
\<close>

theorem memmove_moves:
  "memmove m dst src n = (\<lambda>a. if dst \<le> a \<and> a < dst + n then m (src + (a - dst)) else m a) \<and>
   memcpy m dst src n = memmove m dst src n"
  by (simp add: fun_eq_iff memmove_apply memcpy_def)

text \<open>
  \<^verbatim>\<open>safestrcpy\<close> with room for at least one byte leaves a NUL-terminated string at the
  destination, the source string cut to \<open>n - 1\<close> bytes, so that \<^verbatim>\<open>strlen\<close> of the
  copy returns and is below \<open>n\<close>; no byte outside the \<open>n\<close> bytes of the destination
  changes. \<^verbatim>\<open>strncpy\<close> instead pads with NULs and leaves an unterminated copy when the
  source has \<open>n\<close> bytes or more.
\<close>

theorem string_copies:
  assumes "cstr m t xs" "0 < n" "t + length xs < s \<or> s + nat n \<le> t"
  shows "cstr (safestrcpy m s t n) s (take (nat n - 1) xs) \<and>
    strlen (safestrcpy m s t n) s = Some (min (length xs) (nat n - 1)) \<and>
    (\<forall>a. a < s \<or> s + nat n \<le> a \<longrightarrow> safestrcpy m s t n a = m a \<and> strncpy m s t n a = m a) \<and>
    (\<forall>i<nat n. strncpy m s t n (s + i) = (if i < length xs then xs ! i else 0))"
  using safestrcpy_cstr [OF assms] strlen_cstr [of "safestrcpy m s t n" s "take (nat n - 1) xs"]
    strncpy_apply [OF assms(1,3)] by (auto simp: min_def)

theorem string_copies_witness:
  "cstr (\<lambda>a. if a = 0 \<or> a = 1 then 7 else 0) 0 [7, 7] \<and>
   strlen (safestrcpy (\<lambda>a. if a = 0 \<or> a = 1 then 7 else 0) 100 0 2) 100 = Some 1 \<and>
   strncpy (\<lambda>a. if a = 0 \<or> a = 1 then 7 else 0) 100 0 2 101 = 7"
proof -
  let ?m = "\<lambda>a::nat. if a = 0 \<or> a = 1 then 7 else (0::u8)"
  have c: "cstr ?m 0 [7, 7]" by simp
  have h: "strlen (safestrcpy ?m 100 0 2) 100 = Some 1" "\<forall>i<2. strncpy ?m 100 0 2 (100 + i) = 7"
    using string_copies [OF c, of 2 100] by (auto simp: less_Suc_eq numeral_2_eq_2)
  show ?thesis using c h(1) h(2) [rule_format, of 1] by simp
qed

end
