(* ===== verification/Kalloc.thy ===== *)
theory Kalloc
  imports Kstring
begin

text \<open>
  \<^verbatim>\<open>kernel/kalloc.c\<close>: the allocator of physical pages. The free list is threaded through
  the free pages themselves, so the state is the memory and the head of the list; the linker
  symbol \<^verbatim>\<open>end\<close> is a field of the state. Its contract is the locale
  \<open>page_allocator\<close>, which the virtual memory and the pipes rely on.
\<close>

section \<open>Memory layout\<close>

text \<open>\<^verbatim>\<open>kernel/riscv.h\<close> and \<^verbatim>\<open>kernel/memlayout.h\<close>.\<close>

abbreviation (input) PGSIZE :: nat where "PGSIZE \<equiv> 4096"
abbreviation (input) KERNBASE :: nat where "KERNBASE \<equiv> 2147483648"
abbreviation (input) PHYSTOP :: nat where "PHYSTOP \<equiv> 2281701376"
abbreviation (input) MAXVA :: nat where "MAXVA \<equiv> 274877906944"
abbreviation (input) TRAMPOLINE :: nat where "TRAMPOLINE \<equiv> 274877902848"
abbreviation (input) TRAPFRAME :: nat where "TRAPFRAME \<equiv> 274877898752"

definition PGROUNDUP :: "nat \<Rightarrow> nat" where
  "PGROUNDUP sz = (sz + 4095) mod 2 ^ 64 div 4096 * 4096"

definition PGROUNDDOWN :: "nat \<Rightarrow> nat" where
  "PGROUNDDOWN a = a div 4096 * 4096"

text \<open>\<^verbatim>\<open>KSTACK(p)\<close>: two pages below the trampoline per process.\<close>

definition KSTACK :: "nat \<Rightarrow> nat" where
  "KSTACK i = TRAMPOLINE - (i + 1) * 2 * PGSIZE"

record km =
  mem :: mem
  freelist :: nat
  kend :: nat

section \<open>The operations\<close>

definition kfree :: "nat \<Rightarrow> 'z km_scheme \<Rightarrow> 'z km_scheme res" where
  "kfree pa s =
     (if pa mod PGSIZE \<noteq> 0 \<or> pa < kend s \<or> PHYSTOP \<le> pa then Inl (Panic ''kfree'')
      else
        let s1 = s\<lparr>mem := memset (mem s) pa 1 PGSIZE\<rparr> in
        Inr (s1\<lparr>mem := store64 (mem s1) pa (freelist s1), freelist := pa\<rparr>))"

definition kalloc :: "'z km_scheme \<Rightarrow> nat \<times> 'z km_scheme" where
  "kalloc s =
     (let r = freelist s;
          s1 = (if r \<noteq> 0 then s\<lparr>freelist := load64 (mem s) r\<rparr> else s);
          s2 = (if r \<noteq> 0 then s1\<lparr>mem := memset (mem s1) r 5 PGSIZE\<rparr> else s1) in
      (r, s2))"

function freerange_loop :: "nat \<Rightarrow> nat \<Rightarrow> 'z km_scheme \<Rightarrow> 'z km_scheme res" where
  "freerange_loop p pa_end s =
     (if p + PGSIZE \<le> pa_end then bnd (kfree p s) (freerange_loop (p + PGSIZE) pa_end) else Inr s)"
  by pat_completeness auto
termination
  by (relation "measure (\<lambda>(p, e, s). e - p)") auto

definition freerange :: "nat \<Rightarrow> nat \<Rightarrow> 'z km_scheme \<Rightarrow> 'z km_scheme res" where
  "freerange pa_start pa_end s = freerange_loop (PGROUNDUP pa_start) pa_end s"

definition kinit :: "'z km_scheme \<Rightarrow> 'z km_scheme res" where
  "kinit s = freerange (kend s) PHYSTOP s"

declare freerange_loop.simps [simp del]

section \<open>The free list\<close>

definition page_bytes :: "nat \<Rightarrow> nat set" where
  "page_bytes p = {p..<p + 4096}"

definition page_ok :: "'z km_scheme \<Rightarrow> nat \<Rightarrow> bool" where
  "page_ok s p \<longleftrightarrow> p mod 4096 = 0 \<and> kend s \<le> p \<and> p < PHYSTOP"

fun fl_rep :: "mem \<Rightarrow> nat \<Rightarrow> nat list \<Rightarrow> bool" where
  "fl_rep m r [] \<longleftrightarrow> r = 0"
| "fl_rep m r (p # ps) \<longleftrightarrow> r = p \<and> fl_rep m (load64 m p) ps"

text \<open>The abstract state of the allocator is the list of its free pages.\<close>

definition flist :: "'z km_scheme \<Rightarrow> nat list \<Rightarrow> bool" where
  "flist s ps \<longleftrightarrow> 0 < kend s \<and> fl_rep (mem s) (freelist s) ps \<and> distinct ps \<and> (\<forall>p\<in>set ps. page_ok s p)"

lemma mem_page_bytes [simp]: "a \<in> page_bytes p \<longleftrightarrow> p \<le> a \<and> a < p + 4096"
  by (auto simp: page_bytes_def)

lemma page_mult: "(p :: nat) mod 4096 = 0 \<Longrightarrow> \<exists>k. p = 4096 * k"
  by (metis mod_0_imp_dvd dvdE)

lemma page_div: "(r :: nat) < 4096 \<Longrightarrow> (r + 4096 * x) div 4096 = x"
  by simp

lemma page_apart:
  assumes "p mod 4096 = 0" "q mod 4096 = 0" "p \<noteq> q"
  shows "p + 4096 \<le> q \<or> q + 4096 \<le> (p :: nat)"
proof -
  obtain k l where "p = 4096 * k" "q = 4096 * l" using page_mult assms by blast
  then show ?thesis using assms(3) by (cases k l rule: linorder_cases) auto
qed

lemma page_bytes_disjoint:
  "p mod 4096 = 0 \<Longrightarrow> q mod 4096 = 0 \<Longrightarrow> p \<noteq> q \<Longrightarrow> page_bytes p \<inter> page_bytes q = {}"
  using page_apart [of p q] by (auto simp: page_bytes_def)

lemma fl_rep_cong:
  "(\<And>p a. p \<in> set ps \<Longrightarrow> a \<in> page_bytes p \<Longrightarrow> m a = m' a) \<Longrightarrow> fl_rep m r ps \<longleftrightarrow> fl_rep m' r ps"
proof (induction ps arbitrary: r)
  case (Cons p ps)
  have "load64 m p = load64 m' p" by (rule load64_cong) (use Cons.prems [of p] in simp)
  then show ?case using Cons by auto
qed simp

text \<open>Writes outside the free pages do not disturb the list.\<close>

lemma flist_frame:
  assumes "flist s ps" "freelist s' = freelist s" "kend s' = kend s"
    "\<And>p a. p \<in> set ps \<Longrightarrow> a \<in> page_bytes p \<Longrightarrow> mem s' a = mem s a"
  shows "flist s' ps"
  using assms fl_rep_cong [of ps "mem s" "mem s'"] by (auto simp: flist_def page_ok_def)

lemma kalloc_Nil: "flist s [] \<Longrightarrow> kalloc s = (0, s)"
  by (simp add: flist_def kalloc_def)

lemma kalloc_Cons:
  assumes "flist s (p # ps)"
  shows "\<exists>m r. kalloc s = (p, s\<lparr>freelist := r, mem := m\<rparr>) \<and> flist (s\<lparr>freelist := r, mem := m\<rparr>) ps \<and>
    (\<forall>a. m a = (if a \<in> page_bytes p then 5 else mem s a))"
proof -
  have p: "p \<noteq> 0" "freelist s = p" using assms by (auto simp: flist_def page_ok_def)
  let ?s = "s\<lparr>freelist := load64 (mem s) p, mem := memset (mem s) p 5 4096\<rparr>"
  have "fl_rep (mem s) (load64 (mem s) p) ps" using assms by (auto simp: flist_def)
  moreover have "mem s a = mem ?s a" if "q \<in> set ps" "a \<in> page_bytes q" for q a
  proof -
    have "q \<noteq> p" "q mod 4096 = 0" "p mod 4096 = 0"
      using assms that(1) by (auto simp: flist_def page_ok_def)
    then show ?thesis using that page_apart [of p q] by (auto simp: memset_apply)
  qed
  ultimately have "flist ?s ps"
    using assms fl_rep_cong [of ps "mem s" "mem ?s"] by (auto simp: flist_def page_ok_def)
  then show ?thesis using p
    by (intro exI [of _ "mem ?s"] exI [of _ "load64 (mem s) p"]) (simp add: kalloc_def memset_apply)
qed

lemma kfree_ok:
  assumes "flist s ps" "page_ok s p" "p \<notin> set ps"
  shows "\<exists>m. kfree p s = Inr (s\<lparr>mem := m, freelist := p\<rparr>) \<and> flist (s\<lparr>mem := m, freelist := p\<rparr>) (p # ps) \<and>
    (\<forall>a. a \<notin> page_bytes p \<longrightarrow> m a = mem s a)"
proof -
  let ?m = "store64 (memset (mem s) p 1 4096) p (freelist s)"
  have out: "?m a = mem s a" if "a \<notin> page_bytes p" for a
    using that by (subst store64_other) (auto simp: memset_apply)
  have eq: "mem s a = ?m a" if "q \<in> set ps" "a \<in> page_bytes q" for q a
  proof -
    have "q \<noteq> p" "q mod 4096 = 0" "p mod 4096 = 0"
      using assms that(1) by (auto simp: flist_def page_ok_def)
    then have "a \<notin> page_bytes p" using that(2) page_apart [of p q] by auto
    then show ?thesis by (rule out [symmetric])
  qed
  have "freelist s < 2 ^ 64"
    using assms(1) by (cases ps) (auto simp: flist_def page_ok_def)
  then have "flist (s\<lparr>mem := ?m, freelist := p\<rparr>) (p # ps)"
    using assms fl_rep_cong [of ps "mem s" ?m "freelist s"] eq by (auto simp: flist_def page_ok_def)
  then show ?thesis using assms(2) out
    by (intro exI [of _ ?m]) (simp add: kfree_def page_ok_def)
qed

section \<open>The contract of the allocator\<close>

text \<open>
  The interface the rest of the kernel relies on: \<open>inv s ps\<close> says that the free pages are
  \<open>ps\<close>, \<open>page s p\<close> that \<open>p\<close> can be freed, and \<open>bytes s\<close> gives the bytes that
  belong to the clients.
\<close>

locale page_allocator =
  fixes inv :: "'s \<Rightarrow> nat list \<Rightarrow> bool"
    and page :: "'s \<Rightarrow> nat \<Rightarrow> bool"
    and bytes :: "'s \<Rightarrow> nat \<Rightarrow> u8"
    and alloc :: "'s \<Rightarrow> nat \<times> 's"
    and free :: "nat \<Rightarrow> 's \<Rightarrow> 's res"
  assumes alloc_empty: "inv s [] \<Longrightarrow> alloc s = (0, s)"
    and alloc_page: "inv s (p # ps) \<Longrightarrow> \<exists>s'. alloc s = (p, s') \<and> inv s' ps \<and> (\<forall>q. page s' q = page s q) \<and>
      (\<forall>a. a \<notin> page_bytes p \<longrightarrow> bytes s' a = bytes s a)"
    and free_page: "inv s ps \<Longrightarrow> page s p \<Longrightarrow> p \<notin> set ps \<Longrightarrow> \<exists>s'. free p s = Inr s' \<and> inv s' (p # ps) \<and>
      (\<forall>q. page s' q = page s q) \<and> (\<forall>a. a \<notin> page_bytes p \<longrightarrow> bytes s' a = bytes s a)"
    and inv_pages: "inv s ps \<Longrightarrow> distinct ps \<and> 0 \<notin> set ps \<and> (\<forall>p\<in>set ps. page s p)"
begin

text \<open>Repeated allocation, until the allocator is empty.\<close>

fun alloc_n :: "nat \<Rightarrow> 's \<Rightarrow> nat list \<times> 's" where
  "alloc_n 0 s = ([], s)"
| "alloc_n (Suc n) s = (let (p, s1) = alloc s; (ps, s2) = alloc_n n s1 in (p # ps, s2))"

lemma alloc_n_takes:
  "inv s ps \<Longrightarrow> n \<le> length ps \<Longrightarrow>
   \<exists>s'. alloc_n n s = (take n ps, s') \<and> inv s' (drop n ps) \<and>
     (\<forall>a. a \<notin> \<Union> (page_bytes ` set (take n ps)) \<longrightarrow> bytes s' a = bytes s a)"
proof (induction n arbitrary: s ps)
  case (Suc n)
  then obtain p qs where ps: "ps = p # qs" by (cases ps) auto
  then obtain s1 where s1: "alloc s = (p, s1)" "inv s1 qs"
    "\<forall>a. a \<notin> page_bytes p \<longrightarrow> bytes s1 a = bytes s a"
    using alloc_page Suc.prems by blast
  then obtain s2 where s2: "alloc_n n s1 = (take n qs, s2)" "inv s2 (drop n qs)"
    "\<forall>a. a \<notin> \<Union> (page_bytes ` set (take n qs)) \<longrightarrow> bytes s2 a = bytes s1 a"
    using Suc.IH [of s1 qs] Suc.prems ps by auto
  show ?case
    by (intro exI [of _ s2]) (use s1 s2 ps in \<open>auto simp del: mem_page_bytes\<close>)
qed simp

text \<open>Every page is handed out once: what is allocated is not free and is not allocated again.\<close>

lemma alloc_free_inverse:
  assumes "inv s (p # ps)"
  shows "\<exists>s' s''. alloc s = (p, s') \<and> free p s' = Inr s'' \<and> inv s'' (p # ps) \<and>
    (\<forall>a. a \<notin> page_bytes p \<longrightarrow> bytes s'' a = bytes s a)"
proof -
  obtain s' where s': "alloc s = (p, s')" "inv s' ps" "\<forall>q. page s' q = page s q"
    "\<forall>a. a \<notin> page_bytes p \<longrightarrow> bytes s' a = bytes s a"
    using alloc_page [OF assms] by blast
  have "page s' p" "p \<notin> set ps" using inv_pages [OF assms] s'(3) by auto
  then obtain s'' where "free p s' = Inr s''" "inv s'' (p # ps)"
    "\<forall>a. a \<notin> page_bytes p \<longrightarrow> bytes s'' a = bytes s' a"
    using free_page [OF s'(2)] by blast
  with s' show ?thesis by (intro exI [of _ s'] exI [of _ s'']) simp
qed

end

interpretation ka: page_allocator flist page_ok mem kalloc kfree
proof
  fix s :: "'z km_scheme" and p ps
  assume "flist s (p # ps)"
  then obtain m r where "kalloc s = (p, s\<lparr>freelist := r, mem := m\<rparr>)"
    "flist (s\<lparr>freelist := r, mem := m\<rparr>) ps" "\<forall>a. m a = (if a \<in> page_bytes p then 5 else mem s a)"
    using kalloc_Cons by blast
  then show "\<exists>s'. kalloc s = (p, s') \<and> flist s' ps \<and> (\<forall>q. page_ok s' q = page_ok s q) \<and>
      (\<forall>a. a \<notin> page_bytes p \<longrightarrow> mem s' a = mem s a)"
    by (intro exI [of _ "s\<lparr>freelist := r, mem := m\<rparr>"]) (simp add: page_ok_def)
next
  fix s :: "'z km_scheme" and p ps
  assume "flist s ps" "page_ok s p" "p \<notin> set ps"
  then obtain m where "kfree p s = Inr (s\<lparr>mem := m, freelist := p\<rparr>)"
    "flist (s\<lparr>mem := m, freelist := p\<rparr>) (p # ps)" "\<forall>a. a \<notin> page_bytes p \<longrightarrow> m a = mem s a"
    using kfree_ok by blast
  then show "\<exists>s'. kfree p s = Inr s' \<and> flist s' (p # ps) \<and> (\<forall>q. page_ok s' q = page_ok s q) \<and>
      (\<forall>a. a \<notin> page_bytes p \<longrightarrow> mem s' a = mem s a)"
    by (intro exI [of _ "s\<lparr>mem := m, freelist := p\<rparr>"]) (simp add: page_ok_def)
qed (auto simp: kalloc_Nil flist_def page_ok_def)

section \<open>Initialisation\<close>

lemma freerange_loop_ok:
  assumes "flist s ps" "p mod 4096 = 0" "kend s \<le> p" "pa_end \<le> PHYSTOP" "\<forall>q\<in>set ps. q < p"
  shows "\<exists>s'. freerange_loop p pa_end s = Inr s' \<and>
    flist s' (rev (map (\<lambda>i. p + i * 4096) [0..<(pa_end - p) div 4096]) @ ps)"
  using assms
proof (induction "(pa_end - p) div 4096" arbitrary: p ps s)
  case 0
  then have "\<not> p + 4096 \<le> pa_end" by (auto simp: div_eq_0_iff)
  then show ?case using 0 by (subst freerange_loop.simps) simp
next
  case (Suc n)
  have le: "p + 4096 \<le> pa_end" using Suc.hyps(2) by (cases "p + 4096 \<le> pa_end") (auto simp: div_eq_0_iff)
  have n: "n = (pa_end - (p + 4096)) div 4096" using Suc.hyps(2) le by linarith
  have "page_ok s p" "p \<notin> set ps" using Suc.prems le by (auto simp: page_ok_def)
  then obtain m where m: "kfree p s = Inr (s\<lparr>mem := m, freelist := p\<rparr>)"
    "flist (s\<lparr>mem := m, freelist := p\<rparr>) (p # ps)"
    using kfree_ok [OF Suc.prems(1)] by blast
  obtain s' where "freerange_loop (p + 4096) pa_end (s\<lparr>mem := m, freelist := p\<rparr>) = Inr s'"
    "flist s' (rev (map (\<lambda>i. p + 4096 + i * 4096) [0..<n]) @ p # ps)"
  proof -
    have "(p + 4096) mod 4096 = 0" "kend (s\<lparr>mem := m, freelist := p\<rparr>) \<le> p + 4096" "\<forall>q\<in>set (p # ps). q < p + 4096"
      using Suc.prems by auto
    from Suc.hyps(1) [OF n m(2) this(1,2) Suc.prems(4) this(3)] that show ?thesis using n by blast
  qed
  moreover have "map (\<lambda>i. p + i * 4096) [0..<Suc n] = p # map (\<lambda>i. p + 4096 + i * 4096) [0..<n]"
    by (simp add: upt_conv_Cons map_Suc_upt [symmetric] comp_def del: upt_Suc)
  ultimately show ?case
    using m(1) le Suc.hyps(2) by (subst freerange_loop.simps) auto
qed

lemma PGROUNDUP_props:
  assumes "n + 4095 < 2 ^ 64"
  shows "PGROUNDUP n mod 4096 = 0" "n \<le> PGROUNDUP n" "PGROUNDUP n < n + 4096"
proof -
  have "PGROUNDUP n = (n + 4095) div 4096 * 4096" using assms by (simp add: PGROUNDUP_def)
  then show "PGROUNDUP n mod 4096 = 0" "n \<le> PGROUNDUP n" "PGROUNDUP n < n + 4096"
    by simp_all
qed

section \<open>Properties\<close>

text \<open>
  After \<^verbatim>\<open>kinit\<close> the free list holds exactly the pages between the end of the
  kernel and the end of the memory, each once.
\<close>

theorem kinit_frees_all:
  assumes "0 < kend s" "kend s \<le> PHYSTOP" "freelist s = 0"
  shows "\<exists>s' ps. kinit s = Inr s' \<and> flist s' ps \<and> set ps = {p. page_ok s p}"
proof -
  let ?p = "PGROUNDUP (kend s)"
  have p: "?p mod 4096 = 0" "kend s \<le> ?p" "?p < kend s + 4096"
    using PGROUNDUP_props [of "kend s"] assms(2) by auto
  have "flist s []" using assms by (simp add: flist_def)
  then obtain s' where s': "kinit s = Inr s'"
    "flist s' (rev (map (\<lambda>i. ?p + i * 4096) [0..<(PHYSTOP - ?p) div 4096]))"
    using freerange_loop_ok [of s "[]" ?p PHYSTOP] p by (auto simp: kinit_def freerange_def)
  have "set (rev (map (\<lambda>i. ?p + i * 4096) [0..<(PHYSTOP - ?p) div 4096])) = {p. page_ok s p}"
  proof (intro set_eqI iffI)
    fix q assume "q \<in> {p. page_ok s p}"
    then have q: "q mod 4096 = 0" "kend s \<le> q" "q < PHYSTOP" by (auto simp: page_ok_def)
    obtain k l where kl: "?p = 4096 * k" "q = 4096 * l" using page_mult p(1) q(1) by blast
    then have "k \<le> l" "l < 557056" using p(3) q by auto
    then have "q = ?p + (l - k) * 4096" "l - k < (PHYSTOP - ?p) div 4096"
      using kl by (auto simp: algebra_simps)
    then show "q \<in> set (rev (map (\<lambda>i. ?p + i * 4096) [0..<(PHYSTOP - ?p) div 4096]))" by force
  next
    fix q assume "q \<in> set (rev (map (\<lambda>i. ?p + i * 4096) [0..<(PHYSTOP - ?p) div 4096]))"
    then obtain i where "q = ?p + i * 4096" "i < (PHYSTOP - ?p) div 4096" by auto
    then show "q \<in> {p. page_ok s p}" using p by (simp add: page_ok_def)
  qed
  with s' show ?thesis by blast
qed

theorem kinit_frees_all_witness:
  "\<exists>s' ps. kinit \<lparr>mem = (\<lambda>_. 0), freelist = 0, kend = KERNBASE + 8192\<rparr> = Inr s' \<and> flist s' ps \<and>
     set ps = {p. page_ok \<lparr>mem = (\<lambda>_. 0), freelist = 0, kend = KERNBASE + 8192\<rparr> p}"
  using kinit_frees_all [of "\<lparr>mem = (\<lambda>_. 0), freelist = 0, kend = KERNBASE + 8192\<rparr>"] by simp

text \<open>
  C23: allocating \<open>n\<close> pages from an allocator with at least \<open>n\<close> free ones returns
  \<open>n\<close> different non-null pages and removes exactly them from the free list, and no byte
  outside these pages changes; from an empty allocator \<^verbatim>\<open>kalloc\<close> returns null.
\<close>

theorem kalloc_takes:
  assumes "flist s ps" "n \<le> length ps"
  shows "(\<exists>s'. ka.alloc_n n s = (take n ps, s') \<and> flist s' (drop n ps) \<and>
      (\<forall>a. a \<notin> \<Union> (page_bytes ` set (take n ps)) \<longrightarrow> mem s' a = mem s a)) \<and>
    distinct (take n ps) \<and> 0 \<notin> set (take n ps) \<and> (ps = [] \<longrightarrow> kalloc s = (0, s))"
  using ka.alloc_n_takes [OF assms] ka.inv_pages [OF assms(1)] ka.alloc_empty [of s] assms(1)
    set_take_subset [of n ps] by auto

theorem kalloc_takes_witness:
  "\<exists>s'. ka.alloc_n 1 \<lparr>mem = (\<lambda>_. 0), freelist = KERNBASE, kend = KERNBASE\<rparr> = ([KERNBASE], s') \<and>
     flist s' []"
proof -
  have "flist \<lparr>mem = (\<lambda>_. 0), freelist = KERNBASE, kend = KERNBASE\<rparr> [KERNBASE]"
    by (simp add: flist_def page_ok_def load64_zero)
  from kalloc_takes [OF this, of 1] show ?thesis by simp blast
qed

end
