(* ===== verification/Sched.thy ===== *)
theory Sched
  imports RunQueue Kalloc
begin

text \<open>
  The multi-level feedback queue scheduler of \<^verbatim>\<open>kernel/proc.c\<close>: the process table, the
  global scheduling state, and the operations that move processes between states and run queues
  (\<^verbatim>\<open>make_runnable\<close>, \<^verbatim>\<open>yield\<close>, \<^verbatim>\<open>scheduler\<close>, \<^verbatim>\<open>sleep\<close>,
  \<^verbatim>\<open>wakeup\<close>, \<^verbatim>\<open>kill\<close>, \<^verbatim>\<open>sys_nice\<close> and the timer tick of
  \<^verbatim>\<open>kernel/trap.c\<close>), with the invariant that ties process states to queue membership.
  The machine has one hart, as the Makefile builds it (\<^verbatim>\<open>CPUS := 1\<close>). The bodies between
  \<^verbatim>\<open>acquire\<close> and \<^verbatim>\<open>release\<close> are atomic steps; the lock protocol itself is the
  subject of the theory \<open>Spinlock\<close>.
\<close>

section \<open>Processes\<close>

datatype procstate = UNUSED | USED | SLEEPING | RUNNABLE | RUNNING | ZOMBIE

record proc =
  state :: procstate
  chan :: channel
  killed :: int
  xstate :: int
  pid :: int
  parent :: "nat option"
  kstack :: nat
  sz :: nat
  pagetable :: nat
  trapframe :: nat
  ofile :: "nat option list"
  cwd :: "nat option"
  pname :: "u8 list"
  nice :: int
  nice_adjusted :: int
  runtime :: int
  queue :: int
  pass :: u64

record logentry =
  l_pid :: int
  l_time :: int
  l_queue :: int
  l_priority_boost :: int

abbreviation (input) LOG_SIZE :: int where "LOG_SIZE \<equiv> 100"
abbreviation (input) INT_MAX :: int where "INT_MAX \<equiv> 2147483647"
abbreviation (input) INT_MIN :: int where "INT_MIN \<equiv> -2147483648"
abbreviation (input) NICE_MIN :: int where "NICE_MIN \<equiv> -20"
abbreviation (input) NICE_MAX :: int where "NICE_MAX \<equiv> 19"

text \<open>
  The state of the scheduler: the globals of \<^verbatim>\<open>proc.c\<close> and \<^verbatim>\<open>trap.c\<close>, the
  process of the hart (\<open>cur\<close> is \<^verbatim>\<open>c->proc\<close>) and the local variable \<^verbatim>\<open>p\<close>
  of \<^verbatim>\<open>scheduler()\<close>, which survives from one iteration to the next. A null pointer to a
  process is \<open>None\<close>. Later theories extend the record.
\<close>

record kst = km +
  procs :: "proc list"
  qtab :: qtable
  p_kicked :: int
  time :: int
  ticks :: u32
  nextpid :: int
  initproc :: "nat option"
  schedlog :: "logentry list"
  log_count :: int
  cur :: "nat option"
  sched_p :: "nat option"

definition proc_upd :: "nat \<Rightarrow> (proc \<Rightarrow> proc) \<Rightarrow> 'z kst_scheme \<Rightarrow> 'z kst_scheme" where
  "proc_upd i f s = s\<lparr>procs := (procs s)[i := f (procs s ! i)]\<rparr>"

text \<open>The current process where the code dereferences it.\<close>

definition myproc :: "'z kst_scheme \<Rightarrow> nat res" where
  "myproc s = (case cur s of None \<Rightarrow> Inl OutOfBounds | Some i \<Rightarrow> Inr i)"

definition priority :: "proc \<Rightarrow> int" where
  "priority p = (if nice p > 10 then QUEUE_LOW else if nice p > -10 then QUEUE_MEDIUM else QUEUE_HIGH)"

definition quantum :: "proc \<Rightarrow> int" where
  "quantum p = (if queue p = QUEUE_HIGH then 1 else if queue p = QUEUE_MEDIUM then 10 else 15)"

definition add_to_queue :: "nat \<Rightarrow> 'z kst_scheme \<Rightarrow> 'z kst_scheme res" where
  "add_to_queue i s =
     bnd (enqueue_back (qtab s) (queue (procs s ! i)) (pid_word i) DEFAULT_PASS) (\<lambda>qt.
     Inr (s\<lparr>qtab := qt\<rparr>))"

definition make_runnable :: "nat \<Rightarrow> 'z kst_scheme \<Rightarrow> 'z kst_scheme res" where
  "make_runnable i s = add_to_queue i (proc_upd i (\<lambda>p. p\<lparr>state := RUNNABLE\<rparr>) s)"

section \<open>Giving up the processor\<close>

text \<open>
  \<^verbatim>\<open>sched()\<close> switches to the scheduler, which clears \<^verbatim>\<open>c->proc\<close>. Its checks on
  locks and interrupts are in the theory \<open>Spinlock\<close>; the check on the state is here.
\<close>

definition sched :: "'z kst_scheme \<Rightarrow> 'z kst_scheme res" where
  "sched s =
     bnd (myproc s) (\<lambda>i.
     if state (procs s ! i) = RUNNING then Inl (Panic ''sched running'') else Inr (s\<lparr>cur := None\<rparr>))"

text \<open>The priority boost of \<^verbatim>\<open>yield\<close>: log it, empty the queues, requeue what is runnable.\<close>

definition boost_log :: "'z kst_scheme \<Rightarrow> 'z kst_scheme" where
  "boost_log s =
     (if log_count s < LOG_SIZE then
        s\<lparr>schedlog := (schedlog s)[nat (log_count s) :=
             (schedlog s ! nat (log_count s))\<lparr>l_priority_boost := 1, l_time := time s\<rparr>],
          log_count := log_count s + 1\<rparr>
      else s)"

definition boost_proc :: "nat \<Rightarrow> 'z kst_scheme \<Rightarrow> 'z kst_scheme res" where
  "boost_proc i s =
     (if state (procs s ! i) = RUNNABLE then
        add_to_queue i (proc_upd i (\<lambda>p. p\<lparr>queue := priority p, runtime := 0\<rparr>) s)
      else Inr s)"

definition priority_boost :: "nat \<Rightarrow> 'z kst_scheme \<Rightarrow> 'z kst_scheme res" where
  "priority_boost i s0 =
     (let s1 = boost_log s0 in
      bnd (initialize (qtab s1) NUM_QUEUES) (\<lambda>qt.
      let s2 = proc_upd i (\<lambda>p. p\<lparr>runtime := 0\<rparr>) (s1\<lparr>qtab := qt\<rparr>) in
      foldres boost_proc [0..<NPROC] (s2\<lparr>p_kicked := 1\<rparr>)))"

text \<open>The part of \<^verbatim>\<open>yield\<close> before the boost: charge the tick, then demote or keep.\<close>

definition yield_charge :: "nat \<Rightarrow> 'z kst_scheme \<Rightarrow> 'z kst_scheme res" where
  "yield_charge i s0 =
     (let s1 = (if state (procs s0 ! i) \<noteq> UNUSED
                then proc_upd i (\<lambda>p. p\<lparr>runtime := runtime p + 1\<rparr>) s0 else s0);
          s2 = proc_upd i (\<lambda>p. p\<lparr>state := RUNNABLE\<rparr>) s1 in
      if runtime (procs s2 ! i) \<ge> quantum (procs s2 ! i) then
        add_to_queue i (proc_upd i (\<lambda>p. p\<lparr>queue := max QUEUE_LOW (queue p - 1), runtime := 0\<rparr>) s2)
      else Inr (s2\<lparr>p_kicked := 0\<rparr>))"

definition yield :: "'z kst_scheme \<Rightarrow> 'z kst_scheme res" where
  "yield s =
     bnd (myproc s) (\<lambda>i.
     bnd (yield_charge i s) (\<lambda>s1.
     bnd (if time s1 mod 60 = 0 then priority_boost i s1 else Inr s1) sched))"

text \<open>
  \<^verbatim>\<open>sleep\<close> up to the switch, and what it does when the process is resumed. The caller's lock
  is released and taken again around the switch.
\<close>

definition sleep :: "channel \<Rightarrow> 'z kst_scheme \<Rightarrow> 'z kst_scheme res" where
  "sleep c s =
     bnd (myproc s) (\<lambda>i.
     sched (proc_upd i (\<lambda>p. p\<lparr>chan := c, state := SLEEPING\<rparr>) s))"

definition sleep_resume :: "'z kst_scheme \<Rightarrow> 'z kst_scheme res" where
  "sleep_resume s = bnd (myproc s) (\<lambda>i. Inr (proc_upd i (\<lambda>p. p\<lparr>chan := ChNull\<rparr>) s))"

section \<open>Choosing the next process\<close>

definition sched_log :: "nat \<Rightarrow> 'z kst_scheme \<Rightarrow> 'z kst_scheme" where
  "sched_log i s =
     (if log_count s < LOG_SIZE \<and>
         \<not> (log_count s \<noteq> 0 \<and> l_pid (schedlog s ! nat (log_count s - 1)) = pid (procs s ! i) \<and>
            l_queue (schedlog s ! nat (log_count s - 1)) = queue (procs s ! i))
      then s\<lparr>schedlog := (schedlog s)[nat (log_count s) :=
               \<lparr>l_pid = pid (procs s ! i), l_time = time s, l_queue = queue (procs s ! i),
                l_priority_boost = 0\<rparr>],
             log_count := log_count s + 1\<rparr>
      else s)"

text \<open>
  One iteration of the loop of \<^verbatim>\<open>scheduler()\<close>, from \<^verbatim>\<open>intr_on()\<close> to the switch
  into the process, in two parts: the choice of the process, which runs with interrupts on and
  without a lock, and from \<^verbatim>\<open>acquire(&p->lock)\<close> to the switch. \<open>scheduler\<close> is the iteration in
  which no interrupt arrives; the theory \<open>SchedRun\<close> lets them arrive between and inside the
  parts. After the switch back the code clears \<^verbatim>\<open>c->proc\<close>, which \<open>sched\<close> already records.
\<close>

definition scheduler_pick :: "'z kst_scheme \<Rightarrow> (bool \<times> 'z kst_scheme) res" where
  "scheduler_pick s =
     (if p_kicked s \<noteq> 0 then
        bnd (dequeue (qtab s)) (\<lambda>(process_id, qt).
        if process_id = EMPTY then Inr (False, s\<lparr>qtab := qt\<rparr>)
        else Inr (True, s\<lparr>qtab := qt, sched_p := Some (nat process_id)\<rparr>))
      else Inr (True, s))"

definition scheduler_run :: "'z kst_scheme \<Rightarrow> 'z kst_scheme res" where
  "scheduler_run s =
     (case sched_p s of
        None \<Rightarrow> Inl OutOfBounds
      | Some i \<Rightarrow>
          let s1 = (proc_upd i (\<lambda>p. p\<lparr>state := RUNNING\<rparr>) s)\<lparr>cur := Some i\<rparr> in
          Inr ((sched_log i s1)\<lparr>p_kicked := 1\<rparr>))"

definition scheduler :: "'z kst_scheme \<Rightarrow> 'z kst_scheme res" where
  "scheduler s = bnd (scheduler_pick s) (\<lambda>(found, s1). if found then scheduler_run s1 else Inr s1)"

section \<open>Waking up\<close>

definition wakeup_proc :: "channel \<Rightarrow> nat \<Rightarrow> 'z kst_scheme \<Rightarrow> 'z kst_scheme res" where
  "wakeup_proc c i s =
     (if Some i \<noteq> cur s \<and> state (procs s ! i) = SLEEPING \<and> chan (procs s ! i) = c
      then make_runnable i s else Inr s)"

definition wakeup :: "channel \<Rightarrow> 'z kst_scheme \<Rightarrow> 'z kst_scheme res" where
  "wakeup c s = foldres (wakeup_proc c) [0..<NPROC] s"

fun kill_loop :: "int \<Rightarrow> nat list \<Rightarrow> 'z kst_scheme \<Rightarrow> (int \<times> 'z kst_scheme) res" where
  "kill_loop n [] s = Inr (-1, s)"
| "kill_loop n (i # is) s =
     (if pid (procs s ! i) = n then
        let s1 = proc_upd i (\<lambda>p. p\<lparr>killed := 1\<rparr>) s in
        if state (procs s1 ! i) = SLEEPING
        then bnd (make_runnable i s1) (\<lambda>s2. Inr (0, s2)) else Inr (0, s1)
      else kill_loop n is s)"

definition kill :: "int \<Rightarrow> 'z kst_scheme \<Rightarrow> (int \<times> 'z kst_scheme) res" where
  "kill n s = kill_loop n [0..<NPROC] s"

section \<open>The clock and the system calls of the scheduler\<close>

definition clockintr :: "'z kst_scheme \<Rightarrow> 'z kst_scheme res" where
  "clockintr s = wakeup ChTicks (s\<lparr>ticks := ticks s + 1\<rparr>)"

text \<open>
  A timer interrupt: \<^verbatim>\<open>devintr()\<close> runs \<^verbatim>\<open>clockintr\<close> on hart 0; the trap handlers
  then count the tick (\<^verbatim>\<open>++time\<close> on an \<^verbatim>\<open>int\<close>, undefined when it overflows) and yield, \<^verbatim>\<open>usertrap\<close> always, \<^verbatim>\<open>kerneltrap\<close> when a process
  is running on the hart.
\<close>

definition count_tick :: "'z kst_scheme \<Rightarrow> 'z kst_scheme res" where
  "count_tick s = (if time s = INT_MAX then Inl Overflow else Inr (s\<lparr>time := time s + 1\<rparr>))"

definition usertrap_timer :: "'z kst_scheme \<Rightarrow> 'z kst_scheme res" where
  "usertrap_timer s = bnd (clockintr s) (\<lambda>s1. bnd (count_tick s1) yield)"

definition kerneltrap_timer :: "'z kst_scheme \<Rightarrow> 'z kst_scheme res" where
  "kerneltrap_timer s =
     bnd (clockintr s) (\<lambda>s1.
     bnd (count_tick s1) (\<lambda>s2.
     case cur s2 of None \<Rightarrow> Inr s2
     | Some i \<Rightarrow> if state (procs s2 ! i) = RUNNING then yield s2 else Inr s2))"

definition sys_startlog :: "'z kst_scheme \<Rightarrow> int \<times> 'z kst_scheme" where
  "sys_startlog s = (0, s\<lparr>log_count := 0\<rparr>)"

text \<open>
  \<^verbatim>\<open>sys_nice\<close> up to its \<^verbatim>\<open>yield()\<close>; the sum \<^verbatim>\<open>p->nice + inc\<close> is a signed
  32-bit addition, undefined when it overflows. The call returns the new nice value once the
  process runs again.
\<close>

definition sys_nice :: "int \<Rightarrow> 'z kst_scheme \<Rightarrow> (int \<times> 'z kst_scheme) res" where
  "sys_nice inc s =
     bnd (myproc s) (\<lambda>i.
     let n = nice (procs s ! i) + inc in
     if n < INT_MIN \<or> INT_MAX < n then Inl Overflow
     else
       let s1 = proc_upd i (\<lambda>p. p\<lparr>nice := max (min n NICE_MAX) NICE_MIN\<rparr>) s;
           s2 = proc_upd i (\<lambda>p. p\<lparr>queue := priority p, runtime := 0\<rparr>) s1 in
       bnd (yield (s2\<lparr>p_kicked := 1\<rparr>)) (\<lambda>s3. Inr (nice (procs s3 ! i), s3)))"


section \<open>Queueing: what add_to_queue and its loops do\<close>

lemma proc_upd_simps [simp]:
  "procs (proc_upd i f s) = (procs s)[i := f (procs s ! i)]"
  "qtab (proc_upd i f s) = qtab s" "p_kicked (proc_upd i f s) = p_kicked s"
  "time (proc_upd i f s) = time s" "ticks (proc_upd i f s) = ticks s"
  "nextpid (proc_upd i f s) = nextpid s" "initproc (proc_upd i f s) = initproc s"
  "schedlog (proc_upd i f s) = schedlog s" "log_count (proc_upd i f s) = log_count s"
  "cur (proc_upd i f s) = cur s" "sched_p (proc_upd i f s) = sched_p s"
  by (simp_all add: proc_upd_def)

lemma add_to_queue_ok:
  assumes "rq_inv (qtab s) Q" "i < 64" "i \<notin> queued Q" "queue (procs s ! i) = int q" "q < 3"
  shows "\<exists>qt. add_to_queue i s = Inr (s\<lparr>qtab := qt\<rparr>) \<and> rq_inv qt (Q(q := Q q @ [i]))"
  using rq.push_ok [OF assms(1,5,2,3)] assms(4) by (auto simp: add_to_queue_def)

text \<open>
  The loops of \<^verbatim>\<open>wakeup\<close> and of the boost have the same shape: the processes that satisfy
  a condition are changed and enqueued. Afterwards each queue is extended, in table order, by the
  processes that were sent to it.
\<close>

definition requeued :: "(nat \<Rightarrow> proc \<Rightarrow> bool) \<Rightarrow> (proc \<Rightarrow> proc) \<Rightarrow> proc list \<Rightarrow> mlfq \<Rightarrow> mlfq" where
  "requeued c g ps Q = (\<lambda>q. Q q @ filter (\<lambda>i. c i (ps ! i) \<and> queue (g (ps ! i)) = int q) [0..<64])"

definition requeue_procs :: "(nat \<Rightarrow> proc \<Rightarrow> bool) \<Rightarrow> (proc \<Rightarrow> proc) \<Rightarrow> proc list \<Rightarrow> proc list" where
  "requeue_procs c g ps = map (\<lambda>i. if c i (ps ! i) then g (ps ! i) else ps ! i) [0..<64]"

lemma length_requeue_procs [simp]: "length (requeue_procs c g ps) = 64"
  by (simp add: requeue_procs_def)

lemma nth_requeue_procs [simp]:
  "i < 64 \<Longrightarrow> requeue_procs c g ps ! i = (if c i (ps ! i) then g (ps ! i) else ps ! i)"
  by (simp add: requeue_procs_def)

lemma requeue_loop:
  assumes len: "length (procs s) = 64" and inv: "rq_inv (qtab s) Q"
    and f: "\<And>i t. cur t = cur s \<Longrightarrow>
      f i t = (if c i (procs t ! i) then add_to_queue i (proc_upd i g t) else Inr t)"
    and g: "\<And>i. i < 64 \<Longrightarrow> c i (procs s ! i) \<Longrightarrow>
      i \<notin> queued Q \<and> 0 \<le> queue (g (procs s ! i)) \<and> queue (g (procs s ! i)) < 3"
  shows "\<exists>qt. foldres f [0..<64] s = Inr (s\<lparr>procs := requeue_procs c g (procs s), qtab := qt\<rparr>) \<and>
    rq_inv qt (requeued c g (procs s) Q)"
proof -
  let ?P = "procs s"
  define G where "G ys = (\<lambda>q. Q q @ filter (\<lambda>i. c i (?P ! i) \<and> queue (g (?P ! i)) = int q) ys)" for ys
  define I where "I ys t \<longleftrightarrow> (\<exists>P T. t = s\<lparr>procs := P, qtab := T\<rparr> \<and> length P = 64 \<and>
      (\<forall>j<64. P ! j = (if j \<in> set ys \<and> c j (?P ! j) then g (?P ! j) else ?P ! j)) \<and>
      rq_inv T (G ys))" for ys t
  have II: "I ys t" if "t = s\<lparr>procs := P, qtab := T\<rparr>" "length P = 64"
    "\<forall>j<64. P ! j = (if j \<in> set ys \<and> c j (?P ! j) then g (?P ! j) else ?P ! j)" "rq_inv T (G ys)"
    for ys t P T
    unfolding I_def using that by blast
  have "\<exists>t. foldres f [0..<64] s = Inr t \<and> I [0..<64] t"
  proof (rule foldres_rule)
    show "I [] s" unfolding I_def using len inv
      by (intro exI [of _ ?P] exI [of _ "qtab s"]) (simp add: G_def)
  next
    fix ys x zs t
    assume split: "[0..<64] = ys @ x # zs" and I: "I ys t"
    have x: "x < 64" "x \<notin> set ys"
      using split by (metis atLeastLessThan_iff in_set_conv_decomp set_upt,
          metis (no_types) distinct.simps(2) distinct_append distinct_upt disjoint_iff list.set_intros(1))
    obtain P T where t: "t = s\<lparr>procs := P, qtab := T\<rparr>" "length P = 64" "rq_inv T (G ys)"
      and P: "\<forall>j<64. P ! j = (if j \<in> set ys \<and> c j (?P ! j) then g (?P ! j) else ?P ! j)"
      using I unfolding I_def by blast
    have Px: "P ! x = ?P ! x" and fx: "f x t = (if c x (procs t ! x) then add_to_queue x (proc_upd x g t) else Inr t)"
      using P x f [of t x] t(1) by auto
    show "\<exists>t'. f x t = Inr t' \<and> I (ys @ [x]) t'"
    proof (cases "c x (?P ! x)")
      case False
      then have "f x t = Inr t" using fx Px t(1) by simp
      moreover have "G (ys @ [x]) = G ys" using False by (auto simp: G_def fun_eq_iff)
      moreover have "\<forall>j<64. P ! j = (if j \<in> set (ys @ [x]) \<and> c j (?P ! j) then g (?P ! j) else ?P ! j)"
        using P False by auto
      ultimately show ?thesis
        using II [OF t(1,2)] t(3) by metis
    next
      case True
      define q where "q = nat (queue (g (?P ! x)))"
      have q: "queue (g (?P ! x)) = int q" "q < 3" "x \<notin> queued Q"
        using g [OF x(1) True] by (auto simp: q_def)
      have "x \<notin> queued (G ys)"
        using q(3) x(2) by (auto simp: queued_def G_def)
      then obtain qt where qt: "add_to_queue x (proc_upd x g t) = Inr ((proc_upd x g t)\<lparr>qtab := qt\<rparr>)"
        "rq_inv qt ((G ys)(q := G ys q @ [x]))"
        using add_to_queue_ok [of "proc_upd x g t" "G ys" x q] t q x Px by auto
      have "G (ys @ [x]) = (G ys)(q := G ys q @ [x])"
        using True q(1) by (auto simp: G_def fun_eq_iff)
      moreover have "(proc_upd x g t)\<lparr>qtab := qt\<rparr> = s\<lparr>procs := P[x := g (?P ! x)], qtab := qt\<rparr>"
        using t(1) Px by (simp add: proc_upd_def)
      moreover have "\<forall>j<64. P[x := g (?P ! x)] ! j =
          (if j \<in> set (ys @ [x]) \<and> c j (?P ! j) then g (?P ! j) else ?P ! j)"
        using P True t(2) x by (simp add: nth_list_update)
      ultimately have "f x t = Inr (s\<lparr>procs := P[x := g (?P ! x)], qtab := qt\<rparr>)"
        "I (ys @ [x]) (s\<lparr>procs := P[x := g (?P ! x)], qtab := qt\<rparr>)"
        using fx qt(1) t(1) Px True by (simp, intro II [OF refl]) (use t(2) qt(2) in simp_all)
      then show ?thesis by blast
    qed
  qed
  then obtain t where t: "foldres f [0..<64] s = Inr t" "I [0..<64] t" by blast
  then obtain P T where P: "t = s\<lparr>procs := P, qtab := T\<rparr>" "length P = 64" "rq_inv T (G [0..<64])"
    "\<forall>j<64. P ! j = (if j \<in> set [0..<64] \<and> c j (?P ! j) then g (?P ! j) else ?P ! j)"
    unfolding I_def by blast
  then have "P = requeue_procs c g ?P"
    by (intro nth_equalityI) auto
  with t(1) P(1,3) show ?thesis
    by (auto simp: G_def requeued_def)
qed


section \<open>The invariant of the scheduler\<close>

definition proc_ok :: "proc \<Rightarrow> bool" where
  "proc_ok p \<longleftrightarrow> 0 \<le> queue p \<and> queue p \<le> 2 \<and> 0 \<le> runtime p \<and> runtime p < quantum p \<and>
     NICE_MIN \<le> nice p \<and> nice p \<le> NICE_MAX"

text \<open>
  The part that holds at every point of the code: the table is well formed, a queued process is
  runnable and sits in the queue its field names.
\<close>

definition sched_core :: "'z kst_scheme \<Rightarrow> mlfq \<Rightarrow> bool" where
  "sched_core s Q \<longleftrightarrow> length (procs s) = 64 \<and> length (schedlog s) = 100 \<and> 0 \<le> log_count s \<and>
     rq_inv (qtab s) Q \<and> (\<forall>i<64. proc_ok (procs s ! i)) \<and>
     (\<forall>q<3. \<forall>i\<in>set (Q q). state (procs s ! i) = RUNNABLE \<and> queue (procs s ! i) = int q)"

text \<open>
  Between two operations: the running process is the hart's, no runnable process is lost (it is
  queued, or it is the one process that \<^verbatim>\<open>scheduler\<close> resumes because it was not kicked).
\<close>

definition resumed :: "'z kst_scheme \<Rightarrow> nat option" where
  "resumed s = (if cur s = None \<and> p_kicked s = 0 then sched_p s else None)"

definition sched_inv :: "'z kst_scheme \<Rightarrow> mlfq \<Rightarrow> bool" where
  "sched_inv s Q \<longleftrightarrow> sched_core s Q \<and>
     (\<forall>i<64. state (procs s ! i) = RUNNABLE \<longleftrightarrow> i \<in> queued Q \<or> resumed s = Some i) \<and>
     (\<forall>i<64. state (procs s ! i) = RUNNING \<longleftrightarrow> cur s = Some i) \<and>
     (case cur s of
        Some i \<Rightarrow> i < 64 \<and> p_kicked s \<noteq> 0 \<and> sched_p s = Some i
      | None \<Rightarrow> p_kicked s = 0 \<longrightarrow> (\<exists>i<64. sched_p s = Some i \<and> i \<notin> queued Q))"

text \<open>Inside \<^verbatim>\<open>yield\<close>, after the state of process \<open>i\<close> was set and before the switch.\<close>

definition yield_mid :: "nat \<Rightarrow> 'z kst_scheme \<Rightarrow> mlfq \<Rightarrow> bool" where
  "yield_mid i s Q \<longleftrightarrow> sched_core s Q \<and> i < 64 \<and> cur s = Some i \<and> sched_p s = Some i \<and>
     (\<forall>j<64. state (procs s ! j) \<noteq> RUNNING) \<and>
     (\<forall>j<64. state (procs s ! j) = RUNNABLE \<longleftrightarrow> j \<in> queued Q \<or> j = i) \<and>
     (i \<in> queued Q \<longleftrightarrow> p_kicked s \<noteq> 0)"

lemma sched_coreD:
  assumes "sched_core s Q"
  shows "length (procs s) = 64" "rq_inv (qtab s) Q" "i < 64 \<Longrightarrow> proc_ok (procs s ! i)"
    and "q < 3 \<Longrightarrow> i \<in> set (Q q) \<Longrightarrow> state (procs s ! i) = RUNNABLE \<and> queue (procs s ! i) = int q"
  using assms by (auto simp: sched_core_def)

lemma queued_less: "rq_inv qt Q \<Longrightarrow> i \<in> queued Q \<Longrightarrow> i < 64"
  using rq_invD(4) by (fastforce simp: queued_def)

lemma queued_push: "q < 3 \<Longrightarrow> queued (Q(q := Q q @ [i])) = insert i (queued Q)"
  by (auto simp: queued_def split: if_splits)

text \<open>Changing an unqueued process keeps the core, and so does enqueueing it.\<close>

lemma sched_core_upd:
  assumes "sched_core s Q" "i \<notin> queued Q" "i < 64" "proc_ok p"
  shows "sched_core (s\<lparr>procs := (procs s)[i := p]\<rparr>) Q"
  using assms by (auto simp: sched_core_def nth_list_update queued_def)

lemma sched_core_push:
  assumes "sched_core s Q" "i \<notin> queued Q" "i < 64" "q < 3"
    and "state (procs s ! i) = RUNNABLE" "queue (procs s ! i) = int q"
    and "rq_inv qt (Q(q := Q q @ [i]))"
  shows "sched_core (s\<lparr>qtab := qt\<rparr>) (Q(q := Q q @ [i]))"
  using assms by (auto simp: sched_core_def)

lemma sched_core_globals [simp]:
  "sched_core (s\<lparr>p_kicked := k\<rparr>) Q = sched_core s Q" "sched_core (s\<lparr>cur := c\<rparr>) Q = sched_core s Q"
  "sched_core (s\<lparr>time := t\<rparr>) Q = sched_core s Q" "sched_core (s\<lparr>ticks := u\<rparr>) Q = sched_core s Q"
  "sched_core (s\<lparr>sched_p := v\<rparr>) Q = sched_core s Q"
  by (simp_all add: sched_core_def)

lemma quantum_pos: "0 < quantum p"
  by (simp add: quantum_def)

lemma quantum_upd [simp]:
  "quantum (p\<lparr>state := a\<rparr>) = quantum p" "quantum (p\<lparr>runtime := b\<rparr>) = quantum p"
  "quantum (p\<lparr>chan := c\<rparr>) = quantum p" "quantum (p\<lparr>killed := d\<rparr>) = quantum p"
  "quantum (p\<lparr>nice := e\<rparr>) = quantum p"
  by (simp_all add: quantum_def)

lemma priority_range: "0 \<le> priority p" "priority p \<le> 2"
  by (simp_all add: priority_def)

lemma priority_upd [simp]:
  "priority (p\<lparr>state := a\<rparr>) = priority p" "priority (p\<lparr>runtime := b\<rparr>) = priority p"
  "priority (p\<lparr>queue := c\<rparr>) = priority p"
  by (simp_all add: priority_def)

lemma proc_ok_boost: "proc_ok p \<Longrightarrow> proc_ok (p\<lparr>queue := priority p, runtime := 0\<rparr>)"
  using priority_range [of p] quantum_pos by (auto simp: proc_ok_def)

lemma proc_ok_state [simp]: "proc_ok (p\<lparr>state := a\<rparr>) = proc_ok p"
  by (simp add: proc_ok_def)

lemma proc_ok_chan [simp]: "proc_ok (p\<lparr>chan := a\<rparr>) = proc_ok p"
  by (simp add: proc_ok_def)

lemma proc_ok_killed [simp]: "proc_ok (p\<lparr>killed := a\<rparr>) = proc_ok p"
  by (simp add: proc_ok_def)

lemma sched_inv_curD:
  assumes "sched_inv s Q" "cur s = Some i"
  shows "i < 64" "i \<notin> queued Q" "sched_p s = Some i" "p_kicked s \<noteq> 0" "sched_core s Q"
    and "state (procs s ! i) = RUNNING" "length (procs s) = 64"
proof -
  show *: "i < 64" "state (procs s ! i) = RUNNING" "sched_p s = Some i" "p_kicked s \<noteq> 0" "sched_core s Q"
    using assms by (auto simp: sched_inv_def)
  have "state (procs s ! i) = RUNNABLE \<longleftrightarrow> i \<in> queued Q \<or> resumed s = Some i"
    using assms(1) *(1) by (auto simp: sched_inv_def)
  then show "i \<notin> queued Q"
    using *(2) by simp
  show "length (procs s) = 64"
    using * by (simp add: sched_core_def)
qed

section \<open>Every operation keeps the invariant\<close>

lemma yield_charge_keep:
  assumes "sched_inv s Q" "cur s = Some i" "runtime (procs s ! i) + 1 < quantum (procs s ! i)"
  shows "\<exists>s'. yield_charge i s = Inr s' \<and> yield_mid i s' Q \<and> p_kicked s' = 0 \<and>
    s' = s\<lparr>procs := (procs s)[i := (procs s ! i)\<lparr>runtime := runtime (procs s ! i) + 1, state := RUNNABLE\<rparr>],
           p_kicked := 0\<rparr>"
proof -
  note D = sched_inv_curD [OF assms(1,2)]
  let ?p = "(procs s ! i)\<lparr>runtime := runtime (procs s ! i) + 1, state := RUNNABLE\<rparr>"
  have "proc_ok ?p"
    using sched_coreD(3) [OF D(5,1)] assms(3) by (simp add: proc_ok_def)
  with D have "sched_core (s\<lparr>procs := (procs s)[i := ?p], p_kicked := 0\<rparr>) Q"
    using sched_core_upd [OF D(5,2,1)] by simp
  then have "yield_mid i (s\<lparr>procs := (procs s)[i := ?p], p_kicked := 0\<rparr>) Q"
    using assms(1,2) D by (auto simp: yield_mid_def sched_inv_def resumed_def nth_list_update)
  then show ?thesis
    using D assms(3) by (simp add: yield_charge_def proc_upd_def Let_def)
qed


lemma yield_charge_demote:
  assumes "sched_inv s Q" "cur s = Some i" "runtime (procs s ! i) + 1 \<ge> quantum (procs s ! i)"
    and q: "int q = max QUEUE_LOW (queue (procs s ! i) - 1)"
  shows "\<exists>qt. let p = (procs s ! i)\<lparr>state := RUNNABLE, queue := int q, runtime := 0\<rparr>;
      s' = s\<lparr>procs := (procs s)[i := p], qtab := qt\<rparr> in
    yield_charge i s = Inr s' \<and> yield_mid i s' (Q(q := Q q @ [i]))"
proof -
  note D = sched_inv_curD [OF assms(1,2)]
  let ?p = "(procs s ! i)\<lparr>state := RUNNABLE, queue := int q, runtime := 0\<rparr>"
  let ?s = "s\<lparr>procs := (procs s)[i := ?p]\<rparr>"
  have ok: "proc_ok (procs s ! i)"
    using sched_coreD(3) [OF D(5,1)] .
  then have q3: "q < 3" and "proc_ok ?p"
    using q quantum_pos [of ?p] by (auto simp: proc_ok_def)
  then have core: "sched_core ?s Q"
    using sched_core_upd [OF D(5,2,1)] by simp
  obtain qt where qt: "add_to_queue i ?s = Inr (?s\<lparr>qtab := qt\<rparr>)" "rq_inv qt (Q(q := Q q @ [i]))"
    using add_to_queue_ok [of ?s Q i q] D q3 sched_coreD(2) [OF D(5)] by auto
  have "sched_core (?s\<lparr>qtab := qt\<rparr>) (Q(q := Q q @ [i]))"
    using sched_core_push [OF core D(2,1) q3 _ _ qt(2)] D by simp
  then have "yield_mid i (?s\<lparr>qtab := qt\<rparr>) (Q(q := Q q @ [i]))"
    using assms(1,2) D q3 by (auto simp: yield_mid_def sched_inv_def resumed_def nth_list_update queued_push)
  moreover have "yield_charge i s = add_to_queue i ?s"
    using D assms(3) q by (simp add: yield_charge_def proc_upd_def Let_def)
  ultimately show ?thesis
    using qt(1) by (auto simp: Let_def)
qed

lemma boost_log_simps [simp]:
  "procs (boost_log s) = procs s" "qtab (boost_log s) = qtab s" "cur (boost_log s) = cur s"
  "sched_p (boost_log s) = sched_p s" "time (boost_log s) = time s"
  by (simp_all add: boost_log_def)

text \<open>The lists after a boost: every runnable process at its nice level, in table order.\<close>

definition boosted :: "proc list \<Rightarrow> mlfq" where
  "boosted ps = (\<lambda>q. filter (\<lambda>i. state (ps ! i) = RUNNABLE \<and> priority (ps ! i) = int q) [0..<64])"

lemma queued_boosted: "queued (boosted ps) = {i. i < 64 \<and> state (ps ! i) = RUNNABLE}"
proof -
  have "\<exists>q<3. priority p = int q" for p
    by (auto simp: priority_def intro: exI [of _ 2] exI [of _ 1] exI [of _ 0])
  then show ?thesis
    by (auto simp: queued_def boosted_def)
qed

lemma priority_boost_ok:
  assumes "yield_mid i s Q"
  shows "\<exists>s'. priority_boost i s = Inr s' \<and> yield_mid i s' (boosted (procs s)) \<and> time s' = time s \<and>
    (\<forall>j<64. procs s' ! j = (if state (procs s ! j) = RUNNABLE
       then (procs s ! j)\<lparr>queue := priority (procs s ! j), runtime := 0\<rparr> else procs s ! j))"
proof -
  let ?c = "\<lambda>(_::nat) p. state p = RUNNABLE" and ?g = "\<lambda>p. p\<lparr>queue := priority p, runtime := 0\<rparr>"
  let ?P = "(procs s)[i := (procs s ! i)\<lparr>runtime := 0\<rparr>]"
  have mid: "sched_core s Q" "i < 64" "cur s = Some i" "sched_p s = Some i"
    "state (procs s ! i) = RUNNABLE" "\<forall>j<64. state (procs s ! j) \<noteq> RUNNING" and len: "length (procs s) = 64"
    using assms by (auto simp: yield_mid_def sched_core_def)
  obtain qt where qt: "initialize (qtab s) 3 = Inr qt" "rq_inv qt (\<lambda>_. [])"
    using rq.clear_ok [OF sched_coreD(2) [OF mid(1)]] by blast
  define t where "t = (proc_upd i (\<lambda>p. p\<lparr>runtime := 0\<rparr>) ((boost_log s)\<lparr>qtab := qt\<rparr>))\<lparr>p_kicked := 1\<rparr>"
  have tP: "procs t = ?P" "qtab t = qt" "cur t = Some i" "sched_p t = Some i" "time t = time s"
    by (simp_all add: t_def mid)
  have *: "\<exists>qt'. foldres boost_proc [0..<64] t = Inr (t\<lparr>procs := requeue_procs ?c ?g ?P, qtab := qt'\<rparr>) \<and>
      rq_inv qt' (requeued ?c ?g ?P (\<lambda>_. []))"
    unfolding tP(1) [symmetric]
  proof (rule requeue_loop)
    fix j show "j \<notin> queued (\<lambda>_. []) \<and> 0 \<le> queue (?g (procs t ! j)) \<and> queue (?g (procs t ! j)) < 3"
      using priority_range [of "procs t ! j"] by (auto simp: queued_def)
  qed (use tP len qt(2) in \<open>simp_all add: boost_proc_def\<close>)
  have same: "state (?P ! j) = state (procs s ! j)" "priority (?P ! j) = priority (procs s ! j)" for j
    using len mid(2) by (auto simp: nth_list_update)
  have "requeued ?c ?g ?P (\<lambda>_. []) = boosted (procs s)"
    by (rule ext) (simp add: requeued_def boosted_def same)
  with * obtain qt' where loop: "foldres boost_proc [0..<64] t =
      Inr (t\<lparr>procs := requeue_procs ?c ?g ?P, qtab := qt'\<rparr>)" and inv: "rq_inv qt' (boosted (procs s))"
    by auto
  let ?s' = "t\<lparr>procs := requeue_procs ?c ?g ?P, qtab := qt'\<rparr>"
  have procs': "\<forall>j<64. procs ?s' ! j = (if state (procs s ! j) = RUNNABLE
       then (procs s ! j)\<lparr>queue := priority (procs s ! j), runtime := 0\<rparr> else procs s ! j)"
  proof (intro allI impI)
    fix j :: nat assume "j < 64"
    with len mid(2,5) show "procs ?s' ! j = (if state (procs s ! j) = RUNNABLE
       then (procs s ! j)\<lparr>queue := priority (procs s ! j), runtime := 0\<rparr> else procs s ! j)"
      by (cases "j = i") simp_all
  qed
  have "sched_core ?s' (boosted (procs s))"
    using mid(1) inv procs' proc_ok_boost
    by (auto simp: sched_core_def boosted_def t_def boost_log_def)
  then have "yield_mid i ?s' (boosted (procs s))"
    using mid procs' by (auto simp: yield_mid_def queued_boosted tP t_def)
  moreover have "priority_boost i s = Inr ?s'"
    using qt(1) loop by (simp add: priority_boost_def Let_def t_def)
  ultimately show ?thesis
    using procs' tP(5) by auto
qed

lemma sched_mid:
  assumes "yield_mid i s Q"
  shows "sched s = Inr (s\<lparr>cur := None\<rparr>) \<and> sched_inv (s\<lparr>cur := None\<rparr>) Q"
  using assms
  by (auto simp: yield_mid_def sched_inv_def sched_def myproc_def resumed_def)


lemma demoted_queue:
  assumes "proc_ok p"
  obtains q where "int q = max QUEUE_LOW (queue p - 1)" "q < 3"
  using assms that [of "nat (max QUEUE_LOW (queue p - 1))"] by (auto simp: proc_ok_def)

lemma yield_charge_mid:
  assumes "sched_inv s Q" "cur s = Some i"
  shows "\<exists>s' Q'. yield_charge i s = Inr s' \<and> yield_mid i s' Q' \<and> time s' = time s"
proof (cases "runtime (procs s ! i) + 1 < quantum (procs s ! i)")
  case True
  then show ?thesis using yield_charge_keep [OF assms True] by auto
next
  case False
  note D = sched_inv_curD [OF assms]
  obtain q where "int q = max QUEUE_LOW (queue (procs s ! i) - 1)"
    using demoted_queue [OF sched_coreD(3) [OF D(5,1)]] .
  with False show ?thesis using yield_charge_demote [OF assms, of q] by (auto simp: Let_def)
qed

lemma yield_ok:
  assumes "sched_inv s Q" "cur s = Some i"
  shows "\<exists>s' Q'. yield s = Inr s' \<and> sched_inv s' Q' \<and> cur s' = None"
proof -
  obtain s1 Q1 where s1: "yield_charge i s = Inr s1" "yield_mid i s1 Q1"
    using yield_charge_mid [OF assms] by blast
  obtain s2 Q2 where s2: "(if time s1 mod 60 = 0 then priority_boost i s1 else Inr s1) = Inr s2"
    "yield_mid i s2 Q2"
    using priority_boost_ok [OF s1(2)] s1(2) by (cases "time s1 mod 60 = 0") auto
  show ?thesis
    using s1(1) s2(1) sched_mid [OF s2(2)] assms(2) by (auto simp: yield_def myproc_def)
qed

lemma sleep_ok:
  assumes "sched_inv s Q" "cur s = Some i"
  shows "\<exists>s'. sleep c s = Inr s' \<and> sched_inv s' Q \<and> cur s' = None \<and>
    s' = s\<lparr>procs := (procs s)[i := (procs s ! i)\<lparr>chan := c, state := SLEEPING\<rparr>], cur := None\<rparr>"
proof -
  note D = sched_inv_curD [OF assms]
  let ?p = "(procs s ! i)\<lparr>chan := c, state := SLEEPING\<rparr>"
  have "sched_core (s\<lparr>procs := (procs s)[i := ?p]\<rparr>) Q"
    using sched_core_upd [OF D(5,2,1)] sched_coreD(3) [OF D(5,1)] by simp
  then have "sched_inv (s\<lparr>procs := (procs s)[i := ?p], cur := None\<rparr>) Q"
    using assms D by (auto simp: sched_inv_def resumed_def nth_list_update)
  then show ?thesis
    using D assms(2) by (simp add: sleep_def sched_def myproc_def proc_upd_def)
qed

abbreviation woken :: "channel \<Rightarrow> nat option \<Rightarrow> nat \<Rightarrow> proc \<Rightarrow> bool" where
  "woken c r i p \<equiv> Some i \<noteq> r \<and> state p = SLEEPING \<and> chan p = c"

lemma sched_inv_woken:
  assumes inv: "sched_inv s Q" and c: "\<And>i p. c i p \<Longrightarrow> state p = SLEEPING"
    and g: "\<And>p. state (g p) = RUNNABLE \<and> queue (g p) = queue p \<and> (proc_ok p \<longrightarrow> proc_ok (g p))"
    and qt: "rq_inv qt (requeued c g (procs s) Q)"
  shows "sched_inv (s\<lparr>procs := requeue_procs c g (procs s), qtab := qt\<rparr>) (requeued c g (procs s) Q)"
proof -
  let ?s = "s\<lparr>procs := requeue_procs c g (procs s), qtab := qt\<rparr>" and ?Q = "requeued c g (procs s) Q"
  have core: "sched_core s Q" using inv by (simp add: sched_inv_def)
  have nq: "i < 64 \<Longrightarrow> c i (procs s ! i) \<Longrightarrow> state (procs s ! i) = SLEEPING \<and> i \<notin> queued Q" for i
    using inv c [of i "procs s ! i"] by (fastforce simp: sched_inv_def)
  have ok: "i < 64 \<Longrightarrow> 0 \<le> queue (procs s ! i) \<and> queue (procs s ! i) < 3" for i
    using sched_coreD(3) [OF core] by (fastforce simp: proc_ok_def)
  have Q: "queued ?Q = queued Q \<union> {i. i < 64 \<and> c i (procs s ! i)}"
  proof -
    have "\<exists>q<3. queue (procs s ! i) = int q" if "i < 64" for i
      using ok [OF that] by (intro exI [of _ "nat (queue (procs s ! i))"]) auto
    then show ?thesis using g by (auto simp: queued_def requeued_def)
  qed
  have lt: "i < 64" if "i \<in> set (Q q)" "q < 3" for i q
    using that rq_invD(4) [OF sched_coreD(2) [OF core]] by fastforce
  have "sched_core ?s ?Q"
    unfolding sched_core_def
  proof (intro conjI allI impI ballI)
    fix q i assume q: "q < 3" and i: "i \<in> set (?Q q)"
    have "i < 64" using i lt q by (auto simp: requeued_def)
    moreover have "\<not> c i (procs s ! i) \<Longrightarrow> state (procs s ! i) = RUNNABLE \<and> queue (procs s ! i) = int q"
      using i sched_coreD(4) [OF core q] by (auto simp: requeued_def)
    moreover have "c i (procs s ! i) \<Longrightarrow> queue (procs s ! i) = int q"
      using i nq [OF \<open>i < 64\<close>] q g by (auto simp: requeued_def queued_def)
    ultimately show "state (procs ?s ! i) = RUNNABLE" "queue (procs ?s ! i) = int q"
      using g by (auto simp: requeued_def)
  qed (use core g qt in \<open>auto simp: sched_core_def\<close>)
  moreover have "\<forall>i<64. (state (procs ?s ! i) = RUNNABLE) = (i \<in> queued ?Q \<or> resumed ?s = Some i)"
    using inv g nq by (auto simp: sched_inv_def Q resumed_def)
  moreover have "\<forall>i<64. (state (procs ?s ! i) = RUNNING) = (cur ?s = Some i)"
    using inv g nq by (auto simp: sched_inv_def)
  moreover have "case cur ?s of Some i \<Rightarrow> i < 64 \<and> p_kicked ?s \<noteq> 0 \<and> sched_p ?s = Some i
      | None \<Rightarrow> p_kicked ?s = 0 \<longrightarrow> (\<exists>i<64. sched_p ?s = Some i \<and> i \<notin> queued ?Q)"
    using inv nq by (fastforce simp: sched_inv_def Q resumed_def split: option.splits)
  ultimately show ?thesis unfolding sched_inv_def by blast
qed


lemma wakeup_ok:
  assumes "sched_inv s Q"
  shows "\<exists>qt. wakeup c s = Inr (s\<lparr>procs := requeue_procs (woken c (cur s)) (\<lambda>p. p\<lparr>state := RUNNABLE\<rparr>) (procs s),
      qtab := qt\<rparr>) \<and>
    sched_inv (s\<lparr>procs := requeue_procs (woken c (cur s)) (\<lambda>p. p\<lparr>state := RUNNABLE\<rparr>) (procs s), qtab := qt\<rparr>)
      (requeued (woken c (cur s)) (\<lambda>p. p\<lparr>state := RUNNABLE\<rparr>) (procs s) Q)"
proof -
  let ?c = "woken c (cur s)" and ?g = "\<lambda>p. p\<lparr>state := RUNNABLE\<rparr>"
  have core: "sched_core s Q" using assms by (simp add: sched_inv_def)
  have "\<exists>qt. foldres (wakeup_proc c) [0..<64] s = Inr (s\<lparr>procs := requeue_procs ?c ?g (procs s), qtab := qt\<rparr>) \<and>
      rq_inv qt (requeued ?c ?g (procs s) Q)"
  proof (rule requeue_loop [OF sched_coreD(1,2) [OF core]])
    fix i assume i: "i < 64" and c: "?c i (procs s ! i)"
    have "i \<notin> queued Q" using assms i c by (fastforce simp: sched_inv_def)
    then show "i \<notin> queued Q \<and> 0 \<le> queue (?g (procs s ! i)) \<and> queue (?g (procs s ! i)) < 3"
      using sched_coreD(3) [OF core i] by (simp add: proc_ok_def)
  qed (simp add: wakeup_proc_def make_runnable_def)
  then show ?thesis
    using sched_inv_woken [OF assms, of ?c ?g] by (auto simp: wakeup_def)
qed

lemma make_runnable_ok:
  assumes inv: "sched_inv s Q" and i: "i < 64" "i \<notin> queued Q" "cur s \<noteq> Some i" "resumed s \<noteq> Some i"
    and p: "queue (procs s ! i) = int q"
  shows "\<exists>qt. make_runnable i s = Inr (s\<lparr>procs := (procs s)[i := (procs s ! i)\<lparr>state := RUNNABLE\<rparr>], qtab := qt\<rparr>) \<and>
    sched_inv (s\<lparr>procs := (procs s)[i := (procs s ! i)\<lparr>state := RUNNABLE\<rparr>], qtab := qt\<rparr>) (Q(q := Q q @ [i]))"
proof -
  let ?s = "s\<lparr>procs := (procs s)[i := (procs s ! i)\<lparr>state := RUNNABLE\<rparr>]\<rparr>"
  have core: "sched_core s Q" using inv by (simp add: sched_inv_def)
  have ok: "proc_ok (procs s ! i)" and len: "length (procs s) = 64" and q: "q < 3"
    using sched_coreD(3) [OF core i(1)] sched_coreD(1) [OF core] p by (auto simp: proc_ok_def)
  have c1: "sched_core ?s Q"
    using sched_core_upd [OF core i(2,1)] ok by simp
  obtain qt where qt: "add_to_queue i ?s = Inr (?s\<lparr>qtab := qt\<rparr>)" "rq_inv qt (Q(q := Q q @ [i]))"
    using add_to_queue_ok [of ?s Q i q] sched_coreD(2) [OF core] i p q len by auto
  have "sched_core (?s\<lparr>qtab := qt\<rparr>) (Q(q := Q q @ [i]))"
    using sched_core_push [OF c1 i(2,1) q _ _ qt(2)] p len i by simp
  then have "sched_inv (?s\<lparr>qtab := qt\<rparr>) (Q(q := Q q @ [i]))"
    using inv i len q
    by (auto simp: sched_inv_def resumed_def nth_list_update queued_push split: option.splits)
  then show ?thesis
    using qt(1) by (auto simp: make_runnable_def proc_upd_def)
qed

text \<open>Fields of a process the scheduler does not look at can change freely.\<close>

lemma sched_inv_upd:
  assumes inv: "sched_inv s Q" and i: "i < 64"
    and same: "state p = state (procs s ! i)" "queue p = queue (procs s ! i)"
      "proc_ok (procs s ! i) \<Longrightarrow> proc_ok p"
  shows "sched_inv (s\<lparr>procs := (procs s)[i := p]\<rparr>) Q"
proof -
  let ?P = "(procs s)[i := p]"
  have len: "length (procs s) = 64" using inv by (simp add: sched_inv_def sched_core_def)
  have st: "state (?P ! j) = state (procs s ! j)" "queue (?P ! j) = queue (procs s ! j)"
    "proc_ok (procs s ! j) \<Longrightarrow> proc_ok (?P ! j)" for j
    using i same len by (cases "j = i"; simp)+
  have "sched_core (s\<lparr>procs := ?P\<rparr>) Q"
    using inv st len unfolding sched_inv_def sched_core_def by simp
  then show ?thesis
    using inv unfolding sched_inv_def by (cases "cur s") (simp_all add: st resumed_def)
qed

lemma sched_inv_killed:
  "sched_inv s Q \<Longrightarrow> i < 64 \<Longrightarrow> sched_inv (s\<lparr>procs := (procs s)[i := (procs s ! i)\<lparr>killed := k\<rparr>]\<rparr>) Q"
  by (rule sched_inv_upd) simp_all

lemma kill_loop_ok:
  assumes "sched_inv s Q" "set js \<subseteq> {..<64}"
  shows "\<exists>r s' Q'. kill_loop n js s = Inr (r, s') \<and> sched_inv s' Q' \<and> cur s' = cur s"
  using assms(2)
proof (induction js)
  case Nil
  then show ?case using assms(1) by auto
next
  case (Cons i js)
  show ?case
  proof (cases "pid (procs s ! i) = n")
    case False
    then show ?thesis using Cons by auto
  next
    case True
    have i: "i < 64" using Cons.prems by simp
    let ?s = "s\<lparr>procs := (procs s)[i := (procs s ! i)\<lparr>killed := 1\<rparr>]\<rparr>"
    have inv: "sched_inv ?s Q" using sched_inv_killed [OF assms(1) i] .
    have len: "length (procs s) = 64" using assms(1) by (simp add: sched_inv_def sched_core_def)
    show ?thesis
    proof (cases "state (procs ?s ! i) = SLEEPING")
      case False
      then show ?thesis using True inv by (auto simp: proc_upd_def Let_def)
    next
      case sleeping: True
      have nq: "i \<notin> queued Q" "cur ?s \<noteq> Some i" "resumed ?s \<noteq> Some i"
        using inv i sleeping by (fastforce simp: sched_inv_def)+
      have "proc_ok (procs ?s ! i)"
        using sched_coreD(3) i inv by (fastforce simp: sched_inv_def)
      then have "queue (procs ?s ! i) = int (nat (queue (procs ?s ! i)))"
        by (simp add: proc_ok_def)
      from make_runnable_ok [OF inv i nq this] sleeping True show ?thesis
        by (auto simp: proc_upd_def Let_def)
    qed
  qed
qed

lemma kill_ok:
  "sched_inv s Q \<Longrightarrow> \<exists>r s' Q'. kill n s = Inr (r, s') \<and> sched_inv s' Q' \<and> cur s' = cur s"
  unfolding kill_def by (rule kill_loop_ok) auto

lemma sched_log_simps [simp]:
  "procs (sched_log i s) = procs s" "qtab (sched_log i s) = qtab s" "cur (sched_log i s) = cur s"
  "sched_p (sched_log i s) = sched_p s" "p_kicked (sched_log i s) = p_kicked s"
  "time (sched_log i s) = time s"
  by (simp_all add: sched_log_def)

lemma sched_core_log [simp]: "sched_core s Q \<Longrightarrow> sched_core (sched_log i s) Q"
  by (auto simp: sched_core_def sched_log_def)

text \<open>Running a runnable process that is not queued, when the hart is free.\<close>

lemma scheduler_run_ok:
  assumes core: "sched_core s Q" and i: "sched_p s = Some i" "i < 64" "i \<notin> queued Q"
    and run: "\<And>j. j < 64 \<Longrightarrow> state (procs s ! j) = RUNNABLE \<longleftrightarrow> j \<in> queued Q \<or> j = i"
    and none: "\<And>j. j < 64 \<Longrightarrow> state (procs s ! j) \<noteq> RUNNING"
  shows "\<exists>s'. scheduler_run s = Inr s' \<and> sched_inv s' Q \<and> cur s' = Some i \<and>
    procs s' = (procs s)[i := (procs s ! i)\<lparr>state := RUNNING\<rparr>] \<and> qtab s' = qtab s"
proof -
  let ?s = "s\<lparr>procs := (procs s)[i := (procs s ! i)\<lparr>state := RUNNING\<rparr>], cur := Some i\<rparr>"
  have len: "length (procs s) = 64" using sched_coreD(1) [OF core] .
  have "sched_core ?s Q"
    using sched_core_upd [OF core i(3,2)] sched_coreD(3) [OF core i(2)] by simp
  then have "sched_inv ((sched_log i ?s)\<lparr>p_kicked := 1\<rparr>) Q"
    using i run none len by (auto simp: sched_inv_def resumed_def nth_list_update)
  then show ?thesis
    using i(1) by (simp add: scheduler_run_def proc_upd_def Let_def)
qed


lemma sched_inv_globals [simp]:
  "sched_inv (s\<lparr>time := t\<rparr>) Q = sched_inv s Q" "sched_inv (s\<lparr>ticks := u\<rparr>) Q = sched_inv s Q"
  by (cases "cur s"; simp add: sched_inv_def resumed_def)+

lemma queued_pop:
  assumes "rq_inv qt Q" "q < 3" "Q q = i # xs"
  shows "queued (Q(q := xs)) = queued Q - {i}" "i \<in> queued Q"
proof -
  note q = assms(2)
  have "i \<notin> set xs" "\<And>r. r < 3 \<Longrightarrow> r \<noteq> q \<Longrightarrow> i \<notin> set (Q r)"
    using rq_invD(3,5) [OF assms(1), of q] q assms(3) by auto
  moreover have split: "queued R = set (R q) \<union> (\<Union>r\<in>{..<3} - {q}. set (R r))" for R
    using q by (auto simp: queued_def)
  ultimately show "queued (Q(q := xs)) = queued Q - {i}" "i \<in> queued Q"
    using assms(3) by (auto simp: split [of Q] split [of "Q(q := xs)"])
qed

lemma scheduler_kicked:
  assumes inv: "sched_inv s Q" and "cur s = None" "p_kicked s \<noteq> 0" "highest Q = Some q" "Q q = i # xs"
  shows "\<exists>s'. scheduler s = Inr s' \<and> sched_inv s' (Q(q := xs)) \<and> cur s' = Some i \<and>
    procs s' = (procs s)[i := (procs s ! i)\<lparr>state := RUNNING\<rparr>]"
proof -
  have core: "sched_core s Q" and none: "\<And>j. j < 64 \<Longrightarrow> state (procs s ! j) \<noteq> RUNNING"
    and run: "\<And>j. j < 64 \<Longrightarrow> state (procs s ! j) = RUNNABLE \<longleftrightarrow> j \<in> queued Q"
    using inv assms(2,3) by (auto simp: sched_inv_def resumed_def)
  have rq: "rq_inv (qtab s) Q" using sched_coreD(2) [OF core] .
  have "q < 3" using highest_Some [OF assms(4)] by simp
  note pop = queued_pop [OF rq this assms(5)]
  obtain qt where qt: "dequeue (qtab s) = Inr (int i, qt)" "rq_inv qt (Q(q := xs))"
    using rq.pop_ok [OF rq assms(4)] assms(5) by auto
  let ?s = "s\<lparr>qtab := qt, sched_p := Some i\<rparr>"
  have "sched_core ?s (Q(q := xs))"
    using core qt(2) assms(5) by (auto simp: sched_core_def split: if_splits)
  then have "\<exists>s'. scheduler_run ?s = Inr s' \<and> sched_inv s' (Q(q := xs)) \<and> cur s' = Some i \<and>
      procs s' = (procs ?s)[i := (procs ?s ! i)\<lparr>state := RUNNING\<rparr>] \<and> qtab s' = qtab ?s"
    using pop queued_less [OF rq pop(2)] none run by (intro scheduler_run_ok) auto
  then show ?thesis
    using qt(1) assms(3) by (auto simp: scheduler_def scheduler_pick_def)
qed

lemma scheduler_resume:
  assumes inv: "sched_inv s Q" and "cur s = None" "p_kicked s = 0"
  shows "\<exists>i s'. sched_p s = Some i \<and> i < 64 \<and> scheduler s = Inr s' \<and> sched_inv s' Q \<and> cur s' = Some i \<and>
    procs s' = (procs s)[i := (procs s ! i)\<lparr>state := RUNNING\<rparr>]"
proof -
  obtain i where i: "sched_p s = Some i" "i < 64" "i \<notin> queued Q"
    using inv assms(2,3) by (auto simp: sched_inv_def)
  have "\<exists>s'. scheduler_run s = Inr s' \<and> sched_inv s' Q \<and> cur s' = Some i \<and>
      procs s' = (procs s)[i := (procs s ! i)\<lparr>state := RUNNING\<rparr>] \<and> qtab s' = qtab s"
    using inv assms(2,3) i by (intro scheduler_run_ok) (auto simp: sched_inv_def resumed_def)
  then show ?thesis
    using i assms(3) by (auto simp: scheduler_def scheduler_pick_def)
qed

lemma clockintr_ok:
  "sched_inv s Q \<Longrightarrow> \<exists>s' Q'. clockintr s = Inr s' \<and> sched_inv s' Q' \<and> cur s' = cur s"
  using wakeup_ok [of "s\<lparr>ticks := ticks s + 1\<rparr>" Q ChTicks] by (auto simp: clockintr_def)

text \<open>The process while \<^verbatim>\<open>sys_nice\<close> calls \<^verbatim>\<open>yield\<close>.\<close>

definition reniced :: "int \<Rightarrow> proc \<Rightarrow> proc" where
  "reniced inc p =
     (let p' = p\<lparr>nice := max (min (nice p + inc) NICE_MAX) NICE_MIN\<rparr> in p'\<lparr>queue := priority p', runtime := 0\<rparr>)"

lemma proc_ok_reniced: "proc_ok p \<Longrightarrow> proc_ok (reniced inc p)"
  using quantum_pos [of "reniced inc p"] priority_range [of "p\<lparr>nice := max (min (nice p + inc) 19) (- 20)\<rparr>"]
  by (simp add: reniced_def proc_ok_def Let_def)

lemma sched_inv_reniced:
  assumes "sched_inv s Q" "cur s = Some i"
  shows "sched_inv (s\<lparr>procs := (procs s)[i := reniced inc (procs s ! i)], p_kicked := 1\<rparr>) Q"
proof -
  note D = sched_inv_curD [OF assms]
  have "sched_core (s\<lparr>procs := (procs s)[i := reniced inc (procs s ! i)]\<rparr>) Q"
    using sched_core_upd [OF D(5,2,1)] proc_ok_reniced [OF sched_coreD(3) [OF D(5,1)]] by simp
  moreover have "state (reniced inc p) = state p" for p
    by (simp add: reniced_def Let_def)
  ultimately show ?thesis
    using assms D by (auto simp: sched_inv_def resumed_def nth_list_update)
qed

lemma sys_nice_unfold:
  assumes "cur s = Some i" "i < length (procs s)"
    and "INT_MIN \<le> nice (procs s ! i) + inc" "nice (procs s ! i) + inc \<le> INT_MAX"
  shows "sys_nice inc s =
    bnd (yield (s\<lparr>procs := (procs s)[i := reniced inc (procs s ! i)], p_kicked := 1\<rparr>))
      (\<lambda>s'. Inr (nice (procs s' ! i), s'))"
  using assms by (simp add: sys_nice_def myproc_def proc_upd_def reniced_def Let_def)

text \<open>No tick changes a nice value.\<close>

lemma yield_charge_nice:
  assumes "sched_inv s Q" "cur s = Some i" "yield_charge i s = Inr s'"
  shows "nice (procs s' ! j) = nice (procs s ! j)"
proof (cases "runtime (procs s ! i) + 1 < quantum (procs s ! i)")
  case True
  then show ?thesis
    using yield_charge_keep [OF assms(1,2) True] assms(3) sched_inv_curD [OF assms(1,2)]
    by (cases "j = i") auto
next
  case False
  note D = sched_inv_curD [OF assms(1,2)]
  obtain q where q: "int q = max QUEUE_LOW (queue (procs s ! i) - 1)"
    using demoted_queue [OF sched_coreD(3) [OF D(5,1)]] .
  show ?thesis
    using yield_charge_demote [OF assms(1,2) _ q] False D assms(3) by (cases "j = i") (auto simp: Let_def)
qed

lemma yield_nice:
  assumes "sched_inv s Q" "cur s = Some i" "yield s = Inr s'" "j < 64"
  shows "nice (procs s' ! j) = nice (procs s ! j)"
proof -
  obtain s1 Q1 where s1: "yield_charge i s = Inr s1" "yield_mid i s1 Q1" "time s1 = time s"
    using yield_charge_mid [OF assms(1,2)] by blast
  note mid = priority_boost_ok [OF s1(2)]
  have "nice (procs s' ! j) = nice (procs s1 ! j)"
    using mid sched_mid [OF s1(2)] sched_mid assms(2,3,4) s1(1)
    by (cases "time s1 mod 60 = 0") (fastforce simp: yield_def myproc_def)+
  then show ?thesis using yield_charge_nice [OF assms(1,2) s1(1)] by simp
qed

section \<open>The boot state\<close>

text \<open>
  The globals before \<^verbatim>\<open>main\<close>: zero, but for the variables with an initializer; a pass
  over \<^verbatim>\<open>procinit\<close> sets the kernel stacks and the run queues.
\<close>

definition proc_bss :: proc where
  "proc_bss = \<lparr>state = UNUSED, chan = ChNull, killed = 0, xstate = 0, pid = 0, parent = None, kstack = 0,
     sz = 0, pagetable = 0, trapframe = 0, ofile = replicate 16 None, cwd = None,
     pname = replicate 16 0, nice = 0, nice_adjusted = 0, runtime = 0, queue = 0, pass = 0\<rparr>"

definition kst_bss :: kst where
  "kst_bss = \<lparr>mem = (\<lambda>_. 0), freelist = 0, kend = 2147627120, procs = replicate 64 proc_bss, qtab = qtable_bss, p_kicked = 1, time = 0, ticks = 0,
     nextpid = 1, initproc = None,
     schedlog = replicate 100 \<lparr>l_pid = 0, l_time = 0, l_queue = 0, l_priority_boost = 0\<rparr>,
     log_count = INT_MAX, cur = None, sched_p = None\<rparr>"

definition procinit :: "'z kst_scheme \<Rightarrow> 'z kst_scheme res" where
  "procinit s =
     bnd (initialize (qtab s) NUM_QUEUES) (\<lambda>qt.
     Inr (s\<lparr>procs := map (\<lambda>i. (procs s ! i)\<lparr>kstack := KSTACK i\<rparr>) [0..<NPROC], qtab := qt\<rparr>))"

lemma procinit_inv: "\<exists>s. procinit kst_bss = Inr s \<and> sched_inv s (\<lambda>_. [])"
proof -
  obtain qt where "initialize qtable_bss 3 = Inr qt" "rq_inv qt (\<lambda>_. [])"
    using initialize_frame [of qtable_bss] by (auto simp: qtable_bss_def)
  then show ?thesis
    by (auto simp: procinit_def kst_bss_def sched_inv_def sched_core_def proc_ok_def quantum_def
        proc_bss_def queued_def resumed_def)
qed

text \<open>
  A state used for examples: process 0 runs at nice level \<open>n\<close>, with \<open>r\<close> ticks used, at clock \<open>t\<close>;
  process 1 waits in the high queue.
\<close>

definition demo :: "int \<Rightarrow> int \<Rightarrow> int \<Rightarrow> qtable \<Rightarrow> kst" where
  "demo n r t qt = kst_bss\<lparr>procs := (replicate 64 proc_bss)
      [0 := proc_bss\<lparr>state := RUNNING, pid := 1, nice := n, queue := priority (proc_bss\<lparr>nice := n\<rparr>), runtime := r\<rparr>,
       1 := proc_bss\<lparr>state := RUNNABLE, pid := 2, nice := -15, queue := 2\<rparr>],
     qtab := qt, time := t, cur := Some 0, sched_p := Some 0\<rparr>"

definition demoQ :: mlfq where
  "demoQ = (\<lambda>_. [])(2 := [1])"

lemma demo_qtab: "\<exists>qt. rq_inv qt demoQ"
proof -
  obtain qt where "rq_inv qt (\<lambda>_. [])"
    using initialize_frame [of qtable_bss] by (auto simp: qtable_bss_def)
  then show ?thesis
    using rq.push_ok [of qt "\<lambda>_. []" 2 1] by (auto simp: queued_def demoQ_def)
qed

lemma demo_simps:
  "cur (demo n r t qt) = Some 0" "sched_p (demo n r t qt) = Some 0" "p_kicked (demo n r t qt) = 1"
  "time (demo n r t qt) = t" "qtab (demo n r t qt) = qt" "log_count (demo n r t qt) = INT_MAX"
  "length (procs (demo n r t qt)) = 64" "length (schedlog (demo n r t qt)) = 100"
  "procs (demo n r t qt) ! 0 =
     proc_bss\<lparr>state := RUNNING, pid := 1, nice := n, queue := priority (proc_bss\<lparr>nice := n\<rparr>), runtime := r\<rparr>"
  "procs (demo n r t qt) ! Suc 0 = proc_bss\<lparr>state := RUNNABLE, pid := 2, nice := -15, queue := 2\<rparr>"
  "Suc 0 < j \<Longrightarrow> j < 64 \<Longrightarrow> procs (demo n r t qt) ! j = proc_bss"
  by (simp_all add: demo_def kst_bss_def)

lemma demo_inv:
  assumes "rq_inv qt demoQ" "-20 \<le> n" "n \<le> 19" "0 \<le> r"
    and "r < quantum (proc_bss\<lparr>queue := priority (proc_bss\<lparr>nice := n\<rparr>)\<rparr>)"
  shows "sched_inv (demo n r t qt) demoQ"
proof -
  let ?s = "demo n r t qt"
  have cases: "j = 0 \<or> j = Suc 0 \<or> Suc 0 < j" for j :: nat by arith
  have q: "queued demoQ = {Suc 0}" by (auto simp: queued_def demoQ_def split: if_splits)
  have "quantum (procs ?s ! 0) = quantum (proc_bss\<lparr>queue := priority (proc_bss\<lparr>nice := n\<rparr>)\<rparr>)"
    by (simp add: demo_simps quantum_def)
  then have "proc_ok (procs ?s ! 0)"
    using assms priority_range [of "proc_bss\<lparr>nice := n\<rparr>"] by (simp add: demo_simps proc_ok_def)
  moreover have "proc_ok (procs ?s ! Suc 0)" "proc_ok proc_bss"
    by (simp_all add: demo_simps proc_ok_def quantum_def proc_bss_def)
  ultimately have ok: "proc_ok (procs ?s ! j)" if "j < 64" for j
    using cases [of j] that by (auto simp: demo_simps(11))
  have "sched_core ?s demoQ"
    using ok assms(1) by (auto simp: sched_core_def demo_simps demoQ_def)
  moreover have "(state (procs ?s ! j) = RUNNABLE) = (j \<in> queued demoQ \<or> resumed ?s = Some j)"
    "(state (procs ?s ! j) = RUNNING) = (cur ?s = Some j)" if "j < 64" for j
    using cases [of j] that by (auto simp: demo_simps q resumed_def proc_bss_def)
  ultimately show ?thesis
    by (simp add: sched_inv_def demo_simps)
qed


text \<open>The two outcomes of a tick, for the properties below.\<close>

lemma demote_aux:
  assumes "sched_inv s Q" "cur s = Some i" "time s mod 60 \<noteq> 0"
    and "runtime (procs s ! i) + 1 \<ge> quantum (procs s ! i)"
    and "int q = max QUEUE_LOW (queue (procs s ! i) - 1)"
  shows "\<exists>s'. yield s = Inr s' \<and> cur s' = None \<and> sched_inv s' (Q(q := Q q @ [i])) \<and>
    procs s' ! i = (procs s ! i)\<lparr>state := RUNNABLE, queue := int q, runtime := 0\<rparr> \<and>
    (\<forall>j. j \<noteq> i \<longrightarrow> procs s' ! j = procs s ! j)"
proof -
  note D = sched_inv_curD [OF assms(1,2)]
  obtain qt where qt: "let p = (procs s ! i)\<lparr>state := RUNNABLE, queue := int q, runtime := 0\<rparr>;
      s' = s\<lparr>procs := (procs s)[i := p], qtab := qt\<rparr> in
      yield_charge i s = Inr s' \<and> yield_mid i s' (Q(q := Q q @ [i]))"
    using yield_charge_demote [OF assms(1,2,4,5)] by blast
  then show ?thesis
    using sched_mid assms(2,3) D by (fastforce simp: yield_def myproc_def Let_def)
qed

lemma no_preemption_aux:
  assumes "sched_inv s Q" "cur s = Some i" "time s mod 60 \<noteq> 0"
    and "runtime (procs s ! i) + 1 < quantum (procs s ! i)"
  shows "\<exists>s1 s2. yield s = Inr s1 \<and> scheduler s1 = Inr s2 \<and> cur s2 = Some i \<and> sched_inv s2 Q \<and>
    procs s2 ! i = (procs s ! i)\<lparr>runtime := runtime (procs s ! i) + 1\<rparr>"
proof -
  note D = sched_inv_curD [OF assms(1,2)]
  obtain s1 where s1: "yield_charge i s = Inr s1" "yield_mid i s1 Q" "p_kicked s1 = 0" "time s1 = time s"
    "procs s1 ! i = (procs s ! i)\<lparr>runtime := runtime (procs s ! i) + 1, state := RUNNABLE\<rparr>"
    using yield_charge_keep [OF assms(1,2,4)] D by auto
  let ?t = "s1\<lparr>cur := None\<rparr>"
  have t: "yield s = Inr ?t" "sched_inv ?t Q"
    using sched_mid [OF s1(2)] s1 assms(2,3) by (auto simp: yield_def myproc_def)
  have p: "sched_p s1 = Some i" "length (procs s1) = 64"
    using s1(2) by (auto simp: yield_mid_def sched_core_def)
  have "(procs s ! i)\<lparr>runtime := r, state := RUNNING\<rparr> = (procs s ! i)\<lparr>runtime := r\<rparr>" for r
    using D(6) by simp
  with scheduler_resume [OF t(2)] t(1) s1 p D show ?thesis by auto
qed

section \<open>Properties\<close>

text \<open>
  C29: Rule 1 and Rule 2 for the whole scheduler. When the last process was kicked and some process is
  queued, \<^verbatim>\<open>scheduler\<close> runs the front process of the highest queue that is not empty,
  removes it from that queue and changes no other process.
\<close>

theorem scheduler_picks_highest:
  assumes "sched_inv s Q" "cur s = None" "p_kicked s \<noteq> 0" "highest Q = Some q"
  shows "\<exists>s'. scheduler s = Inr s' \<and> cur s' = Some (hd (Q q)) \<and> sched_inv s' (Q(q := tl (Q q))) \<and>
    (\<forall>j<64. j \<noteq> hd (Q q) \<longrightarrow> procs s' ! j = procs s ! j)"
proof -
  obtain i xs where "Q q = i # xs"
    using highest_Some [OF assms(4)] by (cases "Q q") auto
  with scheduler_kicked [OF assms] show ?thesis by auto
qed

theorem scheduler_picks_highest_witness:
  "\<exists>s s'. cur (s :: kst) = None \<and> scheduler s = Inr s' \<and> cur s' = Some 1"
proof -
  obtain qt where qt: "rq_inv qt demoQ" using demo_qtab by blast
  have inv: "sched_inv (demo 0 0 7 qt) demoQ"
    by (rule demo_inv [OF qt]) (simp_all add: quantum_def priority_def proc_bss_def)
  obtain s where s: "sleep ChTicks (demo 0 0 7 qt) = Inr s" "sched_inv s demoQ" "cur s = None"
    "p_kicked s = p_kicked (demo 0 0 7 qt)"
    using sleep_ok [OF inv, of 0 ChTicks] by (auto simp: demo_simps)
  have "highest demoQ = Some 2" by (simp add: highest_def demoQ_def)
  from scheduler_picks_highest [OF s(2,3) _ this] s have "\<exists>s'. scheduler s = Inr s' \<and> cur s' = Some 1"
    by (auto simp: demo_simps demoQ_def)
  with s(3) show ?thesis by blast
qed

text \<open>
  C27: Rule 4. On a tick that is not a multiple of 60 (on those \<^verbatim>\<open>yield\<close> boosts all processes instead),
  a process whose tick uses up the quantum of its queue is put at the back of the next lower queue
  (of the same queue when it is the lowest) with a fresh quantum.
\<close>

theorem yield_demotes:
  assumes "sched_inv s Q" "cur s = Some i" "time s mod 60 \<noteq> 0"
    and "runtime (procs s ! i) + 1 \<ge> quantum (procs s ! i)"
    and "int q = max QUEUE_LOW (queue (procs s ! i) - 1)"
  shows "\<exists>s'. yield s = Inr s' \<and> cur s' = None \<and> sched_inv s' (Q(q := Q q @ [i])) \<and>
    procs s' ! i = (procs s ! i)\<lparr>state := RUNNABLE, queue := int q, runtime := 0\<rparr> \<and>
    (\<forall>j. j \<noteq> i \<longrightarrow> procs s' ! j = procs s ! j)"
  using demote_aux [OF assms] .

theorem yield_demotes_witness:
  "\<exists>qt s'. yield (demo 0 9 7 qt) = Inr s' \<and> queue (procs s' ! 0) = QUEUE_LOW \<and> runtime (procs s' ! 0) = 0"
proof -
  obtain qt where qt: "rq_inv qt demoQ" using demo_qtab by blast
  have inv: "sched_inv (demo 0 9 7 qt) demoQ"
    by (rule demo_inv [OF qt]) (simp_all add: quantum_def priority_def proc_bss_def)
  have "\<exists>s'. yield (demo 0 9 7 qt) = Inr s' \<and> queue (procs s' ! 0) = QUEUE_LOW \<and> runtime (procs s' ! 0) = 0"
    using yield_demotes [OF inv, of 0 0]
    by (auto simp: demo_simps quantum_def priority_def proc_bss_def)
  then show ?thesis by blast
qed

text \<open>
  C37: no preemption within a quantum. A tick that does not use up the quantum, and is not a multiple of
  60 (where all processes are boosted), leaves the process in place: the next iteration of \<^verbatim>\<open>scheduler\<close> runs the same process again, whatever is in the
  queues. Rule 1 of the documentation asks for the process of the higher queue instead.
\<close>

theorem no_preemption_within_quantum:
  assumes "sched_inv s Q" "cur s = Some i" "time s mod 60 \<noteq> 0"
    and "runtime (procs s ! i) + 1 < quantum (procs s ! i)"
  shows "\<exists>s1 s2. yield s = Inr s1 \<and> scheduler s1 = Inr s2 \<and> cur s2 = Some i \<and> sched_inv s2 Q \<and>
    procs s2 ! i = (procs s ! i)\<lparr>runtime := runtime (procs s ! i) + 1\<rparr>"
  using no_preemption_aux [OF assms] .

theorem no_preemption_within_quantum_witness:
  "\<exists>qt s1 s2. highest demoQ = Some 2 \<and> queue (procs (demo 19 3 7 qt) ! 0) = QUEUE_LOW \<and>
     yield (demo 19 3 7 qt) = Inr s1 \<and> scheduler s1 = Inr s2 \<and> cur s2 = Some 0 \<and> sched_inv s2 demoQ"
proof -
  obtain qt where qt: "rq_inv qt demoQ" using demo_qtab by blast
  have inv: "sched_inv (demo 19 3 7 qt) demoQ"
    by (rule demo_inv [OF qt]) (simp_all add: quantum_def priority_def proc_bss_def)
  have "highest demoQ = Some 2" by (simp add: highest_def demoQ_def)
  then show ?thesis
    using no_preemption_within_quantum [OF inv, of 0]
    by (auto simp: demo_simps quantum_def priority_def proc_bss_def)
qed


text \<open>
  C28: Rule 5, the priority boost. At a tick whose clock is a multiple of 60, \<^verbatim>\<open>yield\<close>
  rebuilds the run queues: every runnable process, the yielding one included, goes to the queue of
  its nice value with a fresh quantum, in table order, and is kicked. A process in any other
  state, a sleeping one for instance, keeps its queue and its tick count: the documentation speaks
  of all processes in the system.
\<close>

theorem yield_boosts:
  assumes "sched_inv s Q" "cur s = Some i" "time s mod 60 = 0"
  shows "\<exists>s'. yield s = Inr s' \<and> cur s' = None \<and> p_kicked s' \<noteq> 0 \<and> sched_inv s' (boosted (procs s')) \<and>
    (\<forall>j<64. j \<noteq> i \<longrightarrow> procs s' ! j = (if state (procs s ! j) = RUNNABLE
       then (procs s ! j)\<lparr>queue := priority (procs s ! j), runtime := 0\<rparr> else procs s ! j)) \<and>
    state (procs s' ! i) = RUNNABLE \<and> queue (procs s' ! i) = priority (procs s ! i) \<and> runtime (procs s' ! i) = 0"
proof -
  note D = sched_inv_curD [OF assms(1,2)]
  obtain s1 Q1 where s1: "yield_charge i s = Inr s1" "yield_mid i s1 Q1" "time s1 = time s"
    "state (procs s1 ! i) = RUNNABLE" "priority (procs s1 ! i) = priority (procs s ! i)"
    "\<And>j. j \<noteq> i \<Longrightarrow> procs s1 ! j = procs s ! j"
  proof (cases "runtime (procs s ! i) + 1 < quantum (procs s ! i)")
    case True
    then show ?thesis using yield_charge_keep [OF assms(1,2) True] D that by auto
  next
    case False
    obtain q where q: "int q = max QUEUE_LOW (queue (procs s ! i) - 1)"
      using demoted_queue [OF sched_coreD(3) [OF D(5,1)]] .
    show ?thesis using yield_charge_demote [OF assms(1,2) _ q] False D that by (auto simp: Let_def)
  qed
  obtain s2 where s2: "priority_boost i s1 = Inr s2" "yield_mid i s2 (boosted (procs s1))"
    "\<forall>j<64. procs s2 ! j = (if state (procs s1 ! j) = RUNNABLE
       then (procs s1 ! j)\<lparr>queue := priority (procs s1 ! j), runtime := 0\<rparr> else procs s1 ! j)"
    using priority_boost_ok [OF s1(2)] by blast
  have "state (procs s2 ! j) = state (procs s1 ! j) \<and> priority (procs s2 ! j) = priority (procs s1 ! j)"
    if "j < 64" for j using s2(3) that by simp
  then have "boosted (procs s1) = boosted (procs s2)"
    by (auto simp: boosted_def fun_eq_iff intro!: filter_cong)
  moreover have "p_kicked s2 \<noteq> 0"
    using s2(2) s1(4) D(1) by (auto simp: yield_mid_def queued_boosted)
  moreover have "yield s = Inr (s2\<lparr>cur := None\<rparr>)" "sched_inv (s2\<lparr>cur := None\<rparr>) (boosted (procs s1))"
    using sched_mid [OF s2(2)] s1(1,3) s2(1) assms(2,3) by (simp_all add: yield_def myproc_def)
  ultimately show ?thesis
    using s2(3) s1 D(1) by auto
qed

theorem yield_boosts_witness:
  "\<exists>qt s'. yield (demo 0 4 120 qt) = Inr s' \<and> p_kicked s' \<noteq> 0 \<and> queue (procs s' ! 0) = QUEUE_MEDIUM"
proof -
  obtain qt where qt: "rq_inv qt demoQ" using demo_qtab by blast
  have inv: "sched_inv (demo 0 4 120 qt) demoQ"
    by (rule demo_inv [OF qt]) (simp_all add: quantum_def priority_def proc_bss_def)
  have "priority (procs (demo 0 4 120 qt) ! 0) = QUEUE_MEDIUM"
    by (simp add: demo_simps priority_def)
  then have "\<exists>s'. yield (demo 0 4 120 qt) = Inr s' \<and> p_kicked s' \<noteq> 0 \<and> queue (procs s' ! 0) = QUEUE_MEDIUM"
    using yield_boosts [OF inv, of 0] by (auto simp: demo_simps)
  then show ?thesis by blast
qed

text \<open>
  \<^verbatim>\<open>sys_nice\<close> keeps the nice value between -20 and 19 and the invariant, when the sum does
  not overflow an \<^verbatim>\<open>int\<close>; when it does, the addition is undefined.
\<close>

theorem sys_nice_range:
  assumes "sched_inv s Q" "cur s = Some i"
  shows "if INT_MIN \<le> nice (procs s ! i) + inc \<and> nice (procs s ! i) + inc \<le> INT_MAX
    then \<exists>s' Q'. sys_nice inc s = Inr (max (min (nice (procs s ! i) + inc) 19) (-20), s') \<and> sched_inv s' Q'
    else sys_nice inc s = Inl Overflow"
proof (cases "INT_MIN \<le> nice (procs s ! i) + inc \<and> nice (procs s ! i) + inc \<le> INT_MAX")
  case False
  then show ?thesis using assms(2) by (auto simp: sys_nice_def myproc_def Let_def)
next
  case True
  note D = sched_inv_curD [OF assms]
  let ?s = "s\<lparr>procs := (procs s)[i := reniced inc (procs s ! i)], p_kicked := 1\<rparr>"
  have inv: "sched_inv ?s Q" using sched_inv_reniced [OF assms] .
  obtain s' Q' where s': "yield ?s = Inr s'" "sched_inv s' Q'"
    using yield_ok [OF inv, of i] assms(2) by auto
  have "nice (procs s' ! i) = nice (reniced inc (procs s ! i))"
    using yield_nice [OF inv _ s'(1) D(1), of i] assms(2) D by simp
  then show ?thesis
    using True s' sys_nice_unfold [of s i inc] assms(2) D by (auto simp: reniced_def Let_def)
qed


theorem sys_nice_range_witness:
  "\<exists>qt s'. sys_nice (-50) (demo 0 4 7 qt) = Inr (-20, s') \<and> sys_nice INT_MAX (demo 19 0 7 qt) = Inl Overflow"
proof -
  obtain qt where qt: "rq_inv qt demoQ" using demo_qtab by blast
  have inv: "sched_inv (demo 0 4 7 qt) demoQ" "sched_inv (demo 19 0 7 qt) demoQ"
    by (rule demo_inv [OF qt]; simp add: quantum_def priority_def proc_bss_def)+
  show ?thesis
    using sys_nice_range [OF inv(1), of 0 "-50"] sys_nice_range [OF inv(2), of 0 INT_MAX]
    by (auto simp: demo_simps)
qed

text \<open>
  C38: Rule 6 asks that a process whose nice value changed goes to the back of its new queue, and
  \<^verbatim>\<open>sys_nice\<close> sets \<^verbatim>\<open>p_kicked\<close> for that. It does not happen: \<^verbatim>\<open>yield\<close>
  charges a tick and clears \<^verbatim>\<open>p_kicked\<close>, so a process renamed to the medium or low queue is
  resumed at once and never queued, and one that moves to the high queue has its one-tick quantum
  used up by the call and ends in the medium queue. This is for calls while the clock is not at a
  multiple of 60 (there \<^verbatim>\<open>yield\<close> boosts, and the caller is queued by its nice value) and with an
  increment for which the sum of the nice values does not overflow (there the call is undefined).
\<close>

theorem sys_nice_queue:
  assumes "sched_inv s Q" "cur s = Some i" "time s mod 60 \<noteq> 0"
    and "INT_MIN \<le> nice (procs s ! i) + inc" "nice (procs s ! i) + inc \<le> INT_MAX"
    and "n = max (min (nice (procs s ! i) + inc) 19) (-20)"
  shows "if n > -10
    then \<exists>s1 s2. sys_nice inc s = Inr (n, s1) \<and> scheduler s1 = Inr s2 \<and> cur s2 = Some i \<and> sched_inv s2 Q
    else \<exists>s1. sys_nice inc s = Inr (n, s1) \<and> queue (procs s1 ! i) = QUEUE_MEDIUM \<and>
           sched_inv s1 (Q(1 := Q 1 @ [i]))"
proof -
  note D = sched_inv_curD [OF assms(1,2)]
  let ?p = "reniced inc (procs s ! i)"
  let ?s = "s\<lparr>procs := (procs s)[i := ?p], p_kicked := 1\<rparr>"
  have inv: "sched_inv ?s Q" using sched_inv_reniced [OF assms(1,2)] .
  have p: "nice ?p = n" "runtime ?p = 0" "queue ?p = (if n > 10 then 0 else if n > -10 then 1 else 2)"
    by (simp_all add: reniced_def Let_def priority_def flip: assms(6))
  have pi: "procs ?s ! i = ?p" "cur ?s = Some i" "time ?s mod 60 \<noteq> 0" using D assms(2,3) by simp_all
  have nice: "sys_nice inc s = Inr (n, s1)" if "yield ?s = Inr s1" for s1
    using that sys_nice_unfold [OF assms(2) _ assms(4,5)] yield_nice [OF inv _ that D(1)] D assms(2) p(1)
    by simp
  show ?thesis
  proof (cases "n > -10")
    case True
    then have "runtime (procs ?s ! i) + 1 < quantum (procs ?s ! i)"
      unfolding pi(1) using p by (simp add: quantum_def)
    from no_preemption_aux [OF inv pi(2,3) this] nice True show ?thesis by auto
  next
    case False
    then have "runtime (procs ?s ! i) + 1 \<ge> quantum (procs ?s ! i)" "int 1 = max 0 (queue (procs ?s ! i) - 1)"
      unfolding pi(1) using p by (simp_all add: quantum_def)
    from demote_aux [OF inv pi(2,3) this] nice False show ?thesis by auto
  qed
qed

theorem sys_nice_queue_witness:
  "\<exists>qt s1 s2 s3. sys_nice 19 (demo 0 4 7 qt) = Inr (19, s1) \<and> scheduler s1 = Inr s2 \<and> cur s2 = Some 0 \<and>
     sys_nice (-19) (demo 0 4 7 qt) = Inr (-19, s3) \<and> queue (procs s3 ! 0) = QUEUE_MEDIUM"
proof -
  obtain qt where qt: "rq_inv qt demoQ" using demo_qtab by blast
  have inv: "sched_inv (demo 0 4 7 qt) demoQ"
    by (rule demo_inv [OF qt]; simp add: quantum_def priority_def proc_bss_def)+
  show ?thesis
    using sys_nice_queue [OF inv, of 0 19 19] sys_nice_queue [OF inv, of 0 "-19" "-19"]
    by (auto simp: demo_simps)
qed

text \<open>
  \<^verbatim>\<open>wakeup\<close> makes exactly the processes that sleep on the channel runnable, and appends
  them to their queues in table order; every other process is unchanged.
\<close>

theorem wakeup_exactly_sleepers:
  assumes "sched_inv s Q"
  shows "\<exists>s'. wakeup c s = Inr s' \<and> cur s' = cur s \<and>
    (\<forall>j<64. procs s' ! j = (if state (procs s ! j) = SLEEPING \<and> chan (procs s ! j) = c
       then (procs s ! j)\<lparr>state := RUNNABLE\<rparr> else procs s ! j)) \<and>
    sched_inv s' (\<lambda>q. Q q @ filter (\<lambda>j. state (procs s ! j) = SLEEPING \<and> chan (procs s ! j) = c \<and>
       queue (procs s ! j) = int q) [0..<NPROC])"
proof -
  have nc: "Some j \<noteq> cur s" if "j < 64" "state (procs s ! j) = SLEEPING" for j
  proof -
    have "state (procs s ! j) = RUNNING \<longleftrightarrow> cur s = Some j"
      using assms that(1) unfolding sched_inv_def by blast
    with that(2) show ?thesis by auto
  qed
  have "requeued (woken c (cur s)) (\<lambda>p. p\<lparr>state := RUNNABLE\<rparr>) (procs s) Q =
    (\<lambda>q. Q q @ filter (\<lambda>j. state (procs s ! j) = SLEEPING \<and> chan (procs s ! j) = c \<and>
       queue (procs s ! j) = int q) [0..<64])"
  proof (rule ext, unfold requeued_def, rule arg_cong2 [where f = append, OF refl], rule filter_cong [OF refl])
    fix q j assume "j \<in> set [0..<64]"
    then have "j < 64" by simp
    then show "(woken c (cur s) j (procs s ! j) \<and> queue ((procs s ! j)\<lparr>state := RUNNABLE\<rparr>) = int q) =
      (state (procs s ! j) = SLEEPING \<and> chan (procs s ! j) = c \<and> queue (procs s ! j) = int q)"
      using nc by (cases "state (procs s ! j) = SLEEPING") simp_all
  qed
  note Q = this
  let ?P = "requeue_procs (woken c (cur s)) (\<lambda>p. p\<lparr>state := RUNNABLE\<rparr>) (procs s)"
  have P: "\<forall>j<64. ?P ! j = (if state (procs s ! j) = SLEEPING \<and> chan (procs s ! j) = c
       then (procs s ! j)\<lparr>state := RUNNABLE\<rparr> else procs s ! j)"
  proof (intro allI impI)
    fix j :: nat assume "j < 64"
    then show "?P ! j = (if state (procs s ! j) = SLEEPING \<and> chan (procs s ! j) = c
       then (procs s ! j)\<lparr>state := RUNNABLE\<rparr> else procs s ! j)"
      using nc [of j] by (cases "state (procs s ! j) = SLEEPING") simp_all
  qed
  obtain qt where "wakeup c s = Inr (s\<lparr>procs := ?P, qtab := qt\<rparr>)"
    "sched_inv (s\<lparr>procs := ?P, qtab := qt\<rparr>) (requeued (woken c (cur s)) (\<lambda>p. p\<lparr>state := RUNNABLE\<rparr>) (procs s) Q)"
    using wakeup_ok [OF assms, of c] by blast
  with P show ?thesis
    unfolding Q by (intro exI [of _ "s\<lparr>procs := ?P, qtab := qt\<rparr>"]) simp
qed

theorem wakeup_exactly_sleepers_witness:
  "\<exists>qt s1 s2. sleep ChTicks (demo 0 4 7 qt) = Inr s1 \<and> wakeup ChTicks s1 = Inr s2 \<and>
     state (procs s2 ! 0) = RUNNABLE \<and> state (procs s2 ! 2) = UNUSED"
proof -
  obtain qt where qt: "rq_inv qt demoQ" using demo_qtab by blast
  have inv: "sched_inv (demo 0 4 7 qt) demoQ"
    by (rule demo_inv [OF qt]; simp add: quantum_def priority_def proc_bss_def)+
  obtain s1 where s1: "sleep ChTicks (demo 0 4 7 qt) = Inr s1" "sched_inv s1 demoQ"
    "state (procs s1 ! 0) = SLEEPING" "chan (procs s1 ! 0) = ChTicks" "state (procs s1 ! 2) = UNUSED"
    using sleep_ok [OF inv, of 0 ChTicks] by (auto simp: demo_simps proc_bss_def)
  have "\<exists>s2. wakeup ChTicks s1 = Inr s2 \<and> state (procs s2 ! 0) = RUNNABLE \<and> state (procs s2 ! 2) = UNUSED"
    using wakeup_exactly_sleepers [OF s1(2), of ChTicks] s1(3-5) by auto
  with s1(1) show ?thesis by blast
qed

end
