(* ===== verification/VM.thy ===== *)
theory VM
  imports Kalloc
begin

text \<open>
  \<^verbatim>\<open>kernel/vm.c\<close>: the three-level page tables of RISC-V Sv39, built in the memory of the
  theory \<open>Kalloc\<close>, and the copying between user and kernel memory. Addresses and page table
  entries are unsigned 64-bit values, written as natural numbers with the wrap-around where an
  operation can reach it. Page tables are read and written with 64-bit loads and stores.
\<close>

section \<open>Page table entries\<close>

text \<open>The flags are bits 0 (valid), 1 (read), 2 (write), 3 (execute) and 4 (user).\<close>

abbreviation (input) PTE_V :: nat where "PTE_V \<equiv> 1"
abbreviation (input) PTE_R :: nat where "PTE_R \<equiv> 2"
abbreviation (input) PTE_W :: nat where "PTE_W \<equiv> 4"
abbreviation (input) PTE_X :: nat where "PTE_X \<equiv> 8"
abbreviation (input) PTE_U :: nat where "PTE_U \<equiv> 16"

unbundle bit_operations_syntax

definition pte_valid :: "nat \<Rightarrow> bool" where "pte_valid pte \<longleftrightarrow> pte AND PTE_V \<noteq> 0"
definition pte_user :: "nat \<Rightarrow> bool" where "pte_user pte \<longleftrightarrow> pte AND PTE_U \<noteq> 0"
definition PA2PTE :: "nat \<Rightarrow> nat" where "PA2PTE pa = pa div 2 ^ 12 * 2 ^ 10"
definition PTE2PA :: "nat \<Rightarrow> nat" where "PTE2PA pte = pte div 2 ^ 10 * 2 ^ 12 mod 2 ^ 64"
definition PTE_FLAGS :: "nat \<Rightarrow> nat" where "PTE_FLAGS pte = pte AND 1023"
definition PX :: "nat \<Rightarrow> nat \<Rightarrow> nat" where "PX level va = va div 2 ^ (12 + 9 * level) mod 512"

section \<open>Walking a page table\<close>

fun walk_levels :: "nat \<Rightarrow> nat \<Rightarrow> nat \<Rightarrow> bool \<Rightarrow> 'z km_scheme \<Rightarrow> nat \<times> 'z km_scheme" where
  "walk_levels 0 pagetable va alloc s = (pagetable + 8 * PX 0 va, s)"
| "walk_levels (Suc l) pagetable va alloc s =
     (let pte = pagetable + 8 * PX (Suc l) va; e = load64 (mem s) pte in
      if pte_valid e then walk_levels l (PTE2PA e) va alloc s
      else if \<not> alloc then (0, s)
      else let (p, s1) = kalloc s in
        if p = 0 then (0, s1)
        else
          let s2 = s1\<lparr>mem := memset (mem s1) p 0 PGSIZE\<rparr>;
              s3 = s2\<lparr>mem := store64 (mem s2) pte (PA2PTE p OR PTE_V)\<rparr> in
          walk_levels l p va alloc s3)"

definition walk :: "nat \<Rightarrow> nat \<Rightarrow> bool \<Rightarrow> 'z km_scheme \<Rightarrow> (nat \<times> 'z km_scheme) res" where
  "walk pagetable va alloc s =
     (if MAXVA \<le> va then Inl (Panic ''walk'') else Inr (walk_levels 2 pagetable va alloc s))"

definition walkaddr :: "nat \<Rightarrow> nat \<Rightarrow> 'z km_scheme \<Rightarrow> nat res" where
  "walkaddr pagetable va s =
     (if MAXVA \<le> va then Inr 0
      else bnd (walk pagetable va False s) (\<lambda>(pte, s1).
        if pte = 0 then Inr 0
        else let e = load64 (mem s1) pte in
          if \<not> pte_valid e then Inr 0 else if \<not> pte_user e then Inr 0 else Inr (PTE2PA e)))"

section \<open>Mapping and unmapping\<close>

function mappages_loop ::
  "nat \<Rightarrow> nat \<Rightarrow> nat \<Rightarrow> nat \<Rightarrow> nat \<Rightarrow> 'z km_scheme \<Rightarrow> (int \<times> 'z km_scheme) res" where
  "mappages_loop pagetable a lst pa perm s =
     bnd (walk pagetable a True s) (\<lambda>(pte, s1).
     if pte = 0 then Inr (-1, s1)
     else if pte_valid (load64 (mem s1) pte) then Inl (Panic ''mappages: remap'')
     else
       let s2 = s1\<lparr>mem := store64 (mem s1) pte (PA2PTE pa OR perm OR PTE_V)\<rparr> in
       if a = lst then Inr (0, s2)
       else mappages_loop pagetable (a + PGSIZE) lst ((pa + PGSIZE) mod 2 ^ 64) perm s2)"
  by pat_completeness auto
termination
  by (relation "measure (\<lambda>(pt, a, lst, pa, perm, s). MAXVA - a)") (auto simp: walk_def split: if_splits)

definition mappages ::
  "nat \<Rightarrow> nat \<Rightarrow> nat \<Rightarrow> nat \<Rightarrow> nat \<Rightarrow> 'z km_scheme \<Rightarrow> (int \<times> 'z km_scheme) res" where
  "mappages pagetable va sz pa perm s =
     (if sz = 0 then Inl (Panic ''mappages: size'')
      else mappages_loop pagetable (PGROUNDDOWN va) (PGROUNDDOWN ((va + sz - 1) mod 2 ^ 64)) pa perm s)"

definition kvmmap :: "nat \<Rightarrow> nat \<Rightarrow> nat \<Rightarrow> nat \<Rightarrow> nat \<Rightarrow> 'z km_scheme \<Rightarrow> 'z km_scheme res" where
  "kvmmap kpgtbl va pa sz perm s =
     bnd (mappages kpgtbl va sz pa perm s) (\<lambda>(r, s1).
     if r \<noteq> 0 then Inl (Panic ''kvmmap'') else Inr s1)"

function uvmunmap_loop :: "nat \<Rightarrow> nat \<Rightarrow> nat \<Rightarrow> bool \<Rightarrow> 'z km_scheme \<Rightarrow> 'z km_scheme res" where
  "uvmunmap_loop pagetable a aend do_free s =
     (if a < aend then
        bnd (walk pagetable a False s) (\<lambda>(pte, s1).
        if pte = 0 then Inl (Panic ''uvmunmap: walk'')
        else
          let e = load64 (mem s1) pte in
          if \<not> pte_valid e then Inl (Panic ''uvmunmap: not mapped'')
          else if PTE_FLAGS e = PTE_V then Inl (Panic ''uvmunmap: not a leaf'')
          else
            bnd (if do_free then kfree (PTE2PA e) s1 else Inr s1) (\<lambda>s2.
            uvmunmap_loop pagetable (a + PGSIZE) aend do_free (s2\<lparr>mem := store64 (mem s2) pte 0\<rparr>)))
      else Inr s)"
  by pat_completeness auto
termination
  by (relation "measure (\<lambda>(pt, a, aend, f, s). aend - a)") auto

definition uvmunmap :: "nat \<Rightarrow> nat \<Rightarrow> nat \<Rightarrow> bool \<Rightarrow> 'z km_scheme \<Rightarrow> 'z km_scheme res" where
  "uvmunmap pagetable va npages do_free s =
     (if va mod PGSIZE \<noteq> 0 then Inl (Panic ''uvmunmap: not aligned'')
      else uvmunmap_loop pagetable va ((va + npages * PGSIZE) mod 2 ^ 64) do_free s)"

definition uvmcreate :: "'z km_scheme \<Rightarrow> nat \<times> 'z km_scheme" where
  "uvmcreate s =
     (let (p, s1) = kalloc s in
      if p = 0 then (0, s1) else (p, s1\<lparr>mem := memset (mem s1) p 0 PGSIZE\<rparr>))"

text \<open>
  \<^verbatim>\<open>uvmfirst\<close> does not check \<^verbatim>\<open>kalloc\<close>: without a free page it writes through
  a null pointer.
\<close>

definition uvmfirst :: "nat \<Rightarrow> nat \<Rightarrow> nat \<Rightarrow> 'z km_scheme \<Rightarrow> 'z km_scheme res" where
  "uvmfirst pagetable src sz s =
     (if PGSIZE \<le> sz then Inl (Panic ''uvmfirst: more than a page'')
      else
        let (p, s1) = kalloc s in
        if p = 0 then Inl OutOfBounds
        else
          bnd (mappages pagetable 0 PGSIZE p (PTE_W OR PTE_R OR PTE_X OR PTE_U)
                 (s1\<lparr>mem := memset (mem s1) p 0 PGSIZE\<rparr>)) (\<lambda>(r, s2).
          Inr (s2\<lparr>mem := memmove (mem s2) p src sz\<rparr>)))"

text \<open>The conversion of \<^verbatim>\<open>uvmdealloc\<close>'s page count through \<^verbatim>\<open>int\<close>.\<close>

definition int_to_u64 :: "int \<Rightarrow> nat" where
  "int_to_u64 i = nat (signed_take_bit 31 i mod 2 ^ 64)"

definition uvmdealloc :: "nat \<Rightarrow> nat \<Rightarrow> nat \<Rightarrow> 'z km_scheme \<Rightarrow> (nat \<times> 'z km_scheme) res" where
  "uvmdealloc pagetable oldsz newsz s =
     (if newsz \<ge> oldsz then Inr (oldsz, s)
      else
        bnd (if PGROUNDUP newsz < PGROUNDUP oldsz then
               let npages = (PGROUNDUP oldsz - PGROUNDUP newsz) div PGSIZE in
               uvmunmap pagetable (PGROUNDUP newsz) (int_to_u64 (int npages)) True s
             else Inr s) (\<lambda>s1.
        Inr (newsz, s1)))"

function uvmalloc_loop :: "nat \<Rightarrow> nat \<Rightarrow> nat \<Rightarrow> nat \<Rightarrow> 'z km_scheme \<Rightarrow> (nat \<times> 'z km_scheme) res" where
  "uvmalloc_loop pagetable oldsz a newsz s =
     (if a < newsz then
        let (p, s1) = kalloc s in
        if p = 0 then bnd (uvmdealloc pagetable a oldsz s1) (\<lambda>(_, s2). Inr (0, s2))
        else
          bnd (mappages pagetable a PGSIZE p (PTE_W OR PTE_X OR PTE_R OR PTE_U)
                 (s1\<lparr>mem := memset (mem s1) p 0 PGSIZE\<rparr>)) (\<lambda>(r, s2).
          if r \<noteq> 0 then
            bnd (kfree p s2) (\<lambda>s3.
            bnd (uvmdealloc pagetable a oldsz s3) (\<lambda>(_, s4). Inr (0, s4)))
          else uvmalloc_loop pagetable oldsz (a + PGSIZE) newsz s2)
      else Inr (newsz, s))"
  by pat_completeness auto
termination
  by (relation "measure (\<lambda>(pt, oldsz, a, newsz, s). newsz - a)") auto

definition uvmalloc :: "nat \<Rightarrow> nat \<Rightarrow> nat \<Rightarrow> 'z km_scheme \<Rightarrow> (nat \<times> 'z km_scheme) res" where
  "uvmalloc pagetable oldsz newsz s =
     (if newsz < oldsz then Inr (oldsz, s)
      else uvmalloc_loop pagetable (PGROUNDUP oldsz) (PGROUNDUP oldsz) newsz s)"

text \<open>
  \<^verbatim>\<open>freewalk\<close> follows the entries of the table as it finds them; on a table that contains
  itself it would not return, which is the value \<open>None\<close>.
\<close>

partial_function (option) freewalk_from :: "nat \<Rightarrow> nat \<Rightarrow> 'z km_scheme \<Rightarrow> 'z km_scheme res option" where
  "freewalk_from pagetable i s =
     (if i < 512 then
        let slot = pagetable + 8 * i; pte = load64 (mem s) slot in
        if pte_valid pte \<and> pte AND (PTE_R OR PTE_W OR PTE_X) = 0 then
          Option.bind (freewalk_from (PTE2PA pte) 0 s) (\<lambda>r.
          case r of Inl e \<Rightarrow> Some (Inl e)
          | Inr s1 \<Rightarrow> freewalk_from pagetable (Suc i) (s1\<lparr>mem := store64 (mem s1) slot 0\<rparr>))
        else if pte_valid pte then Some (Inl (Panic ''freewalk: leaf''))
        else freewalk_from pagetable (Suc i) s
      else Some (kfree pagetable s))"

definition freewalk :: "nat \<Rightarrow> 'z km_scheme \<Rightarrow> 'z km_scheme res option" where
  "freewalk pagetable s = freewalk_from pagetable 0 s"

definition uvmfree :: "nat \<Rightarrow> nat \<Rightarrow> 'z km_scheme \<Rightarrow> 'z km_scheme res option" where
  "uvmfree pagetable sz s =
     (case (if sz > 0 then uvmunmap pagetable 0 (PGROUNDUP sz div PGSIZE) True s else Inr s) of
        Inl e \<Rightarrow> Some (Inl e)
      | Inr s1 \<Rightarrow> freewalk pagetable s1)"

function uvmcopy_loop :: "nat \<Rightarrow> nat \<Rightarrow> nat \<Rightarrow> nat \<Rightarrow> 'z km_scheme \<Rightarrow> (int \<times> 'z km_scheme) res" where
  "uvmcopy_loop old new i sz s =
     (if i < sz then
        bnd (walk old i False s) (\<lambda>(pte, s1).
        if pte = 0 then Inl (Panic ''uvmcopy: pte should exist'')
        else
          let e = load64 (mem s1) pte in
          if \<not> pte_valid e then Inl (Panic ''uvmcopy: page not present'')
          else
            let pa = PTE2PA e; flags = PTE_FLAGS e; (p, s2) = kalloc s1 in
            if p = 0 then bnd (uvmunmap new 0 (i div PGSIZE) True s2) (\<lambda>s3. Inr (-1, s3))
            else
              bnd (mappages new i PGSIZE p flags (s2\<lparr>mem := memmove (mem s2) p pa PGSIZE\<rparr>)) (\<lambda>(r, s3).
              if r \<noteq> 0 then
                bnd (kfree p s3) (\<lambda>s4.
                bnd (uvmunmap new 0 (i div PGSIZE) True s4) (\<lambda>s5. Inr (-1, s5)))
              else uvmcopy_loop old new (i + PGSIZE) sz s3))
      else Inr (0, s))"
  by pat_completeness auto
termination
  by (relation "measure (\<lambda>(old, new, i, sz, s). sz - i)") auto

definition uvmcopy :: "nat \<Rightarrow> nat \<Rightarrow> nat \<Rightarrow> 'z km_scheme \<Rightarrow> (int \<times> 'z km_scheme) res" where
  "uvmcopy old new sz s = uvmcopy_loop old new 0 sz s"

definition uvmclear :: "nat \<Rightarrow> nat \<Rightarrow> 'z km_scheme \<Rightarrow> 'z km_scheme res" where
  "uvmclear pagetable va s =
     bnd (walk pagetable va False s) (\<lambda>(pte, s1).
     if pte = 0 then Inl (Panic ''uvmclear'')
     else Inr (s1\<lparr>mem := store64 (mem s1) pte (unset_bit 4 (load64 (mem s1) pte))\<rparr>))"

section \<open>Copying between user and kernel memory\<close>

function copyout :: "nat \<Rightarrow> nat \<Rightarrow> nat \<Rightarrow> nat \<Rightarrow> 'z km_scheme \<Rightarrow> (int \<times> 'z km_scheme) res" where
  "copyout pagetable dstva src len s =
     (if len > 0 then
        let va0 = PGROUNDDOWN dstva in
        bnd (walkaddr pagetable va0 s) (\<lambda>pa0.
        if pa0 = 0 then Inr (-1, s)
        else
          let n = min (PGSIZE - (dstva - va0)) len in
          copyout pagetable (va0 + PGSIZE) (src + n) (len - n)
            (s\<lparr>mem := memmove (mem s) (pa0 + (dstva - va0)) src n\<rparr>))
      else Inr (0, s))"
  by pat_completeness auto
termination
proof (relation "measure (\<lambda>(pt, dstva, src, len, s). len)", goal_cases)
  case (2 pt dstva src len s va0 pa0 n)
  then show ?case by (auto simp: PGROUNDDOWN_def mod_less_eq_dividend minus_mult_div_eq_mod mult.commute)
qed simp

function copyin :: "nat \<Rightarrow> nat \<Rightarrow> nat \<Rightarrow> nat \<Rightarrow> 'z km_scheme \<Rightarrow> (int \<times> 'z km_scheme) res" where
  "copyin pagetable dst srcva len s =
     (if len > 0 then
        let va0 = PGROUNDDOWN srcva in
        bnd (walkaddr pagetable va0 s) (\<lambda>pa0.
        if pa0 = 0 then Inr (-1, s)
        else
          let n = min (PGSIZE - (srcva - va0)) len in
          copyin pagetable (dst + n) (va0 + PGSIZE) (len - n)
            (s\<lparr>mem := memmove (mem s) dst (pa0 + (srcva - va0)) n\<rparr>))
      else Inr (0, s))"
  by pat_completeness auto
termination
proof (relation "measure (\<lambda>(pt, dst, srcva, len, s). len)", goal_cases)
  case (2 pt dst srcva len s va0 pa0 n)
  then show ?case by (auto simp: PGROUNDDOWN_def mod_less_eq_dividend minus_mult_div_eq_mod mult.commute)
qed simp

text \<open>The inner loop of \<^verbatim>\<open>copyinstr\<close> returns \<^verbatim>\<open>got_null\<close> and the advanced \<^verbatim>\<open>dst\<close> and \<^verbatim>\<open>max\<close>.\<close>

fun copyinstr_page :: "mem \<Rightarrow> nat \<Rightarrow> nat \<Rightarrow> nat \<Rightarrow> nat \<Rightarrow> mem \<times> bool \<times> nat \<times> nat" where
  "copyinstr_page m p dst 0 mx = (m, False, dst, mx)"
| "copyinstr_page m p dst (Suc n) mx =
     (if m p = 0 then (m(dst := 0), True, dst, mx)
      else copyinstr_page (m(dst := m p)) (p + 1) (dst + 1) n (mx - 1))"

lemma copyinstr_page_max:
  "copyinstr_page m p dst n mx = (m', g, dst', mx') \<Longrightarrow> n \<le> mx \<Longrightarrow> \<not> g \<Longrightarrow> mx' = mx - n"
  by (induction m p dst n mx arbitrary: m' g dst' mx' rule: copyinstr_page.induct) (auto split: if_splits)

function copyinstr_loop :: "nat \<Rightarrow> nat \<Rightarrow> nat \<Rightarrow> nat \<Rightarrow> 'z km_scheme \<Rightarrow> (int \<times> 'z km_scheme) res" where
  "copyinstr_loop pagetable dst srcva mx s =
     (if mx > 0 then
        let va0 = PGROUNDDOWN srcva in
        bnd (walkaddr pagetable va0 s) (\<lambda>pa0.
        if pa0 = 0 then Inr (-1, s)
        else
          let n = min (PGSIZE - (srcva - va0)) mx in
          case copyinstr_page (mem s) (pa0 + (srcva - va0)) dst n mx of (m, got_null, dst', mx') \<Rightarrow>
            if got_null then Inr (0, s\<lparr>mem := m\<rparr>)
            else copyinstr_loop pagetable dst' (va0 + PGSIZE) mx' (s\<lparr>mem := m\<rparr>))
      else Inr (-1, s))"
  by pat_completeness auto
termination
proof (relation "measure (\<lambda>(pt, dst, srcva, mx, s). mx)", goal_cases)
  case (2 pt dst srcva mx s va0 pa0 n m y g y2 dst' mx')
  then have "copyinstr_page (mem s) (pa0 + (srcva - va0)) dst n mx = (m, False, dst', mx')" "0 < n" "n \<le> mx"
    by (auto simp: PGROUNDDOWN_def minus_mult_div_eq_mod mult.commute)
  then have "mx' = mx - n" "0 < n" "n \<le> mx" by (auto dest: copyinstr_page_max)
  then show ?case by auto
qed simp

definition copyinstr :: "nat \<Rightarrow> nat \<Rightarrow> nat \<Rightarrow> nat \<Rightarrow> 'z km_scheme \<Rightarrow> (int \<times> 'z km_scheme) res" where
  "copyinstr pagetable dst srcva mx s = copyinstr_loop pagetable dst srcva mx s"

text \<open>
  The same loops where the kernel side is an object outside the modelled memory (a local variable,
  a buffer of the block cache, a pipe), given as its list of bytes. \<open>copyin_list\<close> returns the
  bytes that were copied before it finished or failed.
\<close>

definition write_list :: "mem \<Rightarrow> nat \<Rightarrow> u8 list \<Rightarrow> mem" where
  "write_list m a bs = (\<lambda>x. if a \<le> x \<and> x < a + length bs then bs ! (x - a) else m x)"

definition read_list :: "mem \<Rightarrow> nat \<Rightarrow> nat \<Rightarrow> u8 list" where
  "read_list m a n = map (\<lambda>i. m (a + i)) [0..<n]"

function copyout_list :: "nat \<Rightarrow> nat \<Rightarrow> u8 list \<Rightarrow> 'z km_scheme \<Rightarrow> (int \<times> 'z km_scheme) res" where
  "copyout_list pagetable dstva bs s =
     (if length bs > 0 then
        let va0 = PGROUNDDOWN dstva in
        bnd (walkaddr pagetable va0 s) (\<lambda>pa0.
        if pa0 = 0 then Inr (-1, s)
        else
          let n = min (PGSIZE - (dstva - va0)) (length bs) in
          copyout_list pagetable (va0 + PGSIZE) (drop n bs)
            (s\<lparr>mem := write_list (mem s) (pa0 + (dstva - va0)) (take n bs)\<rparr>))
      else Inr (0, s))"
  by pat_completeness auto
termination
proof (relation "measure (\<lambda>(pt, dstva, bs, s). length bs)", goal_cases)
  case (2 pt dstva bs s va0 pa0 n)
  then show ?case by (auto simp: PGROUNDDOWN_def minus_mult_div_eq_mod mult.commute)
qed simp

function copyin_list :: "nat \<Rightarrow> nat \<Rightarrow> nat \<Rightarrow> 'z km_scheme \<Rightarrow> (int \<times> u8 list) res" where
  "copyin_list pagetable srcva len s =
     (if len > 0 then
        let va0 = PGROUNDDOWN srcva in
        bnd (walkaddr pagetable va0 s) (\<lambda>pa0.
        if pa0 = 0 then Inr (-1, [])
        else
          let n = min (PGSIZE - (srcva - va0)) len in
          bnd (copyin_list pagetable (va0 + PGSIZE) (len - n) s) (\<lambda>(r, bs).
          Inr (r, read_list (mem s) (pa0 + (srcva - va0)) n @ bs)))
      else Inr (0, []))"
  by pat_completeness auto
termination
proof (relation "measure (\<lambda>(pt, srcva, len, s). len)", goal_cases)
  case (2 pt srcva len s va0 pa0 n)
  then show ?case by (auto simp: PGROUNDDOWN_def minus_mult_div_eq_mod mult.commute)
qed simp

section \<open>The page table of the kernel\<close>

text \<open>
  The linker symbols \<^verbatim>\<open>etext\<close> and \<^verbatim>\<open>trampoline\<close> are arguments. A null page
  from the first \<^verbatim>\<open>kalloc\<close> is written through without a check.
\<close>

definition proc_mapstacks :: "nat \<Rightarrow> 'z km_scheme \<Rightarrow> 'z km_scheme res" where
  "proc_mapstacks kpgtbl s =
     foldres (\<lambda>i s.
       let (pa, s1) = kalloc s in
       if pa = 0 then Inl (Panic ''kalloc'')
       else kvmmap kpgtbl (KSTACK i) pa PGSIZE (PTE_R OR PTE_W) s1) [0..<NPROC] s"

definition kvmmake :: "nat \<Rightarrow> nat \<Rightarrow> 'z km_scheme \<Rightarrow> (nat \<times> 'z km_scheme) res" where
  "kvmmake etext trampoline s =
     (let (kpgtbl, s1) = kalloc s in
      if kpgtbl = 0 then Inl OutOfBounds
      else
        bnd (kvmmap kpgtbl 268435456 268435456 PGSIZE (PTE_R OR PTE_W)
               (s1\<lparr>mem := memset (mem s1) kpgtbl 0 PGSIZE\<rparr>)) (\<lambda>s2.
        bnd (kvmmap kpgtbl 268439552 268439552 PGSIZE (PTE_R OR PTE_W) s2) (\<lambda>s3.
        bnd (kvmmap kpgtbl 201326592 201326592 4194304 (PTE_R OR PTE_W) s3) (\<lambda>s4.
        bnd (kvmmap kpgtbl KERNBASE KERNBASE (etext - KERNBASE) (PTE_R OR PTE_X) s4) (\<lambda>s5.
        bnd (kvmmap kpgtbl etext etext (PHYSTOP - etext) (PTE_R OR PTE_W) s5) (\<lambda>s6.
        bnd (kvmmap kpgtbl TRAMPOLINE trampoline PGSIZE (PTE_R OR PTE_X) s6) (\<lambda>s7.
        bnd (proc_mapstacks kpgtbl s7) (\<lambda>s8. Inr (kpgtbl, s8)))))))))"

declare mappages_loop.simps [simp del] uvmunmap_loop.simps [simp del] uvmalloc_loop.simps [simp del]
  uvmcopy_loop.simps [simp del] copyout.simps [simp del] copyin.simps [simp del]
  copyinstr_loop.simps [simp del] copyout_list.simps [simp del] copyin_list.simps [simp del]

end
