(* ===== verification/PageTable.thy ===== *)
theory PageTable
  imports VM
begin

text \<open>
  What the page table code of the theory \<open>VM\<close> computes. A page table is a tree of table pages
  (\<open>pt_wf\<close>), its meaning is the entry of each virtual page (\<open>xl\<close>). Walking with
  allocation changes the tree and not its meaning; mapping and unmapping change the meaning at the
  addressed pages and nowhere else.
\<close>

section \<open>Entries\<close>

unbundle bit_operations_syntax

lemma pte_valid_iff: "pte_valid e \<longleftrightarrow> odd e"
  by (simp add: pte_valid_def and_one_eq odd_iff_mod_2_eq_one)

lemma pte_valid_or [simp]: "pte_valid (a OR b OR Suc 0)" "pte_valid (a OR Suc 0)" "\<not> pte_valid 0"
  by (auto simp: pte_valid_iff even_or_iff)

lemma PTE2PA_PA2PTE:
  assumes "p mod 4096 = 0" "p < 2 ^ 56" "f < 1024"
  shows "PTE2PA (PA2PTE p OR f) = p"
proof -
  have "(PA2PTE p OR f) div 2 ^ 10 = drop_bit 10 (PA2PTE p) OR drop_bit 10 f"
    by (simp only: drop_bit_eq_div [symmetric] drop_bit_or)
  also have "drop_bit 10 (PA2PTE p) = p div 4096" by (simp add: PA2PTE_def drop_bit_eq_div)
  also have "drop_bit 10 f = 0" using assms(3) by (simp add: drop_bit_eq_div)
  finally have "(PA2PTE p OR f) div 2 ^ 10 = p div 4096" by simp
  moreover obtain k where "p = 4096 * k" using assms(1) page_mult by blast
  ultimately show ?thesis using assms(2) unfolding PTE2PA_def by simp
qed

lemma or_less_1024: "a < 1024 \<Longrightarrow> b < 1024 \<Longrightarrow> a OR b < (1024 :: nat)"
  using OR_upper [of "int a" 10 "int b"] by (simp flip: of_nat_or_eq)

lemma PA2PTE_or_less: "p < 2 ^ 56 \<Longrightarrow> f < 1024 \<Longrightarrow> PA2PTE p OR f < 2 ^ 64"
proof -
  assume "p < 2 ^ 56" "f < 1024"
  then have "int (PA2PTE p) < 2 ^ 64" "int f < 2 ^ 64" unfolding PA2PTE_def by simp_all
  then have "int (PA2PTE p) OR int f < 2 ^ 64" by (intro OR_upper) simp_all
  then show ?thesis by (simp flip: of_nat_or_eq)
qed

lemma PX_less [simp]: "PX l va < 512"
  by (simp add: PX_def)

lemma PX_page: "va div 4096 mod 2 ^ 27 = PX 0 va + 512 * PX 1 va + 262144 * PX 2 va"
proof -
  have "va div 4096 mod (512 * (512 * 512)) =
      512 * (512 * (va div 4096 div 512 div 512 mod 512) + va div 4096 div 512 mod 512) + va div 4096 mod 512"
    by (simp only: mod_mult2_eq div_mult2_eq)
  then show ?thesis by (simp add: PX_def div_mult2_eq [symmetric])
qed

text \<open>Two addresses are in the same page iff the three indices agree.\<close>

lemma PX_inj:
  assumes "va < MAXVA" "va' < MAXVA" "\<And>k. k \<le> 2 \<Longrightarrow> PX k va = PX k va'"
  shows "va div 4096 = va' div 4096"
proof -
  have "va div 4096 < 2 ^ 27" "va' div 4096 < 2 ^ 27" using assms(1,2) by simp_all
  then show ?thesis
    using PX_page [of va] PX_page [of va'] assms(3) [of 0] assms(3) [of 1] assms(3) [of 2] by simp
qed

lemma PX_cong: "va div 4096 = va' div 4096 \<Longrightarrow> PX k va = PX k va'"
proof -
  assume eq: "va div 4096 = va' div 4096"
  have "v div 2 ^ (12 + 9 * k) = v div 4096 div 2 ^ (9 * k)" for v :: nat
    by (simp add: power_add div_mult2_eq)
  from this [of va] this [of va'] eq show ?thesis by (simp add: PX_def)
qed

section \<open>The tree of table pages\<close>

text \<open>
  \<open>pt_wf l m pt A\<close>: the table at \<open>pt\<close> with \<open>l\<close> levels below it consists of the
  pages \<open>A\<close>, each used once. The entries of the lowest level are not constrained.
\<close>

fun pt_wf :: "nat \<Rightarrow> mem \<Rightarrow> nat \<Rightarrow> nat set \<Rightarrow> bool" where
  "pt_wf 0 m pt A \<longleftrightarrow> A = {pt} \<and> pt mod 4096 = 0"
| "pt_wf (Suc l) m pt A \<longleftrightarrow> pt mod 4096 = 0 \<and>
     (\<exists>F. (\<forall>i<512. if pte_valid (load64 m (pt + 8 * i)) then pt_wf l m (PTE2PA (load64 m (pt + 8 * i))) (F i)
                  else F i = {}) \<and>
          (\<forall>i<512. pt \<notin> F i) \<and> (\<forall>i<512. \<forall>j<512. i \<noteq> j \<longrightarrow> F i \<inter> F j = {}) \<and>
          A = insert pt (\<Union>i<512. F i))"

text \<open>The address of the entry for \<open>va\<close> (0 when a table is missing), and the entry.\<close>

fun slot :: "nat \<Rightarrow> mem \<Rightarrow> nat \<Rightarrow> nat \<Rightarrow> nat" where
  "slot 0 m pt va = pt + 8 * PX 0 va"
| "slot (Suc l) m pt va =
     (let e = load64 m (pt + 8 * PX (Suc l) va) in if pte_valid e then slot l m (PTE2PA e) va else 0)"

definition xl :: "nat \<Rightarrow> mem \<Rightarrow> nat \<Rightarrow> nat \<Rightarrow> nat" where
  "xl l m pt va = (if slot l m pt va = 0 then 0 else load64 m (slot l m pt va))"

lemma xl_Suc:
  "xl (Suc l) m pt va =
     (let e = load64 m (pt + 8 * PX (Suc l) va) in if pte_valid e then xl l m (PTE2PA e) va else 0)"
  by (simp add: xl_def Let_def)

lemma walk_levels_slot: "walk_levels l pt va False s = (slot l (mem s) pt va, s)"
  by (induction l arbitrary: pt) (simp_all add: Let_def)

definition pages :: "nat set \<Rightarrow> nat set" where
  "pages A = \<Union> (page_bytes ` A)"

lemma pages_iff: "a \<in> pages A \<longleftrightarrow> (\<exists>p\<in>A. p \<le> a \<and> a < p + 4096)"
  by (simp add: pages_def)

lemma pages_Un: "pages (A \<union> B) = pages A \<union> pages B"
  by (auto simp: pages_def)

lemma pt_wf_root: "pt_wf l m pt A \<Longrightarrow> pt \<in> A \<and> pt mod 4096 = 0"
  by (cases l) auto

lemma pt_wf_aligned: "pt_wf l m pt A \<Longrightarrow> p \<in> A \<Longrightarrow> p mod 4096 = 0"
proof (induction l arbitrary: pt A)
  case (Suc l)
  then obtain F where F: "\<forall>i<512. if pte_valid (load64 m (pt + 8 * i))
      then pt_wf l m (PTE2PA (load64 m (pt + 8 * i))) (F i) else F i = {}"
    "A = insert pt (\<Union>i<512. F i)" "pt mod 4096 = 0" by auto
  from Suc.prems(2) F(2) consider "p = pt" | i where "i < 512" "p \<in> F i" by auto
  then show ?case
  proof cases
    case 2
    then have "pt_wf l m (PTE2PA (load64 m (pt + 8 * i))) (F i)" using F(1) by (metis empty_iff)
    then show ?thesis using Suc.IH 2(2) by blast
  qed (use F(3) in simp)
qed auto

text \<open>A write outside the table pages changes nothing of the tree.\<close>

lemma load64_frame:
  "(\<And>a. a \<in> page_bytes pt \<Longrightarrow> m' a = m a) \<Longrightarrow> i < 512 \<Longrightarrow> load64 m' (pt + 8 * i) = load64 m (pt + 8 * i)"
  by (rule load64_cong) simp

lemma pt_frame:
  assumes "pt_wf l m pt A" "\<And>a. a \<in> pages A \<Longrightarrow> m' a = m a"
  shows "pt_wf l m' pt A \<and> slot l m' pt va = slot l m pt va \<and> xl l m' pt va = xl l m pt va"
  using assms
proof (induction l arbitrary: pt A)
  case 0
  have "load64 m' (pt + 8 * PX 0 va) = load64 m (pt + 8 * PX 0 va)"
    by (rule load64_frame) (use 0 in \<open>auto simp: pages_iff\<close>)
  then show ?case using 0 by (simp add: xl_def)
next
  case (Suc l)
  then obtain F where F: "\<forall>i<512. if pte_valid (load64 m (pt + 8 * i))
      then pt_wf l m (PTE2PA (load64 m (pt + 8 * i))) (F i) else F i = {}"
    "\<forall>i<512. pt \<notin> F i" "\<forall>i<512. \<forall>j<512. i \<noteq> j \<longrightarrow> F i \<inter> F j = {}"
    "A = insert pt (\<Union>i<512. F i)" "pt mod 4096 = 0" by auto
  have ld: "load64 m' (pt + 8 * i) = load64 m (pt + 8 * i)" if "i < 512" for i
    by (rule load64_frame) (use Suc.prems(2) F(4) that in \<open>auto simp: pages_iff\<close>)
  have sub: "pt_wf l m' (PTE2PA (load64 m (pt + 8 * i))) (F i) \<and>
      slot l m' (PTE2PA (load64 m (pt + 8 * i))) va = slot l m (PTE2PA (load64 m (pt + 8 * i))) va \<and>
      xl l m' (PTE2PA (load64 m (pt + 8 * i))) va = xl l m (PTE2PA (load64 m (pt + 8 * i))) va"
    if "i < 512" "pte_valid (load64 m (pt + 8 * i))" for i
    by (rule Suc.IH) (use F(1) that Suc.prems(2) F(4) in \<open>auto simp: pages_iff\<close>)
  have "pt_wf (Suc l) m' pt A"
    unfolding pt_wf.simps using F ld sub by (intro conjI exI [of _ F]) auto
  moreover have "slot (Suc l) m' pt va = slot (Suc l) m pt va"
    using ld [of "PX (Suc l) va"] sub [of "PX (Suc l) va"] by (simp add: Let_def)
  moreover have "xl (Suc l) m' pt va = xl (Suc l) m pt va"
    using ld [of "PX (Suc l) va"] sub [of "PX (Suc l) va"] by (auto simp: xl_def Let_def)
  ultimately show ?case by blast
qed

text \<open>The entry lies in a table page.\<close>

lemma slot_in_pages:
  assumes "pt_wf l m pt A" "slot l m pt va \<noteq> 0"
  shows "\<exists>p\<in>A. \<exists>i<512. slot l m pt va = p + 8 * i"
  using assms
proof (induction l arbitrary: pt A)
  case (Suc l)
  let ?e = "load64 m (pt + 8 * PX (Suc l) va)"
  have v: "pte_valid ?e" "slot l m (PTE2PA ?e) va \<noteq> 0"
    using Suc.prems(2) by (auto simp: Let_def split: if_splits)
  obtain F where F: "pt_wf l m (PTE2PA ?e) (F (PX (Suc l) va))" "A = insert pt (\<Union>i<512. F i)"
    using Suc.prems(1) v(1) PX_less by (metis (no_types, lifting) pt_wf.simps(2))
  obtain p where "p \<in> F (PX (Suc l) va)" "\<exists>i<512. slot l m (PTE2PA ?e) va = p + 8 * i"
    using Suc.IH [OF F(1) v(2)] by blast
  moreover from this(1) have "p \<in> A" using F(2) PX_less by blast
  ultimately show ?case using v(1) by (auto simp: Let_def)
qed (auto intro: PX_less)

section \<open>Writing an entry\<close>

text \<open>
  Storing a value in the entry of \<open>va\<close> changes the meaning at the page of \<open>va\<close> only.
\<close>

lemma slot_store:
  assumes "pt_wf l m pt A" "slot l m pt va \<noteq> 0" "v < 2 ^ 64" "0 \<notin> A"
  shows "pt_wf l (store64 m (slot l m pt va) v) pt A"
    and "slot l (store64 m (slot l m pt va) v) pt va' = slot l m pt va'"
    and "xl l (store64 m (slot l m pt va) v) pt va' =
      (if \<forall>k\<le>l. PX k va' = PX k va then v else xl l m pt va')"
proof -
  have "pt_wf l (store64 m (slot l m pt va) v) pt A \<and>
     slot l (store64 m (slot l m pt va) v) pt va' = slot l m pt va' \<and>
     xl l (store64 m (slot l m pt va) v) pt va' = (if \<forall>k\<le>l. PX k va' = PX k va then v else xl l m pt va')"
    using assms
  proof (induction l arbitrary: pt A)
    case 0
    then have pt: "pt \<noteq> 0" by auto
    have "load64 (store64 m (pt + 8 * PX 0 va) v) (pt + 8 * PX 0 va') =
        (if PX 0 va' = PX 0 va then v else load64 m (pt + 8 * PX 0 va'))"
      using 0(3) by (cases "PX 0 va" "PX 0 va'" rule: linorder_cases) auto
    then show ?case using 0 pt by (simp add: xl_def)
  next
    case (Suc l)
    let ?i = "PX (Suc l) va" and ?j = "PX (Suc l) va'"
    let ?e = "\<lambda>i. load64 m (pt + 8 * i)"
    have v: "pte_valid (?e ?i)" and sl: "slot (Suc l) m pt va = slot l m (PTE2PA (?e ?i)) va"
      "slot l m (PTE2PA (?e ?i)) va \<noteq> 0"
      using Suc.prems(2) by (auto simp: Let_def split: if_splits)
    let ?m = "store64 m (slot (Suc l) m pt va) v"
    obtain F where F: "\<forall>i<512. if pte_valid (?e i) then pt_wf l m (PTE2PA (?e i)) (F i) else F i = {}"
      "\<forall>i<512. pt \<notin> F i" "\<forall>i<512. \<forall>j<512. i \<noteq> j \<longrightarrow> F i \<inter> F j = {}"
      "A = insert pt (\<Union>i<512. F i)" "pt mod 4096 = 0" using Suc.prems(1) by auto
    have wfi: "pt_wf l m (PTE2PA (?e ?i)) (F ?i)" using F(1) v by simp
    have z: "0 \<notin> F ?i" using Suc.prems(4) F(4) by auto
    obtain p k where p: "p \<in> F ?i" "k < 512" "slot (Suc l) m pt va = p + 8 * k"
      using slot_in_pages [OF wfi sl(2)] sl(1) by auto
    have al: "p mod 4096 = 0" using pt_wf_aligned [OF wfi p(1)] .
    have out: "?m a = m a" if "a \<in> page_bytes q" "q mod 4096 = 0" "q \<noteq> p" for q a
      using page_apart [OF that(2) al that(3)] that(1) p(2,3) by (intro store64_other) auto
    have "pt \<noteq> p" using F(2) p(1) PX_less by blast
    then have ld: "load64 ?m (pt + 8 * i) = ?e i" if "i < 512" for i
      using out F(5) that by (intro load64_frame) auto
    have IH: "pt_wf l ?m (PTE2PA (?e ?i)) (F ?i) \<and>
        slot l ?m (PTE2PA (?e ?i)) va' = slot l m (PTE2PA (?e ?i)) va' \<and>
        xl l ?m (PTE2PA (?e ?i)) va' = (if \<forall>k\<le>l. PX k va' = PX k va then v else xl l m (PTE2PA (?e ?i)) va')"
      using Suc.IH [OF wfi sl(2) Suc.prems(3) z] unfolding sl(1) .
    have other: "pt_wf l ?m (PTE2PA (?e i)) (F i) \<and>
        slot l ?m (PTE2PA (?e i)) va' = slot l m (PTE2PA (?e i)) va' \<and>
        xl l ?m (PTE2PA (?e i)) va' = xl l m (PTE2PA (?e i)) va'"
      if i: "i < 512" "i \<noteq> ?i" "pte_valid (?e i)" for i
    proof (rule pt_frame)
      show wf: "pt_wf l m (PTE2PA (?e i)) (F i)" using F(1) i by simp
      fix a assume "a \<in> pages (F i)"
      then obtain q where q: "q \<in> F i" "a \<in> page_bytes q" by (auto simp: pages_def)
      moreover have "q \<noteq> p" using F(3) i q(1) p(1) PX_less by blast
      ultimately show "?m a = m a" using out [OF q(2) pt_wf_aligned [OF wf q(1)]] by simp
    qed
    have "pt_wf (Suc l) ?m pt A"
      unfolding pt_wf.simps
    proof (intro conjI exI [of _ F] allI impI)
      fix i :: nat assume i: "i < 512"
      show "if pte_valid (load64 ?m (pt + 8 * i)) then pt_wf l ?m (PTE2PA (load64 ?m (pt + 8 * i))) (F i) else F i = {}"
        using F(1) i ld [OF i] IH other [OF i] by (cases "i = ?i") auto
    qed (use F in auto)
    moreover have "slot (Suc l) ?m pt va' = slot (Suc l) m pt va'"
      using ld [OF PX_less] IH other [OF PX_less] by (cases "?j = ?i") (auto simp: Let_def)
    moreover have "xl (Suc l) ?m pt va' =
        (if \<forall>k\<le>Suc l. PX k va' = PX k va then v else xl (Suc l) m pt va')"
    proof (cases "?j = ?i")
      case True
      then have "xl (Suc l) ?m pt va' = xl l ?m (PTE2PA (?e ?i)) va'"
        "xl (Suc l) m pt va' = xl l m (PTE2PA (?e ?i)) va'"
        using ld [OF PX_less] v by (simp_all add: xl_Suc Let_def)
      then show ?thesis using IH True by (auto simp: le_Suc_eq)
    next
      case False
      then have "xl (Suc l) ?m pt va' = xl (Suc l) m pt va'"
        using ld [of ?j] other [of ?j] by (simp add: xl_Suc Let_def)
      then show ?thesis using False by auto
    qed
    ultimately show ?case by blast
  qed
  then show "pt_wf l (store64 m (slot l m pt va) v) pt A"
    and "slot l (store64 m (slot l m pt va) v) pt va' = slot l m pt va'"
    and "xl l (store64 m (slot l m pt va) v) pt va' =
      (if \<forall>k\<le>l. PX k va' = PX k va then v else xl l m pt va')" by blast+
qed

text \<open>An empty table: one page of zeros.\<close>

lemma load64_page_zero:
  "(\<And>a. a \<in> page_bytes pt \<Longrightarrow> m a = 0) \<Longrightarrow> i < 512 \<Longrightarrow> load64 m (pt + 8 * i) = 0"
  by (rule load64_zero) simp

lemma pt_empty:
  assumes "\<And>a. a \<in> page_bytes pt \<Longrightarrow> m a = 0" "pt mod 4096 = 0"
  shows "pt_wf l m pt {pt}" "xl l m pt va = 0"
proof -
  have z: "load64 m (pt + 8 * i) = 0" if "i < 512" for i
    using assms(1) that by (rule load64_page_zero)
  show "pt_wf l m pt {pt}"
    using assms(2) z by (cases l) (auto intro!: exI [of _ "\<lambda>_. {}"])
  show "xl l m pt va = 0"
    using z by (cases l) (auto simp: xl_def Let_def)
qed

section \<open>Walking with allocation\<close>

text \<open>
  The pages of a table and the free pages of the allocator: \<open>pt_inv s pt A fs\<close>.
\<close>

definition tab_inv :: "nat \<Rightarrow> 'z km_scheme \<Rightarrow> nat \<Rightarrow> nat set \<Rightarrow> nat list \<Rightarrow> bool" where
  "tab_inv l s pt A fs \<longleftrightarrow> flist s fs \<and> pt_wf l (mem s) pt A \<and> A \<inter> set fs = {} \<and> (\<forall>p\<in>A. page_ok s p)"

abbreviation "pt_inv \<equiv> tab_inv 2"

lemma page_ok_bound: "page_ok s p \<Longrightarrow> p < 2 ^ 56"
  by (simp add: page_ok_def)

lemma tab_invD:
  assumes "tab_inv l s pt A fs"
  shows "flist s fs" "pt_wf l (mem s) pt A" "A \<inter> set fs = {}" "p \<in> A \<Longrightarrow> page_ok s p"
    "distinct fs" "p \<in> set fs \<Longrightarrow> page_ok s p"
  using assms by (simp_all add: tab_inv_def flist_def)

lemma tab_inv_nonzero: "tab_inv l s pt A fs \<Longrightarrow> 0 \<notin> A"
  by (auto simp: tab_inv_def flist_def page_ok_def)

text \<open>Changes of the memory that respect the tables and the free pages.\<close>

lemma tab_inv_frame:
  assumes "tab_inv l s pt A fs" "freelist s' = freelist s" "kend s' = kend s"
    "\<And>a. a \<in> pages (A \<union> set fs) \<Longrightarrow> mem s' a = mem s a"
  shows "tab_inv l s' pt A fs" "xl l (mem s') pt va = xl l (mem s) pt va"
proof -
  have wf: "pt_wf l (mem s) pt A" and fl: "flist s fs" using assms(1) by (auto simp: tab_inv_def)
  have "flist s' fs"
    by (rule flist_frame [OF fl assms(2,3)]) (use assms(4) in \<open>auto simp: pages_iff\<close>)
  moreover have fr: "pt_wf l (mem s') pt A \<and> slot l (mem s') pt va = slot l (mem s) pt va \<and>
      xl l (mem s') pt va = xl l (mem s) pt va"
    by (rule pt_frame [OF wf]) (use assms(4) in \<open>auto simp: pages_Un\<close>)
  ultimately show "tab_inv l s' pt A fs" "xl l (mem s') pt va = xl l (mem s) pt va"
    using assms(1,3) by (auto simp: tab_inv_def page_ok_def)
qed

text \<open>Storing an entry of a table keeps the invariant.\<close>

lemma tab_inv_store:
  assumes inv: "tab_inv l s pt A fs" and sl: "slot l (mem s) pt va \<noteq> 0" and v: "v < 2 ^ 64"
  shows "tab_inv l (s\<lparr>mem := store64 (mem s) (slot l (mem s) pt va) v\<rparr>) pt A fs"
proof -
  let ?a = "slot l (mem s) pt va"
  have wf: "pt_wf l (mem s) pt A" and fl: "flist s fs" using inv by (auto simp: tab_inv_def)
  obtain p i where p: "p \<in> A" "i < 512" "?a = p + 8 * i" using slot_in_pages [OF wf sl] by blast
  have "store64 (mem s) ?a v b = mem s b" if "q \<in> set fs" "b \<in> page_bytes q" for q b
  proof (rule store64_other)
    have "q \<noteq> p" "q mod 4096 = 0" using inv that(1) p(1) by (auto simp: tab_inv_def flist_def page_ok_def)
    then show "b < ?a \<or> ?a + 8 \<le> b"
      using page_apart [of q p] pt_wf_aligned [OF wf p(1)] p(2,3) that(2) by auto
  qed
  then have "flist (s\<lparr>mem := store64 (mem s) ?a v\<rparr>) fs" by (intro flist_frame [OF fl]) auto
  then show ?thesis
    using slot_store(1) [OF wf sl v tab_inv_nonzero [OF inv]] inv by (auto simp: tab_inv_def page_ok_def)
qed

text \<open>The state after \<^verbatim>\<open>kalloc\<close> and \<^verbatim>\<open>memset\<close> of a new table page.\<close>

lemma kalloc_zeroed:
  assumes "flist s (p # fs)"
  shows "\<exists>m r. kalloc s = (p, s\<lparr>freelist := r, mem := m\<rparr>) \<and>
    flist (s\<lparr>freelist := r, mem := memset m p 0 4096\<rparr>) fs \<and>
    (\<forall>a. memset m p 0 4096 a = (if a \<in> page_bytes p then 0 else mem s a))"
proof -
  obtain m r where m: "kalloc s = (p, s\<lparr>freelist := r, mem := m\<rparr>)"
    "flist (s\<lparr>freelist := r, mem := m\<rparr>) fs" "\<forall>a. m a = (if a \<in> page_bytes p then 5 else mem s a)"
    using kalloc_Cons [OF assms] by blast
  have eq: "memset m p 0 4096 a = (if a \<in> page_bytes p then 0 else mem s a)" for a
    using m(3) by (simp add: memset_apply)
  have "flist (s\<lparr>freelist := r, mem := memset m p 0 4096\<rparr>) fs"
  proof (rule flist_frame [OF m(2)])
    fix q a assume "q \<in> set fs" "a \<in> page_bytes q"
    moreover from this(1) have "q \<noteq> p" "q mod 4096 = 0" "p mod 4096 = 0"
      using assms by (auto simp: flist_def page_ok_def)
    ultimately show "mem (s\<lparr>freelist := r, mem := memset m p 0 4096\<rparr>) a = mem (s\<lparr>freelist := r, mem := m\<rparr>) a"
      using page_apart [of p q] by (auto simp: memset_apply)
  qed auto
  with m(1) eq show ?thesis by blast
qed

text \<open>A subtree that grew by the pages \<open>U\<close> without changing its meaning.\<close>

lemma graft:
  assumes F: "\<forall>i<512. if pte_valid (load64 m (pt + 8 * i))
        then pt_wf l m (PTE2PA (load64 m (pt + 8 * i))) (F i) else F i = {}"
      "\<forall>i<512. pt \<notin> F i" "\<forall>i<512. \<forall>j<512. i \<noteq> j \<longrightarrow> F i \<inter> F j = {}"
      "A = insert pt (\<Union>i<512. F i)" "pt mod 4096 = 0"
    and i: "i < 512" "pte_valid (load64 m (pt + 8 * i))" "c = PTE2PA (load64 m (pt + 8 * i))"
    and c: "pt_wf l m' c (F i \<union> U)" "U \<inter> A = {}" "\<forall>v. xl l m' c v = xl l m c v"
    and out: "\<And>a. a \<notin> pages (F i \<union> U) \<Longrightarrow> m' a = m a"
  shows "pt_wf (Suc l) m' pt (A \<union> U) \<and> (\<forall>v. xl (Suc l) m' pt v = xl (Suc l) m pt v) \<and>
    load64 m' (pt + 8 * i) = load64 m (pt + 8 * i)"
proof -
  have keep: "m' a = m a" if "a \<in> page_bytes q" "q mod 4096 = 0" "q \<notin> F i \<union> U" for a q
  proof (rule out)
    show "a \<notin> pages (F i \<union> U)"
    proof
      assume "a \<in> pages (F i \<union> U)"
      then obtain p where p: "p \<in> F i \<union> U" "a \<in> page_bytes p" by (auto simp: pages_def)
      then show False using page_apart [OF that(2) pt_wf_aligned [OF c(1) p(1)]] that by auto
    qed
  qed
  have ld: "load64 m' (pt + 8 * j) = load64 m (pt + 8 * j)" if "j < 512" for j
    using that F(2,4,5) c(2) i(1) by (intro load64_frame keep [of _ pt]) auto
  have other: "pt_wf l m' (PTE2PA (load64 m (pt + 8 * j))) (F j) \<and>
      xl l m' (PTE2PA (load64 m (pt + 8 * j))) v = xl l m (PTE2PA (load64 m (pt + 8 * j))) v"
    if j: "j < 512" "j \<noteq> i" "pte_valid (load64 m (pt + 8 * j))" for j v
  proof -
    have wf: "pt_wf l m (PTE2PA (load64 m (pt + 8 * j))) (F j)" using F(1) j by simp
    have "m' a = m a" if a: "a \<in> pages (F j)" for a
    proof -
      obtain q where q: "q \<in> F j" "a \<in> page_bytes q" using a by (auto simp: pages_def)
      then have "q \<notin> F i \<union> U" using F(3,4) i(1) j c(2) by blast
      then show ?thesis using keep [OF q(2) pt_wf_aligned [OF wf q(1)]] by blast
    qed
    from pt_frame [OF wf this] show ?thesis by blast
  qed
  have "pt_wf (Suc l) m' pt (A \<union> U)"
    unfolding pt_wf.simps
  proof (intro conjI exI [of _ "F(i := F i \<union> U)"] allI impI)
    fix j :: nat assume j: "j < 512"
    show "if pte_valid (load64 m' (pt + 8 * j))
        then pt_wf l m' (PTE2PA (load64 m' (pt + 8 * j))) ((F(i := F i \<union> U)) j) else (F(i := F i \<union> U)) j = {}"
      using F(1) j ld [OF j] c(1) i other [OF j] by (cases "j = i") auto
  next
    show "A \<union> U = insert pt (\<Union>j<512. (F(i := F i \<union> U)) j)"
      unfolding F(4) using i(1) by (auto split: if_splits)
  next
    fix j k :: nat assume "j < 512" "k < 512" "j \<noteq> k"
    moreover have "U \<inter> F n = {}" if "n < 512" for n using that c(2) F(4) by blast
    ultimately show "(F(i := F i \<union> U)) j \<inter> (F(i := F i \<union> U)) k = {}"
      using F(3) i(1) by (cases "j = i"; cases "k = i") (simp_all add: Int_Un_distrib Int_Un_distrib2 Int_commute)
  qed (use F(2,4,5) c(2) i(1) in \<open>auto split: if_splits\<close>)
  moreover have "xl (Suc l) m' pt v = xl (Suc l) m pt v" for v
    using ld [of "PX (Suc l) v"] c(3) other [of "PX (Suc l) v" v] i
    by (cases "PX (Suc l) v = i") (simp_all add: xl_Suc Let_def)
  ultimately show ?thesis using ld [OF i(1)] by blast
qed

text \<open>A new, empty table in an invalid entry.\<close>

lemma new_table:
  assumes inv: "tab_inv (Suc l) s pt A (p # fs)" and i: "i < 512" "\<not> pte_valid (load64 (mem s) (pt + 8 * i))"
    and m: "\<forall>a. m a = (if a \<in> page_bytes p then 0 else mem s a)" and fl: "flist (s\<lparr>freelist := r, mem := m\<rparr>) fs"
  defines "s' \<equiv> s\<lparr>freelist := r, mem := store64 m (pt + 8 * i) (PA2PTE p OR 1)\<rparr>"
  shows "tab_inv (Suc l) s' pt (insert p A) fs" "\<forall>v. xl (Suc l) (mem s') pt v = xl (Suc l) (mem s) pt v"
    and "load64 (mem s') (pt + 8 * i) = PA2PTE p OR 1" "PTE2PA (PA2PTE p OR 1) = p"
    and "\<forall>a. a \<notin> pages (insert p A) \<longrightarrow> mem s' a = mem s a"
proof -
  let ?m = "store64 m (pt + 8 * i) (PA2PTE p OR 1)"
  obtain F where F: "\<forall>i<512. if pte_valid (load64 (mem s) (pt + 8 * i))
        then pt_wf l (mem s) (PTE2PA (load64 (mem s) (pt + 8 * i))) (F i) else F i = {}"
      "\<forall>i<512. pt \<notin> F i" "\<forall>i<512. \<forall>j<512. i \<noteq> j \<longrightarrow> F i \<inter> F j = {}"
      "A = insert pt (\<Union>i<512. F i)" "pt mod 4096 = 0"
    using inv by (auto simp: tab_inv_def)
  have p: "p \<notin> A" "page_ok s p" "p \<noteq> pt" "p \<notin> set fs"
    using inv F(4) by (auto simp: tab_inv_def flist_def)
  have al: "p mod 4096 = 0" "p < 2 ^ 56" using p(2) page_ok_bound [of s p] by (auto simp: page_ok_def)
  show pa: "PTE2PA (PA2PTE p OR 1) = p" by (rule PTE2PA_PA2PTE) (use al in auto)
  have lt: "PA2PTE p OR 1 < 2 ^ 64" by (rule PA2PTE_or_less) (use al in auto)
  have keep: "?m a = mem s a" if "a \<in> page_bytes q" "q mod 4096 = 0" "q \<noteq> p" "q \<noteq> pt" for a q
    using page_apart [OF that(2) F(5) that(4)] page_apart [OF that(2) al(1) that(3)] that(1) i(1) m
    by (subst store64_other) auto
  have ld: "load64 ?m (pt + 8 * j) = (if j = i then PA2PTE p OR 1 else load64 (mem s) (pt + 8 * j))" if "j < 512" for j
  proof (cases "j = i")
    case False
    have "load64 ?m (pt + 8 * j) = load64 m (pt + 8 * j)" using False by (intro load64_store64_other) auto
    also have "\<dots> = load64 (mem s) (pt + 8 * j)"
      by (rule load64_frame) (use m page_apart [OF al(1) F(5) p(3)] that in auto)
    finally show ?thesis using False by simp
  qed (use lt in simp)
  then show "load64 (mem s') (pt + 8 * i) = PA2PTE p OR 1" using i(1) by (simp add: s'_def)
  have zero: "?m a = 0" if "a \<in> page_bytes p" for a
    using that m page_apart [OF al(1) F(5) p(3)] i(1) by (subst store64_other) auto
  have other: "pt_wf l ?m (PTE2PA (load64 (mem s) (pt + 8 * j))) (F j) \<and>
      xl l ?m (PTE2PA (load64 (mem s) (pt + 8 * j))) v = xl l (mem s) (PTE2PA (load64 (mem s) (pt + 8 * j))) v"
    if j: "j < 512" "pte_valid (load64 (mem s) (pt + 8 * j))" for j v
  proof -
    have wf: "pt_wf l (mem s) (PTE2PA (load64 (mem s) (pt + 8 * j))) (F j)" using F(1) j by simp
    have "?m a = mem s a" if a: "a \<in> pages (F j)" for a
    proof -
      obtain q where q: "q \<in> F j" "a \<in> page_bytes q" using a by (auto simp: pages_def)
      then have "q \<noteq> p" "q \<noteq> pt" using F(2,4) j p(1) by auto
      then show ?thesis using keep [OF q(2) pt_wf_aligned [OF wf q(1)]] by blast
    qed
    from pt_frame [OF wf this] show ?thesis by blast
  qed
  have empty: "pt_wf l ?m p {p}" "xl l ?m p v = 0" for v
    using pt_empty [of p ?m l] zero al(1) by auto
  have "pt_wf (Suc l) ?m pt (insert p A)"
    unfolding pt_wf.simps
  proof (intro conjI exI [of _ "F(i := {p})"] allI impI)
    fix j :: nat assume j: "j < 512"
    show "if pte_valid (load64 ?m (pt + 8 * j))
        then pt_wf l ?m (PTE2PA (load64 ?m (pt + 8 * j))) ((F(i := {p})) j) else (F(i := {p})) j = {}"
      using F(1) j ld [OF j] empty pa other [OF j] by (cases "j = i") auto
  next
    have "F i = {}" using F(1) i by auto
    then show "insert p A = insert pt (\<Union>j<512. (F(i := {p})) j)"
      unfolding F(4) using i(1) by (auto split: if_splits)
  next
    fix j k :: nat assume "j < 512" "k < 512" "j \<noteq> k"
    moreover have "p \<notin> F n" if "n < 512" for n using that p(1) F(4) by blast
    ultimately show "(F(i := {p})) j \<inter> (F(i := {p})) k = {}"
      using F(3) by (cases "j = i"; cases "k = i") simp_all
  qed (use F(2,5) p(3) in \<open>auto split: if_splits\<close>)
  moreover have "flist s' fs"
    unfolding s'_def
  proof (rule flist_frame [OF fl])
    fix q a assume q: "q \<in> set fs" "a \<in> page_bytes q"
    then have "q mod 4096 = 0" "q \<noteq> pt" using inv F(4) by (auto simp: tab_inv_def flist_def page_ok_def)
    then show "mem (s\<lparr>freelist := r, mem := ?m\<rparr>) a = mem (s\<lparr>freelist := r, mem := m\<rparr>) a"
      using page_apart [OF _ F(5), of q] q(2) i(1) by auto
  qed auto
  ultimately show "tab_inv (Suc l) s' pt (insert p A) fs"
    using inv p by (auto simp: tab_inv_def s'_def page_ok_def)
  show "\<forall>v. xl (Suc l) (mem s') pt v = xl (Suc l) (mem s) pt v"
    using ld [OF PX_less] i pa empty(2) other [OF PX_less] by (auto simp: xl_Suc Let_def s'_def)
  show "\<forall>a. a \<notin> pages (insert p A) \<longrightarrow> mem s' a = mem s a"
    using m F(4) i(1) by (auto simp: s'_def pages_iff store64_other)
qed

text \<open>
  The result of a walk that may allocate: the pages \<open>us\<close> move from the free list to the
  table, the meaning of the table stays, and no other byte changes. A null result means that the
  allocator is empty.
\<close>

definition walked :: "nat \<Rightarrow> nat \<Rightarrow> 'z km_scheme \<Rightarrow> nat \<Rightarrow> nat set \<Rightarrow> nat list \<Rightarrow> nat \<Rightarrow> nat \<times> 'z km_scheme \<Rightarrow> bool" where
  "walked b l s pt A fs va r \<longleftrightarrow> (\<exists>us fs' fl m. fs = us @ fs' \<and> snd r = s\<lparr>freelist := fl, mem := m\<rparr> \<and>
     tab_inv l (snd r) pt (A \<union> set us) fs' \<and> (\<forall>v. xl l m pt v = xl l (mem s) pt v) \<and>
     (\<forall>a. a \<notin> pages (A \<union> set us) \<longrightarrow> m a = mem s a) \<and>
     (if fst r = 0 then fs' = [] \<and> length us < b else fst r = slot l m pt va \<and> length us \<le> b))"

lemma walkedI:
  assumes "fs = us @ fs'" "snd r = s\<lparr>freelist := fl, mem := m\<rparr>" "tab_inv l (snd r) pt (A \<union> set us) fs'"
    "\<And>v. xl l m pt v = xl l (mem s) pt v" "\<And>a. a \<notin> pages (A \<union> set us) \<Longrightarrow> m a = mem s a"
    "if fst r = 0 then fs' = [] \<and> length us < b else fst r = slot l m pt va \<and> length us \<le> b"
  shows "walked b l s pt A fs va r"
  unfolding walked_def using assms by blast

lemma walked_mono: "walked b l s pt A fs va r \<Longrightarrow> b \<le> b' \<Longrightarrow> walked b' l s pt A fs va r"
proof -
  assume "walked b l s pt A fs va r" "b \<le> b'"
  then obtain us fs' fl m where h: "fs = us @ fs'" "snd r = s\<lparr>freelist := fl, mem := m\<rparr>"
    "tab_inv l (snd r) pt (A \<union> set us) fs'" "\<And>v. xl l m pt v = xl l (mem s) pt v"
    "\<And>a. a \<notin> pages (A \<union> set us) \<Longrightarrow> m a = mem s a"
    and last_cond: "if fst r = 0 then fs' = [] \<and> length us < b else fst r = slot l m pt va \<and> length us \<le> b"
    unfolding walked_def by blast
  show ?thesis
    by (intro walkedI [OF h]) (use \<open>b \<le> b'\<close> last_cond in \<open>auto split: if_splits\<close>)
qed

lemma walked_step:
  assumes inv: "tab_inv (Suc l) s pt A fs" and v: "pte_valid (load64 (mem s) (pt + 8 * PX (Suc l) va))"
    and IH: "\<And>B. tab_inv l s (PTE2PA (load64 (mem s) (pt + 8 * PX (Suc l) va))) B fs \<Longrightarrow>
      walked b l s (PTE2PA (load64 (mem s) (pt + 8 * PX (Suc l) va))) B fs va r"
  shows "walked b (Suc l) s pt A fs va r"
proof -
  let ?i = "PX (Suc l) va" and ?c = "PTE2PA (load64 (mem s) (pt + 8 * PX (Suc l) va))"
  obtain F where F: "\<forall>i<512. if pte_valid (load64 (mem s) (pt + 8 * i))
        then pt_wf l (mem s) (PTE2PA (load64 (mem s) (pt + 8 * i))) (F i) else F i = {}"
      "\<forall>i<512. pt \<notin> F i" "\<forall>i<512. \<forall>j<512. i \<noteq> j \<longrightarrow> F i \<inter> F j = {}"
      "A = insert pt (\<Union>i<512. F i)" "pt mod 4096 = 0"
    using inv by (auto simp: tab_inv_def)
  have sub: "F ?i \<subseteq> A" using F(4) PX_less by blast
  have "tab_inv l s ?c (F ?i) fs" using inv F(1) v sub by (auto simp: tab_inv_def)
  from IH [OF this] obtain us fs' fl m where
    w: "fs = us @ fs'" "snd r = s\<lparr>freelist := fl, mem := m\<rparr>" "tab_inv l (snd r) ?c (F ?i \<union> set us) fs'"
      "\<forall>v. xl l m ?c v = xl l (mem s) ?c v" "\<forall>a. a \<notin> pages (F ?i \<union> set us) \<longrightarrow> m a = mem s a"
      "if fst r = 0 then fs' = [] \<and> length us < b else fst r = slot l m ?c va \<and> length us \<le> b"
    unfolding walked_def by blast
  have "pt_wf l m ?c (F ?i \<union> set us)" "set us \<inter> A = {}"
    using tab_invD(2) [OF w(3)] tab_invD(3) [OF inv] w(1,2) by (simp, auto)
  from graft [OF F PX_less v refl this w(4)] w(5) [rule_format]
  have g: "pt_wf (Suc l) m pt (A \<union> set us)" "\<forall>v. xl (Suc l) m pt v = xl (Suc l) (mem s) pt v"
    "load64 m (pt + 8 * ?i) = load64 (mem s) (pt + 8 * ?i)" by simp_all
  have "(A \<union> set us) \<inter> set fs' = {}" using tab_invD(3,5) [OF inv] w(1) by auto
  moreover have "page_ok (snd r) p" if "p \<in> A \<union> set us" for p
    using tab_invD(4,6) [OF inv, of p] that w(1,2) by (auto simp: page_ok_def)
  ultimately have "tab_inv (Suc l) (snd r) pt (A \<union> set us) fs'"
    using tab_invD(1) [OF w(3)] g(1) w(2) by (simp add: tab_inv_def del: pt_wf.simps)
  moreover have "slot (Suc l) m pt va = slot l m ?c va" using g(3) v by (simp add: Let_def)
  moreover have "a \<notin> pages (A \<union> set us) \<Longrightarrow> a \<notin> pages (F ?i \<union> set us)" for a
    using sub by (auto simp: pages_iff)
  ultimately show ?thesis
    using w(5,6) g(2) by (intro walkedI [OF w(1,2)]) simp_all
qed

lemma walk_levels_alloc:
  "tab_inv l s pt A fs \<Longrightarrow> walked l l s pt A fs va (walk_levels l pt va True s)"
proof (induction l arbitrary: s pt A fs)
  case 0
  have "0 < pt" using tab_inv_nonzero [OF 0] 0 by (cases "pt = 0") (auto simp: tab_inv_def)
  then show ?case using 0
    by (intro walkedI [where us = "[]" and fs' = fs and fl = "freelist s" and m = "mem s"]) simp_all
next
  case (Suc l)
  let ?a = "pt + 8 * PX (Suc l) va"
  let ?e = "load64 (mem s) ?a"
  show ?case
  proof (cases "pte_valid ?e")
    case True
    have eq: "walk_levels (Suc l) pt va True s = walk_levels l (PTE2PA ?e) va True s"
      using True by (simp add: Let_def)
    show ?thesis unfolding eq 
      by (rule walked_step [OF Suc.prems True], rule walked_mono [OF Suc.IH]) simp_all
  next
    case False
    show ?thesis
    proof (cases fs)
      case Nil
      then have "kalloc s = (0, s)" using Suc.prems by (auto simp: tab_inv_def kalloc_Nil)
      then have eq: "walk_levels (Suc l) pt va True s = (0, s)" using False by (simp add: Let_def)
      show ?thesis unfolding eq using Suc.prems Nil
        by (intro walkedI [where us = "[]" and fs' = fs and fl = "freelist s" and m = "mem s"]) simp_all
    next
      case (Cons p fs1)
      then have inv: "tab_inv (Suc l) s pt A (p # fs1)" using Suc.prems by simp
      obtain m r where m: "kalloc s = (p, s\<lparr>freelist := r, mem := m\<rparr>)"
        "flist (s\<lparr>freelist := r, mem := memset m p 0 4096\<rparr>) fs1"
        "\<forall>a. memset m p 0 4096 a = (if a \<in> page_bytes p then 0 else mem s a)"
        using kalloc_zeroed [of s p fs1] inv by (auto simp: tab_inv_def)
      define s' where "s' = s\<lparr>freelist := r, mem := store64 (memset m p 0 4096) ?a (PA2PTE p OR 1)\<rparr>"
      note nt = new_table [OF inv PX_less False m(3,2), folded s'_def]
      have "p \<noteq> 0" using inv by (auto simp: tab_inv_def flist_def page_ok_def)
      then have eq: "walk_levels (Suc l) pt va True s = walk_levels l p va True s'"
        using False m(1) by (simp add: Let_def s'_def)
      have v: "pte_valid (load64 (mem s') ?a)" "PTE2PA (load64 (mem s') ?a) = p" using nt(3,4) by auto
      have w: "walked l (Suc l) s' pt (insert p A) fs1 va (walk_levels l p va True s')"
        by (rule walked_step [OF nt(1) v(1)]) (unfold v(2), rule Suc.IH)
      then obtain us fs' fl m' where w: "fs1 = us @ fs'"
        "snd (walk_levels l p va True s') = s'\<lparr>freelist := fl, mem := m'\<rparr>"
        "tab_inv (Suc l) (snd (walk_levels l p va True s')) pt (insert p A \<union> set us) fs'"
        "\<forall>v. xl (Suc l) m' pt v = xl (Suc l) (mem s') pt v"
        "\<forall>a. a \<notin> pages (insert p A \<union> set us) \<longrightarrow> m' a = mem s' a"
        "if fst (walk_levels l p va True s') = 0 then fs' = [] \<and> length us < l else
           fst (walk_levels l p va True s') = slot (Suc l) m' pt va \<and> length us \<le> l"
        unfolding walked_def by blast
      show ?thesis unfolding eq
      proof (rule walkedI [where us = "p # us" and fs' = fs' and fl = fl and m = m'])
        show "snd (walk_levels l p va True s') = s\<lparr>freelist := fl, mem := m'\<rparr>"
          using w(2) by (simp add: s'_def)
        show "m' a = mem s a" if "a \<notin> pages (A \<union> set (p # us))" for a
          using w(5) nt(5) that by (auto simp: pages_iff)
        show "tab_inv (Suc l) (snd (walk_levels l p va True s')) pt (A \<union> set (p # us)) fs'"
          using w(3) by simp
        show "xl (Suc l) m' pt v = xl (Suc l) (mem s) pt v" for v using w(4) nt(2) by simp
        show "if fst (walk_levels l p va True s') = 0 then fs' = [] \<and> length (p # us) < Suc l else
           fst (walk_levels l p va True s') = slot (Suc l) m' pt va \<and> length (p # us) \<le> Suc l"
          using w(6) by (simp del: slot.simps)
      qed (use w(1) Cons in simp)
    qed
  qed
qed

section \<open>Mapping\<close>

text \<open>\<open>grown\<close>: pages moved from the free list into the table and only their bytes changed.\<close>

definition grown :: "'z km_scheme \<Rightarrow> nat \<Rightarrow> nat set \<Rightarrow> nat list \<Rightarrow> 'z km_scheme \<Rightarrow> nat list \<Rightarrow> bool" where
  "grown s pt A fs s' fs' \<longleftrightarrow> (\<exists>us fl m. fs = us @ fs' \<and> s' = s\<lparr>freelist := fl, mem := m\<rparr> \<and>
     pt_inv s' pt (A \<union> set us) fs' \<and> (\<forall>a. a \<notin> pages (A \<union> set us) \<longrightarrow> m a = mem s a))"

lemma grown_trans:
  assumes "grown s pt A fs s1 fs1" "\<And>us. fs = us @ fs1 \<Longrightarrow> grown s1 pt (A \<union> set us) fs1 s2 fs2"
  shows "grown s pt A fs s2 fs2"
proof -
  obtain us fl m where a: "fs = us @ fs1" "s1 = s\<lparr>freelist := fl, mem := m\<rparr>"
    "\<forall>a. a \<notin> pages (A \<union> set us) \<longrightarrow> m a = mem s a"
    using assms(1) unfolding grown_def by blast
  obtain us' fl' m' where b: "fs1 = us' @ fs2" "s2 = s1\<lparr>freelist := fl', mem := m'\<rparr>"
    "pt_inv s2 pt (A \<union> set us \<union> set us') fs2" "\<forall>a. a \<notin> pages (A \<union> set us \<union> set us') \<longrightarrow> m' a = mem s1 a"
    using assms(2) [OF a(1)] unfolding grown_def by blast
  have "m' x = mem s x" if "x \<notin> pages (A \<union> set (us @ us'))" for x
    using a(2,3) b(4) that by (auto simp: pages_Un)
  then show ?thesis unfolding grown_def using a(1,2) b(1-3)
    by (intro exI [of _ "us @ us'"] exI [of _ fl'] exI [of _ m']) (simp add: Un_assoc)
qed

lemma slot_load: "slot l m pt va \<noteq> 0 \<Longrightarrow> load64 m (slot l m pt va) = xl l m pt va"
  by (simp add: xl_def)

lemma same_page_iff:
  "va < MAXVA \<Longrightarrow> va' < MAXVA \<Longrightarrow> (\<forall>k\<le>2. PX k va' = PX k va) \<longleftrightarrow> va' div 4096 = va div 4096"
  using PX_inj [of va' va] PX_cong [of va' va] by blast

text \<open>One iteration of the loop of \<^verbatim>\<open>mappages\<close>.\<close>

lemma walk_map:
  assumes inv: "pt_inv s pt A fs" and a: "a < MAXVA" and e: "e < 2 ^ 64"
  obtains (full) s1 where "walk pt a True s = Inr (0, s1)" "grown s pt A fs s1 []"
      "\<forall>v. xl 2 (mem s1) pt v = xl 2 (mem s) pt v" "length fs < 2"
    | (entry) pte s1 fs1 where "walk pt a True s = Inr (pte, s1)" "pte \<noteq> 0"
      "load64 (mem s1) pte = xl 2 (mem s) pt a" "grown s pt A fs (s1\<lparr>mem := store64 (mem s1) pte e\<rparr>) fs1"
      "\<forall>v<MAXVA. xl 2 (store64 (mem s1) pte e) pt v = (if v div 4096 = a div 4096 then e else xl 2 (mem s) pt v)"
      "length fs \<le> length fs1 + 2"
proof -
  obtain pte s1 where r: "walk_levels 2 pt a True s = (pte, s1)" by (cases "walk_levels 2 pt a True s")
  from walk_levels_alloc [OF inv, of a] obtain us fs' fl m where
    w: "fs = us @ fs'" "s1 = s\<lparr>freelist := fl, mem := m\<rparr>" "pt_inv s1 pt (A \<union> set us) fs'"
      "\<forall>v. xl 2 m pt v = xl 2 (mem s) pt v" "\<forall>a. a \<notin> pages (A \<union> set us) \<longrightarrow> m a = mem s a"
      "if pte = 0 then fs' = [] \<and> length us < 2 else pte = slot 2 m pt a \<and> length us \<le> 2"
    unfolding walked_def r fst_conv snd_conv by blast
  have wk: "walk pt a True s = Inr (pte, s1)" using r a by (simp add: walk_def)
  show thesis
  proof (cases "pte = 0")
    case True
    have "grown s pt A fs s1 []" unfolding grown_def using w True
      by (intro exI [of _ us] exI [of _ fl] exI [of _ m]) simp
    then show thesis using full wk True w(1,2,4,6) by simp
  next
    case False
    have m: "mem s1 = m" and pte: "pte = slot 2 (mem s1) pt a" using w(2,6) False by auto
    have sl: "slot 2 (mem s1) pt a \<noteq> 0" using pte False by simp
    have inv2: "pt_inv (s1\<lparr>mem := store64 (mem s1) pte e\<rparr>) pt (A \<union> set us) fs'"
      using tab_inv_store [OF w(3) sl e] pte by simp
    obtain q i where q: "q \<in> A \<union> set us" "i < 512" "pte = q + 8 * i"
      using slot_in_pages [OF tab_invD(2) [OF w(3)] sl] pte by auto
    have "store64 m pte e x = mem s x" if "x \<notin> pages (A \<union> set us)" for x
    proof -
      have "x \<notin> page_bytes q" using that q(1) by (auto simp: pages_iff)
      then have "store64 m pte e x = m x" using q(2,3) by (intro store64_other) auto
      then show ?thesis using w(5) that by simp
    qed
    then have g: "grown s pt A fs (s1\<lparr>mem := store64 (mem s1) pte e\<rparr>) fs'"
      unfolding grown_def using w(1,2) inv2 m
      by (intro exI [of _ us] exI [of _ fl] exI [of _ "store64 m pte e"]) simp
    have x: "xl 2 (store64 (mem s1) pte e) pt v = (if v div 4096 = a div 4096 then e else xl 2 (mem s) pt v)"
      if "v < MAXVA" for v
      using slot_store(3) [OF tab_invD(2) [OF w(3)] sl e tab_inv_nonzero [OF w(3)], of v]
        same_page_iff [OF a that] pte m w(4) by simp
    have "load64 (mem s1) pte = xl 2 (mem s) pt a" using slot_load [OF sl] pte m w(4) by simp
    moreover have "length fs \<le> length fs' + 2" using w(1,6) False by simp
    ultimately show thesis using entry wk False g x by blast
  qed
qed

text \<open>The meaning of a table after \<open>k\<close> consecutive pages were mapped.\<close>

definition mapped :: "(nat \<Rightarrow> nat) \<Rightarrow> nat \<Rightarrow> nat \<Rightarrow> nat \<Rightarrow> nat \<Rightarrow> nat \<Rightarrow> nat" where
  "mapped f a pa perm k v =
     (if a \<le> v \<and> v < a + k * 4096 then PA2PTE (pa + (v - a) div 4096 * 4096) OR perm OR PTE_V else f v)"

lemma mapped_0 [simp]: "mapped f a pa perm 0 v = f v"
  by (simp add: mapped_def)

lemma mapped_step:
  assumes "a mod 4096 = 0"
  shows "mapped (\<lambda>v. if v div 4096 = a div 4096 then PA2PTE pa OR perm OR PTE_V else f v)
      (a + 4096) (pa + 4096) perm k v = mapped f a pa perm (Suc k) v"
proof -
  obtain b where b: "a = 4096 * b" using page_mult assms by blast
  consider "v < a" | "a \<le> v" "v < a + 4096" | "a + 4096 \<le> v" by linarith
  then show ?thesis
  proof cases
    case 3
    then have "v div 4096 \<noteq> b" using b by linarith
    moreover have "(v - a) div 4096 = Suc ((v - (a + 4096)) div 4096)"
      using le_div_geq [of 4096 "v - a"] 3 by simp
    ultimately show ?thesis using 3 b by (simp add: mapped_def algebra_simps)
  qed (use b in \<open>auto simp: mapped_def\<close>)
qed

lemma mappages_loop_ok:
  assumes "pt_inv s pt A fs" "a mod 4096 = 0" "a + n * 4096 < MAXVA" "perm < 1024"
    "pa mod 4096 = 0" "pa + n * 4096 < 2 ^ 56"
    "\<And>i. i \<le> n \<Longrightarrow> \<not> pte_valid (xl 2 (mem s) pt (a + i * 4096))"
  shows "\<exists>r s' fs' k. mappages_loop pt a (a + n * 4096) pa perm s = Inr (r, s') \<and> grown s pt A fs s' fs' \<and>
    (\<forall>v<MAXVA. xl 2 (mem s') pt v = mapped (xl 2 (mem s) pt) a pa perm k v) \<and>
    (r = 0 \<and> k = Suc n \<or> r = -1 \<and> k \<le> n \<and> fs' = [] \<and> length fs < 2 * Suc n)"
  using assms
proof (induction n arbitrary: s A fs a pa)
  case n0: 0
  let ?e = "PA2PTE pa OR perm OR PTE_V"
  have lt: "?e < 2 ^ 64" by (rule PA2PTE_or_less) (use n0 or_less_1024 [of perm 1] in simp_all)
  have av: "a < MAXVA" using n0 by simp
  show ?case
  proof (rule walk_map [OF n0(1) av lt])
    fix s1 assume "walk pt a True s = Inr (0, s1)" "grown s pt A fs s1 []"
      "\<forall>v. xl 2 (mem s1) pt v = xl 2 (mem s) pt v" "length fs < 2"
    then show ?thesis
      by (intro exI [of _ "-1"] exI [of _ s1] exI [of _ "[]"] exI [of _ 0])
        (subst mappages_loop.simps, simp add: mapped_def)
  next
    fix pte s1 fs1 assume w: "walk pt a True s = Inr (pte, s1)" "pte \<noteq> 0"
      "load64 (mem s1) pte = xl 2 (mem s) pt a" "grown s pt A fs (s1\<lparr>mem := store64 (mem s1) pte ?e\<rparr>) fs1"
      "\<forall>v<MAXVA. xl 2 (store64 (mem s1) pte ?e) pt v = (if v div 4096 = a div 4096 then ?e else xl 2 (mem s) pt v)"
      "length fs \<le> length fs1 + 2"
    have "mapped (xl 2 (mem s) pt) a pa perm 1 v = (if v div 4096 = a div 4096 then ?e else xl 2 (mem s) pt v)" for v
      using mapped_step [OF n0(2), of pa perm "xl 2 (mem s) pt" 0 v] by simp
    then show ?thesis using w n0(7) [of 0]
      by (intro exI [of _ 0] exI [of _ "s1\<lparr>mem := store64 (mem s1) pte ?e\<rparr>"] exI [of _ fs1] exI [of _ 1])
        (subst mappages_loop.simps, simp)
  qed
next
  case (Suc n)
  let ?e = "PA2PTE pa OR perm OR PTE_V"
  have lt: "?e < 2 ^ 64" by (rule PA2PTE_or_less) (use Suc.prems or_less_1024 [of perm 1] in simp_all)
  have av: "a < MAXVA" using Suc.prems by simp
  show ?case
  proof (rule walk_map [OF Suc.prems(1) av lt])
    fix s1 assume "walk pt a True s = Inr (0, s1)" "grown s pt A fs s1 []"
      "\<forall>v. xl 2 (mem s1) pt v = xl 2 (mem s) pt v" "length fs < 2"
    then show ?thesis
      by (intro exI [of _ "-1"] exI [of _ s1] exI [of _ "[]"] exI [of _ 0])
        (subst mappages_loop.simps, simp add: mapped_def)
  next
    fix pte s1 fs1 assume w: "walk pt a True s = Inr (pte, s1)" "pte \<noteq> 0"
      "load64 (mem s1) pte = xl 2 (mem s) pt a" "grown s pt A fs (s1\<lparr>mem := store64 (mem s1) pte ?e\<rparr>) fs1"
      "\<forall>v<MAXVA. xl 2 (store64 (mem s1) pte ?e) pt v = (if v div 4096 = a div 4096 then ?e else xl 2 (mem s) pt v)"
      "length fs \<le> length fs1 + 2"
    let ?s2 = "s1\<lparr>mem := store64 (mem s1) pte ?e\<rparr>"
    obtain us where us: "fs = us @ fs1" "pt_inv ?s2 pt (A \<union> set us) fs1"
      using w(4) unfolding grown_def by blast
    have nv: "\<not> pte_valid (xl 2 (mem ?s2) pt (a + 4096 + i * 4096))" if "i \<le> n" for i
      using w(5) [rule_format, of "a + 4096 + i * 4096"] that Suc.prems(3) Suc.prems(7) [of "Suc i"]
      by (simp add: algebra_simps)
    have "\<exists>r s' fs' k. mappages_loop pt (a + 4096) (a + 4096 + n * 4096) (pa + 4096) perm ?s2 = Inr (r, s') \<and>
      grown ?s2 pt (A \<union> set us) fs1 s' fs' \<and>
      (\<forall>v<MAXVA. xl 2 (mem s') pt v = mapped (xl 2 (mem ?s2) pt) (a + 4096) (pa + 4096) perm k v) \<and>
      (r = 0 \<and> k = Suc n \<or> r = -1 \<and> k \<le> n \<and> fs' = [] \<and> length fs1 < 2 * Suc n)"
      by (rule Suc.IH [OF us(2)]) (use Suc.prems nv in simp_all)
    then obtain r s' fs' k where h: "mappages_loop pt (a + 4096) (a + 4096 + n * 4096) (pa + 4096) perm ?s2 = Inr (r, s')"
      "grown ?s2 pt (A \<union> set us) fs1 s' fs'"
      "\<forall>v<MAXVA. xl 2 (mem s') pt v = mapped (xl 2 (mem ?s2) pt) (a + 4096) (pa + 4096) perm k v"
      "r = 0 \<and> k = Suc n \<or> r = -1 \<and> k \<le> n \<and> fs' = [] \<and> length fs1 < 2 * Suc n" by blast
    have "mappages_loop pt a (a + Suc n * 4096) pa perm s = Inr (r, s')"
      using w(1-3) Suc.prems(6) Suc.prems(7) [of 0] h(1)
      by (subst mappages_loop.simps) (simp add: add.assoc)
    moreover have "grown s pt A fs s' fs'"
      by (rule grown_trans [OF w(4)]) (use h(2) us(1) in auto)
    moreover have "xl 2 (mem s') pt v = mapped (xl 2 (mem s) pt) a pa perm (Suc k) v" if "v < MAXVA" for v
    proof -
      have "xl 2 (mem s') pt v = mapped (\<lambda>v. if v div 4096 = a div 4096 then ?e else xl 2 (mem s) pt v)
          (a + 4096) (pa + 4096) perm k v"
        using h(3) w(5) that by (simp add: mapped_def)
      then show ?thesis using mapped_step [OF Suc.prems(2)] by simp
    qed
    ultimately show ?thesis using h(4) w(6)
      by (intro exI [of _ r] exI [of _ s'] exI [of _ fs'] exI [of _ "Suc k"]) auto
  qed
qed

section \<open>An example\<close>

text \<open>Three table pages with one user page mapped at address 0, to physical page 16384.\<close>

definition ptdemo_mem :: mem where
  "ptdemo_mem = store64 (store64 (store64 (\<lambda>_. 0) 4096 (PA2PTE 8192 OR 1)) 8192 (PA2PTE 12288 OR 1))
     12288 (PA2PTE 16384 OR 31)"

definition demo_km :: km where
  "demo_km = \<lparr>mem = ptdemo_mem, freelist = 0, kend = 4096\<rparr>"

lemma ptdemo_pte [simp]: "PTE2PA (PA2PTE 8192 OR Suc 0) = 8192" "PTE2PA (PA2PTE 12288 OR Suc 0) = 12288"
  "PTE2PA (PA2PTE 16384 OR 31) = 16384"
  by (simp_all add: PTE2PA_PA2PTE)

lemma ptdemo_load:
  assumes "i < 512"
  shows "load64 ptdemo_mem (4096 + 8 * i) = (if i = 0 then PA2PTE 8192 OR 1 else 0)"
    "load64 ptdemo_mem (8192 + 8 * i) = (if i = 0 then PA2PTE 12288 OR 1 else 0)"
    "load64 ptdemo_mem (12288 + 8 * i) = (if i = 0 then PA2PTE 16384 OR 31 else 0)"
proof -
  have lt: "PA2PTE 8192 OR 1 < 2 ^ 64" "PA2PTE 12288 OR 1 < 2 ^ 64" "PA2PTE 16384 OR 31 < 2 ^ 64"
    by (rule PA2PTE_or_less; simp)+
  have z: "load64 (\<lambda>_. 0) a = 0" for a by (rule load64_zero) simp
  show "load64 ptdemo_mem (4096 + 8 * i) = (if i = 0 then PA2PTE 8192 OR 1 else 0)"
    "load64 ptdemo_mem (8192 + 8 * i) = (if i = 0 then PA2PTE 12288 OR 1 else 0)"
    "load64 ptdemo_mem (12288 + 8 * i) = (if i = 0 then PA2PTE 16384 OR 31 else 0)"
    using assms lt z by (cases "i = 0"; simp add: ptdemo_mem_def)+
qed

lemma ptdemo_wf: "pt_wf 2 ptdemo_mem 4096 {4096, 8192, 12288}"
proof -
  have 1: "pt_wf (Suc 0) ptdemo_mem 8192 {8192, 12288}"
    unfolding pt_wf.simps
    by (intro conjI exI [of _ "\<lambda>i. if i = 0 then {12288} else {}"]) (use ptdemo_load in \<open>auto split: if_splits\<close>)
  have "pt_wf (Suc (Suc 0)) ptdemo_mem 4096 {4096, 8192, 12288}"
    unfolding pt_wf.simps(2) [of "Suc 0"]
    by (intro conjI exI [of _ "\<lambda>i. if i = 0 then {8192, 12288} else {}"])
      (use ptdemo_load 1 in \<open>auto simp del: pt_wf.simps split: if_splits\<close>)
  then show ?thesis by (simp only: numeral_2_eq_2)
qed

lemma ptdemo_PX: "v < 4096 * 512 \<Longrightarrow> PX 0 v = v div 4096 \<and> PX 1 v = 0 \<and> PX 2 v = 0"
  by (simp add: PX_def)

lemma ptdemo_xl: "v < 4096 * 512 \<Longrightarrow> xl 2 ptdemo_mem 4096 v = (if v < 4096 then PA2PTE 16384 OR 31 else 0)"
proof -
  assume v: "v < 4096 * 512"
  have l0: "load64 ptdemo_mem 4096 = PA2PTE 8192 OR 1" "load64 ptdemo_mem 8192 = PA2PTE 12288 OR 1"
    using ptdemo_load [of 0] by simp_all
  have "slot 2 ptdemo_mem 4096 v = 12288 + 8 * (v div 4096)"
    using ptdemo_PX [OF v] l0 by (simp add: numeral_2_eq_2 Let_def)
  then show ?thesis using ptdemo_load(3) [of "v div 4096"] v by (auto simp: xl_def)
qed

lemma ptdemo_inv: "pt_inv demo_km 4096 {4096, 8192, 12288} []"
  using ptdemo_wf by (simp add: tab_inv_def demo_km_def flist_def page_ok_def)

section \<open>Properties\<close>

text \<open>
  C9: \<^verbatim>\<open>mappages\<close> on a range of unmapped pages never panics. When it returns 0, every
  page of the range has the entry for its physical page with the permissions and the valid bit,
  and every other virtual address keeps its entry; when it returns -1, there were fewer than two
  free pages per page of the range, the allocator is now empty and a prefix of the range is mapped. The table stays a tree of pages disjoint from the free pages,
  and no byte outside the table changes.
\<close>

theorem mappages_maps:
  assumes "pt_inv s pt A fs" "va mod 4096 = 0" "0 < n" "va + n * 4096 \<le> MAXVA" "perm < 1024"
    "pa mod 4096 = 0" "pa + n * 4096 \<le> 2 ^ 56"
    "\<And>i. i < n \<Longrightarrow> \<not> pte_valid (xl 2 (mem s) pt (va + i * 4096))"
  shows "\<exists>r s' fs' k. mappages pt va (n * 4096) pa perm s = Inr (r, s') \<and> grown s pt A fs s' fs' \<and>
    (\<forall>v<MAXVA. xl 2 (mem s') pt v = mapped (xl 2 (mem s) pt) va pa perm k v) \<and>
    (r = 0 \<and> k = n \<or> r = -1 \<and> k < n \<and> fs' = [] \<and> length fs < 2 * n)"
proof -
  obtain k where n: "n = Suc k" using assms(3) by (cases n) auto
  obtain b where b: "va = 4096 * b" using page_mult assms(2) by blast
  have "va + n * 4096 - 1 = 4095 + 4096 * (b + k)" "4095 + 4096 * (b + k) < 2 ^ 64"
    using n b assms(4) by simp_all
  moreover have "(4095 + 4096 * (b + k)) div 4096 * 4096 = va + k * 4096" using b page_div [of 4095 "b + k"] by simp
  ultimately have "PGROUNDDOWN ((va + n * 4096 - 1) mod 2 ^ 64) = va + k * 4096"
    unfolding PGROUNDDOWN_def by (simp only: mod_less)
  moreover have "PGROUNDDOWN va = va" using b by (simp add: PGROUNDDOWN_def)
  ultimately have "mappages pt va (n * 4096) pa perm s = mappages_loop pt va (va + k * 4096) pa perm s"
    using assms(3) by (simp add: mappages_def)
  moreover have "\<exists>r s' fs' j. mappages_loop pt va (va + k * 4096) pa perm s = Inr (r, s') \<and> grown s pt A fs s' fs' \<and>
    (\<forall>v<MAXVA. xl 2 (mem s') pt v = mapped (xl 2 (mem s) pt) va pa perm j v) \<and>
    (r = 0 \<and> j = Suc k \<or> r = -1 \<and> j \<le> k \<and> fs' = [] \<and> length fs < 2 * Suc k)"
    by (rule mappages_loop_ok [OF assms(1,2)]) (use assms n in \<open>simp_all add: less_Suc_eq_le\<close>)
  ultimately show ?thesis using n by (simp add: less_Suc_eq_le)
qed

theorem mappages_maps_witness:
  "\<exists>r s' k. mappages 4096 4096 8192 20480 6 demo_km = Inr (r, s') \<and>
     (\<forall>v<MAXVA. xl 2 (mem s') 4096 v = mapped (xl 2 ptdemo_mem 4096) 4096 20480 6 k v)"
proof -
  have "\<not> pte_valid (xl 2 (mem demo_km) 4096 (4096 + i * 4096))" if "i < 2" for i
    using that ptdemo_xl [of "4096 + i * 4096"] by (simp add: demo_km_def)
  from mappages_maps [OF ptdemo_inv, of 4096 2 6 20480, OF _ _ _ _ _ _ this]
  show ?thesis by (auto simp: demo_km_def)
qed

end
