(* ===== verification/Copy.thy ===== *)
theory Copy
  imports PageTable
begin

text \<open>
  What \<^verbatim>\<open>copyout\<close>, \<^verbatim>\<open>copyin\<close> and \<^verbatim>\<open>copyinstr\<close> of
  \<^verbatim>\<open>kernel/vm.c\<close> move: bytes at consecutive virtual addresses of a user page table,
  across page boundaries, to and from consecutive bytes of the kernel.
\<close>

section \<open>Translation of user addresses\<close>

definition user_page :: "mem \<Rightarrow> nat \<Rightarrow> nat \<Rightarrow> bool" where
  "user_page m pt v \<longleftrightarrow> v < MAXVA \<and> pte_valid (xl 2 m pt v) \<and> pte_user (xl 2 m pt v) \<and> PTE2PA (xl 2 m pt v) \<noteq> 0"

definition phys :: "mem \<Rightarrow> nat \<Rightarrow> nat \<Rightarrow> nat" where
  "phys m pt v = PTE2PA (xl 2 m pt v) + v mod 4096"

lemma walkaddr_eq:
  "walkaddr pt va s = Inr (if va < MAXVA \<and> pte_valid (xl 2 (mem s) pt va) \<and> pte_user (xl 2 (mem s) pt va)
     then PTE2PA (xl 2 (mem s) pt va) else 0)"
  by (simp add: walkaddr_def walk_def walk_levels_slot xl_def Let_def)

lemma walkaddr_page:
  "user_page (mem s) pt va \<Longrightarrow> walkaddr pt va s = Inr (PTE2PA (xl 2 (mem s) pt va)) \<and> PTE2PA (xl 2 (mem s) pt va) \<noteq> 0"
  by (simp add: walkaddr_eq user_page_def)

lemma slot_page_cong: "va div 4096 = va' div 4096 \<Longrightarrow> slot l m pt va = slot l m pt va'"
proof (induction l arbitrary: pt)
  case (Suc l)
  then show ?case using PX_cong [OF Suc.prems, of "Suc l"] by (simp add: Let_def)
qed (use PX_cong [of va va' 0] in simp)

lemma xl_page_cong: "va div 4096 = va' div 4096 \<Longrightarrow> xl l m pt va = xl l m pt va'"
  using slot_page_cong [of va va' l m pt] by (simp add: xl_def)

lemma PGROUNDDOWN_props:
  "PGROUNDDOWN v \<le> v" "v - PGROUNDDOWN v = v mod 4096" "PGROUNDDOWN v div 4096 = v div 4096"
  "PGROUNDDOWN v mod 4096 = 0"
  by (simp_all add: PGROUNDDOWN_def minus_div_mult_eq_mod)

lemma xl_rounddown: "xl l m pt (PGROUNDDOWN v) = xl l m pt v"
  by (rule xl_page_cong) (simp add: PGROUNDDOWN_props)

lemma user_page_rounddown: "user_page m pt v \<Longrightarrow> user_page m pt (PGROUNDDOWN v)"
  using PGROUNDDOWN_props(1) [of v] by (simp add: user_page_def xl_rounddown)

lemma PTE2PA_aligned: "PTE2PA e mod 4096 = 0"
proof -
  have "PTE2PA e = 4096 * (e div 1024 mod 2 ^ 52)"
    using mult_mod_right [of 4096 "e div 1024" "2 ^ 52"] by (simp add: PTE2PA_def mult.commute)
  then show ?thesis by simp
qed

text \<open>
  The user range \<open>[lo, lo + len)\<close> is mapped to pages that are apart from the table pages
  \<open>A\<close> and from the kernel bytes \<open>S\<close>, different virtual pages to different ones.
\<close>

definition upages :: "mem \<Rightarrow> nat \<Rightarrow> nat set \<Rightarrow> nat set \<Rightarrow> nat \<Rightarrow> bool" where
  "upages m pt A S v \<longleftrightarrow> user_page m pt v \<and> PTE2PA (xl 2 m pt v) \<notin> A \<and>
     page_bytes (PTE2PA (xl 2 m pt v)) \<inter> S = {}"

definition apart :: "mem \<Rightarrow> nat \<Rightarrow> nat \<Rightarrow> nat \<Rightarrow> bool" where
  "apart m pt v w \<longleftrightarrow> v div 4096 = w div 4096 \<or> PTE2PA (xl 2 m pt v) \<noteq> PTE2PA (xl 2 m pt w)"

definition urange :: "mem \<Rightarrow> nat \<Rightarrow> nat set \<Rightarrow> nat set \<Rightarrow> nat \<Rightarrow> nat \<Rightarrow> bool" where
  "urange m pt A S lo len \<longleftrightarrow> pt_wf 2 m pt A \<and> (\<forall>v\<in>{lo..<lo + len}. upages m pt A S v) \<and>
     (\<forall>v\<in>{lo..<lo + len}. \<forall>w\<in>{lo..<lo + len}. apart m pt v w)"

lemma urangeD:
  assumes "urange m pt A S lo len" "lo \<le> v" "v < lo + len"
  shows "user_page m pt v" "phys m pt v \<notin> S" "phys m pt v \<notin> pages A"
proof -
  show "user_page m pt v" using assms by (simp add: urange_def upages_def)
  have in_page: "phys m pt v \<in> page_bytes (PTE2PA (xl 2 m pt v))" by (simp add: phys_def)
  moreover have dis: "PTE2PA (xl 2 m pt v) \<notin> A \<and> page_bytes (PTE2PA (xl 2 m pt v)) \<inter> S = {}"
    using assms by (simp add: urange_def upages_def)
  ultimately show "phys m pt v \<notin> S" by blast
  show "phys m pt v \<notin> pages A"
  proof
    assume "phys m pt v \<in> pages A"
    then obtain q where q: "q \<in> A" "phys m pt v \<in> page_bytes q" by (auto simp: pages_def)
    have "q mod 4096 = 0" using pt_wf_aligned assms(1) q(1) unfolding urange_def by blast
    then show False
      using page_apart [OF PTE2PA_aligned, of q "xl 2 m pt v"] dis q in_page by auto
  qed
qed

lemma phys_inj:
  assumes "urange m pt A S lo len" "lo \<le> v" "v < lo + len" "lo \<le> w" "w < lo + len" "phys m pt v = phys m pt w"
  shows "v = w"
proof -
  let ?p = "PTE2PA (xl 2 m pt v)" and ?q = "PTE2PA (xl 2 m pt w)"
  have "?p = ?q"
  proof (rule ccontr)
    assume "?p \<noteq> ?q"
    then show False using page_apart [OF PTE2PA_aligned PTE2PA_aligned] assms(6)
      mod_less_divisor [of 4096 v] mod_less_divisor [of 4096 w] unfolding phys_def by fastforce
  qed
  moreover from this have "v div 4096 = w div 4096"
    using assms(1-5) apart_def [of m pt v w] by (simp add: urange_def)
  ultimately show ?thesis using assms(6) by (metis add_left_cancel div_mult_mod_eq phys_def)
qed

lemma urange_sub:
  assumes "urange m pt A S lo len" "lo \<le> lo'" "lo' + len' \<le> lo + len"
  shows "urange m pt A S lo' len'"
proof -
  have "{lo'..<lo' + len'} \<subseteq> {lo..<lo + len}" using assms(2,3) by auto
  then show ?thesis using assms(1) unfolding urange_def by blast
qed

text \<open>Writes outside the table pages keep the range and its translation.\<close>

lemma urange_frame:
  assumes "urange m pt A S lo len" "\<And>a. a \<in> pages A \<Longrightarrow> m' a = m a"
  shows "urange m' pt A S lo len" "phys m' pt v = phys m pt v"
proof -
  have wf: "pt_wf 2 m pt A" using assms(1) by (simp add: urange_def)
  have "pt_wf 2 m' pt A" using pt_frame [OF wf assms(2)] by blast
  moreover have x: "xl 2 m' pt w = xl 2 m pt w" for w using pt_frame [OF wf assms(2)] by blast
  moreover have "upages m' pt A S w = upages m pt A S w" "apart m' pt w w' = apart m pt w w'" for w w'
    by (simp_all only: upages_def user_page_def apart_def x)
  ultimately show "urange m' pt A S lo len" using assms(1) by (simp add: urange_def)
  show "phys m' pt v = phys m pt v" by (simp add: phys_def x)
qed

text \<open>The bytes of one chunk are consecutive in physical memory.\<close>

lemma phys_chunk:
  assumes "v mod 4096 + i < 4096"
  shows "phys m pt (v + i) = PTE2PA (xl 2 m pt v) + (v mod 4096 + i)"
proof -
  have e: "v + i = (v mod 4096 + i) + 4096 * (v div 4096)" by simp
  have d: "(v + i) div 4096 = v div 4096" using assms by (subst e) (rule page_div)
  moreover have "(v + i) mod 4096 = v mod 4096 + i" using assms by (subst e) (simp only: mod_mult_self2 mod_less)
  ultimately show ?thesis using xl_page_cong [OF d, of 2 m pt] by (simp add: phys_def)
qed

section \<open>The copy loops\<close>

text \<open>What a finished \<^verbatim>\<open>copyout\<close> has done, and what a finished \<^verbatim>\<open>copyin\<close> has done.\<close>

definition copied_out :: "mem \<Rightarrow> nat \<Rightarrow> nat \<Rightarrow> nat \<Rightarrow> nat \<Rightarrow> mem \<Rightarrow> bool" where
  "copied_out m pt dstva src len m' \<longleftrightarrow> (\<forall>i<len. m' (phys m pt (dstva + i)) = m (src + i)) \<and>
     (\<forall>a. (\<forall>i<len. a \<noteq> phys m pt (dstva + i)) \<longrightarrow> m' a = m a)"

definition copied_in :: "mem \<Rightarrow> nat \<Rightarrow> nat \<Rightarrow> nat \<Rightarrow> nat \<Rightarrow> mem \<Rightarrow> bool" where
  "copied_in m pt dst srcva len m' \<longleftrightarrow> (\<forall>i<len. m' (dst + i) = m (phys m pt (srcva + i))) \<and>
     (\<forall>a. a < dst \<or> dst + len \<le> a \<longrightarrow> m' a = m a)"

text \<open>The chunk up to the next page boundary.\<close>

definition chunk :: "nat \<Rightarrow> nat \<Rightarrow> nat" where
  "chunk v len = min (4096 - (v - PGROUNDDOWN v)) len"

lemma chunk_facts:
  assumes "0 < len"
  shows "0 < chunk v len" "chunk v len \<le> len" "i < chunk v len \<Longrightarrow> v mod 4096 + i < 4096"
    "chunk v len < len \<Longrightarrow> PGROUNDDOWN v + 4096 = v + chunk v len"
proof -
  have "v mod 4096 < 4096" "PGROUNDDOWN v + v mod 4096 = v"
    by (simp_all add: PGROUNDDOWN_def)
  then show "0 < chunk v len" "chunk v len \<le> len" "i < chunk v len \<Longrightarrow> v mod 4096 + i < 4096"
    "chunk v len < len \<Longrightarrow> PGROUNDDOWN v + 4096 = v + chunk v len"
    using assms unfolding chunk_def PGROUNDDOWN_props(2) by linarith+
qed

lemma chunk_phys:
  assumes "0 < len" "i < chunk v len"
  shows "phys m pt (v + i) = PTE2PA (xl 2 m pt v) + (v - PGROUNDDOWN v) + i"
  using phys_chunk [OF chunk_facts(3) [OF assms], of m pt] by (simp add: PGROUNDDOWN_props)

lemma copyout_chunk:
  assumes "0 < len"
  shows "copied_out m pt v src (chunk v len)
    (memmove m (PTE2PA (xl 2 m pt v) + (v - PGROUNDDOWN v)) src (chunk v len))"
  unfolding copied_out_def memmove_apply
proof (intro conjI allI impI)
  fix a
  let ?p = "PTE2PA (xl 2 m pt v) + (v - PGROUNDDOWN v)"
  assume *: "\<forall>i<chunk v len. a \<noteq> phys m pt (v + i)"
  have "\<not> (?p \<le> a \<and> a < ?p + chunk v len)"
  proof
    assume "?p \<le> a \<and> a < ?p + chunk v len"
    then have "a - ?p < chunk v len" "a = ?p + (a - ?p)" by auto
    then show False using * chunk_phys [OF assms, of "a - ?p" v m pt] by metis
  qed
  then show "(if ?p \<le> a \<and> a < ?p + chunk v len then m (src + (a - ?p)) else m a) = m a" by (rule if_not_P)
qed (simp add: chunk_phys [OF assms])

lemma copied_out_append:
  assumes "copied_out m pt d src n m1" "copied_out m1 pt (d + n) (src + n) k m'"
    and "\<And>i. phys m1 pt (d + i) = phys m pt (d + i)"
    and "\<And>i. i < n + k \<Longrightarrow> m1 (src + i) = m (src + i)"
    and "\<And>i j. i < n + k \<Longrightarrow> j < n + k \<Longrightarrow> phys m pt (d + i) = phys m pt (d + j) \<Longrightarrow> i = j"
  shows "copied_out m pt d src (n + k) m'"
  unfolding copied_out_def
proof (intro conjI allI impI)
  fix i assume i: "i < n + k"
  show "m' (phys m pt (d + i)) = m (src + i)"
  proof (cases "i < n")
    case True
    have "phys m pt (d + i) \<noteq> phys m1 pt (d + n + j)" if "j < k" for j
      using assms(5) [of i "n + j"] assms(3) [of "n + j"] that True i by (auto simp: add.assoc)
    then have "m' (phys m pt (d + i)) = m1 (phys m pt (d + i))" using assms(2) by (simp add: copied_out_def)
    then show ?thesis using assms(1) True by (simp add: copied_out_def)
  next
    case False
    then obtain j where j: "i = n + j" "j < k" using i by (auto simp: le_iff_add not_less)
    have "m' (phys m1 pt (d + n + j)) = m1 (src + n + j)" using assms(2) j(2) by (simp add: copied_out_def)
    then show ?thesis using assms(3) [of i] assms(4) [OF i] j(1) by (simp add: add.assoc)
  qed
next
  fix a assume *: "\<forall>i<n + k. a \<noteq> phys m pt (d + i)"
  then have "m1 a = m a" using assms(1) by (simp add: copied_out_def)
  moreover have "a \<noteq> phys m1 pt (d + n + j)" if "j < k" for j
    using * [rule_format, of "n + j"] assms(3) [of "n + j"] that by (simp add: add.assoc)
  ultimately show "m' a = m a" using assms(2) by (simp add: copied_out_def)
qed

lemma copied_out_keeps:
  assumes "copied_out m pt d src n m'" "urange m pt A S d len" "n \<le> len"
  shows "a \<in> S \<Longrightarrow> m' a = m a" "a \<in> pages A \<Longrightarrow> m' a = m a"
proof -
  have "a \<noteq> phys m pt (d + i)" if "i < n" "a \<in> S \<or> a \<in> pages A" for i
    using urangeD(2,3) [OF assms(2), of "d + i"] that assms(3) by auto
  then show "a \<in> S \<Longrightarrow> m' a = m a" "a \<in> pages A \<Longrightarrow> m' a = m a"
    using assms(1) unfolding copied_out_def by blast+
qed

lemma urange_subS: "urange m pt A S lo len \<Longrightarrow> S' \<subseteq> S \<Longrightarrow> urange m pt A S' lo len"
  unfolding urange_def upages_def by blast

lemma copyout_ok:
  assumes "urange (mem s) pt A S dstva len" "{src..<src + len} \<subseteq> S"
  shows "\<exists>m'. copyout pt dstva src len s = Inr (0, s\<lparr>mem := m'\<rparr>) \<and> copied_out (mem s) pt dstva src len m'"
  using assms
proof (induction len arbitrary: dstva src s rule: less_induct)
  case (less len)
  show ?case
  proof (cases "len = 0")
    case True
    then show ?thesis by (intro exI [of _ "mem s"]) (subst copyout.simps, simp add: copied_out_def)
  next
    case False
    let ?m = "mem s" and ?va0 = "PGROUNDDOWN dstva" and ?n = "chunk dstva len"
    let ?m1 = "memmove ?m (PTE2PA (xl 2 ?m pt dstva) + (dstva - ?va0)) src ?n"
    have n: "0 < ?n" "?n \<le> len" "?n < len \<Longrightarrow> ?va0 + 4096 = dstva + ?n" using chunk_facts [of len dstva] False by auto
    have up: "user_page ?m pt ?va0"
      using urangeD(1) [OF less.prems(1), of dstva] False by (simp add: user_page_rounddown)
    have step: "copyout pt dstva src len s = copyout pt (?va0 + 4096) (src + ?n) (len - ?n) (s\<lparr>mem := ?m1\<rparr>)"
      using False walkaddr_page [OF up] by (subst copyout.simps) (simp add: chunk_def xl_rounddown Let_def)
    have c1: "copied_out ?m pt dstva src ?n ?m1" using copyout_chunk False by simp
    note keep = copied_out_keeps [OF c1 less.prems(1) n(2)]
    note fr = urange_frame [OF less.prems(1) keep(2)]
    have "\<exists>m'. copyout pt (?va0 + 4096) (src + ?n) (len - ?n) (s\<lparr>mem := ?m1\<rparr>) = Inr (0, s\<lparr>mem := m'\<rparr>) \<and>
        copied_out ?m1 pt (dstva + ?n) (src + ?n) (len - ?n) m'"
    proof (cases "?n < len")
      case True
      have "urange ?m1 pt A S (dstva + ?n) (len - ?n)" by (rule urange_sub [OF fr(1)]) (use n in auto)
      moreover have "{src + ?n..<src + ?n + (len - ?n)} \<subseteq> S" using less.prems(2) n(2) by (auto simp: subset_iff)
      ultimately show ?thesis using less.IH [of "len - ?n" "s\<lparr>mem := ?m1\<rparr>" "dstva + ?n" "src + ?n"] n False True
        by simp
    next
      case False
      then show ?thesis using n(2) by (subst copyout.simps) (auto simp: copied_out_def)
    qed
    then obtain m' where m': "copyout pt (?va0 + 4096) (src + ?n) (len - ?n) (s\<lparr>mem := ?m1\<rparr>) = Inr (0, s\<lparr>mem := m'\<rparr>)"
      "copied_out ?m1 pt (dstva + ?n) (src + ?n) (len - ?n) m'" by blast
    have "copied_out ?m pt dstva src (?n + (len - ?n)) m'"
    proof (rule copied_out_append [OF c1 m'(2) fr(2)])
      show "?m1 (src + i) = ?m (src + i)" if "i < ?n + (len - ?n)" for i
      proof (rule keep(1))
        have "src + i \<in> {src..<src + len}" using that n(2) by simp
        then show "src + i \<in> S" using less.prems(2) by blast
      qed
      show "i = j" if "i < ?n + (len - ?n)" "j < ?n + (len - ?n)" "phys ?m pt (dstva + i) = phys ?m pt (dstva + j)" for i j
        using phys_inj [OF less.prems(1), of "dstva + i" "dstva + j"] that n(2) by auto
    qed
    then show ?thesis using step m'(1) n(2) by auto
  qed
qed

lemma copyin_chunk:
  assumes "0 < len"
  shows "copied_in m pt dst v (chunk v len)
    (memmove m dst (PTE2PA (xl 2 m pt v) + (v - PGROUNDDOWN v)) (chunk v len))"
  unfolding copied_in_def memmove_apply using chunk_phys [OF assms, of _ v m pt] by auto

lemma copied_in_append:
  assumes "copied_in m pt dst v n m1" "copied_in m1 pt (dst + n) (v + n) k m'"
    and "\<And>i. phys m1 pt (v + i) = phys m pt (v + i)"
    and "\<And>i. i < n + k \<Longrightarrow> m1 (phys m pt (v + i)) = m (phys m pt (v + i))"
  shows "copied_in m pt dst v (n + k) m'"
  unfolding copied_in_def
proof (intro conjI allI impI)
  fix i assume i: "i < n + k"
  show "m' (dst + i) = m (phys m pt (v + i))"
  proof (cases "i < n")
    case True
    then have "m' (dst + i) = m1 (dst + i)" using assms(2) by (simp add: copied_in_def)
    then show ?thesis using assms(1) True by (simp add: copied_in_def)
  next
    case False
    then obtain j where j: "i = n + j" "j < k" using i by (auto simp: le_iff_add not_less)
    then have "m' (dst + i) = m1 (phys m1 pt (v + i))" using assms(2) by (simp add: copied_in_def add.assoc)
    then show ?thesis using assms(3,4) i by simp
  qed
qed (use assms(1,2) in \<open>auto simp: copied_in_def\<close>)

lemma copyin_ok:
  assumes "urange (mem s) pt A S srcva len" "{dst..<dst + len} \<subseteq> S" "{dst..<dst + len} \<inter> pages A = {}"
  shows "\<exists>m'. copyin pt dst srcva len s = Inr (0, s\<lparr>mem := m'\<rparr>) \<and> copied_in (mem s) pt dst srcva len m'"
  using assms
proof (induction len arbitrary: dst srcva s rule: less_induct)
  case (less len)
  show ?case
  proof (cases "len = 0")
    case True
    then show ?thesis by (intro exI [of _ "mem s"]) (subst copyin.simps, simp add: copied_in_def)
  next
    case False
    let ?m = "mem s" and ?va0 = "PGROUNDDOWN srcva" and ?n = "chunk srcva len"
    let ?m1 = "memmove ?m dst (PTE2PA (xl 2 ?m pt srcva) + (srcva - ?va0)) ?n"
    have n: "0 < ?n" "?n \<le> len" "?n < len \<Longrightarrow> ?va0 + 4096 = srcva + ?n" using chunk_facts [of len srcva] False by auto
    have up: "user_page ?m pt ?va0"
      using urangeD(1) [OF less.prems(1), of srcva] False by (simp add: user_page_rounddown)
    have step: "copyin pt dst srcva len s = copyin pt (dst + ?n) (?va0 + 4096) (len - ?n) (s\<lparr>mem := ?m1\<rparr>)"
      using False walkaddr_page [OF up] by (subst copyin.simps) (simp add: chunk_def xl_rounddown Let_def)
    have c1: "copied_in ?m pt dst srcva ?n ?m1" using copyin_chunk False by simp
    have keep: "?m1 a = ?m a" if "a \<notin> {dst..<dst + len}" for a
      using c1 that n(2) by (auto simp: copied_in_def)
    have keepA: "?m1 a = ?m a" if "a \<in> pages A" for a using keep less.prems(3) that by blast
    note fr = urange_frame [OF less.prems(1) keepA]
    have "\<exists>m'. copyin pt (dst + ?n) (?va0 + 4096) (len - ?n) (s\<lparr>mem := ?m1\<rparr>) = Inr (0, s\<lparr>mem := m'\<rparr>) \<and>
        copied_in ?m1 pt (dst + ?n) (srcva + ?n) (len - ?n) m'"
    proof (cases "?n < len")
      case True
      have "urange ?m1 pt A S (srcva + ?n) (len - ?n)" by (rule urange_sub [OF fr(1)]) (use n in auto)
      moreover have "{dst + ?n..<dst + ?n + (len - ?n)} \<subseteq> {dst..<dst + len}" using n(2) by auto
      then have "{dst + ?n..<dst + ?n + (len - ?n)} \<subseteq> S" "{dst + ?n..<dst + ?n + (len - ?n)} \<inter> pages A = {}"
        using less.prems(2,3) by blast+
      ultimately show ?thesis using less.IH [of "len - ?n" "s\<lparr>mem := ?m1\<rparr>" "srcva + ?n" "dst + ?n"] n False True
        by simp
    next
      case False
      then show ?thesis using n(2) by (subst copyin.simps) (auto simp: copied_in_def)
    qed
    then obtain m' where m': "copyin pt (dst + ?n) (?va0 + 4096) (len - ?n) (s\<lparr>mem := ?m1\<rparr>) = Inr (0, s\<lparr>mem := m'\<rparr>)"
      "copied_in ?m1 pt (dst + ?n) (srcva + ?n) (len - ?n) m'" by blast
    have "copied_in ?m pt dst srcva (?n + (len - ?n)) m'"
    proof (rule copied_in_append [OF c1 m'(2) fr(2)])
      show "?m1 (phys ?m pt (srcva + i)) = ?m (phys ?m pt (srcva + i))" if "i < ?n + (len - ?n)" for i
      proof (rule keep)
        have "phys ?m pt (srcva + i) \<notin> S" using urangeD(2) [OF less.prems(1), of "srcva + i"] that n(2) by simp
        then show "phys ?m pt (srcva + i) \<notin> {dst..<dst + len}" using less.prems(2) by blast
      qed
    qed
    then show ?thesis using step m'(1) n(2) by auto
  qed
qed

section \<open>Strings\<close>

lemma copyinstr_page_writes:
  "copyinstr_page m p dst n mx = (m', g, dst', mx') \<Longrightarrow> n \<le> mx \<Longrightarrow>
   dst \<le> dst' \<and> dst' + mx' = dst + mx \<and> (g \<longrightarrow> 0 < mx' \<and> m' dst' = 0) \<and>
   (\<forall>a. dst \<le> a \<and> a < dst' \<longrightarrow> m' a \<noteq> 0) \<and> (\<forall>a. a < dst \<or> dst + mx \<le> a \<longrightarrow> m' a = m a)"
proof (induction n arbitrary: m p dst mx)
  case (Suc n)
  show ?case
  proof (cases "m p = 0")
    case False
    have eq: "copyinstr_page (m(dst := m p)) (p + 1) (dst + 1) n (mx - 1) = (m', g, dst', mx')" "n \<le> mx - 1"
      using Suc.prems False by auto
    have "m' dst = m p" using Suc.IH [OF eq] by (auto dest: spec [of _ dst])
    with Suc.IH [OF eq] Suc.prems(2) False show ?thesis
      by (auto simp: le_Suc_eq Suc_le_eq dest: le_neq_implies_less)
  qed (use Suc.prems in auto)
qed auto

lemma copyinstr_loop_writes:
  "\<exists>r s'. copyinstr_loop pt dst srcva mx s = Inr (r, s') \<and> (r = 0 \<or> r = -1) \<and>
     (\<forall>a. a < dst \<or> dst + mx \<le> a \<longrightarrow> mem s' a = mem s a) \<and>
     (r = 0 \<longrightarrow> (\<exists>k<mx. mem s' (dst + k) = 0 \<and> (\<forall>j<k. mem s' (dst + j) \<noteq> 0)))"
proof (induction mx arbitrary: dst srcva s rule: less_induct)
  case (less mx)
  let ?va0 = "PGROUNDDOWN srcva" and ?n = "chunk srcva mx"
  obtain pa0 where pa: "walkaddr pt ?va0 s = Inr pa0" by (simp add: walkaddr_eq)
  show ?case
  proof (cases "mx = 0 \<or> pa0 = 0")
    case True
    then show ?thesis using pa
      by (intro exI [of _ "-1"] exI [of _ s]) (subst copyinstr_loop.simps, auto)
  next
    case False
    obtain m g dst' mx' where p: "copyinstr_page (mem s) (pa0 + (srcva - ?va0)) dst ?n mx = (m, g, dst', mx')"
      by (metis prod_cases4)
    have n: "0 < ?n" "?n \<le> mx" using chunk_facts [of mx srcva] False by auto
    note w = copyinstr_page_writes [OF p n(2)]
    have step: "copyinstr_loop pt dst srcva mx s = (if g then Inr (0, s\<lparr>mem := m\<rparr>)
        else copyinstr_loop pt dst' (?va0 + 4096) mx' (s\<lparr>mem := m\<rparr>))"
      using pa False p by (subst copyinstr_loop.simps) (simp add: chunk_def [symmetric] Let_def)
    show ?thesis
    proof (cases g)
      case True
      then have "\<exists>k<mx. m (dst + k) = 0 \<and> (\<forall>j<k. m (dst + j) \<noteq> 0)"
        using w by (intro exI [of _ "dst' - dst"]) auto
      then show ?thesis using step True w by (intro exI [of _ 0] exI [of _ "s\<lparr>mem := m\<rparr>"]) auto
    next
      case False
      have "mx' < mx" using copyinstr_page_max [OF p n(2) False] n by auto
      from less.IH [OF this, of dst' "?va0 + 4096" "s\<lparr>mem := m\<rparr>"] obtain r s' where
        h: "copyinstr_loop pt dst' (?va0 + 4096) mx' (s\<lparr>mem := m\<rparr>) = Inr (r, s')" "r = 0 \<or> r = -1"
          "\<forall>a. a < dst' \<or> dst' + mx' \<le> a \<longrightarrow> mem s' a = m a"
          "r = 0 \<longrightarrow> (\<exists>k<mx'. mem s' (dst' + k) = 0 \<and> (\<forall>j<k. mem s' (dst' + j) \<noteq> 0))" by auto
      have "\<exists>k<mx. mem s' (dst + k) = 0 \<and> (\<forall>j<k. mem s' (dst + j) \<noteq> 0)" if r0: "r = 0"
      proof -
        obtain k where k: "k < mx'" "mem s' (dst' + k) = 0" "\<forall>j<k. mem s' (dst' + j) \<noteq> 0" using h(4) r0 by blast
        have "mem s' (dst + j) \<noteq> 0" if "j < dst' - dst + k" for j
        proof (cases "dst + j < dst'")
          case False
          then have "dst + j = dst' + (dst + j - dst')" "dst + j - dst' < k" using that w by auto
          then show ?thesis using k(3) by metis
        qed (use h(3) w in auto)
        then show ?thesis using k(1,2) w by (intro exI [of _ "dst' - dst + k"]) auto
      qed
      then show ?thesis using step False h(1-3) w by (intro exI [of _ r] exI [of _ s']) auto
    qed
  qed
qed

section \<open>Properties\<close>

text \<open>
  C11: what the kernel copies out to a mapped user range it reads back unchanged: a
  \<^verbatim>\<open>copyout\<close> of \<open>len\<close> bytes followed by a \<^verbatim>\<open>copyin\<close> of the same
  user range, both across any page boundaries, return 0 and leave the source bytes at the
  destination.
\<close>

theorem copyout_copyin:
  assumes "urange (mem s) pt A S va len" "{src..<src + len} \<subseteq> S" "{dst..<dst + len} \<subseteq> S"
    "{dst..<dst + len} \<inter> pages A = {}"
  shows "\<exists>m1 m2. copyout pt va src len s = Inr (0, s\<lparr>mem := m1\<rparr>) \<and>
    copyin pt dst va len (s\<lparr>mem := m1\<rparr>) = Inr (0, s\<lparr>mem := m2\<rparr>) \<and>
    (\<forall>i<len. m2 (dst + i) = mem s (src + i)) \<and>
    (\<forall>a. a \<in> S \<and> a \<notin> {dst..<dst + len} \<longrightarrow> m2 a = mem s a)"
proof -
  obtain m1 where m1: "copyout pt va src len s = Inr (0, s\<lparr>mem := m1\<rparr>)" "copied_out (mem s) pt va src len m1"
    using copyout_ok [OF assms(1,2)] by blast
  note keep = copied_out_keeps [OF m1(2) assms(1) order_refl]
  note fr = urange_frame [OF assms(1) keep(2)]
  obtain m2 where m2: "copyin pt dst va len (s\<lparr>mem := m1\<rparr>) = Inr (0, s\<lparr>mem := m2\<rparr>)"
    "copied_in m1 pt dst va len m2"
    using copyin_ok [of "s\<lparr>mem := m1\<rparr>", OF _ assms(3,4)] fr(1) by auto
  have "\<forall>i<len. m2 (dst + i) = mem s (src + i)"
    using m1(2) m2(2) fr(2) by (simp add: copied_out_def copied_in_def)
  moreover have "\<forall>a. a \<in> S \<and> a \<notin> {dst..<dst + len} \<longrightarrow> m2 a = mem s a"
    using keep(1) m2(2) by (auto simp: copied_in_def)
  ultimately show ?thesis using m1(1) m2(1) by blast
qed

lemma ptdemo_urange: "urange ptdemo_mem 4096 {4096, 8192, 12288} {20480..<20580} 100 40"
proof -
  have x: "xl 2 ptdemo_mem 4096 v = PA2PTE 16384 OR 31" if "v < 4096" for v
    using ptdemo_xl [of v] that by simp
  have "pte_valid (PA2PTE 16384 OR 31)" by (simp add: pte_valid_iff even_or_iff)
  moreover have "pte_user (PA2PTE 16384 OR 31)"
    by (simp add: pte_user_def PA2PTE_def)
  ultimately show ?thesis using ptdemo_wf x
    by (auto simp: urange_def upages_def user_page_def apart_def page_bytes_def)
qed

theorem copyout_copyin_witness:
  "\<exists>m1 m2. copyout 4096 100 20480 40 demo_km = Inr (0, demo_km\<lparr>mem := m1\<rparr>) \<and>
     copyin 4096 20530 100 40 (demo_km\<lparr>mem := m1\<rparr>) = Inr (0, demo_km\<lparr>mem := m2\<rparr>) \<and>
     (\<forall>i<40. m2 (20530 + i) = ptdemo_mem (20480 + i))"
proof -
  have "{20530..<20530 + 40} \<inter> pages {4096, 8192, 12288} = {}" by (auto simp: pages_iff)
  moreover have "urange (mem demo_km) 4096 {4096, 8192, 12288} {20480..<20580} 100 40"
    using ptdemo_urange by (simp add: demo_km_def)
  ultimately have "\<exists>m1 m2. copyout 4096 100 20480 40 demo_km = Inr (0, demo_km\<lparr>mem := m1\<rparr>) \<and>
     copyin 4096 20530 100 40 (demo_km\<lparr>mem := m1\<rparr>) = Inr (0, demo_km\<lparr>mem := m2\<rparr>) \<and>
     (\<forall>i<40. m2 (20530 + i) = mem demo_km (20480 + i))"
    using copyout_copyin [of demo_km 4096 "{4096, 8192, 12288}" "{20480..<20580}" 100 40 20480 20530] by auto
  then show ?thesis by (simp add: demo_km_def)
qed

text \<open>
  C36: \<^verbatim>\<open>copyinstr\<close> always returns, with 0 or -1, and writes only the \<open>max\<close> bytes of
  the destination; when it returns 0 the destination holds a NUL-terminated string shorter than
  \<open>max\<close>.
\<close>

theorem copyinstr_terminated:
  "\<exists>r s'. copyinstr pt dst srcva mx s = Inr (r, s') \<and> (r = 0 \<or> r = -1) \<and>
     (\<forall>a. a < dst \<or> dst + mx \<le> a \<longrightarrow> mem s' a = mem s a) \<and>
     (r = 0 \<longrightarrow> (\<exists>xs. length xs < mx \<and> cstr (mem s') dst xs))"
proof -
  obtain r s' where h: "copyinstr pt dst srcva mx s = Inr (r, s')" "r = 0 \<or> r = -1"
    "\<forall>a. a < dst \<or> dst + mx \<le> a \<longrightarrow> mem s' a = mem s a"
    "r = 0 \<longrightarrow> (\<exists>k<mx. mem s' (dst + k) = 0 \<and> (\<forall>j<k. mem s' (dst + j) \<noteq> 0))"
    using copyinstr_loop_writes [of pt dst srcva mx s] unfolding copyinstr_def by blast
  have "\<exists>xs. length xs < mx \<and> cstr (mem s') dst xs" if r0: "r = 0"
  proof -
    obtain k where k: "k < mx" "mem s' (dst + k) = 0" "\<forall>j<k. mem s' (dst + j) \<noteq> 0" using h(4) r0 by blast
    have "cstr (mem s') dst (map (\<lambda>i. mem s' (dst + i)) [0..<k])"
      using k(2,3) by (auto simp: cstr_def)
    then show ?thesis using k(1) by (intro exI [of _ "map (\<lambda>i. mem s' (dst + i)) [0..<k]"]) simp
  qed
  then show ?thesis using h(1-3) by blast
qed

theorem copyinstr_terminated_witness:
  "\<exists>r s'. copyinstr 4096 20480 100 16 demo_km = Inr (r, s') \<and> (r = 0 \<or> r = -1) \<and> mem s' 20496 = mem demo_km 20496"
proof -
  obtain r s' where "copyinstr 4096 20480 100 16 demo_km = Inr (r, s')" "r = 0 \<or> r = -1"
    "\<forall>a. a < 20480 \<or> 20480 + 16 \<le> a \<longrightarrow> mem s' a = mem demo_km a"
    using copyinstr_terminated [of 4096 20480 100 16 demo_km] by blast
  then show ?thesis by (intro exI [of _ r] exI [of _ s']) simp
qed

end
