(* ===== verification/Ring.thy ===== *)
theory Ring
  imports Prelude
begin

text \<open>
  The ring buffers of the kernel (pipes, console input, UART output) keep free-running unsigned
  counters and index the array modulo its size. This theory has the arithmetic they share, the
  bytes between two counters as a list, and the contract of a bounded queue that each buffer meets.
\<close>

section \<open>Counters that wrap\<close>

lemma unat_plus_of_nat: "unat (w + word_of_nat k :: 'a::len word) = (unat w + k) mod 2 ^ LENGTH('a)"
  by (simp add: unat_word_ariths(1) unat_of_nat take_bit_eq_mod mod_simps)

text \<open>The size of the buffer divides the modulus of the counters, so positions do not jump.\<close>

lemma ring_pos:
  assumes "N dvd 2 ^ LENGTH('a)"
  shows "unat (w + word_of_nat k :: 'a::len word) mod N = (unat w + k) mod N"
  using assms by (simp add: unat_plus_of_nat mod_mod_cancel)

lemma ring_pos_inj:
  assumes "N dvd 2 ^ LENGTH('a)" "j < N" "k < N"
    "unat (w + word_of_nat j :: 'a::len word) mod N = unat (w + word_of_nat k) mod N"
  shows "j = k"
proof -
  have "(unat w + j) mod N = (unat w + k) mod N" using assms(4) ring_pos [OF assms(1)] by simp
  then have "int N dvd (int (unat w) + int j) - (int (unat w) + int k)"
    by (metis mod_eq_dvd_iff of_nat_add of_nat_mod)
  then have "int N dvd int j - int k" by simp
  then show ?thesis using assms(2,3) by (metis mod_eq_dvd_iff mod_less of_nat_eq_iff of_nat_mod)
qed

section \<open>The bytes between two counters\<close>

definition ring_len :: "'a::len word \<Rightarrow> 'a word \<Rightarrow> nat" where
  "ring_len r w = unat (w - r)"

definition ring_bytes :: "nat \<Rightarrow> 'b list \<Rightarrow> 'a::len word \<Rightarrow> 'a word \<Rightarrow> 'b list" where
  "ring_bytes N d r w = map (\<lambda>k. d ! (unat (r + word_of_nat k) mod N)) [0..<ring_len r w]"

lemma length_ring_bytes [simp]: "length (ring_bytes N d r w) = ring_len r w"
  by (simp add: ring_bytes_def)

lemma ring_len_eq: "w = r + word_of_nat (ring_len r w)"
  by (simp add: ring_len_def)

lemma ring_len_0 [simp]: "ring_len r w = 0 \<longleftrightarrow> r = w"
  by (auto simp: ring_len_def unat_eq_0)

lemma ring_len_Suc:
  assumes "ring_len r w < N" "N dvd 2 ^ LENGTH('a)" "N < 2 ^ LENGTH('a)"
  shows "ring_len r (w + 1) = Suc (ring_len r (w :: 'a::len word))"
proof -
  have "Suc (unat (w - r)) < 2 ^ LENGTH('a)" using assms by (simp add: ring_len_def)
  moreover have "w + 1 - r = (w - r) + word_of_nat 1" by simp
  ultimately show ?thesis unfolding ring_len_def using unat_plus_of_nat [of "w - r" 1]
    by (metis Suc_eq_plus1 mod_less)
qed

lemma ring_len_pred:
  assumes "0 < ring_len r w"
  shows "ring_len (r + 1) w = ring_len r (w :: 'a::len word) - 1"
proof -
  have "w - r \<noteq> 0" using assms by (auto simp: ring_len_def)
  then have "unat (w - r - 1) = unat (w - r) - 1" by (rule unat_minus_one)
  moreover have "w - (r + 1) = w - r - 1" by (simp add: algebra_simps)
  ultimately show ?thesis unfolding ring_len_def by metis
qed

lemma ring_put:
  assumes "ring_len r w < N" "N dvd 2 ^ LENGTH('a)" "N < 2 ^ LENGTH('a)" "length d = N"
  shows "ring_bytes N (d[unat w mod N := b]) r (w + 1) = ring_bytes N d r (w :: 'a::len word) @ [b]"
proof -
  let ?n = "ring_len r w"
  have w: "unat w mod N = unat (r + word_of_nat ?n) mod N" using ring_len_eq [of w r] by simp
  have "N > 0" using assms(1) by simp
  then have lt: "unat w mod N < length d" using assms(4) by simp
  have "d[unat w mod N := b] ! (unat (r + word_of_nat k) mod N) = d ! (unat (r + word_of_nat k) mod N)"
    if "k < ?n" for k
    using ring_pos_inj [OF assms(2), of k ?n r] that assms(1) w by (metis less_trans nat_neq_iff nth_list_update_neq)
  moreover have "d[unat w mod N := b] ! (unat (r + word_of_nat ?n) mod N) = b"
    using lt w by simp
  ultimately show ?thesis
    by (simp add: ring_bytes_def ring_len_Suc [OF assms(1-3)])
qed

lemma ring_get:
  assumes "0 < ring_len r w"
  shows "ring_bytes N d r (w :: 'a::len word) = d ! (unat r mod N) # ring_bytes N d (r + 1) w"
proof -
  obtain n where n: "ring_len r w = Suc n" using assms by (cases "ring_len r w") auto
  have "ring_bytes N d (r + 1) w = map (\<lambda>k. d ! (unat (r + word_of_nat (Suc k)) mod N)) [0..<n]"
    using ring_len_pred [OF assms] n by (simp add: ring_bytes_def add.assoc)
  then show ?thesis
    by (simp add: ring_bytes_def n upt_conv_Cons map_Suc_upt [symmetric] comp_def del: upt_Suc)
qed

lemma ring_len_add:
  assumes "ring_len r w + ring_len w e < 2 ^ LENGTH('a)"
  shows "ring_len r (e :: 'a::len word) = ring_len r w + ring_len w e"
proof -
  have "e - r = (w - r) + word_of_nat (unat (e - w))" by simp
  then show ?thesis using unat_plus_of_nat [of "w - r" "unat (e - w)"] assms by (simp add: ring_len_def)
qed

lemma ring_append:
  assumes "ring_len r w + ring_len w e < 2 ^ LENGTH('a)"
  shows "ring_bytes N d r (e :: 'a::len word) = ring_bytes N d r w @ ring_bytes N d w e"
proof -
  have pos: "r + (word_of_nat (ring_len r w) + word_of_nat k) = w + word_of_nat k" for k
    using ring_len_eq [of w r] by (metis add.assoc)
  have "map (\<lambda>k. d ! (unat (r + word_of_nat k) mod N)) [ring_len r w..<ring_len r w + ring_len w e] =
      ring_bytes N d w e"
    unfolding ring_bytes_def by (intro nth_equalityI) (simp_all add: pos)
  then show ?thesis using ring_len_add [OF assms]
    by (simp add: ring_bytes_def upt_add_eq_append [of 0 "ring_len r w" "ring_len w e", simplified])
qed

lemma ring_len_back: "r \<noteq> w \<Longrightarrow> ring_len r (w - 1) = ring_len r (w :: 'a::len word) - 1"
proof -
  assume "r \<noteq> w"
  then have "w - r \<noteq> 0" by auto
  then have "unat (w - r - 1) = unat (w - r) - 1" by (rule unat_minus_one)
  moreover have "w - 1 - r = w - r - 1" by (simp add: algebra_simps)
  ultimately show ?thesis unfolding ring_len_def by metis
qed

text \<open>Stepping the upper counter back drops the last byte, which is the one at that position.\<close>

lemma ring_back:
  assumes "r \<noteq> w"
  shows "ring_bytes N d r w = ring_bytes N d r (w - 1) @ [d ! (unat (w - 1 :: 'a::len word) mod N)]"
proof -
  obtain n where n: "ring_len r w = Suc n" using assms ring_len_0 by (metis not0_implies_Suc)
  then have "ring_len r (w - 1) = n" using ring_len_back [OF assms] by simp
  moreover have "w - 1 = r + word_of_nat n" using ring_len_eq [of w r] n by (simp add: algebra_simps)
  ultimately show ?thesis by (simp add: ring_bytes_def n)
qed

section \<open>The contract of a bounded queue\<close>

locale bounded_queue =
  fixes inv :: "'q \<Rightarrow> bool"
    and bytes :: "'q \<Rightarrow> 'b list"
    and cap :: nat
    and put :: "'b \<Rightarrow> 'q \<Rightarrow> 'q"
    and get :: "'q \<Rightarrow> 'b \<times> 'q"
  assumes put_inv: "inv q \<Longrightarrow> length (bytes q) < cap \<Longrightarrow> inv (put b q)"
    and put_bytes: "inv q \<Longrightarrow> length (bytes q) < cap \<Longrightarrow> bytes (put b q) = bytes q @ [b]"
    and get_inv: "inv q \<Longrightarrow> bytes q \<noteq> [] \<Longrightarrow> inv (snd (get q))"
    and get_bytes: "inv q \<Longrightarrow> bytes q \<noteq> [] \<Longrightarrow> bytes q = fst (get q) # bytes (snd (get q))"
begin

fun get_n :: "nat \<Rightarrow> 'q \<Rightarrow> 'b list \<times> 'q" where
  "get_n 0 q = ([], q)"
| "get_n (Suc n) q = (let (b, q1) = get q; (bs, q2) = get_n n q1 in (b # bs, q2))"

lemma put_all:
  "inv q \<Longrightarrow> length (bytes q) + length xs \<le> cap \<Longrightarrow> inv (fold put xs q) \<and> bytes (fold put xs q) = bytes q @ xs"
proof (induction xs arbitrary: q)
  case (Cons x xs)
  have "inv (put x q)" "bytes (put x q) = bytes q @ [x]"
    using put_inv put_bytes Cons.prems by auto
  then show ?case using Cons.IH [of "put x q"] Cons.prems by simp
qed simp

lemma get_all:
  "inv q \<Longrightarrow> n \<le> length (bytes q) \<Longrightarrow> \<exists>q'. get_n n q = (take n (bytes q), q') \<and> inv q' \<and> bytes q' = drop n (bytes q)"
proof (induction n arbitrary: q)
  case (Suc n)
  then have ne: "bytes q \<noteq> []" by auto
  have b: "bytes q = fst (get q) # bytes (snd (get q))" "inv (snd (get q))"
    using get_bytes get_inv Suc.prems ne by blast+
  then obtain q' where "get_n n (snd (get q)) = (take n (bytes (snd (get q))), q')" "inv q'"
    "bytes q' = drop n (bytes (snd (get q)))"
    using Suc.IH [of "snd (get q)"] Suc.prems(2) by (metis Suc_le_mono length_Cons)
  then show ?case using b(1) by (cases "get q") (metis (mono_tags) case_prod_conv drop_Suc_Cons fst_conv get_n.simps(2) snd_conv take_Suc_Cons)
qed simp

text \<open>First in, first out: what is put into a queue with room comes out in the same order.\<close>

lemma fifo:
  assumes "inv q" "bytes q = []" "length xs \<le> cap"
  shows "\<exists>q'. get_n (length xs) (fold put xs q) = (xs, q') \<and> bytes q' = []"
  using put_all [of q xs] get_all [of "fold put xs q" "length xs"] assms by auto

end

end
