(* ===== verification/Pipe.thy ===== *)
theory Pipe
  imports Sched Copy Ring
begin

text \<open>
  \<^verbatim>\<open>kernel/pipe.c\<close>: a ring buffer of 512 bytes with two free-running 32-bit counters.
  The pipes of the system are a map from the address of their page to their contents. A call that
  has to wait goes to sleep in the middle of its loop: the model returns \<open>Sleeps i\<close> with the
  number of bytes it has moved, and continues in the loop when the process is resumed.
  \<^verbatim>\<open>pipealloc\<close> works on open files and is in the theory \<open>File\<close>.
\<close>

abbreviation (input) PIPESIZE :: nat where "PIPESIZE \<equiv> 512"

record pipe =
  pdata :: "u8 list"
  nread :: u32
  nwrite :: u32
  readopen :: bool
  writeopen :: bool

record pst = kst +
  pipes :: "nat \<Rightarrow> pipe"

datatype outcome = Returns int | Sleeps int

definition pipe_upd :: "nat \<Rightarrow> (pipe \<Rightarrow> pipe) \<Rightarrow> 'z pst_scheme \<Rightarrow> 'z pst_scheme" where
  "pipe_upd pi f s = s\<lparr>pipes := (pipes s)(pi := f (pipes s pi))\<rparr>"

text \<open>\<^verbatim>\<open>pi->data[pi->nwrite++ % PIPESIZE] = ch\<close> and \<^verbatim>\<open>ch = pi->data[pi->nread++ % PIPESIZE]\<close>.\<close>

definition pipe_put :: "u8 \<Rightarrow> pipe \<Rightarrow> pipe" where
  "pipe_put ch p = p\<lparr>pdata := (pdata p)[unat (nwrite p) mod PIPESIZE := ch], nwrite := nwrite p + 1\<rparr>"

definition pipe_get :: "pipe \<Rightarrow> u8 \<times> pipe" where
  "pipe_get p = (pdata p ! (unat (nread p) mod PIPESIZE), p\<lparr>nread := nread p + 1\<rparr>)"

definition pipe_full :: "pipe \<Rightarrow> bool" where
  "pipe_full p \<longleftrightarrow> nwrite p = nread p + 512"

definition pipe_empty :: "pipe \<Rightarrow> bool" where
  "pipe_empty p \<longleftrightarrow> nread p = nwrite p"

definition pipeclose :: "nat \<Rightarrow> bool \<Rightarrow> 'z pst_scheme \<Rightarrow> 'z pst_scheme res" where
  "pipeclose pi writable s =
     bnd (if writable
          then wakeup (ChPipeRead pi) (pipe_upd pi (\<lambda>p. p\<lparr>writeopen := False\<rparr>) s)
          else wakeup (ChPipeWrite pi) (pipe_upd pi (\<lambda>p. p\<lparr>readopen := False\<rparr>) s)) (\<lambda>s1.
     if \<not> readopen (pipes s1 pi) \<and> \<not> writeopen (pipes s1 pi) then kfree pi s1 else Inr s1)"

text \<open>The loop of \<^verbatim>\<open>pipewrite\<close> from byte \<open>i\<close> on.\<close>

function pipewrite_loop :: "nat \<Rightarrow> nat \<Rightarrow> int \<Rightarrow> int \<Rightarrow> 'z pst_scheme \<Rightarrow> (outcome \<times> 'z pst_scheme) res" where
  "pipewrite_loop pi addr n i s =
     bnd (myproc s) (\<lambda>pr.
     if i < n then
       if \<not> readopen (pipes s pi) \<or> killed (procs s ! pr) \<noteq> 0 then Inr (Returns (-1), s)
       else if pipe_full (pipes s pi) then
         bnd (wakeup (ChPipeRead pi) s) (\<lambda>s1.
         bnd (sleep (ChPipeWrite pi) s1) (\<lambda>s2. Inr (Sleeps i, s2)))
       else
         bnd (copyin_list (pagetable (procs s ! pr)) (addr + nat i) 1 s) (\<lambda>(r, bs).
         if r = -1 then bnd (wakeup (ChPipeRead pi) s) (\<lambda>s1. Inr (Returns i, s1))
         else pipewrite_loop pi addr n (i + 1) (pipe_upd pi (pipe_put (bs ! 0)) s))
     else bnd (wakeup (ChPipeRead pi) s) (\<lambda>s1. Inr (Returns i, s1)))"
  by pat_completeness auto
termination
  by (relation "measure (\<lambda>(pi, addr, n, i, s). nat (n - i))") auto

definition pipewrite :: "nat \<Rightarrow> nat \<Rightarrow> int \<Rightarrow> 'z pst_scheme \<Rightarrow> (outcome \<times> 'z pst_scheme) res" where
  "pipewrite pi addr n s = pipewrite_loop pi addr n 0 s"

definition pipewrite_resume :: "nat \<Rightarrow> nat \<Rightarrow> int \<Rightarrow> int \<Rightarrow> 'z pst_scheme \<Rightarrow> (outcome \<times> 'z pst_scheme) res" where
  "pipewrite_resume pi addr n i s = bnd (sleep_resume s) (pipewrite_loop pi addr n i)"

text \<open>The copying loop of \<^verbatim>\<open>piperead\<close>.\<close>

function piperead_loop :: "nat \<Rightarrow> nat \<Rightarrow> nat \<Rightarrow> int \<Rightarrow> int \<Rightarrow> 'z pst_scheme \<Rightarrow> (int \<times> 'z pst_scheme) res" where
  "piperead_loop pi pt addr n i s =
     (if i < n then
        if pipe_empty (pipes s pi) then Inr (i, s)
        else
          let (ch, p) = pipe_get (pipes s pi) in
          bnd (copyout_list pt (addr + nat i) [ch] (pipe_upd pi (\<lambda>_. p) s)) (\<lambda>(r, s1).
          if r = -1 then Inr (i, s1) else piperead_loop pi pt addr n (i + 1) s1)
      else Inr (i, s))"
  by pat_completeness auto
termination
  by (relation "measure (\<lambda>(pi, pt, addr, n, i, s). nat (n - i))") auto

definition piperead :: "nat \<Rightarrow> nat \<Rightarrow> int \<Rightarrow> 'z pst_scheme \<Rightarrow> (outcome \<times> 'z pst_scheme) res" where
  "piperead pi addr n s =
     bnd (myproc s) (\<lambda>pr.
     if pipe_empty (pipes s pi) \<and> writeopen (pipes s pi) then
       if killed (procs s ! pr) \<noteq> 0 then Inr (Returns (-1), s)
       else bnd (sleep (ChPipeRead pi) s) (\<lambda>s1. Inr (Sleeps 0, s1))
     else
       bnd (piperead_loop pi (pagetable (procs s ! pr)) addr n 0 s) (\<lambda>(i, s1).
       bnd (wakeup (ChPipeWrite pi) s1) (\<lambda>s2. Inr (Returns i, s2))))"

definition piperead_resume :: "nat \<Rightarrow> nat \<Rightarrow> int \<Rightarrow> 'z pst_scheme \<Rightarrow> (outcome \<times> 'z pst_scheme) res" where
  "piperead_resume pi addr n s = bnd (sleep_resume s) (piperead pi addr n)"

declare pipewrite_loop.simps [simp del] piperead_loop.simps [simp del]

section \<open>The ring buffer as a queue\<close>

text \<open>
  The bytes between the two counters. The counters wrap at \<open>2 ^ 32\<close>, a multiple of the size of
  the buffer, so the position of a byte does not jump when they do.
\<close>

definition pipe_bytes :: "pipe \<Rightarrow> u8 list" where
  "pipe_bytes p = ring_bytes 512 (pdata p) (nread p) (nwrite p)"

definition pipe_inv :: "pipe \<Rightarrow> bool" where
  "pipe_inv p \<longleftrightarrow> length (pdata p) = 512 \<and> length (pipe_bytes p) \<le> 512"

lemma pipe_full_iff: "pipe_full p \<longleftrightarrow> length (pipe_bytes p) = 512"
proof -
  have "nwrite p = nread p + 512 \<longleftrightarrow> nwrite p - nread p = 512" by (auto simp: algebra_simps)
  also have "\<dots> \<longleftrightarrow> unat (nwrite p - nread p) = unat (512 :: u32)" by (simp only: word_unat_eq_iff)
  finally show ?thesis by (simp add: pipe_full_def pipe_bytes_def ring_len_def)
qed

lemma pipe_empty_iff: "pipe_empty p \<longleftrightarrow> pipe_bytes p = []"
  using ring_len_0 [of "nread p" "nwrite p"]
  by (auto simp: pipe_empty_def pipe_bytes_def simp flip: length_0_conv)

interpretation pq: bounded_queue pipe_inv pipe_bytes 512 pipe_put pipe_get
proof
  fix p b assume p: "pipe_inv p" "length (pipe_bytes p) < 512"
  have dvd: "512 dvd (2 :: nat) ^ LENGTH(32)" "512 < (2 :: nat) ^ LENGTH(32)" by simp_all
  show "pipe_bytes (pipe_put b p) = pipe_bytes p @ [b]"
    using ring_put [OF _ dvd, of "nread p" "nwrite p" "pdata p" b] p
    by (simp add: pipe_bytes_def pipe_put_def pipe_inv_def)
  then show "pipe_inv (pipe_put b p)" using p by (simp add: pipe_inv_def) (simp add: pipe_put_def)
next
  fix p assume p: "pipe_inv p" "pipe_bytes p \<noteq> []"
  then have "0 < ring_len (nread p) (nwrite p)" by (metis length_greater_0_conv length_ring_bytes pipe_bytes_def)
  then show b: "pipe_bytes p = fst (pipe_get p) # pipe_bytes (snd (pipe_get p))"
    using ring_get [of "nread p" "nwrite p" 512 "pdata p"] by (simp add: pipe_bytes_def pipe_get_def)
  have "length (pipe_bytes (snd (pipe_get p))) \<le> 512"
    using p(1) b by (metis Suc_leD length_Cons pipe_inv_def)
  then show "pipe_inv (snd (pipe_get p))" using p(1) by (simp add: pipe_inv_def) (simp add: pipe_get_def)
qed

section \<open>The loops\<close>

lemma write_list_single: "write_list m a [b] = m(a := b)"
  by (auto simp: write_list_def fun_eq_iff)

lemma copyin_list_byte:
  assumes "user_page (mem s) pt va"
  shows "copyin_list pt va 1 s = Inr (0, [mem s (phys (mem s) pt va)])"
proof -
  have n: "chunk va 1 = 1" using chunk_facts(1,2) [of 1 va] by simp
  then have "min (4096 - (va - PGROUNDDOWN va)) (Suc 0) = Suc 0" by (simp add: chunk_def)
  then show ?thesis
    using walkaddr_page [OF user_page_rounddown [OF assms]]
    by (subst copyin_list.simps, subst copyin_list.simps)
      (simp add: Let_def read_list_def xl_rounddown phys_def PGROUNDDOWN_props)
qed

lemma copyout_list_byte:
  assumes "user_page (mem s) pt va"
  shows "copyout_list pt va [b] s = Inr (0, s\<lparr>mem := (mem s)(phys (mem s) pt va := b)\<rparr>)"
proof -
  have n: "chunk va 1 = 1" using chunk_facts(1,2) [of 1 va] by simp
  then have "min (4096 - (va - PGROUNDDOWN va)) (Suc 0) = Suc 0" by (simp add: chunk_def)
  then show ?thesis
    using walkaddr_page [OF user_page_rounddown [OF assms]]
    by (subst copyout_list.simps, subst copyout_list.simps)
      (simp add: Let_def write_list_single xl_rounddown phys_def PGROUNDDOWN_props)
qed

text \<open>The bytes of a user range.\<close>

definition ubytes :: "mem \<Rightarrow> nat \<Rightarrow> nat \<Rightarrow> nat \<Rightarrow> u8 list" where
  "ubytes m pt va n = map (\<lambda>i. m (phys m pt (va + i))) [0..<n]"

lemma pipe_upd_simps [simp]:
  "pipes (pipe_upd pi f s) = (pipes s)(pi := f (pipes s pi))" "mem (pipe_upd pi f s) = mem s"
  "procs (pipe_upd pi f s) = procs s" "cur (pipe_upd pi f s) = cur s"
  by (simp_all add: pipe_upd_def)

text \<open>
  The inner part of \<^verbatim>\<open>pipewrite\<close>: as long as there is room and the user bytes are
  mapped, \<open>k\<close> iterations append \<open>k\<close> bytes.
\<close>

lemma pipewrite_loop_puts:
  assumes "cur s = Some pr" "readopen (pipes s pi)" "killed (procs s ! pr) = 0" "0 \<le> i" "i + int k \<le> n"
    "pipe_inv (pipes s pi)" "length (pipe_bytes (pipes s pi)) + k \<le> 512"
    "\<And>j. nat i \<le> j \<Longrightarrow> j < nat i + k \<Longrightarrow> user_page (mem s) (pagetable (procs s ! pr)) (addr + j)"
  shows "pipewrite_loop pi addr n i s = pipewrite_loop pi addr n (i + int k)
    (pipe_upd pi (fold pipe_put (ubytes (mem s) (pagetable (procs s ! pr)) (addr + nat i) k)) s)"
  using assms
proof (induction k arbitrary: i s)
  case 0
  then show ?case by (simp add: ubytes_def pipe_upd_def)
next
  case (Suc k)
  let ?pt = "pagetable (procs s ! pr)" and ?p = "pipes s pi"
  let ?b = "mem s (phys (mem s) ?pt (addr + nat i))"
  let ?s = "pipe_upd pi (pipe_put ?b) s"
  have up: "user_page (mem s) ?pt (addr + nat i)" using Suc.prems(8) [of "nat i"] by simp
  have room: "length (pipe_bytes ?p) < 512" using Suc.prems(7) by simp
  then have nf: "\<not> pipe_full ?p" using pipe_full_iff by simp
  have ns: "nat (i + 1) = Suc (nat i)" using Suc.prems(4) by simp
  have step: "pipewrite_loop pi addr n i s = pipewrite_loop pi addr n (i + 1) ?s"
    using Suc.prems(1-5) nf copyin_list_byte [OF up] by (subst pipewrite_loop.simps) (simp add: myproc_def)
  have "pipewrite_loop pi addr n (i + 1) ?s = pipewrite_loop pi addr n (i + 1 + int k)
      (pipe_upd pi (fold pipe_put (ubytes (mem ?s) (pagetable (procs ?s ! pr)) (addr + nat (i + 1)) k)) ?s)"
  proof (rule Suc.IH)
    show "pipe_inv (pipes ?s pi)" "length (pipe_bytes (pipes ?s pi)) + k \<le> 512"
      using pq.put_inv [OF Suc.prems(6) room] pq.put_bytes [OF Suc.prems(6) room] Suc.prems(7) by simp_all
    show "user_page (mem ?s) (pagetable (procs ?s ! pr)) (addr + j)"
      if "nat (i + 1) \<le> j" "j < nat (i + 1) + k" for j
      using Suc.prems(8) [of j] that ns by simp
    show "readopen (pipes ?s pi)" using Suc.prems(2) by (simp add: pipe_put_def)
  qed (use Suc.prems in simp_all)
  moreover have "ubytes (mem s) ?pt (addr + nat i) (Suc k) = ?b # ubytes (mem s) ?pt (addr + nat (i + 1)) k"
    unfolding ns ubytes_def by (simp add: upt_conv_Cons map_Suc_upt [symmetric] comp_def del: upt_Suc)
  moreover have "pipe_upd pi f (pipe_upd pi g s) = pipe_upd pi (\<lambda>p. f (g p)) s" for f g
    by (simp add: pipe_upd_def)
  ultimately show ?case using step by (simp add: add.assoc)
qed

text \<open>The copying loop of \<^verbatim>\<open>piperead\<close>.\<close>

lemma piperead_loop_gets:
  assumes "urange (mem s) pt A {} addr n" "pipe_inv (pipes s pi)" "i \<le> n"
  defines "k \<equiv> min (n - i) (length (pipe_bytes (pipes s pi)))"
  shows "\<exists>m' p'. piperead_loop pi pt addr (int n) (int i) s = Inr (int (i + k), (pipe_upd pi (\<lambda>_. p') s)\<lparr>mem := m'\<rparr>) \<and>
    pipe_inv p' \<and> pipe_bytes p' = drop k (pipe_bytes (pipes s pi)) \<and>
    (\<forall>j<k. m' (phys (mem s) pt (addr + i + j)) = pipe_bytes (pipes s pi) ! j) \<and>
    (\<forall>a. (\<forall>j<k. a \<noteq> phys (mem s) pt (addr + i + j)) \<longrightarrow> m' a = mem s a)"
  using assms(1-3) unfolding k_def
proof (induction "n - i" arbitrary: i s)
  case 0
  then show ?case
    by (intro exI [of _ "mem s"] exI [of _ "pipes s pi"]) (subst piperead_loop.simps, simp add: pipe_upd_def)
next
  case (Suc d)
  let ?p = "pipes s pi"
  have i: "i < n" using Suc.hyps(2) by simp
  show ?case
  proof (cases "pipe_bytes ?p = []")
    case True
    then have "pipe_empty ?p" by (simp add: pipe_empty_iff)
    then show ?thesis using True Suc.prems i
      by (intro exI [of _ "mem s"] exI [of _ ?p]) (subst piperead_loop.simps, simp add: pipe_upd_def)
  next
    case False
    obtain ch q where g: "pipe_get ?p = (ch, q)" by (cases "pipe_get ?p")
    have b: "pipe_bytes ?p = ch # pipe_bytes q" "pipe_inv q"
      using pq.get_bytes [OF Suc.prems(2) False] pq.get_inv [OF Suc.prems(2) False] g by simp_all
    let ?a = "phys (mem s) pt (addr + i)"
    let ?s = "(pipe_upd pi (\<lambda>_. q) s)\<lparr>mem := (mem s)(?a := ch)\<rparr>"
    have up: "user_page (mem s) pt (addr + i)" and na: "?a \<notin> pages A"
      using urangeD(1,3) [OF Suc.prems(1), of "addr + i"] i by simp_all
    have keep: "((mem s)(?a := ch)) a = mem s a" if "a \<in> pages A" for a using that na by auto
    have fr: "urange (mem ?s) pt A {} addr n" "\<And>v. phys (mem ?s) pt v = phys (mem s) pt v"
      using urange_frame [OF Suc.prems(1), of "(mem s)(?a := ch)", OF keep] by (simp_all del: fun_upd_apply)
    have step: "piperead_loop pi pt addr (int n) (int i) s = piperead_loop pi pt addr (int n) (int (Suc i)) ?s"
      using i False g copyout_list_byte [of "pipe_upd pi (\<lambda>_. q) s" pt "addr + i" ch] up
      by (subst piperead_loop.simps) (simp add: pipe_empty_iff add.commute)
    let ?k = "min (n - Suc i) (length (pipe_bytes q))"
    have k: "min (n - i) (length (pipe_bytes ?p)) = Suc ?k" using b(1) i by simp
    have "\<exists>m' p'. piperead_loop pi pt addr (int n) (int (Suc i)) ?s = Inr (int (Suc i + ?k), (pipe_upd pi (\<lambda>_. p') ?s)\<lparr>mem := m'\<rparr>) \<and>
      pipe_inv p' \<and> pipe_bytes p' = drop ?k (pipe_bytes q) \<and>
      (\<forall>j<?k. m' (phys (mem s) pt (addr + Suc i + j)) = pipe_bytes q ! j) \<and>
      (\<forall>a. (\<forall>j<?k. a \<noteq> phys (mem s) pt (addr + Suc i + j)) \<longrightarrow> m' a = mem ?s a)"
      using Suc.hyps(1) [of "Suc i" ?s] Suc.hyps(2) fr b(2) i by simp
    then obtain m' p' where h: "piperead_loop pi pt addr (int n) (int (Suc i)) ?s = Inr (int (Suc i + ?k), (pipe_upd pi (\<lambda>_. p') ?s)\<lparr>mem := m'\<rparr>)"
      "pipe_inv p'" "pipe_bytes p' = drop ?k (pipe_bytes q)"
      "\<forall>j<?k. m' (phys (mem s) pt (addr + Suc i + j)) = pipe_bytes q ! j"
      "\<forall>a. (\<forall>j<?k. a \<noteq> phys (mem s) pt (addr + Suc i + j)) \<longrightarrow> m' a = mem ?s a" by blast
    have "m' ?a = ch"
    proof -
      have "?a \<noteq> phys (mem s) pt (addr + Suc i + j)" if "j < ?k" for j
      proof
        assume "?a = phys (mem s) pt (addr + Suc i + j)"
        moreover have "i + Suc j < n" using that by linarith
        ultimately show False using phys_inj [OF Suc.prems(1), of "addr + i" "addr + Suc i + j"] i by simp
      qed
      then show ?thesis using h(5) by simp
    qed
    then have all: "\<forall>j<Suc ?k. m' (phys (mem s) pt (addr + i + j)) = pipe_bytes ?p ! j"
      using h(4) b(1) by (auto simp: less_Suc_eq_0_disj)
    have rest: "m' a = mem s a" if no: "\<forall>j<Suc ?k. a \<noteq> phys (mem s) pt (addr + i + j)" for a
    proof -
      have "a \<noteq> phys (mem s) pt (addr + Suc i + j)" if j: "j < ?k" for j
        using no [rule_format, of "Suc j"] j by simp
      moreover have "a \<noteq> ?a" using no [rule_format, of 0] by simp
      ultimately show ?thesis using h(5) by simp
    qed
    have "(pipe_upd pi (\<lambda>_. p') ?s)\<lparr>mem := m'\<rparr> = (pipe_upd pi (\<lambda>_. p') s)\<lparr>mem := m'\<rparr>"
      by (simp add: pipe_upd_def)
    then show ?thesis unfolding k using step h(1-3) all rest b(1)
      by (intro exI [of _ m'] exI [of _ p']) simp
  qed
qed

section \<open>Properties\<close>

text \<open>
  C33: \<^verbatim>\<open>pipewrite\<close> of \<open>n\<close> mapped user bytes to a pipe whose read end is open
  appends, in order, as many of them as fit. If all fit it returns \<open>n\<close> and has woken the
  readers; otherwise the pipe is full, the readers are runnable, and the process sleeps on the
  write channel with the number of bytes it has written.
\<close>

theorem pipewrite_appends:
  assumes "sched_inv s Q" "cur s = Some pr" "pipe_inv (pipes s pi)" "readopen (pipes s pi)"
    "killed (procs s ! pr) = 0" "\<And>j. j < n \<Longrightarrow> user_page (mem s) (pagetable (procs s ! pr)) (addr + j)"
  defines "room \<equiv> 512 - length (pipe_bytes (pipes s pi))"
  shows "\<exists>r s' Q'. pipewrite pi addr (int n) s = Inr (r, s') \<and> sched_inv s' Q' \<and> pipe_inv (pipes s' pi) \<and>
    pipe_bytes (pipes s' pi) = pipe_bytes (pipes s pi) @
      ubytes (mem s) (pagetable (procs s ! pr)) addr (min n room) \<and>
    (if n \<le> room then r = Returns (int n) else r = Sleeps (int room) \<and> chan (procs s' ! pr) = ChPipeWrite pi \<and>
       state (procs s' ! pr) = SLEEPING) \<and>
    (\<forall>j<64. state (procs s ! j) = SLEEPING \<and> chan (procs s ! j) = ChPipeRead pi \<longrightarrow> state (procs s' ! j) = RUNNABLE)"
proof -
  let ?pt = "pagetable (procs s ! pr)" and ?k = "min n room"
  define s1 where "s1 = pipe_upd pi (fold pipe_put (ubytes (mem s) ?pt addr ?k)) s"
  have len: "length (pipe_bytes (pipes s pi)) + ?k \<le> 512" using assms(3) by (auto simp: room_def pipe_inv_def)
  have loop: "pipewrite pi addr (int n) s = pipewrite_loop pi addr (int n) (int ?k) s1"
    using pipewrite_loop_puts [OF assms(2,4,5), of 0 ?k "int n" addr] assms(3,6) len
    by (simp add: pipewrite_def s1_def)
  have q: "pipe_inv (pipes s1 pi)" "pipe_bytes (pipes s1 pi) = pipe_bytes (pipes s pi) @ ubytes (mem s) ?pt addr ?k"
    using pq.put_all [OF assms(3), of "ubytes (mem s) ?pt addr ?k"] len by (simp_all add: s1_def ubytes_def)
  have inv1: "sched_inv s1 Q" using assms(1)
    by (cases "cur s") (simp_all add: s1_def pipe_upd_def sched_inv_def sched_core_def resumed_def)
  have eq1: "procs s1 = procs s" "cur s1 = cur s" by (simp_all add: s1_def)
  note D = sched_inv_curD [OF inv1, of pr, unfolded eq1, OF assms(2)]
  obtain qt where w: "wakeup (ChPipeRead pi) s1 = Inr (s1\<lparr>procs := requeue_procs (woken (ChPipeRead pi) (cur s1)) (\<lambda>p. p\<lparr>state := RUNNABLE\<rparr>) (procs s1), qtab := qt\<rparr>)"
    "sched_inv (s1\<lparr>procs := requeue_procs (woken (ChPipeRead pi) (cur s1)) (\<lambda>p. p\<lparr>state := RUNNABLE\<rparr>) (procs s1), qtab := qt\<rparr>)
       (requeued (woken (ChPipeRead pi) (cur s1)) (\<lambda>p. p\<lparr>state := RUNNABLE\<rparr>) (procs s1) Q)"
    using wakeup_ok [OF inv1, of "ChPipeRead pi"] by blast
  let ?s2 = "s1\<lparr>procs := requeue_procs (woken (ChPipeRead pi) (cur s1)) (\<lambda>p. p\<lparr>state := RUNNABLE\<rparr>) (procs s1), qtab := qt\<rparr>"
  have run: "state (procs s ! pr) = RUNNING" using D by simp
  have woke: "\<forall>j<64. state (procs s ! j) = SLEEPING \<and> chan (procs s ! j) = ChPipeRead pi \<longrightarrow> state (procs ?s2 ! j) = RUNNABLE"
    using run assms(2) eq1 by auto
  show ?thesis
  proof (cases "n \<le> room")
    case True
    then have "pipewrite_loop pi addr (int n) (int ?k) s1 = Inr (Returns (int n), ?s2)"
      using w(1) assms(2) eq1 by (subst pipewrite_loop.simps) (simp add: myproc_def)
    then show ?thesis using loop w(2) q woke True
      by (intro exI [of _ "Returns (int n)"] exI [of _ ?s2] exI) simp
  next
    case False
    have full: "pipe_full (pipes s1 pi)"
      using q(2) False assms(3) by (simp add: pipe_full_iff ubytes_def room_def pipe_inv_def)
    obtain s3 where s3: "sleep (ChPipeWrite pi) ?s2 = Inr s3"
      "sched_inv s3 (requeued (woken (ChPipeRead pi) (cur s1)) (\<lambda>p. p\<lparr>state := RUNNABLE\<rparr>) (procs s1) Q)"
      "s3 = ?s2\<lparr>procs := (procs ?s2)[pr := (procs ?s2 ! pr)\<lparr>chan := ChPipeWrite pi, state := SLEEPING\<rparr>], cur := None\<rparr>"
      using sleep_ok [OF w(2), of pr "ChPipeWrite pi"] assms(2) eq1 by auto
    have rd: "readopen (fold pipe_put xs p) = readopen p" for xs p
      by (induction xs arbitrary: p) (simp_all add: pipe_put_def)
    have "pipewrite_loop pi addr (int n) (int ?k) s1 = Inr (Sleeps (int room), s3)"
      using full w(1) s3(1) assms(2,4,5) eq1 False rd
      by (subst pipewrite_loop.simps) (simp add: myproc_def s1_def)
    moreover have "state (procs s3 ! pr) = SLEEPING" "chan (procs s3 ! pr) = ChPipeWrite pi" "pipes s3 = pipes s1"
      unfolding s3(3) using D by simp_all
    moreover have "\<forall>j<64. state (procs s ! j) = SLEEPING \<and> chan (procs s ! j) = ChPipeRead pi \<longrightarrow> state (procs s3 ! j) = RUNNABLE"
    proof (intro allI impI)
      fix j assume j: "j < 64" "state (procs s ! j) = SLEEPING \<and> chan (procs s ! j) = ChPipeRead pi"
      then have "j \<noteq> pr" using run by auto
      then show "state (procs s3 ! j) = RUNNABLE" unfolding s3(3) using woke j by simp
    qed
    ultimately show ?thesis using loop s3(2) q False
      by (intro exI [of _ "Sleeps (int room)"] exI [of _ s3] exI) simp
  qed
qed

text \<open>A running process with one user page at address 0 and a pipe at address 24576.\<close>

definition pipe_demo :: "qtable \<Rightarrow> pipe \<Rightarrow> pst" where
  "pipe_demo qt p = kst.extend ((demo 0 4 7 qt)\<lparr>mem := ptdemo_mem,
     procs := (procs (demo 0 4 7 qt))[0 := (procs (demo 0 4 7 qt) ! 0)\<lparr>pagetable := 4096\<rparr>]\<rparr>)
     (pst.fields (\<lambda>_. p))"

lemma sched_inv_extend: "sched_inv (kst.extend s x) Q = sched_inv (s :: kst) Q"
  by (cases "cur s") (simp_all add: kst.extend_def sched_inv_def sched_core_def resumed_def)

lemma pipe_demo_simps:
  "pipes (pipe_demo qt p) = (\<lambda>_. p)" "mem (pipe_demo qt p) = ptdemo_mem" "cur (pipe_demo qt p) = Some 0"
  "pagetable (procs (pipe_demo qt p) ! 0) = 4096" "killed (procs (pipe_demo qt p) ! 0) = 0"
  by (simp_all add: pipe_demo_def kst.extend_def pst.fields_def demo_simps proc_bss_def)

lemma pipe_demo_inv: "rq_inv qt demoQ \<Longrightarrow> sched_inv (pipe_demo qt p) demoQ"
proof -
  assume "rq_inv qt demoQ"
  then have "sched_inv (demo 0 4 7 qt) demoQ"
    by (rule demo_inv) (simp_all add: quantum_def priority_def proc_bss_def)
  then have "sched_inv ((demo 0 4 7 qt)\<lparr>procs := (procs (demo 0 4 7 qt))[0 := (procs (demo 0 4 7 qt) ! 0)\<lparr>pagetable := 4096\<rparr>]\<rparr>) demoQ"
    by (rule sched_inv_upd) (simp_all add: proc_ok_def quantum_def split: if_splits)
  then have "sched_inv ((demo 0 4 7 qt)\<lparr>mem := ptdemo_mem,
      procs := (procs (demo 0 4 7 qt))[0 := (procs (demo 0 4 7 qt) ! 0)\<lparr>pagetable := 4096\<rparr>]\<rparr>) demoQ"
    by (simp add: sched_inv_def sched_core_def resumed_def demo_simps)
  then show ?thesis by (simp only: pipe_demo_def sched_inv_extend)
qed

theorem pipewrite_appends_witness:
  "\<exists>qt s'. pipewrite 24576 100 2 (pipe_demo qt \<lparr>pdata = replicate 512 0, nread = 5, nwrite = 5, readopen = True, writeopen = True\<rparr>)
     = Inr (Returns 2, s')"
proof -
  obtain qt where qt: "rq_inv qt demoQ" using demo_qtab by blast
  let ?p = "\<lparr>pdata = replicate 512 0, nread = 5, nwrite = 5, readopen = True, writeopen = True\<rparr>"
  have b: "pipe_bytes ?p = []" by (simp add: pipe_bytes_def ring_bytes_def ring_len_def)
  have up: "user_page ptdemo_mem 4096 (100 + j)" if "j < 2" for j
    using urangeD(1) [OF ptdemo_urange, of "100 + j"] that by simp
  have "\<exists>s'. pipewrite 24576 100 (int 2) (pipe_demo qt ?p) = Inr (Returns 2, s')"
    using pipewrite_appends [OF pipe_demo_inv [OF qt, of ?p], of 0 24576 2 100] up b
    by (auto simp: pipe_demo_simps pipe_inv_def)
  then show ?thesis by auto
qed

text \<open>
  C34: \<^verbatim>\<open>piperead\<close> into a mapped user range takes bytes from the front of the pipe in
  order, as many as there are and at most \<open>n\<close>, stores them in the user range and nothing
  else, makes every process sleeping on the pipe's write channel RUNNABLE and leaves every
  other process table entry as it is; on an empty pipe whose write end is closed it returns 0.
\<close>

theorem piperead_takes:
  assumes "sched_inv s Q" "cur s = Some pr" "pipe_inv (pipes s pi)"
    "pipe_bytes (pipes s pi) \<noteq> [] \<or> \<not> writeopen (pipes s pi)"
    "urange (mem s) (pagetable (procs s ! pr)) A {} addr n"
  defines "k \<equiv> min n (length (pipe_bytes (pipes s pi)))"
  shows "\<exists>s' Q'. piperead pi addr (int n) s = Inr (Returns (int k), s') \<and> sched_inv s' Q' \<and> pipe_inv (pipes s' pi) \<and>
    pipe_bytes (pipes s' pi) = drop k (pipe_bytes (pipes s pi)) \<and>
    (\<forall>j<k. mem s' (phys (mem s) (pagetable (procs s ! pr)) (addr + j)) = pipe_bytes (pipes s pi) ! j) \<and>
    (\<forall>a. (\<forall>j<k. a \<noteq> phys (mem s) (pagetable (procs s ! pr)) (addr + j)) \<longrightarrow> mem s' a = mem s a) \<and>
    (\<forall>j<64. procs s' ! j = (if state (procs s ! j) = SLEEPING \<and> chan (procs s ! j) = ChPipeWrite pi
       then (procs s ! j)\<lparr>state := RUNNABLE\<rparr> else procs s ! j))"
proof -
  let ?pt = "pagetable (procs s ! pr)"
  obtain m' p' where h: "piperead_loop pi ?pt addr (int n) 0 s = Inr (int k, (pipe_upd pi (\<lambda>_. p') s)\<lparr>mem := m'\<rparr>)"
    "pipe_inv p'" "pipe_bytes p' = drop k (pipe_bytes (pipes s pi))"
    "\<forall>j<k. m' (phys (mem s) ?pt (addr + j)) = pipe_bytes (pipes s pi) ! j"
    "\<forall>a. (\<forall>j<k. a \<noteq> phys (mem s) ?pt (addr + j)) \<longrightarrow> m' a = mem s a"
    using piperead_loop_gets [OF assms(5,3), of 0] by (auto simp: k_def)
  let ?s1 = "(pipe_upd pi (\<lambda>_. p') s)\<lparr>mem := m'\<rparr>"
  have inv1: "sched_inv ?s1 Q" using assms(1)
    by (cases "cur s") (simp_all add: pipe_upd_def sched_inv_def sched_core_def resumed_def)
  obtain qt where w: "wakeup (ChPipeWrite pi) ?s1 = Inr (?s1\<lparr>procs := requeue_procs (woken (ChPipeWrite pi) (cur ?s1)) (\<lambda>p. p\<lparr>state := RUNNABLE\<rparr>) (procs ?s1), qtab := qt\<rparr>)"
    "sched_inv (?s1\<lparr>procs := requeue_procs (woken (ChPipeWrite pi) (cur ?s1)) (\<lambda>p. p\<lparr>state := RUNNABLE\<rparr>) (procs ?s1), qtab := qt\<rparr>)
       (requeued (woken (ChPipeWrite pi) (cur ?s1)) (\<lambda>p. p\<lparr>state := RUNNABLE\<rparr>) (procs ?s1) Q)"
    using wakeup_ok [OF inv1, of "ChPipeWrite pi"] by blast
  let ?s2 = "?s1\<lparr>procs := requeue_procs (woken (ChPipeWrite pi) (cur ?s1)) (\<lambda>p. p\<lparr>state := RUNNABLE\<rparr>) (procs ?s1), qtab := qt\<rparr>"
  have "piperead pi addr (int n) s = Inr (Returns (int k), ?s2)"
    using h(1) w(1) assms(2,4) by (auto simp: piperead_def myproc_def pipe_empty_iff)
  moreover have "pipes ?s2 pi = p'" "mem ?s2 = m'" by simp_all
  moreover have "\<forall>j<64. procs ?s2 ! j = (if state (procs s ! j) = SLEEPING \<and> chan (procs s ! j) = ChPipeWrite pi
      then (procs s ! j)\<lparr>state := RUNNABLE\<rparr> else procs s ! j)"
    using sched_inv_curD [OF assms(1,2)] assms(2) by auto
  ultimately show ?thesis using w(2) h(2-5) by (intro exI [of _ ?s2] exI) simp
qed

theorem piperead_takes_witness:
  "\<exists>qt s'. piperead 24576 100 2 (pipe_demo qt \<lparr>pdata = replicate 512 0, nread = 5, nwrite = 5, readopen = True, writeopen = False\<rparr>)
     = Inr (Returns 0, s')"
proof -
  obtain qt where qt: "rq_inv qt demoQ" using demo_qtab by blast
  let ?p = "\<lparr>pdata = replicate 512 0, nread = 5, nwrite = 5, readopen = True, writeopen = False\<rparr>"
  have b: "pipe_bytes ?p = []" by (simp add: pipe_bytes_def ring_bytes_def ring_len_def)
  have "urange ptdemo_mem 4096 {4096, 8192, 12288} {} 100 2"
    using urange_sub [OF urange_subS [OF ptdemo_urange], of "{}" 100 2] by simp
  then have "\<exists>s'. piperead 24576 100 (int 2) (pipe_demo qt ?p) = Inr (Returns 0, s')"
    using piperead_takes [OF pipe_demo_inv [OF qt, of ?p], of 0 24576 "{4096, 8192, 12288}" 100 2] b
    by (auto simp: pipe_demo_simps pipe_inv_def)
  then show ?thesis by auto
qed

end
