(* ===== verification/Console.thy ===== *)
theory Console
  imports Pipe
begin

text \<open>
  \<^verbatim>\<open>kernel/console.c\<close> and \<^verbatim>\<open>kernel/uart.c\<close>: line editing of the console input,
  the buffered output to the UART, and the copies of \<^verbatim>\<open>kernel/proc.c\<close> that take a user
  or a kernel address. The device is seen through its registers: \<open>lsr\<close> are the values that
  successive reads of the transmit-idle bit give, \<open>rx\<close> the input bytes that wait in the
  receive register, \<open>sent\<close> the bytes written to the transmit register.
\<close>

section \<open>State\<close>

abbreviation (input) INPUT_BUF :: nat where "INPUT_BUF \<equiv> 128"
abbreviation (input) UART_TX_BUF_SIZE :: nat where "UART_TX_BUF_SIZE \<equiv> 32"

record consbuf =
  cbuf :: "u8 list"
  cr :: u32
  cw :: u32
  ce :: u32

record uarttx =
  txbuf :: "u8 list"
  txw :: u64
  txr :: u64

record cst = pst +
  cons :: consbuf
  tx :: uarttx
  lsr :: "bool list"
  rx :: "u8 list"
  sent :: "u8 list"

section \<open>Copies with a user or a kernel address\<close>

definition either_copyout :: "bool \<Rightarrow> nat \<Rightarrow> u8 list \<Rightarrow> 'z kst_scheme \<Rightarrow> (int \<times> 'z kst_scheme) res" where
  "either_copyout user_dst dst src s =
     bnd (if user_dst then myproc s else Inr 0) (\<lambda>i.
     if user_dst then copyout_list (pagetable (procs s ! i)) dst src s
     else Inr (0, s\<lparr>mem := write_list (mem s) dst src\<rparr>))"

definition either_copyin :: "bool \<Rightarrow> nat \<Rightarrow> nat \<Rightarrow> 'z kst_scheme \<Rightarrow> (int \<times> u8 list) res" where
  "either_copyin user_src src len s =
     bnd (if user_src then myproc s else Inr 0) (\<lambda>i.
     if user_src then copyin_list (pagetable (procs s ! i)) src len s
     else Inr (0, read_list (mem s) src len))"

section \<open>UART\<close>

text \<open>A read of the line status register: the next value, busy when none is left.\<close>

definition read_lsr_idle :: "'z cst_scheme \<Rightarrow> bool \<times> 'z cst_scheme" where
  "read_lsr_idle s = (case lsr s of [] \<Rightarrow> (False, s) | b # bs \<Rightarrow> (b, s\<lparr>lsr := bs\<rparr>))"

definition write_thr :: "u8 \<Rightarrow> 'z cst_scheme \<Rightarrow> 'z cst_scheme" where
  "write_thr c s = s\<lparr>sent := sent s @ [c]\<rparr>"

text \<open>\<^verbatim>\<open>uartputc_sync\<close> waits until the transmitter is idle, which it eventually is.\<close>

definition uartputc_sync :: "u8 \<Rightarrow> 'z cst_scheme \<Rightarrow> 'z cst_scheme" where
  "uartputc_sync c s = write_thr c (s\<lparr>lsr := tl (dropWhile Not (lsr s))\<rparr>)"

definition tx_get :: "uarttx \<Rightarrow> u8 \<times> uarttx" where
  "tx_get t = (txbuf t ! (unat (txr t) mod UART_TX_BUF_SIZE), t\<lparr>txr := txr t + 1\<rparr>)"

definition tx_put :: "u8 \<Rightarrow> uarttx \<Rightarrow> uarttx" where
  "tx_put c t = t\<lparr>txbuf := (txbuf t)[unat (txw t) mod UART_TX_BUF_SIZE := c], txw := txw t + 1\<rparr>"

definition tx_full :: "uarttx \<Rightarrow> bool" where
  "tx_full t \<longleftrightarrow> txw t = txr t + 32"

text \<open>
  \<^verbatim>\<open>uartstart\<close> is unrolled at most as often as there are bytes between the two counters:
  every iteration that does not return advances \<^verbatim>\<open>uart_tx_r\<close>.
\<close>

fun uartstart_loop :: "nat \<Rightarrow> 'z cst_scheme \<Rightarrow> 'z cst_scheme res" where
  "uartstart_loop 0 s = Inr s"
| "uartstart_loop (Suc fuel) s =
     (if txw (tx s) = txr (tx s) then Inr s
      else
        let (idle, s1) = read_lsr_idle s in
        if \<not> idle then Inr s1
        else
          let (c, t) = tx_get (tx s1) in
          bnd (wakeup ChUart (s1\<lparr>tx := t\<rparr>)) (\<lambda>s2. uartstart_loop fuel (write_thr c s2)))"

definition uartstart :: "'z cst_scheme \<Rightarrow> 'z cst_scheme res" where
  "uartstart s = uartstart_loop (unat (txw (tx s) - txr (tx s))) s"

definition uartputc :: "u8 \<Rightarrow> 'z cst_scheme \<Rightarrow> (bool \<times> 'z cst_scheme) res" where
  "uartputc c s =
     (if tx_full (tx s) then bnd (sleep ChUart s) (\<lambda>s1. Inr (False, s1))
      else bnd (uartstart (s\<lparr>tx := tx_put c (tx s)\<rparr>)) (\<lambda>s1. Inr (True, s1)))"

definition uartgetc :: "'z cst_scheme \<Rightarrow> int \<times> 'z cst_scheme" where
  "uartgetc s = (case rx s of [] \<Rightarrow> (-1, s) | c # cs \<Rightarrow> (uint c, s\<lparr>rx := cs\<rparr>))"

section \<open>Console\<close>

abbreviation (input) BACKSPACE :: int where "BACKSPACE \<equiv> 256"
abbreviation (input) C_D :: int where "C_D \<equiv> 4"
abbreviation (input) C_H :: int where "C_H \<equiv> 8"
abbreviation (input) C_P :: int where "C_P \<equiv> 16"
abbreviation (input) C_U :: int where "C_U \<equiv> 21"

definition consputc :: "int \<Rightarrow> 'z cst_scheme \<Rightarrow> 'z cst_scheme" where
  "consputc c s =
     (if c = BACKSPACE then uartputc_sync 8 (uartputc_sync 32 (uartputc_sync 8 s))
      else uartputc_sync (word_of_int c) s)"

text \<open>
  \<^verbatim>\<open>consolewrite\<close> from byte \<open>i\<close> on. When the output buffer is full the process sleeps
  inside \<^verbatim>\<open>uartputc\<close> with the byte in hand: the result is then \<open>Sleeps i\<close> and that
  byte, and \<open>consolewrite_resume\<close> continues there.
\<close>

function consolewrite_loop ::
  "bool \<Rightarrow> nat \<Rightarrow> int \<Rightarrow> int \<Rightarrow> 'z cst_scheme \<Rightarrow> (outcome \<times> u8 \<times> 'z cst_scheme) res" where
  "consolewrite_loop user_src src n i s =
     (if i < n then
        bnd (either_copyin user_src (src + nat i) 1 s) (\<lambda>(r, bs).
        if r = -1 then Inr (Returns i, 0, s)
        else
          bnd (uartputc (bs ! 0) s) (\<lambda>(done, s1).
          if done then consolewrite_loop user_src src n (i + 1) s1 else Inr (Sleeps i, bs ! 0, s1)))
      else Inr (Returns i, 0, s))"
  by pat_completeness auto
termination
  by (relation "measure (\<lambda>(u, src, n, i, s). nat (n - i))") auto

definition consolewrite :: "bool \<Rightarrow> nat \<Rightarrow> int \<Rightarrow> 'z cst_scheme \<Rightarrow> (outcome \<times> u8 \<times> 'z cst_scheme) res" where
  "consolewrite user_src src n s = consolewrite_loop user_src src n 0 s"

definition consolewrite_resume ::
  "bool \<Rightarrow> nat \<Rightarrow> int \<Rightarrow> int \<Rightarrow> u8 \<Rightarrow> 'z cst_scheme \<Rightarrow> (outcome \<times> u8 \<times> 'z cst_scheme) res" where
  "consolewrite_resume user_src src n i c s =
     bnd (sleep_resume s) (\<lambda>s1.
     bnd (uartputc c s1) (\<lambda>(done, s2).
     if done then consolewrite_loop user_src src n (i + 1) s2 else Inr (Sleeps i, c, s2)))"

text \<open>
  \<^verbatim>\<open>consoleread\<close> with \<open>n\<close> of \<open>target\<close> bytes still to read. \<open>Sleeps n\<close> says
  that the process waits for input with \<open>n\<close> bytes left.
\<close>

function consoleread_loop ::
  "bool \<Rightarrow> nat \<Rightarrow> int \<Rightarrow> int \<Rightarrow> 'z cst_scheme \<Rightarrow> (outcome \<times> 'z cst_scheme) res" where
  "consoleread_loop user_dst dst target n s =
     (if n > 0 then
        if cr (cons s) = cw (cons s) then
          bnd (myproc s) (\<lambda>i.
          if killed (procs s ! i) \<noteq> 0 then Inr (Returns (-1), s)
          else bnd (sleep ChCons s) (\<lambda>s1. Inr (Sleeps n, s1)))
        else
          let c = cbuf (cons s) ! (unat (cr (cons s)) mod INPUT_BUF);
              s1 = s\<lparr>cons := (cons s)\<lparr>cr := cr (cons s) + 1\<rparr>\<rparr> in
          if uint c = C_D then
            Inr (Returns (target - n),
              if n < target then s1\<lparr>cons := (cons s1)\<lparr>cr := cr (cons s1) - 1\<rparr>\<rparr> else s1)
          else
            bnd (either_copyout user_dst dst [c] s1) (\<lambda>(r, s2).
            if r = -1 then Inr (Returns (target - n), s2)
            else if uint c = 10 then Inr (Returns (target - (n - 1)), s2)
            else consoleread_loop user_dst (dst + 1) target (n - 1) s2)
      else Inr (Returns (target - n), s))"
  by pat_completeness auto
termination
  by (relation "measure (\<lambda>(u, dst, t, n, s). nat n)") auto

definition consoleread :: "bool \<Rightarrow> nat \<Rightarrow> int \<Rightarrow> 'z cst_scheme \<Rightarrow> (outcome \<times> 'z cst_scheme) res" where
  "consoleread user_dst dst n s = consoleread_loop user_dst dst n n s"

definition consoleread_resume ::
  "bool \<Rightarrow> nat \<Rightarrow> int \<Rightarrow> int \<Rightarrow> 'z cst_scheme \<Rightarrow> (outcome \<times> 'z cst_scheme) res" where
  "consoleread_resume user_dst dst target n s =
     bnd (sleep_resume s) (consoleread_loop user_dst (dst + nat (target - n)) target n)"

text \<open>Control-U: the loop steps the edit index back to the write index or the last newline.\<close>

fun kill_line :: "nat \<Rightarrow> 'z cst_scheme \<Rightarrow> 'z cst_scheme" where
  "kill_line 0 s = s"
| "kill_line (Suc fuel) s =
     (if ce (cons s) \<noteq> cw (cons s) \<and> cbuf (cons s) ! (unat (ce (cons s) - 1) mod INPUT_BUF) \<noteq> 10
      then kill_line fuel (consputc BACKSPACE (s\<lparr>cons := (cons s)\<lparr>ce := ce (cons s) - 1\<rparr>\<rparr>))
      else s)"

text \<open>
  The input interrupt handler. Control-P prints the process table, which leaves the modelled state
  alone (its output is not part of \<open>sent\<close>).
\<close>

definition consoleintr :: "int \<Rightarrow> 'z cst_scheme \<Rightarrow> 'z cst_scheme res" where
  "consoleintr c s =
     (if c = C_P then Inr s
      else if c = C_U then Inr (kill_line (unat (ce (cons s) - cw (cons s))) s)
      else if c = C_H \<or> c = 127 then
        Inr (if ce (cons s) \<noteq> cw (cons s)
             then consputc BACKSPACE (s\<lparr>cons := (cons s)\<lparr>ce := ce (cons s) - 1\<rparr>\<rparr>) else s)
      else if c \<noteq> 0 \<and> ce (cons s) - cr (cons s) < 128 then
        let c' = (if c = 13 then 10 else c);
            s1 = consputc c' s;
            s2 = s1\<lparr>cons := (cons s1)\<lparr>cbuf := (cbuf (cons s1))[unat (ce (cons s1)) mod INPUT_BUF := word_of_int c'],
                   ce := ce (cons s1) + 1\<rparr>\<rparr> in
        if c' = 10 \<or> c' = C_D \<or> ce (cons s2) = cr (cons s2) + 128
        then wakeup ChCons (s2\<lparr>cons := (cons s2)\<lparr>cw := ce (cons s2)\<rparr>\<rparr>)
        else Inr s2
      else Inr s)"

text \<open>\<^verbatim>\<open>uartintr\<close>: the waiting input first, then the output.\<close>

fun uartintr_loop :: "nat \<Rightarrow> 'z cst_scheme \<Rightarrow> 'z cst_scheme res" where
  "uartintr_loop 0 s = Inr s"
| "uartintr_loop (Suc fuel) s =
     (let (c, s1) = uartgetc s in
      if c = -1 then Inr s1 else bnd (consoleintr c s1) (uartintr_loop fuel))"

definition uartintr :: "'z cst_scheme \<Rightarrow> 'z cst_scheme res" where
  "uartintr s = bnd (uartintr_loop (length (rx s)) s) uartstart"

declare consolewrite_loop.simps [simp del] consoleread_loop.simps [simp del]

section \<open>The output buffer\<close>

definition tx_bytes :: "uarttx \<Rightarrow> u8 list" where
  "tx_bytes t = ring_bytes 32 (txbuf t) (txr t) (txw t)"

definition tx_inv :: "uarttx \<Rightarrow> bool" where
  "tx_inv t \<longleftrightarrow> length (txbuf t) = 32 \<and> length (tx_bytes t) \<le> 32"

interpretation tq: bounded_queue tx_inv tx_bytes 32 tx_put tx_get
proof
  fix t c assume t: "tx_inv t" "length (tx_bytes t) < 32"
  have dvd: "32 dvd (2 :: nat) ^ LENGTH(64)" "32 < (2 :: nat) ^ LENGTH(64)" by simp_all
  show "tx_bytes (tx_put c t) = tx_bytes t @ [c]"
    using ring_put [OF _ dvd, of "txr t" "txw t" "txbuf t" c] t
    by (simp add: tx_bytes_def tx_put_def tx_inv_def)
  then show "tx_inv (tx_put c t)" using t by (simp add: tx_inv_def) (simp add: tx_put_def)
next
  fix t assume t: "tx_inv t" "tx_bytes t \<noteq> []"
  then have "0 < ring_len (txr t) (txw t)" by (metis length_greater_0_conv length_ring_bytes tx_bytes_def)
  then show b: "tx_bytes t = fst (tx_get t) # tx_bytes (snd (tx_get t))"
    using ring_get [of "txr t" "txw t" 32 "txbuf t"] by (simp add: tx_bytes_def tx_get_def)
  have "length (tx_bytes (snd (tx_get t))) \<le> 32" using t(1) b by (metis Suc_leD length_Cons tx_inv_def)
  then show "tx_inv (snd (tx_get t))" using t(1) by (simp add: tx_inv_def) (simp add: tx_get_def)
qed

lemma sched_inv_cst [simp]:
  "sched_inv (s\<lparr>cons := a\<rparr>) Q = sched_inv s Q" "sched_inv (s\<lparr>tx := b\<rparr>) Q = sched_inv s Q"
  "sched_inv (s\<lparr>lsr := c\<rparr>) Q = sched_inv s Q" "sched_inv (s\<lparr>sent := d\<rparr>) Q = sched_inv s Q"
  by (cases "cur s"; simp add: sched_inv_def sched_core_def resumed_def)+

text \<open>\<^verbatim>\<open>wakeup\<close> changes only the scheduler's part of the state.\<close>

lemma wakeup_cst:
  assumes "sched_inv (s :: 'z cst_scheme) Q"
  shows "\<exists>s' Q'. wakeup c s = Inr s' \<and> sched_inv s' Q' \<and> tx s' = tx s \<and> sent s' = sent s \<and> lsr s' = lsr s \<and>
    cons s' = cons s \<and> cur s' = cur s"
proof -
  obtain qt where "wakeup c s = Inr (s\<lparr>procs := requeue_procs (woken c (cur s)) (\<lambda>p. p\<lparr>state := RUNNABLE\<rparr>) (procs s), qtab := qt\<rparr>)"
    "sched_inv (s\<lparr>procs := requeue_procs (woken c (cur s)) (\<lambda>p. p\<lparr>state := RUNNABLE\<rparr>) (procs s), qtab := qt\<rparr>)
      (requeued (woken c (cur s)) (\<lambda>p. p\<lparr>state := RUNNABLE\<rparr>) (procs s) Q)"
    using wakeup_ok [OF assms] by blast
  then show ?thesis by force
qed

lemma uartstart_loop_order:
  assumes "sched_inv (s :: 'z cst_scheme) Q" "tx_inv (tx s)"
  shows "\<exists>s' Q'. uartstart_loop n s = Inr s' \<and> sched_inv s' Q' \<and> tx_inv (tx s') \<and>
    sent s' @ tx_bytes (tx s') = sent s @ tx_bytes (tx s)"
  using assms
proof (induction n arbitrary: s Q)
  case (Suc n)
  show ?case
  proof (cases "txw (tx s) = txr (tx s) \<or> lsr s = [] \<or> \<not> hd (lsr s)")
    case True
    then have "uartstart_loop (Suc n) s = Inr s \<or> uartstart_loop (Suc n) s = Inr (s\<lparr>lsr := tl (lsr s)\<rparr>)"
      by (cases "lsr s") (auto simp: read_lsr_idle_def)
    then show ?thesis
    proof
      assume "uartstart_loop (Suc n) s = Inr s"
      then show ?thesis using Suc.prems by blast
    next
      assume "uartstart_loop (Suc n) s = Inr (s\<lparr>lsr := tl (lsr s)\<rparr>)"
      then show ?thesis using Suc.prems by (intro exI [of _ "s\<lparr>lsr := tl (lsr s)\<rparr>"] exI [of _ Q]) simp
    qed
  next
    case False
    then have ne: "tx_bytes (tx s) \<noteq> []"
      by (metis length_0_conv length_ring_bytes ring_len_0 tx_bytes_def)
    obtain c t where g: "tx_get (tx s) = (c, t)" by (cases "tx_get (tx s)")
    have b: "tx_bytes (tx s) = c # tx_bytes t" "tx_inv t"
      using tq.get_bytes [OF Suc.prems(2) ne] tq.get_inv [OF Suc.prems(2) ne] g by simp_all
    let ?s1 = "s\<lparr>lsr := tl (lsr s), tx := t\<rparr>"
    have "sched_inv ?s1 Q" using Suc.prems(1) by simp
    then obtain s2 Q2 where w: "wakeup ChUart ?s1 = Inr s2" "sched_inv s2 Q2" "tx s2 = t" "sent s2 = sent s"
      using wakeup_cst [of ?s1 Q ChUart] by auto
    have "uartstart_loop (Suc n) s = uartstart_loop n (write_thr c s2)"
      using False g w(1) by (cases "lsr s") (auto simp: read_lsr_idle_def)
    moreover have "\<exists>s' Q'. uartstart_loop n (write_thr c s2) = Inr s' \<and> sched_inv s' Q' \<and> tx_inv (tx s') \<and>
        sent s' @ tx_bytes (tx s') = sent (write_thr c s2) @ tx_bytes (tx (write_thr c s2))"
      by (rule Suc.IH [of _ Q2]) (use w b in \<open>simp_all add: write_thr_def\<close>)
    ultimately show ?thesis using w b by (auto simp: write_thr_def)
  qed
qed auto

section \<open>Line editing\<close>

text \<open>
  The input as two lists: the bytes that \<^verbatim>\<open>consoleread\<close> may take, and the line that is
  being edited.
\<close>

definition committed :: "consbuf \<Rightarrow> u8 list" where
  "committed k = ring_bytes 128 (cbuf k) (cr k) (cw k)"

definition editing :: "consbuf \<Rightarrow> u8 list" where
  "editing k = ring_bytes 128 (cbuf k) (cw k) (ce k)"

definition cons_inv :: "consbuf \<Rightarrow> bool" where
  "cons_inv k \<longleftrightarrow> length (cbuf k) = 128 \<and> length (committed k) + length (editing k) \<le> 128 \<and> 10 \<notin> set (editing k)"

text \<open>What the header comment of \<^verbatim>\<open>console.c\<close> promises for each input character.\<close>

definition line_edit :: "int \<Rightarrow> u8 list \<times> u8 list \<Rightarrow> u8 list \<times> u8 list" where
  "line_edit c = (\<lambda>(com, ed).
     if c = C_P then (com, ed)
     else if c = C_U then (com, [])
     else if c = C_H \<or> c = 127 then (com, butlast ed)
     else if c \<noteq> 0 \<and> length com + length ed < 128 then
       let c' = (if c = 13 then 10 else c); line = ed @ [word_of_int c'] in
       if c' = 10 \<or> c' = C_D \<or> length com + length line = 128 then (com @ line, []) else (com, line)
     else (com, ed))"

definition cons_abs :: "consbuf \<Rightarrow> u8 list \<times> u8 list" where
  "cons_abs k = (committed k, editing k)"

lemma consputc_simps [simp]:
  "cons (consputc c s) = cons s" "tx (consputc c s) = tx s" "sched_inv (consputc c s) Q = sched_inv s Q"
  by (simp_all add: consputc_def uartputc_sync_def write_thr_def)

lemma cons_back:
  assumes "cons_inv k" "ce k \<noteq> cw k"
  shows "cons_inv (k\<lparr>ce := ce k - 1\<rparr>)" "cons_abs (k\<lparr>ce := ce k - 1\<rparr>) = (committed k, butlast (editing k))"
    "cbuf k ! (unat (ce k - 1) mod 128) \<noteq> 10"
proof -
  have e: "editing k = editing (k\<lparr>ce := ce k - 1\<rparr>) @ [cbuf k ! (unat (ce k - 1) mod 128)]"
    using ring_back [of "cw k" "ce k" 128 "cbuf k"] assms(2) by (simp add: editing_def)
  have c: "committed (k\<lparr>ce := ce k - 1\<rparr>) = committed k" by (simp add: committed_def)
  show "cons_abs (k\<lparr>ce := ce k - 1\<rparr>) = (committed k, butlast (editing k))"
    unfolding cons_abs_def c e by simp
  show "cbuf k ! (unat (ce k - 1) mod 128) \<noteq> 10" using assms(1) e by (auto simp: cons_inv_def)
  show "cons_inv (k\<lparr>ce := ce k - 1\<rparr>)" using assms(1) unfolding cons_inv_def c e by simp
qed

lemma kill_line_clears:
  assumes "cons_inv (cons s)" "n = unat (ce (cons s) - cw (cons s))"
  shows "cons_inv (cons (kill_line n s)) \<and> cons_abs (cons (kill_line n s)) = (committed (cons s), []) \<and>
    (sched_inv (kill_line n s) Q \<longleftrightarrow> sched_inv s Q)"
  using assms
proof (induction n arbitrary: s)
  case 0
  then have "ring_len (cw (cons s)) (ce (cons s)) = 0" by (simp add: ring_len_def)
  then have "editing (cons s) = []" by (simp add: editing_def ring_bytes_def)
  then show ?case using 0(1) by (simp add: cons_abs_def)
next
  case (Suc n)
  let ?k = "cons s"
  let ?s = "consputc BACKSPACE (s\<lparr>cons := ?k\<lparr>ce := ce ?k - 1\<rparr>\<rparr>)"
  have ne: "ce ?k \<noteq> cw ?k" using Suc.prems(2) by auto
  note b = cons_back [OF Suc.prems(1) ne]
  have "n = unat (ce ?k - 1 - cw ?k)"
    using ring_len_back [of "cw ?k" "ce ?k"] ne Suc.prems(2) by (simp add: ring_len_def)
  then have "cons_inv (cons (kill_line n ?s)) \<and> cons_abs (cons (kill_line n ?s)) = (committed (cons ?s), []) \<and>
      (sched_inv (kill_line n ?s) Q \<longleftrightarrow> sched_inv ?s Q)"
    using b(1) by (intro Suc.IH) simp_all
  moreover have "kill_line (Suc n) s = kill_line n ?s" using ne b(3) by simp
  moreover have "committed (cons ?s) = committed ?k" by (simp add: committed_def)
  ultimately show ?case by simp
qed

lemma cons_put:
  fixes b :: u8
  assumes "cons_inv k" "length (committed k) + length (editing k) < 128"
  defines "k' \<equiv> k\<lparr>cbuf := (cbuf k)[unat (ce k) mod 128 := b], ce := ce k + 1\<rparr>"
  shows "committed k' = committed k" "editing k' = editing k @ [b]" "length (cbuf k') = 128"
    "committed (k'\<lparr>cw := ce k'\<rparr>) = committed k @ editing k @ [b]" "editing (k'\<lparr>cw := ce k'\<rparr>) = []"
proof -
  have dvd: "128 dvd (2 :: nat) ^ LENGTH(32)" "128 < (2 :: nat) ^ LENGTH(32)" by simp_all
  let ?d = "(cbuf k)[unat (ce k) mod 128 := b]"
  have len: "length (cbuf k) = 128" using assms(1) by (simp add: cons_inv_def)
  have le: "ring_len (cr k) (cw k) + ring_len (cw k) (ce k) < 128"
    using assms(2) by (simp add: committed_def editing_def)
  then have l: "ring_len (cr k) (ce k) < 128" using ring_len_add [of "cr k" "cw k" "ce k"] by simp
  have e: "ring_bytes 128 ?d (cw k) (ce k + 1) = ring_bytes 128 (cbuf k) (cw k) (ce k) @ [b]"
    using ring_put [OF _ dvd len, of "cw k" "ce k"] le by simp
  have s1: "ring_len (cw k) (ce k + 1) = Suc (ring_len (cw k) (ce k))"
    using ring_len_Suc [OF _ dvd, of "cw k" "ce k"] le by simp
  have "ring_bytes 128 ?d (cr k) (cw k) @ ring_bytes 128 ?d (cw k) (ce k + 1) = ring_bytes 128 ?d (cr k) (ce k + 1)"
    using le s1 by (intro ring_append [symmetric]) simp
  also have "\<dots> = ring_bytes 128 (cbuf k) (cr k) (ce k) @ [b]" using ring_put [OF l dvd len] .
  also have "\<dots> = ring_bytes 128 (cbuf k) (cr k) (cw k) @ ring_bytes 128 (cbuf k) (cw k) (ce k) @ [b]"
    using ring_append [of "cr k" "cw k" "ce k"] le by simp
  finally have all: "ring_bytes 128 ?d (cr k) (cw k) @ ring_bytes 128 ?d (cw k) (ce k + 1) = \<dots>" .
  then have c: "ring_bytes 128 ?d (cr k) (cw k) = ring_bytes 128 (cbuf k) (cr k) (cw k)"
    by (subst (asm) append_eq_append_conv) simp_all
  show "committed k' = committed k" "editing k' = editing k @ [b]" "length (cbuf k') = 128"
    using c e len by (simp_all add: k'_def committed_def editing_def)
  have "ring_bytes 128 ?d (cr k) (ce k + 1) = ring_bytes 128 ?d (cr k) (cw k) @ ring_bytes 128 ?d (cw k) (ce k + 1)"
    using le s1 by (intro ring_append) simp
  then show "committed (k'\<lparr>cw := ce k'\<rparr>) = committed k @ editing k @ [b]" "editing (k'\<lparr>cw := ce k'\<rparr>) = []"
    using c e by (simp_all add: k'_def committed_def editing_def) (simp add: ring_bytes_def ring_len_def)
qed

section \<open>Properties\<close>

text \<open>
  C35: the console interrupt handler implements the documented line editing: on the pair of the
  committed input and the line being edited, each character acts as \<open>line_edit\<close> says (control-u
  kills the line, backspace drops its last byte, newline, control-d or a full buffer commit it,
  a full buffer ignores input), for all values of the free-running counters, and the invariant of
  the buffer is kept.
\<close>

theorem consoleintr_refines:
  assumes "sched_inv (s :: 'z cst_scheme) Q" "cons_inv (cons s)" "0 \<le> c" "c < 256"
  shows "\<exists>s' Q'. consoleintr c s = Inr s' \<and> sched_inv s' Q' \<and> cons_inv (cons s') \<and>
    cons_abs (cons s') = line_edit c (cons_abs (cons s))"
proof -
  let ?k = "cons s"
  have lt: "ce ?k - cr ?k < 128 \<longleftrightarrow> length (committed ?k) + length (editing ?k) < 128"
  proof -
    have "ring_len (cr ?k) (cw ?k) + ring_len (cw ?k) (ce ?k) < 2 ^ LENGTH(32)"
      using assms(2) by (simp add: cons_inv_def committed_def editing_def)
    then show ?thesis
      using ring_len_add [of "cr ?k" "cw ?k" "ce ?k"] by (simp add: word_less_nat_alt ring_len_def committed_def editing_def)
  qed
  consider "c = C_P" | "c = C_U" | "c = C_H \<or> c = 127" | "c \<noteq> C_P" "c \<noteq> C_U" "c \<noteq> C_H" "c \<noteq> 127" by blast
  then show ?thesis
  proof cases
    case 1
    then show ?thesis using assms by (auto simp: consoleintr_def line_edit_def cons_abs_def)
  next
    case 2
    then show ?thesis using assms kill_line_clears [OF assms(2) refl, of Q]
      by (auto simp: consoleintr_def line_edit_def cons_abs_def)
  next
    case 3
    show ?thesis
    proof (cases "ce ?k = cw ?k")
      case True
      then have "editing ?k = []" by (simp add: editing_def ring_bytes_def ring_len_def)
      then show ?thesis using 3 True assms by (auto simp: consoleintr_def line_edit_def cons_abs_def)
    next
      case False
      then show ?thesis using 3 assms cons_back [OF assms(2) False]
        by (auto simp: consoleintr_def line_edit_def cons_abs_def)
    qed
  next
    case 4
    show ?thesis
    proof (cases "c \<noteq> 0 \<and> length (committed ?k) + length (editing ?k) < 128")
      case False
      then show ?thesis using 4 lt assms by (auto simp: consoleintr_def line_edit_def cons_abs_def)
    next
      case True
      define c' where "c' = (if c = 13 then 10 else c)"
      define k' where "k' = ?k\<lparr>cbuf := (cbuf ?k)[unat (ce ?k) mod 128 := word_of_int c'], ce := ce ?k + 1\<rparr>"
      define s1 where "s1 = (consputc c' s)\<lparr>cons := k'\<rparr>"
      note p = cons_put [OF assms(2), of "word_of_int c'", folded k'_def]
      have wc: "(word_of_int c' :: u8) = 10 \<longleftrightarrow> c' = 10"
      proof
        assume "(word_of_int c' :: u8) = 10"
        then have "uint (word_of_int c' :: u8) = uint (10 :: u8)" by simp
        then show "c' = 10" using assms(3,4) by (auto simp: c'_def unsigned_of_int take_bit_int_eq_self split: if_splits)
      qed simp
      have full: "ce k' = cr k' + 128 \<longleftrightarrow> length (committed ?k) + Suc (length (editing ?k)) = 128"
      proof -
        have "ring_len (cr k') (cw k') = length (committed ?k)" "ring_len (cw k') (ce k') = Suc (length (editing ?k))"
          using arg_cong [OF p(1), of length] arg_cong [OF p(2), of length] True
          by (simp_all add: committed_def [of k'] editing_def [of k'])
        then have "ring_len (cr k') (ce k') = length (committed ?k) + Suc (length (editing ?k))"
          using True ring_len_add [of "cr k'" "cw k'" "ce k'"] by simp
        moreover have "ce k' = cr k' + 128 \<longleftrightarrow> ce k' - cr k' = 128" by (auto simp: algebra_simps)
        moreover have "\<dots> \<longleftrightarrow> unat (ce k' - cr k') = unat (128 :: u32)" by (simp only: word_unat_eq_iff)
        ultimately show ?thesis by (simp add: ring_len_def)
      qed
      have def: "consoleintr c s = (if c' = 10 \<or> c' = C_D \<or> ce k' = cr k' + 128
          then wakeup ChCons (s1\<lparr>cons := k'\<lparr>cw := ce k'\<rparr>\<rparr>) else Inr s1)"
        using 4 True lt by (simp add: consoleintr_def Let_def s1_def k'_def c'_def)
      have edit: "line_edit c (cons_abs ?k) = (if c' = 10 \<or> c' = C_D \<or> ce k' = cr k' + 128
          then (committed ?k @ editing ?k @ [word_of_int c'], []) else (committed ?k, editing ?k @ [word_of_int c']))"
        unfolding full using 4 True by (simp add: line_edit_def cons_abs_def Let_def c'_def)
      have inv1: "sched_inv s1 Q" using assms(1) by (simp add: s1_def)
      show ?thesis
      proof (cases "c' = 10 \<or> c' = C_D \<or> ce k' = cr k' + 128")
        case com: True
        obtain s' Q' where "wakeup ChCons (s1\<lparr>cons := k'\<lparr>cw := ce k'\<rparr>\<rparr>) = Inr s'" "sched_inv s' Q'"
          "cons s' = k'\<lparr>cw := ce k'\<rparr>"
          using wakeup_cst [of "s1\<lparr>cons := k'\<lparr>cw := ce k'\<rparr>\<rparr>" Q ChCons] inv1 by auto
        moreover have "cons_inv (k'\<lparr>cw := ce k'\<rparr>)" using p True by (simp add: cons_inv_def)
        ultimately show ?thesis using def edit com p True by (auto simp: cons_abs_def)
      next
        case False
        moreover have "cons_inv k'" using p True assms(2) wc False by (simp add: cons_inv_def)
        ultimately show ?thesis using def edit p True inv1 by (auto simp: cons_abs_def s1_def)
      qed
    qed
  qed
qed

text \<open>
  Output to the UART keeps its order: \<^verbatim>\<open>uartputc\<close> with room in the buffer accepts
  the byte, and the bytes written to the device followed by the bytes in the buffer are extended by
  exactly that byte; nothing is lost or reordered however often the device is busy.
\<close>

theorem uartputc_in_order:
  assumes "sched_inv (s :: 'z cst_scheme) Q" "tx_inv (tx s)" "length (tx_bytes (tx s)) < 32"
  shows "\<exists>s' Q'. uartputc c s = Inr (True, s') \<and> sched_inv s' Q' \<and> tx_inv (tx s') \<and>
    sent s' @ tx_bytes (tx s') = sent s @ tx_bytes (tx s) @ [c]"
proof -
  have "\<not> tx_full (tx s)"
  proof
    assume "tx_full (tx s)"
    then have "txw (tx s) - txr (tx s) = 32" by (simp add: tx_full_def)
    then show False using assms(3) by (simp add: tx_bytes_def ring_len_def)
  qed
  moreover have "sched_inv (s\<lparr>tx := tx_put c (tx s)\<rparr>) Q" "tx_inv (tx (s\<lparr>tx := tx_put c (tx s)\<rparr>))"
    using assms tq.put_inv [OF assms(2,3)] by simp_all
  from uartstart_loop_order [OF this, of "unat (txw (tx_put c (tx s)) - txr (tx_put c (tx s)))"]
  obtain s' Q' where "uartstart (s\<lparr>tx := tx_put c (tx s)\<rparr>) = Inr s'" "sched_inv s' Q'" "tx_inv (tx s')"
    "sent s' @ tx_bytes (tx s') = sent s @ tx_bytes (tx_put c (tx s))"
    by (auto simp: uartstart_def)
  ultimately show ?thesis
    using tq.put_bytes [OF assms(2,3)] by (intro exI [of _ s'] exI [of _ Q']) (simp add: uartputc_def)
qed

text \<open>A running process, an empty console buffer and an idle UART.\<close>

definition cons_demo :: "qtable \<Rightarrow> cst" where
  "cons_demo qt = pst.extend (pipe_demo qt \<lparr>pdata = [], nread = 0, nwrite = 0, readopen = False, writeopen = False\<rparr>)
     (cst.fields \<lparr>cbuf = replicate 128 0, cr = -1, cw = -1, ce = -1\<rparr>
        \<lparr>txbuf = replicate 32 0, txw = 31, txr = 31\<rparr> [True] [] [])"

lemma sched_inv_extend_pst: "sched_inv (pst.extend s x) Q = sched_inv (s :: pst) Q"
  by (cases "cur s") (simp_all add: pst.extend_def sched_inv_def sched_core_def resumed_def)

lemma cons_demo_simps:
  "cons (cons_demo qt) = \<lparr>cbuf = replicate 128 0, cr = -1, cw = -1, ce = -1\<rparr>"
  "tx (cons_demo qt) = \<lparr>txbuf = replicate 32 0, txw = 31, txr = 31\<rparr>" "sent (cons_demo qt) = []"
  by (simp_all add: cons_demo_def pst.extend_def cst.fields_def)

theorem consoleintr_refines_witness:
  "\<exists>qt s'. consoleintr 97 (cons_demo qt) = Inr s' \<and> cons_abs (cons s') = ([], [97])"
proof -
  obtain qt where "rq_inv qt demoQ" using demo_qtab by blast
  then have inv: "sched_inv (cons_demo qt) demoQ"
    unfolding cons_demo_def by (simp only: sched_inv_extend_pst pipe_demo_inv)
  have a: "cons_abs (cons (cons_demo qt)) = ([], [])" "cons_inv (cons (cons_demo qt))"
    by (simp_all add: cons_demo_simps cons_abs_def cons_inv_def committed_def editing_def ring_bytes_def ring_len_def)
  have "\<exists>s'. consoleintr 97 (cons_demo qt) = Inr s' \<and> cons_abs (cons s') = ([], [97])"
    using consoleintr_refines [OF inv a(2), of 97] a(1) by (auto simp: line_edit_def)
  then show ?thesis by blast
qed

theorem uartputc_in_order_witness:
  "\<exists>qt s'. uartputc 65 (cons_demo qt) = Inr (True, s') \<and> sent s' @ tx_bytes (tx s') = [65]"
proof -
  obtain qt where "rq_inv qt demoQ" using demo_qtab by blast
  then have inv: "sched_inv (cons_demo qt) demoQ"
    unfolding cons_demo_def by (simp only: sched_inv_extend_pst pipe_demo_inv)
  have t: "tx_inv (tx (cons_demo qt))" "tx_bytes (tx (cons_demo qt)) = []"
    by (simp_all add: cons_demo_simps tx_inv_def tx_bytes_def ring_bytes_def ring_len_def)
  have "\<exists>s'. uartputc 65 (cons_demo qt) = Inr (True, s') \<and> sent s' @ tx_bytes (tx s') = [65]"
    using uartputc_in_order [OF inv t(1), of 65] t(2) by (auto simp: cons_demo_simps)
  then show ?thesis by blast
qed

end
