(* ===== verification/Sleeplock.thy ===== *)
theory Sleeplock
  imports Sched
begin

text \<open>
  \<^verbatim>\<open>kernel/sleeplock.c\<close>: locks that are held across sleeps. The protecting spin lock makes
  each operation one step. The three \<open>sl_\<close> functions are the accesses to the lock itself; the
  block cache and the inode table use them for their own locks.
\<close>

record sleeplock =
  slocked :: bool
  slpid :: int

definition initsleeplock :: sleeplock where
  "initsleeplock = \<lparr>slocked = False, slpid = 0\<rparr>"

definition sl_acquire :: "int \<Rightarrow> sleeplock \<Rightarrow> sleeplock option" where
  "sl_acquire p lk = (if slocked lk then None else Some (lk\<lparr>slocked := True, slpid := p\<rparr>))"

definition sl_release :: "sleeplock \<Rightarrow> sleeplock" where
  "sl_release lk = lk\<lparr>slocked := False, slpid := 0\<rparr>"

definition sl_holding :: "int \<Rightarrow> sleeplock \<Rightarrow> bool" where
  "sl_holding p lk \<longleftrightarrow> slocked lk \<and> slpid lk = p"

text \<open>
  \<^verbatim>\<open>acquiresleep\<close> on the lock whose address is the channel \<open>c\<close>: it takes the lock, or
  the process sleeps and the loop is entered again when it runs next (\<open>acquiresleep_resume\<close>).
  The boolean says whether the lock was taken.
\<close>

definition acquiresleep ::
  "channel \<Rightarrow> sleeplock \<Rightarrow> 'z kst_scheme \<Rightarrow> (bool \<times> sleeplock \<times> 'z kst_scheme) res" where
  "acquiresleep c lk s =
     (if slocked lk then bnd (sleep c s) (\<lambda>s1. Inr (False, lk, s1))
      else bnd (myproc s) (\<lambda>i.
        case sl_acquire (pid (procs s ! i)) lk of None \<Rightarrow> Inr (False, lk, s) | Some lk' \<Rightarrow> Inr (True, lk', s)))"

definition acquiresleep_resume ::
  "channel \<Rightarrow> sleeplock \<Rightarrow> 'z kst_scheme \<Rightarrow> (bool \<times> sleeplock \<times> 'z kst_scheme) res" where
  "acquiresleep_resume c lk s = bnd (sleep_resume s) (acquiresleep c lk)"

definition releasesleep :: "channel \<Rightarrow> sleeplock \<Rightarrow> 'z kst_scheme \<Rightarrow> (sleeplock \<times> 'z kst_scheme) res" where
  "releasesleep c lk s = bnd (wakeup c s) (\<lambda>s1. Inr (sl_release lk, s1))"

definition holdingsleep :: "sleeplock \<Rightarrow> 'z kst_scheme \<Rightarrow> bool res" where
  "holdingsleep lk s = bnd (myproc s) (\<lambda>i. Inr (sl_holding (pid (procs s ! i)) lk))"

section \<open>Properties\<close>

text \<open>
  \<^verbatim>\<open>acquiresleep\<close> by the running process takes a free lock in its name, and otherwise
  puts the process to sleep on the lock's channel, with the lock unchanged; a
  \<^verbatim>\<open>releasesleep\<close> then frees the lock and makes the process runnable again, so that no
  waiter is forgotten. The scheduler invariant is kept throughout.
\<close>

theorem sleeplock_handoff:
  assumes "sched_inv s Q" "cur s = Some i"
  shows "if slocked lk then
      \<exists>s1 s2 Q2. acquiresleep c lk s = Inr (False, lk, s1) \<and> sched_inv s1 Q \<and>
        state (procs s1 ! i) = SLEEPING \<and> chan (procs s1 ! i) = c \<and>
        releasesleep c lk s1 = Inr (sl_release lk, s2) \<and> \<not> slocked (sl_release lk) \<and>
        state (procs s2 ! i) = RUNNABLE \<and> i \<in> queued Q2 \<and> sched_inv s2 Q2
    else \<exists>lk'. acquiresleep c lk s = Inr (True, lk', s) \<and> holdingsleep lk' s = Inr True"
proof (cases "slocked lk")
  case True
  have i: "i < 64" using sched_inv_curD [OF assms] by simp
  obtain s1 where s1: "sleep c s = Inr s1" "sched_inv s1 Q" "cur s1 = None"
    "s1 = s\<lparr>procs := (procs s)[i := (procs s ! i)\<lparr>chan := c, state := SLEEPING\<rparr>], cur := None\<rparr>"
    using sleep_ok [OF assms] by blast
  have len: "length (procs s) = 64" using assms(1) by (simp add: sched_inv_def sched_core_def)
  have p: "state (procs s1 ! i) = SLEEPING" "chan (procs s1 ! i) = c"
    unfolding s1(4) using i len by simp_all
  obtain qt where w: "wakeup c s1 = Inr (s1\<lparr>procs := requeue_procs (woken c (cur s1)) (\<lambda>p. p\<lparr>state := RUNNABLE\<rparr>) (procs s1), qtab := qt\<rparr>)"
    "sched_inv (s1\<lparr>procs := requeue_procs (woken c (cur s1)) (\<lambda>p. p\<lparr>state := RUNNABLE\<rparr>) (procs s1), qtab := qt\<rparr>)
       (requeued (woken c (cur s1)) (\<lambda>p. p\<lparr>state := RUNNABLE\<rparr>) (procs s1) Q)"
    using wakeup_ok [OF s1(2), of c] by blast
  let ?s2 = "s1\<lparr>procs := requeue_procs (woken c (cur s1)) (\<lambda>p. p\<lparr>state := RUNNABLE\<rparr>) (procs s1), qtab := qt\<rparr>"
  have r: "state (procs ?s2 ! i) = RUNNABLE" using i p s1(3) by simp
  moreover have "i \<in> queued (requeued (woken c (cur s1)) (\<lambda>p. p\<lparr>state := RUNNABLE\<rparr>) (procs s1) Q)"
  proof -
    have "proc_ok (procs s1 ! i)" using s1(2) i by (simp add: sched_inv_def sched_core_def)
    then have "0 \<le> queue (procs s1 ! i)" "queue (procs s1 ! i) < 3" by (auto simp: proc_ok_def)
    then have "queue (procs s1 ! i) = int (nat (queue (procs s1 ! i)))" "nat (queue (procs s1 ! i)) < 3" by auto
    then show ?thesis using i p s1(3) unfolding queued_def requeued_def by force
  qed
  ultimately show ?thesis using True s1(1,2) p w
    by (auto simp: acquiresleep_def releasesleep_def sl_release_def)
next
  case False
  then show ?thesis using assms(2)
    by (simp add: acquiresleep_def myproc_def sl_acquire_def holdingsleep_def sl_holding_def)
qed

theorem sleeplock_handoff_witness:
  "\<exists>qt s1. acquiresleep (ChInode 3) \<lparr>slocked = True, slpid = 9\<rparr> (demo 0 4 7 qt) = Inr (False, \<lparr>slocked = True, slpid = 9\<rparr>, s1) \<and>
     state (procs s1 ! 0) = SLEEPING"
proof -
  obtain qt where "rq_inv qt demoQ" using demo_qtab by blast
  then have inv: "sched_inv (demo 0 4 7 qt) demoQ" 
    by (rule demo_inv) (simp_all add: quantum_def priority_def proc_bss_def)
  have "\<exists>s1. acquiresleep (ChInode 3) \<lparr>slocked = True, slpid = 9\<rparr> (demo 0 4 7 qt) =
      Inr (False, \<lparr>slocked = True, slpid = 9\<rparr>, s1) \<and> state (procs s1 ! 0) = SLEEPING"
    using sleeplock_handoff [OF inv, of 0 "\<lparr>slocked = True, slpid = 9\<rparr>" "ChInode 3"] by (auto simp: demo_simps)
  then show ?thesis by blast
qed

end
