(* ===== verification/Bio.thy ===== *)
theory Bio
  imports Sleeplock
begin

text \<open>
  \<^verbatim>\<open>kernel/bio.c\<close>: the cache of disk blocks. The file system is modelled from here on for
  one process at a time: a buffer or inode lock held by another process ends an operation with
  \<open>Blocked\<close>, and the \<^verbatim>\<open>wakeup\<close> calls an operation makes are recorded in order in
  \<open>wakes\<close>, for \<open>Sched.wakeup\<close> to perform. The circular list through \<^verbatim>\<open>prev\<close> and
  \<^verbatim>\<open>next\<close> is the list \<open>lru\<close> of buffer numbers from \<^verbatim>\<open>head.next\<close> to
  \<^verbatim>\<open>head.prev\<close>. A transfer by the disk driver copies one block; every write to the disk is
  also recorded in \<open>dwrites\<close>, so that a crash can be placed between any two of them.
\<close>

section \<open>State\<close>

abbreviation (input) BSIZE :: nat where "BSIZE \<equiv> 1024"
abbreviation (input) ROOTDEV :: nat where "ROOTDEV \<equiv> 1"

type_synonym block = "u8 list"

record buf =
  bvalid :: bool
  bdev :: nat
  blockno :: nat
  block :: sleeplock
  refcnt :: u32
  bdata :: block

record bst =
  bufs :: "buf list"
  lru :: "nat list"
  disk :: "nat \<Rightarrow> block"
  dwrites :: "(nat \<times> block) list"
  curpid :: int
  wakes :: "channel list"

definition buf_upd :: "nat \<Rightarrow> (buf \<Rightarrow> buf) \<Rightarrow> 'z bst_scheme \<Rightarrow> 'z bst_scheme" where
  "buf_upd i f s = s\<lparr>bufs := (bufs s)[i := f (bufs s ! i)]\<rparr>"

section \<open>Operations\<close>

text \<open>The loop of \<^verbatim>\<open>binit\<close> puts each buffer at the front of the list.\<close>

definition binit :: "'z bst_scheme \<Rightarrow> 'z bst_scheme" where
  "binit s =
     (let s1 = s\<lparr>lru := []\<rparr> in
      fold (\<lambda>i s. (buf_upd i (\<lambda>b. b\<lparr>block := initsleeplock\<rparr>) s)\<lparr>lru := i # lru s\<rparr>) [0..<NBUF] s1)"

definition lock_buf :: "nat \<Rightarrow> 'z bst_scheme \<Rightarrow> (nat \<times> 'z bst_scheme) res" where
  "lock_buf i s =
     (case sl_acquire (curpid s) (block (bufs s ! i)) of
        None \<Rightarrow> Inl (Blocked (ChBuf i))
      | Some lk \<Rightarrow> Inr (i, buf_upd i (\<lambda>b. b\<lparr>block := lk\<rparr>) s))"

definition bget :: "nat \<Rightarrow> nat \<Rightarrow> 'z bst_scheme \<Rightarrow> (nat \<times> 'z bst_scheme) res" where
  "bget dev bno s =
     (case List.find (\<lambda>i. bdev (bufs s ! i) = dev \<and> blockno (bufs s ! i) = bno) (lru s) of
        Some i \<Rightarrow> lock_buf i (buf_upd i (\<lambda>b. b\<lparr>refcnt := refcnt b + 1\<rparr>) s)
      | None \<Rightarrow>
          (case List.find (\<lambda>i. refcnt (bufs s ! i) = 0) (rev (lru s)) of
             Some i \<Rightarrow> lock_buf i (buf_upd i (\<lambda>b. b\<lparr>bdev := dev, blockno := bno, bvalid := False, refcnt := 1\<rparr>) s)
           | None \<Rightarrow> Inl (Panic ''bget: no buffers'')))"

text \<open>The transfer of \<^verbatim>\<open>virtio_disk_rw(b, write)\<close> between the buffer and its block of the disk.\<close>

definition disk_rw :: "nat \<Rightarrow> bool \<Rightarrow> 'z bst_scheme \<Rightarrow> 'z bst_scheme" where
  "disk_rw i write s =
     (let b = bufs s ! i in
      if write then s\<lparr>disk := (disk s)(blockno b := bdata b), dwrites := dwrites s @ [(blockno b, bdata b)]\<rparr>
      else buf_upd i (\<lambda>b. b\<lparr>bdata := disk s (blockno b)\<rparr>) s)"

definition bread :: "nat \<Rightarrow> nat \<Rightarrow> 'z bst_scheme \<Rightarrow> (nat \<times> 'z bst_scheme) res" where
  "bread dev bno s =
     bnd (bget dev bno s) (\<lambda>(i, s1).
     Inr (i, if \<not> bvalid (bufs s1 ! i)
             then buf_upd i (\<lambda>b. b\<lparr>bvalid := True\<rparr>) (disk_rw i False s1) else s1))"

definition bwrite :: "nat \<Rightarrow> 'z bst_scheme \<Rightarrow> 'z bst_scheme res" where
  "bwrite i s =
     (if \<not> sl_holding (curpid s) (block (bufs s ! i)) then Inl (Panic ''bwrite'')
      else Inr (disk_rw i True s))"

definition brelse :: "nat \<Rightarrow> 'z bst_scheme \<Rightarrow> 'z bst_scheme res" where
  "brelse i s =
     (if \<not> sl_holding (curpid s) (block (bufs s ! i)) then Inl (Panic ''brelse'')
      else
        let s1 = (buf_upd i (\<lambda>b. b\<lparr>block := sl_release (block b)\<rparr>) s)\<lparr>wakes := wakes s @ [ChBuf i]\<rparr>;
            s2 = buf_upd i (\<lambda>b. b\<lparr>refcnt := refcnt b - 1\<rparr>) s1 in
        Inr (if refcnt (bufs s2 ! i) = 0 then s2\<lparr>lru := i # removeAll i (lru s2)\<rparr> else s2))"

definition bpin :: "nat \<Rightarrow> 'z bst_scheme \<Rightarrow> 'z bst_scheme" where
  "bpin i s = buf_upd i (\<lambda>b. b\<lparr>refcnt := refcnt b + 1\<rparr>) s"

definition bunpin :: "nat \<Rightarrow> 'z bst_scheme \<Rightarrow> 'z bst_scheme" where
  "bunpin i s = buf_upd i (\<lambda>b. b\<lparr>refcnt := refcnt b - 1\<rparr>) s"

text \<open>A store into the data of a buffer.\<close>

definition bset :: "nat \<Rightarrow> block \<Rightarrow> 'z bst_scheme \<Rightarrow> 'z bst_scheme" where
  "bset i d s = buf_upd i (\<lambda>b. b\<lparr>bdata := d\<rparr>) s"

section \<open>The contents of the block device\<close>

text \<open>The buffer of a block of the root device, and the contents of a block as the kernel sees it.\<close>

definition bufof :: "'z bst_scheme \<Rightarrow> nat \<Rightarrow> nat option" where
  "bufof s b = List.find (\<lambda>i. bdev (bufs s ! i) = ROOTDEV \<and> blockno (bufs s ! i) = b) [0..<30]"

definition view :: "'z bst_scheme \<Rightarrow> nat \<Rightarrow> block" where
  "view s b = (case bufof s b of Some i \<Rightarrow> if bvalid (bufs s ! i) then bdata (bufs s ! i) else disk s b
     | None \<Rightarrow> disk s b)"

text \<open>
  \<open>held s P H\<close>: the process holds the buffers \<open>H\<close>, the blocks \<open>P\<close> are pinned in the
  cache, no other buffer is in use, no block of the root device has two buffers, and every block
  that is not pinned or held agrees with the disk.
\<close>

definition on :: "'z bst_scheme \<Rightarrow> nat \<Rightarrow> nat \<Rightarrow> bool" where
  "on s i b \<longleftrightarrow> i < 30 \<and> bdev (bufs s ! i) = ROOTDEV \<and> blockno (bufs s ! i) = b"

definition held :: "'z bst_scheme \<Rightarrow> nat set \<Rightarrow> nat set \<Rightarrow> bool" where
  "held s P H \<longleftrightarrow> length (bufs s) = 30 \<and> distinct (lru s) \<and> set (lru s) = {..<30} \<and> H \<subseteq> {..<30} \<and>
     (\<forall>b i j. on s i b \<longrightarrow> on s j b \<longrightarrow> i = j) \<and>
     (\<forall>i<30. slocked (block (bufs s ! i)) \<longleftrightarrow> i \<in> H) \<and>
     (\<forall>i\<in>H. slpid (block (bufs s ! i)) = curpid s \<and> bdev (bufs s ! i) = 1 \<and> bvalid (bufs s ! i)) \<and>
     (\<forall>i<30. refcnt (bufs s ! i) = (if \<exists>b\<in>P. on s i b then 1 else 0) + (if i \<in> H then 1 else 0)) \<and>
     (\<forall>b\<in>P. \<exists>i. on s i b \<and> bvalid (bufs s ! i)) \<and>
     (\<forall>i b. on s i b \<and> bvalid (bufs s ! i) \<and> b \<notin> P \<and> i \<notin> H \<longrightarrow> bdata (bufs s ! i) = disk s b)"

lemma heldD:
  assumes "held s P H"
  shows "length (bufs s) = 30" "distinct (lru s)" "set (lru s) = {..<30}" "i \<in> H \<Longrightarrow> i < 30"
    "on s i b \<Longrightarrow> on s j b \<Longrightarrow> i = j"
    "i < 30 \<Longrightarrow> slocked (block (bufs s ! i)) \<longleftrightarrow> i \<in> H"
    "i \<in> H \<Longrightarrow> slpid (block (bufs s ! i)) = curpid s \<and> bdev (bufs s ! i) = 1 \<and> bvalid (bufs s ! i)"
    "i < 30 \<Longrightarrow> refcnt (bufs s ! i) = (if \<exists>b\<in>P. on s i b then 1 else 0) + (if i \<in> H then 1 else 0)"
    "b \<in> P \<Longrightarrow> \<exists>i. on s i b \<and> bvalid (bufs s ! i)"
    "on s i b \<Longrightarrow> bvalid (bufs s ! i) \<Longrightarrow> b \<notin> P \<Longrightarrow> i \<notin> H \<Longrightarrow> bdata (bufs s ! i) = disk s b"
  using assms unfolding held_def by blast+

lemma held_ref0:
  assumes "held s P H" "i < 30"
  shows "refcnt (bufs s ! i) = 0 \<longleftrightarrow> i \<notin> H \<and> (\<forall>b\<in>P. \<not> on s i b)"
  unfolding heldD(8) [OF assms] by simp

lemma held_self: "held s P H \<Longrightarrow> i \<in> H \<Longrightarrow> on s i (blockno (bufs s ! i))"
  using heldD(4,7) [of s P H i] by (simp add: on_def)

lemma on_less: "on s i b \<Longrightarrow> i < 30"
  by (simp add: on_def)

lemma on_fun: "on s i b \<Longrightarrow> on s i c \<Longrightarrow> b = c"
  by (simp add: on_def)

lemma bufof_Some: "bufof s b = Some i \<Longrightarrow> on s i b"
  by (auto simp: bufof_def find_Some_iff on_def)

lemma bufof_None: "bufof s b = None \<longleftrightarrow> (\<forall>i. \<not> on s i b)"
  by (auto simp: bufof_def find_None_iff on_def)

lemma view_on:
  assumes "\<And>j. on s j b \<Longrightarrow> j = i" "on s i b"
  shows "view s b = (if bvalid (bufs s ! i) then bdata (bufs s ! i) else disk s b)"
proof -
  have "bufof s b \<noteq> None" using assms(2) bufof_None by blast
  then have "bufof s b = Some i" using bufof_Some assms(1) by fastforce
  then show ?thesis by (simp add: view_def)
qed

lemma view_off: "(\<And>i. \<not> on s i b) \<Longrightarrow> view s b = disk s b"
  using bufof_None [of s b] by (simp add: view_def)

lemma view_cong:
  assumes "\<And>j. bdev (bufs t ! j) = bdev (bufs s ! j) \<and> blockno (bufs t ! j) = blockno (bufs s ! j) \<and>
      bvalid (bufs t ! j) = bvalid (bufs s ! j) \<and> bdata (bufs t ! j) = bdata (bufs s ! j)" "disk t = disk s"
  shows "view t = view s"
  using assms by (simp add: view_def fun_eq_iff bufof_def split: option.splits)

lemma held_view: "held s P H \<Longrightarrow> on s i b \<Longrightarrow> view s b = (if bvalid (bufs s ! i) then bdata (bufs s ! i) else disk s b)"
  by (rule view_on) (auto dest: heldD(5))

lemma buf_upd_simps [simp]:
  "bufs (buf_upd i f s) = (bufs s)[i := f (bufs s ! i)]" "lru (buf_upd i f s) = lru s"
  "disk (buf_upd i f s) = disk s" "dwrites (buf_upd i f s) = dwrites s" "curpid (buf_upd i f s) = curpid s"
  "wakes (buf_upd i f s) = wakes s"
  by (simp_all add: buf_upd_def)

section \<open>Reading, writing and releasing buffers\<close>

text \<open>There is an unused buffer as long as fewer than 30 blocks are pinned or held.\<close>

lemma free_buffer:
  assumes h: "held s P H" and P: "finite P" "card P + card H < 30"
  shows "\<exists>i<30. refcnt (bufs s ! i) = 0"
proof (rule ccontr)
  assume "\<not> ?thesis"
  then have all: "i \<in> H \<or> (\<exists>b\<in>P. on s i b)" if "i < 30" for i
    using held_ref0 [OF h that] that by blast
  define f where "f b = (SOME i. on s i b)" for b
  have fin: "finite H" using h finite_subset by (auto simp: held_def)
  have "{..<30} \<subseteq> H \<union> f ` P"
  proof
    fix i :: nat assume "i \<in> {..<30}"
    then have i: "i < 30" by simp
    show "i \<in> H \<union> f ` P"
    proof (cases "i \<in> H")
      case False
      then obtain b where b: "b \<in> P" "on s i b" using all [OF i] by blast
      then have "on s (f b) b" unfolding f_def by (metis someI)
      then show ?thesis using b heldD(5) [OF h b(2)] by blast
    qed simp
  qed
  then have "card {..<30::nat} \<le> card (H \<union> f ` P)" using fin P(1) by (intro card_mono) simp_all
  also have "\<dots> \<le> card H + card P" using card_Un_le [of H "f ` P"] card_image_le [OF P(1), of f] by linarith
  finally show False using P(2) by simp
qed

text \<open>
  The state after \<^verbatim>\<open>bread\<close>: buffer \<open>i\<close> is held for block \<open>b\<close>.
\<close>

lemma held_take:
  assumes h: "held s P H" and i: "i < 30" "i \<notin> H"
    and x: "bdev x = 1" "blockno x = b" "bvalid x" "bdata x = view s b" "block x = \<lparr>slocked = True, slpid = curpid s\<rparr>"
    and r: "refcnt x = (if b \<in> P then 2 else 1)"
    and c: "on s i b \<or> (\<forall>j. \<not> on s j b) \<and> refcnt (bufs s ! i) = 0"
  defines "s' \<equiv> s\<lparr>bufs := (bufs s)[i := x]\<rparr>"
  shows "held s' P (insert i H)" "view s' = view s"
proof -
  have nth: "bufs s' ! j = (if j = i then x else bufs s ! j)" for j
    using i heldD(1) [OF h] by (simp add: s'_def)
  have cp: "curpid s' = curpid s" by (simp add: s'_def)
  have on': "on s' j c \<longleftrightarrow> (if j = i then c = b else on s j c)" for j c
    using i x by (auto simp: on_def nth)
  have uniq: "on s j b \<Longrightarrow> j = i" for j using c heldD(5) [OF h] by blast
  have notP: "\<not> on s i p" if "p \<in> P" "p \<noteq> b" for p
  proof
    assume o: "on s i p"
    then have "\<not> on s i b" using on_fun that(2) by blast
    then have "refcnt (bufs s ! i) = 0" using c by blast
    then show False using held_ref0 [OF h i(1)] o that(1) by blast
  qed
  have inP: "b \<in> P \<Longrightarrow> on s i b" using c heldD(9) [OF h] by blast
  show "view s' = view s"
  proof
    fix p
    show "view s' p = view s p"
    proof (cases "p = b")
      case True
      have "view s' b = (if bvalid (bufs s' ! i) then bdata (bufs s' ! i) else disk s' b)"
        by (rule view_on) (use on' uniq in \<open>auto split: if_splits\<close>)
      then show ?thesis using True x nth by simp
    next
      case False
      consider j where "on s j p" "j \<noteq> i" | "on s i p" | "\<forall>j. \<not> on s j p" by blast
      then show ?thesis
      proof cases
        case 1
        then have "on s' j p" using on' by simp
        moreover have "k = j" if "on s' k p" for k
          using that on' [of k p] False heldD(5) [OF h 1(1), of k] by (simp split: if_splits)
        ultimately have "view s' p = (if bvalid (bufs s' ! j) then bdata (bufs s' ! j) else disk s' p)"
          by (intro view_on)
        then show ?thesis using held_view [OF h 1(1)] nth 1 by (simp add: s'_def)
      next
        case 2
        have "\<not> on s' j p" for j using on' False heldD(5) [OF h 2, of j] by (auto split: if_splits)
        then have "view s' p = disk s p" using view_off [of s' p] by (simp add: s'_def)
        moreover have "p \<notin> P" using notP 2 False by blast
        ultimately show ?thesis using held_view [OF h 2] heldD(10) [OF h 2] i(2) by auto
      next
        case 3
        have "\<not> on s' j p" for j using on' [of j p] False 3 by simp
        then have "view s' p = disk s' p" by (rule view_off)
        moreover have "view s p = disk s p" using 3 by (intro view_off) blast
        ultimately show ?thesis by (simp add: s'_def)
      qed
    qed
  qed
  show "held s' P (insert i H)"
    unfolding held_def
  proof (intro conjI allI impI ballI)
    fix j :: nat assume j: "j < 30"
    have "(\<exists>c\<in>P. on s' i c) \<longleftrightarrow> b \<in> P" using on' by auto
    then show "refcnt (bufs s' ! j) = (if \<exists>b\<in>P. on s' j b then 1 else 0) + (if j \<in> insert i H then 1 else 0)"
      using heldD(8) [OF h j] r nth on' by (cases "j = i") auto
  next
    fix p assume "p \<in> P"
    then obtain j where "on s j p" "bvalid (bufs s ! j)" using heldD(9) [OF h] by blast
    then show "\<exists>j. on s' j p \<and> bvalid (bufs s' ! j)"
      using on' nth x notP [OF \<open>p \<in> P\<close>] by (metis (full_types))
  next
    fix j c assume "on s' j c \<and> bvalid (bufs s' ! j) \<and> c \<notin> P \<and> j \<notin> insert i H"
    then show "bdata (bufs s' ! j) = disk s' c" using heldD(10) [OF h, of j c] on' nth by (auto simp: s'_def)
  next
    fix c j k assume "on s' j c" "on s' k c"
    then show "j = k" using on' [of j c] on' [of k c] uniq [of j] uniq [of k] heldD(5) [OF h, of j c k]
      by metis
  next
    fix j assume "j \<in> insert i H"
    then show "slpid (block (bufs s' ! j)) = curpid s'" "bdev (bufs s' ! j) = 1" "bvalid (bufs s' ! j)"
      using heldD(7) [OF h, of j] x cp by (auto simp: nth split: if_splits)
  next
    fix j :: nat assume "j < 30"
    then show "slocked (block (bufs s' ! j)) = (j \<in> insert i H)"
      using heldD(6) [OF h, of j] x by (auto simp: nth)
  qed (use heldD(1-4) [OF h] i in \<open>auto simp: s'_def\<close>)
qed

lemma sl_acquire_free: "\<not> slocked lk \<Longrightarrow> sl_acquire p lk = Some \<lparr>slocked = True, slpid = p\<rparr>"
  by (cases lk) (simp add: sl_acquire_def)

lemma find_mem: "(\<exists>x\<in>set xs. p x) \<Longrightarrow> \<exists>x. List.find p xs = Some x \<and> x \<in> set xs \<and> p x"
  by (induction xs) auto

text \<open>
  \<^verbatim>\<open>bread\<close> of a block of the root device that is not held already.
\<close>

lemma bread_held:
  assumes h: "held s P H" and n: "finite P" "b \<in> P \<or> card P + card H < 30" and b: "\<forall>i\<in>H. blockno (bufs s ! i) \<noteq> b"
  obtains i s' where "bread 1 b s = Inr (i, s')" "i < 30" "i \<notin> H" "held s' P (insert i H)" "view s' = view s"
    "bdata (bufs s' ! i) = view s b" "blockno (bufs s' ! i) = b" "\<forall>j. j \<noteq> i \<longrightarrow> bufs s' ! j = bufs s ! j"
    "\<exists>x. s' = s\<lparr>bufs := (bufs s)[i := x]\<rparr>"
proof -
  have len: "length (bufs s) = 30" using heldD(1) [OF h] .
  have "\<exists>i s'. bread 1 b s = Inr (i, s') \<and> i < 30 \<and> i \<notin> H \<and> (\<exists>x. s' = s\<lparr>bufs := (bufs s)[i := x]\<rparr> \<and>
     bdev x = 1 \<and> blockno x = b \<and> bvalid x \<and> bdata x = view s b \<and>
     block x = \<lparr>slocked = True, slpid = curpid s\<rparr> \<and> refcnt x = (if b \<in> P then 2 else 1)) \<and>
     (on s i b \<or> (\<forall>j. \<not> on s j b) \<and> refcnt (bufs s ! i) = 0)"
  proof (cases "\<exists>i. on s i b")
    case True
    then obtain i where i: "on s i b" by blast
    have f: "List.find (\<lambda>i. bdev (bufs s ! i) = 1 \<and> blockno (bufs s ! i) = b) (lru s) = Some i"
    proof -
      let ?p = "\<lambda>i. bdev (bufs s ! i) = 1 \<and> blockno (bufs s ! i) = b"
      have "i \<in> set (lru s)" "?p i" using i heldD(3) [OF h] by (simp_all add: on_def)
      then obtain j where j: "List.find ?p (lru s) = Some j" "j \<in> set (lru s)" "?p j"
        using find_mem [of "lru s" ?p] by blast
      then have "on s j b" using heldD(3) [OF h] by (simp add: on_def)
      then show ?thesis using heldD(5) [OF h i] j(1) by simp
    qed
    have i30: "i < 30" using i on_less by blast
    have iH: "i \<notin> H" using b i by (auto simp: on_def)
    have r: "refcnt (bufs s ! i) = (if b \<in> P then 1 else 0)"
    proof -
      have "(\<exists>c\<in>P. on s i c) \<longleftrightarrow> b \<in> P" using on_fun i by blast
      then show ?thesis using heldD(8) [OF h i30] iH by simp
    qed
    have l: "\<not> slocked (block (bufs s ! i))" using heldD(6) [OF h i30] iH by simp
    define y where "y = (bufs s ! i)\<lparr>refcnt := refcnt (bufs s ! i) + 1, block := \<lparr>slocked = True, slpid = curpid s\<rparr>\<rparr>"
    have g: "bget 1 b s = Inr (i, s\<lparr>bufs := (bufs s)[i := y]\<rparr>)"
      unfolding bget_def f using l len i30 by (simp add: lock_buf_def sl_acquire_free buf_upd_def y_def)
    define x where "x = (if bvalid y then y else y\<lparr>bdata := disk s b, bvalid := True\<rparr>)"
    have "bread 1 b s = Inr (i, s\<lparr>bufs := (bufs s)[i := x]\<rparr>)"
      unfolding bread_def g using len i30 i by (simp add: disk_rw_def buf_upd_def x_def y_def on_def)
    moreover have "bdev x = 1" "blockno x = b" "bvalid x" "bdata x = view s b"
      "block x = \<lparr>slocked = True, slpid = curpid s\<rparr>" "refcnt x = (if b \<in> P then 2 else 1)"
      using i r held_view [OF h i] by (simp_all add: x_def y_def on_def)
    ultimately show ?thesis using i i30 iH by blast
  next
    case False
    then have f: "List.find (\<lambda>i. bdev (bufs s ! i) = 1 \<and> blockno (bufs s ! i) = b) (lru s) = None"
      using heldD(3) [OF h] by (auto simp: find_None_iff on_def)
    have bP: "b \<notin> P" using heldD(9) [OF h] False by blast
    obtain i where i: "List.find (\<lambda>i. refcnt (bufs s ! i) = 0) (rev (lru s)) = Some i" "i < 30" "refcnt (bufs s ! i) = 0"
      using find_mem [of "rev (lru s)" "\<lambda>i. refcnt (bufs s ! i) = 0"] free_buffer [OF h n(1)] n(2) bP heldD(3) [OF h] by auto
    have iH: "i \<notin> H" using held_ref0 [OF h i(2)] i(3) by simp
    have l: "\<not> slocked (block (bufs s ! i))" using heldD(6) [OF h i(2)] iH by simp
    define y where "y = (bufs s ! i)\<lparr>bdev := 1, blockno := b, bvalid := False, refcnt := 1,
      block := \<lparr>slocked = True, slpid = curpid s\<rparr>\<rparr>"
    have g: "bget 1 b s = Inr (i, s\<lparr>bufs := (bufs s)[i := y]\<rparr>)"
      unfolding bget_def f using l len i by (simp add: lock_buf_def sl_acquire_free buf_upd_def y_def)
    define x where "x = y\<lparr>bdata := disk s b, bvalid := True\<rparr>"
    have "bread 1 b s = Inr (i, s\<lparr>bufs := (bufs s)[i := x]\<rparr>)"
      unfolding bread_def g using len i by (simp add: disk_rw_def buf_upd_def x_def y_def)
    moreover have "bdev x = 1" "blockno x = b" "bvalid x" "bdata x = view s b"
      "block x = \<lparr>slocked = True, slpid = curpid s\<rparr>" "refcnt x = (if b \<in> P then 2 else 1)"
      using bP view_off [of s b] False by (simp_all add: x_def y_def)
    ultimately show ?thesis using i iH False by blast
  qed
  then obtain i s' x where x: "bread 1 b s = Inr (i, s')" "i < 30" "i \<notin> H" "s' = s\<lparr>bufs := (bufs s)[i := x]\<rparr>"
     "bdev x = 1" "blockno x = b" "bvalid x" "bdata x = view s b"
     "block x = \<lparr>slocked = True, slpid = curpid s\<rparr>" "refcnt x = (if b \<in> P then 2 else 1)"
     "on s i b \<or> (\<forall>j. \<not> on s j b) \<and> refcnt (bufs s ! i) = 0" by blast
  note t = held_take [OF h x(2,3,5-11), folded x(4)]
  have "bufs s' ! i = x" using x(2,4) len by simp
  then show thesis using that [OF x(1-3) t] x(4,6,8) by auto
qed

text \<open>What an operation on buffers leaves alone.\<close>

definition same :: "'z bst_scheme \<Rightarrow> 'z bst_scheme \<Rightarrow> bool" where
  "same s s' \<longleftrightarrow> bst.more s' = bst.more s \<and> curpid s' = curpid s"

lemma same_refl [simp]: "same s s"
  by (simp add: same_def)

lemma same_trans [trans]: "same s t \<Longrightarrow> same t u \<Longrightarrow> same s u"
  by (simp add: same_def)

lemma held_nth:
  assumes "held s P H" "i \<in> H"
  shows "(bufs s)[i := x] ! j = (if j = i then x else bufs s ! j)"
  using assms heldD(1,4) [OF assms(1)] by (simp add: nth_list_update)

text \<open>A change of the data or of the disk under a held buffer.\<close>

lemma held_frame:
  assumes h: "held s P H" and l: "lru s' = lru s" "curpid s' = curpid s" "length (bufs s') = length (bufs s)"
    and b: "\<And>j. bvalid (bufs s' ! j) = bvalid (bufs s ! j) \<and> bdev (bufs s' ! j) = bdev (bufs s ! j) \<and>
      blockno (bufs s' ! j) = blockno (bufs s ! j) \<and> block (bufs s' ! j) = block (bufs s ! j) \<and>
      refcnt (bufs s' ! j) = refcnt (bufs s ! j)"
    and d: "\<And>j b. on s j b \<Longrightarrow> bvalid (bufs s ! j) \<Longrightarrow> b \<notin> P \<Longrightarrow> j \<notin> H \<Longrightarrow> bdata (bufs s' ! j) = disk s' b"
  shows "held s' P H"
proof -
  have o: "on s' = on s" using b by (simp add: on_def fun_eq_iff)
  have "\<forall>i b. on s i b \<and> bvalid (bufs s ! i) \<and> b \<notin> P \<and> i \<notin> H \<longrightarrow> bdata (bufs s' ! i) = disk s' b" using d by blast
  then show ?thesis using h unfolding held_def
    by (simp only: o b l) (elim conjE, intro conjI refl TrueI; assumption)
qed

lemma bset_held:
  assumes h: "held s P H" and i: "i \<in> H"
  shows "held (bset i d s) P H" and "view (bset i d s) = (view s)(blockno (bufs s ! i) := d)"
    and "disk (bset i d s) = disk s" and "dwrites (bset i d s) = dwrites s" and "same s (bset i d s)"
    and "bdata (bufs (bset i d s) ! j) = (if j = i then d else bdata (bufs s ! j))"
    and "blockno (bufs (bset i d s) ! j) = blockno (bufs s ! j)"
proof -
  note nth = held_nth [OF h i]
  show h': "held (bset i d s) P H"
    by (rule held_frame [OF h]) (use i heldD(10) [OF h] in \<open>auto simp: bset_def nth\<close>)
  show "disk (bset i d s) = disk s" "dwrites (bset i d s) = dwrites s" "same s (bset i d s)"
    by (simp_all add: bset_def same_def buf_upd_def)
  show "bdata (bufs (bset i d s) ! j) = (if j = i then d else bdata (bufs s ! j))"
    "blockno (bufs (bset i d s) ! j) = blockno (bufs s ! j)" by (simp_all add: bset_def nth)
  have o: "on (bset i d s) = on s" by (simp add: on_def fun_eq_iff bset_def nth)
  show "view (bset i d s) = (view s)(blockno (bufs s ! i) := d)"
  proof
    fix b
    show "view (bset i d s) b = ((view s)(blockno (bufs s ! i) := d)) b"
    proof (cases "\<exists>j. on s j b")
      case True
      then obtain j where j: "on s j b" by blast
      show ?thesis using held_view [OF h j] held_view [OF h', unfolded o, OF j] heldD(7) [OF h i] held_self [OF h i] j
          heldD(5) [OF h j, of i]
        by (cases "j = i") (auto simp: bset_def nth on_def)
    next
      case False
      then have "b \<noteq> blockno (bufs s ! i)" using held_self [OF h i] by blast
      then show ?thesis using view_off [of s b] view_off [of "bset i d s" b] False o by (simp add: bset_def)
    qed
  qed
qed

lemma bwrite_held:
  assumes h: "held s P H" and i: "i \<in> H"
  obtains s' where "bwrite i s = Inr s'" "held s' P H" "view s' = view s"
    "disk s' = (disk s)(blockno (bufs s ! i) := bdata (bufs s ! i))"
    "dwrites s' = dwrites s @ [(blockno (bufs s ! i), bdata (bufs s ! i))]" "same s s'" "bufs s' = bufs s"
proof -
  let ?s = "disk_rw i True s" and ?b = "blockno (bufs s ! i)"
  have i30: "i < 30" using heldD(4) [OF h i] .
  have w: "bwrite i s = Inr ?s"
    using heldD(7) [OF h i] heldD(6) [OF h i30] i by (simp add: bwrite_def sl_holding_def)
  have e: "disk ?s = (disk s)(?b := bdata (bufs s ! i))"
    "dwrites ?s = dwrites s @ [(?b, bdata (bufs s ! i))]" "same s ?s" "bufs ?s = bufs s" "lru ?s = lru s" "curpid ?s = curpid s"
    by (simp_all add: disk_rw_def same_def Let_def)
  have ne: "j \<noteq> i \<Longrightarrow> on s j b \<Longrightarrow> b \<noteq> ?b" for j b using heldD(5) [OF h] held_self [OF h i] by blast
  have h': "held ?s P H"
  proof (rule held_frame [OF h e(5,6)])
    fix j b assume j: "on s j b" "bvalid (bufs s ! j)" "b \<notin> P" "j \<notin> H"
    then have "b \<noteq> ?b" using ne [OF _ j(1)] i by blast
    then show "bdata (bufs ?s ! j) = disk ?s b" using heldD(10) [OF h j] e by simp
  qed (simp_all add: e)
  have o: "on ?s = on s" by (simp add: on_def fun_eq_iff e)
  have "view ?s = view s"
  proof
    fix b
    show "view ?s b = view s b"
    proof (cases "\<exists>j. on s j b")
      case True
      then obtain j where j: "on s j b" by blast
      show ?thesis using held_view [OF h j] held_view [OF h', unfolded o, OF j] heldD(7) [OF h i] ne [OF _ j] e
        by (cases "j = i") auto
    next
      case False
      then have "b \<noteq> ?b" using held_self [OF h i] by blast
      then show ?thesis using view_off [of s b] view_off [of ?s b] False o e by simp
    qed
  qed
  then show thesis using that w h' e by blast
qed

lemma brelse_held:
  assumes h: "held s P H" and i: "i \<in> H"
    and c: "blockno (bufs s ! i) \<in> P \<or> bdata (bufs s ! i) = disk s (blockno (bufs s ! i))"
  obtains s' where "brelse i s = Inr s'" "held s' P (H - {i})" "view s' = view s"
    "disk s' = disk s" "dwrites s' = dwrites s" "same s s'"
    "\<forall>j. bdata (bufs s' ! j) = bdata (bufs s ! j) \<and> blockno (bufs s' ! j) = blockno (bufs s ! j)"
proof -
  have i30: "i < 30" using heldD(4) [OF h i] .
  let ?x = "(bufs s ! i)\<lparr>block := sl_release (block (bufs s ! i)), refcnt := refcnt (bufs s ! i) - 1\<rparr>"
  define t where "t = s\<lparr>bufs := (bufs s)[i := ?x], wakes := wakes s @ [ChBuf i]\<rparr>"
  define z where "z \<longleftrightarrow> refcnt ?x = 0"
  define s' where "s' = (if z then t\<lparr>lru := i # removeAll i (lru t)\<rparr> else t)"
  have len: "length (bufs s) = 30" using heldD(1) [OF h] .
  have b: "brelse i s = Inr s'"
  proof -
    have "sl_holding (curpid s) (block (bufs s ! i))"
      using heldD(7) [OF h i] heldD(6) [OF h i30] i by (simp add: sl_holding_def)
    moreover have "buf_upd i (\<lambda>b. b\<lparr>refcnt := refcnt b - 1\<rparr>)
        ((buf_upd i (\<lambda>b. b\<lparr>block := sl_release (block b)\<rparr>) s)\<lparr>wakes := wakes s @ [ChBuf i]\<rparr>) = t"
      using i30 len by (simp add: buf_upd_def t_def)
    moreover have "bufs t ! i = ?x" using i30 len by (simp add: t_def)
    ultimately show ?thesis unfolding brelse_def Let_def s'_def z_def by (simp only: if_False not_True_eq_False)
  qed
  have e: "disk s' = disk s" "dwrites s' = dwrites s" "same s s'" "bufs s' = (bufs s)[i := ?x]" "curpid s' = curpid s"
    by (simp_all add: s'_def t_def same_def)
  have "lru s' = (if z then i # removeAll i (lru s) else lru s)" unfolding s'_def t_def by (cases z) simp_all
  then have l: "distinct (lru s')" "set (lru s') = {..<30}"
    using heldD(2) [OF h] heldD(3) [OF h] i30 by (cases z; simp add: distinct_removeAll insert_absorb)+
  have nth: "bufs s' ! j = (if j = i then ?x else bufs s ! j)" for j
    using held_nth [OF h i] e(4) by simp
  have keep: "bdata (bufs s' ! j) = bdata (bufs s ! j) \<and> blockno (bufs s' ! j) = blockno (bufs s ! j)
    \<and> bdev (bufs s' ! j) = bdev (bufs s ! j) \<and> bvalid (bufs s' ! j) = bvalid (bufs s ! j)" for j
    by (simp add: nth)
  have o: "on s' = on s" by (simp add: on_def fun_eq_iff keep)
  have "view s' = view s"
    by (rule view_cong) (use keep e(1) in blast)+
  moreover have "held s' P (H - {i})"
    unfolding held_def o
  proof (intro conjI allI impI ballI)
    fix j c' assume j: "on s j c' \<and> bvalid (bufs s' ! j) \<and> c' \<notin> P \<and> j \<notin> H - {i}"
    then show "bdata (bufs s' ! j) = disk s' c'"
      using heldD(10) [OF h, of j c'] c keep e(1) by (cases "j = i") (auto simp: on_def)
  next
    fix j :: nat assume "j < 30"
    then show "refcnt (bufs s' ! j) = (if \<exists>b\<in>P. on s j b then 1 else 0) + (if j \<in> H - {i} then 1 else 0)"
      using heldD(8) [OF h, of j] i by (cases "j = i") (auto simp: nth)
  next
    fix j :: nat assume "j < 30"
    then show "slocked (block (bufs s' ! j)) = (j \<in> H - {i})"
      using heldD(6) [OF h, of j] by (auto simp: nth sl_release_def)
  next
    fix j assume "j \<in> H - {i}"
    then show "slpid (block (bufs s' ! j)) = curpid s'" "bdev (bufs s' ! j) = 1" "bvalid (bufs s' ! j)"
      using heldD(7) [OF h, of j] by (auto simp: nth e)
  next
    show "H - {i} \<subseteq> {..<30}" using heldD(4) [OF h] by blast
  next
    fix b j k assume "on s j b" "on s k b"
    then show "j = k" by (rule heldD(5) [OF h])
  next
    fix b assume "b \<in> P"
    then show "\<exists>j. on s j b \<and> bvalid (bufs s' ! j)" using heldD(9) [OF h] keep by blast
  qed (simp_all add: l e(4) len)
  ultimately show thesis using that b e keep by blast
qed

lemma bpin_held:
  assumes h: "held s P H" and i: "i \<in> H" and b: "blockno (bufs s ! i) \<notin> P"
  shows "held (bpin i s) (insert (blockno (bufs s ! i)) P) H"
proof -
  let ?b = "blockno (bufs s ! i)"
  note nth = held_nth [OF h i]
  have o: "on (bpin i s) = on s" by (simp add: on_def fun_eq_iff bpin_def nth)
  have self: "on s i ?b" using held_self [OF h i] .
  have iff: "(\<exists>b\<in>insert ?b P. on s j b) \<longleftrightarrow> j = i \<or> (\<exists>b\<in>P. on s j b)" for j
    using self heldD(5) [OF h self, of j] by blast
  have no: "\<not> (\<exists>b\<in>P. on s i b)" using b on_fun [OF self] by blast
  show ?thesis unfolding held_def o iff
  proof (intro conjI allI impI ballI)
    fix j :: nat assume j: "j < 30"
    show "refcnt (bufs (bpin i s) ! j) = (if j = i \<or> (\<exists>b\<in>P. on s j b) then 1 else 0) + (if j \<in> H then 1 else 0)"
      using heldD(8) [OF h j] no i by (cases "j = i") (simp_all add: bpin_def nth)
  next
    fix p assume p: "p \<in> insert ?b P"
    show "\<exists>j. on s j p \<and> bvalid (bufs (bpin i s) ! j)"
    proof (cases "p = ?b")
      case True
      then show ?thesis using self heldD(7) [OF h i] by (intro exI [of _ i]) (simp add: bpin_def nth)
    next
      case False
      then have "p \<in> P" using p by blast
      then show ?thesis using heldD(9) [OF h] by (fastforce simp: bpin_def nth)
    qed
  qed (use heldD [OF h] in \<open>auto simp: bpin_def nth\<close>)
qed

lemma bunpin_held:
  assumes h: "held s P H" and i: "i \<in> H" and b: "blockno (bufs s ! i) \<in> P"
  shows "held (bunpin i s) (P - {blockno (bufs s ! i)}) H"
proof -
  let ?b = "blockno (bufs s ! i)"
  note nth = held_nth [OF h i]
  have o: "on (bunpin i s) = on s" by (simp add: on_def fun_eq_iff bunpin_def nth)
  have self: "on s i ?b" using held_self [OF h i] .
  have iff: "(\<exists>b\<in>P - {?b}. on s j b) \<longleftrightarrow> j \<noteq> i \<and> (\<exists>b\<in>P. on s j b)" for j
    using self on_fun [OF self] heldD(5) [OF h self, of j] by blast
  show ?thesis unfolding held_def o iff
  proof (intro conjI allI impI ballI)
    fix j :: nat assume j: "j < 30"
    have "\<exists>b\<in>P. on s i b" using self b by blast
    then show "refcnt (bufs (bunpin i s) ! j) = (if j \<noteq> i \<and> (\<exists>b\<in>P. on s j b) then 1 else 0) + (if j \<in> H then 1 else 0)"
      using heldD(8) [OF h j] i by (cases "j = i") (simp_all add: bunpin_def nth)
  next
    fix p assume p: "p \<in> P - {?b}"
    then show "\<exists>j. on s j p \<and> bvalid (bufs (bunpin i s) ! j)"
      using heldD(9) [OF h, of p] by (fastforce simp: bunpin_def nth)
  next
    fix j c assume j: "on s j c \<and> bvalid (bufs (bunpin i s) ! j) \<and> c \<notin> P - {?b} \<and> j \<notin> H"
    then have "c \<noteq> ?b" using heldD(5) [OF h self, of j] i by blast
    then show "bdata (bufs (bunpin i s) ! j) = disk (bunpin i s) c"
      using heldD(10) [OF h, of j c] j by (auto simp: bunpin_def nth split: if_splits)
  qed (use heldD(1-7) [OF h] in \<open>auto simp: bunpin_def nth\<close>)
qed

end
