(* ===== verification/Log.thy ===== *)
theory Log
  imports Bio
begin

text \<open>
  \<^verbatim>\<open>kernel/log.c\<close>: the write-ahead log that makes a group of block writes atomic. The
  header of the log is kept in memory (\<open>lh_n\<close>, \<open>lh_block\<close>) and in the first block of
  the log. The development shows what \<^verbatim>\<open>commit\<close> writes and in which order, and that
  \<^verbatim>\<open>recover_from_log\<close> after a crash at any point of it leaves all or none of the writes.
\<close>

section \<open>Integers in blocks\<close>

text \<open>
  Little-endian 32 and 16 bit integers at an offset of a block, as the casts of
  \<^verbatim>\<open>bp->data\<close> to the on-disk structures read and write them.
\<close>

fun le :: "u8 list \<Rightarrow> nat" where
  "le [] = 0"
| "le (b # bs) = unat b + 256 * le bs"

fun le_bytes :: "nat \<Rightarrow> nat \<Rightarrow> u8 list" where
  "le_bytes 0 v = []"
| "le_bytes (Suc n) v = word_of_nat (v mod 256) # le_bytes n (v div 256)"

definition put :: "nat \<Rightarrow> u8 list \<Rightarrow> u8 list \<Rightarrow> u8 list" where
  "put off bs d = take off d @ bs @ drop (off + length bs) d"

definition get32 :: "nat \<Rightarrow> u8 list \<Rightarrow> nat" where
  "get32 off d = le (take 4 (drop off d))"

definition put32 :: "nat \<Rightarrow> nat \<Rightarrow> u8 list \<Rightarrow> u8 list" where
  "put32 off v d = put off (le_bytes 4 v) d"

text \<open>A 32 bit value as a signed \<^verbatim>\<open>int\<close>.\<close>

definition s32 :: "nat \<Rightarrow> int" where
  "s32 v = (if v < 2 ^ 31 then int v else int v - 2 ^ 32)"

lemma length_le_bytes [simp]: "length (le_bytes n v) = n"
  by (induction n arbitrary: v) simp_all

lemma le_le_bytes: "v < 256 ^ n \<Longrightarrow> le (le_bytes n v) = v"
proof (induction n arbitrary: v)
  case (Suc n)
  have "v div 256 < 256 ^ n" using Suc.prems by (simp add: less_mult_imp_div_less)
  then show ?case using Suc.IH by (simp add: unat_of_nat take_bit_nat_eq_self_iff take_bit_eq_mod)
qed simp

lemma length_put [simp]: "off + length bs \<le> length d \<Longrightarrow> length (put off bs d) = length d"
  by (simp add: put_def)

lemma get_put_same:
  "off + length bs \<le> length d \<Longrightarrow> take (length bs) (drop off (put off bs d)) = bs"
  by (simp add: put_def)

lemma get_put_other:
  assumes "off + length bs \<le> length d" "o' + n \<le> off \<or> off + length bs \<le> o'"
  shows "take n (drop o' (put off bs d)) = take n (drop o' d)"
proof (rule nth_equalityI)
  show "length (take n (drop o' (put off bs d))) = length (take n (drop o' d))" using assms(1) by simp
next
  fix i assume "i < length (take n (drop o' (put off bs d)))"
  then have i: "i < n" "o' + i < length d" using assms(1) by auto
  have "put off bs d ! (o' + i) = d ! (o' + i)" using assms i
    by (auto simp: put_def nth_append)
  then show "take n (drop o' (put off bs d)) ! i = take n (drop o' d) ! i" using i assms(1) by simp
qed

lemma length_put32 [simp]: "off + 4 \<le> length d \<Longrightarrow> length (put32 off v d) = length d"
  by (simp add: put32_def)

lemma get32_put32: "off + 4 \<le> length d \<Longrightarrow> v < 2 ^ 32 \<Longrightarrow> get32 off (put32 off v d) = v"
  using get_put_same [of off "le_bytes 4 v" d] le_le_bytes [of v 4] by (simp add: get32_def put32_def)

lemma get32_put32_other:
  "off + 4 \<le> length d \<Longrightarrow> o' + 4 \<le> off \<or> off + 4 \<le> o' \<Longrightarrow> get32 o' (put32 off v d) = get32 o' d"
  using get_put_other [of off "le_bytes 4 v" d o' 4] by (simp add: get32_def put32_def)

section \<open>State\<close>

record lst = bst +
  lstart :: nat
  lsize :: int
  outstanding :: int
  committing :: bool
  ldev :: nat
  lh_n :: int
  lh_block :: "nat list"

section \<open>Operations\<close>

text \<open>One iteration of the loops of \<^verbatim>\<open>install_trans\<close> and \<^verbatim>\<open>write_log\<close>.\<close>

definition install_one :: "bool \<Rightarrow> nat \<Rightarrow> 'z lst_scheme \<Rightarrow> 'z lst_scheme res" where
  "install_one recovering tail s =
     bnd (bread (ldev s) (lstart s + tail + 1) s) (\<lambda>(lbuf, s1).
     bnd (bread (ldev s1) (lh_block s1 ! tail) s1) (\<lambda>(dbuf, s2).
     let s3 = bset dbuf (bdata (bufs s2 ! lbuf)) s2 in
     bnd (bwrite dbuf s3) (\<lambda>s4.
     let s5 = (if recovering then s4 else bunpin dbuf s4) in
     bnd (brelse lbuf s5) (brelse dbuf))))"

definition install_trans :: "bool \<Rightarrow> 'z lst_scheme \<Rightarrow> 'z lst_scheme res" where
  "install_trans recovering s =
     (if lh_n s > int LOGSIZE then Inl OutOfBounds
      else foldres (install_one recovering) [0..<nat (lh_n s)] s)"

definition read_head :: "'z lst_scheme \<Rightarrow> 'z lst_scheme res" where
  "read_head s =
     bnd (bread (ldev s) (lstart s) s) (\<lambda>(i, s1).
     let d = bdata (bufs s1 ! i); n = s32 (get32 0 d) in
     if n > int LOGSIZE then Inl OutOfBounds
     else brelse i (s1\<lparr>lh_n := n,
            lh_block := map (\<lambda>k. if int k < n then get32 (4 + 4 * k) d else lh_block s1 ! k) [0..<LOGSIZE]\<rparr>))"

definition head_data :: "int \<Rightarrow> nat list \<Rightarrow> block \<Rightarrow> block" where
  "head_data n bl d = fold (\<lambda>k. put32 (4 + 4 * k) (bl ! k)) [0..<nat n] (put32 0 (nat (n mod 2 ^ 32)) d)"

definition write_head :: "'z lst_scheme \<Rightarrow> 'z lst_scheme res" where
  "write_head s =
     bnd (bread (ldev s) (lstart s) s) (\<lambda>(i, s1).
     if lh_n s1 > int LOGSIZE then Inl OutOfBounds
     else bnd (bwrite i (bset i (head_data (lh_n s1) (lh_block s1) (bdata (bufs s1 ! i))) s1)) (brelse i))"

definition recover_from_log :: "'z lst_scheme \<Rightarrow> 'z lst_scheme res" where
  "recover_from_log s =
     bnd (read_head s) (\<lambda>s1.
     bnd (install_trans True s1) (\<lambda>s2.
     write_head (s2\<lparr>lh_n := 0\<rparr>)))"

text \<open>
  The log header is 124 bytes, so the size check of \<^verbatim>\<open>initlog\<close> always passes;
  \<open>logstart\<close> and \<open>nlog\<close> are the fields of the superblock.
\<close>

definition initlog :: "nat \<Rightarrow> nat \<Rightarrow> nat \<Rightarrow> 'z lst_scheme \<Rightarrow> 'z lst_scheme res" where
  "initlog dev logstart nlog s =
     (if 4 + 4 * LOGSIZE \<ge> BSIZE then Inl (Panic ''initlog: too big logheader'')
      else recover_from_log (s\<lparr>lstart := logstart, lsize := int nlog, ldev := dev\<rparr>))"

definition begin_op :: "'z lst_scheme \<Rightarrow> 'z lst_scheme res" where
  "begin_op s =
     (if committing s then Inl (Blocked ChLog)
      else if lh_n s + (outstanding s + 1) * int MAXOPBLOCKS > int LOGSIZE then Inl (Blocked ChLog)
      else Inr (s\<lparr>outstanding := outstanding s + 1\<rparr>))"

definition write_log_one :: "nat \<Rightarrow> 'z lst_scheme \<Rightarrow> 'z lst_scheme res" where
  "write_log_one tail s =
     bnd (bread (ldev s) (lstart s + tail + 1) s) (\<lambda>(to, s1).
     bnd (bread (ldev s1) (lh_block s1 ! tail) s1) (\<lambda>(frm, s2).
     let s3 = bset to (bdata (bufs s2 ! frm)) s2 in
     bnd (bwrite to s3) (\<lambda>s4.
     bnd (brelse frm s4) (brelse to))))"

definition write_log :: "'z lst_scheme \<Rightarrow> 'z lst_scheme res" where
  "write_log s =
     (if lh_n s > int LOGSIZE then Inl OutOfBounds
      else foldres write_log_one [0..<nat (lh_n s)] s)"

definition commit :: "'z lst_scheme \<Rightarrow> 'z lst_scheme res" where
  "commit s =
     (if lh_n s > 0 then
        bnd (write_log s) (\<lambda>s1.
        bnd (write_head s1) (\<lambda>s2.
        bnd (install_trans False s2) (\<lambda>s3.
        write_head (s3\<lparr>lh_n := 0\<rparr>))))
      else Inr s)"

definition end_op :: "'z lst_scheme \<Rightarrow> 'z lst_scheme res" where
  "end_op s =
     (let s1 = s\<lparr>outstanding := outstanding s - 1\<rparr> in
      if committing s1 then Inl (Panic ''log.committing'')
      else if outstanding s1 = 0 then
        bnd (commit (s1\<lparr>committing := True\<rparr>)) (\<lambda>s2.
        Inr (s2\<lparr>committing := False, wakes := wakes s2 @ [ChLog]\<rparr>))
      else Inr (s1\<lparr>wakes := wakes s1 @ [ChLog]\<rparr>))"

text \<open>The position at which \<^verbatim>\<open>log_write\<close> finds the block, or the length of the log.\<close>

fun log_find :: "nat list \<Rightarrow> nat \<Rightarrow> nat" where
  "log_find [] b = 0"
| "log_find (x # xs) b = (if x = b then 0 else Suc (log_find xs b))"

definition log_write :: "nat \<Rightarrow> 'z lst_scheme \<Rightarrow> 'z lst_scheme res" where
  "log_write bi s =
     (if lh_n s \<ge> int LOGSIZE \<or> lh_n s \<ge> lsize s - 1 then Inl (Panic ''too big a transaction'')
      else if outstanding s < 1 then Inl (Panic ''log_write outside of trans'')
      else
        let b = blockno (bufs s ! bi);
            i = log_find (take (nat (lh_n s)) (lh_block s)) b;
            s1 = s\<lparr>lh_block := (lh_block s)[i := b]\<rparr> in
        Inr (if int i = lh_n s1 then (bpin bi s1)\<lparr>lh_n := lh_n s1 + 1\<rparr> else s1))"

section \<open>Copying one block\<close>

lemma bread_fresh:
  assumes "held s P {}" "finite P" "card P < 30"
  obtains i s' where "bread 1 b s = Inr (i, s')" "i < 30" "held s' P {i}" "view s' = view s"
    "bdata (bufs s' ! i) = view s b" "blockno (bufs s' ! i) = b" "\<exists>x. s' = s\<lparr>bufs := (bufs s)[i := x]\<rparr>"
  using bread_held [OF assms(1,2), of b thesis] assms(3) that by simp

lemma bread_second:
  assumes "held s P {i}" "finite P" "b \<in> P \<or> card P < 29" "blockno (bufs s ! i) \<noteq> b"
  obtains j s' where "bread 1 b s = Inr (j, s')" "j < 30" "j \<noteq> i" "held s' P {i, j}" "view s' = view s"
    "bdata (bufs s' ! j) = view s b" "blockno (bufs s' ! j) = b" "bufs s' ! i = bufs s ! i"
    "\<exists>x. s' = s\<lparr>bufs := (bufs s)[j := x]\<rparr>"
proof (rule bread_held [OF assms(1,2), of b])
  show "b \<in> P \<or> card P + card {i} < 30" using assms(3) by auto
  show "\<forall>k\<in>{i}. blockno (bufs s ! k) \<noteq> b" using assms(4) by simp
qed (rule that, auto simp: insert_commute)

lemma held_clean:
  assumes h: "held s P {}" and b: "b \<notin> P"
  shows "view s b = disk s b"
proof (cases "\<exists>i. on s i b")
  case True
  then obtain i where i: "on s i b" by blast
  then show ?thesis using held_view [OF h i] heldD(10) [OF h i _ b] by auto
next
  case False
  then show ?thesis using view_off [of s b] by blast
qed

text \<open>
  \<open>copied s t P dst v\<close>: the state after block \<open>dst\<close> has been written with \<open>v\<close>.
\<close>

definition copied :: "'z bst_scheme \<Rightarrow> 'z bst_scheme \<Rightarrow> nat set \<Rightarrow> nat \<Rightarrow> block \<Rightarrow> bool" where
  "copied s t P dst v \<longleftrightarrow> held t P {} \<and> view t = (view s)(dst := v) \<and> disk t = (disk s)(dst := v) \<and>
     dwrites t = dwrites s @ [(dst, v)] \<and> same s t"

lemma upd_same: "\<exists>x. s' = s\<lparr>bufs := (bufs s)[i := x]\<rparr> \<Longrightarrow> same s s' \<and> disk s' = disk s \<and> dwrites s' = dwrites s"
  by (auto simp: same_def)

text \<open>The common tail of the two loops: store into buffer \<open>j\<close>, write it, release both.\<close>

lemma write_release:
  assumes h: "held s P {i, j}" "i \<noteq> j" and b: "blockno (bufs s ! i) = src" "blockno (bufs s ! j) = dst" "src \<noteq> dst"
    and c: "src \<in> P \<or> bdata (bufs s ! i) = disk s src" and un: "unpin \<longrightarrow> dst \<in> P"
  obtains t4 t5 t where "bwrite j (bset j (bdata (bufs s ! i)) s) = Inr t4"
    "brelse i (if unpin then bunpin j t4 else t4) = Inr t5" "brelse j t5 = Inr t"
    "copied s t (if unpin then P - {dst} else P) dst (bdata (bufs s ! i))"
proof -
  let ?v = "bdata (bufs s ! i)" and ?t3 = "bset j (bdata (bufs s ! i)) s" and ?P = "if unpin then P - {dst} else P"
  have j: "j \<in> {i, j}" by simp
  note t3 = bset_held [OF h(1) j, of ?v]
  obtain t4 where t4: "bwrite j ?t3 = Inr t4" "held t4 P {i, j}" "view t4 = view ?t3"
    "disk t4 = (disk ?t3)(blockno (bufs ?t3 ! j) := bdata (bufs ?t3 ! j))"
    "dwrites t4 = dwrites ?t3 @ [(blockno (bufs ?t3 ! j), bdata (bufs ?t3 ! j))]" "same ?t3 t4" "bufs t4 = bufs ?t3"
    using bwrite_held [OF t3(1) j] by blast
  have n4: "bdata (bufs t4 ! i) = ?v" "bdata (bufs t4 ! j) = ?v" "blockno (bufs t4 ! i) = src" "blockno (bufs t4 ! j) = dst"
    using t3(6,7) t4(7) h(2) b by simp_all
  have d4: "disk t4 = (disk s)(dst := ?v)" "dwrites t4 = dwrites s @ [(dst, ?v)]" "view t4 = (view s)(dst := ?v)"
    using t4(3-5) t3 b by simp_all
  define u where "u = (if unpin then bunpin j t4 else t4)"
  have hu: "held u ?P {i, j}" using bunpin_held [OF t4(2) j] un n4(4) t4(2) by (simp add: u_def)
  have ku: "bdata (bufs u ! k) = bdata (bufs t4 ! k) \<and> blockno (bufs u ! k) = blockno (bufs t4 ! k)" for k
    using held_nth [OF t4(2) j] by (simp add: u_def bunpin_def)
  have "view u = view t4" by (rule view_cong) (simp_all add: u_def bunpin_def held_nth [OF t4(2) j])
  then have eu: "disk u = disk t4" "dwrites u = dwrites t4" "same t4 u" "view u = view t4"
    by (simp_all add: u_def bunpin_def buf_upd_def same_def)
  have cu: "blockno (bufs u ! i) \<in> ?P \<or> bdata (bufs u ! i) = disk u (blockno (bufs u ! i))"
    using c n4 d4 b ku eu by simp
  obtain t5 where t5: "brelse i u = Inr t5" "held t5 ?P ({i, j} - {i})" "view t5 = view u" "disk t5 = disk u"
    "dwrites t5 = dwrites u" "same u t5"
    "\<forall>k. bdata (bufs t5 ! k) = bdata (bufs u ! k) \<and> blockno (bufs t5 ! k) = blockno (bufs u ! k)"
    by (rule brelse_held [OF hu _ cu]) auto
  have h5: "held t5 ?P {j}" using t5(2) h(2) by (simp add: insert_Diff_if)
  have c5: "blockno (bufs t5 ! j) \<in> ?P \<or> bdata (bufs t5 ! j) = disk t5 (blockno (bufs t5 ! j))"
    using t5(4,7) n4 d4 ku eu by simp
  obtain t where t: "brelse j t5 = Inr t" "held t ?P ({j} - {j})" "view t = view t5" "disk t = disk t5"
    "dwrites t = dwrites t5" "same t5 t"
    by (rule brelse_held [OF h5 _ c5]) auto
  have "same s t" using same_trans [OF same_trans [OF same_trans [OF same_trans [OF t3(5) t4(6)] eu(3)] t5(6)] t(6)] .
  then have "copied s t ?P dst ?v" using t t5 d4 eu by (simp add: copied_def)
  then show thesis using that t4(1) t5(1) t(1) by (simp add: u_def)
qed

section \<open>The steps of a commit\<close>

lemma same_lst:
  fixes s t :: "'z lst_scheme"
  assumes "same s t"
  shows "lstart t = lstart s" "lsize t = lsize s" "outstanding t = outstanding s" "committing t = committing s"
    "ldev t = ldev s" "lh_n t = lh_n s" "lh_block t = lh_block s" "lst.more t = lst.more s" "curpid t = curpid s"
  using assms by (cases s; cases t; simp add: same_def)+

lemma install_one_copied:
  fixes s :: "'z lst_scheme"
  assumes h: "held s P {}" "finite P" "card P < 30" and dev: "ldev s = 1"
    and src: "lstart s + k + 1 \<notin> P" "lstart s + k + 1 \<noteq> lh_block s ! k"
    and dst: "if r then P = {} else lh_block s ! k \<in> P"
  obtains t where "install_one r k s = Inr t"
    "copied s t (P - {lh_block s ! k}) (lh_block s ! k) (view s (lstart s + k + 1))"
proof -
  let ?src = "lstart s + k + 1" and ?dst = "lh_block s ! k"
  obtain i s1 where s1: "bread 1 ?src s = Inr (i, s1)" "i < 30" "held s1 P {i}" "view s1 = view s"
    "bdata (bufs s1 ! i) = view s ?src" "blockno (bufs s1 ! i) = ?src" "\<exists>x. s1 = s\<lparr>bufs := (bufs s)[i := x]\<rparr>"
    by (rule bread_fresh [OF h])
  note e1 = upd_same [OF s1(7)]
  have d: "?dst \<in> P \<or> card P < 29" using dst by (auto split: if_splits)
  obtain j s2 where s2: "bread 1 ?dst s1 = Inr (j, s2)" "j < 30" "j \<noteq> i" "held s2 P {i, j}" "view s2 = view s1"
    "bdata (bufs s2 ! j) = view s1 ?dst" "blockno (bufs s2 ! j) = ?dst" "bufs s2 ! i = bufs s1 ! i"
    "\<exists>x. s2 = s1\<lparr>bufs := (bufs s1)[j := x]\<rparr>"
    by (rule bread_second [OF s1(3) h(2) d]) (use s1(6) src in auto)
  note e2 = upd_same [OF s2(9)]
  have i: "i \<in> {i}" by simp
  have v: "bdata (bufs s2 ! i) = view s ?src" using s2(8) s1(5) by simp
  have "view s ?src = disk s ?src" using held_clean [OF h(1)] src(1) by simp
  then have c: "?src \<in> P \<or> bdata (bufs s2 ! i) = disk s2 ?src" using v e1 e2 by simp
  have un: "\<not> r \<longrightarrow> ?dst \<in> P" using dst by simp
  have b: "blockno (bufs s2 ! i) = ?src" using s2(8) s1(6) by simp
  obtain t4 t5 t where t: "bwrite j (bset j (bdata (bufs s2 ! i)) s2) = Inr t4"
    "brelse i (if \<not> r then bunpin j t4 else t4) = Inr t5" "brelse j t5 = Inr t"
    "copied s2 t (if \<not> r then P - {?dst} else P) ?dst (bdata (bufs s2 ! i))"
    using write_release [OF s2(4) s2(3) [symmetric] b s2(7) src(2) c un] by blast
  have "install_one r k s = Inr t"
    unfolding install_one_def using s1(1) s2(1) t(1-3) dev same_lst [OF e1 [THEN conjunct1]] 
    by (cases r) (simp_all add: Let_def)
  moreover have "copied s t (P - {?dst}) ?dst (view s ?src)"
    using t(4) e1 e2 s1(4) s2(5) dst unfolding v copied_def same_def by (simp split: if_splits)
  ultimately show thesis using that by blast
qed

lemma write_log_one_copied:
  fixes s :: "'z lst_scheme"
  assumes h: "held s P {}" "finite P" "card P < 30" and dev: "ldev s = 1"
    and dst: "lstart s + k + 1 \<notin> P" and src: "lh_block s ! k \<in> P"
  obtains t where "write_log_one k s = Inr t"
    "copied s t P (lstart s + k + 1) (view s (lh_block s ! k))"
proof -
  let ?dst = "lstart s + k + 1" and ?src = "lh_block s ! k"
  have ne: "?src \<noteq> ?dst" using dst src by metis
  obtain j s1 where s1: "bread 1 ?dst s = Inr (j, s1)" "j < 30" "held s1 P {j}" "view s1 = view s"
    "bdata (bufs s1 ! j) = view s ?dst" "blockno (bufs s1 ! j) = ?dst" "\<exists>x. s1 = s\<lparr>bufs := (bufs s)[j := x]\<rparr>"
    by (rule bread_fresh [OF h])
  note e1 = upd_same [OF s1(7)]
  obtain i s2 where s2: "bread 1 ?src s1 = Inr (i, s2)" "i < 30" "i \<noteq> j" "held s2 P {j, i}" "view s2 = view s1"
    "bdata (bufs s2 ! i) = view s1 ?src" "blockno (bufs s2 ! i) = ?src" "bufs s2 ! j = bufs s1 ! j"
    "\<exists>x. s2 = s1\<lparr>bufs := (bufs s1)[i := x]\<rparr>"
    by (rule bread_second [OF s1(3) h(2), of ?src]) (use s1(6) src ne in auto)
  note e2 = upd_same [OF s2(9)]
  have v: "bdata (bufs s2 ! i) = view s ?src" using s2(6) s1(4) by simp
  have b: "blockno (bufs s2 ! j) = ?dst" using s2(8) s1(6) by simp
  have h2: "held s2 P {i, j}" using s2(4) by (simp add: insert_commute)
  obtain t4 t5 t where t: "bwrite j (bset j (bdata (bufs s2 ! i)) s2) = Inr t4"
    "brelse i (if False then bunpin j t4 else t4) = Inr t5" "brelse j t5 = Inr t"
    "copied s2 t (if False then P - {?dst} else P) ?dst (bdata (bufs s2 ! i))"
    using write_release [OF h2 s2(3) s2(7) b ne _, of False] src by blast
  have "write_log_one k s = Inr t"
    unfolding write_log_one_def using s1(1) s2(1) t(1-3) dev same_lst [OF e1 [THEN conjunct1]]
    by (simp add: Let_def)
  moreover have "copied s t P ?dst (view s ?src)"
    using t(4) e1 e2 s1(4) s2(5) unfolding v copied_def same_def by simp
  ultimately show thesis using that by blast
qed

text \<open>The effect of a sequence of block writes on a disk.\<close>

definition writes :: "(nat \<times> block) list \<Rightarrow> (nat \<Rightarrow> block) \<Rightarrow> nat \<Rightarrow> block" where
  "writes W m = fold (\<lambda>(b, d) m. m(b := d)) W m"

lemma writes_simps [simp]: "writes [] m = m" "writes (W @ W') m = writes W' (writes W m)"
  "writes ((b, d) # W) m = writes W (m(b := d))"
  by (simp_all add: writes_def)

lemma writes_other: "b \<notin> fst ` set W \<Longrightarrow> writes W m b = m b"
  by (induction W rule: rev_induct) auto

lemma writes_hit:
  "k < n \<Longrightarrow> inj_on f {..<n} \<Longrightarrow> writes (map (\<lambda>i. (f i, g i)) [0..<n]) m (f k) = g k"
proof (induction n)
  case (Suc n)
  show ?case
  proof (cases "k = n")
    case False
    then have "f k \<noteq> f n" using Suc.prems by (auto dest: inj_onD [of f "{..<Suc n}" k n])
    moreover have "inj_on f {..<n}" using Suc.prems(2) by (rule inj_on_subset) auto
    ultimately show ?thesis using Suc.IH Suc.prems False by simp
  qed simp
qed simp

text \<open>
  \<open>wrote s t P W\<close>: the writes \<open>W\<close> have gone through the cache to the disk.
\<close>

definition wrote :: "'z bst_scheme \<Rightarrow> 'z bst_scheme \<Rightarrow> nat set \<Rightarrow> (nat \<times> block) list \<Rightarrow> bool" where
  "wrote s t P W \<longleftrightarrow> held t P {} \<and> view t = writes W (view s) \<and> disk t = writes W (disk s) \<and>
     dwrites t = dwrites s @ W \<and> same s t"

lemma wrote_Nil: "held s P {} \<Longrightarrow> wrote s s P []"
  by (simp add: wrote_def)

lemma wrote_snoc: "wrote s t P W \<Longrightarrow> copied t u Q b v \<Longrightarrow> wrote s u Q (W @ [(b, v)])"
  by (auto simp: wrote_def copied_def intro: same_trans)

lemma wrote_trans: "wrote s t P W \<Longrightarrow> wrote t u Q W' \<Longrightarrow> wrote s u Q (W @ W')"
  by (auto simp: wrote_def intro: same_trans)

text \<open>The blocks of the log in memory, and when they are a transaction that can be committed.\<close>

definition logged :: "'z lst_scheme \<Rightarrow> nat list" where
  "logged s = take (nat (lh_n s)) (lh_block s)"

definition log_ok :: "'z lst_scheme \<Rightarrow> bool" where
  "log_ok s \<longleftrightarrow> ldev s = 1 \<and> length (lh_block s) = 30 \<and> 0 \<le> lh_n s \<and> lh_n s < 30 \<and> distinct (logged s) \<and>
     (\<forall>b\<in>set (logged s). b < 2 ^ 32 \<and> b \<notin> {lstart s..<lstart s + 30})"

lemma log_okD:
  assumes "log_ok s"
  shows "ldev s = 1" "length (logged s) = nat (lh_n s)" "lh_n s = int (length (logged s))" "length (logged s) < 30"
    "distinct (logged s)" "k < length (logged s) \<Longrightarrow> lh_block s ! k = logged s ! k"
    "b \<in> set (logged s) \<Longrightarrow> b < 2 ^ 32" "b \<in> set (logged s) \<Longrightarrow> b \<notin> {lstart s..<lstart s + 30}"
    "card (set (logged s)) < 30" "length (lh_block s) = 30"
  using assms by (auto simp: log_ok_def logged_def distinct_card)

lemma same_log:
  assumes "same s t"
  shows "logged t = logged s" "log_ok t = log_ok s"
  using same_lst [OF assms] by (simp_all add: logged_def log_ok_def)

lemma write_log_wrote:
  assumes ok: "log_ok s" and h: "held s (set (logged s)) {}"
  obtains t where "write_log s = Inr t" "wrote s t (set (logged s))
    (map (\<lambda>i. (lstart s + i + 1, view s (logged s ! i))) [0..<length (logged s)])"
proof -
  let ?W = "\<lambda>xs. map (\<lambda>i. (lstart s + i + 1, view s (logged s ! i))) xs"
  note D = log_okD [OF ok]
  have "\<exists>t. foldres write_log_one [0..<length (logged s)] s = Inr t \<and> wrote s t (set (logged s)) (?W [0..<length (logged s)])"
  proof (rule foldres_rule [where I = "\<lambda>xs t. wrote s t (set (logged s)) (?W xs)"])
    show "wrote s s (set (logged s)) (?W [])" using wrote_Nil [OF h] by simp
  next
    fix ys k zs t assume k: "[0..<length (logged s)] = ys @ k # zs" and w: "wrote s t (set (logged s)) (?W ys)"
    have kl: "k < length (logged s)" using arg_cong [OF k, of set] by auto
    have "same s t" "held t (set (logged s)) {}" using w by (simp_all add: wrote_def)
    note e = same_lst [OF this(1)]
    have ml: "logged s ! k \<in> set (logged s)" using kl by simp
    have nl: "lstart s + k + 1 \<notin> set (logged s)"
    proof
      assume a: "lstart s + k + 1 \<in> set (logged s)"
      show False using D(8) [OF a] D(4) kl by simp
    qed
    have "logged s ! k \<notin> fst ` set (?W ys)"
    proof
      assume "logged s ! k \<in> fst ` set (?W ys)"
      then obtain i where "i \<in> set ys" "logged s ! k = lstart s + i + 1" by auto
      moreover from this have "i < length (logged s)" using arg_cong [OF k, of set] by auto
      ultimately show False using D(8) [OF ml] D(4) by simp
    qed
    then have v: "view t (logged s ! k) = view s (logged s ! k)" using w by (simp add: wrote_def writes_other)
    obtain u where "write_log_one k t = Inr u" "copied t u (set (logged s)) (lstart t + k + 1) (view t (lh_block t ! k))"
      by (rule write_log_one_copied [OF \<open>held t _ {}\<close> finite_set D(9), of k])
        (use e D(1) nl ml D(6) [OF kl] in simp_all)
    then show "\<exists>u. write_log_one k t = Inr u \<and> wrote s u (set (logged s)) (?W (ys @ [k]))"
      using wrote_snoc [OF w] e v D(6) [OF kl] by auto
  qed
  moreover have "write_log s = foldres write_log_one [0..<length (logged s)] s"
    using D(4) by (simp add: write_log_def D(3))
  ultimately show thesis using that by auto
qed

lemma install_trans_wrote:
  assumes ok: "log_ok s" and h: "held s (if r then {} else set (logged s)) {}"
  obtains t where "install_trans r s = Inr t" "wrote s t {}
    (map (\<lambda>i. (logged s ! i, view s (lstart s + i + 1))) [0..<length (logged s)])"
proof -
  let ?W = "\<lambda>xs. map (\<lambda>i. (logged s ! i, view s (lstart s + i + 1))) xs"
  let ?P = "\<lambda>xs. (if r then {} else set (logged s)) - (!) (logged s) ` set xs"
  note D = log_okD [OF ok]
  have nl: "lstart s + k + 1 \<notin> set (logged s)" if k: "k < length (logged s)" for k
  proof
    assume a: "lstart s + k + 1 \<in> set (logged s)"
    show False using D(8) [OF a] D(4) k by simp
  qed
  have ex: "\<exists>t. foldres (install_one r) [0..<length (logged s)] s = Inr t \<and>
    wrote s t (?P [0..<length (logged s)]) (?W [0..<length (logged s)])"
  proof (rule foldres_rule [where I = "\<lambda>xs t. wrote s t (?P xs) (?W xs)"])
    show "wrote s s (?P []) (?W [])" using wrote_Nil [OF h] by simp
  next
    fix ys k zs t assume k: "[0..<length (logged s)] = ys @ k # zs" and w: "wrote s t (?P ys) (?W ys)"
    have sub: "x \<in> set ys \<Longrightarrow> x < length (logged s)" for x using arg_cong [OF k, of set] by auto
    have kl: "k < length (logged s)" using arg_cong [OF k, of set] by auto
    have ky: "k \<notin> set ys" using arg_cong [OF k, of distinct] by simp
    have "same s t" and ht: "held t (?P ys) {}" using w by (simp_all add: wrote_def)
    note e = same_lst [OF this(1)]
    have ml: "logged s ! k \<in> set (logged s)" using kl by simp
    have mn: "logged s ! k \<notin> (!) (logged s) ` set ys"
      using ky kl sub nth_eq_iff_index_eq [OF D(5)] by (metis imageE)
    have "lstart s + k + 1 \<notin> fst ` set (?W ys)"
      using nl [OF kl] sub nth_mem by (auto simp: image_iff)
    then have v: "view t (lstart s + k + 1) = view s (lstart s + k + 1)" using w by (simp add: wrote_def writes_other)
    have c: "card (?P ys) < 30" using D(9) card_mono [of "set (logged s)" "?P ys"] by auto
    obtain u where "install_one r k t = Inr u"
      "copied t u (?P ys - {lh_block t ! k}) (lh_block t ! k) (view t (lstart t + k + 1))"
    proof (rule install_one_copied [OF ht _ c, of k r])
      show "lstart t + k + 1 \<notin> ?P ys" "lstart t + k + 1 \<noteq> lh_block t ! k"
        using nl [OF kl] ml e D(6) [OF kl] by auto
      show "if r then ?P ys = {} else lh_block t ! k \<in> ?P ys" using ml mn e D(6) [OF kl] by simp
    qed (use e D(1) in simp_all)
    moreover have "?P ys - {logged s ! k} = ?P (ys @ [k])" by auto
    ultimately show "\<exists>u. install_one r k t = Inr u \<and> wrote s u (?P (ys @ [k])) (?W (ys @ [k]))"
      using wrote_snoc [OF w] e v D(6) [OF kl] by auto
  qed
  have P: "?P [0..<length (logged s)] = {}" by (auto simp: in_set_conv_nth)
  have "install_trans r s = foldres (install_one r) [0..<length (logged s)] s"
    using D(4) by (simp add: install_trans_def D(3))
  then show thesis using ex that unfolding P by auto
qed

text \<open>The header block that \<^verbatim>\<open>write_head\<close> writes decodes to the header in memory.\<close>

lemma head_loop:
  assumes "4 + 4 * m \<le> length d" "\<forall>k<m. bl ! k < 2 ^ 32"
  defines "d' \<equiv> fold (\<lambda>k. put32 (4 + 4 * k) (bl ! k)) [0..<m] d"
  shows "length d' = length d \<and> get32 0 d' = get32 0 d \<and> (\<forall>k<m. get32 (4 + 4 * k) d' = bl ! k)"
  using assms(1,2) unfolding d'_def
proof (induction m)
  case (Suc m)
  let ?e = "fold (\<lambda>k. put32 (4 + 4 * k) (bl ! k)) [0..<m] d"
  have IH: "length ?e = length d" "get32 0 ?e = get32 0 d" "\<forall>k<m. get32 (4 + 4 * k) ?e = bl ! k"
    using Suc by simp_all
  have "get32 (4 + 4 * k) (put32 (4 + 4 * m) (bl ! m) ?e) = bl ! k" if "k < Suc m" for k
    using that IH Suc.prems by (cases "k = m") (simp_all add: get32_put32 get32_put32_other)
  then show ?case using IH Suc.prems by (simp add: get32_put32_other)
qed simp

lemma head_data:
  assumes "0 \<le> n" "n \<le> 30" "128 \<le> length d" "\<forall>k<nat n. bl ! k < 2 ^ 32"
  shows "length (head_data n bl d) = length d" "get32 0 (head_data n bl d) = nat n"
    "k < nat n \<Longrightarrow> get32 (4 + 4 * k) (head_data n bl d) = bl ! k"
proof -
  have "nat (n mod 2 ^ 32) = nat n" using assms by simp
  moreover have "get32 0 (put32 0 (nat n) d) = nat n" using assms by (intro get32_put32) auto
  ultimately show "length (head_data n bl d) = length d" "get32 0 (head_data n bl d) = nat n"
    "k < nat n \<Longrightarrow> get32 (4 + 4 * k) (head_data n bl d) = bl ! k"
    using head_loop [of "nat n" "put32 0 (nat n) d" bl] assms unfolding head_data_def by auto
qed

lemma write_head_wrote:
  fixes s :: "'z lst_scheme"
  assumes h: "held s P {}" "finite P" "card P < 30" and dev: "ldev s = 1" and n: "lh_n s \<le> 30"
  obtains t where "write_head s = Inr t"
    "wrote s t P [(lstart s, head_data (lh_n s) (lh_block s) (view s (lstart s)))]"
proof -
  obtain i s1 where s1: "bread 1 (lstart s) s = Inr (i, s1)" "i < 30" "held s1 P {i}" "view s1 = view s"
    "bdata (bufs s1 ! i) = view s (lstart s)" "blockno (bufs s1 ! i) = lstart s" "\<exists>x. s1 = s\<lparr>bufs := (bufs s)[i := x]\<rparr>"
    by (rule bread_fresh [OF h])
  note e1 = upd_same [OF s1(7)]
  note l1 = same_lst [OF e1 [THEN conjunct1]]
  let ?d = "head_data (lh_n s) (lh_block s) (view s (lstart s))"
  have i: "i \<in> {i}" by simp
  note s2 = bset_held [OF s1(3) i, of ?d]
  obtain s3 where s3: "bwrite i (bset i ?d s1) = Inr s3" "held s3 P {i}" "view s3 = view (bset i ?d s1)"
    "disk s3 = (disk s)(lstart s := ?d)" "dwrites s3 = dwrites s @ [(lstart s, ?d)]" "same (bset i ?d s1) s3" "bufs s3 = bufs (bset i ?d s1)"
    by (rule bwrite_held [OF s2(1) i]) (use s2(3-7) s1(6) e1 in auto)
  have c: "blockno (bufs s3 ! i) \<in> P \<or> bdata (bufs s3 ! i) = disk s3 (blockno (bufs s3 ! i))"
    using s3(4,7) s2(6,7) s1(6) by simp
  obtain t where t: "brelse i s3 = Inr t" "held t P ({i} - {i})" "view t = view s3" "disk t = disk s3"
    "dwrites t = dwrites s3" "same s3 t"
    by (rule brelse_held [OF s3(2) i c]) auto
  have "write_head s = Inr t" using s1(1,5) dev n s3(1) t(1) l1 by (simp add: write_head_def)
  moreover have "wrote s t P [(lstart s, ?d)]"
    using t s3(3-5) s2(2) s1(4,6) same_trans [OF same_trans [OF same_trans [OF e1 [THEN conjunct1] s2(5)] s3(6)] t(6)]
    by (simp add: wrote_def)
  ultimately show thesis using that by blast
qed

section \<open>Commit and recovery\<close>

lemma view_lst [simp]:
  fixes s :: "'z lst_scheme"
  shows "view (s\<lparr>lh_n := a\<rparr>) = view s" "view (s\<lparr>lh_block := c\<rparr>) = view s" "view (s\<lparr>outstanding := d\<rparr>) = view s"
    "view (s\<lparr>committing := e\<rparr>) = view s" "view (s\<lparr>wakes := w\<rparr>) = view s"
    "view (s\<lparr>lstart := x\<rparr>) = view s" "view (s\<lparr>lsize := y\<rparr>) = view s" "view (s\<lparr>ldev := z\<rparr>) = view s"
  by (rule view_cong; simp)+

lemma held_lst [simp]:
  fixes s :: "'z lst_scheme"
  shows "held (s\<lparr>lh_n := a\<rparr>) P H = held s P H" "held (s\<lparr>lh_block := c\<rparr>) P H = held s P H"
    "held (s\<lparr>outstanding := d\<rparr>) P H = held s P H" "held (s\<lparr>committing := e\<rparr>) P H = held s P H"
    "held (s\<lparr>wakes := w\<rparr>) P H = held s P H" "held (s\<lparr>lstart := x\<rparr>) P H = held s P H"
    "held (s\<lparr>lsize := y\<rparr>) P H = held s P H" "held (s\<lparr>ldev := z\<rparr>) P H = held s P H"
  by (simp_all add: held_def on_def)

text \<open>What \<^verbatim>\<open>commit\<close> writes: log blocks, header, home blocks, empty header.\<close>

definition commit_list :: "'z lst_scheme \<Rightarrow> block \<Rightarrow> block \<Rightarrow> (nat \<times> block) list" where
  "commit_list s h1 h0 =
     map (\<lambda>i. (lstart s + i + 1, view s (logged s ! i))) [0..<length (logged s)] @ [(lstart s, h1)] @
     map (\<lambda>i. (logged s ! i, view s (logged s ! i))) [0..<length (logged s)] @ [(lstart s, h0)]"

lemma commit_wrote:
  assumes ok: "log_ok s" "0 < lh_n s" and h: "held s (set (logged s)) {}" and len: "128 \<le> length (view s (lstart s))"
  obtains t h1 h0 where "commit s = Inr t" "dwrites t = dwrites s @ commit_list s h1 h0"
    "disk t = writes (commit_list s h1 h0) (disk s)" "view t = writes (commit_list s h1 h0) (view s)"
    "held t {} {}" "lh_n t = 0" "outstanding t = outstanding s" "lst.more t = lst.more s"
    "lstart t = lstart s" "lsize t = lsize s" "ldev t = 1" "lh_block t = lh_block s"
    "get32 0 h1 = length (logged s)" "\<forall>k<length (logged s). get32 (4 + 4 * k) h1 = logged s ! k" "get32 0 h0 = 0"
    "128 \<le> length h1" "128 \<le> length h0"
proof -
  let ?n = "length (logged s)" and ?P = "set (logged s)"
  let ?W1 = "map (\<lambda>i. (lstart s + i + 1, view s (logged s ! i))) [0..<?n]"
  let ?W2 = "map (\<lambda>i. (logged s ! i, view s (logged s ! i))) [0..<?n]"
  note D = log_okD [OF ok(1)]
  obtain s1 where s1: "write_log s = Inr s1" "wrote s s1 ?P ?W1" by (rule write_log_wrote [OF ok(1) h])
  have m1: "same s s1" "held s1 ?P {}" using s1(2) by (simp_all add: wrote_def)
  note e1 = same_lst [OF m1(1)]
  have v1: "view s1 (lstart s) = view s (lstart s)"
  proof -
    have n: "lstart s \<notin> fst ` set ?W1" by auto
    show ?thesis using s1(2) writes_other [OF n, of "view s"] by (simp only: wrote_def)
  qed
  let ?h1 = "head_data (lh_n s) (lh_block s) (view s (lstart s))"
  obtain s2 where s2: "write_head s1 = Inr s2" "wrote s1 s2 ?P [(lstart s, ?h1)]"
    by (rule write_head_wrote [OF m1(2) finite_set D(9)]) (use e1 D(1,3,4) v1 in auto)
  have m2: "same s s2" "held s2 ?P {}" using s2(2) m1 same_trans by (auto simp: wrote_def)
  note e2 = same_lst [OF m2(1)] same_log [OF m2(1)]
  have v2: "view s2 = (writes ?W1 (view s))(lstart s := ?h1)" using s2(2) s1(2) by (simp add: wrote_def)
  have inj: "inj_on (\<lambda>i. lstart s + i + 1) {..<?n}" by (simp add: inj_on_def)
  have v2': "view s2 (lstart s + i + 1) = view s (logged s ! i)" if "i < ?n" for i
    using writes_hit [OF that inj, of "\<lambda>i. view s (logged s ! i)" "view s"] unfolding v2 by simp
  obtain s3 where s3: "install_trans False s2 = Inr s3" "wrote s2 s3 {} ?W2"
  proof (rule install_trans_wrote [of s2 False])
    show "log_ok s2" "held s2 (if False then {} else set (logged s2)) {}" using m2 e2 ok by simp_all
    fix t assume t: "install_trans False s2 = Inr t" "wrote s2 t {}
      (map (\<lambda>i. (logged s2 ! i, view s2 (lstart s2 + i + 1))) [0..<length (logged s2)])"
    have e: "map (\<lambda>i. (logged s2 ! i, view s2 (lstart s2 + i + 1))) [0..<length (logged s2)] = ?W2"
      using e2 v2' by simp
    show thesis by (rule that [OF t(1) t(2) [unfolded e]])
  qed
  have m3: "same s s3" "held s3 {} {}" using s3(2) m2 same_trans by (auto simp: wrote_def)
  note e3 = same_lst [OF m3(1)]
  let ?s3 = "s3\<lparr>lh_n := 0\<rparr>"
  let ?h0 = "head_data 0 (lh_block s) (view s3 (lstart s))"
  obtain t where t: "write_head ?s3 = Inr t" "wrote ?s3 t {} [(lstart s, ?h0)]"
    by (rule write_head_wrote [of ?s3 "{}"]) (use m3 e3 D(1) in auto)
  have lt: "same ?s3 t" using t(2) by (simp add: wrote_def)
  note et = same_lst [OF this]
  have "lstart s \<notin> fst ` set ?W2"
  proof
    assume "lstart s \<in> fst ` set ?W2"
    then obtain i where "i < ?n" "lstart s = logged s ! i" by auto
    then have "lstart s \<in> set (logged s)" by (metis nth_mem)
    then show False using D(8) by force
  qed
  then have "view s3 (lstart s) = ?h1" using s3(2) v2 by (simp add: wrote_def writes_other)
  moreover have bl: "\<forall>k<?n. lh_block s ! k < 2 ^ 32" using D(6,7) nth_mem by metis
  moreover have h1: "length ?h1 = length (view s (lstart s))" "get32 0 ?h1 = ?n" "\<forall>k<?n. get32 (4 + 4 * k) ?h1 = logged s ! k"
    using head_data [of "lh_n s" "view s (lstart s)" "lh_block s"] bl len D(4,6) by (simp_all add: D(3))
  ultimately have h0: "get32 0 ?h0 = 0" "128 \<le> length ?h0" "128 \<le> length ?h1"
    using head_data(1,2) [of 0 "view s3 (lstart s)" "lh_block s"] len by simp_all
  have "commit s = Inr t" using ok(2) s1(1) s2(1) s3(1) t(1) by (simp add: commit_def)
  moreover have "dwrites t = dwrites s @ commit_list s ?h1 ?h0" "disk t = writes (commit_list s ?h1 ?h0) (disk s)"
    "view t = writes (commit_list s ?h1 ?h0) (view s)"
    using t(2) s3(2) s2(2) s1(2) by (simp_all add: wrote_def commit_list_def)
  moreover have "held t {} {}" using t(2) by (simp add: wrote_def)
  moreover have "lh_n t = 0" "outstanding t = outstanding s" "lst.more t = lst.more s" "lstart t = lstart s" "lsize t = lsize s"
    "ldev t = 1" "lh_block t = lh_block s" using et e3 D(1) by simp_all
  ultimately show thesis using that h1 h0 by blast
qed

lemma read_head_held:
  fixes s :: "'z lst_scheme"
  assumes h: "held s {} {}" and dev: "ldev s = 1" and n: "get32 0 (disk s (lstart s)) < 30"
  obtains t where "read_head s = Inr t" "held t {} {}" "disk t = disk s" "lstart t = lstart s" "ldev t = 1"
    "lh_n t = int (get32 0 (disk s (lstart s)))" "length (lh_block t) = 30"
    "\<forall>k<get32 0 (disk s (lstart s)). lh_block t ! k = get32 (4 + 4 * k) (disk s (lstart s))"
proof -
  obtain i s1 where s1: "bread 1 (lstart s) s = Inr (i, s1)" "i < 30" "held s1 {} {i}" "view s1 = view s"
    "bdata (bufs s1 ! i) = view s (lstart s)" "blockno (bufs s1 ! i) = lstart s" "\<exists>x. s1 = s\<lparr>bufs := (bufs s)[i := x]\<rparr>"
    by (rule bread_fresh [OF h]) auto
  let ?d = "disk s (lstart s)"
  have d: "bdata (bufs s1 ! i) = ?d" using s1(5) held_clean [OF h] by simp
  note e1 = upd_same [OF s1(7)]
  note l1 = same_lst [OF e1 [THEN conjunct1]]
  define m where "m = int (get32 0 ?d)"
  have m: "s32 (get32 0 ?d) = m" "m < 30" using n by (simp_all add: s32_def m_def)
  let ?s2 = "s1\<lparr>lh_n := m, lh_block := map (\<lambda>k. if int k < m then get32 (4 + 4 * k) ?d else lh_block s1 ! k) [0..<30]\<rparr>"
  have c: "blockno (bufs ?s2 ! i) \<in> {} \<or> bdata (bufs ?s2 ! i) = disk ?s2 (blockno (bufs ?s2 ! i))"
    using d s1(6) e1 by simp
  have h2: "held ?s2 {} {i}" using s1(3) by simp
  obtain t where t: "brelse i ?s2 = Inr t" "held t {} ({i} - {i})" "view t = view ?s2" "disk t = disk ?s2"
    "dwrites t = dwrites ?s2" "same ?s2 t"
    by (rule brelse_held [OF h2 _ c]) auto
  note lt = same_lst [OF t(6)]
  have "read_head s = Inr t" using s1(1) dev t(1) m by (simp add: read_head_def d Let_def cong del: if_weak_cong)
  moreover have "lh_block t ! k = get32 (4 + 4 * k) ?d" if "k < get32 0 ?d" for k
    using that n lt(7) by (simp add: m_def)
  ultimately show thesis using that t(2,4) lt e1 l1 dev by (simp add: m_def)
qed

lemma recover_wrote:
  fixes s :: "'z lst_scheme"
  assumes h: "held s {} {}" and dev: "ldev s = 1" and len: "128 \<le> length (disk s (lstart s))"
    and n: "length bs = get32 0 (disk s (lstart s))" "length bs < 30"
    and bs: "\<forall>k<length bs. get32 (4 + 4 * k) (disk s (lstart s)) = bs ! k" "distinct bs"
      "\<forall>b\<in>set bs. b < 2 ^ 32 \<and> b \<notin> {lstart s..<lstart s + 30}"
  obtains t h0 where "recover_from_log s = Inr t" "held t {} {}" "lh_n t = 0" "get32 0 h0 = 0"
    "disk t = (writes (map (\<lambda>i. (bs ! i, disk s (lstart s + i + 1))) [0..<length bs]) (disk s))(lstart s := h0)"
proof -
  obtain s1 where s1: "read_head s = Inr s1" "held s1 {} {}" "disk s1 = disk s" "lstart s1 = lstart s" "ldev s1 = 1"
    "lh_n s1 = int (length bs)" "length (lh_block s1) = 30"
    "\<forall>k<length bs. lh_block s1 ! k = get32 (4 + 4 * k) (disk s (lstart s))"
    by (rule read_head_held [OF h dev]) (use n in auto)
  have lg: "logged s1 = bs" using s1(6-8) bs(1) n(2) by (auto simp: logged_def intro!: nth_equalityI)
  have ok: "log_ok s1" using s1 lg bs n(2) by (simp add: log_ok_def)
  let ?W = "map (\<lambda>i. (bs ! i, disk s (lstart s + i + 1))) [0..<length bs]"
  have v1: "view s1 = disk s" using held_clean [OF s1(2)] s1(3) by (simp add: fun_eq_iff)
  obtain s2 where s2: "install_trans True s1 = Inr s2" "wrote s1 s2 {} ?W"
    by (rule install_trans_wrote [OF ok, of True]) (use s1(2,4) lg v1 in auto)
  have e2: "same s1 s2" "held s2 {} {}" "disk s2 = writes ?W (disk s)" using s2(2) s1(3) by (simp_all add: wrote_def)
  note l2 = same_lst [OF e2(1)]
  let ?s2 = "s2\<lparr>lh_n := 0\<rparr>"
  let ?h0 = "head_data 0 (lh_block s2) (view s2 (lstart s))"
  obtain t where t: "write_head ?s2 = Inr t" "wrote ?s2 t {} [(lstart s, ?h0)]"
    by (rule write_head_wrote [of ?s2 "{}"]) (use e2 l2 s1(4,5) in auto)
  have "lstart s \<notin> fst ` set ?W"
  proof
    assume "lstart s \<in> fst ` set ?W"
    then obtain i where "i < length bs" "lstart s = bs ! i" by auto
    then have "lstart s \<in> set bs" by (metis nth_mem)
    then show False using bs(3) by force
  qed
  then have "view s2 (lstart s) = disk s (lstart s)" using s2(2) v1 by (simp add: wrote_def writes_other)
  then have h0: "get32 0 ?h0 = 0" using head_data(2) [of 0 "view s2 (lstart s)" "lh_block s2"] len by simp
  have "recover_from_log s = Inr t" using s1(1) s2(1) t(1) by (simp add: recover_from_log_def)
  moreover have "lh_n t = 0" using same_lst(6) [of ?s2 t] t(2) by (simp add: wrote_def)
  ultimately show thesis using that t(2) h0 e2(3) by (simp add: wrote_def)
qed

lemma recover_empty:
  fixes s :: "'z lst_scheme"
  assumes "held s {} {}" "ldev s = 1" "128 \<le> length (disk s (lstart s))" "get32 0 (disk s (lstart s)) = 0"
  obtains t h0 where "recover_from_log s = Inr t" "held t {} {}" "lh_n t = 0" "get32 0 h0 = 0"
    "disk t = (disk s)(lstart s := h0)"
  by (rule recover_wrote [OF assms(1-3), of "[]"]) (use assms(4) in auto)

section \<open>Crashes\<close>

lemma fst_log_writes:
  "fst ` set (map (\<lambda>i. (a + i + 1, g i)) (xs :: nat list)) = (\<lambda>i. a + i + 1) ` set xs"
  by (simp add: image_image)

text \<open>The disk after a prefix of the writes of a commit, by the part of it that was reached.\<close>

lemma commit_prefix:
  fixes s :: "'z lst_scheme" and h1 h0 :: block
  assumes ok: "log_ok s" and h: "held s (set (logged s)) {}"
  defines "D \<equiv> \<lambda>k. writes (take k (commit_list s h1 h0)) (disk s)"
  shows "k \<le> length (logged s) \<Longrightarrow> D k (lstart s) = disk s (lstart s) \<and>
      (\<forall>b. b \<notin> {lstart s..<lstart s + 30} \<longrightarrow> D k b = disk s b)"
    and "length (logged s) < k \<Longrightarrow> k \<le> 2 * length (logged s) + 1 \<Longrightarrow> D k (lstart s) = h1 \<and>
      (\<forall>i<length (logged s). D k (lstart s + i + 1) = view s (logged s ! i)) \<and>
      (\<forall>b. b \<notin> {lstart s..<lstart s + 30} \<longrightarrow> b \<notin> set (logged s) \<longrightarrow> D k b = view s b)"
    and "2 * length (logged s) + 1 < k \<Longrightarrow> D k (lstart s) = h0 \<and>
      (\<forall>b. b \<notin> {lstart s..<lstart s + 30} \<longrightarrow> D k b = view s b)"
proof -
  let ?n = "length (logged s)" and ?L = "{lstart s..<lstart s + 30}"
  let ?W1 = "\<lambda>xs. map (\<lambda>i. (lstart s + i + 1, view s (logged s ! i))) xs"
  let ?W2 = "\<lambda>xs. map (\<lambda>i. (logged s ! i, view s (logged s ! i))) xs"
  note O = log_okD [OF ok]
  have cl: "view s b = disk s b" if "b \<notin> set (logged s)" for b using held_clean [OF h that] .
  have w1: "writes (?W1 [0..<m]) d b = d b" if "b = lstart s \<or> b \<notin> ?L" "m \<le> ?n" for m d b
    by (rule writes_other) (use that O(4) in \<open>auto simp: fst_log_writes\<close>)
  have w2: "writes (?W2 [0..<m]) d b = d b" if "b \<notin> set (logged s)" "m \<le> ?n" for m d b
    by (rule writes_other) (use that nth_mem in \<open>auto simp: image_image\<close>)
  have L: "b \<notin> set (logged s)" if "b \<in> ?L" for b using O(8) that by blast
  have inj: "inj_on ((!) (logged s)) {..<?n}" using O(5) by (simp add: inj_on_nth)
  show "k \<le> ?n \<Longrightarrow> D k (lstart s) = disk s (lstart s) \<and> (\<forall>b. b \<notin> ?L \<longrightarrow> D k b = disk s b)"
  proof -
    assume k: "k \<le> ?n"
    then have "take k (commit_list s h1 h0) = ?W1 [0..<k]" by (simp add: commit_list_def take_map)
    then show ?thesis using w1 k by (simp add: D_def)
  qed
  have i1: "inj_on (\<lambda>i. lstart s + i + 1) {..<?n}" by (simp add: inj_on_def)
  let ?d = "(writes (?W1 [0..<?n]) (disk s))(lstart s := h1)"
  have d1: "?d (lstart s + i + 1) = view s (logged s ! i)" if "i < ?n" for i
    using writes_hit [OF that i1, of "\<lambda>i. view s (logged s ! i)" "disk s"] by simp
  have d2: "?d b = disk s b" if "b \<notin> ?L" for b
  proof -
    have "b \<noteq> lstart s" using that by auto
    then show ?thesis using w1 [of b ?n "disk s"] that by simp
  qed
  show "D k (lstart s) = h1 \<and> (\<forall>i<?n. D k (lstart s + i + 1) = view s (logged s ! i)) \<and>
      (\<forall>b. b \<notin> ?L \<longrightarrow> b \<notin> set (logged s) \<longrightarrow> D k b = view s b)"
    if k: "?n < k" "k \<le> 2 * ?n + 1"
  proof -
    define m where "m = k - ?n - 1"
    have m: "m \<le> ?n" "k = ?n + 1 + m" using k by (simp_all add: m_def)
    have "take k (commit_list s h1 h0) = ?W1 [0..<?n] @ [(lstart s, h1)] @ ?W2 [0..<m]"
      using m by (simp add: commit_list_def take_map)
    then have D: "D k = writes (?W2 [0..<m]) ?d" by (simp add: D_def)
    have "D k b = ?d b" if "b \<notin> set (logged s)" for b unfolding D using w2 that m(1) by blast
    moreover have "lstart s \<notin> set (logged s)" "\<forall>i<?n. lstart s + i + 1 \<notin> set (logged s)" using L O(4) by auto
    ultimately show ?thesis using d1 d2 cl by simp
  qed
  show "2 * ?n + 1 < k \<Longrightarrow> D k (lstart s) = h0 \<and> (\<forall>b. b \<notin> ?L \<longrightarrow> D k b = view s b)"
  proof -
    assume k: "2 * ?n + 1 < k"
    then have "take k (commit_list s h1 h0) = commit_list s h1 h0" by (simp add: commit_list_def)
    then have "D k = writes (commit_list s h1 h0) (disk s)" unfolding D_def by (rule arg_cong)
    then have D: "D k = (writes (?W2 [0..<?n]) ?d)(lstart s := h0)" by (simp add: commit_list_def)
    have "D k b = view s b" if b: "b \<notin> ?L" for b
    proof (cases "b \<in> set (logged s)")
      case True
      then obtain i where "i < ?n" "b = logged s ! i" by (auto simp: in_set_conv_nth)
      then show ?thesis using writes_hit [OF _ inj, of i "\<lambda>i. view s (logged s ! i)" ?d] b by (auto simp: D)
    next
      case False
      then show ?thesis using w2 [OF False order_refl, of ?d] d2 [OF b] cl [OF False] b by (auto simp: D)
    qed
    then show ?thesis by (simp add: D)
  qed
qed

lemma initlog_eq:
  "initlog dev ls n r = recover_from_log (r\<lparr>lstart := ls, lsize := int n, ldev := dev\<rparr>)"
  by (simp add: initlog_def)

text \<open>A reboot after any number of the writes of a commit finds the transaction not done or done.\<close>

lemma commit_reboot:
  assumes ok: "log_ok s" and h: "held s (set (logged s)) {}"
    and hd: "128 \<le> length (disk s (lstart s))" "get32 0 (disk s (lstart s)) = 0"
    and w: "get32 0 h1 = length (logged s)" "\<forall>k<length (logged s). get32 (4 + 4 * k) h1 = logged s ! k" "get32 0 h0 = 0"
      "128 \<le> length h1" "128 \<le> length h0"
    and r: "held r {} {}" "disk r = writes (take k (commit_list s h1 h0)) (disk s)"
  shows "\<exists>u. initlog 1 (lstart s) n r = Inr u \<and> lh_n u = 0 \<and> get32 0 (disk u (lstart s)) = 0 \<and>
     ((\<forall>b. b \<notin> {lstart s..<lstart s + 30} \<longrightarrow> disk u b = disk s b) \<or>
      (\<forall>b. b \<notin> {lstart s..<lstart s + 30} \<longrightarrow> disk u b = view s b))"
proof -
  let ?L = "{lstart s..<lstart s + 30}"
  note O = log_okD [OF ok]
  define r1 where "r1 = r\<lparr>lstart := lstart s, lsize := int n, ldev := 1\<rparr>"
  have r1: "held r1 {} {}" "ldev r1 = 1" "lstart r1 = lstart s" "initlog 1 (lstart s) n r = recover_from_log r1"
    using r(1) by (simp_all add: r1_def initlog_eq)
  have d: "disk r1 = writes (take k (commit_list s h1 h0)) (disk s)" using r(2) by (simp add: r1_def)
  note P = commit_prefix [OF ok h, where k = k and ?h1.0 = h1 and ?h0.0 = h0, folded d]
  consider "k \<le> length (logged s)" | "length (logged s) < k" "k \<le> 2 * length (logged s) + 1" | "2 * length (logged s) + 1 < k"
    by linarith
  then show ?thesis
  proof cases
    case 1
    obtain u h2 where "recover_from_log r1 = Inr u" "lh_n u = 0" "get32 0 h2 = 0" "disk u = (disk r1)(lstart s := h2)"
      by (rule recover_empty [OF r1(1,2)]) (use P(1) [OF 1] r1(3) hd in auto)
    then show ?thesis using P(1) [OF 1] r1(4) by auto
  next
    case 2
    note P2 = P(2) [OF 2]
    let ?W = "map (\<lambda>i. (logged s ! i, disk r1 (lstart s + i + 1))) [0..<length (logged s)]"
    obtain u h2 where u: "recover_from_log r1 = Inr u" "lh_n u = 0" "get32 0 h2 = 0"
      "disk u = (writes ?W (disk r1))(lstart s := h2)"
      by (rule recover_wrote [OF r1(1,2), of "logged s"]) (use P2 r1(3) w O(4,5,7,8) in auto)
    have "disk u b = view s b" if b: "b \<notin> ?L" for b
    proof (cases "b \<in> set (logged s)")
      case True
      then obtain i where "i < length (logged s)" "b = logged s ! i" by (auto simp: in_set_conv_nth)
      then show ?thesis
        using writes_hit [of i "length (logged s)" "(!) (logged s)" "\<lambda>i. disk r1 (lstart s + i + 1)" "disk r1"]
          O(5) P2 b u(4) by (auto simp: inj_on_nth)
    next
      case False
      then have "b \<notin> fst ` set ?W" by auto
      then show ?thesis using writes_other [of b ?W "disk r1"] P2 False b u(4) by auto
    qed
    then show ?thesis using u r1(4) by auto
  next
    case 3
    obtain u h2 where "recover_from_log r1 = Inr u" "lh_n u = 0" "get32 0 h2 = 0" "disk u = (disk r1)(lstart s := h2)"
      by (rule recover_empty [OF r1(1,2)]) (use P(3) [OF 3] r1(3) w in auto)
    then show ?thesis using P(3) [OF 3] r1(4) by auto
  qed
qed

text \<open>
  C2: a crash during \<^verbatim>\<open>commit\<close> is atomic. Take any number \<open>k\<close> of the disk writes that
  \<^verbatim>\<open>commit\<close> makes, in their order, and boot from the disk they leave: \<^verbatim>\<open>initlog\<close>
  succeeds, empties the log, and outside the log the disk holds either every block as it was before
  the transaction or every block as the transaction left it.
\<close>

theorem commit_crash_atomic:
  assumes ok: "log_ok s" "0 < lh_n s" and h: "held s (set (logged s)) {}"
    and hd: "128 \<le> length (disk s (lstart s))" "get32 0 (disk s (lstart s)) = 0"
    and c: "commit s = Inr t"
    and r: "held r {} {}" "disk r = writes (take k (drop (length (dwrites s)) (dwrites t))) (disk s)"
  shows "\<exists>u. initlog 1 (lstart s) n r = Inr u \<and> lh_n u = 0 \<and> get32 0 (disk u (lstart s)) = 0 \<and>
     ((\<forall>b. b \<notin> {lstart s..<lstart s + 30} \<longrightarrow> disk u b = disk s b) \<or>
      (\<forall>b. b \<notin> {lstart s..<lstart s + 30} \<longrightarrow> disk u b = view s b))"
proof -
  have "lstart s \<notin> set (logged s)" using log_okD(8) [OF ok(1)] by force
  then have "view s (lstart s) = disk s (lstart s)" using held_clean [OF h] by blast
  then have len: "128 \<le> length (view s (lstart s))" using hd(1) by simp
  obtain t' h1 h0 where t': "commit s = Inr t'" and w: "dwrites t' = dwrites s @ commit_list s h1 h0"
    "get32 0 h1 = length (logged s)" "\<forall>k<length (logged s). get32 (4 + 4 * k) h1 = logged s ! k" "get32 0 h0 = 0"
    "128 \<le> length h1" "128 \<le> length h0"
    by (rule commit_wrote [OF ok h len])
  have "disk r = writes (take k (commit_list s h1 h0)) (disk s)" using r(2) w(1) t' c by simp
  then show ?thesis by (rule commit_reboot [OF ok(1) h hd w(2-6) r(1)])
qed

section \<open>A concrete transaction\<close>

text \<open>Block 50 has been modified and logged; \<open>log_boot m\<close> is the state after a reboot from disk \<open>m\<close>.\<close>

definition no_buf :: buf where
  "no_buf = \<lparr>bvalid = False, bdev = 0, blockno = 0, block = initsleeplock, refcnt = 0, bdata = replicate 1024 0\<rparr>"

definition log_boot :: "(nat \<Rightarrow> block) \<Rightarrow> lst" where
  "log_boot m = \<lparr>bufs = replicate 30 no_buf, lru = rev [0..<30], disk = m, dwrites = [], curpid = 1, wakes = [],
     lstart = 2, lsize = 30, outstanding = 0, committing = False, ldev = 1, lh_n = 0, lh_block = replicate 30 0\<rparr>"

definition log_demo :: "bool \<Rightarrow> lst" where
  "log_demo l = (log_boot (\<lambda>_. replicate 1024 0))
     \<lparr>bufs := (replicate 30 no_buf)[0 := \<lparr>bvalid = True, bdev = 1, blockno = 50, block = \<lparr>slocked = l, slpid = 1\<rparr>,
        refcnt = (if l then 2 else 1), bdata = replicate 1024 7\<rparr>],
      outstanding := 1, lh_n := 1, lh_block := 50 # replicate 29 0\<rparr>"

lemma held_log_boot: "held (log_boot m) {} {}"
proof -
  have "\<not> on (log_boot m) i b" for i b by (auto simp: on_def log_boot_def no_buf_def)
  then show ?thesis by (auto simp: held_def log_boot_def no_buf_def initsleeplock_def)
qed

lemma log_demo_on: "on (log_demo l) i b \<longleftrightarrow> i = 0 \<and> b = 50"
  by (auto simp: on_def log_demo_def log_boot_def no_buf_def nth_list_update)

lemma log_demo_logged: "logged (log_demo l) = [50]"
  by (simp add: logged_def log_demo_def)

lemma log_demo_sel:
  "length (bufs (log_demo l)) = 30" "lru (log_demo l) = rev [0..<30]" "curpid (log_demo l) = 1" "lstart (log_demo l) = 2"
  "lsize (log_demo l) = 30" "outstanding (log_demo l) = 1" "lh_n (log_demo l) = 1" "dwrites (log_demo l) = []"
  "disk (log_demo l) = (\<lambda>_. replicate 1024 0)" "ldev (log_demo l) = 1" "length (lh_block (log_demo l)) = 30"
  "bufs (log_demo l) ! 0 = \<lparr>bvalid = True, bdev = 1, blockno = 50, block = \<lparr>slocked = l, slpid = 1\<rparr>,
        refcnt = (if l then 2 else 1), bdata = replicate 1024 7\<rparr>"
  "i < 30 \<Longrightarrow> i \<noteq> 0 \<Longrightarrow> bufs (log_demo l) ! i = no_buf"
  by (simp_all add: log_demo_def log_boot_def)

lemma held_log_demo: "held (log_demo l) {50} (if l then {0} else {})"
  unfolding held_def log_demo_on
proof (intro conjI allI impI ballI)
  fix i :: nat assume i: "i < 30"
  show "refcnt (bufs (log_demo l) ! i) =
      (if \<exists>b\<in>{50}. i = 0 \<and> b = (50 :: nat) then 1 else 0) + (if i \<in> (if l then {0} else {}) then 1 else 0)"
    using i by (cases "i = 0") (auto simp: log_demo_sel no_buf_def)
  show "slocked (block (bufs (log_demo l) ! i)) = (i \<in> (if l then {0} else {}))"
    using i by (cases "i = 0") (auto simp: log_demo_sel no_buf_def initsleeplock_def)
qed (auto simp: log_demo_sel split: if_splits)

lemma log_ok_demo: "log_ok (log_demo l)"
  by (simp add: log_ok_def log_demo_logged log_demo_sel)

lemma get32_zero: "get32 0 (replicate 1024 0) = 0"
  by code_simp

theorem commit_crash_atomic_witness:
  "\<exists>t u. commit (log_demo False) = Inr t \<and>
     initlog 1 2 30 (log_boot (writes (take 2 (dwrites t)) (\<lambda>_. replicate 1024 0))) = Inr u \<and> lh_n u = 0"
proof -
  have v: "view (log_demo False) 2 = replicate 1024 0"
    using held_clean [OF held_log_demo [of False, simplified], of 2] by (simp add: log_demo_sel)
  obtain t where t: "commit (log_demo False) = Inr t"
    by (rule commit_wrote [of "log_demo False"])
      (use held_log_demo [of False] v in \<open>auto simp: log_ok_demo log_demo_logged log_demo_sel\<close>)
  have "\<exists>u. initlog 1 (lstart (log_demo False)) 30 (log_boot (writes (take 2 (dwrites t)) (\<lambda>_. replicate 1024 0))) = Inr u \<and>
     lh_n u = 0 \<and> get32 0 (disk u (lstart (log_demo False))) = 0 \<and>
     ((\<forall>b. b \<notin> {lstart (log_demo False)..<lstart (log_demo False) + 30} \<longrightarrow> disk u b = disk (log_demo False) b) \<or>
      (\<forall>b. b \<notin> {lstart (log_demo False)..<lstart (log_demo False) + 30} \<longrightarrow> disk u b = view (log_demo False) b))"
    by (rule commit_crash_atomic [OF log_ok_demo _ _ _ _ t held_log_boot])
      (use held_log_demo [of False] get32_zero in \<open>simp_all add: log_demo_logged log_demo_sel log_boot_def\<close>)
  then show ?thesis using t by (auto simp: log_demo_sel)
qed

section \<open>Adding blocks to a transaction\<close>

lemma log_find_le: "log_find xs b \<le> length xs"
  by (induction xs) auto

lemma log_find_mem: "log_find xs b < length xs \<longleftrightarrow> b \<in> set xs" "b \<in> set xs \<Longrightarrow> xs ! log_find xs b = b"
  by (induction xs) auto

lemma log_write_rule:
  assumes ok: "log_ok s" "lh_n s < 29" "30 \<le> lsize s" "1 \<le> outstanding s"
    and h: "held s (set (logged s)) H" "i \<in> H"
    and b: "blockno (bufs s ! i) = b" "b < 2 ^ 32" "b \<notin> {lstart s..<lstart s + 30}"
  shows "\<exists>t. log_write i s = Inr t \<and> logged t = (if b \<in> set (logged s) then logged s else logged s @ [b]) \<and>
     log_ok t \<and> held t (set (logged t)) H \<and> view t = view s \<and> disk t = disk s"
proof -
  note O = log_okD [OF ok(1)]
  let ?k = "log_find (logged s) b"
  have n: "nat (lh_n s) = length (logged s)" using O(2) by simp
  have tk: "take (nat (lh_n s)) (lh_block s) = logged s" by (simp add: logged_def)
  have guard: "\<not> (30 \<le> lh_n s \<or> lsize s - 1 \<le> lh_n s)" "\<not> outstanding s < 1" using ok(2-4) by simp_all
  show ?thesis
  proof (cases "b \<in> set (logged s)")
    case True
    then have k: "?k < length (logged s)" "logged s ! ?k = b" using log_find_mem by simp_all
    then have "lh_block s ! ?k = b" using O(6) by simp
    then have same: "(lh_block s)[?k := b] = lh_block s" by (metis list_update_id)
    have "log_write i s = Inr s"
      unfolding log_write_def tk b(1) using guard k(1) same O(3) by (simp add: Let_def)
    then show ?thesis using True ok(1) h(1) by simp
  next
    case False
    then have k: "?k = length (logged s)" using log_find_le [of "logged s" b] log_find_mem(1) [of "logged s" b] by simp
    let ?s1 = "s\<lparr>lh_block := (lh_block s)[length (logged s) := b]\<rparr>"
    let ?t = "(bpin i ?s1)\<lparr>lh_n := lh_n s + 1\<rparr>"
    have w: "log_write i s = Inr ?t"
      unfolding log_write_def tk b(1) using guard k O(3) by (simp add: Let_def)
    have lb: "lh_block (bpin i ?s1) = (lh_block s)[length (logged s) := b]" "lstart (bpin i ?s1) = lstart s"
      "ldev (bpin i ?s1) = ldev s" by (simp_all add: bpin_def buf_upd_def)
    have len: "nat (lh_n s + 1) = Suc (length (logged s))" using O(3) by simp
    have lg: "logged ?t = logged s @ [b]"
    proof -
      define m where "m = length (logged s)"
      have m: "take m (lh_block s) = logged s" "m < length (lh_block s)" using tk n O(4,10) by (simp_all add: m_def)
      have "logged ?t = take (nat (lh_n s + 1)) (lh_block (bpin i ?s1))" by (simp add: logged_def)
      also have "\<dots> = take (Suc m) ((lh_block s)[m := b])" unfolding len lb m_def ..
      also have "\<dots> = logged s @ [b]" using m by (simp add: take_Suc_conv_app_nth)
      finally show ?thesis .
    qed
    have h1: "held ?s1 (set (logged s)) H" using h(1) by simp
    have "held ?t (set (logged ?t)) H"
      using bpin_held [OF h1 h(2)] b(1) False lg by simp
    moreover have "log_ok ?t"
      using ok(1,2) lb lg False b(2,3) O(7,8) by (simp add: log_ok_def)
    moreover have "view (bpin i ?s1) = view ?s1"
      by (rule view_cong) (simp_all add: bpin_def held_nth [OF h1 h(2), simplified])
    moreover have "disk ?t = disk s" by (simp add: bpin_def)
    ultimately show ?thesis using w lg False by simp
  qed
qed

text \<open>
  Log absorption. Writing a buffer inside a transaction succeeds while fewer than 29 blocks are
  logged; a block that is already in the log is not added again, any other block is appended and
  pinned in the cache, and neither the disk nor the contents of any block change.
\<close>

theorem log_write_absorbs:
  assumes ok: "log_ok s" "lh_n s < 29" "30 \<le> lsize s" "1 \<le> outstanding s"
    and h: "held s (set (logged s)) H" "i \<in> H"
    and b: "blockno (bufs s ! i) = b" "b < 2 ^ 32" "b \<notin> {lstart s..<lstart s + 30}"
  shows "\<exists>t. log_write i s = Inr t \<and> logged t = (if b \<in> set (logged s) then logged s else logged s @ [b]) \<and>
     log_ok t \<and> held t (set (logged t)) H \<and> view t = view s \<and> disk t = disk s"
  using log_write_rule [OF assms] .

theorem log_write_absorbs_witness:
  "\<exists>t. log_write 0 (log_demo True) = Inr t \<and> logged t = [50]"
  using log_write_absorbs [of "log_demo True" "{0}" 0 50] held_log_demo [of True]
  by (auto simp: log_ok_demo log_demo_logged log_demo_sel)

text \<open>
  The reservation of \<^verbatim>\<open>begin_op\<close> and the limit of \<^verbatim>\<open>log_write\<close> disagree. With the log
  of 30 blocks that \<^verbatim>\<open>mkfs\<close> makes, \<^verbatim>\<open>begin_op\<close> admits three operations of 10 blocks each
  into an empty log, but \<^verbatim>\<open>log_write\<close> panics as soon as 29 blocks are logged.
\<close>

theorem log_reservation_gap:
  assumes "lsize s = 30" "lh_n s = 0" "outstanding s = 0" "\<not> committing s"
  shows "\<exists>s3. bnd (begin_op s) (\<lambda>s1. bnd (begin_op s1) begin_op) = Inr s3 \<and> lsize s3 = 30 \<and> outstanding s3 * 10 = 30 \<and>
     (\<forall>i. log_write i (s3\<lparr>lh_n := 29\<rparr>) = Inl (Panic ''too big a transaction''))"
  using assms by (simp add: begin_op_def log_write_def)

theorem log_reservation_gap_witness:
  "\<exists>s3. bnd (begin_op (log_boot (\<lambda>_. []))) (\<lambda>s1. bnd (begin_op s1) begin_op) = Inr s3 \<and> outstanding s3 * 10 = 30"
proof -
  have "lsize (log_boot (\<lambda>_. [])) = 30 \<and> lh_n (log_boot (\<lambda>_. [])) = 0 \<and> outstanding (log_boot (\<lambda>_. [])) = 0 \<and> \<not> committing (log_boot (\<lambda>_. []))"
    by (simp add: log_boot_def)
  then show ?thesis using log_reservation_gap [of "log_boot (\<lambda>_. [])"] by blast
qed

end
