(* ===== verification/Fs.thy ===== *)
theory Fs
  imports Log VM
begin

text \<open>
  \<^verbatim>\<open>kernel/fs.c\<close>: the superblock, the allocator of disk blocks, inodes and their contents,
  directories and path names. An \<^verbatim>\<open>struct inode *\<close> is an index of the inode table; where the
  code can return a null pointer the model returns an option. \<^verbatim>\<open>readi\<close> and \<^verbatim>\<open>writei\<close> copy
  to or from user memory, kernel memory or a local variable: the copy is an argument (\<open>cpo\<close> stores
  bytes at an address of the state \<open>m\<close>, \<open>cpi\<close> loads bytes), which the callers instantiate
  with \<^verbatim>\<open>either_copyout\<close> and \<^verbatim>\<open>either_copyin\<close> on the kernel state or with a list of bytes.
\<close>

section \<open>State\<close>

abbreviation (input) NDIRECT :: nat where "NDIRECT \<equiv> 12"
abbreviation (input) NINDIRECT :: nat where "NINDIRECT \<equiv> 256"
abbreviation (input) MAXFILE :: nat where "MAXFILE \<equiv> 268"
abbreviation (input) IPB :: nat where "IPB \<equiv> 16"
abbreviation (input) BPB :: nat where "BPB \<equiv> 8192"
abbreviation (input) DIRSIZ :: nat where "DIRSIZ \<equiv> 14"
abbreviation (input) ROOTINO :: nat where "ROOTINO \<equiv> 1"
abbreviation (input) FSMAGIC :: nat where "FSMAGIC \<equiv> 0x10203040"
abbreviation (input) T_DIR :: u16 where "T_DIR \<equiv> 1"
abbreviation (input) T_FILE :: u16 where "T_FILE \<equiv> 2"
abbreviation (input) T_DEVICE :: u16 where "T_DEVICE \<equiv> 3"

record superblock =
  magic :: nat
  fssize :: nat
  nblocks :: nat
  ninodes :: nat
  nlog :: nat
  logstart :: nat
  inodestart :: nat
  bmapstart :: nat

text \<open>
  The \<^verbatim>\<open>short\<close> fields of an inode are 16 bit words, read as signed numbers where the code
  compares them; sizes and block numbers are naturals below \<open>2 ^ 32\<close>.
\<close>

record inode =
  idev :: nat
  inum :: nat
  iref :: int
  ilk :: sleeplock
  ivalid :: bool
  itype :: u16
  major :: u16
  minor :: u16
  nlink :: u16
  isize :: nat
  addrs :: "nat list"

record dirent =
  de_inum :: nat
  de_name :: "u8 list"

record fsst = lst +
  sb :: superblock
  inodes :: "inode list"

definition inode_upd :: "nat \<Rightarrow> (inode \<Rightarrow> inode) \<Rightarrow> 'z fsst_scheme \<Rightarrow> 'z fsst_scheme" where
  "inode_upd i f s = s\<lparr>inodes := (inodes s)[i := f (inodes s ! i)]\<rparr>"

definition get16 :: "nat \<Rightarrow> u8 list \<Rightarrow> nat" where
  "get16 off d = le (take 2 (drop off d))"

definition put16 :: "nat \<Rightarrow> nat \<Rightarrow> u8 list \<Rightarrow> u8 list" where
  "put16 off v d = put off (le_bytes 2 v) d"

section \<open>Superblock\<close>

definition readsb :: "nat \<Rightarrow> 'z fsst_scheme \<Rightarrow> 'z fsst_scheme res" where
  "readsb dev s =
     bnd (bread dev 1 s) (\<lambda>(i, s1).
     let d = bdata (bufs s1 ! i) in
     brelse i (s1\<lparr>sb := \<lparr>magic = get32 0 d, fssize = get32 4 d, nblocks = get32 8 d, ninodes = get32 12 d,
       nlog = get32 16 d, logstart = get32 20 d, inodestart = get32 24 d, bmapstart = get32 28 d\<rparr>\<rparr>))"

definition fsinit :: "nat \<Rightarrow> 'z fsst_scheme \<Rightarrow> 'z fsst_scheme res" where
  "fsinit dev s =
     bnd (readsb dev s) (\<lambda>s1.
     if magic (sb s1) \<noteq> FSMAGIC then Inl (Panic ''invalid file system'')
     else initlog dev (logstart (sb s1)) (nlog (sb s1)) s1)"

section \<open>Blocks\<close>

definition bzero :: "nat \<Rightarrow> nat \<Rightarrow> 'z fsst_scheme \<Rightarrow> 'z fsst_scheme res" where
  "bzero dev bno s =
     bnd (bread dev bno s) (\<lambda>(i, s1).
     bnd (log_write i (bset i (replicate BSIZE 0) s1)) (brelse i))"

definition BBLOCK :: "nat \<Rightarrow> superblock \<Rightarrow> nat" where
  "BBLOCK b x = b div BPB + bmapstart x"

definition IBLOCK :: "nat \<Rightarrow> superblock \<Rightarrow> nat" where
  "IBLOCK i x = i div IPB + inodestart x"

text \<open>The mask of bit \<open>bi\<close> in its byte, the test and the two stores to the bitmap.\<close>

definition bmask :: "nat \<Rightarrow> u8" where
  "bmask bi = push_bit (bi mod 8) 1"

definition bit_used :: "nat \<Rightarrow> block \<Rightarrow> bool" where
  "bit_used bi d \<longleftrightarrow> and (d ! (bi div 8)) (bmask bi) \<noteq> 0"

definition mark_bit :: "nat \<Rightarrow> block \<Rightarrow> block" where
  "mark_bit bi d = d[bi div 8 := or (d ! (bi div 8)) (bmask bi)]"

definition clear_bit :: "nat \<Rightarrow> block \<Rightarrow> block" where
  "clear_bit bi d = d[bi div 8 := and (d ! (bi div 8)) (not (bmask bi))]"

text \<open>The outer loop of \<^verbatim>\<open>balloc\<close> over the first block of each bitmap block.\<close>

fun balloc_loop :: "nat \<Rightarrow> nat list \<Rightarrow> 'z fsst_scheme \<Rightarrow> (nat \<times> 'z fsst_scheme) res" where
  "balloc_loop dev [] s = Inr (0, s)"
| "balloc_loop dev (b # bs) s =
     bnd (bread dev (BBLOCK b (sb s)) s) (\<lambda>(i, s1).
     case List.find (\<lambda>bi. \<not> bit_used bi (bdata (bufs s1 ! i))) [0..<min BPB (fssize (sb s1) - b)] of
       Some bi \<Rightarrow>
         bnd (log_write i (bset i (mark_bit bi (bdata (bufs s1 ! i))) s1)) (\<lambda>s2.
         bnd (brelse i s2) (\<lambda>s3.
         bnd (bzero dev (b + bi) s3) (\<lambda>s4. Inr (b + bi, s4))))
     | None \<Rightarrow> bnd (brelse i s1) (balloc_loop dev bs))"

definition balloc :: "nat \<Rightarrow> 'z fsst_scheme \<Rightarrow> (nat \<times> 'z fsst_scheme) res" where
  "balloc dev s = balloc_loop dev (map (\<lambda>k. k * BPB) [0..<(fssize (sb s) + BPB - 1) div BPB]) s"

definition bfree :: "nat \<Rightarrow> nat \<Rightarrow> 'z fsst_scheme \<Rightarrow> 'z fsst_scheme res" where
  "bfree dev b s =
     bnd (bread dev (BBLOCK b (sb s)) s) (\<lambda>(i, s1).
     let bi = b mod BPB in
     if \<not> bit_used bi (bdata (bufs s1 ! i)) then Inl (Panic ''freeing free block'')
     else bnd (log_write i (bset i (clear_bit bi (bdata (bufs s1 ! i))) s1)) (brelse i))"

section \<open>Inodes\<close>

definition iinit :: "'z fsst_scheme \<Rightarrow> 'z fsst_scheme" where
  "iinit s = s\<lparr>inodes := map (\<lambda>ip. ip\<lparr>ilk := initsleeplock\<rparr>) (inodes s)\<rparr>"

definition iget :: "nat \<Rightarrow> nat \<Rightarrow> 'z fsst_scheme \<Rightarrow> (nat \<times> 'z fsst_scheme) res" where
  "iget dev n s =
     (case List.find (\<lambda>i. iref (inodes s ! i) > 0 \<and> idev (inodes s ! i) = dev \<and> inum (inodes s ! i) = n) [0..<NINODE] of
        Some i \<Rightarrow> Inr (i, inode_upd i (\<lambda>ip. ip\<lparr>iref := iref ip + 1\<rparr>) s)
      | None \<Rightarrow>
          (case List.find (\<lambda>i. iref (inodes s ! i) = 0) [0..<NINODE] of
             None \<Rightarrow> Inl (Panic ''iget: no inodes'')
           | Some i \<Rightarrow> Inr (i, inode_upd i (\<lambda>ip. ip\<lparr>idev := dev, inum := n, iref := 1, ivalid := False\<rparr>) s)))"

text \<open>An on-disk inode starts at byte \<open>64 * (inum mod IPB)\<close> of its block.\<close>

definition dinode_off :: "nat \<Rightarrow> nat" where
  "dinode_off n = 64 * (n mod IPB)"

text \<open>The allocation step of \<^verbatim>\<open>ialloc\<close>: clear the on-disk inode and set its type.\<close>

definition dinode_new :: "nat \<Rightarrow> u16 \<Rightarrow> block \<Rightarrow> block" where
  "dinode_new n ty d = put16 (dinode_off n) (unat ty) (put (dinode_off n) (replicate 64 0) d)"

fun ialloc_loop :: "nat \<Rightarrow> u16 \<Rightarrow> nat list \<Rightarrow> 'z fsst_scheme \<Rightarrow> (nat \<times> 'z fsst_scheme) res" where
  "ialloc_loop dev ty [] s = Inl (Panic ''ialloc: no inodes'')"
| "ialloc_loop dev ty (n # ns) s =
     bnd (bread dev (IBLOCK n (sb s)) s) (\<lambda>(i, s1).
     if get16 (dinode_off n) (bdata (bufs s1 ! i)) = 0 then
       bnd (log_write i (bset i (dinode_new n ty (bdata (bufs s1 ! i))) s1)) (\<lambda>s2.
       bnd (brelse i s2) (iget dev n))
     else bnd (brelse i s1) (ialloc_loop dev ty ns))"

definition ialloc :: "nat \<Rightarrow> u16 \<Rightarrow> 'z fsst_scheme \<Rightarrow> (nat \<times> 'z fsst_scheme) res" where
  "ialloc dev ty s = ialloc_loop dev ty [1..<ninodes (sb s)] s"

text \<open>The stores of \<^verbatim>\<open>iupdate\<close> to the on-disk inode at \<open>off\<close>, and the loads of \<^verbatim>\<open>ilock\<close>.\<close>

definition dinode_store :: "nat \<Rightarrow> inode \<Rightarrow> block \<Rightarrow> block" where
  "dinode_store off ip d =
     fold (\<lambda>k. put32 (off + 12 + 4 * k) (addrs ip ! k)) [0..<NDIRECT + 1]
       (put32 (off + 8) (isize ip) (put16 (off + 6) (unat (nlink ip)) (put16 (off + 4) (unat (minor ip))
         (put16 (off + 2) (unat (major ip)) (put16 off (unat (itype ip)) d)))))"

definition dinode_load :: "nat \<Rightarrow> block \<Rightarrow> inode \<Rightarrow> inode" where
  "dinode_load off d ip =
     ip\<lparr>itype := word_of_nat (get16 off d), major := word_of_nat (get16 (off + 2) d),
        minor := word_of_nat (get16 (off + 4) d), nlink := word_of_nat (get16 (off + 6) d),
        isize := get32 (off + 8) d, addrs := map (\<lambda>k. get32 (off + 12 + 4 * k) d) [0..<NDIRECT + 1]\<rparr>"

definition iupdate :: "nat \<Rightarrow> 'z fsst_scheme \<Rightarrow> 'z fsst_scheme res" where
  "iupdate ip s =
     (let x = inodes s ! ip in
      bnd (bread (idev x) (IBLOCK (inum x) (sb s)) s) (\<lambda>(i, s1).
      bnd (log_write i (bset i (dinode_store (dinode_off (inum x)) x (bdata (bufs s1 ! i))) s1)) (brelse i)))"

definition idup :: "nat \<Rightarrow> 'z fsst_scheme \<Rightarrow> nat \<times> 'z fsst_scheme" where
  "idup ip s = (ip, inode_upd ip (\<lambda>x. x\<lparr>iref := iref x + 1\<rparr>) s)"

definition ilock :: "nat \<Rightarrow> 'z fsst_scheme \<Rightarrow> 'z fsst_scheme res" where
  "ilock ip s =
     (if iref (inodes s ! ip) < 1 then Inl (Panic ''ilock'')
      else
        case sl_acquire (curpid s) (ilk (inodes s ! ip)) of
          None \<Rightarrow> Inl (Blocked (ChInode ip))
        | Some lk \<Rightarrow>
            let s1 = inode_upd ip (\<lambda>x. x\<lparr>ilk := lk\<rparr>) s; x = inodes s1 ! ip in
            if \<not> ivalid x then
              bnd (bread (idev x) (IBLOCK (inum x) (sb s1)) s1) (\<lambda>(i, s2).
              bnd (brelse i (inode_upd ip (dinode_load (dinode_off (inum x)) (bdata (bufs s2 ! i))) s2)) (\<lambda>s3.
              let s4 = inode_upd ip (\<lambda>x. x\<lparr>ivalid := True\<rparr>) s3 in
              if itype (inodes s4 ! ip) = 0 then Inl (Panic ''ilock: no type'') else Inr s4))
            else Inr s1)"

definition iunlock :: "nat \<Rightarrow> 'z fsst_scheme \<Rightarrow> 'z fsst_scheme res" where
  "iunlock ip s =
     (if \<not> sl_holding (curpid s) (ilk (inodes s ! ip)) \<or> iref (inodes s ! ip) < 1 then Inl (Panic ''iunlock'')
      else Inr ((inode_upd ip (\<lambda>x. x\<lparr>ilk := sl_release (ilk x)\<rparr>) s)\<lparr>wakes := wakes s @ [ChInode ip]\<rparr>))"

section \<open>Contents of inodes\<close>

definition bmap :: "nat \<Rightarrow> nat \<Rightarrow> 'z fsst_scheme \<Rightarrow> (nat \<times> 'z fsst_scheme) res" where
  "bmap ip bn s =
     (let x = inodes s ! ip in
      if bn < NDIRECT then
        (if addrs x ! bn = 0 then
           bnd (balloc (idev x) s) (\<lambda>(addr, s1).
           if addr = 0 then Inr (0, s1)
           else Inr (addr, inode_upd ip (\<lambda>x. x\<lparr>addrs := (addrs x)[bn := addr]\<rparr>) s1))
         else Inr (addrs x ! bn, s))
      else if bn - NDIRECT < NINDIRECT then
        bnd (if addrs x ! NDIRECT = 0 then
               bnd (balloc (idev x) s) (\<lambda>(addr, s1).
               if addr = 0 then Inr (0, s1)
               else Inr (addr, inode_upd ip (\<lambda>x. x\<lparr>addrs := (addrs x)[NDIRECT := addr]\<rparr>) s1))
             else Inr (addrs x ! NDIRECT, s)) (\<lambda>(addr, s1).
        if addr = 0 then Inr (0, s1)
        else
          bnd (bread (idev x) addr s1) (\<lambda>(i, s2).
          let a = get32 (4 * (bn - NDIRECT)) (bdata (bufs s2 ! i)) in
          bnd (if a = 0 then
                 bnd (balloc (idev x) s2) (\<lambda>(a', s3).
                 if a' \<noteq> 0 then
                   bnd (log_write i (bset i (put32 (4 * (bn - NDIRECT)) a' (bdata (bufs s3 ! i))) s3)) (\<lambda>s4. Inr (a', s4))
                 else Inr (0, s3))
               else Inr (a, s2)) (\<lambda>(a', s5).
          bnd (brelse i s5) (\<lambda>s6. Inr (a', s6)))))
      else Inl (Panic ''bmap: out of range''))"

definition itrunc :: "nat \<Rightarrow> 'z fsst_scheme \<Rightarrow> 'z fsst_scheme res" where
  "itrunc ip s =
     bnd (foldres (\<lambda>i s.
            if addrs (inodes s ! ip) ! i \<noteq> 0 then
              bnd (bfree (idev (inodes s ! ip)) (addrs (inodes s ! ip) ! i) s) (\<lambda>s1.
              Inr (inode_upd ip (\<lambda>x. x\<lparr>addrs := (addrs x)[i := 0]\<rparr>) s1))
            else Inr s) [0..<NDIRECT] s) (\<lambda>s1.
     bnd (if addrs (inodes s1 ! ip) ! NDIRECT \<noteq> 0 then
            bnd (bread (idev (inodes s1 ! ip)) (addrs (inodes s1 ! ip) ! NDIRECT) s1) (\<lambda>(i, s2).
            bnd (foldres (\<lambda>j s.
                   let a = get32 (4 * j) (bdata (bufs s ! i)) in
                   if a \<noteq> 0 then bfree (idev (inodes s ! ip)) a s else Inr s) [0..<NINDIRECT] s2) (\<lambda>s3.
            bnd (brelse i s3) (\<lambda>s4.
            bnd (bfree (idev (inodes s4 ! ip)) (addrs (inodes s4 ! ip) ! NDIRECT) s4) (\<lambda>s5.
            Inr (inode_upd ip (\<lambda>x. x\<lparr>addrs := (addrs x)[NDIRECT := 0]\<rparr>) s5)))))
          else Inr s1) (\<lambda>s6.
     iupdate ip (inode_upd ip (\<lambda>x. x\<lparr>isize := 0\<rparr>) s6)))"

definition iput :: "nat \<Rightarrow> 'z fsst_scheme \<Rightarrow> 'z fsst_scheme res" where
  "iput ip s =
     (let x = inodes s ! ip in
      bnd (if iref x = 1 \<and> ivalid x \<and> nlink x = 0 then
             (case sl_acquire (curpid s) (ilk x) of
                None \<Rightarrow> Inl (Blocked (ChInode ip))
              | Some lk \<Rightarrow>
                  bnd (itrunc ip (inode_upd ip (\<lambda>x. x\<lparr>ilk := lk\<rparr>) s)) (\<lambda>s1.
                  bnd (iupdate ip (inode_upd ip (\<lambda>x. x\<lparr>itype := 0\<rparr>) s1)) (\<lambda>s2.
                  Inr ((inode_upd ip (\<lambda>x. x\<lparr>ivalid := False, ilk := sl_release (ilk x)\<rparr>) s2)
                    \<lparr>wakes := wakes s2 @ [ChInode ip]\<rparr>))))
           else Inr s) (\<lambda>s3.
      Inr (inode_upd ip (\<lambda>x. x\<lparr>iref := iref x - 1\<rparr>) s3)))"

definition iunlockput :: "nat \<Rightarrow> 'z fsst_scheme \<Rightarrow> 'z fsst_scheme res" where
  "iunlockput ip s = bnd (iunlock ip s) (iput ip)"

record stat =
  st_dev :: nat
  st_ino :: nat
  st_type :: u16
  st_nlink :: u16
  st_size :: nat

definition stati :: "nat \<Rightarrow> 'z fsst_scheme \<Rightarrow> stat" where
  "stati ip s = (let x = inodes s ! ip in
     \<lparr>st_dev = idev x, st_ino = inum x, st_type = itype x, st_nlink = nlink x, st_size = isize x\<rparr>)"

function readi_loop ::
  "(nat \<Rightarrow> u8 list \<Rightarrow> 'm \<Rightarrow> (int \<times> 'm) res) \<Rightarrow> nat \<Rightarrow> nat \<Rightarrow> nat \<Rightarrow> nat \<Rightarrow> nat \<Rightarrow> 'z fsst_scheme \<Rightarrow> 'm \<Rightarrow>
     (int \<times> 'z fsst_scheme \<times> 'm) res" where
  "readi_loop cpo ip dst off n tot s mm =
     (if tot < n then
        bnd (bmap ip (off div BSIZE) s) (\<lambda>(addr, s1).
        if addr = 0 then Inr (int tot, s1, mm)
        else
          bnd (bread (idev (inodes s1 ! ip)) addr s1) (\<lambda>(i, s2).
          let k = min (n - tot) (BSIZE - off mod BSIZE) in
          bnd (cpo dst (take k (drop (off mod BSIZE) (bdata (bufs s2 ! i)))) mm) (\<lambda>(r, mm1).
          bnd (brelse i s2) (\<lambda>s3.
          if r = -1 then Inr (-1, s3, mm1)
          else readi_loop cpo ip (dst + k) (off + k) n (tot + k) s3 mm1))))
      else Inr (int tot, s, mm))"
  by pat_completeness auto
termination
  by (relation "measure (\<lambda>(cpo, ip, dst, off, n, tot, s, mm). n - tot)") auto

definition readi ::
  "(nat \<Rightarrow> u8 list \<Rightarrow> 'm \<Rightarrow> (int \<times> 'm) res) \<Rightarrow> nat \<Rightarrow> nat \<Rightarrow> nat \<Rightarrow> nat \<Rightarrow> 'z fsst_scheme \<Rightarrow> 'm \<Rightarrow>
     (int \<times> 'z fsst_scheme \<times> 'm) res" where
  "readi cpo ip dst off n s mm =
     (let sz = isize (inodes s ! ip) in
      if off > sz \<or> (off + n) mod 2 ^ 32 < off then Inr (0, s, mm)
      else
        let n' = (if off + n > sz then sz - off else n) in
        readi_loop cpo ip dst off n' 0 s mm)"

text \<open>
  \<open>cpi src k\<close> is the result of \<^verbatim>\<open>either_copyin\<close> and the bytes it stored, which are fewer than
  \<open>k\<close> when it failed half way; they are in the buffer in any case.
\<close>

function writei_loop ::
  "(nat \<Rightarrow> nat \<Rightarrow> (int \<times> u8 list) res) \<Rightarrow> nat \<Rightarrow> nat \<Rightarrow> nat \<Rightarrow> nat \<Rightarrow> nat \<Rightarrow> 'z fsst_scheme \<Rightarrow>
     (nat \<times> nat \<times> 'z fsst_scheme) res" where
  "writei_loop cpi ip src off n tot s =
     (if tot < n then
        bnd (bmap ip (off div BSIZE) s) (\<lambda>(addr, s1).
        if addr = 0 then Inr (tot, off, s1)
        else
          bnd (bread (idev (inodes s1 ! ip)) addr s1) (\<lambda>(i, s2).
          let k = min (n - tot) (BSIZE - off mod BSIZE) in
          bnd (cpi src k) (\<lambda>(r, bs).
          let s3 = bset i (put (off mod BSIZE) bs (bdata (bufs s2 ! i))) s2 in
          if r = -1 then bnd (brelse i s3) (\<lambda>s4. Inr (tot, off, s4))
          else
            bnd (log_write i s3) (\<lambda>s4.
            bnd (brelse i s4) (\<lambda>s5.
            writei_loop cpi ip (src + k) (off + k) n (tot + k) s5)))))
      else Inr (tot, off, s))"
  by pat_completeness auto
termination
  by (relation "measure (\<lambda>(cpi, ip, src, off, n, tot, s). n - tot)") auto

definition writei ::
  "(nat \<Rightarrow> nat \<Rightarrow> (int \<times> u8 list) res) \<Rightarrow> nat \<Rightarrow> nat \<Rightarrow> nat \<Rightarrow> nat \<Rightarrow> 'z fsst_scheme \<Rightarrow> (int \<times> 'z fsst_scheme) res" where
  "writei cpi ip src off n s =
     (if off > isize (inodes s ! ip) \<or> (off + n) mod 2 ^ 32 < off then Inr (-1, s)
      else if off + n > MAXFILE * BSIZE then Inr (-1, s)
      else
        bnd (writei_loop cpi ip src off n 0 s) (\<lambda>(tot, off', s1).
        let s2 = (if off' > isize (inodes s1 ! ip) then inode_upd ip (\<lambda>x. x\<lparr>isize := off'\<rparr>) s1 else s1) in
        bnd (iupdate ip s2) (\<lambda>s3. Inr (int tot, s3))))"

declare readi_loop.simps [simp del] writei_loop.simps [simp del]

section \<open>Directories\<close>

text \<open>Copies from and to a local variable, given by its bytes.\<close>

definition cpo_local :: "nat \<Rightarrow> u8 list \<Rightarrow> u8 list \<Rightarrow> (int \<times> u8 list) res" where
  "cpo_local dst bs m = Inr (0, put dst bs m)"

definition cpi_local :: "u8 list \<Rightarrow> nat \<Rightarrow> nat \<Rightarrow> (int \<times> u8 list) res" where
  "cpi_local m src k = Inr (0, take k (drop src m))"

text \<open>
  A name is the contents of a \<^verbatim>\<open>char\<close> array up to the terminating NUL (names of \<^verbatim>\<open>DIRSIZ\<close>
  characters have none); the string functions run on a memory that holds the arrays.
\<close>

definition byte_at :: "u8 list \<Rightarrow> nat \<Rightarrow> u8" where
  "byte_at xs i = (if i < length xs then xs ! i else 0)"

definition two_strings :: "u8 list \<Rightarrow> u8 list \<Rightarrow> mem" where
  "two_strings s t = (\<lambda>a. if a < DIRSIZ then byte_at s a else byte_at t (a - DIRSIZ))"

definition namecmp :: "u8 list \<Rightarrow> u8 list \<Rightarrow> int" where
  "namecmp s t = strncmp (two_strings s t) 0 DIRSIZ DIRSIZ"

fun dirlookup_loop :: "nat \<Rightarrow> u8 list \<Rightarrow> nat list \<Rightarrow> 'z fsst_scheme \<Rightarrow> u8 list \<Rightarrow> ((nat \<times> nat) option \<times> 'z fsst_scheme) res" where
  "dirlookup_loop dp name [] s de = Inr (None, s)"
| "dirlookup_loop dp name (off # offs) s de =
     bnd (readi cpo_local dp 0 off 16 s de) (\<lambda>(r, s1, de1).
     if r \<noteq> 16 then Inl (Panic ''dirlookup read'')
     else if get16 0 de1 = 0 then dirlookup_loop dp name offs s1 de1
     else if namecmp name (drop 2 de1) = 0 then
       bnd (iget (idev (inodes s1 ! dp)) (get16 0 de1) s1) (\<lambda>(ip, s2). Inr (Some (ip, off), s2))
     else dirlookup_loop dp name offs s1 de1)"

definition dir_offs :: "nat \<Rightarrow> nat list" where
  "dir_offs n = map (\<lambda>k. 16 * k) [0..<(n + 15) div 16]"

definition dirlookup :: "nat \<Rightarrow> u8 list \<Rightarrow> 'z fsst_scheme \<Rightarrow> ((nat \<times> nat) option \<times> 'z fsst_scheme) res" where
  "dirlookup dp name s =
     (if itype (inodes s ! dp) \<noteq> T_DIR then Inl (Panic ''dirlookup not DIR'')
      else dirlookup_loop dp name (dir_offs (isize (inodes s ! dp))) s (replicate 16 0))"

text \<open>The search of \<^verbatim>\<open>dirlink\<close> for a free entry: its offset, or the size of the directory.\<close>

fun free_slot :: "nat \<Rightarrow> nat \<Rightarrow> nat list \<Rightarrow> 'z fsst_scheme \<Rightarrow> u8 list \<Rightarrow> (nat \<times> 'z fsst_scheme) res" where
  "free_slot dp fin [] s de = Inr (fin, s)"
| "free_slot dp fin (off # offs) s de =
     bnd (readi cpo_local dp 0 off 16 s de) (\<lambda>(r, s1, de1).
     if r \<noteq> 16 then Inl (Panic ''dirlink read'')
     else if get16 0 de1 = 0 then Inr (off, s1)
     else free_slot dp fin offs s1 de1)"

text \<open>The entry that \<^verbatim>\<open>dirlink\<close> writes: \<^verbatim>\<open>strncpy(de.name, name, DIRSIZ); de.inum = inum\<close>.\<close>

definition new_dirent :: "u8 list \<Rightarrow> nat \<Rightarrow> u8 list" where
  "new_dirent name n = le_bytes 2 n @ read_list (strncpy (two_strings [] name) 0 DIRSIZ (int DIRSIZ)) 0 DIRSIZ"

definition dirlink :: "nat \<Rightarrow> u8 list \<Rightarrow> nat \<Rightarrow> 'z fsst_scheme \<Rightarrow> (int \<times> 'z fsst_scheme) res" where
  "dirlink dp name n s =
     bnd (dirlookup dp name s) (\<lambda>(r, s1).
     case r of
       Some (ip, off) \<Rightarrow> bnd (iput ip s1) (\<lambda>s2. Inr (-1, s2))
     | None \<Rightarrow>
         let sz = isize (inodes s1 ! dp) in
         bnd (free_slot dp (16 * ((sz + 15) div 16)) (dir_offs sz) s1 (replicate 16 0)) (\<lambda>(off, s2).
         bnd (writei (cpi_local (new_dirent name n)) dp 0 off 16 s2) (\<lambda>(w, s3).
         if w \<noteq> 16 then Inl (Panic ''dirlink'') else Inr (0, s3))))"

section \<open>Path names\<close>

text \<open>
  A path is the bytes of the C string without its NUL, \<open>name\<close> the 14 byte array that receives the
  next element.
\<close>

abbreviation (input) SLASH :: u8 where "SLASH \<equiv> 47"

definition skipelem :: "u8 list \<Rightarrow> u8 list \<Rightarrow> (u8 list \<times> u8 list) option" where
  "skipelem path name =
     (let p = dropWhile (\<lambda>c. c = SLASH) path in
      if p = [] then None
      else
        let e = takeWhile (\<lambda>c. c \<noteq> SLASH) p; p' = dropWhile (\<lambda>c. c \<noteq> SLASH) p in
        Some (dropWhile (\<lambda>c. c = SLASH) p',
              if length e \<ge> DIRSIZ then put 0 (take DIRSIZ e) name else put 0 (e @ [0]) name))"

lemma skipelem_less: "skipelem path name = Some (p', n') \<Longrightarrow> length p' < length path"
proof -
  assume a: "skipelem path name = Some (p', n')"
  let ?p = "dropWhile (\<lambda>c. c = SLASH) path"
  have ne: "?p \<noteq> []" and p': "p' = dropWhile (\<lambda>c. c = SLASH) (dropWhile (\<lambda>c. c \<noteq> SLASH) ?p)"
    using a by (auto simp: skipelem_def Let_def split: if_splits)
  obtain c cs where c: "?p = c # cs" using ne by (cases ?p) auto
  then have "c \<noteq> SLASH" using hd_dropWhile [OF ne] by simp
  then have "length (dropWhile (\<lambda>c. c \<noteq> SLASH) ?p) \<le> length cs" using c by (simp add: length_dropWhile_le)
  then have "length p' \<le> length cs" using p' length_dropWhile_le order_trans by blast
  also have "length cs < length path" using c length_dropWhile_le [of "\<lambda>c. c = SLASH" path] by simp
  finally show ?thesis .
qed

function namex_loop ::
  "u8 list \<Rightarrow> bool \<Rightarrow> u8 list \<Rightarrow> nat \<Rightarrow> 'z fsst_scheme \<Rightarrow> (nat option \<times> u8 list \<times> 'z fsst_scheme) res" where
  "namex_loop path par name ip s =
     (case skipelem path name of
        None \<Rightarrow> if par then bnd (iput ip s) (\<lambda>s1. Inr (None, name, s1)) else Inr (Some ip, name, s)
      | Some (path1, name1) \<Rightarrow>
          bnd (ilock ip s) (\<lambda>s1.
          if itype (inodes s1 ! ip) \<noteq> T_DIR then bnd (iunlockput ip s1) (\<lambda>s2. Inr (None, name1, s2))
          else if par \<and> path1 = [] then bnd (iunlock ip s1) (\<lambda>s2. Inr (Some ip, name1, s2))
          else
            bnd (dirlookup ip name1 s1) (\<lambda>(next, s2).
            bnd (iunlockput ip s2) (\<lambda>s3.
            case next of
              None \<Rightarrow> Inr (None, name1, s3)
            | Some (ip1, off) \<Rightarrow> namex_loop path1 par name1 ip1 s3))))"
  by pat_completeness auto
termination
  by (relation "measure (\<lambda>(path, par, name, ip, s). length path)") (auto dest: skipelem_less)

declare namex_loop.simps [simp del]

definition namex ::
  "u8 list \<Rightarrow> bool \<Rightarrow> u8 list \<Rightarrow> nat option \<Rightarrow> 'z fsst_scheme \<Rightarrow> (nat option \<times> u8 list \<times> 'z fsst_scheme) res" where
  "namex path par name wd s =
     bnd (if path \<noteq> [] \<and> hd path = SLASH then iget ROOTDEV ROOTINO s
          else case wd of None \<Rightarrow> Inl OutOfBounds | Some ip \<Rightarrow> Inr (idup ip s)) (\<lambda>(ip, s1).
     namex_loop path par name ip s1)"

definition namei :: "u8 list \<Rightarrow> nat option \<Rightarrow> 'z fsst_scheme \<Rightarrow> (nat option \<times> 'z fsst_scheme) res" where
  "namei path wd s = bnd (namex path False (replicate DIRSIZ 0) wd s) (\<lambda>(r, name, s1). Inr (r, s1))"

definition nameiparent ::
  "u8 list \<Rightarrow> nat option \<Rightarrow> 'z fsst_scheme \<Rightarrow> (nat option \<times> u8 list \<times> 'z fsst_scheme) res" where
  "nameiparent path wd s = namex path True (replicate DIRSIZ 0) wd s"

end
