(* ===== verification/FsBlocks.thy ===== *)
theory FsBlocks
  imports Fs
begin

text \<open>
  The block layer of the file system: every operation of \<^verbatim>\<open>fs.c\<close> inside a transaction acts on
  the contents \<open>view s\<close> of the blocks. A read of a block does not change it, an update of a block
  through \<^verbatim>\<open>bread\<close>, \<^verbatim>\<open>log_write\<close> and \<^verbatim>\<open>brelse\<close> changes exactly that block.
\<close>

section \<open>Transactions\<close>

definition txn :: "'z lst_scheme \<Rightarrow> nat set \<Rightarrow> bool" where
  "txn s H \<longleftrightarrow> log_ok s \<and> held s (set (logged s)) H \<and> 30 \<le> lsize s \<and> 1 \<le> outstanding s"

lemma txnD:
  assumes "txn s H"
  shows "log_ok s" "held s (set (logged s)) H" "30 \<le> lsize s" "1 \<le> outstanding s"
    "card (set (logged s)) = nat (lh_n s)" "0 \<le> lh_n s" "lh_n s < 30" "ldev s = 1"
  using assms log_okD [of s] by (auto simp: txn_def distinct_card)

text \<open>What operations on blocks keep of the state.\<close>

definition kept :: "'z lst_scheme \<Rightarrow> 'z lst_scheme \<Rightarrow> bool" where
  "kept s t \<longleftrightarrow> lstart t = lstart s \<and> outstanding t = outstanding s \<and> committing t = committing s \<and>
     lst.more t = lst.more s \<and> curpid t = curpid s \<and> disk t = disk s \<and> dwrites t = dwrites s"

lemma kept_refl [simp]: "kept s s"
  by (simp add: kept_def)

lemma kept_trans [trans]: "kept s t \<Longrightarrow> kept t u \<Longrightarrow> kept s u"
  by (simp add: kept_def)

lemma kept_fs:
  fixes s t :: "'z fsst_scheme"
  assumes "kept s t"
  shows "sb t = sb s" "inodes t = inodes s" "curpid t = curpid s" "lstart t = lstart s" "fsst.more t = fsst.more s"
  using assms by (cases s; cases t; simp add: kept_def)+

lemma keptD:
  assumes "kept s t"
  shows "disk t = disk s" "dwrites t = dwrites s" "outstanding t = outstanding s" "committing t = committing s"
  using assms by (simp_all only: kept_def)

lemma same_kept:
  assumes "same s t" "disk t = disk s" "dwrites t = dwrites s"
  shows "kept s t"
  using same_lst [OF assms(1)] assms(2,3) by (simp add: kept_def)

lemma txn_same:
  fixes s t :: "'z lst_scheme"
  assumes "txn s H" "same s t" "held t (set (logged s)) H'"
  shows "txn t H'"
  using assms same_lst [OF assms(2)] same_log [OF assms(2)] by (simp add: txn_def)

text \<open>Reading a block.\<close>

lemma txn_bread:
  fixes s :: "'z lst_scheme"
  assumes x: "txn s H" and c: "nat (lh_n s) + card H < 30" and b: "\<forall>i\<in>H. blockno (bufs s ! i) \<noteq> b"
  obtains i t where "bread 1 b s = Inr (i, t)" "i < 30" "i \<notin> H" "txn t (insert i H)" "view t = view s"
    "bdata (bufs t ! i) = view s b" "blockno (bufs t ! i) = b" "kept s t" "lh_n t = lh_n s" "logged t = logged s"
    "\<forall>j. j \<noteq> i \<longrightarrow> bufs t ! j = bufs s ! j" "dwrites t = dwrites s"
proof -
  note X = txnD [OF x]
  obtain i t where t: "bread 1 b s = Inr (i, t)" "i < 30" "i \<notin> H" "held t (set (logged s)) (insert i H)" "view t = view s"
    "bdata (bufs t ! i) = view s b" "blockno (bufs t ! i) = b" "\<forall>j. j \<noteq> i \<longrightarrow> bufs t ! j = bufs s ! j"
    "\<exists>x. t = s\<lparr>bufs := (bufs s)[i := x]\<rparr>"
    by (rule bread_held [OF X(2) finite_set _ b]) (use c X(5) in auto)
  note e = upd_same [OF t(9)]
  have "kept s t" using same_kept e by blast
  then show thesis
    using that [OF t(1-3) _ t(5-7) _ _ _ t(8)] txn_same [OF x _ t(4)] e same_lst(6) [of s t] same_log(1) [of s t] by simp
qed

text \<open>Releasing a buffer that is logged or unchanged.\<close>

lemma txn_brelse:
  fixes s :: "'z lst_scheme"
  assumes x: "txn s H" and i: "i \<in> H"
    and c: "blockno (bufs s ! i) \<in> set (logged s) \<or> bdata (bufs s ! i) = disk s (blockno (bufs s ! i))"
  obtains t where "brelse i s = Inr t" "txn t (H - {i})" "view t = view s" "kept s t" "lh_n t = lh_n s"
    "logged t = logged s" "dwrites t = dwrites s"
    "\<forall>j. bdata (bufs t ! j) = bdata (bufs s ! j) \<and> blockno (bufs t ! j) = blockno (bufs s ! j)"
proof -
  note X = txnD [OF x]
  obtain t where t: "brelse i s = Inr t" "held t (set (logged s)) (H - {i})" "view t = view s"
    "disk t = disk s" "dwrites t = dwrites s" "same s t"
    "\<forall>j. bdata (bufs t ! j) = bdata (bufs s ! j) \<and> blockno (bufs t ! j) = blockno (bufs s ! j)"
    by (rule brelse_held [OF X(2) i c])
  show thesis
    using that [OF t(1) txn_same [OF x t(6,2)] t(3) same_kept [OF t(6,4,5)] _ _ t(5,7)] same_lst(6) [OF t(6)] same_log(1) [OF t(6)]
    by simp
qed

text \<open>A buffer that was just read holds a block that is logged or agrees with the disk.\<close>

lemma read_clean:
  assumes h: "held s P H" and b: "\<forall>i\<in>H. blockno (bufs s ! i) \<noteq> b"
  shows "b \<in> P \<or> view s b = disk s b"
proof (cases "\<exists>i. on s i b")
  case True
  then obtain i where i: "on s i b" by blast
  then have "i \<notin> H" using b by (auto simp: on_def)
  then show ?thesis using held_view [OF h i] heldD(10) [OF h i] by auto
next
  case False
  then show ?thesis using view_off [of s b] by blast
qed

lemma txn_log_write:
  fixes s :: "'z lst_scheme"
  assumes x: "txn s H" and n: "lh_n s < 29" and i: "i \<in> H" and b: "blockno (bufs s ! i) = b" "b < 2 ^ 32" "b \<notin> {lstart s..<lstart s + 30}"
  obtains t where "log_write i s = Inr t" "txn t H" "view t = view s" "kept s t"
    "b \<in> set (logged t)" "set (logged t) \<subseteq> insert b (set (logged s))" "lh_n t \<le> lh_n s + 1" "dwrites t = dwrites s"
    "\<forall>j. bdata (bufs t ! j) = bdata (bufs s ! j) \<and> blockno (bufs t ! j) = blockno (bufs s ! j)"
proof -
  note X = txnD [OF x]
  obtain t where t: "log_write i s = Inr t" "logged t = (if b \<in> set (logged s) then logged s else logged s @ [b])"
     "log_ok t" "held t (set (logged t)) H" "view t = view s" "disk t = disk s"
    using log_write_rule [OF X(1) n X(3,4,2) i b] by blast
  have k: "lsize t = lsize s" "outstanding t = outstanding s" "committing t = committing s" "lstart t = lstart s" "lst.more t = lst.more s" "curpid t = curpid s"
    "dwrites t = dwrites s"
    using t(1) by (auto simp: log_write_def Let_def bpin_def buf_upd_def split: if_splits)
  have d: "bdata (bufs t ! j) = bdata (bufs s ! j) \<and> blockno (bufs t ! j) = blockno (bufs s ! j)" for j
    using t(1) held_nth [OF X(2) i] by (auto simp: log_write_def Let_def bpin_def buf_upd_def split: if_splits)
  have "lh_n t \<le> lh_n s + 1"
    using t(1) by (auto simp: log_write_def Let_def bpin_def buf_upd_def split: if_splits)
  then show thesis using that [OF t(1) _ t(5)] t(2-4,6) k d X(3,4) by (auto simp: txn_def kept_def split: if_splits)
qed

text \<open>The tail of an update of the held buffer \<open>i\<close>: store, log, release.\<close>

lemma txn_store:
  fixes s :: "'z lst_scheme"
  assumes x: "txn s H" and n: "lh_n s < 29" and i: "i \<in> H" and b: "blockno (bufs s ! i) = b" "b < 2 ^ 32" "b \<notin> {lstart s..<lstart s + 30}"
  obtains u t where "log_write i (bset i d s) = Inr u" "brelse i u = Inr t" "txn t (H - {i})" "view t = (view s)(b := d)"
    "kept s t" "lh_n t \<le> lh_n s + 1" "dwrites t = dwrites s"
    "\<forall>j. j \<noteq> i \<longrightarrow> bdata (bufs t ! j) = bdata (bufs s ! j)" "\<forall>j. blockno (bufs t ! j) = blockno (bufs s ! j)"
proof -
  note X = txnD [OF x]
  note w = bset_held [OF X(2) i, of d]
  note e = same_lst [OF w(5)]
  have x1: "txn (bset i d s) H" by (rule txn_same [OF x w(5) w(1)])
  have n1: "lh_n (bset i d s) < 29" and b1: "blockno (bufs (bset i d s) ! i) = b" and b3: "b \<notin> {lstart (bset i d s)..<lstart (bset i d s) + 30}"
    using e n w(7) b by simp_all
  obtain u where u: "log_write i (bset i d s) = Inr u" "txn u H" "view u = view (bset i d s)" "kept (bset i d s) u"
    "b \<in> set (logged u)" "lh_n u \<le> lh_n s + 1" "dwrites u = dwrites s"
    "\<forall>j. bdata (bufs u ! j) = bdata (bufs (bset i d s) ! j) \<and> blockno (bufs u ! j) = blockno (bufs (bset i d s) ! j)"
    by (rule txn_log_write [OF x1 n1 i b1 b(2) b3]) (use e w(4) in auto)
  have c: "blockno (bufs u ! i) \<in> set (logged u) \<or> bdata (bufs u ! i) = disk u (blockno (bufs u ! i))"
    using u(5,8) b1 by simp
  obtain t where t: "brelse i u = Inr t" "txn t (H - {i})" "view t = view u" "kept u t" "lh_n t = lh_n u" "dwrites t = dwrites u"
    "\<forall>j. bdata (bufs t ! j) = bdata (bufs u ! j) \<and> blockno (bufs t ! j) = blockno (bufs u ! j)"
    by (rule txn_brelse [OF u(2) i c]) auto
  have "kept s t" using kept_trans [OF kept_trans [OF same_kept [OF w(5,3,4)] u(4)] t(4)] .
  then show thesis using that [OF u(1) t(1,2)] t(3,5-7) u(3,6-8) w(2,6,7) b(1) by simp
qed

text \<open>A whole update: \<^verbatim>\<open>bread\<close>, store, \<^verbatim>\<open>log_write\<close>, \<^verbatim>\<open>brelse\<close>.\<close>

lemma txn_update:
  fixes s :: "'z lst_scheme"
  assumes x: "txn s H" and c: "lh_n s < 29" "nat (lh_n s) + card H < 30" and h: "\<forall>i\<in>H. blockno (bufs s ! i) \<noteq> b"
    and b: "b < 2 ^ 32" "b \<notin> {lstart s..<lstart s + 30}"
  obtains t where "bnd (bread 1 b s) (\<lambda>(i, s1). bnd (log_write i (bset i (f (bdata (bufs s1 ! i))) s1)) (brelse i)) = Inr t"
    "txn t H" "view t = (view s)(b := f (view s b))" "kept s t" "lh_n t \<le> lh_n s + 1" "dwrites t = dwrites s"
    "\<forall>i\<in>H. blockno (bufs t ! i) = blockno (bufs s ! i) \<and> bdata (bufs t ! i) = bdata (bufs s ! i)"
proof -
  obtain i s1 where s1: "bread 1 b s = Inr (i, s1)" "i \<notin> H" "txn s1 (insert i H)" "view s1 = view s"
    "bdata (bufs s1 ! i) = view s b" "blockno (bufs s1 ! i) = b" "kept s s1" "lh_n s1 = lh_n s"
    "\<forall>j. j \<noteq> i \<longrightarrow> bufs s1 ! j = bufs s ! j" "dwrites s1 = dwrites s"
    by (rule txn_bread [OF x c(2) h]) auto
  have n1: "lh_n s1 < 29" and i: "i \<in> insert i H" and b1: "b \<notin> {lstart s1..<lstart s1 + 30}"
    using s1(7,8) c b by (simp_all add: kept_def)
  obtain u t where t: "log_write i (bset i (f (view s b)) s1) = Inr u" "brelse i u = Inr t" "txn t (insert i H - {i})"
    "view t = (view s1)(b := f (view s b))" "kept s1 t" "lh_n t \<le> lh_n s1 + 1" "dwrites t = dwrites s1"
    "\<forall>j. j \<noteq> i \<longrightarrow> bdata (bufs t ! j) = bdata (bufs s1 ! j)" "\<forall>j. blockno (bufs t ! j) = blockno (bufs s1 ! j)"
    by (rule txn_store [OF s1(3) n1 i s1(6) b(1) b1])
  show thesis
  proof (rule that)
    show "bnd (bread 1 b s) (\<lambda>(i, s1). bnd (log_write i (bset i (f (bdata (bufs s1 ! i))) s1)) (brelse i)) = Inr t"
      using s1(1,5) t(1,2) by simp
    show "txn t H" using t(3) s1(2) by (simp add: insert_Diff_if)
    show "kept s t" using kept_trans [OF s1(7) t(5)] .
    show "\<forall>i\<in>H. blockno (bufs t ! i) = blockno (bufs s ! i) \<and> bdata (bufs t ! i) = bdata (bufs s ! i)"
      using t(8,9) s1(2,9) by metis
  qed (use t s1 in simp_all)
qed

text \<open>A block that is read and released unchanged.\<close>

lemma txn_peek:
  fixes s :: "'z lst_scheme"
  assumes x: "txn s H" and c: "nat (lh_n s) + card H < 30" and h: "\<forall>i\<in>H. blockno (bufs s ! i) \<noteq> b"
  obtains i s1 t where "bread 1 b s = Inr (i, s1)" "bdata (bufs s1 ! i) = view s b" "brelse i s1 = Inr t"
    "txn t H" "view t = view s" "kept s s1" "kept s t" "lh_n t = lh_n s" "logged t = logged s" "dwrites t = dwrites s"
    "\<forall>i\<in>H. blockno (bufs t ! i) = blockno (bufs s ! i) \<and> bdata (bufs t ! i) = bdata (bufs s ! i)"
proof -
  obtain i s1 where s1: "bread 1 b s = Inr (i, s1)" "i \<notin> H" "txn s1 (insert i H)" "view s1 = view s"
    "bdata (bufs s1 ! i) = view s b" "blockno (bufs s1 ! i) = b" "kept s s1" "lh_n s1 = lh_n s" "logged s1 = logged s"
    "\<forall>j. j \<noteq> i \<longrightarrow> bufs s1 ! j = bufs s ! j" "dwrites s1 = dwrites s"
    by (rule txn_bread [OF x c h]) auto
  have c1: "blockno (bufs s1 ! i) \<in> set (logged s1) \<or> bdata (bufs s1 ! i) = disk s1 (blockno (bufs s1 ! i))"
    using read_clean [OF txnD(2) [OF x] h] s1(5-7,9) by (simp add: kept_def)
  obtain t where t: "brelse i s1 = Inr t" "txn t (insert i H - {i})" "view t = view s1" "kept s1 t" "lh_n t = lh_n s1"
    "logged t = logged s1" "dwrites t = dwrites s1"
    "\<forall>j. bdata (bufs t ! j) = bdata (bufs s1 ! j) \<and> blockno (bufs t ! j) = blockno (bufs s1 ! j)"
    by (rule txn_brelse [OF s1(3) _ c1]) auto
  have "txn t H" using t(2) s1(2) by (simp add: insert_Diff_if)
  moreover have "\<forall>i\<in>H. blockno (bufs t ! i) = blockno (bufs s ! i) \<and> bdata (bufs t ! i) = bdata (bufs s ! i)"
    using t(8) s1(2,10) by metis
  ultimately show thesis
    using that [OF s1(1,5) t(1)] t(3,5-7) s1(4,7-9,11) kept_trans [OF s1(7) t(4)] by simp
qed

section \<open>The block allocator\<close>

text \<open>The bitmap: is block \<open>b\<close> marked in the contents \<open>v\<close> of the blocks?\<close>

definition used :: "superblock \<Rightarrow> (nat \<Rightarrow> block) \<Rightarrow> nat \<Rightarrow> bool" where
  "used x v b \<longleftrightarrow> bit_used (b mod BPB) (v (BBLOCK b x))"

lemma bit_used_iff: "bit_used bi d \<longleftrightarrow> bit (d ! (bi div 8)) (bi mod 8)"
  by (simp add: bit_used_def bmask_def and_exp_eq_0_iff_not_bit)

lemma bit_mark:
  assumes "length d = 1024" "bi < 8192" "bj < 8192"
  shows "bit_used bj (mark_bit bi d) \<longleftrightarrow> bj = bi \<or> bit_used bj d"
proof -
  have "bj = bi" if "bj div 8 = bi div 8" "bj mod 8 = bi mod 8" using that by (metis div_mult_mod_eq)
  then show ?thesis using assms
    by (auto simp: bit_used_iff mark_bit_def bmask_def nth_list_update bit_simps)
qed

lemma bit_clear:
  assumes "length d = 1024" "bi < 8192" "bj < 8192"
  shows "bit_used bj (clear_bit bi d) \<longleftrightarrow> bj \<noteq> bi \<and> bit_used bj d"
proof -
  have "bj = bi" if "bj div 8 = bi div 8" "bj mod 8 = bi mod 8" using that by (metis div_mult_mod_eq)
  then show ?thesis using assms
    by (auto simp: bit_used_iff clear_bit_def bmask_def nth_list_update bit_simps)
qed

lemma length_mark [simp]: "length (mark_bit bi d) = length d" "length (clear_bit bi d) = length d"
  by (simp_all add: mark_bit_def clear_bit_def)

text \<open>The geometry of the file system: bitmap blocks outside the log, and the log marked as used.\<close>

definition geo :: "'z fsst_scheme \<Rightarrow> nat set \<Rightarrow> bool" where
  "geo s H \<longleftrightarrow> fssize (sb s) < 2 ^ 32 \<and>
     (\<forall>b<fssize (sb s). BBLOCK b (sb s) < 2 ^ 32 \<and> BBLOCK b (sb s) \<notin> {lstart s..<lstart s + 30} \<and>
        length (view s (BBLOCK b (sb s))) = 1024 \<and> (\<forall>i\<in>H. blockno (bufs s ! i) \<noteq> BBLOCK b (sb s))) \<and>
     (\<forall>b<fssize (sb s). b \<in> {lstart s..<lstart s + 30} \<union> (\<lambda>i. blockno (bufs s ! i)) ` H \<longrightarrow> used (sb s) (view s) b)"

lemma geoD:
  assumes "geo s H" "b < fssize (sb s)"
  shows "BBLOCK b (sb s) < 2 ^ 32" "BBLOCK b (sb s) \<notin> {lstart s..<lstart s + 30}"
    "length (view s (BBLOCK b (sb s))) = 1024" "\<forall>i\<in>H. blockno (bufs s ! i) \<noteq> BBLOCK b (sb s)" "b < 2 ^ 32"
    "\<not> used (sb s) (view s) b \<Longrightarrow> b \<notin> {lstart s..<lstart s + 30}"
    "\<not> used (sb s) (view s) b \<Longrightarrow> \<forall>i\<in>H. blockno (bufs s ! i) \<noteq> b"
  using assms unfolding geo_def by (blast, blast, blast, blast, linarith, blast, blast)

lemma geo_cong:
  assumes "geo s H" "kept s t" "view t = view s" "\<forall>i\<in>H. blockno (bufs t ! i) = blockno (bufs s ! i)"
  shows "geo t H"
proof -
  have "(\<lambda>i. blockno (bufs t ! i)) ` H = (\<lambda>i. blockno (bufs s ! i)) ` H" using assms(4) by (simp cong: image_cong_simp)
  then show ?thesis using assms kept_fs [OF assms(2)] by (simp add: geo_def)
qed

text \<open>The state of the blocks after \<open>r\<close> has been allocated.\<close>

definition alloc_view :: "superblock \<Rightarrow> (nat \<Rightarrow> block) \<Rightarrow> nat \<Rightarrow> nat \<Rightarrow> block" where
  "alloc_view x v r = v(BBLOCK r x := mark_bit (r mod BPB) (v (BBLOCK r x)), r := replicate BSIZE 0)"

lemma find_append: "List.find p (xs @ ys) = (case List.find p xs of Some x \<Rightarrow> Some x | None \<Rightarrow> List.find p ys)"
  by (induction xs) auto

lemma find_shift: "List.find p [b..<b + k] = map_option ((+) b) (List.find (\<lambda>i. p (b + i)) [0..<k])"
proof (induction k)
  case (Suc k)
  then show ?case by (auto simp: find_append split: option.splits)
qed simp

lemma balloc_loop_spec:
  fixes s :: "'z fsst_scheme"
  assumes "txn s H" "lh_n s < 28" "nat (lh_n s) + card H < 29" "geo s H"
    "\<forall>b\<in>set bs. b mod 8192 = 0 \<and> b < fssize (sb s)"
  defines "F \<equiv> List.find (\<lambda>c. \<not> used (sb s) (view s) c) (concat (map (\<lambda>b. [b..<b + min 8192 (fssize (sb s) - b)]) bs))"
  shows "\<exists>t. balloc_loop 1 bs s = Inr (case F of Some r \<Rightarrow> r | None \<Rightarrow> 0, t) \<and> txn t H \<and> kept s t \<and>
     view t = (case F of Some r \<Rightarrow> alloc_view (sb s) (view s) r | None \<Rightarrow> view s) \<and> lh_n t \<le> lh_n s + 2 \<and>
     (\<forall>i\<in>H. blockno (bufs t ! i) = blockno (bufs s ! i) \<and> bdata (bufs t ! i) = bdata (bufs s ! i))"
  using assms(1-5) unfolding F_def
proof (induction bs arbitrary: s)
  case (Cons b bs)
  let ?B = "BBLOCK b (sb s)" and ?k = "min 8192 (fssize (sb s) - b)"
  note x = Cons.prems(1) and n = Cons.prems(2,3) and g = Cons.prems(4)
  have b: "b mod 8192 = 0" "b < fssize (sb s)" using Cons.prems(5) by simp_all
  have B: "?B < 2 ^ 32" "?B \<notin> {lstart s..<lstart s + 30}" "\<forall>i\<in>H. blockno (bufs s ! i) \<noteq> ?B"
    using geoD(1,2,4) [OF g b(2)] by blast+
  have use: "used (sb s) (view s) (b + i) \<longleftrightarrow> bit_used i (view s ?B)" if "i < ?k" for i
    using that b(1) by (simp add: used_def BBLOCK_def mod_add_eq [symmetric] div_add1_eq [of b i]) 
  have c: "nat (lh_n s) + card H < 30" using n by simp
  define G where "G = List.find (\<lambda>bi. \<not> bit_used bi (view s ?B)) [0..<?k]"
  have F: "List.find (\<lambda>c. \<not> used (sb s) (view s) c) [b..<b + ?k] = map_option ((+) b) G"
    unfolding find_shift G_def using use by (intro arg_cong [where f = "map_option _"] find_cong) auto
  show ?case
  proof (cases G)
    case None
    obtain i s1 t where t: "bread 1 ?B s = Inr (i, s1)" "bdata (bufs s1 ! i) = view s ?B" "brelse i s1 = Inr t"
      "txn t H" "view t = view s" "kept s s1" "kept s t" "lh_n t = lh_n s"
      "\<forall>i\<in>H. blockno (bufs t ! i) = blockno (bufs s ! i) \<and> bdata (bufs t ! i) = bdata (bufs s ! i)"
      by (rule txn_peek [OF x c B(3)])
    have e: "sb t = sb s" "sb s1 = sb s" using kept_fs(1) t(6,7) by blast+
    have st: "balloc_loop 1 (b # bs) s = balloc_loop 1 bs t"
      using t(1-3) None e by (simp add: G_def)
    have g': "geo t H" using geo_cong [OF g t(7,5)] t(9) by blast
    have p: "\<forall>b\<in>set bs. b mod 8192 = 0 \<and> b < fssize (sb s)" using Cons.prems(5) by simp
    let ?Q = "\<lambda>bs. List.find (\<lambda>c. \<not> used (sb s) (view s) c) (concat (map (\<lambda>b. [b..<b + min 8192 (fssize (sb s) - b)]) bs))"
    obtain t' where t': "balloc_loop 1 bs t = Inr (case ?Q bs of Some r \<Rightarrow> r | None \<Rightarrow> 0, t')"
      "txn t' H" "kept t t'" "view t' = (case ?Q bs of Some r \<Rightarrow> alloc_view (sb s) (view s) r | None \<Rightarrow> view s)"
      "lh_n t' \<le> lh_n s + 2"
      "\<forall>i\<in>H. blockno (bufs t' ! i) = blockno (bufs t ! i) \<and> bdata (bufs t' ! i) = bdata (bufs t ! i)"
      using Cons.IH [OF t(4), unfolded t(5,8) e(1), OF n g' p] by (elim exE conjE)
    have q: "?Q (b # bs) = ?Q bs" using F None by (simp add: find_append)
    show ?thesis unfolding q st using t' t(9) kept_trans [OF t(7) t'(3)] by (intro exI [of _ t']) simp
  next
    case (Some bi)
    have bi: "bi < ?k" "\<not> bit_used bi (view s ?B)" using Some unfolding G_def find_Some_iff by auto
    have nu: "\<not> used (sb s) (view s) (b + bi)" using use bi by simp
    have r: "b + bi < fssize (sb s)" "BBLOCK (b + bi) (sb s) = ?B" "(b + bi) mod 8192 = bi"
      using bi b by (auto simp: BBLOCK_def)
    note rl = geoD(5) [OF g r(1)] geoD(6,7) [OF g r(1) nu]
    obtain i s1 where s1: "bread 1 ?B s = Inr (i, s1)" "i \<notin> H" "txn s1 (insert i H)" "view s1 = view s"
      "bdata (bufs s1 ! i) = view s ?B" "blockno (bufs s1 ! i) = ?B" "kept s s1" "lh_n s1 = lh_n s"
      "\<forall>j. j \<noteq> i \<longrightarrow> bufs s1 ! j = bufs s ! j"
      by (rule txn_bread [OF x c B(3)]) auto
    note e1 = kept_fs [OF s1(7)]
    have n1: "lh_n s1 < 29" and b1: "?B \<notin> {lstart s1..<lstart s1 + 30}" using s1(8) n B(2) e1 by simp_all
    obtain u t where t: "log_write i (bset i (mark_bit bi (view s ?B)) s1) = Inr u" "brelse i u = Inr t" "txn t (insert i H - {i})"
      "view t = (view s1)(?B := mark_bit bi (view s ?B))" "kept s1 t" "lh_n t \<le> lh_n s1 + 1"
      "\<forall>j. j \<noteq> i \<longrightarrow> bdata (bufs t ! j) = bdata (bufs s1 ! j)" "\<forall>j. blockno (bufs t ! j) = blockno (bufs s1 ! j)"
      by (rule txn_store [OF s1(3) n1 insertI1 s1(6) B(1) b1])
    note et = kept_fs [OF t(5)]
    have xt: "txn t H" using t(3) s1(2) by (simp add: insert_Diff_if)
    have bt: "\<forall>j\<in>H. blockno (bufs t ! j) = blockno (bufs s ! j) \<and> bdata (bufs t ! j) = bdata (bufs s ! j)"
      using t(7,8) s1(2,9) by metis
    obtain t' where t': "bzero 1 (b + bi) t = Inr t'" "txn t' H" "view t' = (view t)(b + bi := replicate 1024 0)" "kept t t'"
      "lh_n t' \<le> lh_n t + 1"
      "\<forall>i\<in>H. blockno (bufs t' ! i) = blockno (bufs t ! i) \<and> bdata (bufs t' ! i) = bdata (bufs t ! i)"
      unfolding bzero_def
      by (rule txn_update [OF xt, of "b + bi" "\<lambda>_. replicate 1024 0"]) (use t(6) s1(8) n rl bt et e1 in auto)
    have "balloc_loop 1 (b # bs) s = Inr (b + bi, t')"
      using s1(1,5) t(1,2) t'(1) e1 Some by (simp add: G_def)
    moreover have "view t' = alloc_view (sb s) (view s) (b + bi)" using t'(3) t(4) s1(4) r by (simp add: alloc_view_def)
    moreover have "kept s t'" using kept_trans [OF kept_trans [OF s1(7) t(5)] t'(4)] .
    moreover have "lh_n t' \<le> lh_n s + 2" using t'(5) t(6) s1(8) by simp
    moreover have "List.find (\<lambda>c. \<not> used (sb s) (view s) c) (concat (map (\<lambda>b. [b..<b + min 8192 (fssize (sb s) - b)]) (b # bs))) =
      Some (b + bi)" using F Some by (simp add: find_append)
    ultimately show ?thesis using t'(2,6) bt by (intro exI [of _ t']) simp
  qed
qed simp

lemma concat_groups:
  "concat (map (\<lambda>b. [b..<b + min 8192 (n - b)]) (map (\<lambda>k. k * 8192) [0..<m])) = [0..<min (m * 8192) n]"
proof (induction m)
  case (Suc m)
  have "[0..<min (m * 8192) n] @ [m * 8192..<m * 8192 + min 8192 (n - m * 8192)] = [0..<min (Suc m * 8192) n]"
  proof (cases "m * 8192 \<le> n")
    case True
    then show ?thesis using upt_add_eq_append [of 0 "m * 8192" "min 8192 (n - m * 8192)"]
      by (auto simp: min_def add.commute split: if_splits)
  qed (simp add: min_def)
  then show ?case using Suc by simp
qed simp

lemma balloc_spec:
  fixes s :: "'z fsst_scheme"
  assumes "txn s H" "lh_n s < 28" "nat (lh_n s) + card H < 29" "geo s H"
  shows "\<exists>t. balloc 1 s = Inr (case List.find (\<lambda>c. \<not> used (sb s) (view s) c) [0..<fssize (sb s)] of Some r \<Rightarrow> r | None \<Rightarrow> 0, t) \<and>
     txn t H \<and> kept s t \<and>
     view t = (case List.find (\<lambda>c. \<not> used (sb s) (view s) c) [0..<fssize (sb s)] of Some r \<Rightarrow> alloc_view (sb s) (view s) r | None \<Rightarrow> view s) \<and>
     lh_n t \<le> lh_n s + 2 \<and>
     (\<forall>i\<in>H. blockno (bufs t ! i) = blockno (bufs s ! i) \<and> bdata (bufs t ! i) = bdata (bufs s ! i))"
proof -
  let ?bs = "map (\<lambda>k. k * 8192) [0..<(fssize (sb s) + 8192 - 1) div 8192]"
  have "k * 8192 < n" if "k < (n + 8191) div 8192" for k n :: nat using that by linarith
  then have "\<forall>b\<in>set ?bs. b mod 8192 = 0 \<and> b < fssize (sb s)" by auto
  moreover have "n \<le> (n + 8191) div 8192 * 8192" for n :: nat by linarith
  then have "concat (map (\<lambda>b. [b..<b + min 8192 (fssize (sb s) - b)]) ?bs) = [0..<fssize (sb s)]"
    unfolding concat_groups by (simp add: min_absorb2)
  ultimately show ?thesis using balloc_loop_spec [OF assms, of ?bs] unfolding balloc_def by simp
qed

text \<open>Bitmap blocks are marked as used themselves.\<close>

definition bitmap_used :: "'z fsst_scheme \<Rightarrow> bool" where
  "bitmap_used s \<longleftrightarrow> (\<forall>b<fssize (sb s). BBLOCK b (sb s) < fssize (sb s) \<longrightarrow> used (sb s) (view s) (BBLOCK b (sb s)))"

lemma used_mark:
  assumes "length (v (BBLOCK r x)) = 1024"
  shows "used x (v(BBLOCK r x := mark_bit (r mod 8192) (v (BBLOCK r x)))) b \<longleftrightarrow> b = r \<or> used x v b"
proof (cases "BBLOCK b x = BBLOCK r x")
  case True
  then have "b div 8192 = r div 8192" by (simp add: BBLOCK_def)
  then have "b mod 8192 = r mod 8192 \<longleftrightarrow> b = r" by (metis div_mult_mod_eq)
  then show ?thesis using True bit_mark [OF assms, of "r mod 8192" "b mod 8192"] by (simp add: used_def)
next
  case False
  then show ?thesis by (auto simp: used_def)
qed

lemma used_clear:
  assumes "length (v (BBLOCK r x)) = 1024"
  shows "used x (v(BBLOCK r x := clear_bit (r mod 8192) (v (BBLOCK r x)))) b \<longleftrightarrow> b \<noteq> r \<and> used x v b"
proof (cases "BBLOCK b x = BBLOCK r x")
  case True
  then have "b div 8192 = r div 8192" by (simp add: BBLOCK_def)
  then have "b mod 8192 = r mod 8192 \<longleftrightarrow> b = r" by (metis div_mult_mod_eq)
  then show ?thesis using True bit_clear [OF assms, of "r mod 8192" "b mod 8192"] by (simp add: used_def)
next
  case False
  then show ?thesis by (auto simp: used_def)
qed

lemma used_alloc:
  assumes "length (v (BBLOCK r x)) = 1024" "BBLOCK b x \<noteq> r"
  shows "used x (alloc_view x v r) b \<longleftrightarrow> b = r \<or> used x v b"
proof -
  have "used x (alloc_view x v r) b = used x (v(BBLOCK r x := mark_bit (r mod 8192) (v (BBLOCK r x)))) b"
    using assms(2) by (simp add: used_def alloc_view_def)
  then show ?thesis using used_mark [of v r x b] assms(1) by blast
qed

text \<open>
  C8: \<^verbatim>\<open>balloc\<close> inside a transaction returns the first block that is free in the bitmap, marks it
  and no other block, zeroes it, and leaves every other block and the disk as they were; it returns
  0 and changes nothing when the bitmap is full.
\<close>

theorem balloc_allocates:
  fixes s :: "'z fsst_scheme"
  assumes "txn s {}" "lh_n s < 28" "geo s {}" "bitmap_used s"
  shows "\<exists>r t. balloc 1 s = Inr (r, t) \<and> txn t {} \<and> disk t = disk s \<and>
     (if \<exists>b<fssize (sb s). \<not> used (sb s) (view s) b then
        r < fssize (sb s) \<and> \<not> used (sb s) (view s) r \<and> (\<forall>b<r. used (sb s) (view s) b) \<and>
        (\<forall>b<fssize (sb s). used (sb s) (view t) b \<longleftrightarrow> b = r \<or> used (sb s) (view s) b) \<and>
        view t r = replicate 1024 0 \<and>
        (\<forall>b. b \<noteq> r \<longrightarrow> b \<noteq> BBLOCK r (sb s) \<longrightarrow> view t b = view s b)
      else r = 0 \<and> view t = view s)"
proof -
  let ?F = "List.find (\<lambda>c. \<not> used (sb s) (view s) c) [0..<fssize (sb s)]"
  have n: "nat (lh_n s) + card ({} :: nat set) < 29" using assms(2) by simp
  obtain t where t: "balloc 1 s = Inr (case ?F of Some r \<Rightarrow> r | None \<Rightarrow> 0, t)" "txn t {}" "kept s t"
    "view t = (case ?F of Some r \<Rightarrow> alloc_view (sb s) (view s) r | None \<Rightarrow> view s)"
    using balloc_spec [OF assms(1,2) n assms(3)] by blast
  have d: "disk t = disk s" using t(3) by (simp add: kept_def)
  show ?thesis
  proof (cases ?F)
    case None
    then have "\<not> (\<exists>b<fssize (sb s). \<not> used (sb s) (view s) b)" by (simp add: find_None_iff)
    then show ?thesis using t None d by (intro exI [of _ 0] exI [of _ t]) auto
  next
    case (Some r)
    then have r: "r < fssize (sb s)" "\<not> used (sb s) (view s) r" "\<forall>b<r. used (sb s) (view s) b"
      by (auto simp: find_Some_iff)
    have "BBLOCK b (sb s) \<noteq> r" if "b < fssize (sb s)" for b using assms(4) that r by (auto simp: bitmap_used_def)
    then have "\<forall>b<fssize (sb s). used (sb s) (view t) b \<longleftrightarrow> b = r \<or> used (sb s) (view s) b"
      using used_alloc [of "view s" r "sb s"] geoD(3) [OF assms(3) r(1)] t(4) Some by simp
    then show ?thesis using t Some d r by (intro exI [of _ r] exI [of _ t]) (auto simp: alloc_view_def)
  qed
qed

lemma bfree_spec:
  fixes s :: "'z fsst_scheme"
  assumes x: "txn s H" "lh_n s < 29" "nat (lh_n s) + card H < 30" and g: "geo s H" and b: "b < fssize (sb s)" "used (sb s) (view s) b"
  shows "\<exists>t. bfree 1 b s = Inr t \<and> txn t H \<and> kept s t \<and> lh_n t \<le> lh_n s + 1 \<and>
     view t = (view s)(BBLOCK b (sb s) := clear_bit (b mod 8192) (view s (BBLOCK b (sb s)))) \<and>
     (\<forall>i\<in>H. blockno (bufs t ! i) = blockno (bufs s ! i) \<and> bdata (bufs t ! i) = bdata (bufs s ! i))"
proof -
  let ?B = "BBLOCK b (sb s)"
  note G = geoD [OF g b(1)]
  obtain i s1 where s1: "bread 1 ?B s = Inr (i, s1)" "bdata (bufs s1 ! i) = view s ?B"
    by (rule txn_bread [OF x(1,3) G(4)]) auto
  obtain t where t: "bnd (bread 1 ?B s) (\<lambda>(i, s1). bnd (log_write i (bset i (clear_bit (b mod 8192) (bdata (bufs s1 ! i))) s1)) (brelse i)) = Inr t"
    "txn t H" "view t = (view s)(?B := clear_bit (b mod 8192) (view s ?B))" "kept s t" "lh_n t \<le> lh_n s + 1"
    "\<forall>i\<in>H. blockno (bufs t ! i) = blockno (bufs s ! i) \<and> bdata (bufs t ! i) = bdata (bufs s ! i)"
    by (rule txn_update [OF x G(4,1,2)])
  have "bfree 1 b s = Inr t" using t(1) s1 b(2) by (simp add: bfree_def used_def Let_def)
  then show ?thesis using t by blast
qed

lemma geo_alloc:
  fixes s t :: "'z fsst_scheme"
  assumes g: "geo s {}" "bitmap_used s" and k: "kept s t" and r: "r < fssize (sb s)" "\<not> used (sb s) (view s) r"
    and v: "view t = alloc_view (sb s) (view s) r"
  shows "geo t {}"
proof -
  note e = kept_fs [OF k]
  have ne: "BBLOCK b (sb s) \<noteq> r" if "b < fssize (sb s)" for b using g(2) that r by (auto simp: bitmap_used_def)
  have l: "length (view t (BBLOCK b (sb s))) = 1024" if "b < fssize (sb s)" for b
    using geoD(3) [OF g(1) that] ne [OF that] by (auto simp: v alloc_view_def)
  have "used (sb s) (view t) b" if "b < fssize (sb s)" "b \<in> {lstart s..<lstart s + 30}" for b
    using used_alloc [of "view s" r "sb s" b] geoD(3) [OF g(1) r(1)] ne [OF that(1)] geoD(6) [OF g(1) that(1)] that(2) v by auto
  then show ?thesis using g(1) l unfolding geo_def e by simp
qed

text \<open>
  C30: \<^verbatim>\<open>bfree\<close> undoes \<^verbatim>\<open>balloc\<close>: freeing the block that was just allocated succeeds and gives
  back the bitmap of before, and freeing it once more panics.
\<close>

theorem balloc_bfree_roundtrip:
  fixes s :: "'z fsst_scheme"
  assumes x: "txn s {}" "lh_n s < 26" and g: "geo s {}" "bitmap_used s"
    and f: "\<exists>b<fssize (sb s). \<not> used (sb s) (view s) b"
  shows "\<exists>r t u. balloc 1 s = Inr (r, t) \<and> bfree 1 r t = Inr u \<and>
     (\<forall>b<fssize (sb s). used (sb s) (view u) b \<longleftrightarrow> used (sb s) (view s) b) \<and>
     bfree 1 r u = Inl (Panic ''freeing free block'')"
proof -
  obtain r where F: "List.find (\<lambda>c. \<not> used (sb s) (view s) c) [0..<fssize (sb s)] = Some r"
    using f by (cases "List.find (\<lambda>c. \<not> used (sb s) (view s) c) [0..<fssize (sb s)]") (auto simp: find_None_iff)
  then have r: "r < fssize (sb s)" "\<not> used (sb s) (view s) r" by (auto simp: find_Some_iff)
  have n: "lh_n s < 28" "nat (lh_n s) + card ({} :: nat set) < 29" using x(2) by simp_all
  obtain t where t: "balloc 1 s = Inr (r, t)" "txn t {}" "kept s t" "view t = alloc_view (sb s) (view s) r" "lh_n t \<le> lh_n s + 2"
    using balloc_spec [OF x(1) n g(1)] unfolding F by auto
  note e = kept_fs [OF t(3)]
  have gt: "geo t {}" by (rule geo_alloc [OF g t(3) r t(4)])
  have ne: "BBLOCK b (sb s) \<noteq> r" if "b < fssize (sb s)" for b using g(2) that r by (auto simp: bitmap_used_def)
  have lr: "length (view s (BBLOCK r (sb s))) = 1024" using geoD(3) [OF g(1) r(1)] .
  have ut: "used (sb s) (view t) b \<longleftrightarrow> b = r \<or> used (sb s) (view s) b" if "b < fssize (sb s)" for b
    using used_alloc [of "view s" r "sb s" b] lr ne [OF that] t(4) by simp
  have bt: "r < fssize (sb t)" "used (sb t) (view t) r" using ut [OF r(1)] r e by simp_all
  have nt: "lh_n t < 29" "nat (lh_n t) + card ({} :: nat set) < 30" using t(5) x(2) by simp_all
  obtain u where u: "bfree 1 r t = Inr u" "txn u {}" "kept t u" "lh_n u \<le> lh_n t + 1"
    "view u = (view t)(BBLOCK r (sb s) := clear_bit (r mod 8192) (view t (BBLOCK r (sb s))))"
    using bfree_spec [OF t(2) nt gt bt] e by auto
  note eu = kept_fs [OF u(3)]
  have lt: "length (view t (BBLOCK r (sb s))) = 1024" using geoD(3) [OF gt bt(1)] e by simp
  have uu: "used (sb s) (view u) b \<longleftrightarrow> used (sb s) (view s) b" if "b < fssize (sb s)" for b
    using used_clear [of "view t" r "sb s" b] lt ut [OF that] r(2) u(5) by auto
  obtain i s1 where s1: "bread 1 (BBLOCK r (sb s)) u = Inr (i, s1)" "bdata (bufs s1 ! i) = view u (BBLOCK r (sb s))"
    by (rule txn_bread [OF u(2), of "BBLOCK r (sb s)"]) (use u(4) t(5) x(2) in auto)
  have "\<not> bit_used (r mod 8192) (view u (BBLOCK r (sb s)))" using uu [OF r(1)] r(2) by (simp add: used_def)
  then have "bfree 1 r u = Inl (Panic ''freeing free block'')"
    using s1 e eu by (simp add: bfree_def Let_def)
  then show ?thesis using t(1) u(1) uu by blast
qed

section \<open>A small file system\<close>

text \<open>100 blocks: the log in 2 to 31, inodes from 32, the bitmap in 45 with the first 46 blocks used.\<close>

definition fs_disk :: "nat \<Rightarrow> block" where
  "fs_disk = (\<lambda>_. replicate 1024 0)(45 := replicate 5 255 @ [63] @ replicate 1018 0)"

definition fs_demo :: fsst where
  "fs_demo = \<lparr>bufs = replicate 30 no_buf, lru = rev [0..<30], disk = fs_disk, dwrites = [], curpid = 1, wakes = [],
     lstart = 2, lsize = 30, outstanding = 1, committing = False, ldev = 1, lh_n = 0, lh_block = replicate 30 0,
     sb = \<lparr>magic = FSMAGIC, fssize = 100, nblocks = 54, ninodes = 200, nlog = 30, logstart = 2, inodestart = 32, bmapstart = 45\<rparr>,
     inodes = replicate 50 \<lparr>idev = 0, inum = 0, iref = 0, ilk = initsleeplock, ivalid = False, itype = 0, major = 0, minor = 0,
       nlink = 0, isize = 0, addrs = replicate 13 0\<rparr>\<rparr>"

lemma fs_demo_held: "held fs_demo {} {}"
proof -
  have "\<not> on fs_demo i b" for i b by (auto simp: on_def fs_demo_def no_buf_def)
  then show ?thesis by (auto simp: held_def fs_demo_def no_buf_def initsleeplock_def)
qed

lemma fs_demo_sel: "lh_n fs_demo = 0" "sb fs_demo = \<lparr>magic = FSMAGIC, fssize = 100, nblocks = 54, ninodes = 200, nlog = 30,
    logstart = 2, inodestart = 32, bmapstart = 45\<rparr>" "lstart fs_demo = 2" "logged fs_demo = []" "disk fs_demo = fs_disk"
  by (simp_all add: fs_demo_def logged_def)

lemma fs_demo_view: "view fs_demo = fs_disk"
  using held_clean [OF fs_demo_held] by (auto simp: fun_eq_iff fs_demo_sel)

lemma fs_demo_txn: "txn fs_demo {}"
  using fs_demo_held by (simp add: txn_def log_ok_def fs_demo_sel) (simp add: fs_demo_def)

lemma fs_demo_used: "b < 100 \<Longrightarrow> used (sb fs_demo) (view fs_demo) b \<longleftrightarrow> b < 46"
proof -
  assume b: "b < 100"
  have m: "(255 :: u8) = mask 8" "(63 :: u8) = mask 6" by (simp_all add: mask_eq_exp_minus_1)
  consider "b div 8 < 5" | "b div 8 = 5" | "5 < b div 8" by linarith
  then have "bit (fs_disk 45 ! (b div 8)) (b mod 8) \<longleftrightarrow> b < 46"
  proof cases
    case 1
    then have "fs_disk 45 ! (b div 8) = mask 8" by (simp add: fs_disk_def nth_append m)
    then show ?thesis using 1 by (simp add: bit_simps)
  next
    case 2
    then have "fs_disk 45 ! (b div 8) = mask 6" by (simp add: fs_disk_def nth_append m)
    moreover have "(b mod 8 < 6) = (b < 46)" using 2 by presburger
    ultimately show ?thesis using 2 by (simp add: bit_simps)
  next
    case 3
    then have "fs_disk 45 ! (b div 8) = 0" using b by (simp add: fs_disk_def nth_append nth_Cons')
    then show ?thesis using 3 by simp
  qed
  then show "used (sb fs_demo) (view fs_demo) b \<longleftrightarrow> b < 46"
    using b by (simp add: used_def BBLOCK_def bit_used_iff fs_demo_sel fs_demo_view)
qed

lemma fs_demo_geo: "geo fs_demo {}" "bitmap_used fs_demo"
  using fs_demo_used
  by (auto simp: geo_def bitmap_used_def BBLOCK_def fs_demo_view) (auto simp: fs_demo_sel fs_disk_def)

theorem balloc_allocates_witness:
  "\<exists>r t. balloc 1 fs_demo = Inr (r, t) \<and> disk t = fs_disk"
  using balloc_allocates [OF fs_demo_txn _ fs_demo_geo] by (auto simp: fs_demo_sel)

theorem balloc_bfree_roundtrip_witness:
  "\<exists>r t u. balloc 1 fs_demo = Inr (r, t) \<and> bfree 1 r t = Inr u \<and> bfree 1 r u = Inl (Panic ''freeing free block'')"
proof -
  have "\<exists>b<fssize (sb fs_demo). \<not> used (sb fs_demo) (view fs_demo) b"
    using fs_demo_used [of 50] by (intro exI [of _ 50]) (simp add: fs_demo_sel)
  then show ?thesis using balloc_bfree_roundtrip [OF fs_demo_txn _ fs_demo_geo] by (auto simp: fs_demo_sel)
qed

end
