(* ===== verification/FsInodes.thy ===== *)
theory FsInodes
  imports FsBlocks
begin

text \<open>
  Inodes on disk and in memory, and the contents of a file: \<^verbatim>\<open>ilock\<close> reads back what
  \<^verbatim>\<open>iupdate\<close> wrote, and \<^verbatim>\<open>readi\<close> copies the bytes of the file that the block map describes.
\<close>

section \<open>The on-disk inode\<close>

lemma length_put16 [simp]: "off + 2 \<le> length d \<Longrightarrow> length (put16 off v d) = length d"
  by (simp add: put16_def)

lemma get16_put16: "off + 2 \<le> length d \<Longrightarrow> v < 2 ^ 16 \<Longrightarrow> get16 off (put16 off v d) = v"
  using get_put_same [of off "le_bytes 2 v" d] le_le_bytes [of v 2] by (simp add: get16_def put16_def)

lemma get16_put16_other:
  "off + 2 \<le> length d \<Longrightarrow> o' + 2 \<le> off \<or> off + 2 \<le> o' \<Longrightarrow> get16 o' (put16 off v d) = get16 o' d"
  using get_put_other [of off "le_bytes 2 v" d o' 2] by (simp add: get16_def put16_def)

lemma get16_put32:
  "off + 4 \<le> length d \<Longrightarrow> o' + 2 \<le> off \<or> off + 4 \<le> o' \<Longrightarrow> get16 o' (put32 off v d) = get16 o' d"
  using get_put_other [of off "le_bytes 4 v" d o' 2] by (simp add: get16_def put32_def)

lemma get32_put16:
  "off + 2 \<le> length d \<Longrightarrow> o' + 4 \<le> off \<or> off + 2 \<le> o' \<Longrightarrow> get32 o' (put16 off v d) = get32 o' d"
  using get_put_other [of off "le_bytes 2 v" d o' 4] by (simp add: get32_def put16_def)

lemmas get_put = get16_put16 get16_put16_other get16_put32 get32_put16 get32_put32 get32_put32_other

text \<open>The loop over the block addresses.\<close>

lemma addr_loop:
  assumes "off + 4 * m \<le> length d" "\<forall>k<m. as ! k < 2 ^ 32"
  defines "d' \<equiv> fold (\<lambda>k. put32 (off + 4 * k) (as ! k)) [0..<m] d"
  shows "length d' = length d \<and> (\<forall>k<m. get32 (off + 4 * k) d' = as ! k) \<and>
    (\<forall>o'. o' + 2 \<le> off \<longrightarrow> get16 o' d' = get16 o' d) \<and> (\<forall>o'. o' + 4 \<le> off \<longrightarrow> get32 o' d' = get32 o' d)"
  using assms(1,2) unfolding d'_def
proof (induction m)
  case (Suc m)
  let ?e = "fold (\<lambda>k. put32 (off + 4 * k) (as ! k)) [0..<m] d"
  have IH: "length ?e = length d" "\<forall>k<m. get32 (off + 4 * k) ?e = as ! k"
    "\<forall>o'. o' + 2 \<le> off \<longrightarrow> get16 o' ?e = get16 o' d" "\<forall>o'. o' + 4 \<le> off \<longrightarrow> get32 o' ?e = get32 o' d"
    using Suc by simp_all
  have "get32 (off + 4 * k) (put32 (off + 4 * m) (as ! m) ?e) = as ! k" if "k < Suc m" for k
    using that IH Suc.prems by (cases "k = m") (simp_all add: get_put)
  then show ?case using IH Suc.prems by (simp add: get_put)
qed simp

text \<open>The fields that live on disk.\<close>

definition disk_fields :: "inode \<Rightarrow> u16 \<times> u16 \<times> u16 \<times> u16 \<times> nat \<times> nat list" where
  "disk_fields x = (itype x, major x, minor x, nlink x, isize x, addrs x)"

definition inode_ok :: "inode \<Rightarrow> bool" where
  "inode_ok x \<longleftrightarrow> length (addrs x) = 13 \<and> (\<forall>a\<in>set (addrs x). a < 2 ^ 32) \<and> isize x < 2 ^ 32"

lemma dinode_roundtrip:
  assumes "inode_ok x" "off + 64 \<le> length d"
  shows "disk_fields (dinode_load off (dinode_store off x d) y) = disk_fields x"
proof -
  have u: "unat w < 2 ^ 16" for w :: u16 using unsigned_less [of w] by simp
  have a: "\<forall>k<13. addrs x ! k < 2 ^ 32" using assms(1) nth_mem by (auto simp: inode_ok_def)
  let ?d = "put32 (off + 8) (isize x) (put16 (off + 6) (unat (nlink x)) (put16 (off + 4) (unat (minor x))
         (put16 (off + 2) (unat (major x)) (put16 off (unat (itype x)) d))))"
  have l: "length ?d = length d" using assms(2) by simp
  have L: "\<forall>k<13. get32 (off + 12 + 4 * k) (dinode_store off x d) = addrs x ! k"
    "\<forall>o'. o' + 2 \<le> off + 12 \<longrightarrow> get16 o' (dinode_store off x d) = get16 o' ?d"
    "\<forall>o'. o' + 4 \<le> off + 12 \<longrightarrow> get32 o' (dinode_store off x d) = get32 o' ?d"
    using addr_loop [of "off + 12" 13 ?d "addrs x"] a assms(2) l unfolding dinode_store_def by (simp_all add: add.assoc)
  have "addrs x = map (\<lambda>k. get32 (off + 12 + 4 * k) (dinode_store off x d)) [0..<13]"
    using L(1) assms(1) by (intro nth_equalityI) (simp_all add: inode_ok_def)
  moreover have "get16 off ?d = unat (itype x)" "get16 (off + 2) ?d = unat (major x)" "get16 (off + 4) ?d = unat (minor x)"
    "get16 (off + 6) ?d = unat (nlink x)" "get32 (off + 8) ?d = isize x"
    using assms u by (simp_all add: get_put inode_ok_def)
  ultimately show ?thesis using L(2,3) by (simp add: disk_fields_def dinode_load_def)
qed

lemma length_dinode_store: "inode_ok x \<Longrightarrow> off + 64 \<le> length d \<Longrightarrow> length (dinode_store off x d) = length d"
  using addr_loop [of "off + 12" 13 _ "addrs x"] nth_mem unfolding dinode_store_def
  by (auto simp: inode_ok_def add.assoc)

section \<open>Reading and writing inodes\<close>

lemma inode_upd_simps [simp]:
  "bufs (inode_upd i f s) = bufs s" "disk (inode_upd i f s) = disk s" "curpid (inode_upd i f s) = curpid s"
  "lstart (inode_upd i f s) = lstart s" "lh_n (inode_upd i f s) = lh_n s" "sb (inode_upd i f s) = sb s"
  "inodes (inode_upd i f s) = (inodes s)[i := f (inodes s ! i)]" "dwrites (inode_upd i f s) = dwrites s"
  "lru (inode_upd i f s) = lru s" "wakes (inode_upd i f s) = wakes s" "logged (inode_upd i f s) = logged s"
  "outstanding (inode_upd i f s) = outstanding s" "committing (inode_upd i f s) = committing s"
  by (simp_all add: inode_upd_def logged_def)

lemma view_inode_upd [simp]: "view (inode_upd i f s) = view s"
  by (rule view_cong) simp_all

lemma txn_inode_upd [simp]: "txn (inode_upd i f s) H = txn s H"
  by (simp add: txn_def held_def on_def log_ok_def) (simp add: inode_upd_def)

text \<open>The block of an inode can be read and logged.\<close>

definition iblock_ok :: "'z fsst_scheme \<Rightarrow> nat \<Rightarrow> bool" where
  "iblock_ok s n \<longleftrightarrow> IBLOCK n (sb s) < 2 ^ 32 \<and> IBLOCK n (sb s) \<notin> {lstart s..<lstart s + 30} \<and>
     length (view s (IBLOCK n (sb s))) = 1024"

lemma iupdate_spec:
  fixes s :: "'z fsst_scheme"
  assumes x: "txn s {}" "lh_n s < 29" and d: "idev (inodes s ! ip) = 1" and b: "iblock_ok s (inum (inodes s ! ip))"
  obtains t where "iupdate ip s = Inr t" "txn t {}" "kept s t" "lh_n t \<le> lh_n s + 1"
    "view t = (view s)(IBLOCK (inum (inodes s ! ip)) (sb s) :=
       dinode_store (dinode_off (inum (inodes s ! ip))) (inodes s ! ip) (view s (IBLOCK (inum (inodes s ! ip)) (sb s))))"
proof -
  let ?x = "inodes s ! ip"
  obtain t where "bnd (bread 1 (IBLOCK (inum ?x) (sb s)) s) (\<lambda>(i, s1).
      bnd (log_write i (bset i (dinode_store (dinode_off (inum ?x)) ?x (bdata (bufs s1 ! i))) s1)) (brelse i)) = Inr t"
    "txn t {}" "view t = (view s)(IBLOCK (inum ?x) (sb s) := dinode_store (dinode_off (inum ?x)) ?x (view s (IBLOCK (inum ?x) (sb s))))"
    "kept s t" "lh_n t \<le> lh_n s + 1"
    by (rule txn_update [OF x(1,2), of "IBLOCK (inum ?x) (sb s)"]) (use x b in \<open>auto simp: iblock_ok_def\<close>)
  then show thesis using that d by (simp add: iupdate_def)
qed

lemma ilock_spec:
  fixes s :: "'z fsst_scheme"
  assumes x: "txn s {}" "lh_n s < 30" and i: "ip < length (inodes s)" and r: "1 \<le> iref (inodes s ! ip)" "\<not> slocked (ilk (inodes s ! ip))"
    and d: "idev (inodes s ! ip) = 1" "\<not> ivalid (inodes s ! ip)"
    and ty: "itype (dinode_load (dinode_off (inum (inodes s ! ip))) (view s (IBLOCK (inum (inodes s ! ip)) (sb s))) (inodes s ! ip)) \<noteq> 0"
  obtains t where "ilock ip s = Inr t" "txn t {}" "view t = view s" "disk t = disk s"
    "inodes t ! ip = (dinode_load (dinode_off (inum (inodes s ! ip))) (view s (IBLOCK (inum (inodes s ! ip)) (sb s))) (inodes s ! ip))
        \<lparr>ilk := \<lparr>slocked = True, slpid = curpid s\<rparr>, ivalid := True\<rparr>"
proof -
  let ?x = "inodes s ! ip"
  let ?B = "IBLOCK (inum ?x) (sb s)" and ?o = "dinode_off (inum ?x)"
  let ?s1 = "inode_upd ip (\<lambda>x. x\<lparr>ilk := \<lparr>slocked = True, slpid = curpid s\<rparr>\<rparr>) s"
  have x1: "txn ?s1 {}" using x(1) by simp
  have c: "nat (lh_n ?s1) + card ({} :: nat set) < 30" using x(2) by simp
  obtain i s2 where s2: "bread 1 ?B ?s1 = Inr (i, s2)" "txn s2 {i}" "view s2 = view s" "bdata (bufs s2 ! i) = view s ?B"
    "blockno (bufs s2 ! i) = ?B" "kept ?s1 s2" "logged s2 = logged s"
    by (rule txn_bread [OF x1 c, of ?B]) auto
  note e2 = kept_fs [OF s2(6)]
  let ?s3 = "inode_upd ip (dinode_load ?o (view s ?B)) s2"
  have rc: "?B \<in> set (logged s) \<or> view s ?B = disk s ?B" using read_clean [OF txnD(2) [OF x(1)], of ?B] by simp
  have x3: "txn ?s3 {i}" using s2(2) by simp
  have c3: "blockno (bufs ?s3 ! i) \<in> set (logged ?s3) \<or> bdata (bufs ?s3 ! i) = disk ?s3 (blockno (bufs ?s3 ! i))"
    using rc s2(4-7) by (simp add: kept_def)
  obtain s4 where s4: "brelse i ?s3 = Inr s4" "txn s4 ({i} - {i})" "view s4 = view ?s3" "kept ?s3 s4"
    by (rule txn_brelse [OF x3 insertI1 c3]) auto
  note e4 = kept_fs [OF s4(4)]
  let ?t = "inode_upd ip (\<lambda>x. x\<lparr>ivalid := True\<rparr>) s4"
  have t: "inodes ?t ! ip = (dinode_load ?o (view s ?B) ?x)\<lparr>ilk := \<lparr>slocked = True, slpid = curpid s\<rparr>, ivalid := True\<rparr>"
    using e4 e2 i by (simp add: dinode_load_def)
  have nz: "itype (inodes ?t ! ip) \<noteq> 0"
    unfolding t using ty by simp
  have "ilock ip s = Inr ?t"
    using r d s2(1,4) s4(1) i nz unfolding ilock_def
    by (simp add: sl_acquire_free Let_def nth_list_update)
  then show thesis using that [of ?t] s4 s2 t by (simp add: kept_def)
qed

text \<open>
  The inode that \<^verbatim>\<open>iupdate\<close> wrote is the inode that \<^verbatim>\<open>ilock\<close> reads: after an update, locking
  any table entry for the same inode that has not been read yet loads the same type, device
  numbers, link count, size and block addresses.
\<close>

theorem iupdate_ilock_roundtrip:
  fixes s :: "'z fsst_scheme"
  assumes x: "txn s {}" "lh_n s < 29" and d: "idev (inodes s ! ip) = 1" "inode_ok (inodes s ! ip)" "itype (inodes s ! ip) \<noteq> 0"
    and b: "iblock_ok s (inum (inodes s ! ip))"
    and j: "jp < length (inodes s)" "1 \<le> iref (inodes s ! jp)" "\<not> slocked (ilk (inodes s ! jp))" "\<not> ivalid (inodes s ! jp)"
      "idev (inodes s ! jp) = 1" "inum (inodes s ! jp) = inum (inodes s ! ip)"
  shows "\<exists>t u. iupdate ip s = Inr t \<and> ilock jp t = Inr u \<and>
     disk_fields (inodes u ! jp) = disk_fields (inodes s ! ip) \<and> ivalid (inodes u ! jp)"
proof -
  let ?x = "inodes s ! ip"
  let ?B = "IBLOCK (inum ?x) (sb s)" and ?o = "dinode_off (inum ?x)"
  let ?d = "dinode_store ?o ?x (view s ?B)"
  obtain t where t: "iupdate ip s = Inr t" "txn t {}" "kept s t" "lh_n t \<le> lh_n s + 1" "view t = (view s)(?B := ?d)"
    by (rule iupdate_spec [OF x d(1) b])
  note e = kept_fs [OF t(3)]
  have off: "?o + 64 \<le> length (view s ?B)"
    using b mod_less_divisor [of 16 "inum ?x"] by (simp add: iblock_ok_def dinode_off_def)
  note rt = dinode_roundtrip [OF d(2) off]
  have "itype (dinode_load ?o ?d (inodes s ! jp)) \<noteq> 0" using rt [of "inodes s ! jp"] d(3) by (simp add: disk_fields_def)
  then obtain u where u: "ilock jp t = Inr u"
    "inodes u ! jp = (dinode_load ?o ?d (inodes s ! jp))\<lparr>ilk := \<lparr>slocked = True, slpid = curpid t\<rparr>, ivalid := True\<rparr>"
    using ilock_spec [OF t(2), of jp thesis] t(4,5) x(2) e j by auto
  then have "disk_fields (inodes u ! jp) = disk_fields ?x" using rt [of "inodes s ! jp"] by (simp add: disk_fields_def)
  then show ?thesis using t(1) u by simp
qed

section \<open>The contents of a file\<close>

text \<open>The block map of an inode over the contents \<open>v\<close> of the blocks, and the bytes of the file.\<close>

definition blkaddr :: "(nat \<Rightarrow> block) \<Rightarrow> inode \<Rightarrow> nat \<Rightarrow> nat" where
  "blkaddr v x bn = (if bn < NDIRECT then addrs x ! bn else get32 (4 * (bn - NDIRECT)) (v (addrs x ! NDIRECT)))"

definition file_ok :: "(nat \<Rightarrow> block) \<Rightarrow> inode \<Rightarrow> bool" where
  "file_ok v x \<longleftrightarrow> idev x = 1 \<and> isize x \<le> MAXFILE * BSIZE \<and>
     (\<forall>bn. bn * BSIZE < isize x \<longrightarrow> blkaddr v x bn \<noteq> 0 \<and> (NDIRECT \<le> bn \<longrightarrow> addrs x ! NDIRECT \<noteq> 0) \<and>
        length (v (blkaddr v x bn)) = BSIZE)"

definition fbyte :: "(nat \<Rightarrow> block) \<Rightarrow> inode \<Rightarrow> nat \<Rightarrow> u8" where
  "fbyte v x p = v (blkaddr v x (p div BSIZE)) ! (p mod BSIZE)"

definition fbytes :: "(nat \<Rightarrow> block) \<Rightarrow> inode \<Rightarrow> nat \<Rightarrow> nat \<Rightarrow> u8 list" where
  "fbytes v x off n = map (fbyte v x) [off..<off + n]"

lemma length_fbytes [simp]: "length (fbytes v x off n) = n"
  by (simp add: fbytes_def)

lemma fbytes_append: "fbytes v x off k @ fbytes v x (off + k) n = fbytes v x off (k + n)"
  using upt_add_eq_append [of off "off + k" n] by (simp add: fbytes_def add.assoc)

lemma fbytes_chunk:
  assumes "length (v (blkaddr v x (off div 1024))) = 1024" "k \<le> 1024 - off mod 1024"
  shows "take k (drop (off mod 1024) (v (blkaddr v x (off div 1024)))) = fbytes v x off k"
proof (rule nth_equalityI)
  show "length (take k (drop (off mod 1024) (v (blkaddr v x (off div 1024))))) = length (fbytes v x off k)"
    using assms by simp
next
  fix i assume "i < length (take k (drop (off mod 1024) (v (blkaddr v x (off div 1024)))))"
  then have i: "i < k" "off mod 1024 + i < 1024" using assms by simp_all
  have "off + i = 1024 * (off div 1024) + (off mod 1024 + i)" by simp
  then have "(off + i) div 1024 = off div 1024" "(off + i) mod 1024 = off mod 1024 + i"
    using i(2) by (metis add.commute add.right_neutral div_less div_mult_self2 zero_neq_numeral,
      metis add.commute mod_less mod_mult_self2)
  then show "take k (drop (off mod 1024) (v (blkaddr v x (off div 1024)))) ! i = fbytes v x off k ! i"
    using i assms(1) by (simp add: fbytes_def fbyte_def)
qed

lemma file_okD:
  assumes "file_ok v x" "bn * 1024 < isize x"
  shows "idev x = 1" "blkaddr v x bn \<noteq> 0" "12 \<le> bn \<Longrightarrow> addrs x ! 12 \<noteq> 0" "length (v (blkaddr v x bn)) = 1024" "bn < 268"
  using assms unfolding file_ok_def by auto

lemma bmap_mapped:
  fixes s :: "'z fsst_scheme"
  assumes x: "txn s {}" "lh_n s < 30" and f: "file_ok (view s) (inodes s ! ip)" "bn * 1024 < isize (inodes s ! ip)"
  obtains t where "bmap ip bn s = Inr (blkaddr (view s) (inodes s ! ip) bn, t)" "txn t {}" "view t = view s" "kept s t" "lh_n t = lh_n s"
proof (cases "bn < 12")
  case True
  then have "bmap ip bn s = Inr (blkaddr (view s) (inodes s ! ip) bn, s)"
    using file_okD(2) [OF f] by (simp add: bmap_def blkaddr_def Let_def)
  then show thesis using that x(1) by simp
next
  case False
  note F = file_okD [OF f]
  let ?x = "inodes s ! ip"
  have c: "nat (lh_n s) + card ({} :: nat set) < 30" using x(2) by simp
  obtain i s1 t where t: "bread 1 (addrs ?x ! 12) s = Inr (i, s1)" "bdata (bufs s1 ! i) = view s (addrs ?x ! 12)" "brelse i s1 = Inr t"
    "txn t {}" "view t = view s" "kept s t" "lh_n t = lh_n s"
    by (rule txn_peek [OF x(1) c, of "addrs ?x ! 12"]) auto
  have "bmap ip bn s = Inr (blkaddr (view s) ?x bn, t)"
    using False F t(1-3) by (simp add: bmap_def blkaddr_def Let_def)
  then show thesis using that t(4-7) by blast
qed

text \<open>
  A destination of \<^verbatim>\<open>readi\<close>: stores of consecutive chunks compose, and succeed while there is room.
\<close>

locale byte_sink =
  fixes cpo :: "nat \<Rightarrow> u8 list \<Rightarrow> 'm \<Rightarrow> (int \<times> 'm) res"
    and store :: "nat \<Rightarrow> u8 list \<Rightarrow> 'm \<Rightarrow> 'm"
    and room :: "nat \<Rightarrow> nat \<Rightarrow> 'm \<Rightarrow> bool"
  assumes copy: "room dst (length bs) m \<Longrightarrow> cpo dst bs m = Inr (0, store dst bs m)"
    and less_room: "room dst n m \<Longrightarrow> k \<le> n \<Longrightarrow> room dst k m"
    and room_store: "room dst n m \<Longrightarrow> length bs \<le> n \<Longrightarrow> room (dst + length bs) (n - length bs) (store dst bs m)"
    and store_Nil: "room dst 0 m \<Longrightarrow> store dst [] m = m"
    and store_append: "room dst (length xs + length ys) m \<Longrightarrow> store (dst + length xs) ys (store dst xs m) = store dst (xs @ ys) m"
begin

lemma readi_loop_copies:
  fixes s :: "'z fsst_scheme"
  assumes "txn s {}" "lh_n s < 30" "file_ok (view s) (inodes s ! ip)" "off + (n - tot) \<le> isize (inodes s ! ip)" "tot \<le> n"
    "room dst (n - tot) m"
  shows "\<exists>t. readi_loop cpo ip dst off n tot s m =
      Inr (int n, t, store dst (fbytes (view s) (inodes s ! ip) off (n - tot)) m) \<and>
    txn t {} \<and> view t = view s \<and> kept s t \<and> lh_n t = lh_n s"
  using assms
proof (induction "n - tot" arbitrary: dst off tot s m rule: less_induct)
  case less
  let ?x = "inodes s ! ip"
  show ?case
  proof (cases "tot < n")
    case False
    then have "n = tot" using less.prems(5) by simp
    then show ?thesis using less.prems(1,6) store_Nil [of dst m] by (simp add: readi_loop.simps fbytes_def)
  next
    case True
    let ?bn = "off div 1024"
    define k where "k = min (n - tot) (1024 - off mod 1024)"
    have k: "0 < k" "k \<le> n - tot" "k \<le> 1024 - off mod 1024" using True mod_less_divisor [of 1024 off] by (simp_all add: k_def)
    have lt: "?bn * 1024 < isize ?x" using True less.prems(4) by (simp add: div_times_less_eq_dividend le_less_trans)
    note F = file_okD [OF less.prems(3) lt]
    obtain s1 where s1: "bmap ip ?bn s = Inr (blkaddr (view s) ?x ?bn, s1)" "txn s1 {}" "view s1 = view s" "kept s s1" "lh_n s1 = lh_n s"
      by (rule bmap_mapped [OF less.prems(1,2,3) lt])
    note e1 = kept_fs [OF s1(4)]
    have c: "nat (lh_n s1) + card ({} :: nat set) < 30" using s1(5) less.prems(2) by simp
    obtain i s2 t where t: "bread 1 (blkaddr (view s) ?x ?bn) s1 = Inr (i, s2)" "bdata (bufs s2 ! i) = view s1 (blkaddr (view s) ?x ?bn)"
      "brelse i s2 = Inr t" "txn t {}" "view t = view s1" "kept s1 t" "lh_n t = lh_n s1"
      by (rule txn_peek [OF s1(2) c, of "blkaddr (view s) ?x ?bn"]) auto
    note et = kept_fs [OF t(6)]
    let ?bs = "fbytes (view s) ?x off k"
    have ch: "take k (drop (off mod 1024) (bdata (bufs s2 ! i))) = ?bs"
      using fbytes_chunk [of "view s" ?x off k] F(4) t(2) s1(3) k(3) by simp
    have cp: "cpo dst ?bs m = Inr (0, store dst ?bs m)"
      by (rule copy) (use less_room [OF less.prems(6) k(2)] in simp)
    have st: "readi_loop cpo ip dst off n tot s m = readi_loop cpo ip (dst + k) (off + k) n (tot + k) t (store dst ?bs m)"
      unfolding readi_loop.simps [of cpo ip dst off n tot s m] using True s1(1) t(1,3) F(1,2) e1 ch cp by (simp add: Let_def k_def)
    have eq: "inodes t = inodes s" "view t = view s" using e1 et t(5) s1(3) by simp_all
    have rm: "room (dst + k) (n - (tot + k)) (store dst ?bs m)"
      using room_store [OF less.prems(6), of ?bs] k by (simp add: diff_diff_left)
    have "n - (tot + k) < n - tot" using k True by linarith
    moreover have "lh_n t < 30" using t(7) s1(5) less.prems(2) by simp
    moreover have "file_ok (view t) (inodes t ! ip)" "off + k + (n - (tot + k)) \<le> isize (inodes t ! ip)" "tot + k \<le> n"
      using eq less.prems(3,4) k True by simp_all
    ultimately obtain u where u: "readi_loop cpo ip (dst + k) (off + k) n (tot + k) t (store dst ?bs m) =
        Inr (int n, u, store (dst + k) (fbytes (view t) (inodes t ! ip) (off + k) (n - (tot + k))) (store dst ?bs m))"
      "txn u {}" "view u = view t" "kept t u" "lh_n u = lh_n t"
      using less.hyps [OF _ t(4) _ _ _ _ rm] by blast
    have ap: "store (dst + k) (fbytes (view s) ?x (off + k) (n - (tot + k))) (store dst ?bs m) =
        store dst (?bs @ fbytes (view s) ?x (off + k) (n - (tot + k))) m"
      using store_append [of dst ?bs "fbytes (view s) ?x (off + k) (n - (tot + k))" m] less.prems(6) k by simp
    have "?bs @ fbytes (view s) ?x (off + k) (n - (tot + k)) = fbytes (view s) ?x off (n - tot)"
      using fbytes_append [of "view s" ?x off k "n - (tot + k)"] k True by simp
    then show ?thesis unfolding st
      using u ap eq kept_trans [OF kept_trans [OF s1(4) t(6)] u(4)] t(7) s1(5) by (intro exI [of _ u]) simp
  qed
qed

lemma readi_copies:
  fixes s :: "'z fsst_scheme"
  assumes x: "txn s {}" "lh_n s < 30" and f: "file_ok (view s) (inodes s ! ip)" and o: "off \<le> isize (inodes s ! ip)" "off + n < 2 ^ 32"
    and r: "room dst (min n (isize (inodes s ! ip) - off)) m"
  shows "\<exists>t. readi cpo ip dst off n s m = Inr (int (min n (isize (inodes s ! ip) - off)), t,
        store dst (fbytes (view s) (inodes s ! ip) off (min n (isize (inodes s ! ip) - off))) m) \<and>
     txn t {} \<and> view t = view s \<and> kept s t \<and> lh_n t = lh_n s"
proof -
  let ?sz = "isize (inodes s ! ip)"
  define k where "k = min n (?sz - off)"
  have "readi cpo ip dst off n s m = readi_loop cpo ip dst off k 0 s m"
    using o by (auto simp: readi_def Let_def k_def min_def)
  moreover have "off + (k - 0) \<le> ?sz" using o by (simp add: k_def)
  ultimately show ?thesis using readi_loop_copies [OF x f, of off k 0 dst m] r by (simp add: k_def [symmetric])
qed

end

text \<open>A local variable as the destination.\<close>

lemma put_append:
  "dst + length xs + length ys \<le> length m \<Longrightarrow> put (dst + length xs) ys (put dst xs m) = put dst (xs @ ys) m"
  by (simp add: put_def ac_simps)

interpretation loc: byte_sink cpo_local put "\<lambda>dst n m. dst + n \<le> length m"
proof unfold_locales
  show "dst + (length xs + length ys) \<le> length m \<Longrightarrow> put (dst + length xs) ys (put dst xs m) = put dst (xs @ ys) m" for dst xs ys m
    using put_append by (simp add: add.assoc)
  show "dst + 0 \<le> length m \<Longrightarrow> put dst [] m = m" for dst m by (simp add: put_def)
qed (simp_all add: cpo_local_def)

text \<open>
  C13: \<^verbatim>\<open>readi\<close> on a file whose blocks are allocated copies exactly the bytes of the file from
  \<open>off\<close>, across direct and indirect blocks and any number of block boundaries, stops at the end
  of the file, returns the number of bytes, and changes neither the blocks nor the disk.
\<close>

theorem readi_reads:
  fixes s :: "'z fsst_scheme"
  assumes "txn s {}" "file_ok (view s) (inodes s ! ip)" "off \<le> isize (inodes s ! ip)" "off + n < 2 ^ 32"
    and "n \<le> length m"
  shows "\<exists>t. readi cpo_local ip 0 off n s m = Inr (int (min n (isize (inodes s ! ip) - off)), t,
        put 0 (fbytes (view s) (inodes s ! ip) off (min n (isize (inodes s ! ip) - off))) m) \<and>
     view t = view s \<and> disk t = disk s \<and> inodes t = inodes s"
proof -
  have "lh_n s < 30" using txnD(7) [OF assms(1)] .
  then show ?thesis
    using loc.readi_copies [OF assms(1) _ assms(2-4), of 0 m] assms(5) kept_fs(2) keptD(1) by fastforce
qed

section \<open>Directory lookup\<close>

text \<open>The entries of a directory: the 16 bytes at each multiple of 16.\<close>

definition dent :: "(nat \<Rightarrow> block) \<Rightarrow> inode \<Rightarrow> nat \<Rightarrow> u8 list" where
  "dent v x k = fbytes v x (16 * k) 16"

text \<open>
  A name in an array of 14 bytes is the bytes up to the first NUL, or all 14; an entry is in use when
  its inode number is not 0, and has a name when its own is the name cut at 14 bytes.
\<close>

definition cname :: "u8 list \<Rightarrow> u8 list" where
  "cname a = takeWhile (\<lambda>c. c \<noteq> 0) a"

definition dent_match :: "u8 list \<Rightarrow> u8 list \<Rightarrow> bool" where
  "dent_match name de \<longleftrightarrow> get16 0 de \<noteq> 0 \<and> cname (take 14 (drop 2 de)) = take 14 (cname name)"

lemma strncmp_zero:
  "strncmp m p q n = 0 \<longleftrightarrow> cname (map (\<lambda>i. m (p + i)) [0..<n]) = cname (map (\<lambda>i. m (q + i)) [0..<n])"
proof (induction n arbitrary: p q)
  case (Suc n)
  have u: "[0..<Suc n] = 0 # map Suc [0..<n]" by (simp add: map_Suc_upt upt_conv_Cons)
  show ?case using Suc.IH [of "p + 1" "q + 1"]
    unfolding u by (auto simp: cname_def word_uint_eq_iff o_def)
qed (simp add: cname_def)

lemma cname_byte_at: "cname (map (byte_at xs) [0..<n]) = cname (take n xs)"
proof (induction n arbitrary: xs)
  case (Suc n)
  have u: "[0..<Suc n] = 0 # map Suc [0..<n]" by (simp add: map_Suc_upt upt_conv_Cons)
  show ?case
  proof (cases xs)
    case Nil
    then show ?thesis unfolding u by (simp add: cname_def byte_at_def)
  next
    case (Cons x ys)
    have b: "byte_at (x # ys) 0 = x" "byte_at (x # ys) (Suc i) = byte_at ys i" for i
      by (simp_all add: byte_at_def)
    show ?thesis using Suc.IH [of ys] unfolding u Cons by (simp add: cname_def b o_def)
  qed
qed (simp add: cname_def)

lemma cname_take: "cname (take n xs) = take n (cname xs)"
  by (induction xs arbitrary: n) (auto simp: cname_def take_Cons split: nat.splits)

text \<open>\<^verbatim>\<open>namecmp\<close> compares two names as such.\<close>

lemma namecmp_zero: "namecmp s t = 0 \<longleftrightarrow> cname (take 14 t) = take 14 (cname s)"
proof -
  have a: "map (\<lambda>i. two_strings s t (0 + i)) [0..<14] = map (byte_at s) [0..<14]"
    and b: "map (\<lambda>i. two_strings s t (14 + i)) [0..<14] = map (byte_at t) [0..<14]"
    by (simp_all add: two_strings_def)
  show ?thesis
    using strncmp_zero [of "two_strings s t" 0 14 14] unfolding namecmp_def a b cname_byte_at cname_take by auto
qed

lemma dirlookup_loop_spec:
  fixes s :: "'z fsst_scheme"
  assumes "txn s {}" "file_ok (view s) (inodes s ! dp)" "\<forall>k\<in>set ks. 16 * k + 16 \<le> isize (inodes s ! dp)" "length de = 16"
  shows "\<exists>t. txn t {} \<and> view t = view s \<and> kept s t \<and>
     dirlookup_loop dp name (map (\<lambda>k. 16 * k) ks) s de =
       (case List.find (\<lambda>k. dent_match name (dent (view s) (inodes s ! dp) k)) ks of
          None \<Rightarrow> Inr (None, t)
        | Some k \<Rightarrow> bnd (iget 1 (get16 0 (dent (view s) (inodes s ! dp) k)) t) (\<lambda>(ip, u). Inr (Some (ip, 16 * k), u)))"
  using assms
proof (induction ks arbitrary: s de)
  case (Cons k ks)
  let ?x = "inodes s ! dp" and ?e = "dent (view s) (inodes s ! dp) k"
  have k: "16 * k + 16 \<le> isize ?x" using Cons.prems(3) by simp
  have sz: "isize ?x \<le> 268 * 1024" using Cons.prems(2) by (simp add: file_ok_def)
  have "lh_n s < 30" using txnD(7) [OF Cons.prems(1)] .
  moreover have "min 16 (isize ?x - 16 * k) = 16" using k by simp
  ultimately obtain t where t: "readi cpo_local dp 0 (16 * k) 16 s de = Inr (16, t, put 0 ?e de)"
    "txn t {}" "view t = view s" "kept s t"
    using loc.readi_copies [OF Cons.prems(1) _ Cons.prems(2), of "16 * k" 16 0 de] k sz Cons.prems(4) by (auto simp: dent_def)
  note e = kept_fs [OF t(4)]
  have p: "put 0 ?e de = ?e" using Cons.prems(4) by (simp add: put_def dent_def)
  have d: "idev ?x = 1" using Cons.prems(2) by (simp add: file_ok_def)
  show ?case
  proof (cases "dent_match name ?e")
    case True
    then have "dirlookup_loop dp name (map (\<lambda>k. 16 * k) (k # ks)) s de =
        bnd (iget 1 (get16 0 ?e) t) (\<lambda>(ip, u). Inr (Some (ip, 16 * k), u))"
      using t(1) p d e by (simp add: dent_match_def namecmp_zero)
    then show ?thesis using True t(2-4) by (intro exI [of _ t]) simp
  next
    case False
    then have "dirlookup_loop dp name (map (\<lambda>k. 16 * k) (k # ks)) s de = dirlookup_loop dp name (map (\<lambda>k. 16 * k) ks) t ?e"
      using t(1) p by (auto simp: dent_match_def namecmp_zero)
    moreover have "file_ok (view t) (inodes t ! dp)" "\<forall>k\<in>set ks. 16 * k + 16 \<le> isize (inodes t ! dp)" "length ?e = 16"
      using Cons.prems(2,3) t(3) e by (simp_all add: dent_def)
    ultimately show ?thesis using Cons.IH [OF t(2), of ?e] False t(3) e kept_trans [OF t(4)] by (auto split: option.splits)
  qed
qed simp

text \<open>
  What \<^verbatim>\<open>iget\<close> promises for inode \<open>n\<close> of device 1: entry \<open>i\<close> of the inode table has that
  identity and one more reference; it is the entry that held the inode before, or, when none did,
  one that was free; nothing else of the table changes.
\<close>

definition holds_inode :: "inode \<Rightarrow> nat \<Rightarrow> bool" where
  "holds_inode x n \<longleftrightarrow> iref x > 0 \<and> idev x = 1 \<and> inum x = n"

definition got_inode :: "inode list \<Rightarrow> nat \<Rightarrow> nat \<Rightarrow> inode list \<Rightarrow> bool" where
  "got_inode xs n i ys \<longleftrightarrow> i < 50 \<and> length ys = length xs \<and> idev (ys ! i) = 1 \<and> inum (ys ! i) = n \<and>
     iref (ys ! i) = iref (xs ! i) + 1 \<and> (\<forall>j<50. j \<noteq> i \<longrightarrow> ys ! j = xs ! j) \<and>
     (if \<exists>j<50. holds_inode (xs ! j) n then holds_inode (xs ! i) n \<and> ys ! i = (xs ! i)\<lparr>iref := iref (xs ! i) + 1\<rparr>
      else iref (xs ! i) = 0 \<and> \<not> ivalid (ys ! i))"

lemma iget_gets:
  fixes s :: "'z fsst_scheme"
  assumes "length (inodes s) = 50"
  shows "(\<exists>i x. iget 1 n s = Inr (i, s\<lparr>inodes := (inodes s)[i := x]\<rparr>) \<and> got_inode (inodes s) n i ((inodes s)[i := x])) \<or>
     iget 1 n s = Inl (Panic ''iget: no inodes'') \<and> (\<forall>j<50. iref (inodes s ! j) \<noteq> 0 \<and> \<not> holds_inode (inodes s ! j) n)"
proof (cases "List.find (\<lambda>i. iref (inodes s ! i) > 0 \<and> idev (inodes s ! i) = 1 \<and> inum (inodes s ! i) = n) [0..<NINODE]")
  case (Some i)
  then have i: "i < 50" "iref (inodes s ! i) > 0" "idev (inodes s ! i) = 1" "inum (inodes s ! i) = n"
    by (auto simp: find_Some_iff)
  then show ?thesis using Some assms
    by (intro disjI1 exI [of _ i] exI [of _ "(inodes s ! i)\<lparr>iref := iref (inodes s ! i) + 1\<rparr>"])
      (auto simp: iget_def inode_upd_def got_inode_def holds_inode_def)
next
  case None
  then have none: "\<forall>j<50. \<not> holds_inode (inodes s ! j) n" by (auto simp: find_None_iff holds_inode_def)
  show ?thesis
  proof (cases "List.find (\<lambda>i. iref (inodes s ! i) = 0) [0..<NINODE]")
    case (Some i)
    then have "i < 50" "iref (inodes s ! i) = 0" by (auto simp: find_Some_iff)
    then show ?thesis using None Some assms none
      by (intro disjI1 exI [of _ i] exI [of _ "(inodes s ! i)\<lparr>idev := 1, inum := n, iref := 1, ivalid := False\<rparr>"])
        (auto simp: iget_def inode_upd_def got_inode_def)
  next
    case N: None
    then have "\<forall>j<50. iref (inodes s ! j) \<noteq> 0" by (auto simp: find_None_iff)
    moreover have "iget 1 n s = Inl (Panic ''iget: no inodes'')" using None N by (simp add: iget_def)
    ultimately show ?thesis using none by blast
  qed
qed

text \<open>
  C32: \<^verbatim>\<open>dirlookup\<close> in a directory whose blocks are all allocated, called inside a transaction that
  holds no buffer: when an entry in use has the name (the bytes up to its NUL, at most 14), it returns
  the offset of the first such entry together with an in-memory inode of that entry's number, which
  has one more reference than before, and panics only when the inode table has neither that
  inode nor a free entry; when no entry in use has the name it returns a null pointer. It changes
  no block of the disk or of the cached view, and nothing else in the inode table.
\<close>

theorem dirlookup_first_match:
  fixes s :: "'z fsst_scheme"
  assumes "txn s {}" "file_ok (view s) (inodes s ! dp)" "itype (inodes s ! dp) = 1" "16 dvd isize (inodes s ! dp)"
    "length (inodes s) = 50"
  defines "q \<equiv> isize (inodes s ! dp) div 16" and "entry \<equiv> dent (view s) (inodes s ! dp)"
  shows "(\<exists>k<q. dent_match name (entry k) \<and> (\<forall>j<k. \<not> dent_match name (entry j)) \<and>
       ((\<exists>i t. dirlookup dp name s = Inr (Some (i, 16 * k), t) \<and> got_inode (inodes s) (get16 0 (entry k)) i (inodes t) \<and>
           view t = view s \<and> disk t = disk s) \<or>
        dirlookup dp name s = Inl (Panic ''iget: no inodes'') \<and>
          (\<forall>j<50. iref (inodes s ! j) \<noteq> 0 \<and> \<not> holds_inode (inodes s ! j) (get16 0 (entry k))))) \<or>
     (\<forall>k<q. \<not> dent_match name (entry k)) \<and>
       (\<exists>t. dirlookup dp name s = Inr (None, t) \<and> inodes t = inodes s \<and> view t = view s \<and> disk t = disk s)"
proof -
  obtain q' where q': "isize (inodes s ! dp) = 16 * q'" using assms(4) by auto
  then have q: "isize (inodes s ! dp) = 16 * q" by (simp add: q_def)
  have "(16 * q + 15) div 16 = q" by linarith
  then have d: "dirlookup dp name s = dirlookup_loop dp name (map (\<lambda>k. 16 * k) [0..<q]) s (replicate 16 0)"
    using assms(3) q by (simp add: dirlookup_def dir_offs_def)
  obtain t where t: "view t = view s" "kept s t" and l: "dirlookup_loop dp name (map (\<lambda>k. 16 * k) [0..<q]) s (replicate 16 0) =
      (case List.find (\<lambda>k. dent_match name (entry k)) [0..<q] of
          None \<Rightarrow> Inr (None, t)
        | Some k \<Rightarrow> bnd (iget 1 (get16 0 (entry k)) t) (\<lambda>(ip, u). Inr (Some (ip, 16 * k), u)))"
    using dirlookup_loop_spec [OF assms(1,2), of "[0..<q]" "replicate 16 0" name] q unfolding entry_def by fastforce
  have e: "disk t = disk s" "inodes t = inodes s" using kept_fs(2) [of s t] t(2) by (simp_all add: kept_def)
  show ?thesis
  proof (cases "List.find (\<lambda>k. dent_match name (entry k)) [0..<q]")
    case None
    then have "dirlookup dp name s = Inr (None, t)" using d l by simp
    moreover have "\<forall>k<q. \<not> dent_match name (entry k)" using None by (auto simp: find_None_iff)
    ultimately show ?thesis using t(1) e by blast
  next
    case (Some k)
    let ?n = "get16 0 (entry k)" and ?xs = "inodes s"
    have k: "k < q" "dent_match name (entry k)" "\<forall>j<k. \<not> dent_match name (entry j)"
      using Some by (auto simp: find_Some_iff)
    have dl: "dirlookup dp name s = bnd (iget 1 ?n t) (\<lambda>(ip, u). Inr (Some (ip, 16 * k), u))"
      using d l Some by simp
    consider i x where "iget 1 ?n t = Inr (i, t\<lparr>inodes := ?xs[i := x]\<rparr>)" "got_inode ?xs ?n i (?xs[i := x])"
      | "iget 1 ?n t = Inl (Panic ''iget: no inodes'')" "\<forall>j<50. iref (?xs ! j) \<noteq> 0 \<and> \<not> holds_inode (?xs ! j) ?n"
      using iget_gets [of t ?n] assms(5) unfolding e(2) by blast
    then show ?thesis
    proof cases
      case 1
      then have "dirlookup dp name s = Inr (Some (i, 16 * k), t\<lparr>inodes := ?xs[i := x]\<rparr>)" using dl by simp
      moreover have "t\<lparr>inodes := ?xs[i := x]\<rparr> = inode_upd i (\<lambda>_. x) t" unfolding e(2) [symmetric] by (simp add: inode_upd_def)
      then have "view (t\<lparr>inodes := ?xs[i := x]\<rparr>) = view s" using t(1) by simp
      ultimately show ?thesis using k 1(2) e(1) by (intro disjI1 exI [of _ k]) auto
    qed (use k dl in auto)
  qed
qed

section \<open>Path elements\<close>

text \<open>The elements of a path, as a reference: split at every slash and drop the empty parts.\<close>

fun split_path :: "u8 list \<Rightarrow> u8 list list" where
  "split_path [] = [[]]"
| "split_path (c # cs) = (if c = SLASH then [] # split_path cs else (c # hd (split_path cs)) # tl (split_path cs))"

definition elems :: "u8 list \<Rightarrow> u8 list list" where
  "elems path = filter (\<lambda>e. e \<noteq> []) (split_path path)"

lemma split_path_ne: "split_path p \<noteq> []"
  by (induction p) auto

lemma elems_slashes: "elems (dropWhile (\<lambda>c. c = SLASH) p) = elems p"
  by (induction p) (auto simp: elems_def)

lemma split_path_take:
  "split_path p = takeWhile (\<lambda>c. c \<noteq> SLASH) p # tl (split_path (dropWhile (\<lambda>c. c \<noteq> SLASH) p))"
proof (induction p)
  case (Cons c cs)
  show ?case
  proof (cases "c = SLASH")
    case False
    have "hd (split_path cs) = takeWhile (\<lambda>c. c \<noteq> SLASH) cs"
      "tl (split_path cs) = tl (split_path (dropWhile (\<lambda>c. c \<noteq> SLASH) cs))"
      using Cons by (metis list.sel(1), metis list.sel(3))
    then show ?thesis using False by simp
  qed simp
qed simp

lemma elems_take:
  assumes "p \<noteq> []" "hd p \<noteq> SLASH"
  shows "elems p = takeWhile (\<lambda>c. c \<noteq> SLASH) p # elems (dropWhile (\<lambda>c. c \<noteq> SLASH) p)"
proof -
  let ?d = "dropWhile (\<lambda>c. c \<noteq> SLASH) p"
  have "takeWhile (\<lambda>c. c \<noteq> SLASH) p \<noteq> []" using assms by (cases p) auto
  moreover have "elems ?d = filter (\<lambda>e. e \<noteq> []) (tl (split_path ?d))"
  proof (cases ?d)
    case (Cons c cs)
    then have "c = SLASH" using hd_dropWhile [of "\<lambda>c. c \<noteq> SLASH" p] by simp
    then show ?thesis using Cons by (simp add: elems_def)
  next
    case Nil
    show ?thesis unfolding Nil by (simp add: elems_def)
  qed
  ultimately show ?thesis unfolding elems_def by (subst split_path_take) simp
qed

text \<open>
  \<^verbatim>\<open>skipelem\<close> takes the elements of a path in order: it returns a null pointer exactly when
  no element is left, and otherwise the name array holds the next element (cut to 14 characters)
  and the returned path has exactly the remaining elements and no leading slash.
\<close>

theorem skipelem_elems:
  assumes "0 \<notin> set path" "length name = 14"
  shows "case skipelem path name of
     None \<Rightarrow> elems path = []
   | Some (path', name') \<Rightarrow> \<exists>e. elems path = e # elems path' \<and> cname name' = take 14 e \<and> length name' = 14 \<and>
       length path' < length path \<and> (path' = [] \<or> hd path' \<noteq> 47)"
proof -
  let ?p = "dropWhile (\<lambda>c. c = 47) path"
  let ?e = "takeWhile (\<lambda>c. c \<noteq> 47) ?p" and ?d = "dropWhile (\<lambda>c. c \<noteq> 47) ?p"
  show ?thesis
  proof (cases "?p = []")
    case True
    have "elems path = elems []" using elems_slashes [of path] unfolding True by simp
    moreover have "skipelem path name = None" unfolding skipelem_def Let_def True by simp
    ultimately show ?thesis by (simp add: elems_def)
  next
    case False
    let ?n = "if length ?e \<ge> 14 then put 0 (take 14 ?e) name else put 0 (?e @ [0]) name"
    have sk: "skipelem path name = Some (dropWhile (\<lambda>c. c = 47) ?d, ?n)" using False by (simp add: skipelem_def Let_def)
    have "hd ?p \<noteq> 47" using hd_dropWhile [OF False] by simp
    then have "elems path = ?e # elems (dropWhile (\<lambda>c. c = 47) ?d)"
      using elems_take [OF False] elems_slashes [of path] elems_slashes [of ?d] by simp
    moreover have z: "0 \<notin> set ?e" using assms(1) by (metis set_dropWhileD set_takeWhileD)
    have "cname ?n = take 14 ?e \<and> length ?n = 14"
    proof (cases "length ?e \<ge> 14")
      case True
      have "0 \<notin> set (take 14 ?e)" using z by (meson in_set_takeD)
      then have "takeWhile (\<lambda>c. c \<noteq> 0) (take 14 ?e) = take 14 ?e" by (intro takeWhile_eq_all_conv [THEN iffD2]) auto
      then show ?thesis using True assms(2) by (simp add: cname_def put_def)
    next
      case F: False
      have "takeWhile (\<lambda>c. c \<noteq> 0) (?e @ 0 # ys) = ?e" for ys using z by (subst takeWhile_append2) auto
      then show ?thesis using F assms(2) by (simp add: cname_def put_def)
    qed
    moreover have "dropWhile (\<lambda>c. c = 47) ?d = [] \<or> hd (dropWhile (\<lambda>c. c = 47) ?d) \<noteq> 47"
      using hd_dropWhile [of "\<lambda>c. c = 47" ?d] by auto
    moreover have "length (dropWhile (\<lambda>c. c = 47) ?d) < length path" by (rule skipelem_less [OF sk])
    ultimately show ?thesis using sk by simp
  qed
qed

section \<open>Concrete instances\<close>

text \<open>The root directory of the small file system, with two empty entries in block 46.\<close>

definition fs_dir :: fsst where
  "fs_dir = inode_upd 0 (\<lambda>x. \<lparr>idev = 1, inum = 1, iref = 1, ilk = initsleeplock, ivalid = False, itype = 1, major = 0, minor = 0,
       nlink = 1, isize = 32, addrs = 46 # replicate 12 0\<rparr>) fs_demo"

lemma fs_dir_simps: "txn fs_dir {}" "lh_n fs_dir = 0" "view fs_dir = fs_disk" "length (inodes fs_dir) = 50"
  "inodes fs_dir ! 0 = \<lparr>idev = 1, inum = 1, iref = 1, ilk = initsleeplock, ivalid = False, itype = 1, major = 0, minor = 0,
       nlink = 1, isize = 32, addrs = 46 # replicate 12 0\<rparr>" "sb fs_dir = sb fs_demo" "lstart fs_dir = 2"
  by (simp_all add: fs_dir_def fs_demo_txn fs_demo_sel fs_demo_view) (simp_all add: fs_demo_def)

lemma fs_dir_file: "file_ok (view fs_dir) (inodes fs_dir ! 0)"
  by (auto simp: file_ok_def fs_dir_simps blkaddr_def fs_disk_def)

theorem iupdate_ilock_roundtrip_witness:
  "\<exists>t u. iupdate 0 fs_dir = Inr t \<and> ilock 0 t = Inr u \<and> isize (inodes u ! 0) = 32"
proof -
  have "iblock_ok fs_dir (inum (inodes fs_dir ! 0))"
    by (simp add: iblock_ok_def fs_dir_simps IBLOCK_def fs_demo_sel fs_disk_def)
  then have "\<exists>t u. iupdate 0 fs_dir = Inr t \<and> ilock 0 t = Inr u \<and>
     disk_fields (inodes u ! 0) = disk_fields (inodes fs_dir ! 0) \<and> ivalid (inodes u ! 0)"
    by (intro iupdate_ilock_roundtrip) (simp_all add: fs_dir_simps inode_ok_def initsleeplock_def)
  then show ?thesis by (auto simp: disk_fields_def fs_dir_simps)
qed

theorem readi_reads_witness:
  "\<exists>t. readi cpo_local 0 0 16 100 fs_dir (replicate 100 0) = Inr (16, t, put 0 (fbytes fs_disk (inodes fs_dir ! 0) 16 16) (replicate 100 0))"
  using readi_reads [OF fs_dir_simps(1) fs_dir_file, of 16 100 "replicate 100 0"] by (auto simp: fs_dir_simps)

text \<open>A directory with a deleted entry and an entry for inode 1, both with the name \<^verbatim>\<open>.\<close>.\<close>

definition fs_named :: fsst where
  "fs_named = fs_dir\<lparr>disk := fs_disk(46 := ([0, 0, 46] @ replicate 13 0) @ ([1, 0, 46] @ replicate 13 0) @ replicate 992 0)\<rparr>"

lemma fs_named_txn: "txn fs_named {}" "view fs_named = disk fs_named"
proof -
  have "\<not> on fs_named i b" for i b
    by (auto simp: on_def fs_named_def fs_dir_def inode_upd_def fs_demo_def no_buf_def)
  then have h: "held fs_named {} {}"
    by (auto simp: held_def fs_named_def fs_dir_def inode_upd_def fs_demo_def no_buf_def initsleeplock_def)
  have l: "logged fs_named = []" "logged fs_demo = []"
    by (simp_all add: logged_def fs_named_def fs_dir_def inode_upd_def fs_demo_def)
  have f: "lh_block fs_named = lh_block fs_demo" "lh_n fs_named = lh_n fs_demo" "lstart fs_named = lstart fs_demo"
    "lsize fs_named = lsize fs_demo" "ldev fs_named = ldev fs_demo" "outstanding fs_named = outstanding fs_demo"
    "committing fs_named = committing fs_demo"
    by (simp_all add: fs_named_def fs_dir_def inode_upd_def)
  show "txn fs_named {}" using h fs_demo_txn by (simp add: txn_def log_ok_def f l)
  show "view fs_named = disk fs_named" using held_clean [OF h] by (auto simp: fun_eq_iff)
qed

theorem dirlookup_first_match_witness:
  "\<exists>i t. dirlookup 0 [46] fs_named = Inr (Some (i, 16), t) \<and> inum (inodes t ! i) = 1"
proof -
  have i: "inodes fs_named ! 0 = inodes fs_dir ! 0" "length (inodes fs_named) = 50"
    using fs_dir_simps(4) by (simp_all add: fs_named_def)
  have d: "isize (inodes fs_dir ! 0) = 32" "itype (inodes fs_dir ! 0) = 1" by (simp_all add: fs_dir_simps)
  have f: "file_ok (view fs_named) (inodes fs_named ! 0)"
    unfolding fs_named_txn(2) i(1) by (auto simp: file_ok_def fs_dir_simps blkaddr_def fs_named_def)
  let ?e = "dent (view fs_named) (inodes fs_named ! 0)"
  let ?b = "([0, 0, 46] @ replicate 13 0) @ ([1, 0, 46] @ replicate 13 0) @ replicate 992 0 :: u8 list"
  have fb: "fbyte (view fs_named) (inodes fs_named ! 0) p = ?b ! p" if "p < 32" for p
    unfolding fs_named_txn(2) i(1) using that by (simp add: fbyte_def fs_dir_simps blkaddr_def fs_named_def)
  have e: "?e k = take 16 (drop (16 * k) ?b)" if "k < 2" for k
    by (rule nth_equalityI) (use that fb in \<open>simp_all add: dent_def fbytes_def\<close>)
  have e: "?e 0 = [0, 0, 46] @ replicate 13 0" "?e 1 = [1, 0, 46] @ replicate 13 0"
    using e [of 0] e [of 1] by simp_all
  have g: "get16 0 (a # b # c) = unat a + 256 * unat b" for a b c by (simp add: get16_def)
  have n: "get16 0 (?e 0) = 0" "get16 0 (?e 1) = 1" unfolding e by (simp_all add: g)
  have m: "\<not> dent_match [46] (?e 0)" "dent_match [46] (?e 1)"
    unfolding dent_match_def n using e by (simp_all add: cname_def)
  have free: "iref (inodes fs_named ! 1) = 0" by (simp add: fs_named_def fs_dir_def inode_upd_def fs_demo_def)
  have k: "k < 2 \<Longrightarrow> dent_match [46] (?e k) \<Longrightarrow> k = 1" for k using m by (cases "k = 0") auto
  have sz: "isize (inodes fs_named ! 0) div 16 = 2" using d i by simp
  consider k i t where "k < 2" "dent_match [46] (?e k)" "dirlookup 0 [46] fs_named = Inr (Some (i, 16 * k), t)"
      "got_inode (inodes fs_named) (get16 0 (?e k)) i (inodes t)"
    | "\<forall>j<50. iref (inodes fs_named ! j) \<noteq> 0" | "\<forall>k<2. \<not> dent_match [46] (?e k)"
    using dirlookup_first_match [OF fs_named_txn(1) f _ _ i(2), of "[46]"] d i(1) unfolding sz by fastforce
  then show ?thesis
  proof cases
    case 1
    then show ?thesis using k [of k] n by (auto simp: got_inode_def)
  qed (use m free in auto)
qed

theorem skipelem_elems_witness:
  "elems [47, 97, 47, 98] = [[97], [98]] \<and> (case skipelem [47, 97, 47, 98] (replicate 14 0) of
     None \<Rightarrow> False | Some (path', name') \<Rightarrow> cname name' = [97])"
proof -
  have e: "elems [47, 97, 47, 98] = [[97], [98]]" by (simp add: elems_def)
  have "(0 :: u8) \<notin> set [47, 97, 47, 98]" by simp
  then show ?thesis using skipelem_elems [of "[47, 97, 47, 98]" "replicate 14 0"] e by (auto split: option.splits)
qed

end
