(* ===== verification/File.thy ===== *)
theory File
  imports Console FsInodes
begin

text \<open>
  \<^verbatim>\<open>kernel/file.c\<close> and \<^verbatim>\<open>pipealloc\<close>: open files. This theory joins the two halves of the
  kernel: \<open>ks\<close> is the state of processes, memory, pipes and console, \<open>fs\<close> the state of the file
  system, \<open>files\<close> the table of open files. An operation of the file system runs with the pid of the
  current process, and the wakeups it makes are then performed on the process table in their order.
\<close>

section \<open>State\<close>

datatype filetype = FD_NONE | FD_PIPE | FD_INODE | FD_DEVICE

record kfile =
  ftype :: filetype
  fref :: int
  readable :: bool
  writable :: bool
  fpipe :: nat
  fip :: nat
  foff :: nat
  fmajor :: u16

record sys =
  ks :: cst
  fs :: fsst
  files :: "kfile list"

definition file_upd :: "nat \<Rightarrow> (kfile \<Rightarrow> kfile) \<Rightarrow> sys \<Rightarrow> sys" where
  "file_upd i f s = s\<lparr>files := (files s)[i := f (files s ! i)]\<rparr>"

definition fs_exec :: "(fsst \<Rightarrow> cst \<Rightarrow> ('a \<times> fsst \<times> cst) res) \<Rightarrow> sys \<Rightarrow> ('a \<times> sys) res" where
  "fs_exec op s =
     bnd (myproc (ks s)) (\<lambda>i.
     bnd (op ((fs s)\<lparr>curpid := pid (procs (ks s) ! i), wakes := []\<rparr>) (ks s)) (\<lambda>(r, f, k).
     bnd (foldres wakeup (wakes f) k) (\<lambda>k1.
     Inr (r, s\<lparr>fs := f, ks := k1\<rparr>))))"

definition fs_run :: "(fsst \<Rightarrow> ('a \<times> fsst) res) \<Rightarrow> sys \<Rightarrow> ('a \<times> sys) res" where
  "fs_run op s = fs_exec (\<lambda>f k. bnd (op f) (\<lambda>(r, f1). Inr (r, f1, k))) s"

definition fs_do :: "(fsst \<Rightarrow> fsst res) \<Rightarrow> sys \<Rightarrow> sys res" where
  "fs_do op s = bnd (fs_run (\<lambda>f. bnd (op f) (\<lambda>f1. Inr ((), f1))) s) (\<lambda>(u, s1). Inr s1)"

text \<open>The device switch: \<^verbatim>\<open>consoleinit\<close> is the only driver that sets an entry.\<close>

abbreviation (input) CONSOLE :: int where "CONSOLE \<equiv> 1"

definition devsw :: "int \<Rightarrow> bool" where
  "devsw maj \<longleftrightarrow> maj = CONSOLE"

section \<open>Operations\<close>

definition filealloc :: "sys \<Rightarrow> nat option \<times> sys" where
  "filealloc s =
     (case List.find (\<lambda>i. fref (files s ! i) = 0) [0..<NFILE] of
        Some i \<Rightarrow> (Some i, file_upd i (\<lambda>f. f\<lparr>fref := 1\<rparr>) s)
      | None \<Rightarrow> (None, s))"

definition filedup :: "nat \<Rightarrow> sys \<Rightarrow> sys res" where
  "filedup i s =
     (if fref (files s ! i) < 1 then Inl (Panic ''filedup'')
      else Inr (file_upd i (\<lambda>f. f\<lparr>fref := fref f + 1\<rparr>) s))"

definition fileclose :: "nat \<Rightarrow> sys \<Rightarrow> sys res" where
  "fileclose i s =
     (if fref (files s ! i) < 1 then Inl (Panic ''fileclose'')
      else
        let s1 = file_upd i (\<lambda>f. f\<lparr>fref := fref f - 1\<rparr>) s in
        if fref (files s1 ! i) > 0 then Inr s1
        else
          let ff = files s1 ! i; s2 = file_upd i (\<lambda>f. f\<lparr>fref := 0, ftype := FD_NONE\<rparr>) s1 in
          case ftype ff of
            FD_PIPE \<Rightarrow> bnd (pipeclose (fpipe ff) (writable ff) (ks s2)) (\<lambda>k. Inr (s2\<lparr>ks := k\<rparr>))
          | FD_INODE \<Rightarrow> fs_do (\<lambda>f. bnd (begin_op f) (\<lambda>f1. bnd (iput (fip ff) f1) end_op)) s2
          | FD_DEVICE \<Rightarrow> fs_do (\<lambda>f. bnd (begin_op f) (\<lambda>f1. bnd (iput (fip ff) f1) end_op)) s2
          | FD_NONE \<Rightarrow> Inr s2)"

text \<open>
  The bytes of \<^verbatim>\<open>struct stat\<close>; the four padding bytes before \<^verbatim>\<open>size\<close> are those of the
  uninitialised local variable.
\<close>

definition stat_bytes :: "u8 list \<Rightarrow> stat \<Rightarrow> u8 list" where
  "stat_bytes pad st = le_bytes 4 (st_dev st) @ le_bytes 4 (st_ino st) @ le_bytes 2 (unat (st_type st)) @
     le_bytes 2 (unat (st_nlink st)) @ pad @ le_bytes 8 (st_size st)"

definition filestat :: "u8 list \<Rightarrow> nat \<Rightarrow> nat \<Rightarrow> sys \<Rightarrow> (int \<times> sys) res" where
  "filestat pad i addr s =
     bnd (myproc (ks s)) (\<lambda>p.
     let f = files s ! i in
     if ftype f = FD_INODE \<or> ftype f = FD_DEVICE then
       bnd (fs_run (\<lambda>x. bnd (ilock (fip f) x) (\<lambda>x1. let st = stati (fip f) x1 in
                        bnd (iunlock (fip f) x1) (\<lambda>x2. Inr (st, x2)))) s) (\<lambda>(st, s1).
       bnd (copyout_list (pagetable (procs (ks s1) ! p)) addr (stat_bytes pad st) (ks s1)) (\<lambda>(r, k).
       Inr (if r < 0 then -1 else 0, s1\<lparr>ks := k\<rparr>)))
     else Inr (-1, s))"

text \<open>A call on a pipe or device can go to sleep; it continues as the component describes.\<close>

definition fileread :: "nat \<Rightarrow> nat \<Rightarrow> int \<Rightarrow> sys \<Rightarrow> (outcome \<times> sys) res" where
  "fileread i addr n s =
     (let f = files s ! i in
      if \<not> readable f then Inr (Returns (-1), s)
      else
        case ftype f of
          FD_PIPE \<Rightarrow> bnd (piperead (fpipe f) addr n (ks s)) (\<lambda>(r, k). Inr (r, s\<lparr>ks := k\<rparr>))
        | FD_DEVICE \<Rightarrow>
            if sint (fmajor f) < 0 \<or> sint (fmajor f) \<ge> int NDEV \<or> \<not> devsw (sint (fmajor f)) then Inr (Returns (-1), s)
            else bnd (consoleread True addr n (ks s)) (\<lambda>(r, k). Inr (r, s\<lparr>ks := k\<rparr>))
        | FD_INODE \<Rightarrow>
            bnd (fs_exec (\<lambda>x k.
                   bnd (ilock (fip f) x) (\<lambda>x1.
                   bnd (readi (either_copyout True) (fip f) addr (foff f) (nat (n mod 2 ^ 32)) x1 k) (\<lambda>(r, x2, k1).
                   bnd (iunlock (fip f) x2) (\<lambda>x3. Inr (r, x3, k1))))) s) (\<lambda>(r, s1).
            Inr (Returns r, if r > 0 then file_upd i (\<lambda>f. f\<lparr>foff := (foff f + nat r) mod 2 ^ 32\<rparr>) s1 else s1))
        | FD_NONE \<Rightarrow> Inl (Panic ''fileread''))"

abbreviation (input) MAXWRITE :: int where "MAXWRITE \<equiv> 3072"

text \<open>One iteration of the loop of \<^verbatim>\<open>filewrite\<close>: a transaction that writes \<open>n1\<close> bytes.\<close>

definition filewrite_txn :: "(nat \<Rightarrow> nat \<Rightarrow> (int \<times> u8 list) res) \<Rightarrow> nat \<Rightarrow> nat \<Rightarrow> nat \<Rightarrow> nat \<Rightarrow> 'z fsst_scheme \<Rightarrow>
    (int \<times> 'z fsst_scheme) res" where
  "filewrite_txn cpi ip src off n x =
     bnd (begin_op x) (\<lambda>x1.
     bnd (ilock ip x1) (\<lambda>x2.
     bnd (writei cpi ip src off n x2) (\<lambda>(r, x3).
     bnd (iunlock ip x3) (\<lambda>x4.
     bnd (end_op x4) (\<lambda>x5. Inr (r, x5))))))"

definition filewrite_step :: "nat \<Rightarrow> nat \<Rightarrow> int \<Rightarrow> sys \<Rightarrow> (int \<times> sys) res" where
  "filewrite_step i src n1 s =
     (let f = files s ! i in
      bnd (fs_run (filewrite_txn (\<lambda>a m. either_copyin True a m (ks s)) (fip f) src (foff f) (nat (n1 mod 2 ^ 32))) s) (\<lambda>(r, s1).
      Inr (r, if r > 0 then file_upd i (\<lambda>f. f\<lparr>foff := (foff f + nat r) mod 2 ^ 32\<rparr>) s1 else s1)))"

function filewrite_loop :: "nat \<Rightarrow> nat \<Rightarrow> int \<Rightarrow> int \<Rightarrow> sys \<Rightarrow> (int \<times> sys) res" where
  "filewrite_loop fi addr n i s =
     (if i < n then
        let n1 = (if n - i > MAXWRITE then MAXWRITE else n - i) in
        bnd (filewrite_step fi (addr + nat i) n1 s) (\<lambda>(r, s1).
        if r \<noteq> n1 then Inr (i, s1) else filewrite_loop fi addr n (i + n1) s1)
      else Inr (i, s))"
  by pat_completeness auto
termination
  by (relation "measure (\<lambda>(fi, addr, n, i, s). nat (n - i))") auto

declare filewrite_loop.simps [simp del]

definition filewrite :: "nat \<Rightarrow> nat \<Rightarrow> int \<Rightarrow> sys \<Rightarrow> (outcome \<times> u8 \<times> sys) res" where
  "filewrite i addr n s =
     (let f = files s ! i in
      if \<not> writable f then Inr (Returns (-1), 0, s)
      else
        case ftype f of
          FD_PIPE \<Rightarrow> bnd (pipewrite (fpipe f) addr n (ks s)) (\<lambda>(r, k). Inr (r, 0, s\<lparr>ks := k\<rparr>))
        | FD_DEVICE \<Rightarrow>
            if sint (fmajor f) < 0 \<or> sint (fmajor f) \<ge> int NDEV \<or> \<not> devsw (sint (fmajor f)) then Inr (Returns (-1), 0, s)
            else bnd (consolewrite True addr n (ks s)) (\<lambda>(r, c, k). Inr (r, c, s\<lparr>ks := k\<rparr>))
        | FD_INODE \<Rightarrow>
            bnd (filewrite_loop i addr n 0 s) (\<lambda>(j, s1). Inr (Returns (if j = n then n else -1), 0, s1))
        | FD_NONE \<Rightarrow> Inl (Panic ''filewrite''))"

section \<open>Pipes as files\<close>

text \<open>The label \<^verbatim>\<open>bad\<close> of \<^verbatim>\<open>pipealloc\<close>; no path reaches it with a page for the pipe.\<close>

definition pipealloc_bad :: "nat option \<Rightarrow> nat option \<Rightarrow> sys \<Rightarrow> ((nat \<times> nat) option \<times> sys) res" where
  "pipealloc_bad f0 f1 s =
     bnd (case f0 of Some i \<Rightarrow> fileclose i s | None \<Rightarrow> Inr s) (\<lambda>s1.
     bnd (case f1 of Some i \<Rightarrow> fileclose i s1 | None \<Rightarrow> Inr s1) (\<lambda>s2. Inr (None, s2)))"

definition pipealloc :: "sys \<Rightarrow> ((nat \<times> nat) option \<times> sys) res" where
  "pipealloc s =
     (let (f0, s1) = filealloc s in
      case f0 of
        None \<Rightarrow> pipealloc_bad None None s1
      | Some i0 \<Rightarrow>
          let (f1, s2) = filealloc s1 in
          case f1 of
            None \<Rightarrow> pipealloc_bad f0 None s2
          | Some i1 \<Rightarrow>
              let (pi, k) = kalloc (ks s2); s3 = s2\<lparr>ks := k\<rparr> in
              if pi = 0 then pipealloc_bad f0 f1 s3
              else
                let k1 = pipe_upd pi (\<lambda>p. p\<lparr>readopen := True, writeopen := True, nwrite := 0, nread := 0\<rparr>) (ks s3);
                    s4 = file_upd i0 (\<lambda>f. f\<lparr>ftype := FD_PIPE, readable := True, writable := False, fpipe := pi\<rparr>) (s3\<lparr>ks := k1\<rparr>);
                    s5 = file_upd i1 (\<lambda>f. f\<lparr>ftype := FD_PIPE, readable := False, writable := True, fpipe := pi\<rparr>) s4 in
                Inr (Some (i0, i1), s5))"

end
