(* ===== verification/Proc.thy ===== *)
theory Proc
  imports File
begin

text \<open>
  The life of a process, \<^verbatim>\<open>kernel/proc.c\<close>: allocation and release of a process slot and of its page
  table, \<^verbatim>\<open>fork\<close>, \<^verbatim>\<open>exit\<close>, \<^verbatim>\<open>wait\<close>, \<^verbatim>\<open>growproc\<close> and the first process. The
  kernel context of a process is not part of the state: a new process starts in \<^verbatim>\<open>forkret\<close>.
  Freeing a page table walks it, so these operations have the result \<open>None\<close> where
  \<^verbatim>\<open>freewalk\<close> would not return. The address of \<^verbatim>\<open>trampoline\<close> is an argument.
\<close>

section \<open>Sequencing operations that may not return\<close>

definition bndo :: "'a res option \<Rightarrow> ('a \<Rightarrow> 'b res option) \<Rightarrow> 'b res option" where
  "bndo m f = (case m of None \<Rightarrow> None | Some (Inl e) \<Rightarrow> Some (Inl e) | Some (Inr x) \<Rightarrow> f x)"

lemma bndo_simps [simp, res_simps]: "bndo None f = None" "bndo (Some (Inl e)) f = Some (Inl e)" "bndo (Some (Inr x)) f = f x"
  by (simp_all add: bndo_def)

lemma bndo_eq_Inr [res_simps]: "bndo m f = Some (Inr y) \<longleftrightarrow> (\<exists>x. m = Some (Inr x) \<and> f x = Some (Inr y))"
  by (simp add: bndo_def split: option.splits sum.splits)

section \<open>The trapframe\<close>

text \<open>
  The offsets of \<^verbatim>\<open>struct trapframe\<close>; the page of a trapframe is in the modelled memory.
\<close>

abbreviation (input) TF_EPC :: nat where "TF_EPC \<equiv> 24"
abbreviation (input) TF_SP :: nat where "TF_SP \<equiv> 48"
abbreviation (input) TF_A0 :: nat where "TF_A0 \<equiv> 112"
abbreviation (input) TF_A1 :: nat where "TF_A1 \<equiv> 120"
abbreviation (input) TF_A7 :: nat where "TF_A7 \<equiv> 168"
abbreviation (input) TF_SIZE :: nat where "TF_SIZE \<equiv> 288"

definition tf_get :: "nat \<Rightarrow> nat \<Rightarrow> 'z kst_scheme \<Rightarrow> nat" where
  "tf_get i off s = load64 (mem s) (trapframe (procs s ! i) + off)"

definition tf_set :: "nat \<Rightarrow> nat \<Rightarrow> nat \<Rightarrow> 'z kst_scheme \<Rightarrow> 'z kst_scheme" where
  "tf_set i off v s = s\<lparr>mem := store64 (mem s) (trapframe (procs s ! i) + off) v\<rparr>"

section \<open>Page tables of processes\<close>

definition proc_freepagetable :: "nat \<Rightarrow> nat \<Rightarrow> 'z km_scheme \<Rightarrow> 'z km_scheme res option" where
  "proc_freepagetable pt n s =
     bndo (Some (uvmunmap pt TRAMPOLINE 1 False s)) (\<lambda>s1.
     bndo (Some (uvmunmap pt TRAPFRAME 1 False s1)) (uvmfree pt n))"

definition proc_pagetable :: "nat \<Rightarrow> nat \<Rightarrow> 'z kst_scheme \<Rightarrow> (nat \<times> 'z kst_scheme) res option" where
  "proc_pagetable tramp i s =
     (let (pt, s1) = uvmcreate s in
      if pt = 0 then Some (Inr (0, s1))
      else
        bndo (Some (mappages pt TRAMPOLINE PGSIZE tramp (PTE_R OR PTE_X) s1)) (\<lambda>(r, s2).
        if r < 0 then bndo (uvmfree pt 0 s2) (\<lambda>s3. Some (Inr (0, s3)))
        else
          bndo (Some (mappages pt TRAPFRAME PGSIZE (trapframe (procs s2 ! i)) (PTE_R OR PTE_W) s2)) (\<lambda>(r, s3).
          if r < 0 then
            bndo (Some (uvmunmap pt TRAMPOLINE 1 False s3)) (\<lambda>s4.
            bndo (uvmfree pt 0 s4) (\<lambda>s5. Some (Inr (0, s5))))
          else Some (Inr (pt, s3)))))"

section \<open>Allocation of process slots\<close>

definition allocpid :: "'z kst_scheme \<Rightarrow> (int \<times> 'z kst_scheme) res" where
  "allocpid s = (if nextpid s = INT_MAX then Inl Overflow else Inr (nextpid s, s\<lparr>nextpid := nextpid s + 1\<rparr>))"

definition freeproc :: "nat \<Rightarrow> 'z kst_scheme \<Rightarrow> 'z kst_scheme res option" where
  "freeproc i s =
     bndo (Some (if trapframe (procs s ! i) \<noteq> 0 then kfree (trapframe (procs s ! i)) s else Inr s)) (\<lambda>s1.
     let s2 = proc_upd i (\<lambda>p. p\<lparr>trapframe := 0\<rparr>) s1 in
     bndo (if pagetable (procs s2 ! i) \<noteq> 0 then proc_freepagetable (pagetable (procs s2 ! i)) (sz (procs s2 ! i)) s2
           else Some (Inr s2)) (\<lambda>s3.
     Some (Inr (proc_upd i (\<lambda>p. p\<lparr>pagetable := 0, sz := 0, pid := 0, parent := None, pname := (pname p)[0 := 0],
       chan := ChNull, killed := 0, xstate := 0, state := UNUSED, nice := 0, runtime := 0, queue := 0,
       pass := DEFAULT_PASS\<rparr>) s3))))"

definition allocproc :: "nat \<Rightarrow> 'z kst_scheme \<Rightarrow> (nat option \<times> 'z kst_scheme) res option" where
  "allocproc tramp s =
     (case List.find (\<lambda>i. state (procs s ! i) = UNUSED) [0..<NPROC] of
        None \<Rightarrow> Some (Inr (None, s))
      | Some i \<Rightarrow>
          bndo (Some (allocpid s)) (\<lambda>(n, s1).
          let s2 = proc_upd i (\<lambda>p. p\<lparr>pid := n, state := USED\<rparr>) s1;
              (tf, s3) = kalloc s2;
              s4 = proc_upd i (\<lambda>p. p\<lparr>trapframe := tf\<rparr>) s3 in
          if tf = 0 then bndo (freeproc i s4) (\<lambda>s5. Some (Inr (None, s5)))
          else
            bndo (proc_pagetable tramp i s4) (\<lambda>(pt, s5).
            let s6 = proc_upd i (\<lambda>p. p\<lparr>pagetable := pt\<rparr>) s5 in
            if pt = 0 then bndo (freeproc i s6) (\<lambda>s7. Some (Inr (None, s7)))
            else Some (Inr (Some i, proc_upd i (\<lambda>p. p\<lparr>queue := priority p, pass := DEFAULT_PASS\<rparr>) s6)))))"

text \<open>\<^verbatim>\<open>safestrcpy\<close> from one name array (or string literal) to another, on a memory that holds both.\<close>

definition copy_name :: "u8 list \<Rightarrow> u8 list \<Rightarrow> u8 list" where
  "copy_name dst src = read_list (safestrcpy (\<lambda>a. if a < 16 then byte_at dst a else byte_at src (a - 16)) 0 16 16) 0 16"

text \<open>
  The first process. \<open>initcode\<close> is the address and \<open>n\<close> the size of the array of that name; the
  process is null when no slot or page is free, and the code dereferences it unchecked.
\<close>

definition userinit :: "nat \<Rightarrow> nat \<Rightarrow> nat \<Rightarrow> sys \<Rightarrow> sys res option" where
  "userinit tramp initcode n s =
     bndo (allocproc tramp (ks s)) (\<lambda>(p, k1).
     let k2 = k1\<lparr>initproc := p\<rparr> in
     case p of
       None \<Rightarrow> Some (Inl OutOfBounds)
     | Some i \<Rightarrow>
         bndo (Some (uvmfirst (pagetable (procs k2 ! i)) initcode n k2)) (\<lambda>k3.
         let k4 = tf_set i TF_SP PGSIZE (tf_set i TF_EPC 0 (proc_upd i (\<lambda>p. p\<lparr>sz := PGSIZE\<rparr>) k3));
             k5 = proc_upd i (\<lambda>p. p\<lparr>pname := copy_name (pname p) (map (\<lambda>c. of_char c) ''initcode'')\<rparr>) k4 in
         bndo (Some (namei [SLASH] None (fs s))) (\<lambda>(ip, f).
         bndo (Some (make_runnable i (proc_upd i (\<lambda>p. p\<lparr>cwd := ip\<rparr>) k5))) (\<lambda>k6.
         Some (Inr (s\<lparr>ks := k6, fs := f\<rparr>))))))"

text \<open>The variable \<^verbatim>\<open>sz\<close> of \<^verbatim>\<open>growproc\<close> is a 32 bit unsigned integer.\<close>

definition growproc :: "int \<Rightarrow> 'z kst_scheme \<Rightarrow> (int \<times> 'z kst_scheme) res" where
  "growproc n s =
     bnd (myproc s) (\<lambda>i.
     let pt = pagetable (procs s ! i);
         sz0 = sz (procs s ! i) mod 2 ^ 32;
         sz1 = nat ((int sz0 + n) mod 2 ^ 32) in
     if n > 0 then
       bnd (uvmalloc pt sz0 sz1 s) (\<lambda>(r, s1).
       if r mod 2 ^ 32 = 0 then Inr (-1, s1) else Inr (0, proc_upd i (\<lambda>p. p\<lparr>sz := r mod 2 ^ 32\<rparr>) s1))
     else if n < 0 then
       bnd (uvmdealloc pt sz0 sz1 s) (\<lambda>(r, s1). Inr (0, proc_upd i (\<lambda>p. p\<lparr>sz := r mod 2 ^ 32\<rparr>) s1))
     else Inr (0, proc_upd i (\<lambda>p. p\<lparr>sz := sz0\<rparr>) s))"

section \<open>fork, exit and wait\<close>

definition fork_file :: "nat \<Rightarrow> nat \<Rightarrow> nat \<Rightarrow> sys \<Rightarrow> sys res" where
  "fork_file i np fd s =
     (case ofile (procs (ks s) ! i) ! fd of
        None \<Rightarrow> Inr s
      | Some f \<Rightarrow> bnd (filedup f s) (\<lambda>s1. Inr (s1\<lparr>ks := proc_upd np (\<lambda>p. p\<lparr>ofile := (ofile p)[fd := Some f]\<rparr>) (ks s1)\<rparr>)))"

definition fork :: "nat \<Rightarrow> sys \<Rightarrow> (int \<times> sys) res option" where
  "fork tramp s =
     bndo (Some (myproc (ks s))) (\<lambda>i.
     bndo (allocproc tramp (ks s)) (\<lambda>(npo, k1).
     case npo of
       None \<Rightarrow> Some (Inr (-1, s\<lparr>ks := k1\<rparr>))
     | Some np \<Rightarrow>
         bndo (Some (uvmcopy (pagetable (procs k1 ! i)) (pagetable (procs k1 ! np)) (sz (procs k1 ! i)) k1)) (\<lambda>(r, k2).
         if r < 0 then bndo (freeproc np k2) (\<lambda>k3. Some (Inr (-1, s\<lparr>ks := k3\<rparr>)))
         else
           let k3 = proc_upd np (\<lambda>p. p\<lparr>sz := sz (procs k2 ! i)\<rparr>) k2;
               k4 = k3\<lparr>mem := memmove (mem k3) (trapframe (procs k3 ! np)) (trapframe (procs k3 ! i)) TF_SIZE\<rparr>;
               k5 = tf_set np TF_A0 0 k4 in
           bndo (Some (foldres (fork_file i np) [0..<NOFILE] (s\<lparr>ks := k5\<rparr>))) (\<lambda>s1.
           case cwd (procs (ks s1) ! i) of
             None \<Rightarrow> Some (Inl OutOfBounds)
           | Some ip \<Rightarrow>
               let (d, f) = idup ip (fs s1);
                   k6 = proc_upd np (\<lambda>p. p\<lparr>cwd := Some d, pname := copy_name (pname p) (pname (procs (ks s1) ! i))\<rparr>) (ks s1);
                   n = pid (procs k6 ! np);
                   k7 = proc_upd np (\<lambda>p. p\<lparr>parent := Some i\<rparr>) k6 in
               bndo (Some (make_runnable np k7)) (\<lambda>k8. Some (Inr (n, s1\<lparr>ks := k8, fs := f\<rparr>)))))))"

definition proc_chan :: "nat option \<Rightarrow> channel" where
  "proc_chan p = (case p of None \<Rightarrow> ChNull | Some i \<Rightarrow> ChProc i)"

definition reparent :: "nat \<Rightarrow> 'z kst_scheme \<Rightarrow> 'z kst_scheme res" where
  "reparent i s =
     foldres (\<lambda>j s.
       if parent (procs s ! j) = Some i then
         wakeup (proc_chan (initproc s)) (proc_upd j (\<lambda>p. p\<lparr>parent := initproc s\<rparr>) s)
       else Inr s) [0..<NPROC] s"

definition exit_file :: "nat \<Rightarrow> nat \<Rightarrow> sys \<Rightarrow> sys res" where
  "exit_file i fd s =
     (case ofile (procs (ks s) ! i) ! fd of
        None \<Rightarrow> Inr s
      | Some f \<Rightarrow> bnd (fileclose f s) (\<lambda>s1. Inr (s1\<lparr>ks := proc_upd i (\<lambda>p. p\<lparr>ofile := (ofile p)[fd := None]\<rparr>) (ks s1)\<rparr>)))"

definition exit :: "int \<Rightarrow> sys \<Rightarrow> sys res" where
  "exit status s =
     bnd (myproc (ks s)) (\<lambda>i.
     if initproc (ks s) = Some i then Inl (Panic ''init exiting'')
     else
       bnd (foldres (exit_file i) [0..<NOFILE] s) (\<lambda>s1.
       case cwd (procs (ks s1) ! i) of
         None \<Rightarrow> Inl OutOfBounds
       | Some ip \<Rightarrow>
           bnd (fs_do (\<lambda>f. bnd (begin_op f) (\<lambda>f1. bnd (iput ip f1) end_op)) s1) (\<lambda>s2.
           let k = proc_upd i (\<lambda>p. p\<lparr>cwd := None\<rparr>) (ks s2) in
           bnd (reparent i k) (\<lambda>k1.
           bnd (wakeup (proc_chan (parent (procs k1 ! i))) k1) (\<lambda>k2.
           bnd (sched (proc_upd i (\<lambda>p. p\<lparr>xstate := status, state := ZOMBIE\<rparr>) k2)) (\<lambda>k3.
           Inr (s2\<lparr>ks := k3\<rparr>)))))))"

text \<open>
  The scan of \<^verbatim>\<open>wait\<close> over the process table; the boolean is \<^verbatim>\<open>havekids\<close>. The result of a
  found zombie is the return value of the call.
\<close>

fun wait_scan :: "nat \<Rightarrow> nat \<Rightarrow> nat list \<Rightarrow> bool \<Rightarrow> 'z kst_scheme \<Rightarrow> (bool \<times> int option \<times> 'z kst_scheme) res option" where
  "wait_scan i addr [] havekids s = Some (Inr (havekids, None, s))"
| "wait_scan i addr (np # nps) havekids s =
     (if parent (procs s ! np) = Some i then
        if state (procs s ! np) = ZOMBIE then
          bndo (Some (if addr \<noteq> 0 then copyout_list (pagetable (procs s ! i)) addr (le_bytes 4 (nat (xstate (procs s ! np) mod 2 ^ 32))) s
                      else Inr (0, s))) (\<lambda>(r, s1).
          if r < 0 then Some (Inr (True, Some (-1), s1))
          else bndo (freeproc np s1) (\<lambda>s2. Some (Inr (True, Some (pid (procs s1 ! np)), s2))))
        else wait_scan i addr nps True s
      else wait_scan i addr nps havekids s)"

definition wait :: "nat \<Rightarrow> 'z kst_scheme \<Rightarrow> (outcome \<times> 'z kst_scheme) res option" where
  "wait addr s =
     bndo (Some (myproc s)) (\<lambda>i.
     bndo (wait_scan i addr [0..<NPROC] False s) (\<lambda>(havekids, r, s1).
     case r of
       Some v \<Rightarrow> Some (Inr (Returns v, s1))
     | None \<Rightarrow>
         if \<not> havekids \<or> killed (procs s1 ! i) \<noteq> 0 then Some (Inr (Returns (-1), s1))
         else bndo (Some (sleep (ChProc i) s1)) (\<lambda>s2. Some (Inr (Sleeps 0, s2)))))"

definition wait_resume :: "nat \<Rightarrow> 'z kst_scheme \<Rightarrow> (outcome \<times> 'z kst_scheme) res option" where
  "wait_resume addr s = bndo (Some (sleep_resume s)) (wait addr)"

text \<open>
  \<^verbatim>\<open>forkret\<close> initialises the file system in the first process; \<open>first\<close> is its static variable.
  The return to user space that follows is in the theory \<open>Syscall\<close>.
\<close>

definition forkret :: "bool \<Rightarrow> sys \<Rightarrow> (bool \<times> sys) res" where
  "forkret first s =
     (if first then bnd (fs_do (fsinit ROOTDEV) s) (\<lambda>s1. Inr (False, s1)) else Inr (first, s))"

end
