(* ===== verification/Exec.thy ===== *)
theory Exec
  imports Proc
begin

text \<open>
  The arguments of system calls (first half of \<^verbatim>\<open>kernel/syscall.c\<close>) and \<^verbatim>\<open>kernel/exec.c\<close>.
\<close>

section \<open>Fetching arguments\<close>

text \<open>
  \<^verbatim>\<open>copyinstr\<close> into a local array: the bytes it stores, with the NUL at the end when it succeeds.
\<close>

fun cstr_page :: "mem \<Rightarrow> nat \<Rightarrow> nat \<Rightarrow> u8 list \<times> bool" where
  "cstr_page m p 0 = ([], False)"
| "cstr_page m p (Suc n) =
     (if m p = 0 then ([0], True) else let (bs, got_null) = cstr_page m (p + 1) n in (m p # bs, got_null))"

function copyinstr_list :: "nat \<Rightarrow> nat \<Rightarrow> nat \<Rightarrow> 'z km_scheme \<Rightarrow> (int \<times> u8 list) res" where
  "copyinstr_list pt srcva mx s =
     (if mx > 0 then
        let va0 = PGROUNDDOWN srcva in
        bnd (walkaddr pt va0 s) (\<lambda>pa0.
        if pa0 = 0 then Inr (-1, [])
        else
          let n = min (PGSIZE - (srcva - va0)) mx; (bs, got_null) = cstr_page (mem s) (pa0 + (srcva - va0)) n in
          if got_null then Inr (0, bs)
          else bnd (copyinstr_list pt (va0 + PGSIZE) (mx - n) s) (\<lambda>(r, bs1). Inr (r, bs @ bs1)))
      else Inr (-1, []))"
  by pat_completeness auto
termination
proof (relation "measure (\<lambda>(pt, srcva, mx, s). mx)", goal_cases)
  case (2 pt srcva mx s va0 pa0 n)
  then show ?case by (auto simp: PGROUNDDOWN_def minus_mult_div_eq_mod mult.commute)
qed simp

declare copyinstr_list.simps [simp del]

definition fetchaddr :: "nat \<Rightarrow> 'z kst_scheme \<Rightarrow> nat option res" where
  "fetchaddr addr s =
     bnd (myproc s) (\<lambda>i.
     let n = sz (procs s ! i) in
     if addr \<ge> n \<or> (addr + 8) mod 2 ^ 64 > n then Inr None
     else bnd (copyin_list (pagetable (procs s ! i)) addr 8 s) (\<lambda>(r, bs).
       if r \<noteq> 0 then Inr None else Inr (Some (le bs))))"

text \<open>The string without its NUL; its length is the return value of \<^verbatim>\<open>fetchstr\<close>.\<close>

definition fetchstr :: "nat \<Rightarrow> nat \<Rightarrow> 'z kst_scheme \<Rightarrow> u8 list option res" where
  "fetchstr addr mx s =
     bnd (myproc s) (\<lambda>i.
     bnd (copyinstr_list (pagetable (procs s ! i)) addr mx s) (\<lambda>(err, bs).
     if err < 0 then Inr None else Inr (Some (takeWhile (\<lambda>c. c \<noteq> 0) bs))))"

definition argraw :: "nat \<Rightarrow> 'z kst_scheme \<Rightarrow> nat res" where
  "argraw n s = bnd (myproc s) (\<lambda>i. if n < 6 then Inr (tf_get i (TF_A0 + 8 * n) s) else Inl (Panic ''argraw''))"

definition argint :: "nat \<Rightarrow> 'z kst_scheme \<Rightarrow> int res" where
  "argint n s = bnd (argraw n s) (\<lambda>v. Inr (s32 (v mod 2 ^ 32)))"

definition argaddr :: "nat \<Rightarrow> 'z kst_scheme \<Rightarrow> nat res" where
  "argaddr n s = argraw n s"

definition argstr :: "nat \<Rightarrow> nat \<Rightarrow> 'z kst_scheme \<Rightarrow> u8 list option res" where
  "argstr n mx s = bnd (argaddr n s) (\<lambda>a. fetchstr a mx s)"

section \<open>Loading a program\<close>

abbreviation (input) ELF_MAGIC :: nat where "ELF_MAGIC \<equiv> 0x464C457F"
abbreviation (input) ELF_PROG_LOAD :: nat where "ELF_PROG_LOAD \<equiv> 1"
abbreviation (input) MAXARG :: nat where "MAXARG \<equiv> 32"

definition get64 :: "nat \<Rightarrow> u8 list \<Rightarrow> nat" where
  "get64 off d = le (take 8 (drop off d))"

text \<open>The fields of \<^verbatim>\<open>struct elfhdr\<close> and \<^verbatim>\<open>struct proghdr\<close> that the loader uses.\<close>

record elfhdr =
  e_magic :: nat
  e_entry :: nat
  e_phoff :: nat
  e_phnum :: nat

record proghdr =
  p_type :: nat
  p_off :: nat
  p_vaddr :: nat
  p_filesz :: nat
  p_memsz :: nat

definition elf_of :: "u8 list \<Rightarrow> elfhdr" where
  "elf_of d = \<lparr>e_magic = get32 0 d, e_entry = get64 24 d, e_phoff = get64 32 d, e_phnum = get16 56 d\<rparr>"

definition ph_of :: "u8 list \<Rightarrow> proghdr" where
  "ph_of d = \<lparr>p_type = get32 0 d, p_off = get64 8 d, p_vaddr = get64 16 d, p_filesz = get64 32 d, p_memsz = get64 40 d\<rparr>"

text \<open>\<^verbatim>\<open>readi\<close> into a local variable of \<open>n\<close> bytes.\<close>

definition read_local :: "nat \<Rightarrow> nat \<Rightarrow> nat \<Rightarrow> sys \<Rightarrow> ((int \<times> u8 list) \<times> sys) res" where
  "read_local ip off n s =
     fs_run (\<lambda>f. bnd (readi cpo_local ip 0 off n f (replicate n 0)) (\<lambda>(r, f1, b). Inr ((r, b), f1))) s"

text \<open>
  The parameters \<^verbatim>\<open>offset\<close> and \<^verbatim>\<open>sz\<close> of \<^verbatim>\<open>loadseg\<close> are 32 bit, the counter runs to
  \<^verbatim>\<open>sz\<close> in steps of a page.
\<close>

function loadseg_loop :: "nat \<Rightarrow> nat \<Rightarrow> nat \<Rightarrow> nat \<Rightarrow> nat \<Rightarrow> nat \<Rightarrow> sys \<Rightarrow> (int \<times> sys) res" where
  "loadseg_loop pt va ip offset n i s =
     (if i < n then
        bnd (walkaddr pt ((va + i) mod 2 ^ 64) (ks s)) (\<lambda>pa.
        if pa = 0 then Inl (Panic ''loadseg: address should exist'')
        else
          let m = (if n - i < PGSIZE then n - i else PGSIZE) in
          bnd (fs_exec (\<lambda>f k. readi (either_copyout False) ip pa ((offset + i) mod 2 ^ 32) m f k) s) (\<lambda>(r, s1).
          if r \<noteq> int m then Inr (-1, s1) else loadseg_loop pt va ip offset n (i + PGSIZE) s1))
      else Inr (0, s))"
  by pat_completeness auto
termination
  by (relation "measure (\<lambda>(pt, va, ip, offset, n, i, s). n - i)") auto

declare loadseg_loop.simps [simp del]

definition loadseg :: "nat \<Rightarrow> nat \<Rightarrow> nat \<Rightarrow> nat \<Rightarrow> nat \<Rightarrow> sys \<Rightarrow> (int \<times> sys) res" where
  "loadseg pt va ip offset n s = loadseg_loop pt va ip (offset mod 2 ^ 32) (n mod 2 ^ 32) 0 s"

text \<open>
  The loop over the program headers: \<open>k\<close> headers are left, the next one is at \<open>off\<close>. The boolean is
  false when the loop leaves for \<^verbatim>\<open>bad\<close>, with the size reached so far.
\<close>

fun exec_segments :: "nat \<Rightarrow> nat \<Rightarrow> nat \<Rightarrow> nat \<Rightarrow> nat \<Rightarrow> sys \<Rightarrow> (bool \<times> nat \<times> sys) res" where
  "exec_segments pt ip 0 off n s = Inr (True, n, s)"
| "exec_segments pt ip (Suc k) off n s =
     bnd (read_local ip off 56 s) (\<lambda>((r, d), s1).
     let ph = ph_of d in
     if r \<noteq> 56 then Inr (False, n, s1)
     else if p_type ph \<noteq> ELF_PROG_LOAD then exec_segments pt ip k ((off + 56) mod 2 ^ 32) n s1
     else if p_memsz ph < p_filesz ph then Inr (False, n, s1)
     else if (p_vaddr ph + p_memsz ph) mod 2 ^ 64 < p_vaddr ph then Inr (False, n, s1)
     else
       bnd (uvmalloc pt n (p_vaddr ph + p_memsz ph) (ks s1)) (\<lambda>(sz1, k1).
       let s2 = s1\<lparr>ks := k1\<rparr> in
       if sz1 = 0 then Inr (False, n, s2)
       else if p_vaddr ph mod PGSIZE \<noteq> 0 then Inr (False, sz1, s2)
       else
         bnd (loadseg pt (p_vaddr ph) ip (p_off ph) (p_filesz ph) s2) (\<lambda>(r, s3).
         if r < 0 then Inr (False, sz1, s3)
         else exec_segments pt ip k ((off + 56) mod 2 ^ 32) sz1 s3)))"

text \<open>
  Pushing the argument strings: the arguments that are left, how many are pushed, the stack pointer
  and the pointers pushed so far. The result is \<open>None\<close> in the middle when the code goes to \<^verbatim>\<open>bad\<close>.
\<close>

definition sub64 :: "nat \<Rightarrow> nat \<Rightarrow> nat" where
  "sub64 a b = nat ((int a - int b) mod 2 ^ 64)"

fun exec_args :: "nat \<Rightarrow> nat \<Rightarrow> nat list \<Rightarrow> nat \<Rightarrow> nat \<Rightarrow> nat list \<Rightarrow> 'z km_scheme \<Rightarrow>
    ((nat \<times> nat list) option \<times> 'z km_scheme) res option" where
  "exec_args pt stackbase [] argc sp ustack s = Some (Inr (Some (sp, ustack), s))"
| "exec_args pt stackbase (a # argv) argc sp ustack s =
     (if argc \<ge> MAXARG then Some (Inr (None, s))
      else
        case strlen (mem s) a of
          None \<Rightarrow> None
        | Some l \<Rightarrow>
            let sp1 = sub64 sp (l + 1); sp2 = sub64 sp1 (sp1 mod 16) in
            if sp2 < stackbase then Some (Inr (None, s))
            else
              bndo (Some (copyout pt sp2 a (l + 1) s)) (\<lambda>(r, s1).
              if r < 0 then Some (Inr (None, s1))
              else exec_args pt stackbase argv (argc + 1) sp2 (ustack @ [sp2]) s1))"

text \<open>The label \<^verbatim>\<open>bad\<close> of \<^verbatim>\<open>exec\<close>.\<close>

definition exec_bad :: "nat \<Rightarrow> nat \<Rightarrow> nat option \<Rightarrow> sys \<Rightarrow> (int \<times> sys) res option" where
  "exec_bad pt n ipo s =
     bndo (if pt \<noteq> 0 then bndo (proc_freepagetable pt n (ks s)) (\<lambda>k. Some (Inr (s\<lparr>ks := k\<rparr>))) else Some (Inr s)) (\<lambda>s1.
     bndo (Some (case ipo of Some ip \<Rightarrow> fs_do (\<lambda>f. bnd (iunlockput ip f) end_op) s1 | None \<Rightarrow> Inr s1)) (\<lambda>s2.
     Some (Inr (-1, s2))))"

text \<open>The last path element: what follows the last slash.\<close>

fun last_elem :: "u8 list \<Rightarrow> u8 list \<Rightarrow> u8 list" where
  "last_elem l [] = l"
| "last_elem l (c # cs) = last_elem (if c = SLASH then cs else l) cs"

text \<open>The second half of \<^verbatim>\<open>exec\<close>: the stack, the arguments and the switch to the new image.\<close>

definition exec_stack :: "u8 list \<Rightarrow> nat list \<Rightarrow> nat \<Rightarrow> nat \<Rightarrow> elfhdr \<Rightarrow> sys \<Rightarrow> (int \<times> sys) res option" where
  "exec_stack path argv pt n elf s =
     bndo (Some (myproc (ks s))) (\<lambda>i.
     let oldsz = sz (procs (ks s) ! i); sz0 = PGROUNDUP n in
     bndo (Some (uvmalloc pt sz0 (sz0 + 2 * PGSIZE) (ks s))) (\<lambda>(sz1, k1).
     if sz1 = 0 then exec_bad pt sz0 None (s\<lparr>ks := k1\<rparr>)
     else
       bndo (Some (uvmclear pt (sub64 sz1 (2 * PGSIZE)) k1)) (\<lambda>k2.
       let stackbase = sub64 sz1 PGSIZE in
       bndo (exec_args pt stackbase argv 0 sz1 [] k2) (\<lambda>(r, k3).
       case r of
         None \<Rightarrow> exec_bad pt sz1 None (s\<lparr>ks := k3\<rparr>)
       | Some (sp, ustack) \<Rightarrow>
           let argc = length ustack; sp1 = sub64 sp ((argc + 1) * 8); sp2 = sub64 sp1 (sp1 mod 16) in
           if sp2 < stackbase then exec_bad pt sz1 None (s\<lparr>ks := k3\<rparr>)
           else
             bndo (Some (copyout_list pt sp2 (concat (map (le_bytes 8) (ustack @ [0]))) k3)) (\<lambda>(r, k4).
             if r < 0 then exec_bad pt sz1 None (s\<lparr>ks := k4\<rparr>)
             else
               let k5 = tf_set i TF_A1 sp2 k4;
                   k6 = proc_upd i (\<lambda>p. p\<lparr>pname := copy_name (pname p) (last_elem path path)\<rparr>) k5;
                   oldpt = pagetable (procs k6 ! i);
                   k7 = proc_upd i (\<lambda>p. p\<lparr>pagetable := pt, sz := sz1\<rparr>) k6;
                   k8 = tf_set i TF_SP sp2 (tf_set i TF_EPC (e_entry elf) k7) in
               bndo (proc_freepagetable oldpt oldsz k8) (\<lambda>k9. Some (Inr (int argc, s\<lparr>ks := k9\<rparr>))))))))"

definition exec :: "nat \<Rightarrow> u8 list \<Rightarrow> nat list \<Rightarrow> sys \<Rightarrow> (int \<times> sys) res option" where
  "exec tramp path argv s =
     bndo (Some (myproc (ks s))) (\<lambda>i.
     bndo (Some (fs_run (\<lambda>f. bnd (begin_op f) (\<lambda>f1. bnd (namei path (cwd (procs (ks s) ! i)) f1) (\<lambda>(ipo, f2).
        case ipo of None \<Rightarrow> bnd (end_op f2) (\<lambda>f3. Inr (None, f3)) | Some ip \<Rightarrow> bnd (ilock ip f2) (\<lambda>f3. Inr (Some ip, f3))))) s)) (\<lambda>(ipo, s1).
     case ipo of
       None \<Rightarrow> Some (Inr (-1, s1))
     | Some ip \<Rightarrow>
         bndo (Some (read_local ip 0 64 s1)) (\<lambda>((r, d), s2).
         let elf = elf_of d in
         if r \<noteq> 64 then exec_bad 0 0 (Some ip) s2
         else if e_magic elf \<noteq> ELF_MAGIC then exec_bad 0 0 (Some ip) s2
         else
           bndo (proc_pagetable tramp i (ks s2)) (\<lambda>(pt, k).
           let s3 = s2\<lparr>ks := k\<rparr> in
           if pt = 0 then exec_bad 0 0 (Some ip) s3
           else
             bndo (Some (exec_segments pt ip (e_phnum elf) (e_phoff elf mod 2 ^ 32) 0 s3)) (\<lambda>(ok, n, s4).
             if \<not> ok then exec_bad pt n (Some ip) s4
             else
               bndo (Some (fs_do (\<lambda>f. bnd (iunlockput ip f) end_op) s4)) (exec_stack path argv pt n elf))))))"

end
