(* ===== verification/Sysfile.thy ===== *)
theory Sysfile
  imports Exec
begin

text \<open>
  \<^verbatim>\<open>kernel/sysfile.c\<close>: the system calls on files. The part of a call that works on the file system
  only is a function on its state (with the suffix \<open>_fs\<close>), which the call runs for the current
  process. The return value is the \<^verbatim>\<open>uint64\<close> result as a signed number.
\<close>

abbreviation (input) MAXPATH :: nat where "MAXPATH \<equiv> 128"
abbreviation (input) O_RDONLY :: int where "O_RDONLY \<equiv> 0"
abbreviation (input) O_WRONLY :: int where "O_WRONLY \<equiv> 1"
abbreviation (input) O_RDWR :: int where "O_RDWR \<equiv> 2"
abbreviation (input) O_CREATE :: int where "O_CREATE \<equiv> 0x200"
abbreviation (input) O_TRUNC :: int where "O_TRUNC \<equiv> 0x400"

section \<open>File descriptors\<close>

definition argfd :: "nat \<Rightarrow> 'z kst_scheme \<Rightarrow> (nat \<times> nat) option res" where
  "argfd n s =
     bnd (argint n s) (\<lambda>fd.
     bnd (myproc s) (\<lambda>i.
     if fd < 0 \<or> fd \<ge> int NOFILE then Inr None
     else case ofile (procs s ! i) ! nat fd of None \<Rightarrow> Inr None | Some f \<Rightarrow> Inr (Some (nat fd, f))))"

definition set_ofile :: "nat \<Rightarrow> nat \<Rightarrow> nat option \<Rightarrow> 'z kst_scheme \<Rightarrow> 'z kst_scheme" where
  "set_ofile i fd f s = proc_upd i (\<lambda>p. p\<lparr>ofile := (ofile p)[fd := f]\<rparr>) s"

definition fdalloc :: "nat \<Rightarrow> 'z kst_scheme \<Rightarrow> (int \<times> 'z kst_scheme) res" where
  "fdalloc f s =
     bnd (myproc s) (\<lambda>i.
     case List.find (\<lambda>fd. ofile (procs s ! i) ! fd = None) [0..<NOFILE] of
       Some fd \<Rightarrow> Inr (int fd, set_ofile i fd (Some f) s)
     | None \<Rightarrow> Inr (-1, s))"

definition sys_dup :: "sys \<Rightarrow> (int \<times> sys) res" where
  "sys_dup s =
     bnd (argfd 0 (ks s)) (\<lambda>r.
     case r of
       None \<Rightarrow> Inr (-1, s)
     | Some (fd0, f) \<Rightarrow>
         bnd (fdalloc f (ks s)) (\<lambda>(fd, k).
         if fd < 0 then Inr (-1, s\<lparr>ks := k\<rparr>)
         else bnd (filedup f (s\<lparr>ks := k\<rparr>)) (\<lambda>s1. Inr (fd, s1))))"

definition sys_read :: "sys \<Rightarrow> (outcome \<times> sys) res" where
  "sys_read s =
     bnd (argfd 0 (ks s)) (\<lambda>r.
     bnd (argint 2 (ks s)) (\<lambda>n.
     bnd (argaddr 1 (ks s)) (\<lambda>p.
     case r of None \<Rightarrow> Inr (Returns (-1), s) | Some (fd, f) \<Rightarrow> fileread f p n s)))"

definition sys_write :: "sys \<Rightarrow> (outcome \<times> u8 \<times> sys) res" where
  "sys_write s =
     bnd (argfd 0 (ks s)) (\<lambda>r.
     bnd (argint 2 (ks s)) (\<lambda>n.
     bnd (argaddr 1 (ks s)) (\<lambda>p.
     case r of None \<Rightarrow> Inr (Returns (-1), 0, s) | Some (fd, f) \<Rightarrow> filewrite f p n s)))"

definition sys_close :: "sys \<Rightarrow> (int \<times> sys) res" where
  "sys_close s =
     bnd (argfd 0 (ks s)) (\<lambda>r.
     case r of
       None \<Rightarrow> Inr (-1, s)
     | Some (fd, f) \<Rightarrow>
         bnd (myproc (ks s)) (\<lambda>i.
         bnd (fileclose f (s\<lparr>ks := set_ofile i fd None (ks s)\<rparr>)) (\<lambda>s1. Inr (0, s1))))"

definition sys_fstat :: "u8 list \<Rightarrow> sys \<Rightarrow> (int \<times> sys) res" where
  "sys_fstat pad s =
     bnd (argfd 0 (ks s)) (\<lambda>r.
     bnd (argaddr 1 (ks s)) (\<lambda>st.
     case r of None \<Rightarrow> Inr (-1, s) | Some (fd, f) \<Rightarrow> filestat pad f st s))"

section \<open>Links\<close>

definition nlink_add :: "u16 \<Rightarrow> nat \<Rightarrow> 'z fsst_scheme \<Rightarrow> 'z fsst_scheme" where
  "nlink_add d ip s = inode_upd ip (\<lambda>x. x\<lparr>nlink := nlink x + d\<rparr>) s"

text \<open>The label \<^verbatim>\<open>bad\<close> of \<^verbatim>\<open>sys_link\<close>.\<close>

definition link_bad :: "nat \<Rightarrow> 'z fsst_scheme \<Rightarrow> (int \<times> 'z fsst_scheme) res" where
  "link_bad ip f =
     bnd (ilock ip f) (\<lambda>f1.
     bnd (iupdate ip (nlink_add (-1) ip f1)) (\<lambda>f2.
     bnd (iunlockput ip f2) (\<lambda>f3.
     bnd (end_op f3) (\<lambda>f4. Inr (-1, f4)))))"

definition link_fs :: "u8 list \<Rightarrow> u8 list \<Rightarrow> nat option \<Rightarrow> 'z fsst_scheme \<Rightarrow> (int \<times> 'z fsst_scheme) res" where
  "link_fs old new wd f0 =
     bnd (begin_op f0) (\<lambda>f1.
     bnd (namei old wd f1) (\<lambda>(ipo, f2).
     case ipo of
       None \<Rightarrow> bnd (end_op f2) (\<lambda>f3. Inr (-1, f3))
     | Some ip \<Rightarrow>
         bnd (ilock ip f2) (\<lambda>f3.
         if itype (inodes f3 ! ip) = T_DIR then bnd (iunlockput ip f3) (\<lambda>f4. bnd (end_op f4) (\<lambda>f5. Inr (-1, f5)))
         else
           bnd (iupdate ip (nlink_add 1 ip f3)) (\<lambda>f4.
           bnd (iunlock ip f4) (\<lambda>f5.
           bnd (nameiparent new wd f5) (\<lambda>(dpo, name, f6).
           case dpo of
             None \<Rightarrow> link_bad ip f6
           | Some dp \<Rightarrow>
               bnd (ilock dp f6) (\<lambda>f7.
               if idev (inodes f7 ! dp) \<noteq> idev (inodes f7 ! ip) then bnd (iunlockput dp f7) (link_bad ip)
               else
                 bnd (dirlink dp name (inum (inodes f7 ! ip)) f7) (\<lambda>(r, f8).
                 if r < 0 then bnd (iunlockput dp f8) (link_bad ip)
                 else
                   bnd (iunlockput dp f8) (\<lambda>f9.
                   bnd (iput ip f9) (\<lambda>f10.
                   bnd (end_op f10) (\<lambda>f11. Inr (0, f11)))))))))))) "

definition sys_link :: "sys \<Rightarrow> (int \<times> sys) res" where
  "sys_link s =
     bnd (myproc (ks s)) (\<lambda>i.
     bnd (argstr 0 MAXPATH (ks s)) (\<lambda>old.
     case old of
       None \<Rightarrow> Inr (-1, s)
     | Some op \<Rightarrow>
         bnd (argstr 1 MAXPATH (ks s)) (\<lambda>new.
         case new of None \<Rightarrow> Inr (-1, s) | Some np \<Rightarrow> fs_run (link_fs op np (cwd (procs (ks s) ! i))) s)))"

fun isdirempty_loop :: "nat \<Rightarrow> nat list \<Rightarrow> 'z fsst_scheme \<Rightarrow> u8 list \<Rightarrow> (bool \<times> 'z fsst_scheme) res" where
  "isdirempty_loop dp [] s de = Inr (True, s)"
| "isdirempty_loop dp (off # offs) s de =
     bnd (readi cpo_local dp 0 off 16 s de) (\<lambda>(r, s1, de1).
     if r \<noteq> 16 then Inl (Panic ''isdirempty: readi'')
     else if get16 0 de1 \<noteq> 0 then Inr (False, s1)
     else isdirempty_loop dp offs s1 de1)"

definition isdirempty :: "nat \<Rightarrow> 'z fsst_scheme \<Rightarrow> (bool \<times> 'z fsst_scheme) res" where
  "isdirempty dp s = isdirempty_loop dp (drop 2 (dir_offs (isize (inodes s ! dp)))) s (replicate 16 0)"

definition dot :: "u8 list" where "dot = [46, 0]"
definition dotdot :: "u8 list" where "dotdot = [46, 46, 0]"

text \<open>The label \<^verbatim>\<open>bad\<close> of \<^verbatim>\<open>sys_unlink\<close>.\<close>

definition unlink_bad :: "nat \<Rightarrow> 'z fsst_scheme \<Rightarrow> (int \<times> 'z fsst_scheme) res" where
  "unlink_bad dp f = bnd (iunlockput dp f) (\<lambda>f1. bnd (end_op f1) (\<lambda>f2. Inr (-1, f2)))"

definition unlink_fs :: "u8 list \<Rightarrow> nat option \<Rightarrow> 'z fsst_scheme \<Rightarrow> (int \<times> 'z fsst_scheme) res" where
  "unlink_fs path wd f0 =
     bnd (begin_op f0) (\<lambda>f1.
     bnd (nameiparent path wd f1) (\<lambda>(dpo, name, f2).
     case dpo of
       None \<Rightarrow> bnd (end_op f2) (\<lambda>f3. Inr (-1, f3))
     | Some dp \<Rightarrow>
         bnd (ilock dp f2) (\<lambda>f3.
         if namecmp name dot = 0 \<or> namecmp name dotdot = 0 then unlink_bad dp f3
         else
           bnd (dirlookup dp name f3) (\<lambda>(r, f4).
           case r of
             None \<Rightarrow> unlink_bad dp f4
           | Some (ip, off) \<Rightarrow>
               bnd (ilock ip f4) (\<lambda>f5.
               if sint (nlink (inodes f5 ! ip)) < 1 then Inl (Panic ''unlink: nlink < 1'')
               else
                 bnd (if itype (inodes f5 ! ip) = T_DIR then isdirempty ip f5 else Inr (True, f5)) (\<lambda>(empty, f6).
                 if \<not> empty then bnd (iunlockput ip f6) (unlink_bad dp)
                 else
                   bnd (writei (cpi_local (replicate 16 0)) dp 0 off 16 f6) (\<lambda>(w, f7).
                   if w \<noteq> 16 then Inl (Panic ''unlink: writei'')
                   else
                     bnd (if itype (inodes f7 ! ip) = T_DIR then iupdate dp (nlink_add (-1) dp f7) else Inr f7) (\<lambda>f8.
                     bnd (iunlockput dp f8) (\<lambda>f9.
                     bnd (iupdate ip (nlink_add (-1) ip f9)) (\<lambda>f10.
                     bnd (iunlockput ip f10) (\<lambda>f11.
                     bnd (end_op f11) (\<lambda>f12. Inr (0, f12)))))))))))))"

definition sys_unlink :: "sys \<Rightarrow> (int \<times> sys) res" where
  "sys_unlink s =
     bnd (myproc (ks s)) (\<lambda>i.
     bnd (argstr 0 MAXPATH (ks s)) (\<lambda>r.
     case r of None \<Rightarrow> Inr (-1, s) | Some path \<Rightarrow> fs_run (unlink_fs path (cwd (procs (ks s) ! i))) s))"

section \<open>Creating and opening\<close>

definition create :: "u8 list \<Rightarrow> u16 \<Rightarrow> u16 \<Rightarrow> u16 \<Rightarrow> nat option \<Rightarrow> 'z fsst_scheme \<Rightarrow> (nat option \<times> 'z fsst_scheme) res" where
  "create path ty maj mnr wd f0 =
     bnd (nameiparent path wd f0) (\<lambda>(dpo, name, f1).
     case dpo of
       None \<Rightarrow> Inr (None, f1)
     | Some dp \<Rightarrow>
         bnd (ilock dp f1) (\<lambda>f2.
         bnd (dirlookup dp name f2) (\<lambda>(r, f3).
         case r of
           Some (ip, off) \<Rightarrow>
             bnd (iunlockput dp f3) (\<lambda>f4.
             bnd (ilock ip f4) (\<lambda>f5.
             if ty = T_FILE \<and> (itype (inodes f5 ! ip) = T_FILE \<or> itype (inodes f5 ! ip) = T_DEVICE) then Inr (Some ip, f5)
             else bnd (iunlockput ip f5) (\<lambda>f6. Inr (None, f6))))
         | None \<Rightarrow>
             bnd (ialloc (idev (inodes f3 ! dp)) ty f3) (\<lambda>(ip, f4).
             bnd (ilock ip f4) (\<lambda>f5.
             bnd (iupdate ip (inode_upd ip (\<lambda>x. x\<lparr>major := maj, minor := mnr, nlink := 1\<rparr>) f5)) (\<lambda>f6.
             bnd (if ty = T_DIR then
                    bnd (iupdate dp (nlink_add 1 dp f6)) (\<lambda>f7.
                    bnd (dirlink ip dot (inum (inodes f7 ! ip)) f7) (\<lambda>(r1, f8).
                    if r1 < 0 then Inl (Panic ''create dots'')
                    else bnd (dirlink ip dotdot (inum (inodes f8 ! dp)) f8) (\<lambda>(r2, f9).
                    if r2 < 0 then Inl (Panic ''create dots'') else Inr f9)))
                  else Inr f6) (\<lambda>f10.
             bnd (dirlink dp name (inum (inodes f10 ! ip)) f10) (\<lambda>(r3, f11).
             if r3 < 0 then Inl (Panic ''create: dirlink'')
             else bnd (iunlockput dp f11) (\<lambda>f12. Inr (Some ip, f12)))))))))) "

text \<open>\<^verbatim>\<open>sys_open\<close> up to the allocation of the file: the locked inode, or nothing after \<^verbatim>\<open>end_op\<close>.\<close>

definition open_fs :: "u8 list \<Rightarrow> int \<Rightarrow> nat option \<Rightarrow> 'z fsst_scheme \<Rightarrow> (nat option \<times> 'z fsst_scheme) res" where
  "open_fs path omode wd f0 =
     bnd (begin_op f0) (\<lambda>f1.
     bnd (if omode AND O_CREATE \<noteq> 0 then create path T_FILE 0 0 wd f1
          else
            bnd (namei path wd f1) (\<lambda>(ipo, f2).
            case ipo of
              None \<Rightarrow> Inr (None, f2)
            | Some ip \<Rightarrow>
                bnd (ilock ip f2) (\<lambda>f3.
                if itype (inodes f3 ! ip) = T_DIR \<and> omode \<noteq> O_RDONLY
                then bnd (iunlockput ip f3) (\<lambda>f4. Inr (None, f4)) else Inr (Some ip, f3)))) (\<lambda>(ipo, f5).
     case ipo of
       None \<Rightarrow> bnd (end_op f5) (\<lambda>f6. Inr (None, f6))
     | Some ip \<Rightarrow>
         if itype (inodes f5 ! ip) = T_DEVICE \<and> (sint (major (inodes f5 ! ip)) < 0 \<or> sint (major (inodes f5 ! ip)) \<ge> int NDEV)
         then bnd (iunlockput ip f5) (\<lambda>f6. bnd (end_op f6) (\<lambda>f7. Inr (None, f7)))
         else Inr (Some ip, f5)))"

definition open_fail :: "nat option \<Rightarrow> nat \<Rightarrow> sys \<Rightarrow> (int \<times> sys) res" where
  "open_fail fo ip s =
     bnd (case fo of Some f \<Rightarrow> fileclose f s | None \<Rightarrow> Inr s) (\<lambda>s1.
     bnd (fs_do (\<lambda>f. bnd (iunlockput ip f) end_op) s1) (\<lambda>s2. Inr (-1, s2)))"

definition sys_open :: "sys \<Rightarrow> (int \<times> sys) res" where
  "sys_open s =
     bnd (myproc (ks s)) (\<lambda>i.
     bnd (argstr 0 MAXPATH (ks s)) (\<lambda>p.
     case p of
       None \<Rightarrow> Inr (-1, s)
     | Some path \<Rightarrow>
         bnd (argint 1 (ks s)) (\<lambda>omode.
         bnd (fs_run (open_fs path omode (cwd (procs (ks s) ! i))) s) (\<lambda>(ipo, s1).
         case ipo of
           None \<Rightarrow> Inr (-1, s1)
         | Some ip \<Rightarrow>
             let (fo, s2) = filealloc s1 in
             case fo of
               None \<Rightarrow> open_fail None ip s2
             | Some f \<Rightarrow>
                 bnd (fdalloc f (ks s2)) (\<lambda>(fd, k).
                 let s3 = s2\<lparr>ks := k\<rparr> in
                 if fd < 0 then open_fail (Some f) ip s3
                 else
                   let x = inodes (fs s3) ! ip;
                       s4 = (if itype x = T_DEVICE then file_upd f (\<lambda>g. g\<lparr>ftype := FD_DEVICE, fmajor := major x\<rparr>) s3
                             else file_upd f (\<lambda>g. g\<lparr>ftype := FD_INODE, foff := 0\<rparr>) s3);
                       s5 = file_upd f (\<lambda>g. g\<lparr>fip := ip, readable := (omode AND O_WRONLY = 0),
                              writable := (omode AND O_WRONLY \<noteq> 0 \<or> omode AND O_RDWR \<noteq> 0)\<rparr>) s4 in
                   bnd (fs_do (\<lambda>g.
                     bnd (if omode AND O_TRUNC \<noteq> 0 \<and> itype x = T_FILE then itrunc ip g else Inr g) (\<lambda>g1.
                     bnd (iunlock ip g1) end_op)) s5) (\<lambda>s6. Inr (fd, s6)))))))"

definition mk_fs :: "u8 list option \<Rightarrow> u16 \<Rightarrow> u16 \<Rightarrow> u16 \<Rightarrow> nat option \<Rightarrow> 'z fsst_scheme \<Rightarrow> (int \<times> 'z fsst_scheme) res" where
  "mk_fs p ty maj mnr wd f0 =
     bnd (begin_op f0) (\<lambda>f1.
     bnd (case p of None \<Rightarrow> Inr (None, f1) | Some path \<Rightarrow> create path ty maj mnr wd f1) (\<lambda>(ipo, f2).
     case ipo of
       None \<Rightarrow> bnd (end_op f2) (\<lambda>f3. Inr (-1, f3))
     | Some ip \<Rightarrow> bnd (iunlockput ip f2) (\<lambda>f3. bnd (end_op f3) (\<lambda>f4. Inr (0, f4)))))"

definition sys_mkdir :: "sys \<Rightarrow> (int \<times> sys) res" where
  "sys_mkdir s =
     bnd (myproc (ks s)) (\<lambda>i.
     bnd (argstr 0 MAXPATH (ks s)) (\<lambda>p.
     fs_run (mk_fs p T_DIR 0 0 (cwd (procs (ks s) ! i))) s))"

definition sys_mknod :: "sys \<Rightarrow> (int \<times> sys) res" where
  "sys_mknod s =
     bnd (myproc (ks s)) (\<lambda>i.
     bnd (argstr 0 MAXPATH (ks s)) (\<lambda>p.
     bnd (argint 1 (ks s)) (\<lambda>maj.
     bnd (argint 2 (ks s)) (\<lambda>mnr.
     fs_run (mk_fs p T_DEVICE (word_of_int maj) (word_of_int mnr) (cwd (procs (ks s) ! i))) s))))"

definition chdir_fs :: "u8 list option \<Rightarrow> nat option \<Rightarrow> 'z fsst_scheme \<Rightarrow> (nat option \<times> 'z fsst_scheme) res" where
  "chdir_fs p wd f0 =
     bnd (begin_op f0) (\<lambda>f1.
     bnd (case p of None \<Rightarrow> Inr (None, f1) | Some path \<Rightarrow> namei path wd f1) (\<lambda>(ipo, f2).
     case ipo of
       None \<Rightarrow> bnd (end_op f2) (\<lambda>f3. Inr (None, f3))
     | Some ip \<Rightarrow>
         bnd (ilock ip f2) (\<lambda>f3.
         if itype (inodes f3 ! ip) \<noteq> T_DIR then bnd (iunlockput ip f3) (\<lambda>f4. bnd (end_op f4) (\<lambda>f5. Inr (None, f5)))
         else
           bnd (iunlock ip f3) (\<lambda>f4.
           case wd of
             None \<Rightarrow> Inl OutOfBounds
           | Some d \<Rightarrow> bnd (iput d f4) (\<lambda>f5. bnd (end_op f5) (\<lambda>f6. Inr (Some ip, f6)))))))"

definition sys_chdir :: "sys \<Rightarrow> (int \<times> sys) res" where
  "sys_chdir s =
     bnd (myproc (ks s)) (\<lambda>i.
     bnd (argstr 0 MAXPATH (ks s)) (\<lambda>p.
     bnd (fs_run (chdir_fs p (cwd (procs (ks s) ! i))) s) (\<lambda>(ipo, s1).
     case ipo of
       None \<Rightarrow> Inr (-1, s1)
     | Some ip \<Rightarrow> Inr (0, s1\<lparr>ks := proc_upd i (\<lambda>p. p\<lparr>cwd := Some ip\<rparr>) (ks s1)\<rparr>))))"

section \<open>exec and pipe\<close>

text \<open>
  The loop of \<^verbatim>\<open>sys_exec\<close> that fetches the arguments into pages; the result is the pages and whether
  the terminating null pointer was reached. \<open>k\<close> is the number of free entries of \<^verbatim>\<open>argv\<close>.
\<close>

fun exec_argv :: "nat \<Rightarrow> nat \<Rightarrow> nat \<Rightarrow> 'z kst_scheme \<Rightarrow> (nat list \<times> bool \<times> 'z kst_scheme) res" where
  "exec_argv uargv i 0 s = Inr ([], False, s)"
| "exec_argv uargv i (Suc k) s =
     bnd (fetchaddr ((uargv + 8 * i) mod 2 ^ 64) s) (\<lambda>r.
     case r of
       None \<Rightarrow> Inr ([], False, s)
     | Some uarg \<Rightarrow>
         if uarg = 0 then Inr ([], True, s)
         else
           let (pg, s1) = kalloc s in
           if pg = 0 then Inr ([], False, s1)
           else
             bnd (myproc s1) (\<lambda>p.
             bnd (copyinstr (pagetable (procs s1 ! p)) pg uarg PGSIZE s1) (\<lambda>(err, s2).
             if err < 0 then Inr ([pg], False, s2)
             else bnd (exec_argv uargv (i + 1) k s2) (\<lambda>(pgs, ok, s3). Inr (pg # pgs, ok, s3)))))"

definition sys_exec :: "nat \<Rightarrow> sys \<Rightarrow> (int \<times> sys) res option" where
  "sys_exec tramp s =
     bndo (Some (argstr 0 MAXPATH (ks s))) (\<lambda>p.
     bndo (Some (argaddr 1 (ks s))) (\<lambda>uargv.
     case p of
       None \<Rightarrow> Some (Inr (-1, s))
     | Some path \<Rightarrow>
         bndo (Some (exec_argv uargv 0 MAXARG (ks s))) (\<lambda>(argv, ok, k).
         bndo (if ok then exec tramp path argv (s\<lparr>ks := k\<rparr>) else Some (Inr (-1, s\<lparr>ks := k\<rparr>))) (\<lambda>(ret, s1).
         bndo (Some (foldres kfree argv (ks s1))) (\<lambda>k1. Some (Inr (ret, s1\<lparr>ks := k1\<rparr>)))))))"

definition pipe_fail :: "nat \<Rightarrow> nat list \<Rightarrow> nat \<Rightarrow> nat \<Rightarrow> sys \<Rightarrow> (int \<times> sys) res" where
  "pipe_fail i fds rfl wfl s =
     bnd (fileclose rfl (s\<lparr>ks := fold (\<lambda>fd. set_ofile i fd None) fds (ks s)\<rparr>)) (\<lambda>s1.
     bnd (fileclose wfl s1) (\<lambda>s2. Inr (-1, s2)))"

definition sys_pipe :: "sys \<Rightarrow> (int \<times> sys) res" where
  "sys_pipe s =
     bnd (myproc (ks s)) (\<lambda>i.
     bnd (argaddr 0 (ks s)) (\<lambda>fdarray.
     bnd (pipealloc s) (\<lambda>(r, s1).
     case r of
       None \<Rightarrow> Inr (-1, s1)
     | Some (rfl, wfl) \<Rightarrow>
         bnd (fdalloc rfl (ks s1)) (\<lambda>(fd0, k1).
         if fd0 < 0 then pipe_fail i [] rfl wfl (s1\<lparr>ks := k1\<rparr>)
         else
           bnd (fdalloc wfl k1) (\<lambda>(fd1, k2).
           if fd1 < 0 then pipe_fail i [nat fd0] rfl wfl (s1\<lparr>ks := k2\<rparr>)
           else
             let pt = pagetable (procs k2 ! i) in
             bnd (copyout_list pt fdarray (le_bytes 4 (nat fd0)) k2) (\<lambda>(r0, k3).
             if r0 < 0 then pipe_fail i [nat fd0, nat fd1] rfl wfl (s1\<lparr>ks := k3\<rparr>)
             else
               bnd (copyout_list pt ((fdarray + 4) mod 2 ^ 64) (le_bytes 4 (nat fd1)) k3) (\<lambda>(r1, k4).
               if r1 < 0 then pipe_fail i [nat fd0, nat fd1] rfl wfl (s1\<lparr>ks := k4\<rparr>)
               else Inr (0, s1\<lparr>ks := k4\<rparr>))))))))"

end
