(* ===== verification/Syscall.thy ===== *)
theory Syscall
  imports Sysfile
begin

text \<open>
  \<^verbatim>\<open>kernel/sysproc.c\<close>, the dispatcher of \<^verbatim>\<open>kernel/syscall.c\<close> and the trap handlers of
  \<^verbatim>\<open>kernel/trap.c\<close>. A handler returns its value, sleeps in the middle of the call, or switches to
  the scheduler for good (\<^verbatim>\<open>exit\<close>). The control registers a trap handler reads are arguments.
\<close>

section \<open>System calls on processes\<close>

datatype 'a ending = Back 'a | Asleep | Gone

definition sys_exit :: "sys \<Rightarrow> (int ending \<times> sys) res" where
  "sys_exit s = bnd (argint 0 (ks s)) (\<lambda>n. bnd (exit n s) (\<lambda>s1. Inr (Gone, s1)))"

definition sys_getpid :: "'z kst_scheme \<Rightarrow> int res" where
  "sys_getpid s = bnd (myproc s) (\<lambda>i. Inr (pid (procs s ! i)))"

definition sys_fork :: "nat \<Rightarrow> sys \<Rightarrow> (int \<times> sys) res option" where
  "sys_fork tramp s = fork tramp s"

definition sys_wait :: "'z kst_scheme \<Rightarrow> (outcome \<times> 'z kst_scheme) res option" where
  "sys_wait s = bndo (Some (argaddr 0 s)) (\<lambda>p. wait p s)"

text \<open>The old size goes through an \<^verbatim>\<open>int\<close>.\<close>

definition sys_sbrk :: "'z kst_scheme \<Rightarrow> (int \<times> 'z kst_scheme) res" where
  "sys_sbrk s =
     bnd (argint 0 s) (\<lambda>n.
     bnd (myproc s) (\<lambda>i.
     let addr = s32 (sz (procs s ! i) mod 2 ^ 32) in
     bnd (growproc n s) (\<lambda>(r, s1). Inr (if r < 0 then -1 else addr, s1))))"

text \<open>
  The loop of \<^verbatim>\<open>sys_sleep\<close> compares the unsigned difference of ticks with \<^verbatim>\<open>n\<close> as unsigned;
  \<open>sys_sleep_loop\<close> runs on entry and each time the process is resumed.
\<close>

definition sys_sleep_loop :: "u32 \<Rightarrow> int \<Rightarrow> 'z kst_scheme \<Rightarrow> (outcome \<times> 'z kst_scheme) res" where
  "sys_sleep_loop ticks0 n s =
     (if ticks s - ticks0 < word_of_int n then
        bnd (myproc s) (\<lambda>i.
        if killed (procs s ! i) \<noteq> 0 then Inr (Returns (-1), s)
        else bnd (sleep ChTicks s) (\<lambda>s1. Inr (Sleeps 0, s1)))
      else Inr (Returns 0, s))"

definition sys_sleep :: "'z kst_scheme \<Rightarrow> (outcome \<times> 'z kst_scheme) res" where
  "sys_sleep s = bnd (argint 0 s) (\<lambda>n. sys_sleep_loop (ticks s) n s)"

definition sys_sleep_resume :: "u32 \<Rightarrow> int \<Rightarrow> 'z kst_scheme \<Rightarrow> (outcome \<times> 'z kst_scheme) res" where
  "sys_sleep_resume ticks0 n s = bnd (sleep_resume s) (sys_sleep_loop ticks0 n)"

definition sys_kill :: "'z kst_scheme \<Rightarrow> (int \<times> 'z kst_scheme) res" where
  "sys_kill s = bnd (argint 0 s) (\<lambda>n. kill n s)"

definition sys_uptime :: "'z kst_scheme \<Rightarrow> int" where
  "sys_uptime s = uint (ticks s)"

text \<open>The 16 bytes of a log entry, and the whole log, as \<^verbatim>\<open>sys_getlog\<close> copies it out.\<close>

definition int_bytes :: "int \<Rightarrow> u8 list" where
  "int_bytes v = le_bytes 4 (nat (v mod 2 ^ 32))"

definition logentry_bytes :: "logentry \<Rightarrow> u8 list" where
  "logentry_bytes e = int_bytes (l_pid e) @ int_bytes (l_time e) @ int_bytes (l_queue e) @ int_bytes (l_priority_boost e)"

definition sys_getlog :: "'z kst_scheme \<Rightarrow> (int \<times> 'z kst_scheme) res" where
  "sys_getlog s =
     bnd (argaddr 0 s) (\<lambda>userlog.
     bnd (myproc s) (\<lambda>i.
     bnd (copyout_list (pagetable (procs s ! i)) userlog (concat (map logentry_bytes (schedlog s))) s) (\<lambda>(r, s1).
     Inr (if r < 0 then -1 else log_count s1, s1))))"

section \<open>The dispatcher\<close>

definition of_outcome :: "outcome \<Rightarrow> int ending" where
  "of_outcome r = (case r of Returns v \<Rightarrow> Back v | Sleeps j \<Rightarrow> Asleep)"

definition on_ks :: "(cst \<Rightarrow> (int \<times> cst) res) \<Rightarrow> sys \<Rightarrow> (int ending \<times> sys) res option" where
  "on_ks op s = bndo (Some (op (ks s))) (\<lambda>(r, k). Some (Inr (Back r, s\<lparr>ks := k\<rparr>)))"

definition on_sys :: "(sys \<Rightarrow> (int \<times> sys) res) \<Rightarrow> sys \<Rightarrow> (int ending \<times> sys) res option" where
  "on_sys op s = bndo (Some (op s)) (\<lambda>(r, s1). Some (Inr (Back r, s1)))"

text \<open>
  The table \<^verbatim>\<open>syscalls[]\<close>. \<open>pad\<close> is the padding of the \<^verbatim>\<open>struct stat\<close> that
  \<^verbatim>\<open>sys_fstat\<close> copies out; \<^verbatim>\<open>sys_nice\<close> returns through the scheduler.
\<close>

definition syscalls :: "nat \<Rightarrow> u8 list \<Rightarrow> int \<Rightarrow> (sys \<Rightarrow> (int ending \<times> sys) res option) option" where
  "syscalls tramp pad num =
     (if num = 1 then Some (\<lambda>s. bndo (sys_fork tramp s) (\<lambda>(r, s1). Some (Inr (Back r, s1))))
      else if num = 2 then Some (\<lambda>s. Some (sys_exit s))
      else if num = 3 then Some (\<lambda>s. bndo (sys_wait (ks s)) (\<lambda>(r, k). Some (Inr (of_outcome r, s\<lparr>ks := k\<rparr>))))
      else if num = 4 then Some (on_sys sys_pipe)
      else if num = 5 then Some (\<lambda>s. bndo (Some (sys_read s)) (\<lambda>(r, s1). Some (Inr (of_outcome r, s1))))
      else if num = 6 then Some (on_ks sys_kill)
      else if num = 7 then Some (\<lambda>s. bndo (sys_exec tramp s) (\<lambda>(r, s1). Some (Inr (Back r, s1))))
      else if num = 8 then Some (on_sys (sys_fstat pad))
      else if num = 9 then Some (on_sys sys_chdir)
      else if num = 10 then Some (on_sys sys_dup)
      else if num = 11 then Some (on_ks (\<lambda>k. bnd (sys_getpid k) (\<lambda>r. Inr (r, k))))
      else if num = 12 then Some (on_ks sys_sbrk)
      else if num = 13 then Some (\<lambda>s. bndo (Some (sys_sleep (ks s))) (\<lambda>(r, k). Some (Inr (of_outcome r, s\<lparr>ks := k\<rparr>))))
      else if num = 14 then Some (on_ks (\<lambda>k. Inr (sys_uptime k, k)))
      else if num = 15 then Some (on_sys sys_open)
      else if num = 16 then Some (\<lambda>s. bndo (Some (sys_write s)) (\<lambda>(r, c, s1). Some (Inr (of_outcome r, s1))))
      else if num = 17 then Some (on_sys sys_mknod)
      else if num = 18 then Some (on_sys sys_unlink)
      else if num = 19 then Some (on_sys sys_link)
      else if num = 20 then Some (on_sys sys_mkdir)
      else if num = 21 then Some (on_sys sys_close)
      else if num = 22 then Some (on_ks (\<lambda>k. Inr (sys_startlog k)))
      else if num = 23 then Some (on_ks sys_getlog)
      else if num = 24 then
        Some (\<lambda>s. bndo (Some (argint 0 (ks s))) (\<lambda>n. bndo (Some (sys_nice n (ks s))) (\<lambda>(r, k). Some (Inr (Asleep, s\<lparr>ks := k\<rparr>)))))
      else None)"

text \<open>A call that returns stores its value in the saved register \<^verbatim>\<open>a0\<close>.\<close>

definition set_a0 :: "nat \<Rightarrow> int \<Rightarrow> sys \<Rightarrow> sys" where
  "set_a0 i v s = s\<lparr>ks := tf_set i TF_A0 (nat (v mod 2 ^ 64)) (ks s)\<rparr>"

definition syscall :: "nat \<Rightarrow> u8 list \<Rightarrow> sys \<Rightarrow> (unit ending \<times> sys) res option" where
  "syscall tramp pad s =
     bndo (Some (myproc (ks s))) (\<lambda>i.
     let num = s32 (tf_get i TF_A7 (ks s) mod 2 ^ 32) in
     case (if num > 0 \<and> num < 25 then syscalls tramp pad num else None) of
       Some handler \<Rightarrow>
         bndo (handler s) (\<lambda>(r, s1).
         case r of
           Back v \<Rightarrow> Some (Inr (Back (), set_a0 i v s1))
         | Asleep \<Rightarrow> Some (Inr (Asleep, s1))
         | Gone \<Rightarrow> Some (Inr (Gone, s1)))
     | None \<Rightarrow> Some (Inr (Back (), set_a0 i (-1) s)))"

section \<open>Traps\<close>

abbreviation (input) UART0_IRQ :: nat where "UART0_IRQ \<equiv> 10"
abbreviation (input) VIRTIO0_IRQ :: nat where "VIRTIO0_IRQ \<equiv> 1"

text \<open>
  \<^verbatim>\<open>devintr\<close>: \<open>irq\<close> is what \<^verbatim>\<open>plic_claim\<close> returns and \<open>hart\<close> the number of the hart. The disk
  driver completes a transfer inside \<^verbatim>\<open>virtio_disk_rw\<close> in this model, so its interrupt changes
  nothing.
\<close>

definition devintr :: "nat \<Rightarrow> nat \<Rightarrow> nat \<Rightarrow> 'z cst_scheme \<Rightarrow> (int \<times> 'z cst_scheme) res" where
  "devintr scause irq hart s =
     (if scause AND 0x8000000000000000 \<noteq> 0 \<and> scause AND 0xff = 9 then
        bnd (if irq = UART0_IRQ then uartintr s else Inr s) (\<lambda>s1. Inr (1, s1))
      else if scause = 0x8000000000000001 then
        bnd (if hart = 0 then clockintr s else Inr s) (\<lambda>s1. Inr (2, s1))
      else Inr (0, s))"

text \<open>
  \<^verbatim>\<open>usertrapret\<close> writes the four trapframe fields that \<^verbatim>\<open>uservec\<close> needs; \<open>satp\<close> and \<open>ut\<close> are
  the kernel page table register and the address of \<^verbatim>\<open>usertrap\<close>.
\<close>

definition usertrapret :: "nat \<Rightarrow> nat \<Rightarrow> nat \<Rightarrow> 'z kst_scheme \<Rightarrow> 'z kst_scheme res" where
  "usertrapret satp ut hart s =
     bnd (myproc s) (\<lambda>i.
     Inr (tf_set i 32 hart (tf_set i 16 ut (tf_set i 8 (kstack (procs s ! i) + PGSIZE) (tf_set i 0 satp s)))))"

record trapregs =
  spp :: bool
  sepc :: nat
  scause :: nat
  t_irq :: nat
  t_hart :: nat

text \<open>The end of \<^verbatim>\<open>usertrap\<close> after the system call or interrupt has been handled.\<close>

definition usertrap_end :: "nat \<Rightarrow> nat \<Rightarrow> int \<Rightarrow> trapregs \<Rightarrow> nat \<Rightarrow> sys \<Rightarrow> (unit ending \<times> sys) res" where
  "usertrap_end satp ut which_dev r i s =
     (if killed (procs (ks s) ! i) \<noteq> 0 then bnd (exit (-1) s) (\<lambda>s1. Inr (Gone, s1))
      else if which_dev = 2 then
        bnd (bnd (count_tick (ks s)) yield) (\<lambda>k. Inr (Asleep, s\<lparr>ks := k\<rparr>))
      else bnd (usertrapret satp ut (t_hart r) (ks s)) (\<lambda>k. Inr (Back (), s\<lparr>ks := k\<rparr>)))"

definition usertrap :: "nat \<Rightarrow> nat \<Rightarrow> nat \<Rightarrow> u8 list \<Rightarrow> trapregs \<Rightarrow> sys \<Rightarrow> (unit ending \<times> sys) res option" where
  "usertrap tramp satp ut pad r s =
     (if spp r then Some (Inl (Panic ''usertrap: not from user mode''))
      else
        bndo (Some (myproc (ks s))) (\<lambda>i.
        let s1 = s\<lparr>ks := tf_set i TF_EPC (sepc r) (ks s)\<rparr> in
        if scause r = 8 then
          if killed (procs (ks s1) ! i) \<noteq> 0 then bndo (Some (exit (-1) s1)) (\<lambda>s2. Some (Inr (Gone, s2)))
          else
            let s2 = s1\<lparr>ks := tf_set i TF_EPC ((tf_get i TF_EPC (ks s1) + 4) mod 2 ^ 64) (ks s1)\<rparr> in
            bndo (syscall tramp pad s2) (\<lambda>(e, s3).
            case e of Back u \<Rightarrow> Some (usertrap_end satp ut 0 r i s3) | Asleep \<Rightarrow> Some (Inr (Asleep, s3)) | Gone \<Rightarrow> Some (Inr (Gone, s3)))
        else
          bndo (Some (devintr (scause r) (t_irq r) (t_hart r) (ks s1))) (\<lambda>(which_dev, k).
          let s2 = s1\<lparr>ks := (if which_dev = 0 then proc_upd i (\<lambda>p. p\<lparr>killed := 1\<rparr>) k else k)\<rparr> in
          Some (usertrap_end satp ut which_dev r i s2))))"

definition kerneltrap :: "bool \<Rightarrow> trapregs \<Rightarrow> 'z cst_scheme \<Rightarrow> 'z cst_scheme res" where
  "kerneltrap intr r s =
     (if \<not> spp r then Inl (Panic ''kerneltrap: not from supervisor mode'')
      else if intr then Inl (Panic ''kerneltrap: interrupts enabled'')
      else
        bnd (devintr (scause r) (t_irq r) (t_hart r) s) (\<lambda>(which_dev, s1).
        if which_dev = 0 then Inl (Panic ''kerneltrap'')
        else if which_dev = 2 then
          bnd (count_tick s1) (\<lambda>s2.
          case cur s2 of
            None \<Rightarrow> Inr s2
          | Some i \<Rightarrow> if state (procs s2 ! i) = RUNNING then yield s2 else Inr s2)
        else Inr s1))"

end
