(* ===== verification/Frame.thy ===== *)
theory Frame
  imports Syscall
begin

text \<open>
  What an operation leaves alone. The operations on memory and page tables change nothing but the
  memory and the free list; the operations that move processes between states and queues keep the
  file descriptors of every process.
\<close>

section \<open>Memory operations\<close>

named_theorems frame

lemma kfree_more [frame]: "kfree p s = Inr s' \<Longrightarrow> km.more s' = km.more s"
  by (auto simp: kfree_def Let_def split: if_splits)

lemma kalloc_more [frame]: "kalloc s = (p, s') \<Longrightarrow> km.more s' = km.more s"
  by (auto simp: kalloc_def Let_def split: if_splits)

lemma walk_levels_more [frame]: "walk_levels l pt va al s = (pte, s') \<Longrightarrow> km.more s' = km.more s"
  by (induction l pt va al s arbitrary: pte s' rule: walk_levels.induct)
     (auto simp: Let_def split: if_splits prod.splits dest!: kalloc_more)

lemma walk_more: "walk pt va al s = Inr (pte, s') \<Longrightarrow> km.more s' = km.more s \<and> va < MAXVA"
  by (auto simp: walk_def split: if_splits dest: walk_levels_more)

lemma mappages_loop_more [frame]: "mappages_loop pt a lst pa perm s = Inr (r, s') \<Longrightarrow> km.more s' = km.more s"
proof (induction "MAXVA - a" arbitrary: a pa s r s' rule: less_induct)
  case less
  note IH = less.hyps
  from less.prems show ?case
    by (subst (asm) mappages_loop.simps) (auto simp: res_simps Let_def  split: if_splits prod.splits dest!: walk_more IH [rotated])
qed

lemma mappages_more [frame]: "mappages pt va n pa perm s = Inr (r, s') \<Longrightarrow> km.more s' = km.more s"
  by (auto simp: mappages_def split: if_splits dest: frame)

lemma uvmunmap_loop_more [frame]: "uvmunmap_loop pt a e fr s = Inr s' \<Longrightarrow> km.more s' = km.more s"
proof (induction "e - a" arbitrary: a fr s s' rule: less_induct)
  case less
  note IH = less.hyps
  from less.prems show ?case
    by (subst (asm) uvmunmap_loop.simps) (auto simp: res_simps Let_def  split: if_splits prod.splits dest!: walk_more kfree_more IH [rotated])
qed

lemma uvmunmap_more [frame]: "uvmunmap pt va n fr s = Inr s' \<Longrightarrow> km.more s' = km.more s"
  by (auto simp: uvmunmap_def split: if_splits dest: frame)

lemma uvmcreate_more [frame]: "uvmcreate s = (p, s') \<Longrightarrow> km.more s' = km.more s"
  by (auto simp: uvmcreate_def Let_def split: if_splits prod.splits dest: frame)

lemma uvmdealloc_more [frame]: "uvmdealloc pt a b s = Inr (r, s') \<Longrightarrow> km.more s' = km.more s"
  by (auto simp: uvmdealloc_def res_simps Let_def split: if_splits dest: frame)

lemma uvmalloc_loop_more [frame]: "uvmalloc_loop pt b a n s = Inr (r, s') \<Longrightarrow> km.more s' = km.more s"
proof (induction "n - a" arbitrary: a s r s' rule: less_induct)
  case less
  note IH = less.hyps
  from less.prems show ?case
    by (subst (asm) uvmalloc_loop.simps) (auto simp: res_simps Let_def  split: if_splits prod.splits dest!: kalloc_more mappages_more kfree_more uvmdealloc_more IH [rotated])
qed

lemma uvmalloc_more [frame]: "uvmalloc pt a n s = Inr (r, s') \<Longrightarrow> km.more s' = km.more s"
  by (auto simp: uvmalloc_def split: if_splits dest: frame)

lemma bind_bndo: "Option.bind m (\<lambda>r. case r of Inl e \<Rightarrow> Some (Inl e) | Inr x \<Rightarrow> f x) = bndo m f"
  by (simp add: bndo_def split: option.split sum.split)

lemma freewalk_from_more [frame]: "freewalk_from pt i s = Some (Inr s') \<Longrightarrow> km.more s' = km.more s"
proof -
  have "\<forall>s'. r = Inr s' \<longrightarrow> km.more s' = km.more s" if "freewalk_from pt i s = Some r" for r
  proof (rule freewalk_from.raw_induct [of "\<lambda>pt i s r. \<forall>s'. r = Inr s' \<longrightarrow> km.more s' = km.more s", OF _ that], intro allI impI, goal_cases)
    case prems: (1 f pt i s r s')
    from prems(2) show ?case unfolding prems(3) bind_bndo
      by (auto simp: Let_def bndo_eq_Inr split: if_splits dest!: prems(1) kfree_more)
  qed
  then show "freewalk_from pt i s = Some (Inr s') \<Longrightarrow> km.more s' = km.more s" by blast
qed

lemma uvmfree_more [frame]: "uvmfree pt n s = Some (Inr s') \<Longrightarrow> km.more s' = km.more s"
  by (auto simp: uvmfree_def freewalk_def split: if_splits sum.splits dest!: frame)

lemma uvmcopy_loop_more [frame]: "uvmcopy_loop old new i n s = Inr (r, s') \<Longrightarrow> km.more s' = km.more s"
proof (induction "n - i" arbitrary: i s r s' rule: less_induct)
  case less
  note IH = less.hyps
  from less.prems show ?case
    by (subst (asm) uvmcopy_loop.simps) (auto simp: res_simps Let_def  split: if_splits prod.splits dest!: walk_more kalloc_more mappages_more kfree_more uvmunmap_more IH [rotated])
qed

lemma uvmcopy_more [frame]: "uvmcopy old new n s = Inr (r, s') \<Longrightarrow> km.more s' = km.more s"
  by (auto simp: uvmcopy_def dest: frame)

lemma uvmclear_more [frame]: "uvmclear pt va s = Inr s' \<Longrightarrow> km.more s' = km.more s"
  by (auto simp: uvmclear_def res_simps split: if_splits dest!: walk_more)

lemma copyout_more [frame]: "copyout pt va src n s = Inr (r, s') \<Longrightarrow> km.more s' = km.more s"
proof (induction pt va src n s arbitrary: r s' rule: copyout.induct)
  case (1 pt va src n s)
  note IH = "1.IH"
  from "1.prems" show ?case
    by (subst (asm) copyout.simps) (auto simp: res_simps Let_def split: if_splits dest!: IH)
qed

lemma copyout_list_more [frame]: "copyout_list pt va bs s = Inr (r, s') \<Longrightarrow> km.more s' = km.more s"
proof (induction pt va bs s arbitrary: r s' rule: copyout_list.induct)
  case (1 pt va bs s)
  note IH = "1.IH"
  from "1.prems" show ?case
    by (subst (asm) copyout_list.simps) (auto simp: res_simps Let_def split: if_splits dest!: IH [rotated -1])
qed

lemma copyinstr_loop_more [frame]: "copyinstr_loop pt dst va mx s = Inr (r, s') \<Longrightarrow> km.more s' = km.more s"
proof (induction pt dst va mx s arbitrary: r s' rule: copyinstr_loop.induct)
  case (1 pt dst va mx s)
  note IH = "1.IH"
  from "1.prems" show ?case
    by (subst (asm) copyinstr_loop.simps) (auto simp: res_simps Let_def split: if_splits prod.splits dest!: IH)
qed

lemma copyinstr_more [frame]: "copyinstr pt dst va mx s = Inr (r, s') \<Longrightarrow> km.more s' = km.more s"
  by (auto simp: copyinstr_def dest: frame)

lemma exec_args_more [frame]: "exec_args pt sbase argv c sp us s = Some (Inr (r, s')) \<Longrightarrow> km.more s' = km.more s"
  by (induction pt sbase argv c sp us s arbitrary: r s' rule: exec_args.induct)
     (auto simp: res_simps Let_def split: if_splits option.splits dest!: copyout_more)

lemma proc_freepagetable_more [frame]: "proc_freepagetable pt n s = Some (Inr s') \<Longrightarrow> km.more s' = km.more s"
  by (auto simp: proc_freepagetable_def res_simps dest!: uvmunmap_more uvmfree_more)

section \<open>The file descriptors of the process table\<close>

definition dead :: "proc \<Rightarrow> bool" where
  "dead p \<longleftrightarrow> state p = UNUSED \<or> state p = ZOMBIE"

text \<open>
  From \<open>s\<close> to \<open>t\<close> no descriptor changes, no process dies, and the hart goes on with the same process
  or gives it up.
\<close>

definition fd_le :: "'z kst_scheme \<Rightarrow> 'z kst_scheme \<Rightarrow> bool" where
  "fd_le s t \<longleftrightarrow> map ofile (procs t) = map ofile (procs s) \<and> (\<forall>j. dead (procs t ! j) \<longrightarrow> dead (procs s ! j)) \<and>
     (cur t = cur s \<or> cur t = None)"

lemma fd_le_refl [simp, intro]: "fd_le s s"
  by (simp add: fd_le_def)

lemma fd_le_trans: "fd_le s t \<Longrightarrow> fd_le t u \<Longrightarrow> fd_le s u"
  by (auto simp: fd_le_def)

lemma more_kst: "km.more t = km.more (s :: 'z kst_scheme) \<Longrightarrow> procs t = procs s \<and> cur t = cur s"
  by (cases s, cases t) simp

lemma more_fd_le: "km.more t = km.more s \<Longrightarrow> fd_le s t"
  by (auto simp: fd_le_def dest: more_kst)

lemmas fd_mem = frame [THEN more_fd_le] walk_more [THEN conjunct1, THEN more_fd_le]

lemma fd_le_cong: "procs s = procs s' \<Longrightarrow> cur s = cur s' \<Longrightarrow> fd_le s t = fd_le s' t"
  "procs t = procs t' \<Longrightarrow> cur t = cur t' \<Longrightarrow> fd_le s t = fd_le s t'"
  by (simp_all add: fd_le_def)

lemma fd_le_fields [simp]:
  "fd_le (s\<lparr>qtab := q\<rparr>) t = fd_le s t" "fd_le s (t\<lparr>qtab := q\<rparr>) = fd_le s t"
  "fd_le (s\<lparr>p_kicked := n\<rparr>) t = fd_le s t" "fd_le s (t\<lparr>p_kicked := n\<rparr>) = fd_le s t"
  "fd_le (s\<lparr>time := n\<rparr>) t = fd_le s t" "fd_le s (t\<lparr>time := n\<rparr>) = fd_le s t"
  "fd_le (s\<lparr>ticks := w\<rparr>) t = fd_le s t" "fd_le s (t\<lparr>ticks := w\<rparr>) = fd_le s t"
  "fd_le (s\<lparr>log_count := n\<rparr>) t = fd_le s t" "fd_le s (t\<lparr>log_count := n\<rparr>) = fd_le s t"
  "fd_le (s\<lparr>schedlog := l\<rparr>) t = fd_le s t" "fd_le s (t\<lparr>schedlog := l\<rparr>) = fd_le s t"
  "fd_le (s\<lparr>mem := m\<rparr>) t = fd_le s t" "fd_le s (t\<lparr>mem := m\<rparr>) = fd_le s t"
  "fd_le (tf_set i off v s) t = fd_le s t" "fd_le s (tf_set i off v t) = fd_le s t"
  "fd_le s (s\<lparr>cur := None\<rparr>)" "fd_le s (t\<lparr>cur := None\<rparr>) = fd_le s (t\<lparr>cur := cur s\<rparr>)"
  by (simp_all add: fd_le_def tf_set_def)

lemma nth_upd_same: "f (g (xs ! i)) = f (xs ! i) \<Longrightarrow> f (xs[i := g (xs ! i)] ! j) = f (xs ! j)"
  by (cases "i < length xs") (auto simp: nth_list_update list_update_beyond)

lemma map_upd_same: "f (g (xs ! i)) = f (xs ! i) \<Longrightarrow> map f (xs[i := g (xs ! i)]) = map f xs"
  by (rule nth_equalityI) (auto simp: nth_upd_same)

lemma fd_le_keep [simp]:
  assumes "\<And>p. ofile (f p) = ofile p" "\<And>p. state (f p) = state p"
  shows "fd_le (proc_upd i f s) t = fd_le s t" "fd_le s (proc_upd i f t) = fd_le s t"
  using assms by (simp_all add: fd_le_def dead_def map_upd_same nth_upd_same [of state] nth_upd_same [of ofile])

lemma fd_le_alive:
  assumes "\<And>p. ofile (f p) = ofile p" "\<And>p. \<not> dead (f p)"
  shows "fd_le s (proc_upd i f s)"
  using assms by (cases "i < length (procs s)") (auto simp: fd_le_def map_upd_same nth_list_update list_update_beyond)

lemma fd_le_runnable:
  "fd_le (proc_upd i (state_update (\<lambda>_. RUNNABLE)) s) t \<Longrightarrow> fd_le s t"
  "fd_le s t \<Longrightarrow> fd_le s (proc_upd i (state_update (\<lambda>_. RUNNABLE)) t)"
  by (erule fd_le_trans [rotated] fd_le_trans, rule fd_le_alive, simp_all add: dead_def)+

lemma fd_le_log [simp]: "fd_le (boost_log s) t = fd_le s t"
  by (rule fd_le_cong) (simp_all add: boost_log_def)

lemma foldres_fd_le:
  assumes "\<And>x s t. g x s = Inr t \<Longrightarrow> fd_le s t" and "foldres g xs s = Inr t"
  shows "fd_le s t"
  using assms(2)
  by (induction xs arbitrary: s) (auto simp: res_simps intro: fd_le_trans [OF assms(1)])

section \<open>Scheduling operations\<close>

lemma add_to_queue_fd: "add_to_queue i s = Inr t \<Longrightarrow> fd_le s t"
  by (auto simp: add_to_queue_def res_simps)

lemma make_runnable_fd: "make_runnable i s = Inr t \<Longrightarrow> fd_le s t"
  unfolding make_runnable_def
  by (rule fd_le_trans [OF fd_le_alive add_to_queue_fd]) (simp_all add: dead_def)

lemma sched_fd: "sched s = Inr t \<Longrightarrow> fd_le s t"
  by (auto simp: sched_def res_simps split: if_splits)

lemma sleep_fd: "sleep c s = Inr t \<Longrightarrow> fd_le s t"
proof (clarsimp simp: sleep_def res_simps)
  fix i assume "sched (proc_upd i (\<lambda>p. p\<lparr>chan := c, state := SLEEPING\<rparr>) s) = Inr t"
  then show "fd_le s t" by (rule fd_le_trans [OF fd_le_alive sched_fd, rotated 2]) (simp_all add: dead_def)
qed

lemma sleep_resume_fd: "sleep_resume s = Inr t \<Longrightarrow> fd_le s t"
  by (auto simp: sleep_resume_def res_simps)

lemma wakeup_fd: "wakeup c s = Inr t \<Longrightarrow> fd_le s t"
  unfolding wakeup_def
  by (rule foldres_fd_le) (auto simp: wakeup_proc_def split: if_splits dest: make_runnable_fd)

lemma boost_fd: "priority_boost i s = Inr t \<Longrightarrow> fd_le s t"
proof -
  have step: "boost_proc j a = Inr b \<Longrightarrow> fd_le a b" for j and a b :: "'a kst_scheme"
    by (auto simp: boost_proc_def split: if_splits dest: add_to_queue_fd)
  show "priority_boost i s = Inr t \<Longrightarrow> fd_le s t"
    by (auto simp: priority_boost_def res_simps Let_def dest!: foldres_fd_le [OF step, rotated])
qed

lemma yield_charge_fd: "yield_charge i s = Inr t \<Longrightarrow> fd_le s t"
  by (auto simp: yield_charge_def Let_def split: if_splits dest!: add_to_queue_fd fd_le_runnable(1) intro!: fd_le_runnable(2))

lemma yield_fd: "yield s = Inr t \<Longrightarrow> fd_le s t"
  by (auto simp: yield_def res_simps split: if_splits dest!: yield_charge_fd boost_fd sched_fd intro: fd_le_trans)

lemma kill_fd: "kill n s = Inr (r, t) \<Longrightarrow> fd_le s t"
proof -
  have "kill_loop n is s = Inr (r, t) \<Longrightarrow> fd_le s t" for "is"
    by (induction "is") (auto simp: res_simps Let_def split: if_splits dest: make_runnable_fd)
  then show "kill n s = Inr (r, t) \<Longrightarrow> fd_le s t" by (simp add: kill_def)
qed

lemma clockintr_fd: "clockintr s = Inr t \<Longrightarrow> fd_le s t"
  by (auto simp: clockintr_def dest: wakeup_fd)

lemma sys_nice_fd: "sys_nice n s = Inr (r, t) \<Longrightarrow> fd_le s t"
  by (auto simp: sys_nice_def res_simps Let_def split: if_splits dest!: yield_fd)

lemma growproc_fd: "growproc n s = Inr (r, t) \<Longrightarrow> fd_le s t"
  by (auto simp: growproc_def res_simps Let_def split: if_splits dest!: fd_mem)

lemma either_copyout_fd: "either_copyout u a bs s = Inr (r, t) \<Longrightarrow> fd_le s t"
  by (auto simp: either_copyout_def res_simps split: if_splits dest!: fd_mem)

lemma reparent_fd: "reparent i s = Inr t \<Longrightarrow> fd_le s t"
  unfolding reparent_def by (rule foldres_fd_le) (auto split: if_splits dest: wakeup_fd)

section \<open>Allocation of processes\<close>

text \<open>From \<open>s\<close> to \<open>t\<close> only slot \<open>i\<close> changes, and its descriptors do not.\<close>

definition slot_only :: "nat \<Rightarrow> 'z kst_scheme \<Rightarrow> 'z kst_scheme \<Rightarrow> bool" where
  "slot_only i s t \<longleftrightarrow> map ofile (procs t) = map ofile (procs s) \<and> cur t = cur s \<and>
     (\<forall>j. j \<noteq> i \<longrightarrow> state (procs t ! j) = state (procs s ! j))"

lemma slot_only_upd: "(\<And>p. ofile (f p) = ofile p) \<Longrightarrow> slot_only i s t \<Longrightarrow> slot_only i s (proc_upd i f t)"
  by (simp add: slot_only_def map_upd_same)

lemma slot_only_more: "slot_only i s t \<Longrightarrow> km.more u = km.more t \<Longrightarrow> slot_only i s u"
  by (auto simp: slot_only_def dest: more_kst)

lemma slot_only_refl: "slot_only i s s"
  by (simp add: slot_only_def)

lemma slot_only_fd_le: "slot_only i s t \<Longrightarrow> (dead (procs t ! i) \<Longrightarrow> dead (procs s ! i)) \<Longrightarrow> fd_le s t"
  unfolding slot_only_def fd_le_def dead_def by metis

lemma proc_pagetable_more: "proc_pagetable tr i s = Some (Inr (pt, t)) \<Longrightarrow> km.more t = km.more s"
  by (auto simp: proc_pagetable_def res_simps Let_def split: if_splits prod.splits
      dest!: uvmcreate_more mappages_more uvmunmap_more uvmfree_more)

lemma freeproc_slot:
  assumes "freeproc i s = Some (Inr t)" and "slot_only i s0 s"
  shows "slot_only i s0 t" "i < length (procs s) \<Longrightarrow> state (procs t ! i) = UNUSED"
proof -
  obtain s1 s3 where s1: "km.more s1 = km.more s"
    and s3: "km.more s3 = km.more (proc_upd i (\<lambda>p. p\<lparr>trapframe := 0\<rparr>) s1)"
    and t: "t = proc_upd i (\<lambda>p. p\<lparr>pagetable := 0, sz := 0, pid := 0, parent := None, pname := (pname p)[0 := 0],
       chan := ChNull, killed := 0, xstate := 0, state := UNUSED, nice := 0, runtime := 0, queue := 0,
       pass := DEFAULT_PASS\<rparr>) s3"
    using assms(1) unfolding freeproc_def Let_def
    by (auto simp: res_simps split: if_splits dest!: kfree_more proc_freepagetable_more)
  show "slot_only i s0 t"
    unfolding t by (intro slot_only_upd slot_only_more [OF _ s3] slot_only_more [OF _ s1] assms(2)) simp_all
  show "state (procs t ! i) = UNUSED" if "i < length (procs s)"
    using that more_kst [OF s1] more_kst [OF s3] unfolding t by simp
qed

lemma allocproc_fd:
  assumes "allocproc tr s = Some (Inr (r, t))" and len: "length (procs s) = NPROC"
  shows "fd_le s t" "r = Some i \<Longrightarrow> i < NPROC \<and> dead (procs s ! i) \<and> \<not> dead (procs t ! i)"
proof -
  have "fd_le s t \<and> (\<forall>i. r = Some i \<longrightarrow> i < NPROC \<and> dead (procs s ! i) \<and> \<not> dead (procs t ! i))"
  proof (cases "List.find (\<lambda>i. state (procs s ! i) = UNUSED) [0..<NPROC]")
    case None
    then show ?thesis using assms(1) by (simp add: allocproc_def)
  next
    case (Some k)
    then have k: "k < NPROC" "state (procs s ! k) = UNUSED" by (auto simp: find_Some_iff)
    have le: "slot_only k s u \<Longrightarrow> fd_le s u" for u
      by (erule slot_only_fd_le) (insert k(2), unfold dead_def, blast)
    define s2 where "s2 = proc_upd k (\<lambda>p. p\<lparr>pid := nextpid s, state := USED\<rparr>) (s\<lparr>nextpid := nextpid s + 1\<rparr>)"
    obtain tf s3 where s3: "kalloc s2 = (tf, s3)" by fastforce
    define s4 where "s4 = proc_upd k (\<lambda>p. p\<lparr>trapframe := tf\<rparr>) s3"
    have "slot_only k s s2" unfolding s2_def by (rule slot_only_upd) (simp_all add: slot_only_def)
    then have s4: "slot_only k s s4"
      unfolding s4_def by (intro slot_only_upd slot_only_more [OF _ kalloc_more [OF s3]]) simp
    have u4: "state (procs s4 ! k) = USED" "length (procs s4) = NPROC"
      using k len more_kst [OF kalloc_more [OF s3]] by (simp_all add: s4_def s2_def)
    have "slot_only k s t \<and> (r = None \<or> r = Some k \<and> state (procs t ! k) = USED)"
    proof (cases "tf = 0")
      case True
      then have "r = None \<and> freeproc k s4 = Some (Inr t)"
        using assms(1) Some s3 by (auto simp: allocproc_def allocpid_def res_simps s2_def s4_def split: if_splits)
      then show ?thesis using freeproc_slot(1) s4 by blast
    next
      case False
      then obtain pt s5 where s5: "proc_pagetable tr k s4 = Some (Inr (pt, s5))"
        and t: "if pt = 0 then r = None \<and> freeproc k (proc_upd k (\<lambda>p. p\<lparr>pagetable := pt\<rparr>) s5) = Some (Inr t)
          else r = Some k \<and> t = proc_upd k (\<lambda>p. p\<lparr>queue := priority p, pass := DEFAULT_PASS\<rparr>) (proc_upd k (\<lambda>p. p\<lparr>pagetable := pt\<rparr>) s5)"
        using assms(1) Some s3 by (auto simp: allocproc_def allocpid_def res_simps Let_def s2_def s4_def split: if_splits)
      have "slot_only k s (proc_upd k (\<lambda>p. p\<lparr>pagetable := pt\<rparr>) s5)"
        by (intro slot_only_upd slot_only_more [OF s4 proc_pagetable_more [OF s5]]) simp
      moreover have "procs s5 = procs s4" using more_kst [OF proc_pagetable_more [OF s5]] by simp
      ultimately show ?thesis using t freeproc_slot(1) u4 k by (auto intro: slot_only_upd split: if_splits)
    qed
    then show ?thesis using le k by (auto simp: slot_only_def dead_def)
  qed
  then show "fd_le s t" "r = Some i \<Longrightarrow> i < NPROC \<and> dead (procs s ! i) \<and> \<not> dead (procs t ! i)" by auto
qed

section \<open>Pipes, console and devices\<close>

lemma fd_le_pst [simp]:
  "fd_le (pipe_upd pi f s) t = fd_le s t" "fd_le s (pipe_upd pi f t) = fd_le s t"
  by (simp_all add: fd_le_def pipe_upd_def)

lemma fd_le_cst [simp]:
  "fd_le (s\<lparr>cons := c\<rparr>) t = fd_le s t" "fd_le s (t\<lparr>cons := c\<rparr>) = fd_le s t"
  "fd_le (s\<lparr>tx := x\<rparr>) t = fd_le s t" "fd_le s (t\<lparr>tx := x\<rparr>) = fd_le s t"
  "fd_le (s\<lparr>lsr := b\<rparr>) t = fd_le s t" "fd_le s (t\<lparr>lsr := b\<rparr>) = fd_le s t"
  "fd_le (s\<lparr>rx := d\<rparr>) t = fd_le s t" "fd_le s (t\<lparr>rx := d\<rparr>) = fd_le s t"
  "fd_le (write_thr h s) t = fd_le s t" "fd_le s (write_thr h t) = fd_le s t"
  "fd_le (consputc n s) t = fd_le s t" "fd_le s (consputc n t) = fd_le s t"
  by (simp_all add: fd_le_def write_thr_def consputc_def uartputc_sync_def)

lemma pipeclose_fd: "pipeclose pi w s = Inr t \<Longrightarrow> fd_le s t"
  by (auto simp: pipeclose_def res_simps split: if_splits dest!: wakeup_fd fd_mem intro: fd_le_trans)

lemma pipewrite_fd: "pipewrite pi addr n s = Inr (r, t) \<Longrightarrow> fd_le s t"
proof -
  have "pipewrite_loop pi addr n i s = Inr (r, t) \<Longrightarrow> fd_le s t" for i
  proof (induction "nat (n - i)" arbitrary: i s rule: less_induct)
    case less
    note IH = less.hyps
    from less.prems show ?case
      by (subst (asm) pipewrite_loop.simps)
         (auto simp: res_simps split: if_splits dest!: wakeup_fd sleep_fd IH [rotated] intro: fd_le_trans)
  qed
  then show "pipewrite pi addr n s = Inr (r, t) \<Longrightarrow> fd_le s t" by (simp add: pipewrite_def)
qed

lemma piperead_fd: "piperead pi addr n s = Inr (r, t) \<Longrightarrow> fd_le s t"
proof -
  have loop: "piperead_loop pi pt addr n i s = Inr (v, u) \<Longrightarrow> fd_le s u" for pt i v s u
  proof (induction "nat (n - i)" arbitrary: i s rule: less_induct)
    case less
    note IH = less.hyps
    from less.prems show ?case
      by (subst (asm) piperead_loop.simps)
         (auto simp: res_simps Let_def split: if_splits prod.splits dest!: fd_mem IH [rotated] intro: fd_le_trans)
  qed
  show "piperead pi addr n s = Inr (r, t) \<Longrightarrow> fd_le s t"
    by (auto simp: piperead_def res_simps split: if_splits dest!: loop wakeup_fd sleep_fd intro: fd_le_trans)
qed

lemma uartstart_fd: "uartstart s = Inr t \<Longrightarrow> fd_le s t"
proof -
  have "uartstart_loop n s = Inr t \<Longrightarrow> fd_le s t" for n
  proof (induction n arbitrary: s)
    case (Suc n)
    then show ?case
      by (auto simp: res_simps Let_def read_lsr_idle_def split: if_splits prod.splits list.splits
          dest!: Suc.IH wakeup_fd intro: fd_le_trans)
  qed simp
  then show "uartstart s = Inr t \<Longrightarrow> fd_le s t" by (simp add: uartstart_def)
qed

lemma uartputc_fd: "uartputc c s = Inr (r, t) \<Longrightarrow> fd_le s t"
  by (auto simp: uartputc_def res_simps split: if_splits dest!: sleep_fd uartstart_fd)

lemma consolewrite_fd: "consolewrite u src n s = Inr (r, c, t) \<Longrightarrow> fd_le s t"
proof -
  have "consolewrite_loop u src n i s = Inr (r, c, t) \<Longrightarrow> fd_le s t" for i
  proof (induction "nat (n - i)" arbitrary: i s rule: less_induct)
    case less
    note IH = less.hyps
    from less.prems show ?case
      by (subst (asm) consolewrite_loop.simps)
         (auto simp: res_simps split: if_splits dest!: uartputc_fd IH [rotated] intro: fd_le_trans)
  qed
  then show "consolewrite u src n s = Inr (r, c, t) \<Longrightarrow> fd_le s t" by (simp add: consolewrite_def)
qed

lemma consoleread_fd: "consoleread u dst n s = Inr (r, t) \<Longrightarrow> fd_le s t"
proof -
  have "consoleread_loop u dst tgt k s = Inr (r, t) \<Longrightarrow> fd_le s t" for tgt k
  proof (induction "nat k" arbitrary: dst k s rule: less_induct)
    case less
    note IH = less.hyps
    from less.prems show ?case
      by (subst (asm) consoleread_loop.simps)
         (auto simp: res_simps Let_def split: if_splits dest!: sleep_fd either_copyout_fd IH [rotated] intro: fd_le_trans)
  qed
  then show "consoleread u dst n s = Inr (r, t) \<Longrightarrow> fd_le s t" by (simp add: consoleread_def)
qed

lemma kill_line_fd [simp]: "fd_le s (kill_line n t) = fd_le s t"
  by (induction n arbitrary: t) simp_all

lemma consoleintr_fd: "consoleintr c s = Inr t \<Longrightarrow> fd_le s t"
  by (auto simp: consoleintr_def Let_def split: if_splits dest!: wakeup_fd)

lemma uartintr_fd: "uartintr s = Inr t \<Longrightarrow> fd_le s t"
proof -
  have "uartintr_loop n s = Inr u \<Longrightarrow> fd_le s u" for n s u
  proof (induction n arbitrary: s)
    case (Suc n)
    then show ?case
      by (auto simp: res_simps Let_def uartgetc_def split: if_splits prod.splits list.splits
          dest!: Suc.IH consoleintr_fd intro: fd_le_trans)
  qed simp
  then show "uartintr s = Inr t \<Longrightarrow> fd_le s t"
    by (auto simp: uartintr_def res_simps dest!: uartstart_fd intro: fd_le_trans)
qed

lemma devintr_fd: "devintr sc irq hart s = Inr (r, t) \<Longrightarrow> fd_le s t"
  by (auto simp: devintr_def res_simps split: if_splits dest!: uartintr_fd clockintr_fd)

end
