(* ===== verification/FileRefs.thy ===== *)
theory FileRefs
  imports Frame
begin

text \<open>
  The reference counts of open files. The counter of every entry of the file table is the number of
  descriptors, over all processes, that point to it; dead processes hold none. Every trap from user
  space keeps this invariant: every system call, exit by \<^verbatim>\<open>kill\<close>, and the device interrupts.
\<close>

section \<open>The invariant\<close>

definition holders :: "'z kst_scheme \<Rightarrow> nat \<Rightarrow> (nat \<times> nat) set" where
  "holders k f = {(i, fd). i < NPROC \<and> fd < NOFILE \<and> ofile (procs k ! i) ! fd = Some f}"

definition no_files :: "proc \<Rightarrow> bool" where
  "no_files p \<longleftrightarrow> (\<forall>fd<NOFILE. ofile p ! fd = None)"

text \<open>
  \<open>d f\<close> is how many references to \<open>f\<close> the running kernel code owns beyond the descriptors (negative
  when it has given up the reference of a descriptor it has not cleared yet).
\<close>

definition fd_inv :: "(nat \<Rightarrow> int) \<Rightarrow> sys \<Rightarrow> bool" where
  "fd_inv d s \<longleftrightarrow>
     length (files s) = NFILE \<and> length (procs (ks s)) = NPROC \<and>
     (\<forall>i<NPROC. length (ofile (procs (ks s) ! i)) = NOFILE \<and> (dead (procs (ks s) ! i) \<longrightarrow> no_files (procs (ks s) ! i))) \<and>
     (\<forall>f. holders (ks s) f \<noteq> {} \<longrightarrow> f < NFILE) \<and>
     (\<forall>f<NFILE. fref (files s ! f) = int (card (holders (ks s) f)) + d f) \<and>
     (\<forall>i. cur (ks s) = Some i \<longrightarrow> i < NPROC \<and> \<not> dead (procs (ks s) ! i))"

definition inc :: "nat \<Rightarrow> (nat \<Rightarrow> int) \<Rightarrow> nat \<Rightarrow> int" where
  "inc f d g = d g + (if g = f then 1 else 0)"

definition dec :: "nat \<Rightarrow> (nat \<Rightarrow> int) \<Rightarrow> nat \<Rightarrow> int" where
  "dec f d g = d g - (if g = f then 1 else 0)"

lemma inc_dec [simp]: "dec f (inc f d) = d" "dec f (dec g (inc f d)) = dec g d" "inc f (dec f d) = d" "dec f (inc g (inc f d)) = inc g d"
  by (auto simp: inc_def dec_def)

lemma fd_invD:
  assumes "fd_inv d s"
  shows "length (files s) = NFILE" "length (procs (ks s)) = NPROC"
    "i < NPROC \<Longrightarrow> length (ofile (procs (ks s) ! i)) = NOFILE"
    "i < NPROC \<Longrightarrow> dead (procs (ks s) ! i) \<Longrightarrow> no_files (procs (ks s) ! i)"
    "f < NFILE \<Longrightarrow> fref (files s ! f) = int (card (holders (ks s) f)) + d f"
    "cur (ks s) = Some i \<Longrightarrow> i < NPROC \<and> \<not> dead (procs (ks s) ! i)"
    "i < NPROC \<Longrightarrow> fd < NOFILE \<Longrightarrow> ofile (procs (ks s) ! i) ! fd = Some f \<Longrightarrow> f < NFILE"
  using assms unfolding fd_inv_def holders_def by (blast | fast)+

lemma finite_holders [simp]: "finite (holders k f)"
  by (rule finite_subset [of _ "{..<NPROC} \<times> {..<NOFILE}"]) (auto simp: holders_def)

section \<open>What leaves descriptors and counters alone\<close>

definition sys_le :: "sys \<Rightarrow> sys \<Rightarrow> bool" where
  "sys_le s t \<longleftrightarrow> fd_le (ks s) (ks t) \<and> map fref (files t) = map fref (files s)"

lemma sys_le_refl [simp, intro]: "sys_le s s"
  by (simp add: sys_le_def)

lemma sys_le_trans: "sys_le s t \<Longrightarrow> sys_le t u \<Longrightarrow> sys_le s u"
  by (auto simp: sys_le_def intro: fd_le_trans)

lemma sys_le_ks: "fd_le (ks s) k \<Longrightarrow> sys_le s (s\<lparr>ks := k\<rparr>)"
  by (simp add: sys_le_def)

lemma sys_le_files [simp]:
  "sys_le (s\<lparr>ks := k\<rparr>) t = (fd_le k (ks t) \<and> map fref (files t) = map fref (files s))"
  "sys_le s (t\<lparr>ks := k\<rparr>) = (fd_le (ks s) k \<and> map fref (files t) = map fref (files s))"
  by (simp_all add: sys_le_def)

lemma file_upd_le [simp]: "(\<And>x. fref (g x) = fref x) \<Longrightarrow> sys_le s (file_upd i g t) = sys_le s t"
  by (simp add: sys_le_def file_upd_def map_upd_same)

lemma map_nth_eq: "map f xs = map f ys \<Longrightarrow> i < length xs \<Longrightarrow> f (xs ! i) = f (ys ! i)"
  by (metis length_map nth_map)

lemma holders_cong:
  assumes "map ofile (procs t) = map ofile (procs s)" and "length (procs s) = NPROC"
  shows "holders t f = holders s f"
  using map_nth_eq [OF assms(1)] map_eq_imp_length_eq [OF assms(1)] assms(2) by (auto simp: holders_def)

lemma fd_inv_le:
  assumes inv: "fd_inv d s" and le: "sys_le s t"
  shows "fd_inv d t"
proof -
  note I = fd_invD [OF inv]
  have o: "map ofile (procs (ks t)) = map ofile (procs (ks s))" and fr: "map fref (files t) = map fref (files s)"
    and dd: "\<And>j. dead (procs (ks t) ! j) \<Longrightarrow> dead (procs (ks s) ! j)"
    and c: "cur (ks t) = cur (ks s) \<or> cur (ks t) = None"
    using le by (auto simp: sys_le_def fd_le_def)
  have len: "length (procs (ks t)) = NPROC" "length (files t) = NFILE"
    using map_eq_imp_length_eq [OF o] map_eq_imp_length_eq [OF fr] I(1,2) by auto
  have oe: "i < NPROC \<Longrightarrow> ofile (procs (ks t) ! i) = ofile (procs (ks s) ! i)" for i
    using map_nth_eq [OF o] len by simp
  have fe: "f < NFILE \<Longrightarrow> fref (files t ! f) = fref (files s ! f)" for f
    using map_nth_eq [OF fr] len by simp
  have h: "holders (ks t) f = holders (ks s) f" for f using holders_cong [OF o I(2)] .
  have nf: "i < NPROC \<Longrightarrow> no_files (procs (ks t) ! i) = no_files (procs (ks s) ! i)" for i
    using oe by (simp add: no_files_def)
  show ?thesis
    using inv c dd unfolding fd_inv_def by (auto simp: h fe oe nf len)
qed

section \<open>Changes of descriptors and counters\<close>

text \<open>One slot changes while its process holds no files.\<close>

lemma fd_inv_slot:
  assumes inv: "fd_inv d s" and so: "slot_only i (ks s) k" and nf: "no_files (procs (ks s) ! i)"
    and c: "c = None \<or> c = cur (ks s) \<and> c \<noteq> Some i"
  shows "fd_inv d (s\<lparr>ks := k\<lparr>cur := c\<rparr>\<rparr>)"
proof -
  note I = fd_invD [OF inv]
  have o: "map ofile (procs k) = map ofile (procs (ks s))" and st: "\<And>j. j \<noteq> i \<Longrightarrow> state (procs k ! j) = state (procs (ks s) ! j)"
    using so by (auto simp: slot_only_def)
  have len: "length (procs k) = NPROC" using map_eq_imp_length_eq [OF o] I(2) by auto
  have oe: "j < NPROC \<Longrightarrow> ofile (procs k ! j) = ofile (procs (ks s) ! j)" for j
    using map_nth_eq [OF o] len by simp
  have h: "holders (k\<lparr>cur := c\<rparr>) f = holders (ks s) f" for f using holders_cong [OF o I(2)] by (simp add: holders_def)
  have nfe: "j < NPROC \<Longrightarrow> no_files (procs k ! j) = no_files (procs (ks s) ! j)" for j
    using oe by (simp add: no_files_def)
  have dd: "j \<noteq> i \<Longrightarrow> dead (procs k ! j) = dead (procs (ks s) ! j)" for j using st by (simp add: dead_def)
  have "dead (procs k ! j) \<Longrightarrow> j < NPROC \<Longrightarrow> no_files (procs (ks s) ! j)" for j
    using I(4) [of j] dd nf by (cases "j = i") auto
  then show ?thesis
    using inv c dd unfolding fd_inv_def by (auto simp: h oe nfe len)
qed

lemma holders_set:
  assumes "i < NPROC" "fd < NOFILE" "length (procs k) = NPROC" "length (ofile (procs k ! i)) = NOFILE"
  shows "holders (set_ofile i fd v k) f = (if v = Some f then insert (i, fd) else id) (holders k f - {(i, fd)})"
  using assms by (auto simp: holders_def set_ofile_def nth_list_update split: if_splits)

lemma fd_inv_set:
  assumes inv: "fd_inv d s" and i: "i < NPROC" and fd: "fd < NOFILE" and alive: "\<not> dead (procs (ks s) ! i) \<or> v = None"
    and v: "\<And>f. v = Some f \<Longrightarrow> f < NFILE"
  defines "old \<equiv> ofile (procs (ks s) ! i) ! fd"
  shows "fd_inv (\<lambda>f. d f + of_bool (old = Some f) - of_bool (v = Some f)) (s\<lparr>ks := set_ofile i fd v (ks s)\<rparr>)"
proof -
  note I = fd_invD [OF inv]
  note H = holders_set [OF i fd I(2) I(3) [OF i]]
  have card: "int (card (holders (set_ofile i fd v (ks s)) f)) =
      int (card (holders (ks s) f)) - of_bool (old = Some f) + of_bool (v = Some f)" for f
  proof -
    have mem: "(i, fd) \<in> holders (ks s) f \<longleftrightarrow> old = Some f" using i fd by (simp add: holders_def old_def)
    have "int (card (holders (ks s) f - {(i, fd)})) = int (card (holders (ks s) f)) - of_bool (old = Some f)"
      using mem card_Suc_Diff1 [OF finite_holders, of "(i, fd)" "ks s" f] by (cases "old = Some f") auto
    then show ?thesis unfolding H by (simp add: card_insert_disjoint del: insert_Diff_single)
  qed
  have pr: "procs (set_ofile i fd v (ks s)) ! j =
      (if j = i then (procs (ks s) ! i)\<lparr>ofile := (ofile (procs (ks s) ! i))[fd := v]\<rparr> else procs (ks s) ! j)" for j
    using i I(2) by (simp add: set_ofile_def)
  have dd: "dead (procs (set_ofile i fd v (ks s)) ! j) = dead (procs (ks s) ! j)" for j
    by (simp add: pr dead_def)
  have nf: "dead (procs (ks s) ! j) \<Longrightarrow> j < NPROC \<Longrightarrow> no_files (procs (set_ofile i fd v (ks s)) ! j)" for j
    using I(3,4) [of j] alive fd by (auto simp: pr no_files_def nth_list_update)
  have ln: "j < NPROC \<Longrightarrow> length (ofile (procs (set_ofile i fd v (ks s)) ! j)) = NOFILE" for j
    using I(3) by (simp add: pr)
  have nz: "holders (set_ofile i fd v (ks s)) f \<noteq> {} \<Longrightarrow> f < NFILE" for f
    using inv v unfolding H fd_inv_def by (auto split: if_splits)
  show ?thesis
    using inv unfolding fd_inv_def by (auto simp: dd nf ln nz card) (simp_all add: set_ofile_def)
qed

section \<open>Operations on open files\<close>

lemma fd_inv_count:
  assumes inv: "fd_inv d s" and f: "f < NFILE" and d': "\<And>g. d' g = d g + (if g = f then n - fref (files s ! f) else 0)"
  shows "fd_inv d' (s\<lparr>files := (files s)[f := (files s ! f)\<lparr>fref := n\<rparr>]\<rparr>)"
  using inv f unfolding fd_inv_def by (auto simp: nth_list_update d')

lemma filealloc_inv:
  assumes "filealloc s = (r, t)" and inv: "fd_inv d s"
  shows "ks t = ks s" "r = None \<Longrightarrow> t = s" "r = Some f \<Longrightarrow> f < NFILE \<and> fd_inv (inc f d) t"
proof -
  show "ks t = ks s" using assms(1) by (auto simp: filealloc_def file_upd_def split: option.splits)
  show "r = None \<Longrightarrow> t = s" using assms(1) by (auto simp: filealloc_def split: option.splits)
  assume "r = Some f"
  then have "f < NFILE" "fref (files s ! f) = 0" "t = s\<lparr>files := (files s)[f := (files s ! f)\<lparr>fref := 1\<rparr>]\<rparr>"
    using assms(1) by (auto simp: filealloc_def file_upd_def find_Some_iff split: option.splits)
  then show "f < NFILE \<and> fd_inv (inc f d) t" using fd_inv_count [OF inv, of f "inc f d" 1] by (auto simp: inc_def)
qed

lemma filedup_inv:
  assumes "filedup f s = Inr t" and inv: "fd_inv d s" and f: "f < NFILE"
  shows "ks t = ks s" "fd_inv (inc f d) t"
proof -
  have t: "t = s\<lparr>files := (files s)[f := (files s ! f)\<lparr>fref := fref (files s ! f) + 1\<rparr>]\<rparr>"
    using assms(1) by (auto simp: filedup_def file_upd_def split: if_splits)
  show "ks t = ks s" by (simp add: t)
  show "fd_inv (inc f d) t" unfolding t by (rule fd_inv_count [OF inv f]) (simp add: inc_def)
qed

lemma fs_exec_le:
  assumes "fs_exec op s = Inr (r, t)" and op: "\<And>f k r f' k'. op f k = Inr (r, f', k') \<Longrightarrow> fd_le k k'"
  shows "sys_le s t" "files t = files s"
proof -
  have wk: "foldres wakeup cs k = Inr k' \<Longrightarrow> fd_le k k'" for cs and k k' :: cst
    by (rule foldres_fd_le [OF wakeup_fd])
  show "sys_le s t" "files t = files s"
    using assms(1) by (auto simp: fs_exec_def res_simps sys_le_def dest!: op wk intro: fd_le_trans)
qed

lemma fs_run_le: "fs_run op s = Inr (r, t) \<Longrightarrow> sys_le s t \<and> files t = files s"
  unfolding fs_run_def by (intro conjI fs_exec_le) (auto simp: res_simps)

lemma fs_do_le: "fs_do op s = Inr t \<Longrightarrow> sys_le s t \<and> files t = files s"
  by (auto simp: fs_do_def res_simps dest: fs_run_le)

lemma fileclose_inv:
  assumes cl: "fileclose f s = Inr t" and inv: "fd_inv d s" and f: "f < NFILE"
  shows "fd_inv (dec f d) t" "fd_le (ks s) (ks t)"
proof -
  define s1 where "s1 = file_upd f (\<lambda>x. x\<lparr>fref := fref x - 1\<rparr>) s"
  have s1: "fd_inv (dec f d) s1"
    unfolding s1_def file_upd_def by (rule fd_inv_count [OF inv f]) (simp add: dec_def)
  have len: "f < length (files s1)" using fd_invD(1) [OF s1] f by simp
  have "sys_le s1 t"
  proof (cases "fref (files s1 ! f) > 0")
    case True
    then show ?thesis using cl by (auto simp: fileclose_def s1_def [symmetric] Let_def split: if_splits)
  next
    case False
    define s2 where "s2 = file_upd f (\<lambda>x. x\<lparr>fref := 0, ftype := FD_NONE\<rparr>) s1"
    have z: "fref (files s1 ! f) = 0"
      using False cl len by (auto simp: fileclose_def s1_def file_upd_def split: if_splits)
    then have s2: "sys_le s1 s2"
      unfolding s2_def sys_le_def file_upd_def by (simp add: map_upd_same [where g = "\<lambda>x. x\<lparr>fref := 0, ftype := FD_NONE\<rparr>"])
    have "sys_le s2 t"
      using cl False unfolding fileclose_def s1_def [symmetric] Let_def s2_def [symmetric]
      by (auto simp: res_simps split: if_splits filetype.splits dest!: pipeclose_fd fs_do_le)
    then show ?thesis using s2 by (rule sys_le_trans [rotated])
  qed
  then show "fd_inv (dec f d) t" "fd_le (ks s) (ks t)"
    using fd_inv_le [OF s1] by (auto simp: sys_le_def s1_def file_upd_def)
qed

section \<open>System calls on descriptors\<close>

lemma argfd_Some:
  assumes "argfd n k = Inr (Some (fd, f))"
  obtains i where "cur k = Some i" "fd < NOFILE" "ofile (procs k ! i) ! fd = Some f"
  using assms by (auto simp: argfd_def res_simps myproc_def split: if_splits option.splits)

lemma fdalloc_inv:
  assumes "fdalloc f (ks s) = Inr (fd, k)" and inv: "fd_inv d s" and f: "f < NFILE"
  obtains "fd < 0" "k = ks s"
  | i n where "fd = int n" "n < NOFILE" "cur (ks s) = Some i" "i < NPROC" "ofile (procs (ks s) ! i) ! n = None"
      "k = set_ofile i n (Some f) (ks s)" "fd_inv (dec f d) (s\<lparr>ks := k\<rparr>)"
proof -
  obtain i where i: "cur (ks s) = Some i" using assms(1) by (auto simp: fdalloc_def myproc_def split: option.splits)
  note A = fd_invD(6) [OF inv i]
  show thesis
  proof (cases "List.find (\<lambda>fd. ofile (procs (ks s) ! i) ! fd = None) [0..<NOFILE]")
    case None
    then show ?thesis using assms(1) i by (intro that(1)) (auto simp: fdalloc_def myproc_def)
  next
    case (Some n)
    then have n: "n < NOFILE" "ofile (procs (ks s) ! i) ! n = None" by (auto simp: find_Some_iff)
    have k: "fd = int n" "k = set_ofile i n (Some f) (ks s)" using assms(1) i Some by (auto simp: fdalloc_def myproc_def)
    have "fd_inv (dec f d) (s\<lparr>ks := k\<rparr>)"
      using fd_inv_set [OF inv conjunct1 [OF A] n(1), of "Some f"] A f n(2) k by (simp add: dec_def [abs_def] of_bool_def eq_commute)
    then show ?thesis using that(2) n i A k by blast
  qed
qed

lemma sys_dup_inv:
  assumes "sys_dup s = Inr (r, t)" and inv: "fd_inv d s"
  shows "fd_inv d t"
proof -
  obtain a where a: "argfd 0 (ks s) = Inr a" using assms(1) by (auto simp: sys_dup_def res_simps)
  show ?thesis
  proof (cases a)
    case None
    then show ?thesis using assms a by (auto simp: sys_dup_def)
  next
    case (Some p)
    then obtain fd0 f where ff: "argfd 0 (ks s) = Inr (Some (fd0, f))" using a by (cases p) auto
    then have f: "f < NFILE" using fd_invD(6,7) [OF inv] by (metis argfd_Some)
    obtain fd k where fa: "fdalloc f (ks s) = Inr (fd, k)" and
      r: "if fd < 0 then t = s\<lparr>ks := k\<rparr> else filedup f (s\<lparr>ks := k\<rparr>) = Inr t"
      using assms(1) ff by (auto simp: sys_dup_def res_simps split: if_splits)
    from fa inv f show ?thesis
    proof (cases rule: fdalloc_inv)
      case 1
      then show ?thesis using r inv by simp
    next
      case (2 i n)
      then show ?thesis using r filedup_inv(2) [of f _ t, OF _ 2(7) f] by simp
    qed
  qed
qed

lemma fd_inv_clear:
  assumes inv: "fd_inv d s" and "i < NPROC" "fd < NOFILE" "ofile (procs (ks s) ! i) ! fd = Some f"
  shows "fd_inv (inc f d) (s\<lparr>ks := set_ofile i fd None (ks s)\<rparr>)"
  using fd_inv_set [OF inv assms(2,3), of None] assms(4) by (simp add: inc_def [abs_def] of_bool_def eq_commute)

lemma sys_close_inv:
  assumes "sys_close s = Inr (r, t)" and inv: "fd_inv d s"
  shows "fd_inv d t"
proof (cases "argfd 0 (ks s) = Inr None")
  case True
  then show ?thesis using assms by (auto simp: sys_close_def)
next
  case False
  then obtain fd f i where ff: "argfd 0 (ks s) = Inr (Some (fd, f))" "myproc (ks s) = Inr i"
    and cl: "fileclose f (s\<lparr>ks := set_ofile i fd None (ks s)\<rparr>) = Inr t"
    using assms(1) by (fastforce simp: sys_close_def res_simps split: option.splits)
  from ff(1) obtain j where j: "cur (ks s) = Some j" "fd < NOFILE" "ofile (procs (ks s) ! j) ! fd = Some f"
    by (rule argfd_Some)
  then have j': "j = i" "i < NPROC" using ff(2) fd_invD(6) [OF inv] by (auto simp: myproc_def)
  then have f: "f < NFILE" using fd_invD(7) [OF inv _ j(2,3)] by simp
  show ?thesis using fileclose_inv(1) [OF cl fd_inv_clear [OF inv] f] j j' by simp
qed

lemma fd_inv_ks: "fd_inv d s \<Longrightarrow> fd_le (ks s) k \<Longrightarrow> fd_inv d (s\<lparr>ks := k\<rparr>)"
  by (rule fd_inv_le) simp_all

lemma open_fail_inv:
  assumes "open_fail fo ip s = Inr (r, t)" and inv: "fd_inv d s" and f: "\<And>f. fo = Some f \<Longrightarrow> f < NFILE"
  shows "fd_inv (case fo of None \<Rightarrow> d | Some f \<Rightarrow> dec f d) t"
  using assms(1) inv f
  by (cases fo) (auto simp: open_fail_def res_simps dest!: fs_do_le intro: fd_inv_le fd_inv_le [OF fileclose_inv(1)])

lemma fs_do_upd_le: "fs_do op (file_upd f g u) = Inr t \<Longrightarrow> (\<And>x. fref (g x) = fref x) \<Longrightarrow> sys_le s u \<Longrightarrow> sys_le s t"
  using fs_do_le sys_le_trans file_upd_le by blast

lemma sys_open_inv:
  assumes "sys_open s = Inr (r, t)" and inv: "fd_inv d s"
  shows "fd_inv d t"
proof -
  obtain i p where ip: "myproc (ks s) = Inr i" "argstr 0 MAXPATH (ks s) = Inr p"
    using assms(1) by (auto simp: sys_open_def res_simps)
  show ?thesis
  proof (cases p)
    case None
    then show ?thesis using assms ip by (simp add: sys_open_def)
  next
    case (Some path)
    then obtain om ipo s1 where s1: "argint 1 (ks s) = Inr om"
      "fs_run (open_fs path om (cwd (procs (ks s) ! i))) s = Inr (ipo, s1)"
      using assms(1) ip by (auto simp: sys_open_def res_simps)
    then have inv1: "fd_inv d s1" using fd_inv_le [OF inv] fs_run_le [OF s1(2)] by simp
    show ?thesis
    proof (cases ipo)
      case None
      then show ?thesis using assms(1) ip s1 Some inv1 by (simp add: sys_open_def)
    next
      case ino: (Some ip)
      obtain fo s2 where fo: "filealloc s1 = (fo, s2)" by fastforce
      note A = filealloc_inv [OF fo inv1]
      show ?thesis
      proof (cases fo)
        case None
        then show ?thesis
          using assms(1) ip s1 Some ino fo A(2) inv1 open_fail_inv [of None] by (auto simp: sys_open_def ip)
      next
        case fS: (Some f)
        then have f: "f < NFILE" and inv2: "fd_inv (inc f d) s2" using A(3) by auto
        obtain fd k where fa: "fdalloc f (ks s2) = Inr (fd, k)"
          using assms(1) ip s1 Some ino fo fS by (auto simp: sys_open_def res_simps)
        from fa inv2 f show ?thesis
        proof (cases rule: fdalloc_inv)
          case 1
          then have "open_fail (Some f) ip s2 = Inr (r, t)"
            using assms(1) ip s1 Some ino fo fS fa by (simp add: sys_open_def)
          from open_fail_inv [OF this inv2] f show ?thesis by simp
        next
          case (2 i n)
          have "sys_le (s2\<lparr>ks := k\<rparr>) t"
            using assms(1) ip s1 Some ino fo fS fa 2(1)
            by (simp only: sys_open_def bnd_Inr case_prod_conv option.case Let_def bnd_eq_Inr)
               (clarsimp simp only: of_nat_less_0_iff if_False bnd_eq_Inr Inr_inject prod.inject,
                 erule fs_do_upd_le, simp, simp del: sys_le_files)
          then show ?thesis using fd_inv_le [OF 2(7)] by simp
        qed
      qed
    qed
  qed
qed

end
