(* ===== verification/Descriptors.thy ===== *)
theory Descriptors
  imports FileRefs
begin

text \<open>
  The reference counts of open files, second half: pipes, \<^verbatim>\<open>fork\<close>, \<^verbatim>\<open>exit\<close>, \<^verbatim>\<open>wait\<close>,
  \<^verbatim>\<open>exec\<close>, the dispatcher and the trap handler.
\<close>

section \<open>pipe\<close>

lemma pipealloc_bad_inv:
  assumes "pipealloc_bad f0 f1 s = Inr (r, t)" and inv: "fd_inv (case f1 of None \<Rightarrow> d | Some f \<Rightarrow> inc f d) s"
    and f0: "\<And>f. f0 = Some f \<Longrightarrow> f < NFILE" and f1: "\<And>f. f1 = Some f \<Longrightarrow> f < NFILE"
  shows "r = None \<and> fd_inv (case f0 of None \<Rightarrow> d | Some f \<Rightarrow> dec f d) t"
  using assms by (auto simp: pipealloc_bad_def res_simps split: option.splits dest!: fileclose_inv(1))

lemma pipealloc_inv:
  assumes p: "pipealloc s = Inr (r, t)" and inv: "fd_inv d s"
  shows "fd_inv (case r of None \<Rightarrow> d | Some (a, b) \<Rightarrow> inc b (inc a d)) t"
    "r = Some (a, b) \<Longrightarrow> a < NFILE \<and> b < NFILE" "fd_le (ks s) (ks t)"
proof -
  obtain f0 s1 where s1: "filealloc s = (f0, s1)" by fastforce
  note A = filealloc_inv [OF s1 inv]
  have "fd_inv (case r of None \<Rightarrow> d | Some (a, b) \<Rightarrow> inc b (inc a d)) t \<and> (\<forall>a b. r = Some (a, b) \<longrightarrow> a < NFILE \<and> b < NFILE) \<and>
     fd_le (ks s) (ks t)"
  proof (cases f0)
    case None
    then show ?thesis using p s1 A inv by (simp add: pipealloc_def pipealloc_bad_def)
  next
    case (Some i0)
    obtain f1 s2 where s2: "filealloc s1 = (f1, s2)" by fastforce
    note A0 = A(3) [OF Some]
    note B = filealloc_inv [OF s2 conjunct2 [OF A0]]
    show ?thesis
    proof (cases f1)
      case None
      then have bad: "pipealloc_bad (Some i0) None s1 = Inr (r, t)" using p s1 s2 Some B by (simp add: pipealloc_def)
      then have "fd_le (ks s1) (ks t)" using fileclose_inv(2) [OF _ conjunct2 [OF A0]] A0
        by (auto simp: pipealloc_bad_def res_simps)
      then show ?thesis using pipealloc_bad_inv [OF bad, of "inc i0 d"] A0 A(1) by simp
    next
      case S1: (Some i1)
      note B1 = B(3) [OF S1]
      obtain pi k where k: "kalloc (ks s2) = (pi, k)" by fastforce
      have le: "fd_le (ks s2) k" using kalloc_more [OF k] by (rule more_fd_le)
      then have inv3: "fd_inv (inc i1 (inc i0 d)) (s2\<lparr>ks := k\<rparr>)" using B1 fd_inv_ks by blast
      show ?thesis
      proof (cases "pi = 0")
        case True
        then have bad: "pipealloc_bad (Some i0) (Some i1) (s2\<lparr>ks := k\<rparr>) = Inr (r, t)"
          using p s1 s2 Some S1 k by (simp add: pipealloc_def Let_def)
        then obtain u where u: "fileclose i0 (s2\<lparr>ks := k\<rparr>) = Inr u" "fileclose i1 u = Inr t" "r = None"
          by (auto simp: pipealloc_bad_def res_simps)
        note C = fileclose_inv [OF u(1) inv3 conjunct1 [OF A0]]
        note D = fileclose_inv [OF u(2) C(1) conjunct1 [OF B1]]
        have "dec i1 (dec i0 (inc i1 (inc i0 d))) = d" by (auto simp: inc_def dec_def)
        then show ?thesis using u(3) D C(2) le A(1) B(1) by (auto intro: fd_le_trans)
      next
        case False
        then have t: "r = Some (i0, i1)" "sys_le (s2\<lparr>ks := k\<rparr>) t"
          using p s1 s2 Some S1 k by (auto simp: pipealloc_def Let_def simp del: sys_le_files(1))
        then show ?thesis using fd_inv_le [OF inv3 t(2)] A0 B1 A(1) B(1) le
          by (auto simp: sys_le_def intro: fd_le_trans)
      qed
    qed
  qed
  then show "fd_inv (case r of None \<Rightarrow> d | Some (a, b) \<Rightarrow> inc b (inc a d)) t"
    "r = Some (a, b) \<Longrightarrow> a < NFILE \<and> b < NFILE" "fd_le (ks s) (ks t)" by auto
qed

lemma pipe_fail_inv:
  assumes "pipe_fail i fds a b s = Inr (r, t)" and "a < NFILE" "b < NFILE"
    and "fd_inv (inc b (inc a d)) (s\<lparr>ks := fold (\<lambda>fd. set_ofile i fd None) fds (ks s)\<rparr>)"
  shows "fd_inv d t"
  using assms by (auto simp: pipe_fail_def res_simps dest!: fileclose_inv(1))

lemma fd_le_ofile: "fd_le s t \<Longrightarrow> i < length (procs s) \<Longrightarrow> ofile (procs t ! i) = ofile (procs s ! i)"
  unfolding fd_le_def by (metis length_map nth_map)

lemma set_ofile_nth:
  assumes "i < length (procs k)" "fd < length (ofile (procs k ! i))"
  shows "ofile (procs (set_ofile i fd v k) ! i) ! n = (if n = fd then v else ofile (procs k ! i) ! n)"
  using assms by (simp add: set_ofile_def nth_list_update)

lemma fd_inv_clear2:
  assumes inv: "fd_inv d s" and i: "i < NPROC" and n: "n < NOFILE" "m < NOFILE" "n \<noteq> m"
    and o: "ofile (procs (ks s) ! i) ! n = Some a" "ofile (procs (ks s) ! i) ! m = Some b"
  shows "fd_inv (inc b (inc a d)) (s\<lparr>ks := fold (\<lambda>fd. set_ofile i fd None) [n, m] (ks s)\<rparr>)"
proof -
  note I = fd_invD [OF inv]
  have "ofile (procs (set_ofile i n None (ks s)) ! i) ! m = Some b"
    using set_ofile_nth [of i "ks s" n None m] I(2,3) i n o by auto
  then show ?thesis
    using fd_inv_clear [OF fd_inv_clear [OF inv i n(1) o(1)] i n(2), of b] by simp
qed

lemma sys_pipe_inv:
  assumes p: "sys_pipe s = Inr (r, t)" and inv: "fd_inv d s"
  shows "fd_inv d t"
proof -
  obtain i a q s1 where i: "myproc (ks s) = Inr i" and a: "argaddr 0 (ks s) = Inr a" and q: "pipealloc s = Inr (q, s1)"
    using p by (auto simp: sys_pipe_def res_simps)
  note A = pipealloc_inv [OF q inv]
  show ?thesis
  proof (cases q)
    case None
    then show ?thesis using p i a q A by (simp add: sys_pipe_def)
  next
    case (Some x)
    then obtain rf wf where x: "q = Some (rf, wf)" by (cases x) auto
    then have f: "rf < NFILE" "wf < NFILE" and inv1: "fd_inv (inc wf (inc rf d)) s1" using A by auto
    obtain fd0 k1 where k1: "fdalloc rf (ks s1) = Inr (fd0, k1)" using p i a q x by (auto simp: sys_pipe_def res_simps)
    from k1 inv1 f(1) show ?thesis
    proof (cases rule: fdalloc_inv)
      case 1
      then have "pipe_fail i [] rf wf s1 = Inr (r, t)" using p i a q x k1 by (simp add: sys_pipe_def)
      then show ?thesis using pipe_fail_inv f inv1 by simp
    next
      case (2 j n)
      have j: "j = i" using 2(3) A(3) i by (auto simp: fd_le_def myproc_def split: option.splits)
      have inv2: "fd_inv (inc wf d) (s1\<lparr>ks := k1\<rparr>)" using 2(7) by simp
      have len: "length (procs (ks s1)) = NPROC" "length (ofile (procs (ks s1) ! i)) = NOFILE"
        using fd_invD(2,3) [OF inv1] 2(4) j by auto
      have n: "ofile (procs k1 ! i) ! n = Some rf" using 2 j len by (simp add: set_ofile_nth)
      obtain fd1 k2 where k2: "fdalloc wf k1 = Inr (fd1, k2)"
        using p i a q x k1 2(1) by (auto simp: sys_pipe_def res_simps)
      then have "fdalloc wf (ks (s1\<lparr>ks := k1\<rparr>)) = Inr (fd1, k2)" by simp
      from this inv2 f(2) show ?thesis
      proof (cases rule: fdalloc_inv)
        case 11: 1
        then have "pipe_fail i [n] rf wf (s1\<lparr>ks := k1\<rparr>) = Inr (r, t)"
          using p i a q x k1 k2 2(1) by (simp add: sys_pipe_def)
        moreover have "fd_inv (inc wf (inc rf d)) (s1\<lparr>ks := set_ofile i n None k1\<rparr>)"
          using fd_inv_clear [OF inv2 _ 2(2), of i rf] n 2(4) j by (simp add: inc_def [abs_def] add_ac)
        ultimately show ?thesis using pipe_fail_inv [of i "[n]" rf wf _ r t d] f by simp
      next
        case 22: (2 j' m)
        have cur: "cur k1 = cur (ks s1)" using 2(6) by (simp add: set_ofile_def)
        have j': "j' = i" using 22(3) 2(3) j cur by simp
        have inv3: "fd_inv d (s1\<lparr>ks := k2\<rparr>)" using 22(7) by simp
        have nm: "n \<noteq> m" using n 22(5) j' by auto
        have i64: "i < NPROC" using 2(4) j by simp
        have len1: "length (procs k1) = NPROC" "length (ofile (procs k1 ! i)) = NOFILE"
          using fd_invD(2,3) [OF inv2] i64 by auto
        have o2: "ofile (procs k2 ! i) ! n = Some rf" "ofile (procs k2 ! i) ! m = Some wf"
          using 22(2,6) j' n nm len1 i64 by (simp_all add: set_ofile_nth)
        have fail: "fd_inv d t" if "pipe_fail i [n, m] rf wf (s1\<lparr>ks := k\<rparr>) = Inr (r, t)" "fd_le k2 k" for k
        proof -
          have "fd_inv d (s1\<lparr>ks := k\<rparr>)" using fd_inv_ks [OF inv3, of k] that(2) by simp
          moreover have "ofile (procs k ! i) = ofile (procs k2 ! i)"
            using fd_le_ofile [OF that(2)] fd_invD(2) [OF inv3] i64 by simp
          ultimately have "fd_inv (inc wf (inc rf d)) (s1\<lparr>ks := fold (\<lambda>fd. set_ofile i fd None) [n, m] k\<rparr>)"
            using fd_inv_clear2 [of d "s1\<lparr>ks := k\<rparr>" i n m rf wf] i64 2(2) 22(2) nm o2 by simp
          then show ?thesis using pipe_fail_inv [OF that(1) f] by simp
        qed
        define pt where "pt = pagetable (procs k2 ! i)"
        obtain r0 k3 where k3: "copyout_list pt a (le_bytes 4 n) k2 = Inr (r0, k3)"
          using p i a q x k1 k2 2(1) 22(1) by (auto simp: sys_pipe_def res_simps Let_def pt_def)
        have le3: "fd_le k2 k3" using more_fd_le [OF copyout_list_more, OF k3] .
        show ?thesis
        proof (cases "r0 < 0")
          case True
          then have "pipe_fail i [n, m] rf wf (s1\<lparr>ks := k3\<rparr>) = Inr (r, t)"
            using p i a q x k1 k2 2(1) 22(1) k3 by (simp add: sys_pipe_def Let_def pt_def)
          then show ?thesis using fail le3 by blast
        next
          case False
          then obtain r1 k4 where k4: "copyout_list pt ((a + 4) mod 2 ^ 64) (le_bytes 4 m) k3 = Inr (r1, k4)"
            and t: "if r1 < 0 then pipe_fail i [n, m] rf wf (s1\<lparr>ks := k4\<rparr>) = Inr (r, t) else t = s1\<lparr>ks := k4\<rparr>"
            using p i a q x k1 k2 2(1) 22(1) k3 by (auto simp: sys_pipe_def res_simps Let_def pt_def split: if_splits)
          have le4: "fd_le k2 k4" using fd_le_trans [OF le3 more_fd_le [OF copyout_list_more, OF k4]] .
          show ?thesis
          proof (cases "r1 < 0")
            case True
            then show ?thesis using t fail le4 by auto
          next
            case False
            then show ?thesis using t fd_inv_ks [OF inv3, of k4] le4 by simp
          qed
        qed
      qed
    qed
  qed
qed

section \<open>fork, exit and wait\<close>

lemma freeproc_inv:
  assumes fr: "freeproc i (ks s) = Some (Inr k)" and inv: "fd_inv d s"
    and nf: "no_files (procs (ks s) ! i)" and c: "cur (ks s) \<noteq> Some i"
  shows "fd_inv d (s\<lparr>ks := k\<rparr>)"
proof -
  have so: "slot_only i (ks s) k" using freeproc_slot(1) [OF fr slot_only_refl] .
  then have "cur k = cur (ks s)" by (simp add: slot_only_def)
  then have "k\<lparr>cur := cur (ks s)\<rparr> = k" by simp
  then show ?thesis using fd_inv_slot [OF inv so nf, of "cur (ks s)"] c by simp
qed

lemma fork_files_inv:
  assumes "foldres (fork_file i np) fds s = Inr t" "distinct fds" "set fds \<subseteq> {..<NOFILE}"
    and "\<And>fd. fd \<in> set fds \<Longrightarrow> ofile (procs (ks s) ! np) ! fd = None"
    and "fd_inv d s" "i < NPROC" "np < NPROC" "\<not> dead (procs (ks s) ! np)"
  shows "fd_inv d t"
  using assms
proof (induction fds arbitrary: s)
  case (Cons fd fds)
  obtain u where u: "fork_file i np fd s = Inr u" "foldres (fork_file i np) fds u = Inr t"
    using Cons.prems(1) by (auto simp: res_simps)
  show ?case
  proof (cases "ofile (procs (ks s) ! i) ! fd")
    case None
    then have "u = s" using u(1) by (simp add: fork_file_def)
    then show ?thesis using Cons.IH [of s] u(2) Cons.prems by auto
  next
    case (Some f)
    have fd: "fd < NOFILE" and f: "f < NFILE"
      using Cons.prems(3) fd_invD(7) [OF Cons.prems(5,6) _ Some] by auto
    obtain s1 where s1: "filedup f s = Inr s1" and u': "u = s1\<lparr>ks := set_ofile np fd (Some f) (ks s1)\<rparr>"
      using u(1) Some by (auto simp: fork_file_def set_ofile_def res_simps)
    note A = filedup_inv [OF s1 Cons.prems(5) f]
    have none: "ofile (procs (ks s1) ! np) ! fd = None" using Cons.prems(4) A(1) by simp
    have inv: "fd_inv d u"
      using fd_inv_set [OF A(2) Cons.prems(7) fd, of "Some f"] Cons.prems(8) A(1) f none u'
      by (simp add: inc_def [abs_def] of_bool_def eq_commute cong: if_cong)
    have pr: "procs (ks u) = (procs (ks s))[np := (procs (ks s) ! np)\<lparr>ofile := (ofile (procs (ks s) ! np))[fd := Some f]\<rparr>]"
      by (simp add: u' set_ofile_def A(1))
    have len: "np < length (procs (ks s))" using fd_invD(2) [OF Cons.prems(5)] Cons.prems(7) by simp
    show ?thesis
    proof (rule Cons.IH [OF u(2) _ _ _ inv Cons.prems(6,7)])
      show "ofile (procs (ks u) ! np) ! fd' = None" if "fd' \<in> set fds" for fd'
        using Cons.prems(2) Cons.prems(4) [of fd'] that len by (cases "fd' = fd") (auto simp: pr)
      show "\<not> dead (procs (ks u) ! np)" using Cons.prems(8) len by (simp add: pr dead_def)
    qed (use Cons.prems(2,3) in auto)
  qed
qed simp

lemma fork_inv:
  assumes fk: "fork tr s = Some (Inr (r, t))" and inv: "fd_inv d s"
  shows "fd_inv d t"
proof -
  obtain i npo k1 where i: "cur (ks s) = Some i" and k1: "allocproc tr (ks s) = Some (Inr (npo, k1))"
    using fk by (auto simp: fork_def res_simps myproc_def split: option.splits)
  then have my: "myproc (ks s) = Inr i" by (simp add: myproc_def)
  note I = fd_invD [OF inv]
  note A = allocproc_fd [OF k1 I(2)]
  show ?thesis
  proof (cases npo)
    case None
    then show ?thesis using fk my k1 A(1) inv fd_inv_ks by (auto simp: fork_def)
  next
    case (Some np)
    note np = A(2) [OF Some]
    have i64: "i < NPROC" and ne: "i \<noteq> np" using I(6) [OF i] np by auto
    have nf: "ofile (procs k ! np) ! fd = None" if "fd_le (ks s) k" "fd < NOFILE" for k fd
      using fd_le_ofile [OF that(1), of np] I(2,4) np that(2) by (simp add: no_files_def)
    obtain c k2 where k2: "uvmcopy (pagetable (procs k1 ! i)) (pagetable (procs k1 ! np)) (sz (procs k1 ! i)) k1 = Inr (c, k2)"
      using fk my k1 Some by (auto simp: fork_def res_simps)
    have le2: "fd_le k1 k2" using more_fd_le [OF uvmcopy_more, OF k2] .
    have le: "fd_le (ks s) k2" using fd_le_trans [OF A(1) le2] .
    have inv2: "fd_inv d (s\<lparr>ks := k2\<rparr>)" using fd_inv_ks [OF inv le] .
    show ?thesis
    proof (cases "c < 0")
      case True
      then obtain k3 where k3: "freeproc np k2 = Some (Inr k3)" "t = s\<lparr>ks := k3\<rparr>"
        using fk my k1 Some k2 by (auto simp: fork_def res_simps)
      have "cur k2 \<noteq> Some np" using le i ne by (auto simp: fd_le_def)
      then show ?thesis
        using freeproc_inv [of np "s\<lparr>ks := k2\<rparr>" k3 d] k3 inv2 nf [OF le] by (simp add: no_files_def)
    next
      case False
      define k3 where "k3 = proc_upd np (\<lambda>p. p\<lparr>sz := sz (procs k2 ! i)\<rparr>) k2"
      define k5 where "k5 = tf_set np TF_A0 0 (k3\<lparr>mem := memmove (mem k3) (trapframe (procs k3 ! np)) (trapframe (procs k3 ! i)) TF_SIZE\<rparr>)"
      have le5: "fd_le k2 k5" by (simp add: k5_def k3_def)
      have inv5: "fd_inv d (s\<lparr>ks := k5\<rparr>)" using fd_inv_ks [OF inv2, of k5] le5 by simp
      note F = fk my k1 Some k2 False
      obtain s1 where s1: "foldres (fork_file i np) [0..<NOFILE] (s\<lparr>ks := k5\<rparr>) = Inr s1"
        using F by (auto simp: fork_def res_simps Let_def k5_def k3_def)
      obtain ip where ip: "cwd (procs (ks s1) ! i) = Some ip"
        using F s1 by (cases "cwd (procs (ks s1) ! i)") (auto simp: fork_def Let_def k5_def k3_def)
      obtain e f where e: "idup ip (fs s1) = (e, f)" by fastforce
      obtain k8 where "make_runnable np (proc_upd np (\<lambda>p. p\<lparr>parent := Some i\<rparr>)
          (proc_upd np (\<lambda>p. p\<lparr>cwd := Some e, pname := copy_name (pname p) (pname (procs (ks s1) ! i))\<rparr>) (ks s1))) = Inr k8"
        and t: "t = s1\<lparr>ks := k8, fs := f\<rparr>"
        using F s1 ip e by (auto simp: fork_def res_simps Let_def k5_def k3_def)
      then have t: "sys_le s1 t" using make_runnable_fd by (fastforce simp: sys_le_def)
      have "fd_inv d s1"
      proof (rule fork_files_inv [OF s1 _ _ _ inv5 i64])
        show "np < NPROC" using np by simp
        show "\<not> dead (procs (ks (s\<lparr>ks := k5\<rparr>)) ! np)" using np fd_le_trans [OF le2 le5] by (auto simp: fd_le_def)
        show "ofile (procs (ks (s\<lparr>ks := k5\<rparr>)) ! np) ! fd = None" if "fd \<in> set [0..<NOFILE]" for fd
          using nf [OF fd_le_trans [OF le le5]] that by simp
      qed auto
      then show ?thesis using t by (rule fd_inv_le)
    qed
  qed
qed

lemma exit_files_inv:
  assumes "foldres (exit_file i) fds s = Inr t" "set fds \<subseteq> {..<NOFILE}" "fd_inv d s" "i < NPROC"
  shows "fd_inv d t \<and> (\<forall>fd. fd \<in> set fds \<or> ofile (procs (ks s) ! i) ! fd = None \<longrightarrow> ofile (procs (ks t) ! i) ! fd = None)"
  using assms
proof (induction fds arbitrary: s)
  case (Cons fd fds)
  obtain u where u: "exit_file i fd s = Inr u" "foldres (exit_file i) fds u = Inr t"
    using Cons.prems(1) by (auto simp: res_simps)
  have fd: "fd < NOFILE" using Cons.prems(2) by simp
  have "fd_inv d u \<and> (\<forall>n. n = fd \<or> ofile (procs (ks s) ! i) ! n = None \<longrightarrow> ofile (procs (ks u) ! i) ! n = None)"
  proof (cases "ofile (procs (ks s) ! i) ! fd")
    case None
    then show ?thesis using u(1) Cons.prems(3) by (auto simp: exit_file_def)
  next
    case (Some f)
    have f: "f < NFILE" using fd_invD(7) [OF Cons.prems(3,4) fd Some] .
    obtain s1 where s1: "fileclose f s = Inr s1" and u': "u = s1\<lparr>ks := set_ofile i fd None (ks s1)\<rparr>"
      using u(1) Some by (auto simp: exit_file_def set_ofile_def res_simps)
    note A = fileclose_inv [OF s1 Cons.prems(3) f]
    note I = fd_invD [OF A(1)]
    have o: "ofile (procs (ks s1) ! i) = ofile (procs (ks s) ! i)"
      using fd_le_ofile [OF A(2)] fd_invD(2) [OF Cons.prems(3)] Cons.prems(4) by simp
    then have "fd_inv d u" using fd_inv_clear [OF A(1) Cons.prems(4) fd, of f] Some u' by simp
    moreover have "length (ofile (procs (ks s1) ! i)) = NOFILE" using I(3) Cons.prems(4) by blast
    ultimately show ?thesis using o I(2) Cons.prems(4) fd by (auto simp: u' set_ofile_nth)
  qed
  then show ?case using Cons.IH [OF u(2) _ _ Cons.prems(4)] Cons.prems(2) by auto
qed simp

lemma exit_inv:
  assumes ex: "exit st s = Inr t" and inv: "fd_inv d s"
  shows "fd_inv d t"
proof -
  obtain i where my: "myproc (ks s) = Inr i" using ex by (auto simp: exit_def res_simps)
  then have i: "i < NPROC" using fd_invD(6) [OF inv] by (auto simp: myproc_def split: option.splits)
  obtain s1 where s1: "foldres (exit_file i) [0..<NOFILE] s = Inr s1"
    using ex my by (auto simp: exit_def res_simps split: if_splits)
  have A: "fd_inv d s1" "\<forall>fd<NOFILE. ofile (procs (ks s1) ! i) ! fd = None"
    using exit_files_inv [OF s1 _ inv i] by (auto simp: atLeast0LessThan)
  obtain ip where ip: "cwd (procs (ks s1) ! i) = Some ip"
    using ex my s1 by (cases "cwd (procs (ks s1) ! i)") (auto simp: exit_def split: if_splits)
  obtain s2 where s2: "fs_do (\<lambda>f. bnd (begin_op f) (\<lambda>f1. bnd (iput ip f1) end_op)) s1 = Inr s2"
    using ex my s1 ip by (auto simp: exit_def res_simps split: if_splits)
  obtain k1 k2 k3 where k1: "reparent i (proc_upd i (\<lambda>p. p\<lparr>cwd := None\<rparr>) (ks s2)) = Inr k1"
    and k2: "wakeup (proc_chan (parent (procs k1 ! i))) k1 = Inr k2"
    and k3: "sched (proc_upd i (\<lambda>p. p\<lparr>xstate := st, state := ZOMBIE\<rparr>) k2) = Inr k3" and t: "t = s2\<lparr>ks := k3\<rparr>"
    using ex my s1 ip s2 by (auto simp: exit_def res_simps Let_def split: if_splits)
  have le: "fd_le (ks s2) k2" using reparent_fd [OF k1] wakeup_fd [OF k2] by (auto intro: fd_le_trans)
  have le1: "sys_le s1 s2" using fs_do_le [OF s2] by simp
  have inv2: "fd_inv d s2" using fd_inv_le [OF A(1) le1] .
  have inv3: "fd_inv d (s2\<lparr>ks := k2\<rparr>)" using fd_inv_ks [OF inv2 le] .
  have le12: "fd_le (ks s1) k2" using le1 le by (auto simp: sys_le_def intro: fd_le_trans)
  have nf: "no_files (procs k2 ! i)"
    using A(2) fd_le_ofile [OF le12, of i] fd_invD(2) [OF A(1)] i by (auto simp: no_files_def)
  have k3': "k3 = (proc_upd i (\<lambda>p. p\<lparr>xstate := st, state := ZOMBIE\<rparr>) k2)\<lparr>cur := None\<rparr>"
    using k3 by (auto simp: sched_def res_simps split: if_splits)
  have "slot_only i k2 (proc_upd i (\<lambda>p. p\<lparr>xstate := st, state := ZOMBIE\<rparr>) k2)"
    by (rule slot_only_upd) (simp_all add: slot_only_refl)
  then show ?thesis using fd_inv_slot [OF inv3, of i _ None] nf t k3' by simp
qed

lemma wait_scan_inv:
  assumes "wait_scan i addr nps hk (ks s) = Some (Inr (h, r, k))" "fd_inv d s" "set nps \<subseteq> {..<NPROC}"
  shows "fd_inv d (s\<lparr>ks := k\<rparr>)"
  using assms
proof (induction nps arbitrary: hk)
  case (Cons np nps)
  show ?case
  proof (cases "parent (procs (ks s) ! np) = Some i \<and> state (procs (ks s) ! np) = ZOMBIE")
    case False
    then show ?thesis using Cons.prems Cons.IH by (auto split: if_splits)
  next
    case True
    define a where "a = (if addr \<noteq> 0 then copyout_list (pagetable (procs (ks s) ! i)) addr
        (le_bytes 4 (nat (xstate (procs (ks s) ! np) mod 2 ^ 32))) (ks s) else Inr (0, ks s))"
    have "bndo (Some a) (\<lambda>(r, s1). if r < 0 then Some (Inr (True, Some (-1), s1))
        else bndo (freeproc np s1) (\<lambda>s2. Some (Inr (True, Some (pid (procs s1 ! np)), s2)))) = Some (Inr (h, r, k))"
      using Cons.prems(1) True by (simp add: a_def)
    then obtain v k1 where k1: "a = Inr (v, k1)" and k: "if v < 0 then k = k1 else freeproc np k1 = Some (Inr k)"
      by (auto simp: res_simps split: if_split_asm)
    have "fd_le (ks s) k1" using k1 by (auto simp: a_def split: if_splits dest!: fd_mem)
    then have inv1: "fd_inv d (s\<lparr>ks := k1\<rparr>)" and o: "ofile (procs k1 ! np) = ofile (procs (ks s) ! np)"
      and c: "cur k1 = cur (ks s) \<or> cur k1 = None"
      using fd_inv_ks [OF Cons.prems(2)] fd_le_ofile [of "ks s" k1 np] fd_invD(2) [OF Cons.prems(2)] Cons.prems(3)
      by (auto simp: fd_le_def)
    have "dead (procs (ks s) ! np)" using True by (simp add: dead_def)
    then have "no_files (procs k1 ! np)" "cur (ks s) \<noteq> Some np"
      using fd_invD(4,6) [OF Cons.prems(2)] Cons.prems(3) o by (auto simp: no_files_def)
    then show ?thesis
      using k inv1 c freeproc_inv [of np "s\<lparr>ks := k1\<rparr>" k d] by (auto split: if_splits)
  qed
qed auto

lemma wait_inv:
  assumes w: "wait addr (ks s) = Some (Inr (r, k))" and inv: "fd_inv d s"
  shows "fd_inv d (s\<lparr>ks := k\<rparr>)"
proof -
  obtain i h v k1 where k1: "wait_scan i addr [0..<NPROC] False (ks s) = Some (Inr (h, v, k1))"
    and k: "k = k1 \<or> sleep (ChProc i) k1 = Inr k"
    using w by (auto simp: wait_def res_simps split: option.split_asm if_split_asm)
  have "fd_inv d (s\<lparr>ks := k1\<rparr>)" using wait_scan_inv [OF k1 inv] by (simp add: atLeast0LessThan)
  then show ?thesis using k fd_inv_ks [of d "s\<lparr>ks := k1\<rparr>" k] sleep_fd by auto
qed

section \<open>Reading, writing and exec\<close>

lemma readi_fd:
  assumes "readi (either_copyout u) ip dst off n f k = Inr (r, f', k')"
  shows "fd_le k k'"
proof -
  have "readi_loop (either_copyout u) ip dst off n tot f k = Inr (r, f', k') \<Longrightarrow> fd_le k k'" for dst off n tot f k
  proof (induction "n - tot" arbitrary: dst off tot f k rule: less_induct)
    case less
    note IH = less.hyps
    from less.prems show ?case
      by (subst (asm) readi_loop.simps)
         (auto simp: res_simps Let_def split: if_splits dest!: either_copyout_fd IH [rotated] intro: fd_le_trans)
  qed
  then show ?thesis using assms by (auto simp: readi_def Let_def split: if_splits)
qed

lemma fileread_le: "fileread i addr n s = Inr (r, t) \<Longrightarrow> sys_le s t"
proof -
  have ex: "fs_exec op s = Inr (v, u) \<Longrightarrow> (\<And>f k r f' k'. op f k = Inr (r, f', k') \<Longrightarrow> fd_le k k') \<Longrightarrow> sys_le s u"
    for op :: "fsst \<Rightarrow> cst \<Rightarrow> (int \<times> fsst \<times> cst) res" and v u
    by (rule fs_exec_le(1))
  show "fileread i addr n s = Inr (r, t) \<Longrightarrow> sys_le s t"
    by (auto simp: fileread_def Let_def res_simps split: if_splits filetype.splits
        dest!: piperead_fd consoleread_fd ex dest: readi_fd)
qed

lemma filewrite_step_le: "filewrite_step i src n s = Inr (r, t) \<Longrightarrow> sys_le s t"
  by (auto simp: filewrite_step_def Let_def res_simps split: if_splits dest!: fs_run_le)

lemma filewrite_loop_le: "filewrite_loop fi addr n i s = Inr (r, t) \<Longrightarrow> sys_le s t"
proof (induction "nat (n - i)" arbitrary: i s rule: less_induct)
  case less
  note IH = less.hyps
  from less.prems show ?case
    by (subst (asm) filewrite_loop.simps)
       (auto simp: res_simps Let_def split: if_splits dest!: filewrite_step_le IH [rotated] intro: sys_le_trans)
qed

lemma filewrite_le: "filewrite i addr n s = Inr (r, c, t) \<Longrightarrow> sys_le s t"
  by (auto simp: filewrite_def Let_def res_simps split: if_splits filetype.splits
      dest!: pipewrite_fd consolewrite_fd filewrite_loop_le)

lemma filestat_le: "filestat pad i addr s = Inr (r, t) \<Longrightarrow> sys_le s t"
  by (auto simp: filestat_def Let_def res_simps sys_le_def split: if_splits dest!: fs_run_le fd_mem intro: fd_le_trans)

lemma read_local_le: "read_local ip off n s = Inr (r, t) \<Longrightarrow> sys_le s t"
  by (simp add: read_local_def fs_run_le)

lemma loadseg_le: "loadseg pt va ip off n s = Inr (r, t) \<Longrightarrow> sys_le s t"
proof -
  have "loadseg_loop pt va ip off n i s = Inr (r, t) \<Longrightarrow> sys_le s t" for off n i s
  proof (induction "n - i" arbitrary: i s rule: less_induct)
    case less
    note IH = less.hyps
    have ex: "fs_exec (\<lambda>f k. readi (either_copyout False) ip pa a m f k) s = Inr (v, u) \<Longrightarrow> sys_le s u" for s pa a m v u
      by (erule fs_exec_le(1)) (rule readi_fd)
    from less.prems show ?case
      by (subst (asm) loadseg_loop.simps)
         (auto simp: res_simps Let_def split: if_splits dest!: ex IH [rotated] intro: sys_le_trans)
  qed
  then show "loadseg pt va ip off n s = Inr (r, t) \<Longrightarrow> sys_le s t" by (simp add: loadseg_def)
qed

lemma exec_segments_le:
  "exec_segments pt ip k off n s = Inr (b, m, t) \<Longrightarrow> sys_le s0 s \<Longrightarrow> sys_le s0 t"
proof (induction k arbitrary: off n s)
  case (Suc k)
  have rl: "read_local ip off n s = Inr (x, u) \<Longrightarrow> sys_le s0 s \<Longrightarrow> sys_le s0 u" for off n s x u
    using read_local_le sys_le_trans by (cases x) blast
  have uv: "uvmalloc pt a b (ks s) = Inr (v, k) \<Longrightarrow> sys_le s0 s \<Longrightarrow> sys_le s0 (s\<lparr>ks := k\<rparr>)" for a b s v k
    using sys_le_ks [OF more_fd_le [OF uvmalloc_more]] sys_le_trans by blast
  have ls: "loadseg pt va ip off n s = Inr (r, u) \<Longrightarrow> sys_le s0 s \<Longrightarrow> sys_le s0 u" for va off n s r u
    using loadseg_le sys_le_trans by blast
  from Suc.prems show ?case
    by (auto simp: res_simps Let_def split: if_splits simp del: sys_le_files dest!: rl uv ls dest: Suc.IH)
qed auto

lemma sys_le_fs: "fs_run op s = Inr (x, u) \<Longrightarrow> sys_le s0 s \<Longrightarrow> sys_le s0 u"
  "fs_do op' s = Inr u \<Longrightarrow> sys_le s0 s \<Longrightarrow> sys_le s0 u"
  by (rule sys_le_trans, assumption, drule fs_run_le fs_do_le, simp)+

lemma sys_le_more: "km.more k = km.more (ks s) \<Longrightarrow> sys_le s0 s \<Longrightarrow> sys_le s0 (s\<lparr>ks := k\<rparr>)"
  using sys_le_ks [OF more_fd_le] sys_le_trans by blast

lemma exec_bad_le:
  assumes "exec_bad pt n ipo s = Some (Inr (r, t))" and le: "sys_le s0 s"
  shows "sys_le s0 t"
proof -
  obtain s1 where s1: "(if pt \<noteq> 0 then bndo (proc_freepagetable pt n (ks s)) (\<lambda>k. Some (Inr (s\<lparr>ks := k\<rparr>))) else Some (Inr s)) = Some (Inr s1)"
    and t: "(case ipo of Some ip \<Rightarrow> fs_do (\<lambda>f. bnd (iunlockput ip f) end_op) s1 | None \<Rightarrow> Inr s1) = Inr t"
    using assms(1) unfolding exec_bad_def bndo_eq_Inr by auto
  have "sys_le s0 s1"
    using s1 le by (auto simp: res_simps simp del: sys_le_files split: if_splits dest!: proc_freepagetable_more intro: sys_le_more)
  then show ?thesis using t by (auto split: option.splits dest: sys_le_fs(2))
qed

lemma exec_stack_le:
  assumes e: "exec_stack path argv pt n elf s = Some (Inr (r, t))" and le: "sys_le s0 s"
  shows "sys_le s0 t"
proof -
  obtain i where i: "myproc (ks s) = Inr i" using e by (auto simp: exec_stack_def res_simps)
  obtain sz1 k1 where k1: "uvmalloc pt (PGROUNDUP n) (PGROUNDUP n + 2 * PGSIZE) (ks s) = Inr (sz1, k1)"
    using e i by (auto simp: exec_stack_def res_simps Let_def)
  have bad: "exec_bad pt m None (s\<lparr>ks := k\<rparr>) = Some (Inr (r, t)) \<Longrightarrow> km.more k = km.more (ks s) \<Longrightarrow> sys_le s0 t" for m k
    using exec_bad_le sys_le_more le by blast
  note m1 = uvmalloc_more [OF k1]
  show ?thesis
  proof (cases "sz1 = 0")
    case True
    then show ?thesis using e i k1 bad m1 by (simp add: exec_stack_def)
  next
    case sz1: False
    obtain k2 where k2: "uvmclear pt (sub64 sz1 (2 * PGSIZE)) k1 = Inr k2"
      using e i k1 sz1 by (auto simp: exec_stack_def res_simps Let_def)
    obtain x k3 where k3: "exec_args pt (sub64 sz1 PGSIZE) argv 0 sz1 [] k2 = Some (Inr (x, k3))"
      using e i k1 sz1 k2 by (auto simp: exec_stack_def res_simps Let_def)
    have m3: "km.more k3 = km.more (ks s)" using m1 uvmclear_more [OF k2] exec_args_more [OF k3] by simp
    show ?thesis
    proof (cases x)
      case None
      then show ?thesis using e i k1 sz1 k2 k3 bad m3 by (simp add: exec_stack_def Let_def)
    next
      case (Some y)
      obtain sp us where x: "x = Some (sp, us)" using Some by (cases y) auto
      define sp1 where "sp1 = sub64 sp ((length us + 1) * 8)"
      define sp2 where "sp2 = sub64 sp1 (sp1 mod 16)"
      note F = e i k1 sz1 k2 k3 x
      show ?thesis
      proof (cases "sp2 < sub64 sz1 PGSIZE")
        case True
        then show ?thesis using F bad m3 by (simp add: exec_stack_def Let_def sp1_def sp2_def)
      next
        case sp2: False
        obtain v k4 where k4: "copyout_list pt sp2 (concat (map (le_bytes 8) (us @ [0]))) k3 = Inr (v, k4)"
          using F sp2 by (auto simp: exec_stack_def res_simps Let_def sp1_def sp2_def simp del: map_append concat_append)
        have m4: "km.more k4 = km.more (ks s)" using m3 copyout_list_more [OF k4] by simp
        show ?thesis
        proof (cases "v < 0")
          case True
          then show ?thesis using F bad m4 sp2 k4
            by (simp add: exec_stack_def Let_def sp1_def sp2_def del: map_append concat_append)
        next
          case False
          define k8 where "k8 = tf_set i TF_SP sp2 (tf_set i TF_EPC (e_entry elf)
            (proc_upd i (\<lambda>p. p\<lparr>pagetable := pt, sz := sz1\<rparr>)
              (proc_upd i (\<lambda>p. p\<lparr>pname := copy_name (pname p) (last_elem path path)\<rparr>) (tf_set i TF_A1 sp2 k4))))"
          obtain op on k9 where k9: "proc_freepagetable op on k8 = Some (Inr k9)" and t: "t = s\<lparr>ks := k9\<rparr>"
            using F sp2 k4 False
            by (auto simp: exec_stack_def res_simps Let_def sp1_def sp2_def k8_def simp del: map_append concat_append)
          have "fd_le (ks s0) k8" using sys_le_more [OF m4 le] by (simp add: k8_def)
          then show ?thesis
            using t le fd_le_trans [OF _ more_fd_le [OF proc_freepagetable_more [OF k9]]] by (simp add: sys_le_def)
        qed
      qed
    qed
  qed
qed

lemma exec_le:
  assumes e: "exec tr path argv s = Some (Inr (r, t))"
  shows "sys_le s t"
proof -
  obtain i where i: "myproc (ks s) = Inr i" using e by (auto simp: exec_def res_simps)
  define op where "op = (\<lambda>f :: fsst. bnd (begin_op f) (\<lambda>f1. bnd (namei path (cwd (procs (ks s) ! i)) f1) (\<lambda>(ipo, f2).
        case ipo of None \<Rightarrow> bnd (end_op f2) (\<lambda>f3. Inr (None, f3)) | Some ip \<Rightarrow> bnd (ilock ip f2) (\<lambda>f3. Inr (Some ip, f3)))))"
  obtain ipo s1 where s1: "fs_run op s = Inr (ipo, s1)"
    using e i by (auto simp: exec_def res_simps op_def)
  have le1: "sys_le s s1" using fs_run_le [OF s1] by simp
  note F = e i s1 [unfolded op_def]
  show ?thesis
  proof (cases ipo)
    case None
    then show ?thesis using F le1 by (simp add: exec_def)
  next
    case (Some ip)
    obtain v d s2 where s2: "read_local ip 0 64 s1 = Inr ((v, d), s2)"
      using F Some by (auto simp: exec_def res_simps)
    have le2: "sys_le s s2" using read_local_le [OF s2] le1 sys_le_trans by blast
    show ?thesis
    proof (cases "v \<noteq> 64 \<or> e_magic (elf_of d) \<noteq> ELF_MAGIC")
      case True
      then have "exec_bad 0 0 (Some ip) s2 = Some (Inr (r, t))" using F Some s2 by (auto simp: exec_def Let_def split: if_splits)
      then show ?thesis using exec_bad_le le2 by blast
    next
      case ok: False
      obtain pt k where k: "proc_pagetable tr i (ks s2) = Some (Inr (pt, k))"
        using F Some s2 ok by (auto simp: exec_def res_simps Let_def split: if_splits)
      have le3: "sys_le s (s2\<lparr>ks := k\<rparr>)" using sys_le_more [OF proc_pagetable_more [OF k] le2] .
      show ?thesis
      proof (cases "pt = 0")
        case True
        then have "exec_bad 0 0 (Some ip) (s2\<lparr>ks := k\<rparr>) = Some (Inr (r, t))" using F Some s2 ok k by (simp add: exec_def Let_def)
        then show ?thesis using exec_bad_le le3 by blast
      next
        case pt: False
        obtain b n s4 where s4: "exec_segments pt ip (e_phnum (elf_of d)) (e_phoff (elf_of d) mod 2 ^ 32) 0 (s2\<lparr>ks := k\<rparr>) = Inr (b, n, s4)"
          using F Some s2 ok k pt by (auto simp: exec_def res_simps Let_def)
        note le4 = exec_segments_le [OF s4 le3]
        show ?thesis
        proof (cases b)
          case False
          then have "exec_bad pt n (Some ip) s4 = Some (Inr (r, t))" using F Some s2 ok k pt s4 by (simp add: exec_def Let_def)
          then show ?thesis using exec_bad_le le4 by blast
        next
          case True
          then obtain s5 where "fs_do (\<lambda>f. bnd (iunlockput ip f) end_op) s4 = Inr s5"
            and "exec_stack path argv pt n (elf_of d) s5 = Some (Inr (r, t))"
            using F Some s2 ok k pt s4 by (auto simp: exec_def res_simps Let_def)
          then show ?thesis using exec_stack_le sys_le_fs(2) le4 by blast
        qed
      qed
    qed
  qed
qed

lemma exec_argv_fd: "exec_argv ua i n k = Inr (x, b, k') \<Longrightarrow> fd_le k k'"
proof (induction n arbitrary: i k x b)
  case (Suc n)
  obtain q where q: "fetchaddr ((ua + 8 * i) mod 2 ^ 64) k = Inr q" using Suc.prems by (auto simp: res_simps)
  show ?case
  proof (cases "q = None \<or> q = Some 0")
    case True
    then show ?thesis using Suc.prems q by auto
  next
    case False
    then obtain a where a: "q = Some a" "a \<noteq> 0" by auto
    obtain pg k1 where k1: "kalloc k = (pg, k1)" by fastforce
    have le1: "fd_le k k1" using more_fd_le [OF kalloc_more [OF k1]] .
    show ?thesis
    proof (cases "pg = 0")
      case True
      then show ?thesis using Suc.prems q a k1 le1 by simp
    next
      case pg: False
      obtain p e k2 where k2: "copyinstr (pagetable (procs k1 ! p)) pg a PGSIZE k1 = Inr (e, k2)"
        and t: "if e < 0 then k' = k2 else \<exists>x. exec_argv ua (i + 1) n k2 = Inr (x, b, k')"
        using Suc.prems q a k1 pg by (auto simp: res_simps split: if_split_asm)
      have "fd_le k k2" using le1 more_fd_le [OF copyinstr_more [OF k2]] fd_le_trans by blast
      then show ?thesis using t Suc.IH fd_le_trans by (cases "e < 0") (auto, blast)
    qed
  qed
qed simp

lemma foldres_kfree_fd: "foldres kfree ps k = Inr k' \<Longrightarrow> fd_le k k'"
  by (rule foldres_fd_le [OF more_fd_le [OF kfree_more]])

lemma sys_exec_le:
  assumes "sys_exec tr s = Some (Inr (r, t))"
  shows "sys_le s t"
proof -
  obtain p ua where a: "argstr 0 MAXPATH (ks s) = Inr p" "argaddr 1 (ks s) = Inr ua"
    using assms by (auto simp: sys_exec_def res_simps)
  show ?thesis
  proof (cases p)
    case None
    then show ?thesis using assms a by (simp add: sys_exec_def)
  next
    case (Some path)
    obtain pgs ok k where k: "exec_argv ua 0 MAXARG (ks s) = Inr (pgs, ok, k)"
      using assms a Some by (auto simp: sys_exec_def res_simps)
    have le: "sys_le s (s\<lparr>ks := k\<rparr>)" using sys_le_ks [OF exec_argv_fd [OF k]] .
    obtain v s1 k1 where s1: "(if ok then exec tr path pgs (s\<lparr>ks := k\<rparr>) else Some (Inr (-1, s\<lparr>ks := k\<rparr>))) = Some (Inr (v, s1))"
      and k1: "foldres kfree pgs (ks s1) = Inr k1" and t: "t = s1\<lparr>ks := k1\<rparr>"
      using assms a Some k unfolding sys_exec_def by (auto simp: bndo_eq_Inr)
    have "sys_le s s1" using s1 le exec_le sys_le_trans by (fastforce simp del: sys_le_files split: if_splits)
    then show ?thesis using t sys_le_ks [OF foldres_kfree_fd [OF k1]] sys_le_trans by blast
  qed
qed

end
