(* ===== verification/Traps.thy ===== *)
theory Traps
  imports Descriptors
begin

section \<open>The dispatcher and the trap handler\<close>

lemma sys_link_le:
  "sys_link s = Inr (r, t) \<Longrightarrow> sys_le s t" "sys_unlink s = Inr (r, t) \<Longrightarrow> sys_le s t"
  "sys_mkdir s = Inr (r, t) \<Longrightarrow> sys_le s t" "sys_mknod s = Inr (r, t) \<Longrightarrow> sys_le s t"
  by (auto simp: sys_link_def sys_unlink_def sys_mkdir_def sys_mknod_def res_simps split: option.split_asm dest!: fs_run_le)

lemma sys_chdir_le: "sys_chdir s = Inr (r, t) \<Longrightarrow> sys_le s t"
  by (auto simp: sys_chdir_def res_simps sys_le_def split: option.split_asm dest!: fs_run_le)

lemma sys_io_le:
  "sys_read s = Inr (v, t) \<Longrightarrow> sys_le s t" "sys_write s = Inr (v, c, t) \<Longrightarrow> sys_le s t"
  "sys_fstat pad s = Inr (r, t) \<Longrightarrow> sys_le s t"
  by (auto simp: sys_read_def sys_write_def sys_fstat_def res_simps split: option.split_asm
      dest!: fileread_le filewrite_le filestat_le)

lemma sys_sbrk_fd: "sys_sbrk k = Inr (r, k') \<Longrightarrow> fd_le k k'"
  by (auto simp: sys_sbrk_def res_simps dest: growproc_fd)

lemma sys_sleep_fd: "sys_sleep k = Inr (r, k') \<Longrightarrow> fd_le k k'"
  by (auto simp: sys_sleep_def sys_sleep_loop_def res_simps split: if_splits dest: sleep_fd)

lemma sys_kill_fd: "sys_kill k = Inr (r, k') \<Longrightarrow> fd_le k k'"
  by (auto simp: sys_kill_def res_simps dest: kill_fd)

lemma sys_getlog_fd: "sys_getlog k = Inr (r, k') \<Longrightarrow> fd_le k k'"
  by (auto simp: sys_getlog_def res_simps dest!: fd_mem)

lemma on_ks_inv:
  assumes "on_ks op s = Some (Inr (e, t))" and "\<And>k r k'. op k = Inr (r, k') \<Longrightarrow> fd_le k k'" and "fd_inv d s"
  shows "fd_inv d t"
  using assms by (auto simp: on_ks_def res_simps intro: fd_inv_ks)

lemma on_sys_inv:
  assumes "on_sys op s = Some (Inr (e, t))" and "\<And>r. op s = Inr (r, t) \<Longrightarrow> fd_inv d t"
  shows "fd_inv d t"
  using assms by (auto simp: on_sys_def res_simps)

lemma on_sys_le:
  assumes "on_sys op s = Some (Inr (e, t))" and "\<And>r. op s = Inr (r, t) \<Longrightarrow> sys_le s t" and "fd_inv d s"
  shows "fd_inv d t"
  using assms fd_inv_le by (auto simp: on_sys_def res_simps)

lemma syscalls_inv:
  assumes h: "syscalls tr pad n = Some h" "h s = Some (Inr (e, t))" and inv: "fd_inv d s"
  shows "fd_inv d t"
proof -
  consider "n = 1" | "n = 2" | "n = 3" | "n = 4" | "n = 5" | "n = 6" | "n = 7" | "n = 8" | "n = 9" | "n = 10" | "n = 11" | "n = 12"
    | "n = 13" | "n = 14" | "n = 15" | "n = 16" | "n = 17" | "n = 18" | "n = 19" | "n = 20" | "n = 21" | "n = 22" | "n = 23" | "n = 24"
    using h(1) by (auto simp: syscalls_def split: if_splits)
  then show ?thesis
  proof cases
    case 1 then show ?thesis using h inv by (auto simp: syscalls_def res_simps sys_fork_def dest: fork_inv)
  next
    case 2 then show ?thesis using h inv by (auto simp: syscalls_def sys_exit_def res_simps dest: exit_inv)
  next
    case 3 then show ?thesis using h inv by (auto simp: syscalls_def sys_wait_def res_simps dest: wait_inv)
  next
    case 4 then show ?thesis using h inv by (auto simp: syscalls_def intro: on_sys_inv sys_pipe_inv)
  next
    case 5 then show ?thesis using h inv by (auto simp: syscalls_def res_simps dest!: sys_io_le intro: fd_inv_le)
  next
    case 6 then show ?thesis using h inv by (auto simp: syscalls_def intro: on_ks_inv sys_kill_fd)
  next
    case 7 then show ?thesis using h inv by (auto simp: syscalls_def res_simps dest!: sys_exec_le intro: fd_inv_le)
  next
    case 8 then show ?thesis using h inv by (auto simp: syscalls_def intro: on_sys_le sys_io_le)
  next
    case 9 then show ?thesis using h inv by (auto simp: syscalls_def intro: on_sys_le sys_chdir_le)
  next
    case 10 then show ?thesis using h inv by (auto simp: syscalls_def intro: on_sys_inv sys_dup_inv)
  next
    case 11 then show ?thesis using h inv by (auto simp: syscalls_def res_simps on_ks_def)
  next
    case 12 then show ?thesis using h inv by (auto simp: syscalls_def intro: on_ks_inv sys_sbrk_fd)
  next
    case 13 then show ?thesis using h inv by (auto simp: syscalls_def res_simps dest!: sys_sleep_fd intro: fd_inv_ks)
  next
    case 14 then show ?thesis using h inv by (auto simp: syscalls_def on_ks_def)
  next
    case 15 then show ?thesis using h inv by (auto simp: syscalls_def intro: on_sys_inv sys_open_inv)
  next
    case 16 then show ?thesis using h inv by (auto simp: syscalls_def res_simps dest!: sys_io_le intro: fd_inv_le)
  next
    case 17 then show ?thesis using h inv by (auto simp: syscalls_def intro: on_sys_le sys_link_le)
  next
    case 18 then show ?thesis using h inv by (auto simp: syscalls_def intro: on_sys_le sys_link_le)
  next
    case 19 then show ?thesis using h inv by (auto simp: syscalls_def intro: on_sys_le sys_link_le)
  next
    case 20 then show ?thesis using h inv by (auto simp: syscalls_def intro: on_sys_le sys_link_le)
  next
    case 21 then show ?thesis using h inv by (auto simp: syscalls_def intro: on_sys_inv sys_close_inv)
  next
    case 22 then show ?thesis using h inv by (auto simp: syscalls_def on_ks_def sys_startlog_def intro!: fd_inv_ks)
  next
    case 23 then show ?thesis using h inv by (auto simp: syscalls_def intro: on_ks_inv sys_getlog_fd)
  next
    case 24 then show ?thesis using h inv by (auto simp: syscalls_def res_simps dest!: sys_nice_fd intro: fd_inv_ks)
  qed
qed

lemma set_a0_le [simp]: "sys_le s (set_a0 i v t) = sys_le s t"
  by (simp add: set_a0_def) (simp add: sys_le_def)

lemma syscall_inv:
  assumes "syscall tr pad s = Some (Inr (e, t))" and inv: "fd_inv d s"
  shows "fd_inv d t"
proof -
  have set: "fd_inv d u \<Longrightarrow> fd_inv d (set_a0 i v u)" for i v u
    by (erule fd_inv_le) simp
  obtain i where i: "myproc (ks s) = Inr i" using assms(1) by (auto simp: syscall_def res_simps)
  define n where "n = s32 (tf_get i TF_A7 (ks s) mod 2 ^ 32)"
  define ho where "ho = (if n > 0 \<and> n < 25 then syscalls tr pad n else None)"
  have E: "syscall tr pad s = (case ho of Some handler \<Rightarrow>
         bndo (handler s) (\<lambda>(r, s1). case r of Back v \<Rightarrow> Some (Inr (Back (), set_a0 i v s1))
         | Asleep \<Rightarrow> Some (Inr (Asleep, s1)) | Gone \<Rightarrow> Some (Inr (Gone, s1)))
     | None \<Rightarrow> Some (Inr (Back (), set_a0 i (-1) s)))"
    by (simp add: syscall_def i Let_def n_def ho_def)
  show ?thesis
  proof (cases ho)
    case None
    then show ?thesis using assms set by (auto simp: E)
  next
    case (Some h)
    then have h: "syscalls tr pad n = Some h" by (auto simp: ho_def split: if_splits)
    obtain v u where u: "h s = Some (Inr (v, u))"
      and c: "(case v of Back x \<Rightarrow> Some (Inr (Back (), set_a0 i x u)) | Asleep \<Rightarrow> Some (Inr (Asleep, u))
         | Gone \<Rightarrow> Some (Inr (Gone, u))) = (Some (Inr (e, t)) :: (unit ending \<times> sys) res option)"
      using assms(1) Some by (auto simp: E bndo_eq_Inr)
    have t: "t = u \<or> (\<exists>x. t = set_a0 i x u)" using c by (cases v) auto
    show ?thesis using syscalls_inv [OF h u inv] t set by auto
  qed
qed

lemma usertrap_end_inv:
  assumes "usertrap_end satp ut w r i s = Inr (e, t)" and inv: "fd_inv d s"
  shows "fd_inv d t"
  using assms
  by (auto simp: usertrap_end_def count_tick_def usertrapret_def res_simps split: if_splits
      dest!: yield_fd dest: exit_inv intro: fd_inv_ks)

lemma usertrap_inv:
  assumes u: "usertrap tr satp ut pad r s = Some (Inr (e, t))" and inv: "fd_inv d s"
  shows "fd_inv d t"
proof -
  obtain i where i: "\<not> spp r" "myproc (ks s) = Inr i"
    using u by (auto simp: usertrap_def res_simps split: if_splits)
  define s1 where "s1 = s\<lparr>ks := tf_set i TF_EPC (sepc r) (ks s)\<rparr>"
  have inv1: "fd_inv d s1" unfolding s1_def by (rule fd_inv_ks [OF inv]) simp
  show ?thesis
  proof (cases "scause r = 8")
    case True
    define s2 where "s2 = s1\<lparr>ks := tf_set i TF_EPC ((tf_get i TF_EPC (ks s1) + 4) mod 2 ^ 64) (ks s1)\<rparr>"
    have inv2: "fd_inv d s2" unfolding s2_def by (rule fd_inv_ks [OF inv1]) simp
    show ?thesis
    proof (cases "killed (procs (ks s1) ! i) = 0")
      case k: True
      have "bndo (syscall tr pad s2) (\<lambda>(e, s3). case e of Back u \<Rightarrow> Some (usertrap_end satp ut 0 r i s3)
          | Asleep \<Rightarrow> Some (Inr (Asleep, s3)) | Gone \<Rightarrow> Some (Inr (Gone, s3))) = Some (Inr (e, t))"
        using u i True k [unfolded s1_def] by (simp add: usertrap_def Let_def s2_def s1_def)
      then obtain v s3 where s3: "syscall tr pad s2 = Some (Inr (v, s3))"
        and c: "(case v of Back u \<Rightarrow> Some (usertrap_end satp ut 0 r i s3)
          | Asleep \<Rightarrow> Some (Inr (Asleep, s3)) | Gone \<Rightarrow> Some (Inr (Gone, s3))) = Some (Inr (e, t))"
        by (auto simp: bndo_eq_Inr)
      have t: "t = s3 \<or> usertrap_end satp ut 0 r i s3 = Inr (e, t)" using c by (cases v) auto
      show ?thesis using syscall_inv [OF s3 inv2] t usertrap_end_inv by blast
    next
      case False
      then have "exit (-1) s1 = Inr t" using u i True by (auto simp: usertrap_def s1_def res_simps Let_def)
      then show ?thesis using exit_inv inv1 by blast
    qed
  next
    case False
    obtain w k where k: "devintr (scause r) (t_irq r) (t_hart r) (ks s1) = Inr (w, k)"
      and t: "usertrap_end satp ut w r i (s1\<lparr>ks := (if w = 0 then proc_upd i (\<lambda>p. p\<lparr>killed := 1\<rparr>) k else k)\<rparr>) = Inr (e, t)"
      using u i False by (auto simp: usertrap_def res_simps Let_def s1_def split: if_splits)
    have "fd_inv d (s1\<lparr>ks := (if w = 0 then proc_upd i (\<lambda>p. p\<lparr>killed := 1\<rparr>) k else k)\<rparr>)"
      by (rule fd_inv_ks [OF inv1]) (use devintr_fd [OF k] in simp)
    then show ?thesis using usertrap_end_inv [OF t] by simp
  qed
qed

section \<open>A running system\<close>

text \<open>Process 0 is about to call \<^verbatim>\<open>dup(0)\<close>; its descriptor 0 is the console, entry 3 of the file table.\<close>

definition demo_proc :: proc where
  "demo_proc = proc_bss\<lparr>state := RUNNING, pid := 1, trapframe := 8192, ofile := (replicate 16 None)[0 := Some 3]\<rparr>"

definition demo_file :: "int \<Rightarrow> kfile" where
  "demo_file n = \<lparr>ftype = FD_DEVICE, fref = n, readable = True, writable = True, fpipe = 0, fip = 0, foff = 0, fmajor = 1\<rparr>"

definition fd_demo :: sys where
  "fd_demo = \<lparr>ks = pst.extend (kst.extend (kst_bss\<lparr>mem := store64 (\<lambda>_. 0) 8360 10, procs := (replicate 64 proc_bss)[0 := demo_proc], cur := Some 0\<rparr>)
       (pst.fields (\<lambda>_. \<lparr>pdata = [], nread = 0, nwrite = 0, readopen = False, writeopen = False\<rparr>)))
       (cst.fields \<lparr>cbuf = replicate 128 0, cr = 0, cw = 0, ce = 0\<rparr> \<lparr>txbuf = replicate 32 0, txw = 0, txr = 0\<rparr> [] [] []),
     fs = fs_demo, files = (replicate 100 (demo_file 0))[3 := demo_file 1]\<rparr>"

lemma fd_demo_simps:
  "files fd_demo = (replicate 100 (demo_file 0))[3 := demo_file 1]" "procs (ks fd_demo) = (replicate 64 proc_bss)[0 := demo_proc]"
  "cur (ks fd_demo) = Some 0" "mem (ks fd_demo) = store64 (\<lambda>_. 0) 8360 10"
  by (simp_all add: fd_demo_def pst.extend_def kst.extend_def pst.fields_def cst.fields_def)

lemma fd_demo_inv: "fd_inv (\<lambda>_. 0) fd_demo"
proof -
  have h: "holders (ks fd_demo) f = (if f = 3 then {(0, 0)} else {})" for f
    by (auto simp: holders_def fd_demo_simps demo_proc_def proc_bss_def nth_list_update nth_Cons' split: if_splits)
  show ?thesis
    unfolding fd_inv_def
    by (auto simp: h fd_demo_simps demo_proc_def proc_bss_def demo_file_def nth_list_update no_files_def dead_def)
qed

lemma sys_dup_lowest:
  assumes inv: "fd_inv (\<lambda>_. 0) s" and i: "cur (ks s) = Some i" and a: "argfd 0 (ks s) = Inr (Some (fd, f))"
    and n: "n < NOFILE" "ofile (procs (ks s) ! i) ! n = None" "\<And>m. m < n \<Longrightarrow> ofile (procs (ks s) ! i) ! m \<noteq> None"
  shows "sys_dup s = Inr (int n, file_upd f (\<lambda>x. x\<lparr>fref := fref x + 1\<rparr>) (s\<lparr>ks := set_ofile i n (Some f) (ks s)\<rparr>))"
    "i < NPROC" "f < NFILE" "1 \<le> fref (files s ! f)"
proof -
  note I = fd_invD [OF inv]
  show i64: "i < NPROC" using I(6) [OF i] by simp
  have fd: "fd < NOFILE" "ofile (procs (ks s) ! i) ! fd = Some f" using argfd_Some [OF a] i by (metis option.inject)+
  show f: "f < NFILE" using I(7) [OF i64 fd] .
  have "(i, fd) \<in> holders (ks s) f" using i64 fd by (simp add: holders_def)
  then have "0 < card (holders (ks s) f)" by (auto simp: card_gt_0_iff)
  then show r1: "1 \<le> fref (files s ! f)" using I(5) [OF f] by simp
  have "List.find (\<lambda>fd. ofile (procs (ks s) ! i) ! fd = None) [0..<NOFILE] = Some n"
    unfolding find_Some_iff using n by (intro exI [of _ n]) simp
  then show "sys_dup s = Inr (int n, file_upd f (\<lambda>x. x\<lparr>fref := fref x + 1\<rparr>) (s\<lparr>ks := set_ofile i n (Some f) (ks s)\<rparr>))"
    using a i r1 by (simp add: sys_dup_def fdalloc_def myproc_def filedup_def)
qed

text \<open>
  C6: every trap from user space keeps the reference counts of open files exact: when \<open>usertrap\<close>
  handles a system call (any of the 24, or an unknown number), a device or timer interrupt or a fault,
  or ends a killed process, then afterwards the counter of every entry of the file table is the number
  of descriptors of all processes that point to it, dead processes hold no descriptors, and the current
  process, if there still is one, is alive.
\<close>

theorem usertrap_counts_references:
  assumes "fd_inv (\<lambda>_. 0) s" and "usertrap tr satp ut pad r s = Some (Inr (e, t))"
  shows "fd_inv (\<lambda>_. 0) t \<and> (\<forall>f<NFILE. fref (files t ! f) = int (card (holders (ks t) f)))"
  using usertrap_inv [OF assms(2,1)] fd_invD(5) by fastforce

text \<open>
  C26: \<open>dup\<close> and \<open>close\<close> undo each other: a process that calls \<open>dup\<close> on an open descriptor while it has a
  free one gets its lowest free descriptor \<open>n\<close> for the same file; closing the descriptor that the call
  returned in \<open>a0\<close> succeeds and restores the file table and every process. Neither call panics on
  a reference count.
\<close>

theorem dup_close_roundtrip:
  assumes inv: "fd_inv (\<lambda>_. 0) s" and i: "cur (ks s) = Some i" and a: "argfd 0 (ks s) = Inr (Some (fd, f))"
    and n: "n < NOFILE" "ofile (procs (ks s) ! i) ! n = None" "\<And>m. m < n \<Longrightarrow> ofile (procs (ks s) ! i) ! m \<noteq> None"
  shows "\<exists>t u. sys_dup s = Inr (int n, t) \<and> ofile (procs (ks t) ! i) ! n = Some f \<and> fref (files t ! f) = fref (files s ! f) + 1 \<and>
    sys_close (set_a0 i (int n) t) = Inr (0, u) \<and> files u = files s \<and> procs (ks u) = procs (ks s)"
proof -
  note I = fd_invD [OF inv]
  note D = sys_dup_lowest [OF inv i a n]
  have i64: "i < NPROC" and f: "f < NFILE" and r1: "1 \<le> fref (files s ! f)" using D(2-4) by blast+
  define k where "k = set_ofile i n (Some f) (ks s)"
  define t where "t = file_upd f (\<lambda>x. x\<lparr>fref := fref x + 1\<rparr>) (s\<lparr>ks := k\<rparr>)"
  have fl: "files t ! f = (files s ! f)\<lparr>fref := fref (files s ! f) + 1\<rparr>" using I(1) f by (simp add: t_def file_upd_def)
  have dup: "sys_dup s = Inr (int n, t)" using D(1) by (simp add: t_def k_def)
  have pt: "procs (ks t) = (procs (ks s))[i := (procs (ks s) ! i)\<lparr>ofile := (ofile (procs (ks s) ! i))[n := Some f]\<rparr>]"
    by (simp add: t_def file_upd_def k_def set_ofile_def)
  have on: "ofile (procs (ks t) ! i) ! n = Some f" using I(2,3) i64 n(1) by (simp add: pt)
  define v where "v = set_a0 i (int n) t"
  have v: "procs (ks v) = procs (ks t)" "cur (ks v) = Some i" "files v = files t"
    "mem (ks v) = store64 (mem (ks t)) (trapframe (procs (ks t) ! i) + 112) n"
    using n(1) i by (simp_all add: v_def set_a0_def tf_set_def t_def file_upd_def k_def set_ofile_def nat_mod_distrib)
  have "argint 0 (ks v) = Inr (int n)"
    using v n(1) by (simp add: argint_def argraw_def myproc_def tf_get_def s32_def signed_take_bit_int_eq_self)
  then have av: "argfd 0 (ks v) = Inr (Some (n, f))" using v on n(1) by (simp add: argfd_def myproc_def)
  define u where "u = file_upd f (\<lambda>x. x\<lparr>fref := fref x - 1\<rparr>) (v\<lparr>ks := set_ofile i n None (ks v)\<rparr>)"
  have "fref (files u ! f) = fref (files s ! f)" using v fl I(1) f by (simp add: u_def file_upd_def t_def)
  then have "sys_close v = Inr (0, u)"
    using av v r1 fl by (simp add: sys_close_def myproc_def fileclose_def u_def [symmetric] Let_def)
  moreover have "files u = files s"
    using v fl I(1) f by (simp add: u_def file_upd_def t_def)
  moreover have "procs (ks u) = procs (ks s)"
  proof -
    have "(ofile (procs (ks s) ! i))[n := None] = ofile (procs (ks s) ! i)"
      using list_update_id [of "ofile (procs (ks s) ! i)" n] n(2) by simp
    then show ?thesis using v(1) I(2) i64 by (simp add: u_def file_upd_def set_ofile_def pt)
  qed
  ultimately show ?thesis using dup on fl v_def by auto
qed

theorem dup_close_roundtrip_witness:
  "\<exists>t u. sys_dup fd_demo = Inr (1, t) \<and> ofile (procs (ks t) ! 0) ! 1 = Some 3 \<and> fref (files t ! 3) = 2 \<and>
    sys_close (set_a0 0 1 t) = Inr (0, u) \<and> files u = files fd_demo \<and> procs (ks u) = procs (ks fd_demo)"
proof -
  have o: "ofile (procs (ks fd_demo) ! 0) = (replicate 16 None)[0 := Some 3]"
    by (simp add: fd_demo_simps demo_proc_def)
  have a: "argfd 0 (ks fd_demo) = Inr (Some (0, 3))"
    using o by (simp add: argfd_def argint_def argraw_def myproc_def tf_get_def fd_demo_simps demo_proc_def load64_zero s32_def)
  show ?thesis
    using dup_close_roundtrip [OF fd_demo_inv _ a, of 0 1] o by (simp add: fd_demo_simps demo_file_def)
qed

text \<open>The system call through the trap handler.\<close>

theorem usertrap_counts_references_witness:
  "\<exists>t. usertrap 0 0 0 [] \<lparr>spp = False, sepc = 100, scause = 8, t_irq = 0, t_hart = 0\<rparr> fd_demo = Some (Inr (Back (), t)) \<and>
     fd_inv (\<lambda>_. 0) t \<and> card (holders (ks t) 3) = 2"
proof -
  let ?r = "\<lparr>spp = False, sepc = 100, scause = 8, t_irq = 0, t_hart = 0\<rparr>"
  define s2 where "s2 = fd_demo\<lparr>ks := tf_set 0 TF_EPC 104 (tf_set 0 TF_EPC 100 (ks fd_demo))\<rparr>"
  define t where "t = file_upd 3 (\<lambda>x. x\<lparr>fref := fref x + 1\<rparr>) (s2\<lparr>ks := set_ofile 0 1 (Some 3) (ks s2)\<rparr>)"
  have s2: "procs (ks s2) = procs (ks fd_demo)" "cur (ks s2) = Some 0" "files s2 = files fd_demo"
    "mem (ks s2) = store64 (store64 (mem (ks fd_demo)) 8216 100) 8216 104"
    by (simp_all add: s2_def tf_set_def fd_demo_simps demo_proc_def)
  have p: "procs (ks fd_demo) ! 0 = demo_proc" by (simp add: fd_demo_simps)
  have o: "ofile (procs (ks s2) ! 0) = (replicate 16 None)[0 := Some 3]" by (simp add: s2 p demo_proc_def)
  have a: "argfd 0 (ks s2) = Inr (Some (0, 3))"
    using o by (simp add: argfd_def argint_def argraw_def myproc_def tf_get_def s2 p fd_demo_simps(4) demo_proc_def load64_zero s32_def)
  have inv2: "fd_inv (\<lambda>_. 0) s2" unfolding s2_def by (rule fd_inv_ks [OF fd_demo_inv]) simp
  have dup: "sys_dup s2 = Inr (1, t)"
    using sys_dup_lowest(1) [OF inv2 s2(2) a, of 1] o by (simp add: t_def)
  have "s32 (tf_get 0 TF_A7 (ks s2) mod 2 ^ 32) = 10"
    by (simp add: tf_get_def s2 p fd_demo_simps(4) demo_proc_def s32_def)
  then have sc: "syscall 0 [] s2 = Some (Inr (Back (), set_a0 0 1 t))"
    using dup s2(2) by (simp add: syscall_def myproc_def syscalls_def on_sys_def)
  define v where "v = ks (set_a0 0 1 t)"
  have v: "cur v = Some 0" "killed (procs v ! 0) = 0"
    by (simp_all add: v_def set_a0_def tf_set_def t_def file_upd_def set_ofile_def s2 fd_demo_simps demo_proc_def proc_bss_def)
  define w where "w = tf_set 0 32 0 (tf_set 0 16 0 (tf_set 0 8 (kstack (procs v ! 0) + PGSIZE) (tf_set 0 0 0 v)))"
  have k0: "killed (procs (ks fd_demo) ! 0) = 0" by (simp add: p demo_proc_def proc_bss_def)
  have e: "tf_get 0 TF_EPC (tf_set 0 TF_EPC 100 (ks fd_demo)) = 100" by (simp add: tf_get_def tf_set_def)
  have u: "usertrap 0 0 0 [] ?r fd_demo = Some (Inr (Back (), (set_a0 0 1 t)\<lparr>ks := w\<rparr>))"
    using sc v k0 e unfolding usertrap_def s2_def
    by (simp add: fd_demo_simps(3) myproc_def Let_def usertrap_end_def usertrapret_def v_def [symmetric] w_def)
       (simp add: tf_set_def)
  note C = usertrap_counts_references [OF fd_demo_inv u]
  have "files ((set_a0 0 1 t)\<lparr>ks := w\<rparr>) ! 3 = demo_file 2"
    by (simp add: set_a0_def t_def file_upd_def s2 fd_demo_simps demo_file_def)
  then have "card (holders w 3) = 2" using C by (auto simp: demo_file_def dest: spec [of _ 3])
  then show ?thesis using u C by auto
qed

end
