(* ===== verification/ExitWait.thy ===== *)
theory ExitWait
  imports Descriptors
begin

text \<open>
  The hand-over between \<^verbatim>\<open>exit\<close> and \<^verbatim>\<open>wait\<close>: a parent asleep in \<^verbatim>\<open>wait\<close> is runnable after the
  exit of a child, and no wakeup is lost on the way through the file system and pipe code that
  \<^verbatim>\<open>exit\<close> runs.
\<close>

section \<open>What happens to a waiting parent\<close>

definition waits :: "'z kst_scheme \<Rightarrow> nat \<Rightarrow> bool" where
  "waits k p \<longleftrightarrow> state (procs k ! p) = SLEEPING \<and> chan (procs k ! p) = ChProc p"

text \<open>Process \<open>p\<close> keeps waiting or becomes runnable, and \<open>i\<close> stays on the hart with its parent.\<close>

definition wk_le :: "nat \<Rightarrow> nat \<Rightarrow> 'z kst_scheme \<Rightarrow> 'z kst_scheme \<Rightarrow> bool" where
  "wk_le p i s t \<longleftrightarrow> length (procs t) = length (procs s) \<and> parent (procs t ! i) = parent (procs s ! i) \<and> cur t = cur s \<and>
     (waits s p \<or> state (procs s ! p) = RUNNABLE \<longrightarrow> waits t p \<or> state (procs t ! p) = RUNNABLE) \<and>
     (state (procs s ! p) = RUNNABLE \<longrightarrow> state (procs t ! p) = RUNNABLE)"

lemma wk_le_refl [simp]: "wk_le p i s s"
  by (simp add: wk_le_def)

lemma wk_le_trans: "wk_le p i s t \<Longrightarrow> wk_le p i t u \<Longrightarrow> wk_le p i s u"
  by (auto simp: wk_le_def)

lemma wk_le_same: "procs t = procs s \<Longrightarrow> cur t = cur s \<Longrightarrow> wk_le p i s t"
  by (simp add: wk_le_def waits_def)

lemma wk_le_more: "km.more t = km.more s \<Longrightarrow> wk_le p i s t"
  by (rule wk_le_same) (auto dest: more_kst)

lemma wk_le_upd:
  assumes "\<And>q. state (f q) = state q" "\<And>q. chan (f q) = chan q" "j \<noteq> i \<or> (\<forall>q. parent (f q) = parent q)"
  shows "wk_le p i s (proc_upd j f s)"
  using assms
  by (cases "j < length (procs s)") (auto simp: wk_le_def waits_def nth_list_update list_update_beyond)

lemma foldres_wk_le:
  assumes "\<And>x s t. g x s = Inr t \<Longrightarrow> wk_le p i s t" and "foldres g xs s = Inr t"
  shows "wk_le p i s t"
  using assms(2) by (induction xs arbitrary: s) (auto simp: res_simps intro: wk_le_trans [OF assms(1)])

lemma make_runnable_procs: "make_runnable j s = Inr t \<Longrightarrow>
    procs t = (procs s)[j := (procs s ! j)\<lparr>state := RUNNABLE\<rparr>] \<and> cur t = cur s"
  by (auto simp: make_runnable_def add_to_queue_def res_simps)

lemma wakeup_proc_wk: "wakeup_proc c j s = Inr t \<Longrightarrow> wk_le p i s t"
proof -
  assume w: "wakeup_proc c j s = Inr t"
  have "procs t = (procs s)[j := (procs s ! j)\<lparr>state := RUNNABLE\<rparr>] \<and> cur t = cur s \<or> t = s"
    using w by (auto simp: wakeup_proc_def split: if_splits dest: make_runnable_procs)
  then show ?thesis
    by (cases "j < length (procs s)") (auto simp: wk_le_def waits_def nth_list_update list_update_beyond split: if_splits)
qed

lemma wakeup_wk: "wakeup c s = Inr t \<Longrightarrow> wk_le p i s t"
  unfolding wakeup_def by (rule foldres_wk_le [OF wakeup_proc_wk])

lemma fs_exec_wk:
  assumes "fs_exec op s = Inr (r, t)" and op: "\<And>f k r f' k'. op f k = Inr (r, f', k') \<Longrightarrow> wk_le p i k k'"
  shows "wk_le p i (ks s) (ks t)"
proof -
  have wk: "foldres wakeup cs k = Inr k' \<Longrightarrow> wk_le p i k k'" for cs and k k' :: cst
    by (rule foldres_wk_le [OF wakeup_wk])
  show ?thesis using assms(1) by (auto simp: fs_exec_def res_simps dest!: op wk intro: wk_le_trans)
qed

lemma fs_do_wk: "fs_do op s = Inr t \<Longrightarrow> wk_le p i (ks s) (ks t)"
proof -
  have "fs_run op' s = Inr (u, v) \<Longrightarrow> wk_le p i (ks s) (ks v)" for op' :: "fsst \<Rightarrow> (unit \<times> fsst) res" and u v
    unfolding fs_run_def by (rule fs_exec_wk) (auto simp: res_simps)
  then show "fs_do op s = Inr t \<Longrightarrow> wk_le p i (ks s) (ks t)" by (auto simp: fs_do_def res_simps)
qed

lemma pipe_upd_wk: "wk_le p i (pipe_upd pi f s) t = wk_le p i s t" "wk_le p i s (s\<lparr>pipes := x\<rparr>)"
  by (simp_all add: wk_le_def waits_def pipe_upd_def)

lemma pipeclose_wk: "pipeclose pi w s = Inr t \<Longrightarrow> wk_le p i s t"
  by (auto simp: pipeclose_def res_simps split: if_splits
      dest!: wakeup_wk [where p = p and i = i] kfree_more [THEN wk_le_more [where p = p and i = i]]
      simp: pipe_upd_wk intro: wk_le_trans)

lemma fileclose_wk: "fileclose f s = Inr t \<Longrightarrow> wk_le p i (ks s) (ks t)"
  by (auto simp: fileclose_def Let_def file_upd_def res_simps split: if_splits filetype.splits
      dest!: pipeclose_wk [where p = p and i = i] fs_do_wk [where p = p and i = i])

lemma exit_file_wk: "exit_file j fd s = Inr t \<Longrightarrow> wk_le p i (ks s) (ks t)"
proof -
  have "wk_le p i k (proc_upd j (\<lambda>q. q\<lparr>ofile := (ofile q)[fd := None]\<rparr>) k)" for k :: cst
    by (rule wk_le_upd) simp_all
  then show "exit_file j fd s = Inr t \<Longrightarrow> wk_le p i (ks s) (ks t)"
    by (auto simp: exit_file_def res_simps split: option.splits dest!: fileclose_wk [where p = p and i = i] intro: wk_le_trans)
qed

lemma exit_files_wk: "foldres (exit_file j) fds s = Inr t \<Longrightarrow> wk_le p i (ks s) (ks t)"
  by (induction fds arbitrary: s) (auto simp: res_simps dest!: exit_file_wk [where p = p and i = i] intro: wk_le_trans)

lemma reparent_wk:
  assumes "reparent i s = Inr t" and "parent (procs s ! i) \<noteq> Some i"
  shows "wk_le p i s t"
proof -
  have "foldres (\<lambda>j s. if parent (procs s ! j) = Some i then
         wakeup (proc_chan (initproc s)) (proc_upd j (\<lambda>q. q\<lparr>parent := initproc s\<rparr>) s)
       else Inr s) xs s = Inr t \<Longrightarrow> parent (procs s ! i) \<noteq> Some i \<Longrightarrow> wk_le p i s t" for xs s
  proof (induction xs arbitrary: s)
    case (Cons j xs)
    obtain u where u: "(if parent (procs s ! j) = Some i then
         wakeup (proc_chan (initproc s)) (proc_upd j (\<lambda>q. q\<lparr>parent := initproc s\<rparr>) s) else Inr s) = Inr u"
      and r: "foldres (\<lambda>j s. if parent (procs s ! j) = Some i then
         wakeup (proc_chan (initproc s)) (proc_upd j (\<lambda>q. q\<lparr>parent := initproc s\<rparr>) s) else Inr s) xs u = Inr t"
      using Cons.prems(1) by (auto simp: res_simps)
    have "wk_le p i s u"
    proof (cases "parent (procs s ! j) = Some i")
      case True
      then have "wk_le p i s (proc_upd j (\<lambda>q. q\<lparr>parent := initproc s\<rparr>) s)"
        using Cons.prems(2) by (intro wk_le_upd) auto
      then show ?thesis using u True by (auto dest!: wakeup_wk [where p = p and i = i] intro: wk_le_trans)
    qed (use u in simp)
    moreover from this have "parent (procs u ! i) \<noteq> Some i" using Cons.prems(2) by (simp add: wk_le_def)
    ultimately show ?case using Cons.IH [OF r] wk_le_trans by blast
  qed simp
  then show ?thesis using assms unfolding reparent_def by blast
qed

text \<open>The wakeup of the parent's own channel does make it runnable.\<close>

lemma wakeup_parent:
  assumes "wakeup (ChProc p) s = Inr t" and "p < NPROC" "length (procs s) = NPROC" "cur s \<noteq> Some p"
    and "waits s p \<or> state (procs s ! p) = RUNNABLE"
  shows "state (procs t ! p) = RUNNABLE"
proof -
  have "foldres (wakeup_proc (ChProc p)) xs s = Inr t \<Longrightarrow> p \<in> set xs \<Longrightarrow> length (procs s) = NPROC \<Longrightarrow> cur s \<noteq> Some p \<Longrightarrow>
      waits s p \<or> state (procs s ! p) = RUNNABLE \<Longrightarrow> state (procs t ! p) = RUNNABLE" for xs s
  proof (induction xs arbitrary: s)
    case (Cons j xs)
    obtain u where u: "wakeup_proc (ChProc p) j s = Inr u" "foldres (wakeup_proc (ChProc p)) xs u = Inr t"
      using Cons.prems(1) by (auto simp: res_simps)
    have le: "wk_le p p s u" using wakeup_proc_wk [OF u(1)] .
    have le2: "wk_le p p u t" using foldres_wk_le [OF wakeup_proc_wk u(2)] .
    show ?case
    proof (cases "j = p")
      case True
      then have "state (procs u ! p) = RUNNABLE"
        using u(1) Cons.prems(3-5) assms(2)
        by (auto simp: wakeup_proc_def waits_def split: if_splits dest!: make_runnable_procs)
      then show ?thesis using le2 by (simp add: wk_le_def)
    next
      case False
      then show ?thesis using Cons.IH [OF u(2)] Cons.prems le by (simp add: wk_le_def)
    qed
  qed simp
  then show ?thesis using assms unfolding wakeup_def by (metis atLeastLessThan_iff set_upt zero_le)
qed

section \<open>wait with a zombie child\<close>

lemma wait_scan_finds:
  assumes "wait_scan i addr nps hk k = Some (Inr (h, r, k'))" and "np \<in> set nps"
    and "parent (procs k ! np) = Some i" "state (procs k ! np) = ZOMBIE"
  shows "r \<noteq> None"
  using assms
  by (induction nps arbitrary: hk) (auto simp: res_simps split: if_split_asm)

lemma wait_returns:
  assumes "wait addr k = Some (Inr (r, k'))" and "cur k = Some p" and "np < NPROC"
    and "parent (procs k ! np) = Some p" "state (procs k ! np) = ZOMBIE"
  shows "\<exists>v. r = Returns v"
proof -
  obtain h v k1 where w: "wait_scan p addr [0..<NPROC] False k = Some (Inr (h, v, k1))"
    using assms(1,2) by (auto simp: wait_def res_simps myproc_def)
  have "v \<noteq> None" by (rule wait_scan_finds [OF w _ assms(4,5)]) (use assms(3) in simp)
  then show ?thesis using w assms(1,2) by (auto simp: wait_def myproc_def)
qed

section \<open>Properties\<close>

text \<open>
  C10: no wakeup is lost between \<open>exit\<close> and \<open>wait\<close>. When a process exits while its parent sleeps in
  \<open>wait\<close>, then whatever its open files and children make \<open>exit\<close> do, afterwards the parent is runnable
  and the process is a zombie with the exit status; and as long as the zombie is there, a call of \<open>wait\<close>
  by the parent (the one it resumes, or a later one) does not go to sleep.
\<close>

theorem exit_wakes_waiting_parent:
  assumes ex: "exit st s = Inr t" and i: "cur (ks s) = Some i" "i < NPROC" and len: "length (procs (ks s)) = NPROC"
    and p: "parent (procs (ks s) ! i) = Some p" "p < NPROC" "p \<noteq> i" and w: "waits (ks s) p"
  shows "state (procs (ks t) ! p) = RUNNABLE \<and> state (procs (ks t) ! i) = ZOMBIE \<and> xstate (procs (ks t) ! i) = st \<and>
    (\<forall>addr k r k'. procs k ! i = procs (ks t) ! i \<and> cur k = Some p \<and> wait addr (k :: kst) = Some (Inr (r, k')) \<longrightarrow>
       (\<exists>v. r = Returns v))"
proof -
  have my: "myproc (ks s) = Inr i" using i by (simp add: myproc_def)
  obtain s1 where s1: "foldres (exit_file i) [0..<NOFILE] s = Inr s1"
    using ex my by (auto simp: exit_def res_simps split: if_splits)
  obtain ip where ip: "cwd (procs (ks s1) ! i) = Some ip"
    using ex my s1 by (cases "cwd (procs (ks s1) ! i)") (auto simp: exit_def split: if_splits)
  obtain s2 where s2: "fs_do (\<lambda>f. bnd (begin_op f) (\<lambda>f1. bnd (iput ip f1) end_op)) s1 = Inr s2"
    using ex my s1 ip by (auto simp: exit_def res_simps split: if_splits)
  define k0 where "k0 = proc_upd i (\<lambda>q. q\<lparr>cwd := None\<rparr>) (ks s2)"
  obtain k1 k2 k3 where k1: "reparent i k0 = Inr k1" and k2: "wakeup (proc_chan (parent (procs k1 ! i))) k1 = Inr k2"
    and k3: "sched (proc_upd i (\<lambda>p. p\<lparr>xstate := st, state := ZOMBIE\<rparr>) k2) = Inr k3" and t: "t = s2\<lparr>ks := k3\<rparr>"
    using ex my s1 ip s2 by (auto simp: exit_def res_simps Let_def k0_def split: if_splits)
  have k0: "wk_le p i (ks s2) k0" unfolding k0_def by (rule wk_le_upd) simp_all
  have le0: "wk_le p i (ks s) k0"
    by (rule wk_le_trans [OF exit_files_wk [OF s1] wk_le_trans [OF fs_do_wk [OF s2] k0]])
  then have "parent (procs k0 ! i) \<noteq> Some i" using p by (simp add: wk_le_def)
  then have le1: "wk_le p i (ks s) k1" by (rule wk_le_trans [OF le0 reparent_wk [OF k1]])
  then have k1p: "parent (procs k1 ! i) = Some p" "length (procs k1) = NPROC" "cur k1 = Some i"
    "waits k1 p \<or> state (procs k1 ! p) = RUNNABLE" using p len w i by (auto simp: wk_le_def)
  have "state (procs k2 ! p) = RUNNABLE"
    by (rule wakeup_parent [where s = k1]) (use k2 k1p p in \<open>simp_all add: proc_chan_def\<close>)
  moreover have "length (procs k2) = NPROC" "parent (procs k2 ! i) = Some p"
    using wakeup_wk [OF k2, of p i] k1p by (simp_all add: wk_le_def)
  moreover have "k3 = (proc_upd i (\<lambda>p. p\<lparr>xstate := st, state := ZOMBIE\<rparr>) k2)\<lparr>cur := None\<rparr>"
    using k3 by (auto simp: sched_def res_simps split: if_splits)
  ultimately have T: "state (procs (ks t) ! p) = RUNNABLE" "state (procs (ks t) ! i) = ZOMBIE"
    "xstate (procs (ks t) ! i) = st" "parent (procs (ks t) ! i) = Some p"
    using t i p by simp_all
  then show ?thesis using wait_returns i(2) by metis
qed

section \<open>An example\<close>

text \<open>Process 0 runs, without open files; process 2 is its parent, asleep in \<open>wait\<close>.\<close>

definition exit_demo :: "qtable \<Rightarrow> sys" where
  "exit_demo qt = \<lparr>ks = pst.extend (kst.extend ((demo 0 4 7 qt)\<lparr>procs := (procs (demo 0 4 7 qt))
         [0 := (procs (demo 0 4 7 qt) ! 0)\<lparr>parent := Some 2, cwd := Some 0\<rparr>,
          2 := proc_bss\<lparr>state := SLEEPING, chan := ChProc 2, pid := 3\<rparr>]\<rparr>)
       (pst.fields (\<lambda>_. \<lparr>pdata = [], nread = 0, nwrite = 0, readopen = False, writeopen = False\<rparr>)))
       (cst.fields \<lparr>cbuf = replicate 128 0, cr = 0, cw = 0, ce = 0\<rparr> \<lparr>txbuf = replicate 32 0, txw = 0, txr = 0\<rparr> [] [] []),
     fs = fs_dir, files = []\<rparr>"

lemma exit_demo_simps:
  "cur (ks (exit_demo qt)) = Some 0" "initproc (ks (exit_demo qt)) = None" "length (procs (ks (exit_demo qt))) = 64"
  "sched_p (ks (exit_demo qt)) = Some 0" "p_kicked (ks (exit_demo qt)) = 1" "qtab (ks (exit_demo qt)) = qt"
  "log_count (ks (exit_demo qt)) = INT_MAX" "length (schedlog (ks (exit_demo qt))) = 100" "fs (exit_demo qt) = fs_dir"
  "procs (ks (exit_demo qt)) ! 0 = (procs (demo 0 4 7 qt) ! 0)\<lparr>parent := Some 2, cwd := Some 0\<rparr>"
  "procs (ks (exit_demo qt)) ! Suc 0 = procs (demo 0 4 7 qt) ! Suc 0"
  "procs (ks (exit_demo qt)) ! 2 = proc_bss\<lparr>state := SLEEPING, chan := ChProc 2, pid := 3\<rparr>"
  "2 < j \<Longrightarrow> j < 64 \<Longrightarrow> procs (ks (exit_demo qt)) ! j = proc_bss"
  by (simp_all add: exit_demo_def pst.extend_def kst.extend_def pst.fields_def cst.fields_def demo_def kst_bss_def)

lemma exit_demo_inv:
  assumes qt: "rq_inv qt demoQ"
  shows "sched_inv (ks (exit_demo qt)) demoQ"
proof -
  let ?s = "ks (exit_demo qt)"
  have cases: "j = 0 \<or> j = Suc 0 \<or> j = 2 \<or> 2 < j" for j :: nat by arith
  have q: "queued demoQ = {Suc 0}" by (auto simp: queued_def demoQ_def split: if_splits)
  have ok: "proc_ok (procs ?s ! j)" if "j < 64" for j
    using cases [of j] that
    by (auto simp: exit_demo_simps demo_simps proc_ok_def quantum_def priority_def proc_bss_def)
  have "sched_core ?s demoQ"
    using ok assms(1) by (auto simp: sched_core_def exit_demo_simps demo_simps demoQ_def)
  moreover have "(state (procs ?s ! j) = RUNNABLE) = (j \<in> queued demoQ \<or> resumed ?s = Some j)"
    "(state (procs ?s ! j) = RUNNING) = (cur ?s = Some j)" if "j < 64" for j
    using cases [of j] that by (auto simp: exit_demo_simps demo_simps q resumed_def proc_bss_def)
  ultimately show ?thesis
    by (simp add: sched_inv_def exit_demo_simps)
qed

lemma fs_do_eq:
  assumes "myproc (ks s) = Inr i" and "op ((fs s)\<lparr>curpid := pid (procs (ks s) ! i), wakes := []\<rparr>) = Inr f"
    and "foldres wakeup (wakes f) (ks s) = Inr k"
  shows "fs_do op s = Inr (s\<lparr>fs := f, ks := k\<rparr>)"
  using assms by (simp add: fs_do_def fs_run_def fs_exec_def)

lemma exit_no_files: "(\<And>fd. fd \<in> set fds \<Longrightarrow> ofile (procs (ks s) ! i) ! fd = None) \<Longrightarrow> foldres (exit_file i) fds s = Inr s"
  by (induction fds) (simp_all add: exit_file_def)

lemma reparent_childless:
  assumes "\<And>j. j < NPROC \<Longrightarrow> parent (procs s ! j) \<noteq> Some i"
  shows "reparent i s = Inr s"
proof -
  have "set xs \<subseteq> {..<NPROC} \<Longrightarrow> foldres (\<lambda>j s. if parent (procs s ! j) = Some i then
         wakeup (proc_chan (initproc s)) (proc_upd j (\<lambda>q. q\<lparr>parent := initproc s\<rparr>) s) else Inr s) xs s = Inr s" for xs
    using assms by (induction xs) simp_all
  then show ?thesis unfolding reparent_def by (simp add: atLeast0LessThan)
qed

theorem exit_wakes_waiting_parent_witness:
  "\<exists>qt t. exit 7 (exit_demo qt) = Inr t \<and> state (procs (ks t) ! 2) = RUNNABLE \<and> state (procs (ks t) ! 0) = ZOMBIE \<and>
     xstate (procs (ks t) ! 0) = 7"
proof -
  obtain qt where qt: "rq_inv qt demoQ" using demo_qtab by blast
  define s where "s = exit_demo qt"
  note S = exit_demo_simps [where qt = qt, folded s_def]
  have inv: "sched_inv (ks s) demoQ" using exit_demo_inv [OF qt] by (simp add: s_def)
  have my: "myproc (ks s) = Inr 0" by (simp add: myproc_def S)
  have files: "foldres (exit_file 0) [0..<NOFILE] s = Inr s"
    by (rule exit_no_files) (simp add: S demo_simps proc_bss_def)
  let ?op = "\<lambda>f. bnd (begin_op f) (\<lambda>f1. bnd (iput 0 f1) end_op)"
  obtain f where f: "?op (fs_dir\<lparr>curpid := pid (procs (ks s) ! 0), wakes := []\<rparr>) = Inr f" "wakes f = [ChLog]"
    by (simp add: begin_op_def iput_def end_op_def Let_def fs_dir_def fs_demo_def inode_upd_def)
  let ?P = "requeue_procs (woken ChLog (cur (ks s))) (\<lambda>p. p\<lparr>state := RUNNABLE\<rparr>) (procs (ks s))"
  obtain qt1 where k1: "wakeup ChLog (ks s) = Inr ((ks s)\<lparr>procs := ?P, qtab := qt1\<rparr>)"
    "sched_inv ((ks s)\<lparr>procs := ?P, qtab := qt1\<rparr>) (requeued (woken ChLog (cur (ks s))) (\<lambda>p. p\<lparr>state := RUNNABLE\<rparr>) (procs (ks s)) demoQ)"
    using wakeup_ok [OF inv] by blast
  define k1' where "k1' = (ks s)\<lparr>procs := ?P, qtab := qt1\<rparr>"
  have cases: "j = 0 \<or> j = Suc 0 \<or> j = 2 \<or> 2 < j" for j :: nat by arith
  have P: "procs k1' ! j = procs (ks s) ! j" if "j < 64" for j
    using cases [of j] that by (auto simp: k1'_def S demo_simps proc_bss_def)
  have c1: "cur k1' = Some 0" "initproc k1' = None" by (simp_all add: k1'_def S)
  have do1: "fs_do ?op s = Inr (s\<lparr>fs := f, ks := k1'\<rparr>)"
    by (rule fs_do_eq [OF my]) (use f k1(1) in \<open>simp_all add: S(9) k1'_def\<close>)
  define k2 where "k2 = proc_upd 0 (\<lambda>p. p\<lparr>cwd := None\<rparr>) k1'"
  have inv2: "sched_inv k2 (requeued (woken ChLog (cur (ks s))) (\<lambda>p. p\<lparr>state := RUNNABLE\<rparr>) (procs (ks s)) demoQ)"
  proof -
    have "proc_ok (p\<lparr>cwd := None\<rparr>) = proc_ok p" for p by (simp add: proc_ok_def quantum_def)
    then show ?thesis
      unfolding k2_def proc_upd_def by (intro sched_inv_upd [OF k1(2) [folded k1'_def]]) simp_all
  qed
  have len: "length (procs k1') = 64" by (simp add: k1'_def)
  have rep: "reparent 0 k2 = Inr k2"
  proof (rule reparent_childless)
    fix j :: nat assume j: "j < NPROC"
    then show "parent (procs k2 ! j) \<noteq> Some 0"
      using cases [of j] P [OF j] len by (auto simp: k2_def nth_list_update S demo_simps proc_bss_def)
  qed
  obtain k3 where k3: "wakeup (ChProc 2) k2 = Inr k3" "cur k3 = Some 0" "length (procs k3) = 64"
    using wakeup_ok [OF inv2, of "ChProc 2"] c1 by (auto simp: k2_def)
  have par: "parent (procs k2 ! 0) = Some 2" using P [of 0] len by (simp add: k2_def S)
  have cw: "cwd (procs (ks s) ! 0) = Some 0" "initproc (ks s) = None" by (simp_all add: S)
  obtain t where t: "exit 7 s = Inr t"
    using my files do1 rep k3 par cw
    by (simp add: exit_def k2_def [symmetric] proc_chan_def sched_def myproc_def Let_def)
  have "waits (ks s) 2" by (simp add: waits_def S)
  then show ?thesis
    using exit_wakes_waiting_parent [OF t S(1) _ S(3), of 2] t S by (auto simp: s_def)
qed

end
