(* ===== verification/SchedRun.thy ===== *)
theory SchedRun
  imports ExitWait
begin

text \<open>
  Runs of the scheduler with interrupts. \<^verbatim>\<open>scheduler()\<close> chooses a process with interrupts on and without a
  lock, so handlers that wake processes run between its parts; the processes of the system tick, change their
  nice values, sleep, wake and kill each other, fork, exit and wait. The steps below are the critical sections
  of these operations (what the code does between \<^verbatim>\<open>acquire\<close> and \<^verbatim>\<open>release\<close> of a process lock, with interrupts off), in
  any order; the operations of \<open>Sched\<close> and \<open>Proc\<close> are shown to be made of them. The invariant is that no
  runnable process is lost.
\<close>

section \<open>Steps\<close>

text \<open>
  Where \<^verbatim>\<open>scheduler()\<close> is: at the head of its loop (or a process runs), in \<^verbatim>\<open>dequeue\<close> with the index of the
  process it will remove, or with the process in its variable \<^verbatim>\<open>p\<close> and before \<^verbatim>\<open>acquire(&p->lock)\<close>.
\<close>

datatype phase = Loop | Found u64 | Held

text \<open>The fields of a process, and the globals, that scheduling is about.\<close>

definition sched_fields :: "proc \<Rightarrow> procstate \<times> int \<times> int \<times> int" where
  "sched_fields p = (state p, nice p, runtime p, queue p)"

definition same_sched :: "'z kst_scheme \<Rightarrow> 'z kst_scheme \<Rightarrow> bool" where
  "same_sched s t \<longleftrightarrow> map sched_fields (procs t) = map sched_fields (procs s) \<and> qtab t = qtab s \<and>
     p_kicked t = p_kicked s \<and> cur t = cur s \<and> sched_p t = sched_p s \<and>
     length (schedlog t) = length (schedlog s) \<and> log_count t = log_count s"

text \<open>
  One step. \<open>intr_wakeup\<close> is one round of the loop of \<^verbatim>\<open>wakeup\<close>, and \<open>other\<close> anything that does not touch
  scheduling (memory, files, the clock, devices): both happen at any moment, in handlers too. The
  scan of \<^verbatim>\<open>dequeue\<close> finds some queue that is not empty when it looks at it; the four stores of \<^verbatim>\<open>remove_pid\<close>
  are one step (an interrupt between them can break the table: \<open>dequeue_race_loses\<close>), and so are the
  stores of \<^verbatim>\<open>sys_nice\<close> to the queue and the tick count. A scan that finds all three queues empty is no step: it runs out of
  the table (\<open>dequeue_idle_out_of_bounds\<close>). The hart then waits for an interrupt here.
\<close>

inductive run_step :: "nat \<Rightarrow> phase \<times> 'z kst_scheme \<Rightarrow> phase \<times> 'z kst_scheme \<Rightarrow> bool" for tramp where
  scan: "cur k = None \<Longrightarrow> p_kicked k \<noteq> 0 \<Longrightarrow> q < 3 \<Longrightarrow> nonempty (qtab k) (gethead (int q)) = Inr True \<Longrightarrow>
    firstid (qtab k) (gethead (int q)) = Inr x \<Longrightarrow> run_step tramp (Loop, k) (Found x, k)"
| remove: "remove_pid (qtab k) (sint (ucast x :: 32 word)) = Inr qt \<Longrightarrow>
    run_step tramp (Found x, k) (Held, k\<lparr>qtab := qt, sched_p := Some (nat (sint x))\<rparr>)"
| resume: "cur k = None \<Longrightarrow> p_kicked k = 0 \<Longrightarrow> run_step tramp (Loop, k) (Held, k)"
| switch: "scheduler_run k = Inr k' \<Longrightarrow> run_step tramp (Held, k) (Loop, k')"
| intr_wakeup: "i < NPROC \<Longrightarrow> wakeup_proc c i k = Inr k' \<Longrightarrow> run_step tramp (ph, k) (ph, k')"
| other: "same_sched k k' \<Longrightarrow> run_step tramp (ph, k) (ph, k')"
| yield_step: "cur k = Some i \<Longrightarrow> yield k = Inr k' \<Longrightarrow> run_step tramp (Loop, k) (Loop, k')"
| nice_step: "cur k = Some i \<Longrightarrow> run_step tramp (Loop, k)
    (Loop, proc_upd i (\<lambda>p. p\<lparr>nice := max (min n NICE_MAX) NICE_MIN\<rparr>) k)"
| requeue_step: "cur k = Some i \<Longrightarrow> run_step tramp (Loop, k)
    (Loop, (proc_upd i (\<lambda>p. p\<lparr>queue := priority p, runtime := 0\<rparr>) k)\<lparr>p_kicked := 1\<rparr>)"
| sleep_step: "cur k = Some i \<Longrightarrow> sleep c k = Inr k' \<Longrightarrow> run_step tramp (Loop, k) (Loop, k')"
| kill_step: "j < NPROC \<Longrightarrow> kill_loop n [j] k = Inr (r, k') \<Longrightarrow> run_step tramp (Loop, k) (Loop, k')"
| alloc_step: "allocproc tramp k = Some (Inr (r, k')) \<Longrightarrow> run_step tramp (Loop, k) (Loop, k')"
| free_step: "np < NPROC \<Longrightarrow> state (procs k ! np) = USED \<or> state (procs k ! np) = ZOMBIE \<Longrightarrow>
    freeproc np k = Some (Inr k') \<Longrightarrow> run_step tramp (Loop, k) (Loop, k')"
| start_step: "np < NPROC \<Longrightarrow> state (procs k ! np) = USED \<Longrightarrow> make_runnable np k = Inr k' \<Longrightarrow>
    run_step tramp (Loop, k) (Loop, k')"
| exit_step: "cur k = Some i \<Longrightarrow> sched (proc_upd i (\<lambda>p. p\<lparr>xstate := st, state := ZOMBIE\<rparr>) k) = Inr k' \<Longrightarrow>
    run_step tramp (Loop, k) (Loop, k')"
| startlog_step: "run_step tramp (Loop, k) (Loop, snd (sys_startlog k))"

section \<open>The invariant\<close>

text \<open>A free slot has no ticks: \<^verbatim>\<open>allocproc\<close> does not clear them, \<^verbatim>\<open>freeproc\<close> has.\<close>

definition fresh :: "'z kst_scheme \<Rightarrow> bool" where
  "fresh s \<longleftrightarrow> (\<forall>i<64. state (procs s ! i) = UNUSED \<longrightarrow> runtime (procs s ! i) = 0)"

text \<open>The process that the scheduler has taken, or will resume, and that is therefore in no queue.\<close>

fun in_hand :: "phase \<Rightarrow> 'z kst_scheme \<Rightarrow> nat option" where
  "in_hand Held s = sched_p s"
| "in_hand ph s = resumed s"

fun run_inv :: "phase \<Rightarrow> 'z kst_scheme \<Rightarrow> mlfq \<Rightarrow> bool" where
  "run_inv Loop s Q = sched_inv s Q"
| "run_inv (Found x) s Q \<longleftrightarrow> sched_inv s Q \<and> cur s = None \<and> p_kicked s \<noteq> 0 \<and>
     (\<exists>q y ys. q < 3 \<and> Q q = y # ys \<and> x = pid_word y)"
| "run_inv Held s Q \<longleftrightarrow> sched_inv (s\<lparr>p_kicked := 0\<rparr>) Q \<and> cur s = None"

lemma sched_fields_eq:
  "sched_fields p = sched_fields p' \<longleftrightarrow> state p = state p' \<and> nice p = nice p' \<and> runtime p = runtime p' \<and> queue p = queue p'"
  by (simp add: sched_fields_def)

lemma same_schedD:
  assumes "same_sched s t"
  shows "length (procs t) = length (procs s)" "j < length (procs s) \<Longrightarrow> sched_fields (procs t ! j) = sched_fields (procs s ! j)"
proof -
  have m: "map sched_fields (procs t) = map sched_fields (procs s)" using assms by (simp add: same_sched_def)
  then show l: "length (procs t) = length (procs s)" by (metis length_map)
  show "j < length (procs s) \<Longrightarrow> sched_fields (procs t ! j) = sched_fields (procs s ! j)" using m l by (metis nth_map)
qed

lemma proc_ok_fields: "sched_fields p = sched_fields p' \<Longrightarrow> proc_ok p = proc_ok p'"
  by (simp add: sched_fields_eq proc_ok_def quantum_def)

lemma same_sched_inv:
  assumes "same_sched s t" "sched_inv s Q"
  shows "sched_inv t Q" "fresh s \<Longrightarrow> fresh t"
proof -
  have len: "length (procs s) = 64" using assms(2) by (simp add: sched_inv_def sched_core_def)
  have f: "state (procs t ! j) = state (procs s ! j)" "queue (procs t ! j) = queue (procs s ! j)"
    "runtime (procs t ! j) = runtime (procs s ! j)" "proc_ok (procs t ! j) = proc_ok (procs s ! j)" if "j < 64" for j
  proof -
    have e: "sched_fields (procs t ! j) = sched_fields (procs s ! j)" using same_schedD(2) [OF assms(1), of j] that len by simp
    then show "state (procs t ! j) = state (procs s ! j)" "queue (procs t ! j) = queue (procs s ! j)"
      "runtime (procs t ! j) = runtime (procs s ! j)" by (simp_all add: sched_fields_eq)
    show "proc_ok (procs t ! j) = proc_ok (procs s ! j)" by (rule proc_ok_fields [OF e])
  qed
  have e: "qtab t = qtab s" "p_kicked t = p_kicked s" "cur t = cur s" "sched_p t = sched_p s"
    "length (schedlog t) = length (schedlog s)" "log_count t = log_count s"
    using assms(1) by (simp_all add: same_sched_def)
  have core: "sched_core s Q" using assms(2) by (simp add: sched_inv_def)
  then have lt: "j < 64" if "q < 3" "j \<in> set (Q q)" for j q
    using that rq_invD(4) [OF sched_coreD(2) [OF core]] by fastforce
  have "sched_core t Q" using core f lt same_schedD(1) [OF assms(1)] unfolding sched_core_def e by simp
  moreover have "resumed t = resumed s" by (simp add: resumed_def e)
  ultimately show "sched_inv t Q" using assms(2) f unfolding sched_inv_def e by simp
  show "fresh s \<Longrightarrow> fresh t" using f by (simp add: fresh_def)
qed

text \<open>Operations that leave the free slots alone.\<close>

definition unused_kept :: "'z kst_scheme \<Rightarrow> 'z kst_scheme \<Rightarrow> bool" where
  "unused_kept s t \<longleftrightarrow> (\<forall>j<64. state (procs t ! j) = UNUSED \<longrightarrow> procs t ! j = procs s ! j)"

lemma unused_kept_fresh: "unused_kept s t \<Longrightarrow> fresh s \<Longrightarrow> fresh t"
  by (auto simp: unused_kept_def fresh_def)

lemma unused_kept_upd: "length (procs s) = 64 \<Longrightarrow> procs t = (procs s)[i := p] \<Longrightarrow> state p \<noteq> UNUSED \<Longrightarrow> unused_kept s t"
  by (cases "i < 64") (auto simp: unused_kept_def nth_list_update list_update_beyond)

section \<open>Every step keeps the invariant\<close>

lemma make_runnable_keeps:
  assumes "sched_inv s Q" "i < 64" "state (procs s ! i) \<noteq> RUNNABLE" "state (procs s ! i) \<noteq> RUNNING" "make_runnable i s = Inr t"
  shows "\<exists>q. q < 3 \<and> sched_inv t (Q(q := Q q @ [i]))" "unused_kept s t" "cur t = cur s" "p_kicked t = p_kicked s"
proof -
  have core: "sched_core s Q" using assms(1) by (simp add: sched_inv_def)
  note ok = sched_coreD(3) [OF core assms(2)]
  obtain q where q: "queue (procs s ! i) = int q" "q < 3"
    using ok by (intro that [of "nat (queue (procs s ! i))"]) (auto simp: proc_ok_def)
  have "i \<notin> queued Q" "resumed s \<noteq> Some i" "cur s \<noteq> Some i" using assms(1-4) by (auto simp: sched_inv_def)
  then obtain qt where "make_runnable i s = Inr (s\<lparr>procs := (procs s)[i := (procs s ! i)\<lparr>state := RUNNABLE\<rparr>], qtab := qt\<rparr>)"
    "sched_inv (s\<lparr>procs := (procs s)[i := (procs s ! i)\<lparr>state := RUNNABLE\<rparr>], qtab := qt\<rparr>) (Q(q := Q q @ [i]))"
    using make_runnable_ok [OF assms(1,2)] q(1) by blast
  then show "\<exists>q. q < 3 \<and> sched_inv t (Q(q := Q q @ [i]))" "unused_kept s t" "cur t = cur s" "p_kicked t = p_kicked s"
    using assms(5) q(2) sched_coreD(1) [OF core] by (auto intro!: unused_kept_upd)
qed

lemma wakeup_proc_keeps:
  assumes "sched_inv s Q" "i < 64" "wakeup_proc c i s = Inr t"
  shows "\<exists>Q'. sched_inv t Q' \<and> (\<forall>q. \<exists>zs. Q' q = Q q @ zs)" "unused_kept s t" "cur t = cur s" "p_kicked t = p_kicked s"
proof -
  have "(\<exists>Q'. sched_inv t Q' \<and> (\<forall>q. \<exists>zs. Q' q = Q q @ zs)) \<and> unused_kept s t \<and> cur t = cur s \<and> p_kicked t = p_kicked s"
  proof (cases "woken c (cur s) i (procs s ! i)")
    case True
    then have m: "make_runnable i s = Inr t" using assms(3) by (auto simp: wakeup_proc_def)
    have r: "state (procs s ! i) \<noteq> RUNNABLE" "state (procs s ! i) \<noteq> RUNNING" using True by auto
    obtain q where "sched_inv t (Q(q := Q q @ [i]))" using make_runnable_keeps(1) [OF assms(1,2) r m] by blast
    moreover have "\<exists>zs. (Q(q := Q q @ [i])) r = Q r @ zs" for r by (cases "r = q") auto
    ultimately show ?thesis using make_runnable_keeps(2-4) [OF assms(1,2) r m] by blast
  next
    case False
    then have "t = s" using assms(3) by (auto simp: wakeup_proc_def split: if_splits)
    then show ?thesis using assms(1) by (auto simp: unused_kept_def)
  qed
  then show "\<exists>Q'. sched_inv t Q' \<and> (\<forall>q. \<exists>zs. Q' q = Q q @ zs)" "unused_kept s t" "cur t = cur s" "p_kicked t = p_kicked s"
    by blast+
qed

lemma wakeup_proc_kick: "wakeup_proc c i s = Inr t \<Longrightarrow> wakeup_proc c i (s\<lparr>p_kicked := n\<rparr>) = Inr (t\<lparr>p_kicked := n\<rparr>)"
  by (auto simp: wakeup_proc_def make_runnable_def add_to_queue_def proc_upd_def res_simps split: if_splits)

lemma fresh_kick [simp]: "fresh (s\<lparr>p_kicked := n\<rparr>) = fresh s"
  by (simp add: fresh_def)

text \<open>Handlers, in every phase.\<close>

lemma intr_wakeup_inv:
  assumes "run_inv ph s Q" "fresh s" "i < 64" "wakeup_proc c i s = Inr t"
  shows "\<exists>Q'. run_inv ph t Q' \<and> fresh t"
proof (cases ph)
  case Loop
  then show ?thesis using assms(1,2) wakeup_proc_keeps [OF _ assms(3,4)] unused_kept_fresh by fastforce
next
  case (Found x)
  then have f: "sched_inv s Q" "cur s = None" "p_kicked s \<noteq> 0" and "\<exists>q y ys. q < 3 \<and> Q q = y # ys \<and> x = pid_word y"
    using assms(1) by auto
  then obtain q y ys where q: "q < 3" "Q q = y # ys" "x = pid_word y" by blast
  note w = wakeup_proc_keeps [OF f(1) assms(3,4)]
  obtain Q' where Q': "sched_inv t Q'" "\<forall>q. \<exists>zs. Q' q = Q q @ zs" using w(1) by blast
  obtain zs where "Q' q = y # ys @ zs" using Q'(2) q(2) by (metis append_Cons)
  then show ?thesis using Found Q'(1) w(2-4) f q unused_kept_fresh assms(2) by fastforce
next
  case Held
  then have h: "sched_inv (s\<lparr>p_kicked := 0\<rparr>) Q" "cur s = None" using assms(1) by auto
  note w = wakeup_proc_keeps [OF h(1) assms(3) wakeup_proc_kick [OF assms(4)]]
  have "fresh t" using unused_kept_fresh [OF w(2)] assms(2) by simp
  then show ?thesis using Held w h by auto
qed

lemma other_inv:
  assumes "run_inv ph s Q" "fresh s" "same_sched s t"
  shows "run_inv ph t Q \<and> fresh t"
proof (cases ph)
  case Held
  have "same_sched (s\<lparr>p_kicked := 0\<rparr>) (t\<lparr>p_kicked := 0\<rparr>)" "cur t = cur s" using assms(3) by (simp_all add: same_sched_def)
  then show ?thesis using Held assms(1,2) same_sched_inv [of "s\<lparr>p_kicked := 0\<rparr>" "t\<lparr>p_kicked := 0\<rparr>" Q] by simp
next
  case Loop
  then show ?thesis using assms(1,2) same_sched_inv [OF assms(3)] by auto
next
  case (Found x)
  moreover have "cur t = cur s" "p_kicked t = p_kicked s" using assms(3) by (simp_all add: same_sched_def)
  ultimately show ?thesis using assms(1,2) same_sched_inv [OF assms(3)] by auto
qed

text \<open>The scheduler.\<close>

lemma scan_inv:
  assumes "sched_inv s Q" "cur s = None" "p_kicked s \<noteq> 0" "q < 3" "nonempty (qtab s) (gethead (int q)) = Inr True"
    "firstid (qtab s) (gethead (int q)) = Inr x"
  shows "run_inv (Found x) s Q"
proof -
  have rq: "rq_inv (qtab s) Q" using assms(1) by (simp add: sched_inv_def sched_core_def)
  have g: "gethead (int q) = int (64 + 2 * q)" by (simp add: gethead_def)
  have "Q q \<noteq> []" using nonempty_head [OF rq assms(4)] assms(5) unfolding g by simp
  then obtain y ys where y: "Q q = y # ys" by (cases "Q q") auto
  then have "x = pid_word y" using firstid_front(1) [OF rq assms(4) y] assms(6) unfolding g by simp
  then show ?thesis using assms(1-4) y by auto
qed

lemma remove_inv:
  assumes "run_inv (Found x) s Q" "remove_pid (qtab s) (sint (ucast x :: 32 word)) = Inr qt"
  shows "\<exists>Q'. run_inv Held (s\<lparr>qtab := qt, sched_p := Some (nat (sint x))\<rparr>) Q'"
proof -
  obtain q y ys where q: "q < 3" "Q q = y # ys" "x = pid_word y" and inv: "sched_inv s Q" "cur s = None" "p_kicked s \<noteq> 0"
    using assms(1) by auto
  have core: "sched_core s Q" and none: "\<And>j. j < 64 \<Longrightarrow> state (procs s ! j) \<noteq> RUNNING"
    and run: "\<And>j. j < 64 \<Longrightarrow> state (procs s ! j) = RUNNABLE \<longleftrightarrow> j \<in> queued Q"
    using inv by (auto simp: sched_inv_def resumed_def)
  have rq: "rq_inv (qtab s) Q" using sched_coreD(2) [OF core] .
  have y: "y < 64" using firstid_front(2) [OF rq q(1,2)] .
  then have x: "sint (ucast x :: 32 word) = int y" "nat (sint x) = y" using q(3) by simp_all
  have qt: "rq_inv qt (Q(q := ys))" using remove_pid_refines [OF rq q(1,2)] assms(2) unfolding x by auto
  note pop = queued_pop [OF rq q(1,2)]
  let ?t = "s\<lparr>qtab := qt, sched_p := Some y, p_kicked := 0\<rparr>"
  have "sched_core ?t (Q(q := ys))" using core qt q(2) by (auto simp: sched_core_def split: if_splits)
  then have "sched_inv ?t (Q(q := ys))" using run none pop y inv(2) by (auto simp: sched_inv_def resumed_def)
  then show ?thesis using inv(2) x by (intro exI [of _ "Q(q := ys)"]) simp
qed

lemma kick_same: "p_kicked s = n \<Longrightarrow> s\<lparr>p_kicked := n\<rparr> = s"
  by (cases s) simp

lemma scheduler_run_kick: "scheduler_run (s\<lparr>p_kicked := n\<rparr>) = scheduler_run s"
  by (simp add: scheduler_run_def proc_upd_def Let_def sched_log_def split: option.splits) auto

lemma switch_inv:
  assumes "run_inv Held s Q" "fresh s" "scheduler_run s = Inr t"
  shows "sched_inv t Q \<and> fresh t"
proof -
  let ?s = "s\<lparr>p_kicked := 0\<rparr>"
  have inv: "sched_inv ?s Q" "cur s = None" using assms(1) by auto
  obtain i where i: "sched_p ?s = Some i" "i < 64" "i \<notin> queued Q" using inv by (auto simp: sched_inv_def)
  obtain t' where t': "scheduler_run ?s = Inr t'" "sched_inv t' Q" "procs t' = (procs ?s)[i := (procs ?s ! i)\<lparr>state := RUNNING\<rparr>]"
  proof -
    have c: "sched_core ?s Q" using inv(1) by (simp add: sched_inv_def)
    have "state (procs ?s ! j) = RUNNABLE \<longleftrightarrow> j \<in> queued Q \<or> j = i" "state (procs ?s ! j) \<noteq> RUNNING" if "j < 64" for j
      using inv i(1) that by (auto simp: sched_inv_def resumed_def)
    then show thesis using scheduler_run_ok [OF c i] that by blast
  qed
  have "t' = t" using t'(1) assms(3) by (simp add: scheduler_run_kick)
  moreover have "unused_kept ?s t'" using unused_kept_upd [OF _ t'(3)] inv(1) by (simp add: sched_inv_def sched_core_def)
  ultimately show ?thesis using t'(2) unused_kept_fresh [of ?s t'] assms(2) by simp
qed

text \<open>The running process gives up the hart, or changes its place.\<close>

lemma sched_procs: "sched s = Inr t \<Longrightarrow> procs t = procs s"
  by (auto simp: sched_def res_simps split: if_splits)

lemma yield_charge_unused:
  assumes "sched_inv s Q" "cur s = Some i" "yield_charge i s = Inr t"
  shows "unused_kept s t"
proof (cases "runtime (procs s ! i) + 1 < quantum (procs s ! i)")
  case True
  have len: "length (procs s) = 64" using sched_inv_curD(7) [OF assms(1,2)] .
  have "procs t = (procs s)[i := (procs s ! i)\<lparr>runtime := runtime (procs s ! i) + 1, state := RUNNABLE\<rparr>]"
    using yield_charge_keep [OF assms(1,2) True] assms(3) by auto
  then show ?thesis by (rule unused_kept_upd [OF len]) simp
next
  case False
  note D = sched_inv_curD [OF assms(1,2)]
  obtain q where q: "int q = max QUEUE_LOW (queue (procs s ! i) - 1)"
    using demoted_queue [OF sched_coreD(3) [OF D(5,1)]] .
  have "procs t = (procs s)[i := (procs s ! i)\<lparr>state := RUNNABLE, queue := int q, runtime := 0\<rparr>]"
    using yield_charge_demote [OF assms(1,2) _ q] assms(3) False by (auto simp: Let_def)
  then show ?thesis by (rule unused_kept_upd [OF D(7)]) simp
qed

lemma yield_keeps:
  assumes "sched_inv s Q" "cur s = Some i" "yield s = Inr t" "fresh s"
  shows "\<exists>Q'. sched_inv t Q'" "fresh t"
proof -
  show "\<exists>Q'. sched_inv t Q'" using yield_ok [OF assms(1,2)] assms(3) by auto
  obtain s1 Q1 where s1: "yield_charge i s = Inr s1" "yield_mid i s1 Q1"
    using yield_charge_mid [OF assms(1,2)] by blast
  have f1: "fresh s1" using unused_kept_fresh [OF yield_charge_unused [OF assms(1,2) s1(1)] assms(4)] .
  obtain s2 where s2: "(if time s1 mod 60 = 0 then priority_boost i s1 else Inr s1) = Inr s2" "sched s2 = Inr t"
    using assms(2,3) s1(1) by (auto simp: yield_def myproc_def res_simps)
  have "unused_kept s1 s2"
  proof (cases "time s1 mod 60 = 0")
    case True
    then have "\<forall>j<64. procs s2 ! j = (if state (procs s1 ! j) = RUNNABLE
       then (procs s1 ! j)\<lparr>queue := priority (procs s1 ! j), runtime := 0\<rparr> else procs s1 ! j)"
      using priority_boost_ok [OF s1(2)] s2(1) by auto
    then show ?thesis by (simp add: unused_kept_def)
  next
    case False
    then show ?thesis using s2(1) by (simp add: unused_kept_def)
  qed
  then show "fresh t" using unused_kept_fresh f1 sched_procs [OF s2(2)] by (metis fresh_def)
qed

lemma running_upd:
  assumes "sched_inv s Q" "cur s = Some i" "fresh s" "state p = RUNNING" "proc_ok p"
  shows "sched_inv (s\<lparr>procs := (procs s)[i := p], p_kicked := 1\<rparr>) Q \<and> fresh (s\<lparr>procs := (procs s)[i := p], p_kicked := 1\<rparr>)"
proof -
  note D = sched_inv_curD [OF assms(1,2)]
  have "sched_core (s\<lparr>procs := (procs s)[i := p]\<rparr>) Q" using sched_core_upd [OF D(5,2,1) assms(5)] .
  then have "sched_inv (s\<lparr>procs := (procs s)[i := p], p_kicked := 1\<rparr>) Q"
    using assms D by (auto simp: sched_inv_def resumed_def nth_list_update)
  moreover have "unused_kept s (s\<lparr>procs := (procs s)[i := p], p_kicked := 1\<rparr>)"
    by (rule unused_kept_upd [OF D(7)]) (use assms(4) in auto)
  ultimately show ?thesis using unused_kept_fresh assms(3) by blast
qed

lemma leave_hart:
  assumes "sched_inv s Q" "cur s = Some i" "fresh s" "sched (proc_upd i f s) = Inr t"
    "state (f (procs s ! i)) = SLEEPING \<or> state (f (procs s ! i)) = ZOMBIE" "proc_ok (f (procs s ! i))"
  shows "sched_inv t Q \<and> fresh t"
proof -
  note D = sched_inv_curD [OF assms(1,2)]
  let ?t = "s\<lparr>procs := (procs s)[i := f (procs s ! i)], cur := None\<rparr>"
  have t: "t = ?t" using assms(2,4,5) D by (auto simp: sched_def myproc_def proc_upd_def split: if_splits)
  have "sched_core (s\<lparr>procs := (procs s)[i := f (procs s ! i)]\<rparr>) Q" using sched_core_upd [OF D(5,2,1) assms(6)] .
  then have "sched_inv ?t Q" using assms(1,2,5) D by (auto simp: sched_inv_def resumed_def nth_list_update)
  moreover have "unused_kept s ?t" by (rule unused_kept_upd [OF D(7)]) (use assms(5) in auto)
  ultimately show ?thesis using unused_kept_fresh assms(3) unfolding t by blast
qed

lemma sleep_keeps:
  assumes "sched_inv s Q" "cur s = Some i" "fresh s" "sleep c s = Inr t"
  shows "sched_inv t Q \<and> fresh t"
proof -
  have "sched (proc_upd i (\<lambda>p. p\<lparr>chan := c, state := SLEEPING\<rparr>) s) = Inr t" using assms(2,4) by (simp add: sleep_def myproc_def)
  moreover have "proc_ok (procs s ! i)" using sched_coreD(3) sched_inv_curD [OF assms(1,2)] by blast
  then have "proc_ok ((procs s ! i)\<lparr>chan := c, state := SLEEPING\<rparr>)" by (auto simp: proc_ok_def quantum_def split: if_splits)
  ultimately show ?thesis using leave_hart [OF assms(1-3)] by simp
qed

lemma exit_keeps:
  assumes "sched_inv s Q" "cur s = Some i" "fresh s" "sched (proc_upd i (\<lambda>p. p\<lparr>xstate := st, state := ZOMBIE\<rparr>) s) = Inr t"
  shows "sched_inv t Q \<and> fresh t"
proof -
  have "proc_ok (procs s ! i)" using sched_coreD(3) sched_inv_curD [OF assms(1,2)] by blast
  then have "proc_ok ((procs s ! i)\<lparr>xstate := st, state := ZOMBIE\<rparr>)" by (auto simp: proc_ok_def quantum_def split: if_splits)
  then show ?thesis using leave_hart [OF assms] by simp
qed

lemma kill_keeps:
  assumes "sched_inv s Q" "fresh s" "j < 64" "kill_loop n [j] s = Inr (r, t)"
  shows "\<exists>Q'. sched_inv t Q' \<and> fresh t"
proof (cases "pid (procs s ! j) = n")
  case False
  then show ?thesis using assms by auto
next
  case True
  let ?s = "proc_upd j (\<lambda>p. p\<lparr>killed := 1\<rparr>) s"
  have "sched_fields (p\<lparr>killed := 1\<rparr>) = sched_fields p" for p by (simp add: sched_fields_def)
  then have "same_sched s ?s" by (simp add: same_sched_def map_upd_same)
  note s = same_sched_inv [OF this assms(1)]
  show ?thesis
  proof (cases "state (procs ?s ! j) = SLEEPING")
    case sl: True
    then have m: "make_runnable j ?s = Inr t" using assms(4) True by (auto simp: res_simps Let_def)
    have r: "state (procs ?s ! j) \<noteq> RUNNABLE" "state (procs ?s ! j) \<noteq> RUNNING" using sl by auto
    show ?thesis using make_runnable_keeps [OF s(1) assms(3) r m] unused_kept_fresh s(2) assms(2) by blast
  next
    case False
    then show ?thesis using assms(2,4) True s by (auto simp: Let_def)
  qed
qed

text \<open>\<^verbatim>\<open>sys_nice\<close> changes the running process.\<close>

lemma nice_keeps:
  assumes "sched_inv s Q" "cur s = Some i" "fresh s"
  shows "sched_inv (proc_upd i (\<lambda>p. p\<lparr>nice := max (min n NICE_MAX) NICE_MIN\<rparr>) s) Q \<and>
    fresh (proc_upd i (\<lambda>p. p\<lparr>nice := max (min n NICE_MAX) NICE_MIN\<rparr>) s)"
proof -
  note D = sched_inv_curD [OF assms(1,2)]
  let ?p = "(procs s ! i)\<lparr>nice := max (min n NICE_MAX) NICE_MIN\<rparr>"
  have "proc_ok (procs s ! i)" using sched_coreD(3) D by blast
  then have ok: "proc_ok ?p" by (auto simp: proc_ok_def quantum_def)
  then have "sched_inv (s\<lparr>procs := (procs s)[i := ?p]\<rparr>) Q" using D by (intro sched_inv_upd [OF assms(1)]) simp_all
  moreover have "unused_kept s (s\<lparr>procs := (procs s)[i := ?p]\<rparr>)"
    by (rule unused_kept_upd [OF D(7)]) (use D in auto)
  ultimately show ?thesis using unused_kept_fresh assms(3) unfolding proc_upd_def by blast
qed

lemma requeue_keeps:
  assumes "sched_inv s Q" "cur s = Some i" "fresh s"
  shows "sched_inv ((proc_upd i (\<lambda>p. p\<lparr>queue := priority p, runtime := 0\<rparr>) s)\<lparr>p_kicked := 1\<rparr>) Q \<and>
    fresh ((proc_upd i (\<lambda>p. p\<lparr>queue := priority p, runtime := 0\<rparr>) s)\<lparr>p_kicked := 1\<rparr>)"
proof -
  note D = sched_inv_curD [OF assms(1,2)]
  let ?p = "(procs s ! i)\<lparr>queue := priority (procs s ! i), runtime := 0\<rparr>"
  have "proc_ok (procs s ! i)" using sched_coreD(3) D by blast
  then have "proc_ok ?p" by (auto simp: proc_ok_def quantum_def priority_def)
  moreover have "state ?p = RUNNING" using D by simp
  ultimately show ?thesis using running_upd [OF assms, of ?p] by (simp add: proc_upd_def)
qed

text \<open>Slots are taken and given back.\<close>

lemma same_sched_refl [simp]: "same_sched s s"
  by (simp add: same_sched_def)

lemma same_sched_trans: "same_sched s t \<Longrightarrow> same_sched t u \<Longrightarrow> same_sched s u"
  by (simp add: same_sched_def)

lemma same_sched_more: "km.more t = km.more s \<Longrightarrow> same_sched s t"
  by (cases s, cases t) (simp add: same_sched_def)

lemma same_sched_upd:
  assumes "same_sched s t" "\<And>p p'. sched_fields p = sched_fields p' \<Longrightarrow> sched_fields (g p) = sched_fields (f p')"
  shows "same_sched (proc_upd i g s) (proc_upd i f t)"
proof (cases "i < length (procs s)")
  case True
  then show ?thesis
    using assms(1) same_schedD [OF assms(1)] assms(2) [of "procs s ! i" "procs t ! i"] by (simp add: same_sched_def map_update)
next
  case False
  then show ?thesis using assms(1) same_schedD(1) [OF assms(1)] by (simp add: same_sched_def list_update_beyond)
qed

lemma same_sched_updR: "same_sched s t \<Longrightarrow> (\<And>p. sched_fields (f p) = sched_fields p) \<Longrightarrow> same_sched s (proc_upd i f t)"
  by (simp add: same_sched_def map_upd_same)

definition cleared :: "proc \<Rightarrow> proc" where
  "cleared p = p\<lparr>state := UNUSED, nice := 0, runtime := 0, queue := 0\<rparr>"

lemma freeproc_same:
  assumes "freeproc i s = Some (Inr t)"
  shows "same_sched (proc_upd i cleared s) t"
proof -
  obtain s1 s3 where s1: "km.more s1 = km.more s"
    and s3: "km.more s3 = km.more (proc_upd i (\<lambda>p. p\<lparr>trapframe := 0\<rparr>) s1)"
    and t: "t = proc_upd i (\<lambda>p. p\<lparr>pagetable := 0, sz := 0, pid := 0, parent := None, pname := (pname p)[0 := 0],
       chan := ChNull, killed := 0, xstate := 0, state := UNUSED, nice := 0, runtime := 0, queue := 0,
       pass := DEFAULT_PASS\<rparr>) s3"
    using assms(1) unfolding freeproc_def Let_def
    by (auto simp: res_simps split: if_splits dest!: kfree_more proc_freepagetable_more)
  have "same_sched s (proc_upd i (\<lambda>p. p\<lparr>trapframe := 0\<rparr>) s1)"
    by (rule same_sched_updR [OF same_sched_more [OF s1]]) (simp add: sched_fields_def)
  then have "same_sched s s3" using same_sched_more [OF s3] same_sched_trans by blast
  then show ?thesis unfolding t by (rule same_sched_upd) (simp add: sched_fields_def cleared_def)
qed

lemma slot_keeps:
  assumes "sched_inv s Q" "fresh s" "i < 64" "state (procs s ! i) \<in> {UNUSED, USED, ZOMBIE}"
    "state (g (procs s ! i)) \<in> {UNUSED, USED}" "proc_ok (g (procs s ! i))" "runtime (g (procs s ! i)) = 0"
  shows "sched_inv (proc_upd i g s) Q" "fresh (proc_upd i g s)"
proof -
  have core: "sched_core s Q" using assms(1) by (simp add: sched_inv_def)
  note len = sched_coreD(1) [OF core]
  have i: "i \<notin> queued Q" "cur s \<noteq> Some i" "resumed s \<noteq> Some i" using assms(1,3,4) by (auto simp: sched_inv_def)
  have "sched_core (proc_upd i g s) Q" using sched_core_upd [OF core i(1) assms(3,6)] by (simp add: proc_upd_def)
  moreover have "resumed (proc_upd i g s) = resumed s" by (simp add: resumed_def)
  moreover have "(state (procs (proc_upd i g s) ! j) = RUNNABLE) = (j \<in> queued Q \<or> resumed s = Some j)"
    "(state (procs (proc_upd i g s) ! j) = RUNNING) = (cur s = Some j)" if "j < 64" for j
    by (cases "j = i"; use assms(1,5) i len that in \<open>auto simp: sched_inv_def\<close>)+
  ultimately show "sched_inv (proc_upd i g s) Q" using assms(1) by (simp add: sched_inv_def split: option.splits)
  show "fresh (proc_upd i g s)" unfolding fresh_def
  proof (intro allI impI)
    fix j :: nat assume "j < 64" "state (procs (proc_upd i g s) ! j) = UNUSED"
    then show "runtime (procs (proc_upd i g s) ! j) = 0" using assms(2,3,7) len by (cases "j = i") (auto simp: fresh_def)
  qed
qed

lemma free_keeps:
  assumes "sched_inv s Q" "fresh s" "i < 64" "state (procs s ! i) \<in> {UNUSED, USED, ZOMBIE}" "freeproc i s = Some (Inr t)"
  shows "sched_inv t Q \<and> fresh t"
proof -
  have "proc_ok (cleared p)" "state (cleared p) \<in> {UNUSED, USED}" "runtime (cleared p) = 0" for p
    by (simp_all add: cleared_def proc_ok_def quantum_def)
  then show ?thesis using same_sched_inv [OF freeproc_same [OF assms(5)]] slot_keeps [OF assms(1-4), of cleared] by blast
qed

text \<open>\<^verbatim>\<open>allocproc\<close> finds no slot, or takes one and gives it back, or takes one.\<close>

definition taken :: "proc \<Rightarrow> proc" where
  "taken p = p\<lparr>state := USED, queue := priority p\<rparr>"

lemma allocproc_same:
  assumes "allocproc tr s = Some (Inr (r, t))"
  shows "r = None \<and> same_sched s t \<or> (\<exists>i<NPROC. state (procs s ! i) = UNUSED \<and>
    (r = None \<and> same_sched (proc_upd i cleared s) t \<or> r = Some i \<and> same_sched (proc_upd i taken s) t))"
proof (cases "List.find (\<lambda>i. state (procs s ! i) = UNUSED) [0..<NPROC]")
  case None
  then show ?thesis using assms by (simp add: allocproc_def)
next
  case (Some i)
  then have i: "i < NPROC" "state (procs s ! i) = UNUSED" by (auto simp: find_Some_iff)
  define s2 where "s2 = proc_upd i (\<lambda>p. p\<lparr>pid := nextpid s, state := USED\<rparr>) (s\<lparr>nextpid := nextpid s + 1\<rparr>)"
  obtain tf s3 where s3: "kalloc s2 = (tf, s3)" by fastforce
  define s4 where "s4 = proc_upd i (\<lambda>p. p\<lparr>trapframe := tf\<rparr>) s3"
  let ?used = "\<lambda>p. p\<lparr>state := USED\<rparr>"
  have "same_sched s (s\<lparr>nextpid := nextpid s + 1\<rparr>)" by (simp add: same_sched_def)
  then have "same_sched (proc_upd i ?used s) s2"
    unfolding s2_def by (rule same_sched_upd) (simp add: sched_fields_def)
  then have "same_sched (proc_upd i ?used s) s3"
    by (rule same_sched_trans [OF _ same_sched_more [OF kalloc_more [OF s3]]])
  then have s4: "same_sched (proc_upd i ?used s) s4"
    unfolding s4_def by (rule same_sched_updR) (simp add: sched_fields_def)
  have free: "same_sched (proc_upd i cleared s) t" if "same_sched (proc_upd i ?used s) u" "freeproc i u = Some (Inr t)" for u
  proof -
    have "same_sched (proc_upd i cleared (proc_upd i ?used s)) (proc_upd i cleared u)"
      by (rule same_sched_upd [OF that(1)]) (simp add: sched_fields_def cleared_def)
    moreover have "same_sched (proc_upd i cleared s) (proc_upd i cleared (proc_upd i ?used s))"
      by (cases "i < length (procs s)") (simp_all add: same_sched_def cleared_def list_update_beyond)
    ultimately show ?thesis using freeproc_same [OF that(2)] same_sched_trans by blast
  qed
  show ?thesis
  proof (cases "tf = 0")
    case True
    then have "r = None \<and> freeproc i s4 = Some (Inr t)"
      using assms(1) Some s3 by (auto simp: allocproc_def allocpid_def res_simps s2_def s4_def split: if_splits)
    then show ?thesis using free s4 i by blast
  next
    case False
    then obtain pt s5 where s5: "proc_pagetable tr i s4 = Some (Inr (pt, s5))"
      and t: "if pt = 0 then r = None \<and> freeproc i (proc_upd i (\<lambda>p. p\<lparr>pagetable := pt\<rparr>) s5) = Some (Inr t)
        else r = Some i \<and> t = proc_upd i (\<lambda>p. p\<lparr>queue := priority p, pass := DEFAULT_PASS\<rparr>) (proc_upd i (\<lambda>p. p\<lparr>pagetable := pt\<rparr>) s5)"
      using assms(1) Some s3 by (auto simp: allocproc_def allocpid_def res_simps Let_def s2_def s4_def split: if_splits)
    have "same_sched (proc_upd i ?used s) s5"
      by (rule same_sched_trans [OF s4 same_sched_more [OF proc_pagetable_more [OF s5]]])
    then have s6: "same_sched (proc_upd i ?used s) (proc_upd i (\<lambda>p. p\<lparr>pagetable := pt\<rparr>) s5)"
      by (rule same_sched_updR) (simp add: sched_fields_def)
    have "same_sched (proc_upd i (\<lambda>p. p\<lparr>queue := priority p\<rparr>) (proc_upd i ?used s)) t" if "pt \<noteq> 0"
      using t that by (auto intro!: same_sched_upd [OF s6] simp: sched_fields_def priority_def)
    moreover have "same_sched (proc_upd i taken s) (proc_upd i (\<lambda>p. p\<lparr>queue := priority p\<rparr>) (proc_upd i ?used s))"
      by (cases "i < length (procs s)") (simp_all add: same_sched_def taken_def priority_def list_update_beyond)
    ultimately show ?thesis using t free [OF s6] i same_sched_trans by (metis (no_types, lifting))
  qed
qed

lemma alloc_keeps:
  assumes "sched_inv s Q" "fresh s" "allocproc tr s = Some (Inr (r, t))"
  shows "sched_inv t Q \<and> fresh t"
proof -
  have slot: "sched_inv (proc_upd i g s) Q \<and> fresh (proc_upd i g s)"
    if "i < 64" "state (procs s ! i) = UNUSED" "g = cleared \<or> g = taken" for i g
  proof -
    have "proc_ok (procs s ! i)" using assms(1) that(1) by (simp add: sched_inv_def sched_core_def)
    moreover have "runtime (procs s ! i) = 0" using assms(2) that(1,2) by (simp add: fresh_def)
    ultimately have "proc_ok (g (procs s ! i))" "runtime (g (procs s ! i)) = 0" "state (g (procs s ! i)) \<in> {UNUSED, USED}"
      using that(3) by (auto simp: cleared_def taken_def proc_ok_def quantum_def priority_def)
    then show ?thesis using slot_keeps [OF assms(1,2) that(1), of g] that(2) by simp
  qed
  from allocproc_same [OF assms(3)] show ?thesis
    using same_sched_inv [where s = s and t = t and Q = Q] assms(1,2) slot
      same_sched_inv [where s = "proc_upd i cleared s" and t = t and Q = Q for i]
      same_sched_inv [where s = "proc_upd i taken s" and t = t and Q = Q for i] by metis
qed

text \<open>One step.\<close>

lemma run_step_inv:
  assumes "run_step tramp (ph, s) (ph', t)" "run_inv ph s Q" "fresh s"
  shows "\<exists>Q'. run_inv ph' t Q' \<and> fresh t"
  using assms(1)
proof (cases rule: run_step.cases)
  case (scan q x)
  then show ?thesis using scan_inv [of s Q q x] assms(2,3) by auto
next
  case (remove x qt)
  then show ?thesis using remove_inv [of x s Q qt] assms(2,3) by (auto simp: fresh_def)
next
  case resume
  then show ?thesis using assms(2,3) by (auto simp: kick_same)
next
  case switch
  then show ?thesis using switch_inv [of s Q t] assms(2,3) by auto
next
  case (intr_wakeup i c)
  then show ?thesis using intr_wakeup_inv [of ph s Q i c t] assms(2,3) by simp
next
  case other
  then show ?thesis using other_inv [of ph s Q t] assms(2,3) by auto
next
  case (yield_step i)
  then show ?thesis using yield_keeps [of s Q i t] assms(2,3) by auto
next
  case (nice_step i n)
  then show ?thesis using nice_keeps [of s Q i n] assms(2,3) by auto
next
  case (requeue_step i)
  then show ?thesis using requeue_keeps [of s Q i] assms(2,3) by auto
next
  case (sleep_step i c)
  then show ?thesis using sleep_keeps [of s Q i c t] assms(2,3) by auto
next
  case (kill_step j n r)
  then show ?thesis using kill_keeps [of s Q j n r t] assms(2,3) by auto
next
  case (alloc_step r)
  then show ?thesis using alloc_keeps [of s Q tramp r t] assms(2,3) by auto
next
  case (free_step np)
  then show ?thesis using free_keeps [of s Q np t] assms(2,3) by auto
next
  case (start_step np)
  then show ?thesis using make_runnable_keeps [of s Q np t] unused_kept_fresh assms(2,3) by auto
next
  case (exit_step i st)
  then show ?thesis using exit_keeps [of s Q i st t] assms(2,3) by auto
next
  case startlog_step
  then show ?thesis using assms(2,3)
    by (auto simp: sys_startlog_def sched_inv_def sched_core_def resumed_def fresh_def split: option.splits intro!: exI [of _ Q])
qed

lemma run_steps_inv:
  assumes "(run_step tramp)\<^sup>*\<^sup>* (ph, s) (ph', t)" "run_inv ph s Q" "fresh s"
  shows "\<exists>Q'. run_inv ph' t Q' \<and> fresh t"
  using assms(1)
proof (induction "(ph', t)" arbitrary: ph' t rule: rtranclp_induct)
  case base
  then show ?case using assms(2,3) by blast
next
  case (step y)
  then show ?case using run_step_inv by (metis surj_pair)
qed

section \<open>The operations are runs of these steps\<close>

text \<open>
  A run that starts and ends in phase \<open>ph\<close>. Handlers run in every phase, what a process does runs in
  \<open>Loop\<close>.
\<close>

abbreviation (input) runs :: "nat \<Rightarrow> phase \<Rightarrow> 'z kst_scheme \<Rightarrow> 'z kst_scheme \<Rightarrow> bool" where
  "runs tramp ph s t \<equiv> (run_step tramp)\<^sup>*\<^sup>* (ph, s) (ph, t)"

lemma runs_same: "same_sched s t \<Longrightarrow> runs tramp ph s t"
  by (blast intro: run_step.other)

lemma runs_updR: "(\<And>p. sched_fields (f p) = sched_fields p) \<Longrightarrow> runs tramp ph s (proc_upd i f s)"
  by (rule runs_same [OF same_sched_updR]) simp_all

lemma foldres_runs:
  assumes "\<And>x s t. x \<in> set xs \<Longrightarrow> g x s = Inr t \<Longrightarrow> runs tramp ph s t" and "foldres g xs s = Inr t"
  shows "runs tramp ph s t"
  using assms
proof (induction xs arbitrary: s)
  case (Cons x xs)
  then obtain u where "g x s = Inr u" "foldres g xs u = Inr t" by (auto simp: res_simps)
  then show ?case using Cons.prems(1) [of x s u] Cons.IH [of u] Cons.prems(1) by (meson list.set_intros rtranclp_trans)
qed simp

lemma wakeup_runs: "wakeup c s = Inr t \<Longrightarrow> runs tramp ph s t"
  unfolding wakeup_def by (rule foldres_runs) (auto intro: run_step.intr_wakeup)

lemma kill_runs: "kill n s = Inr (r, t) \<Longrightarrow> runs tramp Loop s t"
proof -
  have "set is \<subseteq> {..<NPROC} \<Longrightarrow> kill_loop n is s = Inr (r, t) \<Longrightarrow> runs tramp Loop s t" for "is"
  proof (induction "is")
    case (Cons j js)
    show ?case
    proof (cases "pid (procs s ! j) = n")
      case True
      then have "kill_loop n [j] s = Inr (r, t)" using Cons.prems(2) by simp
      then show ?thesis using Cons.prems(1) by (intro r_into_rtranclp run_step.kill_step [of j]) simp_all
    qed (use Cons in simp)
  qed simp
  from this [of "[0..<NPROC]"] show "kill n s = Inr (r, t) \<Longrightarrow> runs tramp Loop s t" by (simp add: kill_def atLeast0LessThan)
qed

lemma sleep_runs: "sleep c s = Inr t \<Longrightarrow> runs tramp Loop s t"
  by (auto simp: sleep_def myproc_def split: option.splits intro!: r_into_rtranclp run_step.sleep_step)

lemma yield_runs: "yield s = Inr t \<Longrightarrow> runs tramp Loop s t"
  by (auto simp: yield_def myproc_def split: option.splits intro!: r_into_rtranclp run_step.yield_step)

lemma clock_runs:
  assumes "clockintr s = Inr s1" "count_tick s1 = Inr s2"
  shows "runs tramp ph s s2"
proof -
  have "same_sched s (s\<lparr>ticks := ticks s + 1\<rparr>)" "same_sched s1 s2"
    using assms(2) by (auto simp: same_sched_def count_tick_def split: if_splits)
  then show ?thesis using assms(1) wakeup_runs runs_same unfolding clockintr_def by (metis rtranclp_trans)
qed

lemma usertrap_timer_runs: "usertrap_timer s = Inr t \<Longrightarrow> runs tramp Loop s t"
  by (auto simp: usertrap_timer_def res_simps intro: rtranclp_trans [OF clock_runs yield_runs])

text \<open>The timer interrupt in the kernel: in the scheduler's own code (no process on the hart) it arrives in every phase.\<close>

lemma kerneltrap_timer_runs:
  assumes "kerneltrap_timer s = Inr t"
  shows "runs tramp Loop s t" "cur s = None \<Longrightarrow> runs tramp ph s t"
proof -
  obtain s1 s2 where s: "clockintr s = Inr s1" "count_tick s1 = Inr s2"
    and t: "(case cur s2 of None \<Rightarrow> Inr s2 | Some i \<Rightarrow> if state (procs s2 ! i) = RUNNING then yield s2 else Inr s2) = Inr t"
    using assms by (auto simp: kerneltrap_timer_def res_simps)
  have y: "yield s2 = Inr t \<or> t = s2" using t by (auto split: option.splits if_splits)
  then show "runs tramp Loop s t" using clock_runs [OF s, of tramp Loop] yield_runs [of s2 t tramp] by (auto intro: rtranclp_trans)
  have "cur s1 = cur s" using wakeup_wk [of ChTicks "s\<lparr>ticks := ticks s + 1\<rparr>" s1] s(1) by (simp add: clockintr_def wk_le_def)
  then have "cur s = None \<Longrightarrow> t = s2" using s(2) t by (auto simp: count_tick_def split: if_splits)
  then show "cur s = None \<Longrightarrow> runs tramp ph s t" using clock_runs [OF s] by simp
qed

lemma sys_nice_runs: 
  assumes "sys_nice d s = Inr (r, t)"
  shows "runs tramp Loop s t"
proof -
  obtain i where i: "cur s = Some i" using assms by (auto simp: sys_nice_def myproc_def split: option.splits)
  define s1 where "s1 = proc_upd i (\<lambda>p. p\<lparr>nice := max (min (nice (procs s ! i) + d) NICE_MAX) NICE_MIN\<rparr>) s"
  define s2 where "s2 = (proc_upd i (\<lambda>p. p\<lparr>queue := priority p, runtime := 0\<rparr>) s1)\<lparr>p_kicked := 1\<rparr>"
  have t: "yield s2 = Inr t"
    using assms i by (auto simp: sys_nice_def myproc_def Let_def res_simps s1_def s2_def split: if_splits)
  have "run_step tramp (Loop, s) (Loop, s1)" unfolding s1_def by (rule run_step.nice_step [OF i])
  moreover have "run_step tramp (Loop, s1) (Loop, s2)" unfolding s2_def by (rule run_step.requeue_step) (simp add: s1_def i)
  ultimately show ?thesis using yield_runs [OF t, of tramp] by (meson converse_rtranclp_into_rtranclp)
qed

text \<open>An iteration of the scheduler with a process to run.\<close>

lemma scheduler_runs:
  assumes "scheduler s = Inr t" "rq_inv (qtab s) Q" "cur s = None" "p_kicked s = 0 \<or> highest Q \<noteq> None"
  shows "runs tramp Loop s t"
proof (cases "p_kicked s = 0")
  case True
  then have "scheduler_run s = Inr t" using assms(1) by (simp add: scheduler_def scheduler_pick_def)
  then show ?thesis using True assms(3) run_step.resume run_step.switch by (meson converse_rtranclp_into_rtranclp r_into_rtranclp)
next
  case False
  then obtain q where hi: "highest Q = Some q" using assms(4) by auto
  note q = highest_Some [OF hi]
  have w: "uint (word_of_nat (64 + 2 * q) :: u64) = int (64 + 2 * q)" using q by (intro uint_u64_of_nat) simp
  obtain y ys where y: "Q q = y # ys" using q by (cases "Q q") auto
  note f = firstid_front [OF assms(2) _ y]
  obtain qt where qt: "dequeue (qtab s) = Inr (int y, qt)" "remove_pid (qtab s) (int y) = Inr qt"
    using dequeue_refines [OF assms(2) hi y] remove_pid_refines [OF assms(2) _ y] q f w
    by (auto simp: dequeue_def dequeue_scan_heads [OF assms(2)] hi Let_def)
  have y64: "y < 64" "q < 3" using f(2) q by auto
  have "run_step tramp (Loop, s) (Found (pid_word y), s)"
    using run_step.scan [of s q "pid_word y" tramp] False assms(3) nonempty_head [OF assms(2), of q] f(1) y y64 by (simp add: gethead_def mult.commute)
  moreover have "run_step tramp (Found (pid_word y), s) (Held, s\<lparr>qtab := qt, sched_p := Some y\<rparr>)"
    using run_step.remove [of s "pid_word y" qt tramp] qt(2) y64 by simp
  moreover have "scheduler_run (s\<lparr>qtab := qt, sched_p := Some y\<rparr>) = Inr t"
    using assms(1) False qt(1) by (auto simp: scheduler_def scheduler_pick_def)
  ultimately show ?thesis using run_step.switch by (meson converse_rtranclp_into_rtranclp r_into_rtranclp)
qed

text \<open>What \<^verbatim>\<open>exit\<close> runs of the file system and of pipes only wakes processes.\<close>

lemma fs_do_runs:
  assumes "fs_do op s = Inr t"
  shows "runs tramp ph (ks s) (ks t)"
proof -
  have wk: "foldres wakeup cs k = Inr k' \<Longrightarrow> runs tramp ph k k'" for cs and k k' :: cst
    by (rule foldres_runs) (auto intro: wakeup_runs)
  show ?thesis using assms by (auto simp: fs_do_def fs_run_def fs_exec_def res_simps intro: wk)
qed

lemma pipe_same: "same_sched s (pipe_upd pi f s)"
  by (simp add: same_sched_def pipe_upd_def)

lemma pipeclose_runs:
  assumes "pipeclose pi w s = Inr t"
  shows "runs tramp ph s t"
proof -
  have step: "runs tramp ph s v" if "wakeup c (pipe_upd pi f s) = Inr v" for c f v
    using that runs_same [OF pipe_same] wakeup_runs by (meson rtranclp_trans)
  have free: "runs tramp ph u v" if "kfree a u = Inr v" for a and u v :: "'a pst_scheme"
    using runs_same [OF same_sched_more [OF kfree_more [OF that]]] .
  show ?thesis using assms
    by (auto simp: pipeclose_def res_simps split: if_splits dest!: step free intro: rtranclp_trans)
qed

lemma fileclose_runs: "fileclose f s = Inr t \<Longrightarrow> runs tramp ph (ks s) (ks t)"
  by (auto simp: fileclose_def Let_def file_upd_def res_simps split: if_splits filetype.splits
      dest!: pipeclose_runs [where tramp = tramp and ph = ph] fs_do_runs [where tramp = tramp and ph = ph])

lemma exit_file_runs: "exit_file j fd s = Inr t \<Longrightarrow> runs tramp ph (ks s) (ks t)"
proof -
  have "runs tramp ph k (proc_upd j (\<lambda>q. q\<lparr>ofile := (ofile q)[fd := None]\<rparr>) k)" for k :: cst
    by (rule runs_updR) (simp add: sched_fields_def)
  then show "exit_file j fd s = Inr t \<Longrightarrow> runs tramp ph (ks s) (ks t)"
    by (auto simp: exit_file_def res_simps split: option.splits dest!: fileclose_runs [where tramp = tramp and ph = ph] intro: rtranclp_trans)
qed

lemma exit_files_runs: "foldres (exit_file j) fds s = Inr t \<Longrightarrow> runs tramp ph (ks s) (ks t)"
  by (induction fds arbitrary: s) (auto simp: res_simps dest!: exit_file_runs [where tramp = tramp and ph = ph] intro: rtranclp_trans)

lemma reparent_runs:
  assumes "reparent i s = Inr t"
  shows "runs tramp ph s t"
proof -
  have par: "runs tramp ph k (proc_upd j (\<lambda>q. q\<lparr>parent := v\<rparr>) k)" for j v and k :: "'a kst_scheme"
    by (rule runs_updR) (simp add: sched_fields_def)
  show ?thesis using assms unfolding reparent_def
    by (rule foldres_runs [rotated]) (auto split: if_splits dest!: wakeup_runs [where tramp = tramp and ph = ph] intro: par rtranclp_trans)
qed

lemma exit_runs:
  assumes "exit st s = Inr t"
  shows "runs tramp Loop (ks s) (ks t)"
proof -
  obtain i where i: "cur (ks s) = Some i" using assms by (auto simp: exit_def myproc_def split: option.splits)
  then obtain s1 ip s2 where s: "foldres (exit_file i) [0..<NOFILE] s = Inr s1" "cwd (procs (ks s1) ! i) = Some ip"
    "fs_do (\<lambda>f. bnd (begin_op f) (\<lambda>f1. bnd (iput ip f1) end_op)) s1 = Inr s2"
    and rest: "bnd (reparent i (proc_upd i (\<lambda>p. p\<lparr>cwd := None\<rparr>) (ks s2))) (\<lambda>k1.
           bnd (wakeup (proc_chan (parent (procs k1 ! i))) k1) (\<lambda>k2.
           bnd (sched (proc_upd i (\<lambda>p. p\<lparr>xstate := st, state := ZOMBIE\<rparr>) k2)) (\<lambda>k3.
           Inr (s2\<lparr>ks := k3\<rparr>)))) = Inr t"
    using assms by (auto simp: exit_def myproc_def res_simps Let_def split: if_splits option.splits)
  define k0 where "k0 = proc_upd i (\<lambda>p. p\<lparr>cwd := None\<rparr>) (ks s2)"
  obtain k1 k2 where k: "reparent i k0 = Inr k1" "wakeup (proc_chan (parent (procs k1 ! i))) k1 = Inr k2"
    "sched (proc_upd i (\<lambda>p. p\<lparr>xstate := st, state := ZOMBIE\<rparr>) k2) = Inr (ks t)"
    using rest by (auto simp: res_simps k0_def)
  have "cur k0 = Some i" using exit_files_wk [OF s(1), of 0 0] fs_do_wk [OF s(3), of 0 0] i by (simp add: k0_def wk_le_def)
  moreover have "cur k2 \<noteq> None" using k(3) by (cases "cur k2") (simp_all add: sched_def myproc_def)
  ultimately have c: "cur k2 = Some i" using reparent_fd [OF k(1)] wakeup_fd [OF k(2)] by (auto simp: fd_le_def)
  have "runs tramp Loop (ks s2) k0" unfolding k0_def by (rule runs_updR) (simp add: sched_fields_def)
  then have "runs tramp Loop (ks s) k2"
    using exit_files_runs [OF s(1)] fs_do_runs [OF s(3)] reparent_runs [OF k(1)] wakeup_runs [OF k(2)] by (meson rtranclp_trans)
  then show ?thesis using run_step.exit_step [OF c k(3)] by (rule rtranclp.rtrancl_into_rtrancl)
qed

text \<open>\<^verbatim>\<open>fork\<close> takes a slot, fills it and starts the process, or gives the slot back.\<close>

lemma fork_file_same: "fork_file i np fd s = Inr t \<Longrightarrow> same_sched (ks s) (ks t)"
  by (auto simp: fork_file_def filedup_def file_upd_def res_simps split: option.splits if_splits
      intro!: same_sched_updR simp: sched_fields_def)

lemma fork_files_same: "foldres (fork_file i np) fds s = Inr t \<Longrightarrow> same_sched (ks s) (ks t)"
  by (induction fds arbitrary: s) (auto simp: res_simps dest!: fork_file_same intro: same_sched_trans)

lemma same_sched_state: "same_sched s t \<Longrightarrow> i < length (procs s) \<Longrightarrow> state (procs t ! i) = state (procs s ! i)"
  using same_schedD(2) by (auto simp: sched_fields_eq)

text \<open>The end of \<^verbatim>\<open>fork\<close>, from \<^verbatim>\<open>np->cwd = idup(p->cwd)\<close> on.\<close>

definition fork_start :: "nat \<Rightarrow> nat \<Rightarrow> sys \<Rightarrow> (int \<times> sys) res option" where
  "fork_start i np s1 =
     (case cwd (procs (ks s1) ! i) of
        None \<Rightarrow> Some (Inl OutOfBounds)
      | Some ip \<Rightarrow>
          let (d, f) = idup ip (fs s1);
              k6 = proc_upd np (\<lambda>p. p\<lparr>cwd := Some d, pname := copy_name (pname p) (pname (procs (ks s1) ! i))\<rparr>) (ks s1);
              n = pid (procs k6 ! np);
              k7 = proc_upd np (\<lambda>p. p\<lparr>parent := Some i\<rparr>) k6 in
          bndo (Some (make_runnable np k7)) (\<lambda>k8. Some (Inr (n, s1\<lparr>ks := k8, fs := f\<rparr>))))"

lemma fork_start_same:
  assumes "bndo (Some (foldres (fork_file i np) fds s)) (fork_start i np) = Some (Inr (r, t))"
  shows "\<exists>k. same_sched (ks s) k \<and> make_runnable np k = Inr (ks t)"
proof -
  obtain s1 d where s1: "foldres (fork_file i np) fds s = Inr s1"
    and mr: "make_runnable np (proc_upd np (\<lambda>p. p\<lparr>parent := Some i\<rparr>) (proc_upd np (\<lambda>p. p\<lparr>cwd := Some d,
       pname := copy_name (pname p) (pname (procs (ks s1) ! i))\<rparr>) (ks s1))) = Inr (ks t)"
    using assms by (auto simp: fork_start_def res_simps Let_def case_prod_unfold split: option.splits)
  have "same_sched (ks s) (proc_upd np (\<lambda>p. p\<lparr>parent := Some i\<rparr>) (proc_upd np (\<lambda>p. p\<lparr>cwd := Some d,
       pname := copy_name (pname p) (pname (procs (ks s1) ! i))\<rparr>) (ks s1)))"
    by (intro same_sched_updR fork_files_same [OF s1]) (simp_all add: sched_fields_def)
  then show ?thesis using mr by blast
qed

lemma fork_runs:
  assumes "fork tramp s = Some (Inr (r, t))" and len: "length (procs (ks s)) = NPROC"
  shows "runs tramp Loop (ks s) (ks t)"
proof -
  obtain i npo k1 where i: "myproc (ks s) = Inr i" and k1: "allocproc tramp (ks s) = Some (Inr (npo, k1))"
    using assms(1) by (auto simp: fork_def res_simps)
  have al: "run_step tramp (Loop, ks s) (Loop, k1)" using run_step.alloc_step [OF k1] .
  show ?thesis
  proof (cases npo)
    case None
    then show ?thesis using assms(1) i k1 al by (auto simp: fork_def)
  next
    case (Some np)
    then have np: "np < NPROC" "same_sched (proc_upd np taken (ks s)) k1" using allocproc_same [OF k1] by auto
    then have l1: "length (procs k1) = NPROC" using same_schedD(1) len by fastforce
    have used: "state (procs k ! np) = USED" if "same_sched k1 k" for k
      using same_sched_state [OF same_sched_trans [OF np(2) that], of np] np(1) len by (simp add: taken_def)
    obtain c k2 where k2: "uvmcopy (pagetable (procs k1 ! i)) (pagetable (procs k1 ! np)) (sz (procs k1 ! i)) k1 = Inr (c, k2)"
      using assms(1) i k1 Some by (auto simp: fork_def res_simps)
    have m2: "same_sched k1 k2" using same_sched_more [OF uvmcopy_more [OF k2]] .
    show ?thesis
    proof (cases "c < 0")
      case True
      then have "freeproc np k2 = Some (Inr (ks t))" using assms(1) i k1 Some k2 by (auto simp: fork_def res_simps)
      then have "run_step tramp (Loop, k2) (Loop, ks t)" using run_step.free_step [OF np(1)] used [OF m2] by blast
      then show ?thesis using al run_step.other [OF m2] by (meson converse_rtranclp_into_rtranclp r_into_rtranclp)
    next
      case False
      define k3 where "k3 = proc_upd np (\<lambda>p. p\<lparr>sz := sz (procs k2 ! i)\<rparr>) k2"
      define k5 where "k5 = tf_set np TF_A0 0 (k3\<lparr>mem := memmove (mem k3) (trapframe (procs k3 ! np)) (trapframe (procs k3 ! i)) TF_SIZE\<rparr>)"
      have "same_sched k2 k3" unfolding k3_def by (rule same_sched_updR) (simp_all add: sched_fields_def)
      then have k5: "same_sched k2 k5" by (simp add: k5_def tf_set_def same_sched_def)
      have "bndo (Some (foldres (fork_file i np) [0..<NOFILE] (s\<lparr>ks := k5\<rparr>))) (fork_start i np) = Some (Inr (r, t))"
        using assms(1) i k1 Some k2 False by (simp add: fork_def fork_start_def [abs_def] k5_def k3_def Let_def)
      then obtain k where k: "same_sched k5 k" "make_runnable np k = Inr (ks t)" using fork_start_same by fastforce
      have "same_sched k1 k" by (rule same_sched_trans [OF m2 same_sched_trans [OF k5 k(1)]])
      moreover from this have "run_step tramp (Loop, k) (Loop, ks t)" using run_step.start_step [OF np(1) used k(2)] by blast
      ultimately show ?thesis using al run_step.other by (meson converse_rtranclp_into_rtranclp r_into_rtranclp)
    qed
  qed
qed

text \<open>\<^verbatim>\<open>wait\<close> gives the slot of a zombie back, or sleeps.\<close>

lemma wait_scan_runs:
  assumes "wait_scan i addr nps hk s = Some (Inr (h, r, t))" "set nps \<subseteq> {..<NPROC}"
  shows "runs tramp Loop s t \<and> (r = None \<longrightarrow> t = s)"
  using assms
proof (induction nps arbitrary: hk)
  case (Cons np nps)
  show ?case
  proof (cases "parent (procs s ! np) = Some i \<and> state (procs s ! np) = ZOMBIE")
    case True
    then obtain c s1 where s1: "(if addr \<noteq> 0 then copyout_list (pagetable (procs s ! i)) addr (le_bytes 4 (nat (xstate (procs s ! np) mod 2 ^ 32))) s
        else Inr (0, s)) = Inr (c, s1)" and t: "if c < 0 then t = s1 \<and> r \<noteq> None else freeproc np s1 = Some (Inr t) \<and> r \<noteq> None"
      using Cons.prems(1) by (auto simp: res_simps split: if_splits)
    have m: "km.more s1 = km.more s" using s1 by (auto split: if_splits dest: copyout_list_more)
    then have "state (procs s1 ! np) = ZOMBIE" using True more_kst by metis
    then have "c < 0 \<or> run_step tramp (Loop, s1) (Loop, t)"
      using t run_step.free_step [of np s1 t tramp] Cons.prems(2) by (auto split: if_splits)
    then show ?thesis using t runs_same [OF same_sched_more [OF m], of tramp Loop]
      by (auto split: if_splits intro: rtranclp.rtrancl_into_rtrancl)
  next
    case False
    then obtain hk' where "wait_scan i addr nps hk' s = Some (Inr (h, r, t))"
      using Cons.prems(1) by (auto split: if_splits)
    then show ?thesis using Cons.IH [of hk'] Cons.prems(2) by simp
  qed
qed simp

lemma wait_runs:
  assumes "wait addr s = Some (Inr (r, t))"
  shows "runs tramp Loop s t"
proof -
  obtain i h v s1 where i: "myproc s = Inr i" and w: "wait_scan i addr [0..<NPROC] False s = Some (Inr (h, v, s1))"
    using assms by (auto simp: wait_def res_simps)
  note s1 = wait_scan_runs [OF w, of tramp]
  have "t = s1 \<or> sleep (ChProc i) s1 = Inr t"
    using assms i w by (auto simp: wait_def res_simps split: option.splits if_splits)
  then show ?thesis using s1 sleep_runs [of "ChProc i" s1 t tramp] by (auto simp: atLeast0LessThan intro: rtranclp_trans)
qed

lemma wait_resume_runs:
  assumes "wait_resume addr s = Some (Inr (r, t))"
  shows "runs tramp Loop s t"
proof -
  obtain i where w: "wait addr (proc_upd i (\<lambda>p. p\<lparr>chan := ChNull\<rparr>) s) = Some (Inr (r, t))"
    using assms by (auto simp: wait_resume_def sleep_resume_def res_simps)
  have "runs tramp Loop s (proc_upd i (\<lambda>p. p\<lparr>chan := ChNull\<rparr>) s)" by (rule runs_updR) (simp add: sched_fields_def)
  then show ?thesis using wait_runs [OF w] by (meson rtranclp_trans)
qed

section \<open>No step fails\<close>

lemma wakeup_kick: "wakeup c s = Inr t \<Longrightarrow> wakeup c (s\<lparr>p_kicked := n\<rparr>) = Inr (t\<lparr>p_kicked := n\<rparr>)"
proof -
  have "foldres (wakeup_proc c) xs s = Inr t \<Longrightarrow> foldres (wakeup_proc c) xs (s\<lparr>p_kicked := n\<rparr>) = Inr (t\<lparr>p_kicked := n\<rparr>)" for xs
    by (induction xs arbitrary: s) (auto simp: res_simps intro: wakeup_proc_kick)
  then show "wakeup c s = Inr t \<Longrightarrow> wakeup c (s\<lparr>p_kicked := n\<rparr>) = Inr (t\<lparr>p_kicked := n\<rparr>)" by (simp add: wakeup_def)
qed

lemma run_inv_wakeup:
  assumes "run_inv ph s Q"
  shows "\<exists>t. wakeup c s = Inr t"
proof (cases ph)
  case Held
  then obtain t where "wakeup c (s\<lparr>p_kicked := 0\<rparr>) = Inr t" using assms wakeup_ok by force
  from wakeup_kick [OF this, of "p_kicked s"] show ?thesis by simp
qed (use assms wakeup_ok in force)+

lemma run_inv_remove:
  assumes "run_inv (Found x) s Q"
  shows "\<exists>qt. remove_pid (qtab s) (sint (ucast x :: 32 word)) = Inr qt"
proof -
  obtain q y ys where q: "q < 3" "Q q = y # ys" "x = pid_word y" and rq: "rq_inv (qtab s) Q"
    using assms by (auto simp: sched_inv_def sched_core_def)
  then have "sint (ucast x :: 32 word) = int y" using firstid_front(2) [OF rq q(1,2)] by simp
  then show ?thesis using remove_pid_refines [OF rq q(1,2)] by auto
qed

lemma run_inv_switch: "run_inv Held s Q \<Longrightarrow> \<exists>t. scheduler_run s = Inr t"
  by (auto simp: sched_inv_def scheduler_run_def Let_def)

text \<open>The boot state satisfies the hypotheses of the property below.\<close>

lemma procinit_fresh: "\<exists>s. procinit kst_bss = Inr s \<and> sched_inv s (\<lambda>_. []) \<and> fresh s"
  using procinit_inv by (auto simp: procinit_def res_simps kst_bss_def fresh_def proc_bss_def)

section \<open>Properties\<close>

text \<open>
  C1: no process is lost. In every state that scheduler, interrupt handlers and processes reach from a well-formed one
  (the boot state is such a one) by the steps above, interrupts arriving in every phase of the scheduler and
  processes ticking, sleeping, waking, killing, forking, exiting and waiting in any order,
  the queue table holds three disjoint lists; a process is in a list exactly when it is runnable, its field names that
  queue and the scheduler does not have it in hand; a process in hand is runnable; a process runs
  exactly when the hart holds it; its tick count stays below the quantum of its queue. And the next step never
  fails: \<^verbatim>\<open>wakeup\<close> in a handler, the \<^verbatim>\<open>yield\<close> of the running process, the unlinking of a chosen process and the switch
  all return. What the steps leave out: interrupts between the stores of \<^verbatim>\<open>remove_pid\<close> (there a process can be lost, \<open>dequeue_race_loses\<close>)
  and between the stores of \<^verbatim>\<open>sys_nice\<close> to the queue and the tick count, and a scan of three empty queues
  (which leaves the table, \<open>dequeue_idle_out_of_bounds\<close>).
\<close>

theorem mlfq_no_process_lost:
  assumes "sched_inv s0 Q0" "fresh s0" and run: "(run_step tramp)\<^sup>*\<^sup>* (Loop, s0) (ph, s)"
  shows "\<exists>Q. rq_inv (qtab s) Q \<and>
    (\<forall>i<64. (\<forall>q<3. i \<in> set (Q q) \<longleftrightarrow> state (procs s ! i) = RUNNABLE \<and> queue (procs s ! i) = int q \<and> in_hand ph s \<noteq> Some i) \<and>
       0 \<le> queue (procs s ! i) \<and> queue (procs s ! i) \<le> 2 \<and>
       (in_hand ph s = Some i \<longrightarrow> state (procs s ! i) = RUNNABLE) \<and>
       (state (procs s ! i) = RUNNING \<longleftrightarrow> cur s = Some i) \<and>
       0 \<le> runtime (procs s ! i) \<and> runtime (procs s ! i) < quantum (procs s ! i)) \<and>
    (\<forall>c. \<exists>t. wakeup c s = Inr t) \<and>
    (case ph of Loop \<Rightarrow> cur s \<noteq> None \<longrightarrow> (\<exists>t. yield s = Inr t)
     | Found x \<Rightarrow> \<exists>qt. remove_pid (qtab s) (sint (ucast x :: 32 word)) = Inr qt
     | Held \<Rightarrow> \<exists>t. scheduler_run s = Inr t)"
proof -
  obtain Q where Q: "run_inv ph s Q" using run_steps_inv [OF run, of Q0] assms(1,2) by auto
  define s' where "s' = (if ph = Held then s\<lparr>p_kicked := 0\<rparr> else s)"
  have s': "sched_inv s' Q" "procs s' = procs s" "qtab s' = qtab s" "cur s' = cur s" "in_hand ph s = resumed s'"
    using Q by (cases ph; auto simp: resumed_def s'_def)+
  have core: "sched_core s' Q" using s'(1) by (simp add: sched_inv_def)
  have P: "(i \<in> set (Q q)) = (state (procs s ! i) = RUNNABLE \<and> queue (procs s ! i) = int q \<and> in_hand ph s \<noteq> Some i)"
    if i: "i < 64" and q: "q < 3" for i q
  proof -
    have "resumed s' = Some i \<Longrightarrow> i \<notin> queued Q" using s'(1) by (auto simp: sched_inv_def resumed_def split: if_splits)
    moreover have "(state (procs s ! i) = RUNNABLE) = (i \<in> queued Q \<or> resumed s' = Some i)"
      using s'(1) i unfolding sched_inv_def s'(2) by blast
    moreover have "i \<in> set (Q r) \<Longrightarrow> queue (procs s ! i) = int r" if "r < 3" for r
      using sched_coreD(4) [OF core that] unfolding s'(2) by blast
    ultimately show ?thesis using q unfolding s'(5) queued_def by auto
  qed
  have ok: "proc_ok (procs s ! i)" if "i < 64" for i using sched_coreD(3) [OF core that] unfolding s'(2) .
  have "rq_inv (qtab s) Q" using sched_coreD(2) [OF core] unfolding s'(3) .
  moreover have "(state (procs s ! i) = RUNNING) = (cur s = Some i)" "in_hand ph s = Some i \<Longrightarrow> state (procs s ! i) = RUNNABLE"
    if "i < 64" for i using s'(1) that unfolding sched_inv_def s'(2,4,5) by blast+
  moreover have "\<exists>t. wakeup c s = Inr t" for c using run_inv_wakeup [OF Q] .
  moreover have "case ph of Loop \<Rightarrow> cur s \<noteq> None \<longrightarrow> (\<exists>t. yield s = Inr t)
     | Found x \<Rightarrow> \<exists>qt. remove_pid (qtab s) (sint (ucast x :: 32 word)) = Inr qt
     | Held \<Rightarrow> \<exists>t. scheduler_run s = Inr t"
    using Q yield_ok [of s Q] run_inv_remove [of _ s Q] run_inv_switch [of s Q] by (auto split: phase.split)
  ultimately show ?thesis using P ok unfolding proc_ok_def by (intro exI [of _ Q]) auto
qed

text \<open>The running process sleeps, the scan finds process 1 in the high queue, and the unlinking returns.\<close>

theorem mlfq_no_process_lost_witness:
  "\<exists>qt s qt'. (run_step 0)\<^sup>*\<^sup>* (Loop, demo 0 9 7 qt) (Found 1, s) \<and> remove_pid (qtab s) 1 = Inr qt' \<and>
     (\<exists>Q. rq_inv (qtab s) Q \<and> 1 \<in> set (Q 2))"
proof -
  obtain qt where qt: "rq_inv qt demoQ" using demo_qtab by blast
  let ?s = "demo 0 9 7 qt"
  have inv: "sched_inv ?s demoQ"
    by (rule demo_inv [OF qt]) (simp_all add: quantum_def priority_def proc_bss_def)
  have fresh: "fresh ?s"
  proof -
    have cases: "j = 0 \<or> j = Suc 0 \<or> Suc 0 < j" for j :: nat by arith
    have "state (procs ?s ! j) = UNUSED \<longrightarrow> runtime (procs ?s ! j) = 0" if "j < 64" for j
      using cases [of j] that by (auto simp: demo_simps proc_bss_def)
    then show ?thesis by (simp add: fresh_def)
  qed
  obtain s where s: "sleep ChTicks ?s = Inr s" "sched_inv s demoQ" "cur s = None" "p_kicked s = 1"
    using sleep_ok [OF inv, of 0 ChTicks] by (auto simp: demo_simps)
  have rq: "rq_inv (qtab s) demoQ" using s(2) by (simp add: sched_inv_def sched_core_def)
  have Q: "demoQ 2 = 1 # []" by (simp add: demoQ_def)
  have "run_step 0 (Loop, s) (Found (pid_word 1), s)"
    using run_step.scan [of s 2 "pid_word 1" 0] s(3,4) nonempty_head [OF rq, of 2] firstid_front(1) [OF rq _ Q] Q
    by (simp add: gethead_def)
  then have step: "run_step 0 (Loop, s) (Found 1, s)" by simp
  have "run_step 0 (Loop, ?s) (Loop, s)"
    using s(1) by (intro run_step.sleep_step [of _ 0]) (simp_all add: demo_simps)
  then have run: "(run_step 0)\<^sup>*\<^sup>* (Loop, ?s) (Found 1, s)" using step by (meson r_into_rtranclp rtranclp.rtrancl_into_rtrancl)
  have "state (procs s ! 1) = RUNNABLE" "queue (procs s ! 1) = 2" using sched_coreD(4) [of s demoQ 2 1] s(2) Q by (simp_all add: sched_inv_def)
  then have "(\<exists>qt'. remove_pid (qtab s) 1 = Inr qt') \<and> (\<exists>Q. rq_inv (qtab s) Q \<and> 1 \<in> set (Q 2))"
    using mlfq_no_process_lost [OF inv fresh run] s(4) by (auto simp: resumed_def)
  then show ?thesis using run by blast
qed

end
