(* ===== verification/FreeWalk.thy ===== *)
theory FreeWalk
  imports PageTable
begin

text \<open>
  \<^verbatim>\<open>freewalk\<close> of \<^verbatim>\<open>kernel/vm.c\<close> follows whatever it finds in memory, and the memory changes while
  it frees pages. On a page table that is a tree of pages with no leaf left it returns, and it frees
  exactly the pages of the table.
\<close>

section \<open>Page tables without leaves\<close>

fun bare :: "nat \<Rightarrow> mem \<Rightarrow> nat \<Rightarrow> bool" where
  "bare 0 m pt \<longleftrightarrow> (\<forall>i<512. \<not> pte_valid (load64 m (pt + 8 * i)))"
| "bare (Suc l) m pt \<longleftrightarrow> (\<forall>i<512. let e = load64 m (pt + 8 * i) in
     pte_valid e \<longrightarrow> e AND 14 = 0 \<and> bare l m (PTE2PA e))"

lemma bare_frame:
  assumes "pt_wf l m pt A" "\<And>a. a \<in> pages A \<Longrightarrow> m' a = m a" "bare l m pt"
  shows "bare l m' pt"
  using assms
proof (induction l arbitrary: pt A)
  case 0
  have "load64 m' (pt + 8 * i) = load64 m (pt + 8 * i)" if "i < 512" for i
    by (rule load64_frame) (use 0 that in \<open>auto simp: pages_iff\<close>)
  then show ?case using 0(3) by simp
next
  case (Suc l)
  obtain F where F: "\<forall>i<512. if pte_valid (load64 m (pt + 8 * i))
      then pt_wf l m (PTE2PA (load64 m (pt + 8 * i))) (F i) else F i = {}"
    "A = insert pt (\<Union>i<512. F i)" using Suc.prems(1) by auto
  have ld: "load64 m' (pt + 8 * i) = load64 m (pt + 8 * i)" if "i < 512" for i
    by (rule load64_frame) (use Suc.prems(2) F(2) that in \<open>auto simp: pages_iff\<close>)
  have "bare l m' (PTE2PA (load64 m (pt + 8 * i)))" if "i < 512" "pte_valid (load64 m (pt + 8 * i))" for i
    by (rule Suc.IH) (use F(1) that Suc.prems(2,3) F(2) in \<open>auto simp: pages_iff Let_def\<close>)
  then show ?case using Suc.prems(3) ld by (auto simp: Let_def)
qed

text \<open>The bits of 14 are \<^verbatim>\<open>PTE_R\<close>, \<^verbatim>\<open>PTE_W\<close> and \<^verbatim>\<open>PTE_X\<close>. The part of a table from entry \<open>i\<close> on: \<open>F j\<close> are the pages below entry \<open>j\<close>.\<close>

definition rows :: "nat \<Rightarrow> mem \<Rightarrow> nat \<Rightarrow> nat \<Rightarrow> (nat \<Rightarrow> nat set) \<Rightarrow> bool" where
  "rows l m pt i F \<longleftrightarrow>
     (\<forall>j. i \<le> j \<and> j < 512 \<longrightarrow> (let e = load64 m (pt + 8 * j) in
        if pte_valid e then e AND 14 = 0 \<and> pt_wf l m (PTE2PA e) (F j) \<and> bare l m (PTE2PA e)
        else F j = {})) \<and>
     (\<forall>j k. i \<le> j \<and> j < k \<and> k < 512 \<longrightarrow> F j \<inter> F k = {}) \<and> (\<forall>j. i \<le> j \<and> j < 512 \<longrightarrow> pt \<notin> F j)"

lemma rowsD:
  assumes "rows l m pt i F" "i \<le> j" "j < 512"
  shows "if pte_valid (load64 m (pt + 8 * j))
    then load64 m (pt + 8 * j) AND 14 = 0 \<and> pt_wf l m (PTE2PA (load64 m (pt + 8 * j))) (F j) \<and>
      bare l m (PTE2PA (load64 m (pt + 8 * j)))
    else F j = {}"
  using assms unfolding rows_def Let_def by blast

definition freed :: "'z km_scheme \<Rightarrow> nat set \<Rightarrow> nat list \<Rightarrow> 'z km_scheme res option \<Rightarrow> bool" where
  "freed s A fs r \<longleftrightarrow> (\<exists>s' gs. r = Some (Inr s') \<and> flist s' (gs @ fs) \<and> set gs = A \<and> kend s' = kend s \<and>
     (\<forall>a. a \<notin> pages A \<longrightarrow> mem s' a = mem s a))"

lemma rows_next:
  assumes R: "rows l m pt i F" and i: "i < 512"
    and m': "\<And>a. a \<notin> pages (F i) \<Longrightarrow> a < pt + 8 * i \<or> pt + 8 * i + 8 \<le> a \<Longrightarrow> m' a = m a"
    and al: "pt mod 4096 = 0" "\<And>j p. j < 512 \<Longrightarrow> p \<in> F j \<Longrightarrow> p mod 4096 = 0"
  shows "rows l m' pt (Suc i) F"
proof -
  have apart: "a \<notin> page_bytes p" if "a \<in> page_bytes q" "q \<noteq> p" "p mod 4096 = 0" "q mod 4096 = 0" for a p q
    using page_apart [OF that(3,4)] that(1,2) by auto
  have ptF: "pt \<notin> F i" using R i by (auto simp: rows_def)
  have ld: "load64 m' (pt + 8 * j) = load64 m (pt + 8 * j)" if "Suc i \<le> j" "j < 512" for j
  proof (rule load64_cong)
    fix b assume b: "pt + 8 * j \<le> b" "b < pt + 8 * j + 8"
    then have "b \<in> page_bytes pt" using that by simp
    then have "b \<notin> pages (F i)" using apart [of b pt] al ptF i by (metis pages_iff mem_page_bytes)
    then show "m' b = m b" using m' b that by simp
  qed
  have fr: "m' a = m a" if j: "Suc i \<le> j" "j < 512" and a: "a \<in> pages (F j)" for j a
  proof (rule m')
    obtain q where q: "q \<in> F j" "a \<in> page_bytes q" using a by (auto simp: pages_def)
    have d: "F i \<inter> F j = {}" "pt \<notin> F j" using R j i by (auto simp: rows_def)
    show "a \<notin> pages (F i)"
      using apart [OF q(2)] q(1) al(2) j(2) i d(1) by (metis IntI empty_iff mem_page_bytes pages_iff)
    have "a \<notin> page_bytes pt" using apart [OF q(2)] q(1) al j(2) d(2) by metis
    then show "a < pt + 8 * i \<or> pt + 8 * i + 8 \<le> a" using i by auto
  qed
  have "if pte_valid e then e AND 14 = 0 \<and> pt_wf l m' (PTE2PA e) (F j) \<and> bare l m' (PTE2PA e)
      else F j = {}" if j: "Suc i \<le> j" "j < 512" and e: "e = load64 m (pt + 8 * j)" for j e
  proof -
    have "if pte_valid e then e AND 14 = 0 \<and> pt_wf l m (PTE2PA e) (F j) \<and> bare l m (PTE2PA e)
      else F j = {}" using R j(2) Suc_leD [OF j(1)] unfolding e rows_def Let_def by blast
    then show ?thesis using pt_frame [OF _ fr [OF j]] bare_frame [OF _ fr [OF j]] by (auto split: if_splits)
  qed
  then show ?thesis using R unfolding rows_def Let_def by (auto simp: ld)
qed

lemma freed_rows:
  fixes s :: "'z km_scheme"
  assumes sub: "\<And>(t :: 'z km_scheme) p A fs. \<lbrakk>A \<in> range F; tab_inv l t p A fs; bare l (mem t) p\<rbrakk> \<Longrightarrow>
      freed t A fs (freewalk_from p 0 t)"
    and "rows l (mem s) pt i F" "flist s fs" "page_ok s pt" "pt \<notin> set fs" "i \<le> 512"
    and "\<And>j p. i \<le> j \<Longrightarrow> j < 512 \<Longrightarrow> p \<in> F j \<Longrightarrow> page_ok s p \<and> p \<notin> set fs" and al: "\<And>j p. j < 512 \<Longrightarrow> p \<in> F j \<Longrightarrow> p mod 4096 = 0"
  shows "freed s (insert pt (\<Union>j\<in>{i..<512}. F j)) fs (freewalk_from pt i s)"
  using assms(2-7)
proof (induction "512 - i" arbitrary: i s fs)
  case 0
  then have i: "i = 512" by simp
  then have e: "freewalk_from pt i s = Some (kfree pt s)" by (simp add: freewalk_from.simps)
  obtain m where "kfree pt s = Inr (s\<lparr>mem := m, freelist := pt\<rparr>)" "flist (s\<lparr>mem := m, freelist := pt\<rparr>) (pt # fs)"
    "\<forall>a. a \<notin> page_bytes pt \<longrightarrow> m a = mem s a" using kfree_ok [OF 0(3,4,5)] by blast
  then show ?case unfolding freed_def e unfolding i
    by (intro exI [of _ "s\<lparr>mem := m, freelist := pt\<rparr>"] exI [of _ "[pt]"]) (auto simp: pages_def)
next
  case (Suc n)
  have i: "i < 512" using Suc.hyps(2) by simp
  define e where "e = load64 (mem s) (pt + 8 * i)"
  have ali: "pt mod 4096 = 0" using Suc.prems(3) by (simp add: page_ok_def)
  have UN: "(\<Union>j\<in>{i..<512}. F j) = F i \<union> (\<Union>j\<in>{Suc i..<512}. F j)"
  proof -
    have "{i..<512} = insert i {Suc i..<512}" using i by auto
    then show ?thesis by simp
  qed
  show ?case
  proof (cases "pte_valid e")
    case False
    then have "F i = {}" using rowsD [OF Suc.prems(1) le_refl i] by (simp add: e_def)
    moreover have "freewalk_from pt i s = freewalk_from pt (Suc i) s"
      using False i by (subst freewalk_from.simps) (simp add: e_def)
    moreover have "rows l (mem s) pt (Suc i) F" using Suc.prems(1) by (auto simp: rows_def)
    then have "freed s (insert pt (\<Union>j\<in>{Suc i..<512}. F j)) fs (freewalk_from pt (Suc i) s)"
      by (rule Suc.hyps(1) [rotated]) (use Suc.hyps(2) Suc.prems i Suc_leD in \<open>auto, blast+\<close>)
    ultimately show ?thesis using UN by simp
  next
    case True
    have sb: "e AND 14 = 0" "pt_wf l (mem s) (PTE2PA e) (F i)" "bare l (mem s) (PTE2PA e)"
      using rowsD [OF Suc.prems(1) le_refl i] True by (auto simp: e_def)
    have "tab_inv l s (PTE2PA e) (F i) fs"
      using sb(2) Suc.prems(2,6) i by (auto simp: tab_inv_def)
    from sub [OF rangeI [of F i] this sb(3)] obtain s1 gs where s1: "freewalk_from (PTE2PA e) 0 s = Some (Inr s1)"
      "flist s1 (gs @ fs)" "set gs = F i" "kend s1 = kend s" "\<forall>a. a \<notin> pages (F i) \<longrightarrow> mem s1 a = mem s a"
      by (auto simp: freed_def)
    define s2 where "s2 = s1\<lparr>mem := store64 (mem s1) (pt + 8 * i) 0\<rparr>"
    have step: "freewalk_from pt i s = freewalk_from pt (Suc i) s2"
      using True i sb(1) s1(1) by (subst freewalk_from.simps) (simp add: e_def s2_def)
    have m2: "mem s2 a = mem s a" if "a \<notin> pages (F i)" "a < pt + 8 * i \<or> pt + 8 * i + 8 \<le> a" for a
      using that s1(5) by (simp add: s2_def)
    have ptn: "pt \<notin> set (gs @ fs)" using Suc.prems(1,4) i s1(3) by (auto simp: rows_def)
    have fl2: "flist s2 (gs @ fs)"
    proof (rule flist_frame [OF s1(2)])
      fix p a assume "p \<in> set (gs @ fs)" "a \<in> page_bytes p"
      moreover have "p mod 4096 = 0" "p \<noteq> pt" using s1(2) ptn calculation(1) by (auto simp: flist_def page_ok_def)
      ultimately show "mem s2 a = mem s1 a"
        using page_apart [of p pt] ali i unfolding s2_def by (auto intro!: store64_other)
    qed (simp_all add: s2_def)
    have ok2: "page_ok s2 p = page_ok s p" for p using s1(4) by (simp add: page_ok_def s2_def)
    have "freed s2 (insert pt (\<Union>j\<in>{Suc i..<512}. F j)) (gs @ fs) (freewalk_from pt (Suc i) s2)"
    proof (rule Suc.hyps(1))
      show "rows l (mem s2) pt (Suc i) F" by (rule rows_next [OF Suc.prems(1) i m2 ali al])
      show "page_ok s2 p \<and> p \<notin> set (gs @ fs)" if "Suc i \<le> j" "j < 512" "p \<in> F j" for j p
      proof -
        have "F i \<inter> F j = {}" using Suc.prems(1) that by (auto simp: rows_def)
        then show ?thesis using Suc.prems(6) [OF Suc_leD [OF that(1)] that(2,3)] that(3) s1(3) by (auto simp: ok2)
      qed
    qed (use Suc.hyps(2) Suc.prems(3) i fl2 ptn ok2 in simp_all)
    then obtain s' hs where s': "freewalk_from pt (Suc i) s2 = Some (Inr s')" "flist s' (hs @ gs @ fs)"
      "set hs = insert pt (\<Union>j\<in>{Suc i..<512}. F j)" "kend s' = kend s2"
      "\<forall>a. a \<notin> pages (insert pt (\<Union>j\<in>{Suc i..<512}. F j)) \<longrightarrow> mem s' a = mem s2 a"
      by (auto simp: freed_def)
    have "mem s' a = mem s a" if a: "a \<notin> pages (insert pt (\<Union>j\<in>{i..<512}. F j))" for a
    proof -
      have "a \<notin> page_bytes pt" "a \<notin> pages (F i)" "a \<notin> pages (insert pt (\<Union>j\<in>{Suc i..<512}. F j))"
        using a unfolding UN by (auto simp: pages_def)
      moreover from this(1) have "a < pt + 8 * i \<or> pt + 8 * i + 8 \<le> a" using i by auto
      ultimately show ?thesis using s'(5) m2 by simp
    qed
    then show ?thesis unfolding freed_def step
      using s' s1(3,4) UN by (intro exI [of _ s'] exI [of _ "hs @ gs"]) (auto simp: s2_def)
  qed
qed

lemma freed_table:
  "tab_inv l s pt A fs \<Longrightarrow> bare l (mem s) pt \<Longrightarrow> freed s A fs (freewalk_from pt 0 s)"
proof (induction l arbitrary: s pt A fs)
  case 0
  note I = tab_invD [OF 0(1)]
  have A: "A = {pt}" using I(2) by simp
  have "rows 0 (mem s) pt 0 (\<lambda>_. {})" using 0(2) by (simp add: rows_def)
  moreover have "B \<in> range (\<lambda>_. {}) \<Longrightarrow> tab_inv 0 t p B gs \<Longrightarrow> False" for B p gs and t :: "'a km_scheme"
    by (auto simp: tab_inv_def)
  ultimately have "freed s (insert pt (\<Union>j\<in>{0..<512 :: nat}. {})) fs (freewalk_from pt 0 s)"
    using I(1,3,4) A by (intro freed_rows [where l = 0]) auto
  then show ?case using A by simp
next
  case (Suc l)
  note I = tab_invD [OF Suc.prems(1)]
  obtain F where F: "\<forall>i<512. if pte_valid (load64 (mem s) (pt + 8 * i))
      then pt_wf l (mem s) (PTE2PA (load64 (mem s) (pt + 8 * i))) (F i) else F i = {}"
    "\<forall>i<512. pt \<notin> F i" "\<forall>i<512. \<forall>j<512. i \<noteq> j \<longrightarrow> F i \<inter> F j = {}"
    "A = insert pt (\<Union>i<512. F i)" using I(2) by auto
  have "rows l (mem s) pt 0 F" using F Suc.prems(2) by (auto simp: rows_def Let_def)
  moreover have "p mod 4096 = 0" if "j < 512" "p \<in> F j" for j p
    using that pt_wf_aligned [OF I(2)] F(4) by auto
  ultimately have "freed s (insert pt (\<Union>j\<in>{0..<512}. F j)) fs (freewalk_from pt 0 s)"
    using I(1,3,4) F(4) Suc.IH by (intro freed_rows [where l = l]) auto
  then show ?case using F(4) by (simp add: atLeast0LessThan)
qed

section \<open>Properties\<close>

text \<open>
  C15: \<^verbatim>\<open>freewalk\<close> returns. On a page table that is a tree of distinct pages, apart from the free
  pages, whose leaves have all been unmapped (as \<^verbatim>\<open>uvmunmap\<close> leaves it), the recursion comes to an end
  without a panic; the allocator then owns exactly the pages of the table in front of its old free pages,
  each once, and no byte outside those pages has changed.
\<close>

theorem freewalk_returns:
  assumes "pt_inv s pt A fs" and "bare 2 (mem s) pt"
  shows "\<exists>s' gs. freewalk pt s = Some (Inr s') \<and> flist s' (gs @ fs) \<and> set gs = A \<and> distinct gs \<and>
    (\<forall>a. a \<notin> pages A \<longrightarrow> mem s' a = mem s a)"
  using freed_table [OF assms] unfolding freed_def freewalk_def flist_def by auto

definition bare_km :: km where
  "bare_km = demo_km\<lparr>mem := store64 ptdemo_mem 12288 0\<rparr>"

theorem freewalk_returns_witness:
  "\<exists>s' gs. freewalk 4096 bare_km = Some (Inr s') \<and> flist s' gs \<and> set gs = {4096, 8192, 12288} \<and> distinct gs"
proof -
  have l0: "load64 ptdemo_mem 4096 = PA2PTE 8192 OR 1" "load64 ptdemo_mem 8192 = PA2PTE 12288 OR 1"
    using ptdemo_load [of 0] by simp_all
  have "slot 2 ptdemo_mem 4096 0 = 12288"
    using ptdemo_PX [of 0] l0 by (simp add: numeral_2_eq_2 Let_def)
  then have inv: "pt_inv bare_km 4096 {4096, 8192, 12288} []"
    using tab_inv_store [OF ptdemo_inv, of 0 0] by (simp add: bare_km_def demo_km_def)
  have ld: "load64 (mem bare_km) (4096 + 8 * i) = (if i = 0 then PA2PTE 8192 OR 1 else 0)"
    "load64 (mem bare_km) (8192 + 8 * i) = (if i = 0 then PA2PTE 12288 OR 1 else 0)"
    "load64 (mem bare_km) (12288 + 8 * i) = 0" if "i < 512" for i
    using that ptdemo_load [OF that] by (cases "i = 0"; simp add: bare_km_def)+
  have fl: "(PA2PTE 8192 OR 1) AND 14 = 0" "(PA2PTE 12288 OR 1) AND 14 = 0" by (simp_all add: PA2PTE_def)
  have "bare 0 (mem bare_km) 12288" using ld(3) by simp
  then have "bare (Suc 0) (mem bare_km) 8192" using ld(2) fl by (auto simp: Let_def simp del: bare.simps(1))
  then have "bare 2 (mem bare_km) 4096" unfolding numeral_2_eq_2
    using ld(1) fl by (auto simp: Let_def bare.simps(2) [of "Suc 0"] simp del: bare.simps)
  from freewalk_returns [OF inv this] show ?thesis by auto
qed

end
