(* ===== verification/Umalloc.thy ===== *)
theory Umalloc
  imports Prelude "HOL-Library.Disjoint_Sets"
begin

text \<open>
  \<^verbatim>\<open>user/umalloc.c\<close>: the storage allocator of Kernighan and Ritchie, a circular list of free blocks in
  the order of their addresses. A block begins with a header of 16 bytes, \<^verbatim>\<open>ptr\<close> and \<^verbatim>\<open>size\<close>; sizes
  count headers. \<open>heap_ok u L\<close> says that the live blocks \<open>L\<close> and the free list are disjoint and lie in
  the heap; the theorems show that \<^verbatim>\<open>malloc\<close> and \<^verbatim>\<open>free\<close> return and keep it.
\<close>

section \<open>The operations\<close>

text \<open>
  The headers by their addresses, \<open>freep\<close> (0 when null), the address of the static header \<^verbatim>\<open>base\<close>, and
  the end of the heap, which \<^verbatim>\<open>sbrk\<close> moves.
\<close>

record ust =
  hptr :: "nat \<Rightarrow> nat"
  hsize :: "nat \<Rightarrow> u32"
  freep :: nat
  ubase :: nat
  brk :: nat

definition set_ptr :: "nat \<Rightarrow> nat \<Rightarrow> ust \<Rightarrow> ust" where
  "set_ptr a v u = u\<lparr>hptr := (hptr u)(a := v)\<rparr>"

definition set_size :: "nat \<Rightarrow> u32 \<Rightarrow> ust \<Rightarrow> ust" where
  "set_size a v u = u\<lparr>hsize := (hsize u)(a := v)\<rparr>"

text \<open>The header after the block at \<open>a\<close>: \<^verbatim>\<open>p + p->s.size\<close>.\<close>

definition block_end :: "ust \<Rightarrow> nat \<Rightarrow> nat" where
  "block_end u a = a + 16 * unat (hsize u a)"

text \<open>The search of \<^verbatim>\<open>free\<close> for the neighbours of \<open>bp\<close>; it need not end on a list that is not in order.\<close>

partial_function (option) free_loop :: "ust \<Rightarrow> nat \<Rightarrow> nat \<Rightarrow> nat option" where
  "free_loop u bp p =
     (if bp > p \<and> bp < hptr u p then Some p
      else if p \<ge> hptr u p \<and> (bp > p \<or> bp < hptr u p) then Some p
      else free_loop u bp (hptr u p))"

text \<open>Joining with the block after, then with the block before.\<close>

definition link_next :: "ust \<Rightarrow> nat \<Rightarrow> nat \<Rightarrow> ust" where
  "link_next u bp p =
     (if block_end u bp = hptr u p then
        let u0 = set_size bp (hsize u bp + hsize u (hptr u p)) u
        in set_ptr bp (hptr u0 (hptr u0 p)) u0
      else set_ptr bp (hptr u p) u)"

definition link_prev :: "ust \<Rightarrow> nat \<Rightarrow> nat \<Rightarrow> ust" where
  "link_prev u bp p =
     (if block_end u p = bp then
        let u0 = set_size p (hsize u p + hsize u bp) u
        in set_ptr p (hptr u0 bp) u0
      else set_ptr p bp u)"

definition free_link :: "ust \<Rightarrow> nat \<Rightarrow> nat \<Rightarrow> ust" where
  "free_link u bp p = (link_prev (link_next u bp p) bp p)\<lparr>freep := p\<rparr>"

definition free :: "nat \<Rightarrow> ust \<Rightarrow> ust option" where
  "free ap u = (let bp = ap - 16 in map_option (free_link u bp) (free_loop u bp (freep u)))"

text \<open>
  \<^verbatim>\<open>sbrk\<close> as the process sees it. The argument of \<^verbatim>\<open>sys_sbrk\<close> and the old size that it returns are \<^verbatim>\<open>int\<close>s, so
  the result is sign-extended to the 64 bits of the pointer; the sizes in \<^verbatim>\<open>growproc\<close> are unsigned 32 bit
  integers, and a new size that is smaller (or, when shrinking, not smaller) than the old one changes nothing. Whether
  the kernel has the memory to grow to a size is the parameter \<open>grant\<close>; if not, the result is -1.
\<close>

definition minus_one :: nat where "minus_one = 2 ^ 64 - 1"

definition int_to_ptr :: "nat \<Rightarrow> nat" where
  "int_to_ptr a = (if a < 2 ^ 31 then a else 2 ^ 64 - 2 ^ 32 + a)"

definition sbrk :: "(nat \<Rightarrow> bool) \<Rightarrow> 32 word \<Rightarrow> ust \<Rightarrow> ust \<times> nat" where
  "sbrk grant n u =
     (let old = brk u mod 2 ^ 32;
          new = nat ((int old + sint n) mod 2 ^ 32) in
      if 0 < sint n then
        (if new < old then (u\<lparr>brk := old\<rparr>, int_to_ptr old)
         else if grant new then (u\<lparr>brk := new\<rparr>, int_to_ptr old)
         else (u, minus_one))
      else (u\<lparr>brk := (if new < old then new else old)\<rparr>, int_to_ptr old))"

definition morecore :: "(nat \<Rightarrow> bool) \<Rightarrow> u32 \<Rightarrow> ust \<Rightarrow> (ust \<times> nat) option" where
  "morecore grant nu u =
     (let n = (if nu < 4096 then 4096 else nu);
          (u1, p) = sbrk grant (word_of_nat (unat n * 16)) u in
      if p = minus_one then Some (u1, 0)
      else map_option (\<lambda>u2. (u2, freep u2)) (free (p + 16) (set_size p n u1)))"

text \<open>Growing below 2 GB: none of the conversions matters.\<close>

lemma sbrk_grows:
  assumes "0 < sint n" "brk u \<le> 2 ^ 31"
  shows "grant (brk u + nat (sint n)) \<Longrightarrow> brk u < 2 ^ 31 \<Longrightarrow>
      sbrk grant n u = (u\<lparr>brk := brk u + nat (sint n)\<rparr>, brk u)"
    and "\<not> grant (brk u + nat (sint n)) \<Longrightarrow> sbrk grant n u = (u, minus_one)"
proof -
  have "sint n < 2 ^ 31" using sint_lt [of n] by simp
  then have "nat (sint n) < 2 ^ 31" using assms(1) by simp
  then have b: "brk u + nat (sint n) < 2 ^ 32" using assms(2) by simp
  have new: "nat ((int (brk u) + sint n) mod 2 ^ 32) = brk u + nat (sint n)"
    using assms(1) b by (simp add: nat_add_distrib)
  have old: "brk u mod 2 ^ 32 = brk u" using assms(2) by simp
  have "sbrk grant n u = (if grant (brk u + nat (sint n)) then (u\<lparr>brk := brk u + nat (sint n)\<rparr>, int_to_ptr (brk u)) else (u, minus_one))"
    unfolding sbrk_def Let_def old new using assms(1) by simp
  then show "grant (brk u + nat (sint n)) \<Longrightarrow> brk u < 2 ^ 31 \<Longrightarrow>
      sbrk grant n u = (u\<lparr>brk := brk u + nat (sint n)\<rparr>, brk u)"
    "\<not> grant (brk u + nat (sint n)) \<Longrightarrow> sbrk grant n u = (u, minus_one)"
    by (simp_all add: int_to_ptr_def)
qed

definition take_block :: "ust \<Rightarrow> u32 \<Rightarrow> nat \<Rightarrow> nat \<Rightarrow> ust \<times> nat" where
  "take_block u nunits prevp p =
     (if hsize u p = nunits then ((set_ptr prevp (hptr u p) u)\<lparr>freep := prevp\<rparr>, p + 16)
      else
        let u1 = set_size p (hsize u p - nunits) u;
            q = block_end u1 p
        in ((set_size q nunits u1)\<lparr>freep := prevp\<rparr>, q + 16))"

partial_function (option) malloc_loop ::
  "(nat \<Rightarrow> bool) \<Rightarrow> u32 \<Rightarrow> ust \<Rightarrow> nat \<Rightarrow> nat \<Rightarrow> (ust \<times> nat) option" where
  "malloc_loop grant nunits u prevp p =
     (if hsize u p \<ge> nunits then Some (take_block u nunits prevp p)
      else if p = freep u then
        Option.bind (morecore grant nunits u) (\<lambda>(u1, q).
          if q = 0 then Some (u1, 0) else malloc_loop grant nunits u1 q (hptr u1 q))
      else malloc_loop grant nunits u p (hptr u p))"

definition units :: "u32 \<Rightarrow> u32" where
  "units nbytes = word_of_nat ((unat nbytes + 16 - 1) div 16 + 1)"

definition malloc :: "(nat \<Rightarrow> bool) \<Rightarrow> u32 \<Rightarrow> ust \<Rightarrow> (ust \<times> nat) option" where
  "malloc grant nbytes u =
     (let u1 = (if freep u = 0
                then set_size (ubase u) 0 ((set_ptr (ubase u) (ubase u) u)\<lparr>freep := ubase u\<rparr>) else u)
      in malloc_loop grant (units nbytes) u1 (freep u1) (hptr u1 (freep u1)))"

section \<open>The free list\<close>

definition span :: "nat \<Rightarrow> nat \<Rightarrow> nat set" where
  "span a n = {a ..< a + 16 * n}"

abbreviation sz :: "ust \<Rightarrow> nat \<Rightarrow> nat" where
  "sz u a \<equiv> unat (hsize u a)"

fun chain :: "(nat \<Rightarrow> nat) \<Rightarrow> nat \<Rightarrow> nat list \<Rightarrow> nat \<Rightarrow> bool" where
  "chain h a [] z = (h a = z)"
| "chain h a (x # xs) z = (h a = x \<and> chain h x xs z)"

text \<open>The free blocks \<open>fs\<close> in the order of their addresses, with a gap between any two.\<close>

definition free_list :: "ust \<Rightarrow> nat list \<Rightarrow> bool" where
  "free_list u fs \<longleftrightarrow> chain (hptr u) (ubase u) fs (ubase u) \<and> sorted_wrt (\<lambda>a b. a + 16 * sz u a < b) fs \<and>
     (\<forall>a\<in>set fs. ubase u + 16 \<le> a \<and> 0 < sz u a \<and> a + 16 * sz u a \<le> brk u) \<and> sz u (ubase u) = 0 \<and>
     freep u \<in> insert (ubase u) (set fs) \<and> 0 < ubase u \<and> ubase u + 16 \<le> brk u \<and> brk u \<le> 2 ^ 31"

definition region :: "ust \<Rightarrow> nat list \<Rightarrow> nat set" where
  "region u fs = (\<Union>a\<in>set fs. span a (sz u a))"

text \<open>A chain cut in two: the first part ends at the head of the second.\<close>

definition tail :: "(nat \<Rightarrow> nat) \<Rightarrow> nat list \<Rightarrow> nat \<Rightarrow> bool" where
  "tail h ys z = (case ys of [] \<Rightarrow> True | y # r \<Rightarrow> chain h y r z)"

lemma tail_simps [simp]: "tail h [] z" "tail h (y # r) z = chain h y r z"
  by (simp_all add: tail_def)

lemma chain_tail: "chain h a ys z \<longleftrightarrow> h a = hd (ys @ [z]) \<and> tail h ys z"
  by (cases ys) auto

lemma chain_split: "chain h a (xs @ ys) z \<longleftrightarrow> chain h a xs (hd (ys @ [z])) \<and> tail h ys z"
  by (induction xs arbitrary: a) (auto simp: chain_tail [of h _ ys])

lemma chain_last: "chain h a xs z \<Longrightarrow> h (last (a # xs)) = z"
  by (induction xs arbitrary: a) auto

lemma chain_upd: "b \<notin> set (a # xs) \<Longrightarrow> chain (h(b := v)) a xs z = chain h a xs z"
  by (induction xs arbitrary: a) auto

lemma tail_upd: "b \<notin> set ys \<Longrightarrow> tail (h(b := v)) ys z = tail h ys z"
  by (cases ys) (auto simp: chain_upd)

lemma chain_redirect:
  "distinct (a # xs) \<Longrightarrow> chain h a xs z \<Longrightarrow> chain (h(last (a # xs) := v)) a xs v"
  by (induction xs arbitrary: a) (auto simp: chain_upd split: if_splits)

lemma set_simps [simp]:
  "hptr (set_ptr a v u) = (hptr u)(a := v)" "hsize (set_ptr a v u) = hsize u" "freep (set_ptr a v u) = freep u"
  "ubase (set_ptr a v u) = ubase u" "brk (set_ptr a v u) = brk u"
  "hptr (set_size a w u) = hptr u" "hsize (set_size a w u) = (hsize u)(a := w)" "freep (set_size a w u) = freep u"
  "ubase (set_size a w u) = ubase u" "brk (set_size a w u) = brk u"
  by (simp_all add: set_ptr_def set_size_def)

lemma span_add: "span a (m + n) = span a m \<union> span (a + 16 * m) n"
  by (auto simp: span_def)

lemma free_list_sorted:
  assumes "free_list u fs"
  shows "sorted_wrt (<) (ubase u # fs)" "distinct (ubase u # fs)"
proof -
  have "sorted_wrt (<) fs"
    using assms sorted_wrt_mono_rel [of fs "\<lambda>a b. a + 16 * sz u a < b" "(<)"] by (auto simp: free_list_def)
  then show s: "sorted_wrt (<) (ubase u # fs)" using assms by (auto simp: free_list_def)
  then show "distinct (ubase u # fs)" by (simp only: strict_sorted_iff)
qed

lemma gaps_cong:
  assumes "sorted_wrt (\<lambda>a b. a + 16 * sz u a < b) xs" "\<And>a. a \<in> set xs \<Longrightarrow> hsize v a = hsize u a"
  shows "sorted_wrt (\<lambda>a b. a + 16 * sz v a < b) xs"
  using assms(1) by (rule sorted_wrt_mono_rel [rotated]) (simp add: assms(2))

section \<open>free\<close>

text \<open>A block outside the free list lies between two parts of it.\<close>

lemma free_position:
  assumes fl: "free_list u fs" and d: "span b n \<inter> region u fs = {}" and n: "0 < n"
  obtains xs ys where "fs = xs @ ys" "\<forall>x\<in>set xs. x + 16 * sz u x \<le> b" "\<forall>y\<in>set ys. b + 16 * n \<le> y"
proof
  show "fs = takeWhile (\<lambda>x. x < b) fs @ dropWhile (\<lambda>x. x < b) fs" by simp
  have apart: "a + 16 * sz u a \<le> b \<or> b + 16 * n \<le> a" if a: "a \<in> set fs" for a
  proof (rule ccontr)
    assume "\<not> ?thesis"
    then have "max a b \<in> span b n \<inter> span a (sz u a)" using a fl n by (auto simp: span_def free_list_def)
    then show False using d a by (auto simp: region_def)
  qed
  show "\<forall>x\<in>set (takeWhile (\<lambda>x. x < b) fs). x + 16 * sz u x \<le> b"
    using apart n set_takeWhileD by fastforce
  have "\<forall>y\<in>set (dropWhile (\<lambda>x. x < b) fs). b \<le> y"
    using free_list_sorted(1) [OF fl] by (induction fs) auto
  then show "\<forall>y\<in>set (dropWhile (\<lambda>x. x < b) fs). b + 16 * n \<le> y"
    using apart fl by (fastforce simp: free_list_def dest: set_dropWhileD)
qed

lemma free_loop_below:
  assumes "chain (hptr u) p zs q" "sorted_wrt (<) (p # zs)" "\<forall>z\<in>set (p # zs). z < bp" "bp < q \<or> q \<le> ubase u"
    "ubase u \<le> p"
  shows "free_loop u bp p = Some (last (p # zs))"
  using assms
proof (induction zs arbitrary: p)
  case Nil
  then show ?case by (subst free_loop.simps) auto
next
  case (Cons z zs)
  then show ?case by (subst free_loop.simps) auto
qed

lemma free_loop_above:
  assumes "chain (hptr u) p zs (ubase u)" "sorted_wrt (<) (p # zs)" "\<forall>z\<in>set (p # zs). bp < z" "ubase u < bp"
  shows "free_loop u bp p = free_loop u bp (ubase u)"
  using assms
proof (induction zs arbitrary: p)
  case Nil
  then show ?case by (subst free_loop.simps) auto
next
  case (Cons z zs)
  then show ?case by (subst free_loop.simps) auto
qed

lemma free_loop_finds:
  assumes fl: "free_list u (xs @ ys)" and xs: "\<forall>x\<in>set xs. x < bp" and ys: "\<forall>y\<in>set ys. bp < y"
    and b: "ubase u < bp"
  shows "free_loop u bp (freep u) = Some (last (ubase u # xs))"
proof -
  note s = free_list_sorted(1) [OF fl]
  have c: "chain (hptr u) (ubase u) (xs @ ys) (ubase u)" and f: "freep u \<in> insert (ubase u) (set xs \<union> set ys)"
    using fl by (auto simp: free_list_def)
  define q where "q = hd (ys @ [ubase u])"
  have q: "bp < q \<or> q \<le> ubase u" using ys by (cases ys) (auto simp: q_def)
  have cx: "chain (hptr u) (ubase u) xs q" using c by (simp add: chain_split q_def)
  have base: "free_loop u bp (ubase u) = Some (last (ubase u # xs))"
    by (rule free_loop_below [OF cx _ _ q]) (use s xs b in \<open>auto simp: sorted_wrt_append\<close>)
  show ?thesis
  proof (cases "freep u \<in> set ys")
    case True
    then obtain y1 y2 where y: "ys = y1 @ freep u # y2" by (meson split_list)
    have "chain (hptr u) (freep u) y2 (ubase u)"
      using c by (simp add: y chain_split [of _ _ "xs @ y1", simplified])
    then have "free_loop u bp (freep u) = free_loop u bp (ubase u)"
      by (rule free_loop_above) (use s ys b in \<open>auto simp: y sorted_wrt_append\<close>)
    then show ?thesis using base by simp
  next
    case False
    show ?thesis
    proof (cases "freep u = ubase u")
      case True
      then show ?thesis using base by simp
    next
      case nb: False
      then obtain x1 x2 where x: "xs = x1 @ freep u # x2" using f False by (auto dest: split_list)
      have "chain (hptr u) (freep u) x2 q" using cx by (simp add: x chain_split)
      then have "free_loop u bp (freep u) = Some (last (freep u # x2))"
        by (rule free_loop_below [OF _ _ _ q]) (use s xs in \<open>auto simp: x sorted_wrt_append\<close>)
      then show ?thesis by (simp add: x)
    qed
  qed
qed


text \<open>What the two links rely on: the place of the block, and its own size.\<close>

definition block_fits :: "ust \<Rightarrow> nat list \<Rightarrow> nat \<Rightarrow> nat list \<Rightarrow> bool" where
  "block_fits u xs b ys \<longleftrightarrow> (\<forall>x\<in>set xs. x + 16 * sz u x \<le> b) \<and> (\<forall>y\<in>set ys. b + 16 * sz u b \<le> y) \<and>
     0 < sz u b \<and> ubase u + 16 \<le> b \<and> b + 16 * sz u b \<le> brk u"

lemma region_simps [simp]:
  "region u [] = {}" "region u (x # xs) = span x (sz u x) \<union> region u xs"
  "region u (xs @ ys) = region u xs \<union> region u ys"
  by (auto simp: region_def)

lemma region_upd: "(\<forall>a\<in>set xs. hsize v a = hsize u a) \<Longrightarrow> region v xs = region u xs"
  by (simp add: region_def)

lemma unat_size_add: "unat v + unat w < 2 ^ 32 \<Longrightarrow> unat (v + w :: u32) = unat v + unat w"
  by (simp add: unat_word_ariths)

lemma block_above:
  assumes "free_list u (xs @ ys)" "block_fits u xs b ys" "x \<in> set (ubase u # xs)"
  shows "x < b"
proof (cases "x = ubase u")
  case True
  then show ?thesis using assms(2) by (simp add: block_fits_def)
next
  case False
  then have x: "x \<in> set xs" using assms(3) by simp
  have "x + 16 * sz u x \<le> b" using x assms(2) by (simp add: block_fits_def)
  moreover have "0 < sz u x" using x assms(1) by (simp add: free_list_def)
  ultimately show ?thesis by linarith
qed

lemma block_below:
  assumes "block_fits u xs b ys" "y \<in> set ys"
  shows "b < y"
proof -
  have "b + 16 * sz u b \<le> y" "0 < sz u b" using assms by (simp_all add: block_fits_def)
  then show ?thesis by linarith
qed

lemma link_next_ok:
  assumes fl: "free_list u (xs @ ys)" and bf: "block_fits u xs b ys"
  obtains ys1 s where "hptr (link_next u b (last (ubase u # xs))) = (hptr u)(b := hd (ys1 @ [ubase u]))"
    "hsize (link_next u b (last (ubase u # xs))) = (hsize u)(b := s)"
    "tail (hptr u) ys1 (ubase u)" "set ys1 \<subseteq> set ys" "sorted_wrt (\<lambda>a b. a + 16 * sz u a < b) ys1"
    "\<forall>y\<in>set ys1. b + 16 * unat s < y" "0 < unat s" "b + 16 * unat s \<le> brk u"
    "span b (unat s) \<union> region u ys1 = span b (sz u b) \<union> region u ys" "sz u b \<le> unat s"
proof -
  let ?p = "last (ubase u # xs)"
  have c: "chain (hptr u) (ubase u) xs (hd (ys @ [ubase u]))" "tail (hptr u) ys (ubase u)"
    using fl by (auto simp: free_list_def chain_split)
  have hp: "hptr u ?p = hd (ys @ [ubase u])" using chain_last [OF c(1)] by simp
  have pb: "?p \<noteq> b" using block_above [OF fl bf last_in_set] by auto
  show thesis
  proof (cases "block_end u b = hptr u ?p")
    case True
    then obtain y ys2 where y: "ys = y # ys2" "y = b + 16 * sz u b"
      using hp bf by (cases ys) (auto simp: block_end_def block_fits_def)
    have yb: "y \<noteq> b" using y bf by (simp add: block_fits_def)
    have s: "unat (hsize u b + hsize u y) = sz u b + sz u y"
      using fl bf y by (intro unat_size_add) (auto simp: free_list_def block_fits_def)
    show thesis
      by (rule that [of ys2 "hsize u b + hsize u y"])
        (use True c y fl bf hp pb s yb in \<open>auto simp: link_next_def Let_def chain_tail free_list_def
            block_fits_def sorted_wrt_append span_add\<close>)
  next
    case False
    have "\<forall>y\<in>set ys. b + 16 * sz u b < y"
    proof
      fix y assume y: "y \<in> set ys"
      then obtain z zs where ys: "ys = z # zs" by (cases ys) auto
      have "b + 16 * sz u b < z" using bf False hp by (auto simp: block_fits_def block_end_def ys)
      then show "b + 16 * sz u b < y" using y fl by (auto simp: ys free_list_def sorted_wrt_append)
    qed
    then show thesis
      by (intro that [of ys "hsize u b"])
        (use False c fl bf hp in \<open>auto simp: link_next_def free_list_def block_fits_def sorted_wrt_append\<close>)
  qed
qed


lemma free_link_ok:
  assumes fl: "free_list u (xs @ ys)" and bf: "block_fits u xs b ys"
  shows "\<exists>fs. free_list (free_link u b (last (ubase u # xs))) fs \<and>
     region (free_link u b (last (ubase u # xs))) fs = span b (sz u b) \<union> region u (xs @ ys) \<and>
     (\<exists>a\<in>set fs. sz u b \<le> sz (free_link u b (last (ubase u # xs))) a)"
proof -
  define p where "p = last (ubase u # xs)"
  define u1 where "u1 = link_next u b p"
  obtain ys1 s where l: "hptr u1 = (hptr u)(b := hd (ys1 @ [ubase u]))" "hsize u1 = (hsize u)(b := s)"
    "tail (hptr u) ys1 (ubase u)" "set ys1 \<subseteq> set ys" "sorted_wrt (\<lambda>a b. a + 16 * sz u a < b) ys1"
    "\<forall>y\<in>set ys1. b + 16 * unat s < y" "0 < unat s" "b + 16 * unat s \<le> brk u"
    "span b (unat s) \<union> region u ys1 = span b (sz u b) \<union> region u ys" "sz u b \<le> unat s"
    by (rule link_next_ok [OF fl bf, folded p_def, folded u1_def])
  have u1: "ubase u1 = ubase u" "brk u1 = brk u" by (simp_all add: u1_def link_next_def Let_def)
  note below = block_above [OF fl bf]
  have p: "p \<in> set (ubase u # xs)" unfolding p_def by (rule last_in_set) simp
  have above: "y \<notin> set (ubase u # xs)" "y \<noteq> b" if "y \<in> set ys1" for y
    using that l(4) block_below [OF bf, of y] below [of y] by auto
  have c: "chain (hptr u) (ubase u) xs (hd (ys @ [ubase u]))" using fl by (auto simp: free_list_def chain_split)
  have dist: "distinct (ubase u # xs)" using free_list_sorted(2) [OF fl] by simp
  have b: "b \<notin> set (ubase u # xs)" using below by blast
  have pb: "b \<noteq> p" using p b by auto
  have redirect: "chain (((hptr u)(b := w))(p := v)) (ubase u) xs v" for v w
    using chain_redirect [OF dist c] chain_upd [OF b] p b by (metis fun_upd_twist p_def)
  have tail: "tail (((hptr u)(b := w))(p := v)) ys1 (ubase u)" for v w
    using l(3) above p by (metis tail_upd)
  define u2 where "u2 = free_link u b p"
  have u2: "u2 = (link_prev u1 b p)\<lparr>freep := p\<rparr>" by (simp add: u2_def u1_def free_link_def)
  show ?thesis
  proof (cases "block_end u1 p = b")
    case False
    have h: "hptr u2 = ((hptr u)(b := hd (ys1 @ [ubase u])))(p := b)" "hsize u2 = (hsize u)(b := s)"
        "freep u2 = p" "ubase u2 = ubase u" "brk u2 = brk u"
      using False l u1 by (simp_all add: u2 link_prev_def)
    have ch: "chain (hptr u2) (ubase u) (xs @ b # ys1) (ubase u)"
      using redirect tail pb by (simp add: chain_split chain_tail [of _ b] h)
    have gap: "x + 16 * sz u x < b" if x: "x \<in> set xs" for x
    proof -
      have "xs = butlast xs @ [p]" using x by (auto simp: p_def)
      then obtain xs0 where xs: "xs = xs0 @ [p]" ..
      have "p + 16 * sz u p \<noteq> b" using False pb by (simp add: block_end_def l(2))
      moreover have "x + 16 * sz u x < p" if "x \<noteq> p"
        using fl x that by (simp add: free_list_def xs sorted_wrt_append)
      ultimately show ?thesis using bf x below [OF p] by (cases "x = p") (auto simp: block_fits_def)
    qed
    have sizes: "sz u2 b = unat s" "\<And>x. x \<in> set xs \<union> set ys1 \<union> {ubase u} \<Longrightarrow> hsize u2 x = hsize u x"
      using b above by (auto simp: h)
    have "sorted_wrt (\<lambda>a b. a + 16 * sz u2 a < b) xs"
      using fl sizes(2) gaps_cong [of u xs u2]
      by (auto simp: free_list_def sorted_wrt_append)
    moreover have "sorted_wrt (\<lambda>a b. a + 16 * sz u2 a < b) ys1"
      using l(5) sizes(2) gaps_cong [of u ys1 u2]
      by auto
    moreover have "\<forall>y\<in>set ys1. b < y \<and> b + 16 * sz u2 b < y" using l(6) sizes(1) by auto
    ultimately have "sorted_wrt (\<lambda>a b. a + 16 * sz u2 a < b) (xs @ b # ys1)"
      using sizes(2) gap by (fastforce simp: sorted_wrt_append)
    moreover have "ubase u + 16 \<le> b" using bf by (simp add: block_fits_def)
    ultimately have "free_list u2 (xs @ b # ys1)"
      unfolding free_list_def h(3-5) using ch l(4,7,8) fl p sizes by (auto simp: free_list_def)
    moreover have "region u2 (xs @ b # ys1) = span b (sz u b) \<union> region u (xs @ ys)"
      using l(9) above b region_upd [of xs u2 u] region_upd [of ys1 u2 u] by (auto simp: h)
    moreover have "\<exists>a\<in>set (xs @ b # ys1). sz u b \<le> sz u2 a" using l(10) sizes(1) by auto
    ultimately show ?thesis unfolding u2_def p_def by blast
  next
    case True
    have pu: "p \<noteq> ubase u" using True l(2) b fl by (auto simp: block_end_def free_list_def)
    then obtain xs0 where xs: "xs = xs0 @ [p]" by (metis append_butlast_last_id last.simps p_def)
    have pe: "p + 16 * sz u p = b" using True l(2) pb by (simp add: block_end_def)
    have ps: "unat (hsize u p + s) = sz u p + unat s"
      using pe l(8) fl by (intro unat_size_add) (auto simp: free_list_def)
    have h: "hptr u2 = ((hptr u)(b := hd (ys1 @ [ubase u])))(p := hd (ys1 @ [ubase u]))"
        "hsize u2 = (hsize u)(b := s, p := hsize u p + s)" "freep u2 = p" "ubase u2 = ubase u" "brk u2 = brk u"
      using True l u1 pb by (simp_all add: u2 link_prev_def)
    have ch: "chain (hptr u2) (ubase u) (xs @ ys1) (ubase u)"
      using redirect tail by (simp add: chain_split h)
    have sizes: "sz u2 p = sz u p + unat s" "\<And>x. x \<in> set xs0 \<union> set ys1 \<union> {ubase u} \<Longrightarrow> hsize u2 x = hsize u x"
      using ps dist b above pu by (auto simp: h xs)
    have "sorted_wrt (\<lambda>a b. a + 16 * sz u2 a < b) xs0" "\<forall>x\<in>set xs0. x + 16 * sz u x < p"
      using fl sizes(2) gaps_cong [of u xs0 u2]
      by (auto simp: free_list_def xs sorted_wrt_append)
    moreover have "sorted_wrt (\<lambda>a b. a + 16 * sz u2 a < b) ys1"
      using l(5) sizes(2) gaps_cong [of u ys1 u2]
      by auto
    moreover have "\<forall>y\<in>set ys1. p < y \<and> p + 16 * sz u2 p < y" using l(6) pe sizes(1) by auto
    ultimately have "sorted_wrt (\<lambda>a b. a + 16 * sz u2 a < b) (xs @ ys1)"
      using sizes(2) by (fastforce simp: xs sorted_wrt_append)
    then have "free_list u2 (xs @ ys1)"
      unfolding free_list_def h(3-5) using ch l(4,7,8) fl pe sizes by (auto simp: xs free_list_def)
    moreover have "region u2 (xs @ ys1) = span b (sz u b) \<union> region u (xs @ ys)"
      using l(9) pe sizes region_upd [of xs0 u2 u] region_upd [of ys1 u2 u] by (auto simp: xs span_add)
    moreover have "\<exists>a\<in>set (xs @ ys1). sz u b \<le> sz u2 a" using l(10) sizes(1) by (auto simp: xs)
    ultimately show ?thesis unfolding u2_def p_def by blast
  qed
qed


lemma free_link_frame:
  "x \<noteq> b \<Longrightarrow> x \<noteq> p \<Longrightarrow> hptr (free_link u b p) x = hptr u x"
  "x \<noteq> b \<Longrightarrow> x \<noteq> p \<Longrightarrow> hsize (free_link u b p) x = hsize u x"
  "ubase (free_link u b p) = ubase u" "brk (free_link u b p) = brk u" "freep (free_link u b p) = p"
  by (simp_all add: free_link_def link_next_def link_prev_def Let_def)

text \<open>What \<^verbatim>\<open>free\<close> does to a block outside the free list.\<close>

lemma free_block:
  assumes fl: "free_list u fs" and d: "span b (sz u b) \<inter> region u fs = {}" and s: "0 < sz u b"
    and h: "ubase u + 16 \<le> b" "b + 16 * sz u b \<le> brk u"
  shows "\<exists>u2 fs2. free (b + 16) u = Some u2 \<and> free_list u2 fs2 \<and> region u2 fs2 = span b (sz u b) \<union> region u fs \<and>
     (\<exists>a\<in>set fs2. sz u b \<le> sz u2 a) \<and> ubase u2 = ubase u \<and> brk u2 = brk u \<and>
     (\<forall>x. x \<notin> span b (sz u b) \<union> region u fs \<and> x \<noteq> ubase u \<longrightarrow> hptr u2 x = hptr u x \<and> hsize u2 x = hsize u x)"
proof -
  obtain xs ys where fs: "fs = xs @ ys" and xy: "\<forall>x\<in>set xs. x + 16 * sz u x \<le> b" "\<forall>y\<in>set ys. b + 16 * sz u b \<le> y"
    using free_position [OF fl d s] .
  have bf: "block_fits u xs b ys" using xy s h by (simp add: block_fits_def)
  define p where "p = last (ubase u # xs)"
  have loop: "free_loop u b (freep u) = Some p"
    unfolding p_def using fl block_above [OF _ bf] block_below [OF bf] h
    by (intro free_loop_finds) (auto simp: fs)
  obtain fs2 where fs2: "free_list (free_link u b p) fs2" "region (free_link u b p) fs2 = span b (sz u b) \<union> region u fs"
      "\<exists>a\<in>set fs2. sz u b \<le> sz (free_link u b p) a"
    using free_link_ok [OF fl [unfolded fs] bf] unfolding p_def fs by blast
  have "p = ubase u \<or> p \<in> set xs" unfolding p_def by auto
  then have pr: "p = ubase u \<or> p \<in> region u fs"
    using fl by (auto simp: fs region_def span_def free_list_def)
  have br: "b \<in> span b (sz u b)" using s by (simp add: span_def)
  have "hptr (free_link u b p) x = hptr u x \<and> hsize (free_link u b p) x = hsize u x"
    if "x \<notin> span b (sz u b) \<union> region u fs \<and> x \<noteq> ubase u" for x
  proof -
    have "x \<noteq> b" "x \<noteq> p" using that pr br by auto
    then show ?thesis by (simp add: free_link_frame)
  qed
  then show ?thesis
    using loop fs2 by (intro exI [of _ "free_link u b p"] exI [of _ fs2]) (simp add: free_def free_link_frame)
qed

section \<open>malloc\<close>

lemma chain_map: "chain h a xs z \<longleftrightarrow> List.map h (a # xs) = xs @ [z]"
  by (induction xs arbitrary: a) auto

lemma chain_pred:
  assumes "chain h a (xs @ p # ys) z" "distinct (a # xs @ p # ys)" "z \<notin> set (xs @ p # ys)"
    "q \<in> set (a # xs @ p # ys)" "h q = p"
  shows "q = last (a # xs)"
proof -
  have "List.map h (a # xs @ p # ys) = (xs @ p # ys) @ [z]" using assms(1) by (simp only: chain_map)
  moreover have "distinct ((xs @ p # ys) @ [z])" using assms(2, 3) by auto
  ultimately have "inj_on h (set (a # xs @ p # ys))" by (metis distinct_map)
  moreover have "h (last (a # xs)) = p"
    using chain_last [of h a xs p] assms(1) by (simp add: chain_split)
  moreover have "last (a # xs) \<in> set (a # xs @ p # ys)" by auto
  ultimately show ?thesis using assms(4, 5) by (metis inj_onD)
qed

text \<open>The circle as seen from \<^verbatim>\<open>freep\<close>.\<close>

lemma circle:
  assumes "free_list u fs"
  obtains ws where "chain (hptr u) (freep u) ws (freep u)" "freep u \<notin> set ws"
    "set (freep u # ws) = set (ubase u # fs)"
proof (cases "freep u = ubase u")
  case True
  then show thesis using that [of fs] assms free_list_sorted(2) [OF assms] by (auto simp: free_list_def)
next
  case False
  then have "freep u \<in> set fs" using assms by (auto simp: free_list_def)
  then obtain xs ys where fs: "fs = xs @ freep u # ys" by (meson split_list)
  have "chain (hptr u) (ubase u) (xs @ freep u # ys) (ubase u)" using assms by (simp add: free_list_def fs)
  then have "chain (hptr u) (freep u) (ys @ ubase u # xs) (freep u)"
    by (simp add: chain_split)
  then show thesis using that [of "ys @ ubase u # xs"] free_list_sorted(2) [OF assms] by (auto simp: fs)
qed

text \<open>The search finds the first block that is large enough, or comes back to \<^verbatim>\<open>freep\<close>.\<close>

lemma malloc_scan:
  assumes "chain (hptr u) prev ws (freep u)" "freep u \<notin> set ws"
  shows "(\<exists>q p. q \<in> set (prev # ws) \<and> hptr u q = p \<and> p \<in> set (ws @ [freep u]) \<and> n \<le> hsize u p \<and>
       malloc_loop grant n u prev (hptr u prev) = Some (take_block u n q p)) \<or>
     (\<forall>p\<in>set (ws @ [freep u]). hsize u p < n) \<and>
     malloc_loop grant n u prev (hptr u prev) = Option.bind (morecore grant n u) (\<lambda>(u1, q).
          if q = 0 then Some (u1, 0) else malloc_loop grant n u1 q (hptr u1 q))"
  using assms
proof (induction ws arbitrary: prev)
  case Nil
  then show ?case by (subst (1 2) malloc_loop.simps) (auto simp: not_le)
next
  case (Cons w ws)
  then have w: "hptr u prev = w" "w \<noteq> freep u" and c: "chain (hptr u) w ws (freep u)" "freep u \<notin> set ws" by auto
  show ?case
  proof (cases "n \<le> hsize u w")
    case True
    then show ?thesis using w by (subst malloc_loop.simps) auto
  next
    case False
    then have "malloc_loop grant n u prev (hptr u prev) = malloc_loop grant n u w (hptr u w)"
      using w by (subst malloc_loop.simps) simp
    then show ?thesis using Cons.IH [OF c] False by (auto simp: not_le)
  qed
qed


lemma spans_apart:
  assumes "free_list u (xs @ p # ys)"
  shows "span p (sz u p) \<inter> (region u xs \<union> region u ys) = {}"
  using assms by (fastforce simp: free_list_def region_def span_def sorted_wrt_append)

lemma take_block_ok:
  assumes fl: "free_list u fs" and q: "q \<in> set (ubase u # fs)" "hptr u q = p" and p: "p \<in> set fs"
    and n: "n \<le> hsize u p" "0 < n"
  shows "\<exists>u2 a fs2. take_block u n q p = (u2, a + 16) \<and> free_list u2 fs2 \<and> hsize u2 a = n \<and>
     span a (unat n) \<subseteq> region u fs \<and> region u2 fs2 = region u fs - span a (unat n) \<and>
     ubase u2 = ubase u \<and> brk u2 = brk u \<and>
     (\<forall>x. x \<notin> region u fs \<and> x \<noteq> ubase u \<longrightarrow> hptr u2 x = hptr u x \<and> hsize u2 x = hsize u x)"
proof -
  obtain xs ys where fs: "fs = xs @ p # ys" using p by (meson split_list)
  note dist = free_list_sorted(2) [OF fl, unfolded fs]
  note apart = spans_apart [OF fl [unfolded fs]]
  have c: "chain (hptr u) (ubase u) (xs @ p # ys) (ubase u)" using fl by (simp add: free_list_def fs)
  have ql: "q = last (ubase u # xs)"
    using chain_pred [OF c _ _ _ q(2)] dist q(1) by (auto simp: fs)
  have qr: "q = ubase u \<or> q \<in> region u fs"
    using q(1) fl by (auto simp: region_def span_def free_list_def)
  have "q \<in> set (ubase u # xs)" unfolding ql by (rule last_in_set) simp
  then have qp: "q \<noteq> p" and qy: "q \<notin> set ys" using dist by auto
  have pn: "unat n \<le> sz u p" using n(1) by (simp add: word_le_nat_alt)
  show ?thesis
  proof (cases "hsize u p = n")
    case True
    let ?u2 = "(set_ptr q (hptr u p) u)\<lparr>freep := q\<rparr>"
    have cx: "chain (hptr u) (ubase u) xs p" "chain (hptr u) p ys (ubase u)" using c by (simp_all add: chain_split)
    have "chain (hptr ?u2) (ubase u) (xs @ ys) (ubase u)"
      using chain_redirect [OF _ cx(1)] cx(2) dist qp qy
      by (simp add: chain_split chain_tail [of _ p] tail_upd del: last.simps flip: ql)
    then have "free_list ?u2 (xs @ ys)"
      using fl ql by (auto simp: free_list_def fs sorted_wrt_append)
    moreover have "region ?u2 (xs @ ys) = region u fs - span p (unat n)"
      using apart True by (auto simp: fs region_def)
    moreover have "span p (unat n) \<subseteq> region u fs" using True by (auto simp: fs)
    moreover have "\<forall>x. x \<notin> region u fs \<and> x \<noteq> ubase u \<longrightarrow> hptr ?u2 x = hptr u x" using qr by auto
    ultimately show ?thesis
      using True by (intro exI [of _ ?u2] exI [of _ p] exI [of _ "xs @ ys"]) (simp add: take_block_def)
  next
    case False
    let ?u1 = "set_size p (hsize u p - n) u"
    let ?r = "p + 16 * (sz u p - unat n)"
    let ?u2 = "(set_size ?r n ?u1)\<lparr>freep := q\<rparr>"
    have m: "unat (hsize u p - n) = sz u p - unat n" using n(1) by (rule unat_sub)
    have lt: "unat n < sz u p" using pn False by (metis le_neq_implies_less word_unat_eq_iff)
    have n0: "0 < unat n" using n(2) by (simp add: word_less_nat_alt)
    have e: "block_end ?u1 p = ?r" by (simp add: block_end_def m)
    have sub: "span ?r (unat n) \<subseteq> span p (sz u p)" using pn by (auto simp: span_def)
    have cut: "span p (sz u p - unat n) = span p (sz u p) - span ?r (unat n)" using pn by (auto simp: span_def)
    have rin: "?r \<in> span p (sz u p)" using sub n0 by (auto simp: span_def)
    have heads: "x \<in> region u xs \<union> region u ys" if "x \<in> set xs \<union> set ys" for x
      using that fl by (auto simp: free_list_def fs region_def span_def intro!: bexI [of _ x])
    have rx: "?r \<notin> set xs \<union> set ys \<union> {ubase u, p}"
      using apart rin heads lt fl by (auto simp: free_list_def fs)
    have sizes: "hsize ?u2 x = hsize u x" if "x \<in> set xs \<union> set ys \<union> {ubase u}" for x
      using that rx dist by auto
    have szp: "sz ?u2 p = sz u p - unat n" using rx m by auto
    have gaps: "sorted_wrt (\<lambda>a b. a + 16 * sz u a < b) (xs @ p # ys)" using fl by (simp add: free_list_def fs)
    have "sorted_wrt (\<lambda>a b. a + 16 * sz ?u2 a < b) xs" "sorted_wrt (\<lambda>a b. a + 16 * sz ?u2 a < b) ys"
      using gaps sizes gaps_cong [of u xs ?u2] gaps_cong [of u ys ?u2] by (simp_all add: sorted_wrt_append)
    moreover have "\<forall>x\<in>set xs. \<forall>y\<in>set (p # ys). x + 16 * sz ?u2 x < y"
      using gaps sizes by (simp add: sorted_wrt_append)
    moreover have "\<forall>y\<in>set ys. p + 16 * sz ?u2 p < y"
    proof
      fix y assume "y \<in> set ys"
      then have "p + 16 * sz u p < y" using gaps by (simp add: sorted_wrt_append)
      then show "p + 16 * sz ?u2 p < y" unfolding szp by simp
    qed
    ultimately have "sorted_wrt (\<lambda>a b. a + 16 * sz ?u2 a < b) fs" by (simp only: fs sorted_wrt_append sorted_wrt.simps)
    then have "free_list ?u2 fs"
      using fl q(1) sizes szp lt unfolding free_list_def by (auto simp: fs)
    moreover have "region ?u2 fs = region u fs - span ?r (unat n)"
      using apart sub region_upd [of xs ?u2 u] region_upd [of ys ?u2 u] sizes szp cut by (auto simp: fs)
    moreover have "span ?r (unat n) \<subseteq> region u fs" using sub by (auto simp: fs)
    moreover have "\<forall>x. x \<notin> region u fs \<and> x \<noteq> ubase u \<longrightarrow> hsize ?u2 x = hsize u x"
      using rin lt by (auto simp: fs span_def)
    ultimately show ?thesis
      using False e by (intro exI [of _ ?u2] exI [of _ ?r] exI [of _ fs]) (simp add: take_block_def Let_def)
  qed
qed


definition core_units :: "u32 \<Rightarrow> nat" where
  "core_units n = max 4096 (unat n)"

lemma sint_of_nat_small: "m < 2 ^ 31 \<Longrightarrow> sint (word_of_nat m :: 32 word) = int m"
  by (simp add: signed_of_nat signed_take_bit_int_eq_self)

lemma morecore_ok:
  assumes fl: "free_list u fs" and n: "unat n < 2 ^ 27" and g: "\<forall>s. grant s \<longrightarrow> s \<le> 2 ^ 31"
  shows "\<not> grant (brk u + 16 * core_units n) \<Longrightarrow> morecore grant n u = Some (u, 0)"
    and "grant (brk u + 16 * core_units n) \<Longrightarrow>
      \<exists>u2 fs2. morecore grant n u = Some (u2, freep u2) \<and> free_list u2 fs2 \<and>
        region u2 fs2 = span (brk u) (core_units n) \<union> region u fs \<and> (\<exists>a\<in>set fs2. n \<le> hsize u2 a) \<and>
        ubase u2 = ubase u \<and> brk u2 = brk u + 16 * core_units n \<and>
        (\<forall>x. x \<notin> region u2 fs2 \<and> x \<noteq> ubase u \<longrightarrow> hptr u2 x = hptr u x \<and> hsize u2 x = hsize u x)"
proof -
  define k where "k = (if n < 4096 then 4096 else n)"
  have k: "unat k = core_units n" by (auto simp: k_def core_units_def word_less_nat_alt)
  have kb: "0 < unat k" "unat k < 2 ^ 27" using n by (auto simp: k core_units_def)
  have i: "sint (word_of_nat (unat k * 16) :: 32 word) = int (16 * unat k)"
    using kb(2) by (subst sint_of_nat_small) simp_all
  have "0 < sint (word_of_nat (unat k * 16) :: 32 word)" using kb(1) unfolding i by linarith
  moreover have "nat (sint (word_of_nat (unat k * 16) :: 32 word)) = 16 * unat k" unfolding i by (rule nat_int)
  ultimately have s: "0 < sint (k * 16)" "nat (sint (k * 16)) = 16 * unat k" by simp_all
  have le: "brk u \<le> 2 ^ 31" using fl by (simp add: free_list_def)
  {
    assume "\<not> grant (brk u + 16 * core_units n)"
    then have "sbrk grant (word_of_nat (unat k * 16)) u = (u, minus_one)"
      using sbrk_grows(2) [OF s(1) le] by (simp add: s k [symmetric])
    then show "morecore grant n u = Some (u, 0)" by (simp add: morecore_def Let_def k_def)
  next
    assume gr: "grant (brk u + 16 * core_units n)"
    let ?u1 = "u\<lparr>brk := brk u + 16 * unat k\<rparr>"
    let ?v = "set_size (brk u) k ?u1"
    have lt: "brk u < 2 ^ 31" using gr g kb k by fastforce
    then have sb: "sbrk grant (word_of_nat (unat k * 16)) u = (?u1, brk u)" "brk u \<noteq> minus_one"
      using gr sbrk_grows(1) [OF s(1) le] by (simp_all add: s k [symmetric] minus_one_def)
    have below: "a < brk u" if "a \<in> set (ubase u # fs)" for a
      using that fl by (auto simp: free_list_def)
    then have same: "hsize ?v a = hsize u a" if "a \<in> set (ubase u # fs)" for a
      using that by auto
    have "sorted_wrt (\<lambda>a b. a + 16 * sz ?v a < b) fs"
      using fl same gaps_cong [of u fs ?v] by (simp add: free_list_def)
    moreover have "\<forall>a\<in>set fs. a + 16 * sz ?v a \<le> brk ?v" "brk ?v \<le> 2 ^ 31" "ubase ?v + 16 \<le> brk ?v"
      using fl same g gr k by (auto simp: free_list_def)
    ultimately have flv: "free_list ?v fs"
      using fl same unfolding free_list_def by simp
    have reg: "region ?v fs = region u fs" using region_upd [of fs ?v u] same by simp
    have disj: "span (brk u) (sz ?v (brk u)) \<inter> region ?v fs = {}"
      unfolding reg using fl by (fastforce simp: region_def span_def free_list_def)
    have fits: "0 < sz ?v (brk u)" "ubase ?v + 16 \<le> brk u" "brk u + 16 * sz ?v (brk u) \<le> brk ?v"
      using kb fl by (simp_all add: free_list_def)
    obtain u2 fs2 where u2: "free (brk u + 16) ?v = Some u2" "free_list u2 fs2"
        "region u2 fs2 = span (brk u) (unat k) \<union> region u fs" "\<exists>a\<in>set fs2. unat k \<le> sz u2 a"
        "ubase u2 = ubase u" "brk u2 = brk u + 16 * unat k"
        "\<forall>x. x \<notin> span (brk u) (unat k) \<union> region u fs \<and> x \<noteq> ubase u \<longrightarrow> hptr u2 x = hptr ?v x \<and> hsize u2 x = hsize ?v x"
      using free_block [OF flv disj fits] by (simp add: reg) blast
    have "morecore grant n u = Some (u2, freep u2)"
      using sb u2(1) by (simp add: morecore_def Let_def k_def [symmetric])
    moreover have "\<exists>a\<in>set fs2. n \<le> hsize u2 a"
      using u2(4) by (auto simp: k core_units_def word_le_nat_alt)
    moreover have "brk u \<in> span (brk u) (unat k)" using kb by (simp add: span_def)
    then have "\<forall>x. x \<notin> region u2 fs2 \<and> x \<noteq> ubase u \<longrightarrow> hptr u2 x = hptr u x \<and> hsize u2 x = hsize u x"
      using u2(3, 7) by auto
    ultimately show "\<exists>u2 fs2. morecore grant n u = Some (u2, freep u2) \<and> free_list u2 fs2 \<and>
        region u2 fs2 = span (brk u) (core_units n) \<union> region u fs \<and> (\<exists>a\<in>set fs2. n \<le> hsize u2 a) \<and>
        ubase u2 = ubase u \<and> brk u2 = brk u + 16 * core_units n \<and>
        (\<forall>x. x \<notin> region u2 fs2 \<and> x \<noteq> ubase u \<longrightarrow> hptr u2 x = hptr u x \<and> hsize u2 x = hsize u x)"
      using u2 k by (intro exI [of _ u2] exI [of _ fs2]) simp
  }
qed

lemma malloc_loop_ok:
  assumes fl: "free_list u fs" and n: "unat n < 2 ^ 27" "0 < n" and g: "\<forall>s. grant s \<longrightarrow> s \<le> 2 ^ 31"
  shows "\<exists>u2 r. malloc_loop grant n u (freep u) (hptr u (freep u)) = Some (u2, r) \<and>
     (if r = 0 then u2 = u \<and> \<not> grant (brk u + 16 * core_units n)
      else \<exists>a fs2 R. r = a + 16 \<and> free_list u2 fs2 \<and> hsize u2 a = n \<and> span a (unat n) \<subseteq> R \<and>
        region u2 fs2 = R - span a (unat n) \<and> R \<subseteq> region u fs \<union> {brk u ..< brk u2} \<and> R \<subseteq> {ubase u + 16 ..< brk u2} \<and>
        ubase u2 = ubase u \<and> brk u \<le> brk u2 \<and>
        (\<forall>x. x \<notin> R \<and> x \<noteq> ubase u \<longrightarrow> hptr u2 x = hptr u x \<and> hsize u2 x = hsize u x))"
proof -
  have inside: "region v gs \<subseteq> {ubase v + 16 ..< brk v}" if "free_list v gs" for v gs
    using that by (fastforce simp: free_list_def region_def span_def)
  obtain ws where ws: "chain (hptr u) (freep u) ws (freep u)" "freep u \<notin> set ws"
    "set (freep u # ws) = set (ubase u # fs)" using circle [OF fl] .
  have nb: "p \<in> set gs" if "p \<in> set (ubase v # gs)" "n \<le> hsize v p" "free_list v gs" for p v gs
    using that n(2) by (auto simp: free_list_def word_le_nat_alt word_less_nat_alt)
  consider (found) q p where "q \<in> set (ubase u # fs)" "hptr u q = p" "p \<in> set fs" "n \<le> hsize u p"
      "malloc_loop grant n u (freep u) (hptr u (freep u)) = Some (take_block u n q p)"
    | (more) "malloc_loop grant n u (freep u) (hptr u (freep u)) = Option.bind (morecore grant n u) (\<lambda>(u1, q).
          if q = 0 then Some (u1, 0) else malloc_loop grant n u1 q (hptr u1 q))"
    using malloc_scan [OF ws(1, 2), of n grant] ws(3) nb [OF _ _ fl] by auto
  then show ?thesis
  proof cases
    case found
    from take_block_ok [OF fl found(1-4) n(2)] obtain u2 a fs2 where "take_block u n q p = (u2, a + 16)"
      "free_list u2 fs2" "hsize u2 a = n" "span a (unat n) \<subseteq> region u fs" "region u2 fs2 = region u fs - span a (unat n)"
      "ubase u2 = ubase u" "brk u2 = brk u"
      "\<forall>x. x \<notin> region u fs \<and> x \<noteq> ubase u \<longrightarrow> hptr u2 x = hptr u x \<and> hsize u2 x = hsize u x" by blast
    then show ?thesis
      using found(5) inside [OF fl]
      by (intro exI [of _ u2] exI [of _ "a + 16"]) (auto intro!: exI [of _ fs2] exI [of _ "region u fs"])
  next
    case more
    show ?thesis
    proof (cases "grant (brk u + 16 * core_units n)")
      case False
      then show ?thesis using more morecore_ok(1) [OF fl n(1) g] by simp
    next
      case True
      from morecore_ok(2) [OF fl n(1) g True] obtain v gs where v: "morecore grant n u = Some (v, freep v)" "free_list v gs"
        "region v gs = span (brk u) (core_units n) \<union> region u fs" "\<exists>a\<in>set gs. n \<le> hsize v a" "ubase v = ubase u"
        "brk v = brk u + 16 * core_units n"
        "\<forall>x. x \<notin> region v gs \<and> x \<noteq> ubase u \<longrightarrow> hptr v x = hptr u x \<and> hsize v x = hsize u x" by blast
      obtain vs where vs: "chain (hptr v) (freep v) vs (freep v)" "freep v \<notin> set vs"
        "set (freep v # vs) = set (ubase v # gs)" using circle [OF v(2)] .
      have "\<not> (\<forall>p\<in>set (vs @ [freep v]). hsize v p < n)" using v(4) vs(3) by (auto simp: not_less)
      then obtain q p where qp: "q \<in> set (ubase v # gs)" "hptr v q = p" "p \<in> set gs" "n \<le> hsize v p"
          "malloc_loop grant n v (freep v) (hptr v (freep v)) = Some (take_block v n q p)"
        using malloc_scan [OF vs(1, 2), of n grant] vs(3) nb [OF _ _ v(2)] by auto
      from take_block_ok [OF v(2) qp(1-4) n(2)] obtain u2 a fs2 where t: "take_block v n q p = (u2, a + 16)"
        "free_list u2 fs2" "hsize u2 a = n" "span a (unat n) \<subseteq> region v gs" "region u2 fs2 = region v gs - span a (unat n)"
        "ubase u2 = ubase v" "brk u2 = brk v"
        "\<forall>x. x \<notin> region v gs \<and> x \<noteq> ubase v \<longrightarrow> hptr u2 x = hptr v x \<and> hsize u2 x = hsize v x" by blast
      have f: "freep v \<noteq> 0" using v(2) by (auto simp: free_list_def)
      have grown: "region v gs \<subseteq> region u fs \<union> {brk u ..< brk u2}"
        using v(3, 6) t(7) by (auto simp: span_def)
      have same: "\<forall>x. x \<notin> region v gs \<and> x \<noteq> ubase u \<longrightarrow> hptr u2 x = hptr u x \<and> hsize u2 x = hsize u x"
        using v(5, 7) t(8) by simp
      have "malloc_loop grant n u (freep u) (hptr u (freep u)) = Some (u2, a + 16)"
        using more v(1) f qp(5) t(1) by simp
      moreover have "\<exists>b fs2 R. a + 16 = b + 16 \<and> free_list u2 fs2 \<and> hsize u2 b = n \<and> span b (unat n) \<subseteq> R \<and>
        region u2 fs2 = R - span b (unat n) \<and> R \<subseteq> region u fs \<union> {brk u ..< brk u2} \<and> R \<subseteq> {ubase u + 16 ..< brk u2} \<and>
        ubase u2 = ubase u \<and> brk u \<le> brk u2 \<and>
        (\<forall>x. x \<notin> R \<and> x \<noteq> ubase u \<longrightarrow> hptr u2 x = hptr u x \<and> hsize u2 x = hsize u x)"
        by (intro exI [of _ a] exI [of _ fs2] exI [of _ "region v gs"] conjI refl t grown same)
          (use inside [OF v(2)] v t in simp_all)
      ultimately show ?thesis by simp
    qed
  qed
qed


section \<open>The heap of a program\<close>

text \<open>
  \<open>L\<close> is the set of live blocks, by the address of the header and the size. They lie in the heap, apart from
  each other and from the free blocks, and carry their size in the header.
\<close>

definition blocks :: "(nat \<times> u32) set \<Rightarrow> nat set" where
  "blocks L = (\<Union>(a, n)\<in>L. span a (unat n))"

definition live_ok :: "ust \<Rightarrow> nat set \<Rightarrow> (nat \<times> u32) set \<Rightarrow> bool" where
  "live_ok u R L \<longleftrightarrow> (\<forall>(a, n)\<in>L. hsize u a = n \<and> 0 < n) \<and> blocks L \<subseteq> {ubase u + 16 ..< brk u} - R \<and>
     disjoint_family_on (\<lambda>(a, n). span a (unat n)) L"

definition heap_ok :: "ust \<Rightarrow> (nat \<times> u32) set \<Rightarrow> bool" where
  "heap_ok u L \<longleftrightarrow>
     (if freep u = 0 then L = {} \<and> 0 < ubase u \<and> ubase u + 16 \<le> brk u \<and> brk u \<le> 2 ^ 31
      else \<exists>fs. free_list u fs \<and> live_ok u (region u fs) L)"

lemma blocks_insert [simp]: "blocks (insert (a, n) L) = span a (unat n) \<union> blocks L"
  by (auto simp: blocks_def)

lemma live_in_blocks:
  assumes "live_ok u R L" "(a, n) \<in> L"
  shows "a \<in> blocks L" "span a (unat n) \<subseteq> blocks L" "0 < unat n"
  using assms by (auto simp: live_ok_def blocks_def span_def word_less_nat_alt intro!: bexI [of _ "(a, n)"])

lemma live_ok_remove:
  assumes l: "live_ok u R L" and m: "(a, n) \<in> L"
  shows "live_ok u (span a (unat n) \<union> R) (L - {(a, n)})" "span a (unat n) \<inter> blocks (L - {(a, n)}) = {}"
proof -
  show d: "span a (unat n) \<inter> blocks (L - {(a, n)}) = {}"
  proof -
    have "disjoint_family_on (\<lambda>(a, n). span a (unat n)) L" using l by (simp add: live_ok_def)
    then have "span a (unat n) \<inter> span b (unat k) = {}" if "(b, k) \<in> L - {(a, n)}" for b k
      using disjoint_family_onD [OF _ m, of _ "(b, k)"] that by auto
    then show ?thesis by (auto simp: blocks_def)
  qed
  have "blocks (L - {(a, n)}) \<subseteq> blocks L" by (auto simp: blocks_def)
  then show "live_ok u (span a (unat n) \<union> R) (L - {(a, n)})"
    using l d unfolding live_ok_def by (auto simp: disjoint_family_on_def)
qed

lemma live_ok_frame:
  assumes l: "live_ok u R L" and s: "\<And>x. x \<in> blocks L \<Longrightarrow> hsize v x = hsize u x" "blocks L \<inter> Q = {}"
    "ubase v = ubase u" "brk u \<le> brk v"
  shows "live_ok v Q L"
proof -
  have "hsize v a = n \<and> 0 < n" if "(a, n) \<in> L" for a n
    using s(1) [OF live_in_blocks(1) [OF l that]] l that by (auto simp: live_ok_def)
  moreover have "blocks L \<subseteq> {ubase v + 16 ..< brk v} - Q"
  proof
    fix x assume x: "x \<in> blocks L"
    then have "x \<in> {ubase u + 16 ..< brk u}" using l by (auto simp: live_ok_def)
    then show "x \<in> {ubase v + 16 ..< brk v} - Q" using x s(2-4) by auto
  qed
  ultimately show ?thesis using l by (auto simp: live_ok_def)
qed

lemma live_ok_insert:
  assumes "live_ok v Q L" "hsize v a = n" "0 < n" "span a (unat n) \<inter> (blocks L \<union> Q) = {}"
    "span a (unat n) \<subseteq> {ubase v + 16 ..< brk v}"
  shows "live_ok v Q (insert (a, n) L)"
proof -
  have "span a (unat n) \<inter> span b (unat m) = {}" if "(b, m) \<in> L" for b m
    using that assms(4) by (auto simp: blocks_def)
  then have "disjoint_family_on (\<lambda>(a, n). span a (unat n)) (insert (a, n) L)"
    using assms(1) by (fastforce simp: live_ok_def disjoint_family_on_def)
  then show ?thesis using assms by (auto simp: live_ok_def)
qed

text \<open>
  C17. \<^verbatim>\<open>free\<close> of a live block returns, puts exactly that block back among the free ones, and leaves
  every other live block alone.
\<close>
theorem free_gives_back:
  assumes h: "heap_ok u L" and m: "(b, n) \<in> L"
  shows "\<exists>u2. free (b + 16) u = Some u2 \<and> heap_ok u2 (L - {(b, n)}) \<and> brk u2 = brk u \<and>
     (\<forall>x\<in>blocks (L - {(b, n)}). hptr u2 x = hptr u x \<and> hsize u2 x = hsize u x)"
proof -
  obtain fs where fs: "free_list u fs" "live_ok u (region u fs) L" using h m by (auto simp: heap_ok_def split: if_splits)
  note lb = live_in_blocks [OF fs(2) m]
  have sb: "hsize u b = n" using fs(2) m by (auto simp: live_ok_def)
  have bs: "blocks L \<subseteq> {ubase u + 16 ..< brk u} - region u fs" using fs(2) by (simp add: live_ok_def)
  have "b + 16 * unat n - 1 \<in> span b (unat n)" using lb(3) by (auto simp: span_def)
  then have "b + 16 * unat n - 1 < brk u" using lb(2) bs by auto
  then have fits: "0 < sz u b" "ubase u + 16 \<le> b" "b + 16 * sz u b \<le> brk u" "span b (sz u b) \<inter> region u fs = {}"
    using lb bs by (auto simp: sb)
  obtain u2 fs2 where u2: "free (b + 16) u = Some u2" "free_list u2 fs2" "region u2 fs2 = span b (unat n) \<union> region u fs"
    "ubase u2 = ubase u" "brk u2 = brk u"
    "\<forall>x. x \<notin> span b (unat n) \<union> region u fs \<and> x \<noteq> ubase u \<longrightarrow> hptr u2 x = hptr u x \<and> hsize u2 x = hsize u x"
    using free_block [OF fs(1) fits(4) fits(1-3)] unfolding sb by blast
  note rest = live_ok_remove [OF fs(2) m]
  have apart: "blocks (L - {(b, n)}) \<inter> (span b (unat n) \<union> region u fs) = {}" "ubase u \<notin> blocks (L - {(b, n)})"
    using rest bs by (auto simp: live_ok_def)
  have same: "\<forall>x\<in>blocks (L - {(b, n)}). hptr u2 x = hptr u x \<and> hsize u2 x = hsize u x"
    using u2(6) apart by blast
  have "live_ok u2 (region u2 fs2) (L - {(b, n)})"
    by (rule live_ok_frame [OF rest(1)]) (use same u2 apart in auto)
  moreover have "freep u2 \<noteq> 0" using u2(2) by (auto simp: free_list_def)
  ultimately show ?thesis using u2(1, 2, 5) same by (auto simp: heap_ok_def)
qed

lemma free_gives_back_witness:
  "let u = \<lparr>hptr = \<lambda>_. 32, hsize = (\<lambda>_. 0)(64 := 2), freep = 32, ubase = 32, brk = 128\<rparr>
   in \<exists>u2. free (64 + 16) u = Some u2 \<and> heap_ok u2 ({(64, 2)} - {(64, 2)}) \<and> brk u2 = brk u \<and>
     (\<forall>x\<in>blocks ({(64, 2)} - {(64, 2)}). hptr u2 x = hptr u x \<and> hsize u2 x = hsize u x)"
  unfolding Let_def
proof (rule free_gives_back)
  let ?u = "\<lparr>hptr = \<lambda>_. 32, hsize = (\<lambda>_. 0 :: u32)(64 := 2), freep = 32, ubase = 32, brk = 128\<rparr>"
  have "free_list ?u []" by (simp add: free_list_def)
  moreover have "live_ok ?u (region ?u []) {(64, 2)}"
    by (auto simp: live_ok_def blocks_def span_def disjoint_family_on_def)
  ultimately show "heap_ok ?u {(64, 2)}" by (auto simp: heap_ok_def)
qed simp

lemma unat_u32_small: "m < 2 ^ 32 \<Longrightarrow> unat (word_of_nat m :: u32) = m"
  by (simp add: unat_of_nat take_bit_nat_eq_self)

lemma units_eq:
  assumes "unat n \<le> 2 ^ 31 - 32"
  shows "unat (units n) = (unat n + 15) div 16 + 1"
proof -
  have "unat (units n) = (unat n + 16 - 1) div 16 + 1"
    unfolding units_def by (rule unat_u32_small) (use assms in simp)
  then show ?thesis by simp
qed

text \<open>
  C16: \<^verbatim>\<open>malloc\<close> of at most 2^31 - 32 bytes, for a process to which the kernel grants at most 2^31 bytes of
  memory (beyond these bounds the conversions of \<^verbatim>\<open>sbrk\<close> to \<^verbatim>\<open>int\<close> break it): it returns; either the kernel refuses
  to grow the heap and the result is null, or the result is a block with room for the bytes asked for, apart from
  every live block, none of which it touches.
\<close>
theorem malloc_gives_fresh_block:
  assumes h: "heap_ok u L" and s: "unat nbytes \<le> 2 ^ 31 - 32" and g: "\<forall>s. grant s \<longrightarrow> s \<le> 2 ^ 31"
  shows "\<exists>u2 r. malloc grant nbytes u = Some (u2, r) \<and>
     (if r = 0 then heap_ok u2 L \<and> \<not> grant (brk u + 16 * core_units (units nbytes))
      else \<exists>b n. r = b + 16 \<and> heap_ok u2 (insert (b, n) L) \<and> unat nbytes \<le> 16 * (unat n - 1) \<and>
        span b (unat n) \<inter> blocks L = {}) \<and>
     (\<forall>x\<in>blocks L. hptr u2 x = hptr u x \<and> hsize u2 x = hsize u x)"
proof -
  define v where "v = (if freep u = 0
     then set_size (ubase u) 0 ((set_ptr (ubase u) (ubase u) u)\<lparr>freep := ubase u\<rparr>) else u)"
  obtain fs where fs: "free_list v fs" "live_ok v (region v fs) L"
  proof (cases "freep u = 0")
    case True
    then have "free_list v []" "live_ok v (region v []) L"
      using h by (auto simp: heap_ok_def v_def free_list_def live_ok_def blocks_def disjoint_family_on_def)
    then show thesis by (rule that)
  next
    case False
    then show thesis using h that by (auto simp: heap_ok_def v_def)
  qed
  have v: "brk v = brk u" "\<forall>x\<in>blocks L. hptr v x = hptr u x \<and> hsize v x = hsize u x"
    using h by (auto simp: v_def heap_ok_def blocks_def)
  let ?n = "units nbytes"
  have n: "unat ?n < 2 ^ 27" "0 < ?n" "unat nbytes \<le> 16 * (unat ?n - 1)"
    using s by (auto simp: units_eq word_less_nat_alt)
  obtain u2 r where l: "malloc grant nbytes u = Some (u2, r)" and r:
    "if r = 0 then u2 = v \<and> \<not> grant (brk v + 16 * core_units ?n)
      else \<exists>a fs2 R. r = a + 16 \<and> free_list u2 fs2 \<and> hsize u2 a = ?n \<and> span a (unat ?n) \<subseteq> R \<and>
        region u2 fs2 = R - span a (unat ?n) \<and> R \<subseteq> region v fs \<union> {brk v ..< brk u2} \<and> R \<subseteq> {ubase v + 16 ..< brk u2} \<and>
        ubase u2 = ubase v \<and> brk v \<le> brk u2 \<and>
        (\<forall>x. x \<notin> R \<and> x \<noteq> ubase v \<longrightarrow> hptr u2 x = hptr v x \<and> hsize u2 x = hsize v x)"
    using malloc_loop_ok [OF fs(1) n(1, 2) g] unfolding malloc_def Let_def v_def [symmetric] by blast
  show ?thesis
  proof (cases "r = 0")
    case True
    have "freep v \<noteq> 0" using fs(1) by (auto simp: free_list_def)
    then show ?thesis using l r fs v True by (auto simp: heap_ok_def)
  next
    case False
    then obtain a fs2 R where a: "r = a + 16" "free_list u2 fs2" "hsize u2 a = ?n" "span a (unat ?n) \<subseteq> R"
      "region u2 fs2 = R - span a (unat ?n)" "R \<subseteq> region v fs \<union> {brk v ..< brk u2}" "R \<subseteq> {ubase v + 16 ..< brk u2}"
      "ubase u2 = ubase v" "brk v \<le> brk u2"
      "\<forall>x. x \<notin> R \<and> x \<noteq> ubase v \<longrightarrow> hptr u2 x = hptr v x \<and> hsize u2 x = hsize v x" using r by auto
    have bs: "blocks L \<subseteq> {ubase v + 16 ..< brk v} - region v fs" using fs(2) by (simp add: live_ok_def)
    have "x \<notin> R" if "x \<in> blocks L" for x
    proof -
      have "x < brk v" "x \<notin> region v fs" using that bs by auto
      then show ?thesis using a(6) by auto
    qed
    then have apart: "blocks L \<inter> R = {}" "ubase v \<notin> blocks L" using bs by auto
    have same: "hptr u2 x = hptr v x" "hsize u2 x = hsize v x" if "x \<in> blocks L" for x
      using that apart a(10) by blast+
    have "live_ok u2 (region u2 fs2) L"
      by (rule live_ok_frame [OF fs(2)]) (use same a apart in auto)
    then have "live_ok u2 (region u2 fs2) (insert (a, ?n) L)"
      by (rule live_ok_insert [OF _ a(3) n(2)]) (use a apart in auto)
    moreover have "freep u2 \<noteq> 0" using a(2) by (auto simp: free_list_def)
    ultimately have "heap_ok u2 (insert (a, ?n) L)" using a(2) by (auto simp: heap_ok_def)
    moreover have "span a (unat ?n) \<inter> blocks L = {}" using apart a(4) by blast
    ultimately show ?thesis using l False a(1) n(3) same v(2)
      by (intro exI [of _ u2] exI [of _ r]) auto
  qed
qed


lemma malloc_gives_fresh_block_witness:
  "let u = \<lparr>hptr = \<lambda>_. 0, hsize = \<lambda>_. 0, freep = 0, ubase = 32, brk = 48\<rparr>; grant = (\<lambda>s. s \<le> 2 ^ 20)
   in \<exists>u2 r. malloc grant 100 u = Some (u2, r) \<and>
     (if r = 0 then heap_ok u2 {} \<and> \<not> grant (brk u + 16 * core_units (units 100))
      else \<exists>b n. r = b + 16 \<and> heap_ok u2 (insert (b, n) {}) \<and> unat (100 :: u32) \<le> 16 * (unat n - 1) \<and>
        span b (unat n) \<inter> blocks {} = {}) \<and>
     (\<forall>x\<in>blocks {}. hptr u2 x = hptr u x \<and> hsize u2 x = hsize u x)"
  unfolding Let_def by (rule malloc_gives_fresh_block) (simp_all add: heap_ok_def)

text \<open>
  C40: The number of bytes that \<^verbatim>\<open>malloc\<close> asks the kernel for is cut to the 32 bits of the argument of
  \<^verbatim>\<open>sbrk\<close>: the first request of a program with less than 2 GB of memory for \<^verbatim>\<open>0xFFFFFFFF\<close> bytes grows the heap
  by 16 bytes and succeeds.
\<close>
theorem malloc_truncates_request:
  assumes "freep u = 0" "0 < ubase u" "ubase u < brk u" "brk u < 2 ^ 31" "grant (brk u + 16)"
  shows "\<exists>u2. malloc grant 0xFFFFFFFF u = Some (u2, brk u + 16) \<and> brk u2 = brk u + 16"
proof -
  let ?b = "ubase u" and ?p = "brk u" and ?n = "0x10000001 :: u32"
  define v where "v = set_size ?b 0 ((set_ptr ?b ?b u)\<lparr>freep := ?b\<rparr>)"
  define w where "w = set_size ?p ?n (v\<lparr>brk := ?p + 16\<rparr>)"
  have n: "units 0xFFFFFFFF = ?n" by (simp add: units_def)
  have sb: "sbrk grant (word_of_nat (unat ?n * 16)) v = (v\<lparr>brk := ?p + 16\<rparr>, ?p)" "?p \<noteq> minus_one"
  proof -
    have w: "(word_of_nat (unat ?n * 16) :: 32 word) = 16" by (simp add: word_eq_iff_unsigned unsigned_of_nat)
    show "sbrk grant (word_of_nat (unat ?n * 16)) v = (v\<lparr>brk := ?p + 16\<rparr>, ?p)"
      unfolding w using assms sbrk_grows(1) [of 16 v grant] by (simp add: v_def)
    show "?p \<noteq> minus_one" using assms by (simp add: minus_one_def)
  qed
  have loop: "free_loop w ?p ?b = Some ?b" "freep v = ?b"
    using assms by (subst free_loop.simps) (simp_all add: w_def v_def)
  define z where "z = free_link w ?p ?b"
  have fields: "hptr w ?b = ?b" "hsize w ?p = ?n" "hsize w ?b = 0" "brk w = ?p + 16"
    using assms by (simp_all add: w_def v_def)
  have "block_end w ?p \<noteq> ?b" using assms fields by (simp add: block_end_def)
  then have ln: "link_next w ?p ?b = set_ptr ?p ?b w" by (simp add: link_next_def fields)
  have "block_end (set_ptr ?p ?b w) ?b \<noteq> ?p" using assms fields by (simp add: block_end_def)
  then have z: "hptr z ?b = ?p" "hsize z ?p = ?n" "freep z = ?b" "brk z = ?p + 16"
    by (simp_all add: z_def free_link_def ln link_prev_def fields)
  have more: "morecore grant ?n v = Some (z, ?b)"
    using sb loop by (simp add: morecore_def free_def Let_def w_def [symmetric] z_def [symmetric] z) (simp add: w_def z_def)
  have "malloc_loop grant ?n v ?b (hptr v ?b) = Some (take_block z ?n ?b ?p)"
    using assms more z by (subst malloc_loop.simps, subst malloc_loop.simps) (simp add: v_def)
  then have "malloc grant 0xFFFFFFFF u = Some (take_block z ?n ?b ?p)"
    using assms by (simp add: malloc_def n v_def [symmetric]) (simp add: v_def)
  then show ?thesis using z by (simp add: take_block_def)
qed

lemma malloc_truncates_request_witness:
  "\<exists>u2. malloc (\<lambda>s. s < 2 ^ 20) 0xFFFFFFFF \<lparr>hptr = \<lambda>_. 0, hsize = \<lambda>_. 0, freep = 0, ubase = 32, brk = 4096\<rparr> =
     Some (u2, 4112) \<and> brk u2 = 4112"
  using malloc_truncates_request [of "\<lparr>hptr = \<lambda>_. 0, hsize = \<lambda>_. 0, freep = 0, ubase = 32, brk = 4096\<rparr>" "\<lambda>s. s < 2 ^ 20"]
  by simp

end
