(* ===== verification/Ulib.thy ===== *)
theory Ulib
  imports Prelude
begin

text \<open>
  The user library: the string routines, \<^verbatim>\<open>gets\<close> and \<^verbatim>\<open>atoi\<close> of \<^verbatim>\<open>user/ulib.c\<close>, and the
  formatted output of \<^verbatim>\<open>user/printf.c\<close>. A string is the list of its bytes before the NUL, and advancing
  a pointer is taking the tail; the bytes a routine writes to a descriptor are its result.
\<close>

section \<open>Strings\<close>

fun strchr :: "u8 list \<Rightarrow> u8 \<Rightarrow> nat option" where
  "strchr [] c = None"
| "strchr (x # s) c = (if x = 0 then None else if x = c then Some 0 else map_option Suc (strchr s c))"

fun strcmp :: "u8 list \<Rightarrow> u8 list \<Rightarrow> int" where
  "strcmp [] [] = 0"
| "strcmp [] (y # q) = - uint y"
| "strcmp (x # p) [] = uint x"
| "strcmp (x # p) (y # q) = (if x \<noteq> 0 \<and> x = y then strcmp p q else uint x - uint y)"

text \<open>The string that begins at an index of a buffer.\<close>

definition cstring :: "u8 list \<Rightarrow> nat \<Rightarrow> u8 list" where
  "cstring buf p = takeWhile (\<lambda>x. x \<noteq> 0) (drop p buf)"

lemma strchr_bound: "strchr s c = Some d \<Longrightarrow> d < length s"
  by (induction s arbitrary: d) (auto split: if_splits)

lemma strchr_found: "0 \<notin> set s \<Longrightarrow> strchr s c \<noteq> None \<longleftrightarrow> c \<in> set s"
  by (induction s) auto

lemma strcmp_zero: "0 \<notin> set p \<Longrightarrow> 0 \<notin> set q \<Longrightarrow> strcmp p q = 0 \<longleftrightarrow> p = q"
  by (induction p q rule: strcmp.induct) (auto simp: word_uint_eq_iff)

section \<open>Input\<close>

text \<open>
  The input is the list of pieces in which it arrives: \<^verbatim>\<open>read(fd, p, n)\<close> returns at most \<open>n\<close> bytes of
  the first piece and leaves the rest; nothing is left at the end of the file.
\<close>

fun read_call :: "nat \<Rightarrow> u8 list list \<Rightarrow> u8 list \<times> u8 list list" where
  "read_call n [] = ([], [])"
| "read_call n (c # cs) = (take n c, if length c \<le> n then cs else drop n c # cs)"

function gets_loop :: "nat \<Rightarrow> nat \<Rightarrow> u8 list \<Rightarrow> u8 list list \<Rightarrow> u8 list \<times> u8 list list" where
  "gets_loop mx i buf rs =
     (if i + 1 < mx then
        (case read_call 1 rs of (c, rs2) \<Rightarrow>
           if c = [] then (buf, rs2)
           else if hd c = 10 \<or> hd c = 13 then (buf @ [hd c], rs2)
           else gets_loop mx (i + 1) (buf @ [hd c]) rs2)
      else (buf, rs))"
  by pat_completeness auto
termination by (relation "measure (\<lambda>(mx, i, buf, rs). mx - i)") auto

declare gets_loop.simps [simp del]

definition gets :: "nat \<Rightarrow> u8 list list \<Rightarrow> u8 list \<times> u8 list list" where
  "gets mx rs = gets_loop mx 0 [] rs"

text \<open>\<^verbatim>\<open>gets\<close> returns a line with its newline, and leaves the rest of the input.\<close>

lemma gets_loop_line:
  assumes "concat rs = l @ 10 # r" "10 \<notin> set l" "13 \<notin> set l" "[] \<notin> set rs" "i + length l + 1 < mx"
  shows "\<exists>rs2. gets_loop mx i buf rs = (buf @ l @ [10], rs2) \<and> concat rs2 = r \<and> [] \<notin> set rs2"
  using assms
proof (induction l arbitrary: i buf rs)
  case Nil
  then obtain c cs where rs: "rs = (10 # c) # cs" by (cases rs; cases "hd rs") auto
  then show ?case using Nil by (subst gets_loop.simps) (auto simp: Suc_le_eq)
next
  case (Cons x l)
  then obtain c cs where rs: "rs = (x # c) # cs" by (cases rs; cases "hd rs") auto
  let ?rs = "if length (x # c) \<le> 1 then cs else c # cs"
  have "\<exists>rs2. gets_loop mx (i + 1) (buf @ [x]) ?rs = ((buf @ [x]) @ l @ [10], rs2) \<and> concat rs2 = r \<and> [] \<notin> set rs2"
    using Cons.prems rs by (intro Cons.IH) auto
  then show ?case using Cons.prems rs by (subst gets_loop.simps) (auto simp: Suc_le_eq)
qed

lemma gets_line:
  "concat rs = l @ 10 # r \<Longrightarrow> 10 \<notin> set l \<Longrightarrow> 13 \<notin> set l \<Longrightarrow> [] \<notin> set rs \<Longrightarrow> length l + 1 < mx \<Longrightarrow>
     \<exists>rs2. gets mx rs = (l @ [10], rs2) \<and> concat rs2 = r \<and> [] \<notin> set rs2"
  using gets_loop_line [of rs l r 0 mx "[]"] by (simp add: gets_def)

section \<open>Numbers\<close>

text \<open>A result that does not fit an \<^verbatim>\<open>int\<close> is undefined.\<close>

definition int_ok :: "int \<Rightarrow> int res" where
  "int_ok x = (if - (2 ^ 31) \<le> x \<and> x < 2 ^ 31 then Inr x else Inl Overflow)"

fun atoi_loop :: "int \<Rightarrow> u8 list \<Rightarrow> int res" where
  "atoi_loop n [] = Inr n"
| "atoi_loop n (c # s) =
     (if 48 \<le> c \<and> c \<le> 57 then
        bnd (int_ok (n * 10)) (\<lambda>m. bnd (int_ok (m + uint c)) (\<lambda>k. bnd (int_ok (k - 48)) (\<lambda>n2. atoi_loop n2 s)))
      else Inr n)"

definition atoi :: "u8 list \<Rightarrow> int res" where
  "atoi s = atoi_loop 0 s"

definition digits :: "u8 list" where
  "digits = [48, 49, 50, 51, 52, 53, 54, 55, 56, 57, 65, 66, 67, 68, 69, 70]"

text \<open>The \<^verbatim>\<open>do while\<close> loop of \<^verbatim>\<open>printint\<close>: the digits, the last one first.\<close>

partial_function (option) digit_loop :: "nat \<Rightarrow> nat \<Rightarrow> u8 list \<Rightarrow> u8 list option" where
  "digit_loop base x buf =
     (let buf2 = buf @ [digits ! (x mod base)]; x2 = x div base
      in if x2 \<noteq> 0 then digit_loop base x2 buf2 else Some buf2)"

definition printint :: "u32 \<Rightarrow> nat \<Rightarrow> bool \<Rightarrow> u8 list res option" where
  "printint xx base sg =
     (let neg = (sg \<and> sint xx < 0) in
      if neg \<and> sint xx = - (2 ^ 31) then Some (Inl Overflow)
      else
        let x = unat (if neg then - xx else xx)
        in map_option (\<lambda>buf. Inr (rev (if neg then buf @ [45] else buf))) (digit_loop base x []))"

fun printptr_loop :: "nat \<Rightarrow> u64 \<Rightarrow> u8 list" where
  "printptr_loop 0 x = []"
| "printptr_loop (Suc n) x = digits ! unat (drop_bit 60 x) # printptr_loop n (push_bit 4 x)"

definition printptr :: "u64 \<Rightarrow> u8 list" where
  "printptr x = [48, 120] @ printptr_loop 16 x"


text \<open>
  \<^verbatim>\<open>vprintf\<close>: the values that \<^verbatim>\<open>va_arg\<close> takes are machine words or strings, where a null
  pointer is \<open>Str None\<close>. A missing value, or one of the other kind, is undefined.
\<close>

datatype arg = Num u64 | Str "u8 list option"

definition out_then :: "u8 list res option \<Rightarrow> u8 list res option \<Rightarrow> u8 list res option" where
  "out_then m k =
     (case (m, k) of
        (None, _) \<Rightarrow> None
      | (Some (Inl e), _) \<Rightarrow> Some (Inl e)
      | (Some (Inr a), Some (Inr b)) \<Rightarrow> Some (Inr (a @ b))
      | (Some (Inr a), r) \<Rightarrow> r)"

definition out :: "u8 list \<Rightarrow> u8 list res option" where
  "out s = Some (Inr s)"

fun convert :: "u8 \<Rightarrow> arg list \<Rightarrow> u8 list res option \<times> arg list" where
  "convert c (Num a # vs) =
     (if c = 100 then (printint (ucast a) 10 True, vs)
      else if c = 108 then (printint (ucast a) 10 False, vs)
      else if c = 120 then (printint (ucast a) 16 False, vs)
      else if c = 112 then (out (printptr a), vs)
      else if c = 115 then (Some (Inl OutOfBounds), vs)
      else if c = 99 then (out [ucast a], vs)
      else if c = 37 then (out [c], Num a # vs)
      else (out [37, c], Num a # vs))"
| "convert c (Str s # vs) =
     (if c = 115 then (out (case s of None \<Rightarrow> [40, 110, 117, 108, 108, 41] | Some t \<Rightarrow> t), vs)
      else if c \<in> {100, 108, 120, 112, 99} then (Some (Inl OutOfBounds), vs)
      else if c = 37 then (out [c], Str s # vs)
      else (out [37, c], Str s # vs))"
| "convert c [] =
     (if c \<in> {100, 108, 120, 112, 115, 99} then (Some (Inl OutOfBounds), [])
      else if c = 37 then (out [c], []) else (out [37, c], []))"

fun vprintf :: "bool \<Rightarrow> u8 list \<Rightarrow> arg list \<Rightarrow> u8 list res option" where
  "vprintf percent [] vs = out []"
| "vprintf False (c # fmt) vs =
     (if c = 37 then vprintf True fmt vs else out_then (out [c]) (vprintf False fmt vs))"
| "vprintf True (c # fmt) vs = (case convert c vs of (m, vs2) \<Rightarrow> out_then m (vprintf False fmt vs2))"

definition printf :: "u8 list \<Rightarrow> arg list \<Rightarrow> u8 list res option" where
  "printf fmt vs = vprintf False fmt vs"

section \<open>Decimal numbers\<close>

text \<open>The decimal notation, most significant digit first.\<close>

fun decimal :: "nat \<Rightarrow> u8 list" where
  "decimal n = (if n < 10 then [word_of_nat (48 + n)] else decimal (n div 10) @ [word_of_nat (48 + n mod 10)])"

declare decimal.simps [simp del]

lemma digit: "d < 10 \<Longrightarrow> digits ! d = word_of_nat (48 + d)"
  by (auto simp: digits_def less_Suc_eq numeral_eq_Suc)

lemma digit_loop_decimal: "digit_loop 10 n buf = Some (buf @ rev (decimal n))"
proof (induction n arbitrary: buf rule: decimal.induct)
  case (1 n)
  show ?case
  proof (cases "n < 10")
    case True
    then show ?thesis by (subst digit_loop.simps, subst decimal.simps) (simp add: digit)
  next
    case False
    then have "n div 10 \<noteq> 0" by auto
    then show ?thesis
      using 1 [OF False] by (subst digit_loop.simps, subst decimal.simps) (simp add: digit False Let_def)
  qed
qed

lemma uint_u8_of_nat: "k < 256 \<Longrightarrow> uint (word_of_nat k :: u8) = int k"
  by (simp add: unsigned_of_nat take_bit_nat_eq_self)

lemma atoi_digit:
  assumes "d < 10" "0 \<le> n" "n * 10 + int d < 2 ^ 31"
  shows "atoi_loop n (word_of_nat (48 + d) # s) =
    (if n * 10 + int d + 48 < 2 ^ 31 then atoi_loop (n * 10 + int d) s else Inl Overflow)"
proof -
  define c where "c = (word_of_nat (48 + d) :: u8)"
  have "uint c = int (48 + d)" unfolding c_def by (rule uint_u8_of_nat) (use assms(1) in simp)
  then have u: "uint c = 48 + int d" by simp
  have "48 \<le> c \<and> c \<le> 57" unfolding word_le_def u using assms(1) by simp
  moreover have "n * 10 < 2 ^ 31" using assms by linarith
  ultimately show ?thesis using assms unfolding c_def [symmetric] by (simp add: u int_ok_def)
qed

lemma atoi_decimal:
  "int n < 2 ^ 31 \<Longrightarrow>
     atoi_loop 0 (decimal n @ s) = (if int n + 48 < 2 ^ 31 then atoi_loop (int n) s else Inl Overflow)"
proof (induction n arbitrary: s rule: decimal.induct)
  case (1 n)
  show ?case
  proof (cases "n < 10")
    case True
    then show ?thesis using atoi_digit [of n 0 s] by (subst decimal.simps) simp
  next
    case False
    have e: "int (n div 10) * 10 + int (n mod 10) = int n"
      by (metis div_mult_mod_eq of_nat_add of_nat_mult of_nat_numeral)
    have "int (n div 10) + 48 < 2 ^ 31" using 1(2) by (simp add: zdiv_int)
    then have "atoi_loop 0 (decimal n @ s) = atoi_loop (int (n div 10)) (word_of_nat (48 + n mod 10) # s)"
      using 1(1) [OF False, of "word_of_nat (48 + n mod 10) # s"] 1(2) False by (subst decimal.simps) simp
    then show ?thesis using atoi_digit [of "n mod 10" "int (n div 10)" s] 1(2) unfolding e by simp
  qed
qed

text \<open>
  \<^verbatim>\<open>atoi\<close> reads back what \<^verbatim>\<open>printf("%d")\<close> prints of a number that is not negative, but for the
  48 largest: there the sum in \<^verbatim>\<open>n*10 + *s++ - '0'\<close> overflows before the subtraction. Of a negative
  number it reads 0.
\<close>
theorem atoi_of_printint:
  assumes "- (2 ^ 31) < sint x"
  shows "\<exists>s. printint x 10 True = Some (Inr s) \<and>
    atoi s = (if sint x < 0 then Inr 0 else if sint x + 48 < 2 ^ 31 then Inr (sint x) else Inl Overflow)"
proof (cases "sint x < 0")
  case True
  then show ?thesis using assms by (simp add: printint_def digit_loop_decimal atoi_def)
next
  case False
  have l: "sint x < 2 ^ 31" using sint_lt [of x] by simp
  have "uint x = take_bit 32 (sint x)" using uint_sint [of x] by simp
  then have u: "int (unat x) = sint x" using False l by (simp add: take_bit_int_eq_self)
  have "atoi (decimal (unat x)) = (if sint x + 48 < 2 ^ 31 then Inr (sint x) else Inl Overflow)"
    using atoi_decimal [of "unat x" "[]"] using l unfolding u atoi_def by (simp only: append_Nil2 atoi_loop.simps if_True)
  moreover have "printint x 10 True = Some (Inr (decimal (unat x)))" using False by (simp add: printint_def digit_loop_decimal)
  ultimately show ?thesis using False by simp
qed

lemma atoi_of_printint_witness:
  "\<exists>s. printint 2024 10 True = Some (Inr s) \<and> atoi s = Inr 2024"
  using atoi_of_printint [of 2024] by simp

end
