(* ===== verification/Grep.thy ===== *)
theory Grep
  imports Ulib
begin

text \<open>
  \<^verbatim>\<open>user/grep.c\<close>: the pattern matcher of Kernighan and Pike and the loop of \<^verbatim>\<open>grep\<close> over its input.
  A string is the list of its bytes before the NUL; advancing a pointer is taking the tail. The matcher is
  shown equivalent to the language of the pattern, and \<^verbatim>\<open>grep\<close> to print exactly the matching lines,
  however the input is cut into reads.
\<close>

section \<open>The matcher\<close>

abbreviation (input) CARET :: u8 where "CARET \<equiv> 94"
abbreviation (input) DOLLAR :: u8 where "DOLLAR \<equiv> 36"
abbreviation (input) DOT :: u8 where "DOT \<equiv> 46"
abbreviation (input) STAR :: u8 where "STAR \<equiv> 42"
abbreviation (input) NL :: u8 where "NL \<equiv> 10"

function matchhere :: "u8 list \<Rightarrow> u8 list \<Rightarrow> bool" and matchstar :: "u8 \<Rightarrow> u8 list \<Rightarrow> u8 list \<Rightarrow> bool" where
  "matchhere re str =
     (case re of
        [] \<Rightarrow> True
      | c # re1 \<Rightarrow>
          if re1 \<noteq> [] \<and> hd re1 = STAR then matchstar c (tl re1) str
          else if c = DOLLAR \<and> re1 = [] then str = []
          else if str \<noteq> [] \<and> (c = DOT \<or> c = hd str) then matchhere re1 (tl str)
          else False)"
| "matchstar c re str =
     (if matchhere re str then True
      else if str \<noteq> [] \<and> (hd str = c \<or> c = DOT) then matchstar c re (tl str)
      else False)"
  by pat_completeness auto
termination
  by (relation "measure (\<lambda>x. case x of Inl (re, str) \<Rightarrow> 2 * (length re + length str)
        | Inr (c, re, str) \<Rightarrow> 2 * (length re + length str) + 1)")
     (auto simp: neq_Nil_conv)

declare matchhere.simps [simp del] matchstar.simps [simp del]

text \<open>The \<^verbatim>\<open>do while\<close> loop of \<^verbatim>\<open>match\<close> also tries the empty rest.\<close>

fun match_any :: "u8 list \<Rightarrow> u8 list \<Rightarrow> bool" where
  "match_any re [] = matchhere re []"
| "match_any re (t # ts) = (if matchhere re (t # ts) then True else match_any re ts)"

definition match :: "u8 list \<Rightarrow> u8 list \<Rightarrow> bool" where
  "match re str = (if re \<noteq> [] \<and> hd re = CARET then matchhere (tl re) str else match_any re str)"

section \<open>The language of a pattern\<close>

datatype rx = One u8 | Many u8

fun items :: "u8 list \<Rightarrow> rx list" where
  "items [] = []"
| "items [c] = (if c = DOLLAR then [] else [One c])"
| "items (c # d # re) = (if d = STAR then Many c # items re else One c # items (d # re))"

fun at_end :: "u8 list \<Rightarrow> bool" where
  "at_end [] = False"
| "at_end [c] = (c = DOLLAR)"
| "at_end (c # d # re) = (if d = STAR then at_end re else at_end (d # re))"

definition fits :: "u8 \<Rightarrow> u8 \<Rightarrow> bool" where
  "fits c x \<longleftrightarrow> c = DOT \<or> c = x"

fun lang :: "rx list \<Rightarrow> u8 list set" where
  "lang [] = {[]}"
| "lang (One c # r) = {x # w | x w. fits c x \<and> w \<in> lang r}"
| "lang (Many c # r) = {v @ w | v w. (\<forall>x\<in>set v. fits c x) \<and> w \<in> lang r}"

definition prefix_match :: "u8 list \<Rightarrow> u8 list \<Rightarrow> bool" where
  "prefix_match re str \<longleftrightarrow> (\<exists>w post. str = w @ post \<and> w \<in> lang (items re) \<and> (at_end re \<longrightarrow> post = []))"

lemma prefix_match_simps:
  "prefix_match [] str" "prefix_match [c] str = (if c = DOLLAR then str = [] else str \<noteq> [] \<and> fits c (hd str))"
proof -
  show "prefix_match [] str" by (simp add: prefix_match_def)
  show "prefix_match [c] str = (if c = DOLLAR then str = [] else str \<noteq> [] \<and> fits c (hd str))"
  proof (cases str)
    case (Cons x xs)
    have "\<exists>w post. x # xs = w @ post \<and> (\<exists>y. w = [y] \<and> fits c y)" if "fits c x"
      using that by (intro exI [of _ "[x]"] exI [of _ xs]) simp
    then show ?thesis using Cons by (auto simp: prefix_match_def)
  qed (simp add: prefix_match_def)
qed

lemma prefix_match_one:
  assumes "d \<noteq> STAR"
  shows "prefix_match (c # d # re) str \<longleftrightarrow> str \<noteq> [] \<and> fits c (hd str) \<and> prefix_match (d # re) (tl str)"
  using assms by (cases str) (auto simp: prefix_match_def Cons_eq_append_conv)

lemma prefix_match_split:
  "prefix_match (c # STAR # re) str \<longleftrightarrow> (\<exists>v u. str = v @ u \<and> (\<forall>x\<in>set v. fits c x) \<and> prefix_match re u)"
proof
  assume "prefix_match (c # STAR # re) str"
  then obtain v w post where "str = v @ w @ post" "\<forall>x\<in>set v. fits c x" "w \<in> lang (items re)" "at_end re \<longrightarrow> post = []"
    unfolding prefix_match_def by (simp, metis append.assoc)
  then show "\<exists>v u. str = v @ u \<and> (\<forall>x\<in>set v. fits c x) \<and> prefix_match re u"
    by (intro exI [of _ v] exI [of _ "w @ post"]) (auto simp: prefix_match_def)
next
  assume "\<exists>v u. str = v @ u \<and> (\<forall>x\<in>set v. fits c x) \<and> prefix_match re u"
  then obtain v w post where "str = v @ w @ post" "\<forall>x\<in>set v. fits c x" "w \<in> lang (items re)" "at_end re \<longrightarrow> post = []"
    by (auto simp: prefix_match_def)
  then show "prefix_match (c # STAR # re) str"
    unfolding prefix_match_def by (intro exI [of _ "v @ w"] exI [of _ post]) auto
qed

lemma prefix_match_many:
  "prefix_match (c # STAR # re) str \<longleftrightarrow>
     prefix_match re str \<or> str \<noteq> [] \<and> fits c (hd str) \<and> prefix_match (c # STAR # re) (tl str)"
    (is "?l \<longleftrightarrow> ?r")
proof
  assume ?l
  then obtain v u where vu: "str = v @ u" "\<forall>x\<in>set v. fits c x" "prefix_match re u"
    by (auto simp: prefix_match_split)
  then show ?r by (cases v) (auto simp: prefix_match_split)
next
  assume ?r
  then show ?l
  proof
    assume "prefix_match re str"
    then show ?l unfolding prefix_match_split by (intro exI [of _ "[]"] exI [of _ str]) simp
  next
    assume r: "str \<noteq> [] \<and> fits c (hd str) \<and> prefix_match (c # STAR # re) (tl str)"
    then obtain v u where "tl str = v @ u" "\<forall>x\<in>set v. fits c x" "prefix_match re u"
      by (auto simp: prefix_match_split)
    then show ?l
      using r unfolding prefix_match_split by (intro exI [of _ "hd str # v"] exI [of _ u]) (cases str; simp)
  qed
qed

lemma matchhere_iff:
  "matchhere re str = prefix_match re str"
  "matchstar c re str = prefix_match (c # STAR # re) str"
proof (induction re str and c re str rule: matchhere_matchstar.induct)
  case (1 re str)
  show ?case
  proof (cases re)
    case Nil
    then show ?thesis by (subst matchhere.simps) (simp add: prefix_match_simps)
  next
    case (Cons c re1)
    then show ?thesis
      using 1 by (subst matchhere.simps, cases re1)
        (auto simp: prefix_match_simps prefix_match_one fits_def neq_Nil_conv)
  qed
next
  case (2 c re str)
  then show ?case
    by (subst matchstar.simps, subst prefix_match_many) (auto simp: fits_def)
qed

lemma match_any_iff: "match_any re str = (\<exists>pre t. str = pre @ t \<and> prefix_match re t)"
  by (induction str) (auto simp: matchhere_iff Cons_eq_append_conv)


lemma match_iff:
  "match re str \<longleftrightarrow> (if re \<noteq> [] \<and> hd re = CARET then prefix_match (tl re) str
     else \<exists>pre t. str = pre @ t \<and> prefix_match re t)"
  by (simp add: match_def matchhere_iff match_any_iff)

section \<open>The loop of grep\<close>

definition overwrite :: "u8 list \<Rightarrow> nat \<Rightarrow> u8 list \<Rightarrow> u8 list" where
  "overwrite buf i xs = take i buf @ xs @ drop (i + length xs) buf"

text \<open>The inner loop: print the matching lines of the string at \<open>p\<close>; the result is the buffer, the
  final \<open>p\<close> and the bytes written.\<close>

function scan :: "u8 list \<Rightarrow> u8 list \<Rightarrow> nat \<Rightarrow> u8 list \<times> nat \<times> u8 list" where
  "scan re buf p =
     (case strchr (drop p buf) NL of
        None \<Rightarrow> (buf, p, [])
      | Some d \<Rightarrow>
          let q = p + d;
              b0 = buf[q := 0];
              hit = match re (cstring b0 p);
              b1 = (if hit then b0[q := NL] else b0);
              out = (if hit then take (q + 1 - p) (drop p b1) else []);
              (b2, p2, out2) = scan re b1 (q + 1)
          in (b2, p2, out @ out2))"
  by pat_completeness auto
termination
  by (relation "measure (\<lambda>(re, buf, p). length buf - p)") (auto dest!: strchr_bound)

declare scan.simps [simp del]

function grep :: "u8 list \<Rightarrow> u8 list list \<Rightarrow> u8 list \<Rightarrow> nat \<Rightarrow> u8 list" where
  "grep re rs buf m =
     (let (c, rs2) = read_call (1024 - m - 1) rs in
      if c = [] then []
      else
        let m1 = m + length c;
            b1 = (overwrite buf m c)[m1 := 0];
            (b2, p, out) = scan re b1 0;
            m2 = (if 0 < m1 then m1 - p else m1);
            b3 = (if 0 < m1 then overwrite b2 0 (take m2 (drop p b2)) else b2)
        in out @ grep re rs2 b3 m2)"
  by pat_completeness auto
termination
proof (relation "measure (\<lambda>(re, rs, buf, m). length (concat rs))", goal_cases)
  case (2 re rs buf m)
  then show ?case by (cases rs) (auto split: if_splits)
qed simp

declare grep.simps [simp del]

definition unlines :: "u8 list list \<Rightarrow> u8 list" where
  "unlines ls = concat (List.map (\<lambda>l. l @ [NL]) ls)"

lemma unlines_simps [simp]:
  "unlines [] = []" "unlines (l # ls) = l @ NL # unlines ls" "unlines (ls @ ms) = unlines ls @ unlines ms"
  by (simp_all add: unlines_def)

lemma strchr_newline: "0 \<notin> set l \<Longrightarrow> NL \<notin> set l \<Longrightarrow> strchr (l @ NL # r) NL = Some (length l)"
  by (induction l) auto

lemma strchr_no_newline: "0 \<notin> set l \<Longrightarrow> NL \<notin> set l \<Longrightarrow> strchr (l @ 0 # r) NL = None"
  by (induction l) auto

lemma takeWhile_nul: "0 \<notin> set l \<Longrightarrow> takeWhile (\<lambda>x. x \<noteq> 0) (l @ 0 # r) = (l :: u8 list)"
  by (induction l) auto

text \<open>The inner loop over complete lines and an incomplete one.\<close>

lemma scan_lines:
  assumes "\<forall>l\<in>set ls. 0 \<notin> set l \<and> NL \<notin> set l" "0 \<notin> set u" "NL \<notin> set u"
    "drop p buf = unlines ls @ u @ 0 # r" "p \<le> length buf"
  shows "\<exists>buf2. scan re buf p = (buf2, p + length (unlines ls), unlines (filter (match re) ls)) \<and>
      drop (p + length (unlines ls)) buf2 = u @ 0 # r \<and> length buf2 = length buf"
  using assms
proof (induction ls arbitrary: buf p)
  case Nil
  then show ?case by (subst scan.simps) (simp add: strchr_no_newline)
next
  case (Cons l ls)
  define b where "b = take p buf"
  have buf: "buf = b @ l @ NL # unlines ls @ u @ 0 # r" and p: "p = length b"
    using Cons.prems append_take_drop_id [of p buf] by (simp_all add: b_def)
  have c: "strchr (drop p buf) NL = Some (length l)" using Cons.prems by (simp add: strchr_newline)
  have h: "cstring (buf[p + length l := 0]) p = l"
    using Cons.prems by (simp add: cstring_def buf p list_update_append takeWhile_nul)
  let ?b1 = "if match re l then (buf[p + length l := 0])[p + length l := NL] else buf[p + length l := 0]"
  have d: "drop (p + length l + 1) ?b1 = unlines ls @ u @ 0 # r" by (simp add: buf p list_update_append)
  have "\<exists>buf2. scan re ?b1 (p + length l + 1) = (buf2, p + length l + 1 + length (unlines ls), unlines (filter (match re) ls)) \<and>
      drop (p + length l + 1 + length (unlines ls)) buf2 = u @ 0 # r \<and> length buf2 = length ?b1"
    using Cons.prems d by (intro Cons.IH) (auto simp: buf p)
  then obtain buf2 where s: "scan re ?b1 (p + length l + 1) =
      (buf2, p + length l + 1 + length (unlines ls), unlines (filter (match re) ls))"
    "drop (p + length l + 1 + length (unlines ls)) buf2 = u @ 0 # r" "length buf2 = length buf" by auto
  have o: "match re l \<Longrightarrow> take (Suc (length l)) (drop p ?b1) = l @ [NL]"
    by (simp add: buf p list_update_append)
  show ?case
    by (subst scan.simps) (use s o in \<open>simp add: c h Let_def algebra_simps\<close>)
qed


text \<open>A piece of the input cut at any byte: its complete lines, and the beginning of the next line.\<close>

definition plain_line :: "u8 list \<Rightarrow> bool" where
  "plain_line l \<longleftrightarrow> 0 \<notin> set l \<and> NL \<notin> set l \<and> length l < 1023"

lemma cut_lines:
  assumes "u @ r = unlines ls @ e" "\<forall>l\<in>set ls. NL \<notin> set l" "NL \<notin> set e"
  shows "\<exists>ls1 ls2 w. ls = ls1 @ ls2 \<and> u = unlines ls1 @ w \<and> w @ r = unlines ls2 @ e \<and> NL \<notin> set w"
  using assms
proof (induction ls arbitrary: u)
  case Nil
  then show ?case by (intro exI [of _ "[]"] exI [of _ u]) (auto simp: append_eq_append_conv2)
next
  case (Cons l ls)
  show ?case
  proof (cases "length u \<le> length l")
    case True
    then obtain t where "l = u @ t" using Cons.prems(1) by (auto simp: append_eq_append_conv2)
    then show ?thesis using Cons.prems by (intro exI [of _ "[]"] exI [of _ "l # ls"] exI [of _ u]) auto
  next
    case False
    then obtain us where "u = l @ us" "us @ r = NL # unlines ls @ e" "us \<noteq> []"
      using Cons.prems(1) by (auto simp: append_eq_append_conv2)
    then obtain u2 where u: "u = l @ NL # u2" by (cases us) auto
    then have "u2 @ r = unlines ls @ e" using Cons.prems by simp
    then obtain ls1 ls2 w where "ls = ls1 @ ls2" "u2 = unlines ls1 @ w" "w @ r = unlines ls2 @ e" "NL \<notin> set w"
      using Cons.IH [of u2] Cons.prems by auto
    then show ?thesis using u by (intro exI [of _ "l # ls1"] exI [of _ ls2] exI [of _ w]) simp
  qed
qed

lemma pending_short:
  assumes "w @ r = unlines ls @ e" "NL \<notin> set w" "\<forall>l\<in>set ls. plain_line l" "plain_line e"
  shows "length w < 1023"
proof (cases ls)
  case Nil
  then have "length w \<le> length e" using arg_cong [OF assms(1), of length] by simp
  then show ?thesis using assms by (simp add: plain_line_def)
next
  case (Cons l ls2)
  have "length w \<le> length l"
  proof (rule ccontr)
    assume "\<not> length w \<le> length l"
    then have "(w @ r) ! length l \<in> set w" by (simp add: nth_append)
    then show False using assms(1, 2) Cons by simp
  qed
  then show ?thesis using assms(3) Cons by (auto simp: plain_line_def)
qed

lemma unlines_no_NUL: "0 \<notin> set (unlines ls) \<longleftrightarrow> (\<forall>l\<in>set ls. 0 \<notin> set l)"
  by (induction ls) auto

lemma grep_lines:
  assumes "\<forall>l\<in>set ls. plain_line l" "plain_line e" "length buf = 1024" "take m buf = u" "m = length u"
    "NL \<notin> set u" "u @ concat rs = unlines ls @ e" "[] \<notin> set rs"
  shows "grep re rs buf m = unlines (filter (match re) ls)"
  using assms
proof (induction "length (concat rs)" arbitrary: rs ls buf m u rule: less_induct)
  case less
  note prems = less.prems
  have m: "m < 1023" using pending_short [OF prems(7) prems(6) prems(1) prems(2)] prems(5) by simp
  show ?case
  proof (cases rs)
    case Nil
    then have "ls = []" using prems(6, 7) by (cases ls) auto
    then show ?thesis using Nil by (subst grep.simps) simp
  next
    case (Cons c0 cs)
    define c where "c = take (1024 - m - 1) c0"
    define rs2 where "rs2 = (if length c0 \<le> 1024 - m - 1 then cs else drop (1024 - m - 1) c0 # cs)"
    have c: "c \<noteq> []" "read_call (1024 - m - 1) rs = (c, rs2)" "concat rs = c @ concat rs2"
        "[] \<notin> set rs2" "length c \<le> 1024 - m - 1"
      using prems(8) m Cons by (auto simp: c_def rs2_def)
    obtain ls1 ls2 w where cut: "ls = ls1 @ ls2" "u @ c = unlines ls1 @ w" "w @ concat rs2 = unlines ls2 @ e"
        "NL \<notin> set w"
      using cut_lines [of "u @ c" "concat rs2" ls e] prems c(3) by (auto simp: plain_line_def)
    let ?m1 = "m + length c"
    let ?b1 = "(overwrite buf m c)[?m1 := 0]"
    have m1: "?m1 < 1024" using m c(5) by simp
    have "0 \<notin> set (unlines ls @ e)" using prems(1, 2) by (auto simp: unlines_no_NUL plain_line_def)
    then have nul: "0 \<notin> set w" unfolding prems(7) [symmetric] c(3) using cut(2) by (metis UnI1 UnI2 append.assoc set_append)
    obtain x r where xr: "drop ?m1 buf = x # r" using m1 prems(3) by (cases "drop ?m1 buf") auto
    have "length r = 1023 - ?m1" using arg_cong [OF xr, of length] prems(3) by simp
    then have b1: "drop 0 ?b1 = unlines ls1 @ w @ 0 # r" "length ?b1 = 1024"
      using prems(3, 4, 5) cut(2) xr m1 by (auto simp: overwrite_def list_update_append)
    have "\<forall>l\<in>set ls1. 0 \<notin> set l \<and> NL \<notin> set l" using prems(1) cut(1) by (auto simp: plain_line_def)
    from scan_lines [OF this nul cut(4) b1(1), of re]
    obtain b2 where b2: "scan re ?b1 0 = (b2, length (unlines ls1), unlines (filter (match re) ls1))"
        "drop (length (unlines ls1)) b2 = w @ 0 # r" "length b2 = 1024" using b1(2) by auto
    have len: "?m1 = length (unlines ls1) + length w"
      using arg_cong [OF cut(2), of length] prems(5) by simp
    let ?b3 = "overwrite b2 0 (take (length w) (drop (length (unlines ls1)) b2))"
    have "grep re rs2 ?b3 (length w) = unlines (filter (match re) ls2)"
    proof (rule less.hyps [of rs2 ls2 ?b3 "length w" w])
      show "length (concat rs2) < length (concat rs)" using c(1, 3) by simp
      show "length ?b3 = 1024" using b2(3) len m1 by (simp add: overwrite_def)
      show "take (length w) ?b3 = w" by (simp add: b2(2) overwrite_def)
    qed (use prems(1, 2) cut c(4) in auto)
    moreover have "unlines ls1 = [] \<longrightarrow> w \<noteq> []" using cut(2) c(1) by auto
    ultimately show ?thesis
      by (subst grep.simps) (use c b2 len in \<open>simp add: cut(1) Let_def\<close>)
  qed
qed

text \<open>
  C22. The matcher of \<^verbatim>\<open>grep\<close> accepts a line exactly when some piece of it is a word of the pattern's
  language: a sequence of items, each one byte or any number of bytes, where a dot fits every byte, and a
  dollar at the end of the pattern ties the piece to the end of the line and a caret at its beginning to the
  start.
\<close>
theorem match_language:
  "match re str \<longleftrightarrow>
     (let start = (re \<noteq> [] \<and> hd re = CARET); r = (if start then tl re else re)
      in \<exists>pre w post. str = pre @ w @ post \<and> w \<in> lang (items r) \<and>
           (if start then pre = [] else True) \<and> (if at_end r then post = [] else True))"
  unfolding match_iff prefix_match_def by (auto simp: Let_def)

text \<open>
  C20. However the input is cut into reads, \<^verbatim>\<open>grep\<close> writes exactly the matching lines, complete and
  in order, when no line is longer than its buffer; bytes after the last newline are never written.
\<close>
theorem grep_prints_matching_lines:
  assumes "\<forall>l\<in>set ls. plain_line l" "plain_line e" "concat rs = unlines ls @ e" "[] \<notin> set rs"
    "length buf = 1024"
  shows "grep re rs buf 0 = unlines (filter (match re) ls)"
  using assms by (intro grep_lines [of ls e buf 0 "[]" rs]) simp_all

lemma grep_prints_matching_lines_witness:
  "grep [97, STAR, 98] [[120, 97], [97, 98, NL, 99, NL, 98], [98, NL, 97]] (replicate 1024 0) 0 =
     [120, 97, 97, 98, NL, 98, 98, NL]"
proof -
  let ?ls = "[[120, 97, 97, 98], [99], [98, 98]] :: u8 list list"
  have "grep [97, STAR, 98] [[120, 97], [97, 98, NL, 99, NL, 98], [98, NL, 97]] (replicate 1024 0) 0 =
      unlines (filter (match [97, STAR, 98]) ?ls)"
    by (rule grep_prints_matching_lines [of ?ls "[97]"]) (simp_all add: plain_line_def)
  also have "\<dots> = [120, 97, 97, 98, NL, 98, 98, NL]"
    by (simp add: match_def matchhere.simps matchstar.simps)
  finally show ?thesis .
qed

text \<open>A line that fills the buffer ends \<^verbatim>\<open>grep\<close>: the next read has no room and returns 0.\<close>

lemma grep_full_buffer: "grep re rs buf 1023 = []"
  by (subst grep.simps) (cases rs; simp)

lemma grep_long_line_stops:
  assumes "length l = 1023" "0 \<notin> set l" "NL \<notin> set l" "length buf = 1024"
  shows "grep re (l # rs) buf 0 = []"
proof -
  have b: "drop 0 (l @ [0]) = unlines [] @ l @ 0 # []" by simp
  have "length (drop 1023 buf) = 1" using assms by simp
  then obtain x where "drop 1023 buf = [x]" by (cases "drop 1023 buf") (auto simp del: length_drop)
  then have o: "(overwrite buf 0 l)[1023 := 0] = l @ [0]"
    using assms by (simp add: overwrite_def list_update_append)
  obtain b2 where s: "scan re (l @ [0]) 0 = (b2, 0, [])" 
    using scan_lines [OF _ assms(2, 3) b, of re] by auto
  have "l \<noteq> []" using assms(1) by auto
  then show ?thesis
    by (subst grep.simps) (use assms(1) in \<open>simp add: o s grep_full_buffer\<close>)
qed

end
