(* ===== verification/Shell.thy ===== *)
theory Shell
  imports Ulib
begin

text \<open>
  \<^verbatim>\<open>user/sh.c\<close>: the scanner and the recursive descent parser of the shell. The parser only moves forward in
  the line, which is why it ends; the words of a command are stretches of the line, and writing NULs at their ends
  turns them into strings. A printer for commands shows that every command can be written, and is read back.
\<close>

section \<open>Tokens\<close>

definition whitespace :: "u8 list" where "whitespace = [32, 9, 13, 10, 11]"
definition symbols :: "u8 list" where "symbols = [60, 124, 62, 38, 59, 40, 41]"

text \<open>The line is the list of its bytes before the NUL; \<^verbatim>\<open>es\<close> is its length.\<close>

definition byte_at :: "u8 list \<Rightarrow> nat \<Rightarrow> u8" where
  "byte_at b s = (if s < length b then b ! s else 0)"

function skip_white :: "u8 list \<Rightarrow> nat \<Rightarrow> nat" where
  "skip_white b s = (if s < length b \<and> strchr whitespace (b ! s) \<noteq> None then skip_white b (s + 1) else s)"
  by pat_completeness auto
termination by (relation "measure (\<lambda>(b, s). length b - s)") auto

function skip_word :: "u8 list \<Rightarrow> nat \<Rightarrow> nat" where
  "skip_word b s =
     (if s < length b \<and> strchr whitespace (b ! s) = None \<and> strchr symbols (b ! s) = None then skip_word b (s + 1) else s)"
  by pat_completeness auto
termination by (relation "measure (\<lambda>(b, s). length b - s)") auto

declare skip_white.simps [simp del] skip_word.simps [simp del]

text \<open>The token, where it begins and ends, and where the next one begins.\<close>

definition gettoken :: "u8 list \<Rightarrow> nat \<Rightarrow> u8 \<times> nat \<times> nat \<times> nat" where
  "gettoken b s =
     (let q = skip_white b s;
          c = byte_at b q;
          (ret, e) =
            (if c = 0 then (0, q)
             else if c \<in> {124, 40, 41, 59, 38, 60} then (c, q + 1)
             else if c = 62 then (if byte_at b (q + 1) = 62 then (43, q + 2) else (62, q + 1))
             else (97, skip_word b q))
      in (ret, q, e, skip_white b e))"

definition peek :: "u8 list \<Rightarrow> nat \<Rightarrow> u8 list \<Rightarrow> nat \<times> bool" where
  "peek b s toks = (let q = skip_white b s in (q, byte_at b q \<noteq> 0 \<and> strchr toks (byte_at b q) \<noteq> None))"

lemma skip_white_unfold:
  "s < length b \<Longrightarrow> strchr whitespace (b ! s) \<noteq> None \<Longrightarrow> skip_white b s = skip_white b (Suc s)"
  "\<not> (s < length b \<and> strchr whitespace (b ! s) \<noteq> None) \<Longrightarrow> skip_white b s = s"
  by (auto simp: skip_white.simps [of b s])

lemma skip_word_unfold:
  "s < length b \<Longrightarrow> strchr whitespace (b ! s) = None \<Longrightarrow> strchr symbols (b ! s) = None \<Longrightarrow>
     skip_word b s = skip_word b (Suc s)"
  "\<not> (s < length b \<and> strchr whitespace (b ! s) = None \<and> strchr symbols (b ! s) = None) \<Longrightarrow> skip_word b s = s"
  by (auto simp: skip_word.simps [of b s])

lemma skip_white_bounds: "s \<le> skip_white b s \<and> (s \<le> length b \<longrightarrow> skip_white b s \<le> length b)"
proof (induction b s rule: skip_white.induct)
  case (1 b s)
  show ?case
  proof (cases "s < length b \<and> strchr whitespace (b ! s) \<noteq> None")
    case True
    then show ?thesis using 1 skip_white_unfold(1) [of s b] by simp
  next
    case False
    then have "skip_white b s = s" by (rule skip_white_unfold(2))
    then show ?thesis by simp
  qed
qed

lemma skip_word_bounds: "s \<le> skip_word b s \<and> (s \<le> length b \<longrightarrow> skip_word b s \<le> length b)"
proof (induction b s rule: skip_word.induct)
  case (1 b s)
  show ?case
  proof (cases "s < length b \<and> strchr whitespace (b ! s) = None \<and> strchr symbols (b ! s) = None")
    case True
    then show ?thesis using 1 skip_word_unfold(1) [of s b] by simp
  next
    case False
    then have "skip_word b s = s" by (rule skip_word_unfold(2))
    then show ?thesis by simp
  qed
qed

lemma skip_white_stops:
  "skip_white b s < length b \<Longrightarrow> strchr whitespace (b ! skip_white b s) = None"
proof (induction b s rule: skip_white.induct)
  case (1 b s)
  show ?case
  proof (cases "s < length b \<and> strchr whitespace (b ! s) \<noteq> None")
    case True
    then show ?thesis using 1 skip_white_unfold(1) [of s b] by simp
  next
    case False
    then have "skip_white b s = s" by (rule skip_white_unfold(2))
    then show ?thesis using 1 False by simp
  qed
qed

lemma skip_white_idem [simp]: "skip_white b (skip_white b s) = skip_white b s"
  using skip_white_stops [of b s] by (intro skip_white_unfold(2)) auto

lemma byte_at_pos: "byte_at b s \<noteq> 0 \<Longrightarrow> s < length b"
  by (simp add: byte_at_def split: if_splits)

lemma gettoken_forward: "gettoken b s = (t, q, e, s2) \<Longrightarrow> s \<le> q \<and> q \<le> e \<and> e \<le> s2"
  using skip_white_bounds [of s b] skip_word_bounds [of "skip_white b s" b] skip_white_bounds [of e b]
  by (auto simp: gettoken_def Let_def split: if_splits)

lemma skip_word_progress:
  assumes "byte_at b s \<noteq> 0" "strchr whitespace (b ! s) = None" "strchr symbols (b ! s) = None"
  shows "s < skip_word b s"
  using skip_word_unfold(1) [of s b] skip_word_bounds [of "Suc s" b] byte_at_pos [OF assms(1)] assms by simp

text \<open>A token is not empty: the parser moves.\<close>

lemma gettoken_progress:
  assumes "gettoken b s = (t, q, e, s2)" "byte_at b (skip_white b s) \<noteq> 0"
  shows "skip_white b s < s2"
proof -
  let ?q = "skip_white b s"
  have q: "?q < length b" using byte_at_pos [OF assms(2)] .
  then have c: "byte_at b ?q = b ! ?q" by (simp add: byte_at_def)
  have "?q < skip_word b ?q" if "b ! ?q \<notin> {124, 40, 41, 59, 38, 60, 62}"
    using that strchr_found [of symbols "b ! ?q"] skip_white_stops [OF q] assms(2)
    by (intro skip_word_progress) (auto simp: symbols_def c)
  then have "?q < e" using assms unfolding gettoken_def by (auto simp: Let_def c split: if_splits)
  then show ?thesis using gettoken_forward [OF assms(1)] by linarith
qed

lemma peek_true: "peek b s toks = (s0, True) \<Longrightarrow> s0 = skip_white b s \<and> byte_at b s0 \<noteq> 0 \<and> s \<le> s0"
  using skip_white_bounds [of s b] by (auto simp: peek_def Let_def)

text \<open>After a token that was peeked at, less of the line is left.\<close>

lemma peek_gettoken:
  assumes "peek b s toks = (s0, True)" "gettoken b s0 = (t, q, e, s1)"
  shows "s \<le> s0" "s0 < s1" "s0 < length b"
  using peek_true [OF assms(1)] gettoken_progress [OF assms(2)] byte_at_pos [of b s0] by auto

lemma operator_shorter:
  assumes "(s0, True) = peek b s toks" "(tok, q, e, s1) = gettoken b s0"
  shows "length b - s1 < length b - s"
  using peek_gettoken [OF assms [symmetric]] by linarith

lemma redirection_shorter:
  assumes "(s0, True) = peek b s toks" "(tok, q, e, s1) = gettoken b s0" "(tok2, q2, e2, s2) = gettoken b s1"
  shows "length b - s2 < length b - s"
  using peek_gettoken [OF assms(1, 2) [symmetric]] gettoken_forward [OF assms(3) [symmetric]] by linarith

section \<open>The parser\<close>

datatype 'w cmd = EXEC "'w list" | REDIR "'w cmd" 'w nat nat | PIPE "'w cmd" "'w cmd"
  | LIST "'w cmd" "'w cmd" | BACK "'w cmd"

text \<open>A word is the pair of its beginning and its end in the line.\<close>

type_synonym pcmd = "(nat \<times> nat) cmd"

definition MAXARGS :: nat where "MAXARGS = 10"

definition redirect :: "u8 \<Rightarrow> pcmd \<Rightarrow> nat \<times> nat \<Rightarrow> pcmd" where
  "redirect tok c f =
     (if tok = 60 then REDIR c f 0 0
      else if tok = 62 then REDIR c f 0x601 1
      else if tok = 43 then REDIR c f 0x201 1
      else c)"

function parseredirs :: "u8 list \<Rightarrow> pcmd \<Rightarrow> nat \<Rightarrow> (pcmd \<times> nat) res" where
  "parseredirs b c s =
     (case peek b s [60, 62] of (s0, more) \<Rightarrow>
        if more then
          (case gettoken b s0 of (tok, _, _, s1) \<Rightarrow>
             case gettoken b s1 of (tok2, q, e, s2) \<Rightarrow>
               if tok2 \<noteq> 97 then Inl (Panic ''missing file for redirection'')
               else parseredirs b (redirect tok c (q, e)) s2)
        else Inr (c, s0))"
  by pat_completeness auto
termination
  by (relation "measure (\<lambda>(b, c, s). length b - s)") (auto intro: redirection_shorter)

text \<open>The words are stored into the \<^verbatim>\<open>execcmd\<close> below the redirections that already surround it.\<close>

fun add_arg :: "'w cmd \<Rightarrow> 'w \<Rightarrow> 'w cmd" where
  "add_arg (EXEC args) a = EXEC (args @ [a])"
| "add_arg (REDIR c f m d) a = REDIR (add_arg c a) f m d"
| "add_arg c a = c"

function parseargs :: "u8 list \<Rightarrow> pcmd \<Rightarrow> nat \<Rightarrow> nat \<Rightarrow> (pcmd \<times> nat) res" where
  "parseargs b c argc s =
     (case peek b s [124, 41, 38, 59] of (s0, stop) \<Rightarrow>
        if stop then Inr (c, s0)
        else case gettoken b s0 of (tok, q, e, s1) \<Rightarrow>
          if tok = 0 then Inr (c, s1)
          else if tok \<noteq> 97 then Inl (Panic ''syntax'')
          else if argc + 1 \<ge> MAXARGS then Inl (Panic ''too many args'')
          else bnd (parseredirs b (add_arg c (q, e)) s1) (\<lambda>(c2, s2). parseargs b c2 (argc + 1) s2))"
  by pat_completeness auto
termination by (relation "measure (\<lambda>(b, c, argc, s). MAXARGS - argc)") auto

function parseback :: "u8 list \<Rightarrow> pcmd \<Rightarrow> nat \<Rightarrow> pcmd \<times> nat" where
  "parseback b c s =
     (case peek b s [38] of (s0, more) \<Rightarrow>
        if more then (case gettoken b s0 of (_, _, _, s1) \<Rightarrow> parseback b (BACK c) s1) else (c, s0))"
  by pat_completeness auto
termination
  by (relation "measure (\<lambda>(b, c, s). length b - s)") (auto intro: operator_shorter)

declare parseredirs.simps [simp del] parseargs.simps [simp del] parseback.simps [simp del]

lemma peek_forward: "peek b s toks = (s0, m) \<Longrightarrow> s \<le> s0"
  using skip_white_bounds [of s b] by (auto simp: peek_def Let_def)

lemma parseredirs_forward: "parseredirs b c s = Inr (c2, s2) \<Longrightarrow> s \<le> s2"
proof (induction b c s rule: parseredirs.induct)
  case (1 b c s)
  obtain s0 m tok q0 e0 s1 tok2 q e s3 where p: "peek b s [60, 62] = (s0, m)"
    "gettoken b s0 = (tok, q0, e0, s1)" "gettoken b s1 = (tok2, q, e, s3)" by (metis prod_cases4 surj_pair)
  have "s \<le> s0" "s0 \<le> s1" "s1 \<le> s3"
    using peek_forward [OF p(1)] gettoken_forward [OF p(2)] gettoken_forward [OF p(3)] by auto
  moreover have "s3 \<le> s2" if "m" "tok2 = 97"
    using "1.IH" [OF p(1) [symmetric] _ p(2) [symmetric] refl refl p(3) [symmetric] refl refl] that "1.prems" p
    by (simp add: parseredirs.simps [of b c s])
  ultimately show ?case
    using "1.prems" p by (auto simp: parseredirs.simps [of b c s] split: if_splits)
qed

lemma parseargs_forward: "parseargs b c argc s = Inr (c2, s2) \<Longrightarrow> s \<le> s2"
proof (induction b c argc s rule: parseargs.induct)
  case (1 b c argc s)
  obtain s0 m tok q e s1 where p: "peek b s [124, 41, 38, 59] = (s0, m)" "gettoken b s0 = (tok, q, e, s1)"
    by (metis prod_cases4 surj_pair)
  have "s \<le> s0" "s0 \<le> s1" using peek_forward [OF p(1)] gettoken_forward [OF p(2)] by auto
  then show ?case
    using "1.prems" p "1.IH" [OF p(1) [symmetric] _ p(2) [symmetric] refl refl]
    by (fastforce simp: parseargs.simps [of b c argc s] res_simps split: if_splits dest: parseredirs_forward)
qed

lemma parseback_forward: "parseback b c s = (c2, s2) \<Longrightarrow> s \<le> s2"
proof (induction b c s rule: parseback.induct)
  case (1 b c s)
  obtain s0 m tok q e s1 where p: "peek b s [38] = (s0, m)" "gettoken b s0 = (tok, q, e, s1)"
    by (metis prod_cases4 surj_pair)
  have "s \<le> s0" "s0 \<le> s1" using peek_forward [OF p(1)] gettoken_forward [OF p(2)] by auto
  then show ?case
    using "1.prems" p "1.IH" [OF p(1) [symmetric] _ p(2) [symmetric] refl refl]
    by (auto simp: parseback.simps [of b c s] split: if_splits)
qed

lemma list_shorter:
  assumes "s \<le> t" "(c2, t2) = parseback b c t" "(t3, True) = peek b t2 toks" "(x, q, e, t4) = gettoken b t3"
  shows "length b - t4 < length b - s"
  using assms(1) parseback_forward [OF assms(2) [symmetric]] operator_shorter [OF assms(3, 4)] by linarith

lemma pipe_shorter:
  assumes "s \<le> t" "(t3, True) = peek b t toks" "(x, q, e, t4) = gettoken b t3"
  shows "length b - t4 < length b - s"
  using assms(1) operator_shorter [OF assms(2, 3)] by linarith

text \<open>
  The grammar. The calls end because every one is on a shorter rest of the line, or further down the grammar on
  the same rest; a call that returns has not moved back.
\<close>

function parseline :: "u8 list \<Rightarrow> nat \<Rightarrow> (pcmd \<times> nat) res"
  and parsepipe :: "u8 list \<Rightarrow> nat \<Rightarrow> (pcmd \<times> nat) res"
  and parseexec :: "u8 list \<Rightarrow> nat \<Rightarrow> (pcmd \<times> nat) res"
  and parseblock :: "u8 list \<Rightarrow> nat \<Rightarrow> (pcmd \<times> nat) res" where
  "parseline b s =
     bnd (parsepipe b s) (\<lambda>(c, s1).
       case parseback b c s1 of (c2, s2) \<Rightarrow>
       case peek b s2 [59] of (s3, more) \<Rightarrow>
       if more then
         (case gettoken b s3 of (_, _, _, s4) \<Rightarrow> bnd (parseline b s4) (\<lambda>(r, s5). Inr (LIST c2 r, s5)))
       else Inr (c2, s3))"
| "parsepipe b s =
     bnd (parseexec b s) (\<lambda>(c, s1).
       case peek b s1 [124] of (s2, more) \<Rightarrow>
       if more then
         (case gettoken b s2 of (_, _, _, s3) \<Rightarrow> bnd (parsepipe b s3) (\<lambda>(r, s4). Inr (PIPE c r, s4)))
       else Inr (c, s2))"
| "parseexec b s =
     (case peek b s [40] of (s0, block) \<Rightarrow>
      if block then parseblock b s0
      else bnd (parseredirs b (EXEC []) s0) (\<lambda>(c, s1). parseargs b c 0 s1))"
| "parseblock b s =
     (case peek b s [40] of (s0, block) \<Rightarrow>
      if \<not> block then Inl (Panic ''parseblock'')
      else case gettoken b s0 of (_, _, _, s1) \<Rightarrow>
        bnd (parseline b s1) (\<lambda>(c, s2).
          case peek b s2 [41] of (s3, close) \<Rightarrow>
          if \<not> close then Inl (Panic ''syntax - missing )'')
          else case gettoken b s3 of (_, _, _, s4) \<Rightarrow> parseredirs b c s4))"
  by pat_completeness auto
termination
proof -
  have forward:
    "parseline_parsepipe_parseexec_parseblock_dom (Inl (Inl (b1, s1))) \<Longrightarrow> parseline b1 s1 = Inr (c, t) \<Longrightarrow> s1 \<le> t"
    "parseline_parsepipe_parseexec_parseblock_dom (Inl (Inr (b2, s2))) \<Longrightarrow> parsepipe b2 s2 = Inr (c, t) \<Longrightarrow> s2 \<le> t"
    "parseline_parsepipe_parseexec_parseblock_dom (Inr (Inl (b3, s3))) \<Longrightarrow> parseexec b3 s3 = Inr (c, t) \<Longrightarrow> s3 \<le> t"
    "parseline_parsepipe_parseexec_parseblock_dom (Inr (Inr (b4, s4))) \<Longrightarrow> parseblock b4 s4 = Inr (c, t) \<Longrightarrow> s4 \<le> t"
    for b1 s1 b2 s2 b3 s3 b4 s4 c t
  proof (induction b1 s1 and b2 s2 and b3 s3 and b4 s4 arbitrary: c t and c t and c t and c t
      rule: parseline_parsepipe_parseexec_parseblock.pinduct)
    case (1 b s)
    obtain c1 t1 where p: "parsepipe b s = Inr (c1, t1)" using 1 by (auto simp: parseline.psimps res_simps)
    obtain c2 t2 t3 m tok q e t4 where l: "parseback b c1 t1 = (c2, t2)" "peek b t2 [59] = (t3, m)"
      "gettoken b t3 = (tok, q, e, t4)" by (metis prod_cases4 surj_pair)
    have "s \<le> t1" "t1 \<le> t2" "t2 \<le> t3" "t3 \<le> t4"
      using "1.IH"(1) [OF p] parseback_forward [OF l(1)] peek_forward [OF l(2)] gettoken_forward [OF l(3)] by auto
    then show ?case
      using "1.prems" p l "1.IH"(2) [OF p refl l(1) [symmetric] l(2) [symmetric] _ l(3) [symmetric] refl refl]
      by (fastforce simp: parseline.psimps [OF "1.hyps"] res_simps split: if_splits)
  next
    case (2 b s)
    obtain c1 t1 where p: "parseexec b s = Inr (c1, t1)" using 2 by (auto simp: parsepipe.psimps res_simps)
    obtain t2 m tok q e t3 where l: "peek b t1 [124] = (t2, m)" "gettoken b t2 = (tok, q, e, t3)"
      by (metis prod_cases4 surj_pair)
    have "s \<le> t1" "t1 \<le> t2" "t2 \<le> t3"
      using "2.IH"(1) [OF p] peek_forward [OF l(1)] gettoken_forward [OF l(2)] by auto
    then show ?case
      using "2.prems" p l "2.IH"(2) [OF p refl l(1) [symmetric] _ l(2) [symmetric] refl refl]
      by (fastforce simp: parsepipe.psimps [OF "2.hyps"] res_simps split: if_splits)
  next
    case (3 b s)
    obtain s0 m where p: "peek b s [40] = (s0, m)" by fastforce
    then show ?case
      using "3.prems" "3.IH" [OF p [symmetric]] peek_forward [OF p]
      by (fastforce simp: parseexec.psimps [OF "3.hyps"] res_simps split: if_splits
          dest: parseredirs_forward parseargs_forward)
  next
    case (4 b s)
    obtain s0 m tok q e s1 where p: "peek b s [40] = (s0, m)" "gettoken b s0 = (tok, q, e, s1)"
      by (metis prod_cases4 surj_pair)
    have m: m using "4.prems" p by (cases m) (auto simp: parseblock.psimps [OF "4.hyps"])
    obtain c1 t1 where l: "parseline b s1 = Inr (c1, t1)"
      using "4.prems" p m by (auto simp: parseblock.psimps [OF "4.hyps"] res_simps)
    obtain t2 m2 tok2 q2 e2 t3 where r: "peek b t1 [41] = (t2, m2)" "gettoken b t2 = (tok2, q2, e2, t3)"
      by (metis prod_cases4 surj_pair)
    have "s \<le> s0" "s0 \<le> s1" "s1 \<le> t1" "t1 \<le> t2" "t2 \<le> t3"
      using peek_forward [OF p(1)] gettoken_forward [OF p(2)] peek_forward [OF r(1)] gettoken_forward [OF r(2)]
        "4.IH" [OF p(1) [symmetric] _ p(2) [symmetric] refl refl l] m by auto
    then show ?case
      using "4.prems" p m l r parseredirs_forward [of b c1 t3 c t]
      by (auto simp: parseblock.psimps [OF "4.hyps"] split: if_splits)
  qed
  show ?thesis
  proof (relation "measure (\<lambda>x. case x of Inl (Inl (b, s)) \<Rightarrow> 4 * (length b - s) + 3
      | Inl (Inr (b, s)) \<Rightarrow> 4 * (length b - s) + 2 | Inr (Inl (b, s)) \<Rightarrow> 4 * (length b - s) + 1
      | Inr (Inr (b, s)) \<Rightarrow> 4 * (length b - s))", goal_cases)
    case 1 show ?case by simp
  next
    case 2 then show ?case by auto
  next
    case 3
    then show ?case by (auto intro: list_shorter [OF forward(2)])
  next
    case 4 then show ?case by auto
  next
    case 5 then show ?case by (auto intro: pipe_shorter [OF forward(3)])
  next
    case 6 then show ?case by (auto dest: peek_forward [OF sym])
  next
    case 7 then show ?case by (auto dest: operator_shorter)
  qed
qed

declare parseline.simps [simp del] parsepipe.simps [simp del] parseexec.simps [simp del] parseblock.simps [simp del]

text \<open>The end of every word in the line becomes a NUL.\<close>

fun nulterminate :: "pcmd \<Rightarrow> u8 list \<Rightarrow> u8 list" where
  "nulterminate (EXEC args) buf = fold (\<lambda>(q, e) buf. buf[e := 0]) args buf"
| "nulterminate (REDIR c f m d) buf = (nulterminate c buf)[snd f := 0]"
| "nulterminate (PIPE l r) buf = nulterminate r (nulterminate l buf)"
| "nulterminate (LIST l r) buf = nulterminate r (nulterminate l buf)"
| "nulterminate (BACK c) buf = nulterminate c buf"

definition parsecmd :: "u8 list \<Rightarrow> (pcmd \<times> u8 list) res" where
  "parsecmd b =
     bnd (parseline b 0) (\<lambda>(c, s).
       case peek b s [] of (s1, _) \<Rightarrow>
         if s1 \<noteq> length b then Inl (Panic ''syntax'') else Inr (c, nulterminate c (b @ [0])))"

section \<open>Words\<close>

definition wordchar :: "u8 \<Rightarrow> bool" where
  "wordchar c \<longleftrightarrow> c \<notin> set whitespace \<and> c \<notin> set symbols"

lemma not_NUL [simp]: "0 \<notin> set whitespace" "0 \<notin> set symbols"
  by (simp_all add: whitespace_def symbols_def)

lemma strchr_none_iff: "strchr whitespace c = None \<longleftrightarrow> c \<notin> set whitespace" "strchr symbols c = None \<longleftrightarrow> c \<notin> set symbols"
  using strchr_found [OF not_NUL(1), of c] strchr_found [OF not_NUL(2), of c] by auto

text \<open>A word of the line: a run of its word characters that is longest to the left and to the right.\<close>

definition word_at :: "u8 list \<Rightarrow> nat \<times> nat \<Rightarrow> bool" where
  "word_at b w \<longleftrightarrow> fst w < snd w \<and> snd w \<le> length b \<and> (\<forall>i\<in>{fst w ..< snd w}. wordchar (b ! i)) \<and>
     (fst w = 0 \<or> \<not> wordchar (b ! (fst w - 1))) \<and> (snd w = length b \<or> \<not> wordchar (b ! snd w))"

text \<open>The words that begin between two places of the line, and the places that are not inside a word.\<close>

definition words_in :: "u8 list \<Rightarrow> nat \<Rightarrow> nat \<Rightarrow> (nat \<times> nat) set" where
  "words_in b s t = {w. word_at b w \<and> s \<le> fst w \<and> fst w < t}"

definition boundary :: "u8 list \<Rightarrow> nat \<Rightarrow> bool" where
  "boundary b s \<longleftrightarrow> s = 0 \<or> length b \<le> s \<or> \<not> wordchar (b ! (s - 1)) \<or> \<not> wordchar (b ! s)"

lemma words_in_empty [simp]: "words_in b s s = {}"
  by (auto simp: words_in_def)

lemma words_in_append: "s \<le> t \<Longrightarrow> t \<le> u \<Longrightarrow> words_in b s u = words_in b s t \<union> words_in b t u"
  by (auto simp: words_in_def)

lemma no_words:
  assumes "\<forall>i\<in>{s ..< t}. i < length b \<longrightarrow> \<not> wordchar (b ! i)"
  shows "words_in b s t = {}" "boundary b s \<Longrightarrow> s \<le> t \<Longrightarrow> boundary b t"
proof -
  have "\<not> (word_at b w \<and> s \<le> fst w \<and> fst w < t)" for w
  proof
    assume w: "word_at b w \<and> s \<le> fst w \<and> fst w < t"
    then have "fst w < length b" "wordchar (b ! fst w)" by (auto simp: word_at_def)
    then show False using assms w by auto
  qed
  then show "words_in b s t = {}" by (simp add: words_in_def)
  assume "boundary b s" "s \<le> t"
  moreover have "\<not> wordchar (b ! (t - 1))" if "s < t" "t < length b"
    using assms that by (metis One_nat_def Suc_leI Suc_pred atLeastLessThan_iff diff_less diff_Suc_1 gr_implies_not0 le_less_trans
        less_Suc_eq_le less_or_eq_imp_le not_gr_zero zero_less_one less_imp_diff_less)
  ultimately show "boundary b t" unfolding boundary_def by (metis le_neq_implies_less not_le)
qed

lemma skip_word_run:
  "(\<forall>i\<in>{s ..< skip_word b s}. wordchar (b ! i)) \<and> (skip_word b s < length b \<longrightarrow> \<not> wordchar (b ! skip_word b s))"
proof (induction b s rule: skip_word.induct)
  case (1 b s)
  show ?case
  proof (cases "s < length b \<and> wordchar (b ! s)")
    case True
    then have e: "skip_word b s = skip_word b (Suc s)"
      by (intro skip_word_unfold(1)) (simp_all add: wordchar_def strchr_none_iff)
    have ih: "(\<forall>i\<in>{Suc s ..< skip_word b (Suc s)}. wordchar (b ! i)) \<and>
        (skip_word b (Suc s) < length b \<longrightarrow> \<not> wordchar (b ! skip_word b (Suc s)))"
      using 1 True unfolding strchr_none_iff wordchar_def Suc_eq_plus1 by simp
    have "wordchar (b ! i)" if "i \<in> {s ..< skip_word b (Suc s)}" for i
      using that ih True by (cases "i = s") auto
    then show ?thesis using ih unfolding e by simp
  next
    case False
    then have "skip_word b s = s" by (intro skip_word_unfold(2)) (simp add: wordchar_def strchr_none_iff)
    then show ?thesis using False by simp
  qed
qed

lemma skip_white_run: "\<forall>i\<in>{s ..< skip_white b s}. i < length b \<longrightarrow> \<not> wordchar (b ! i)"
proof (induction b s rule: skip_white.induct)
  case (1 b s)
  show ?case
  proof (cases "s < length b \<and> strchr whitespace (b ! s) \<noteq> None")
    case True
    then have e: "skip_white b s = skip_white b (Suc s)" by (intro skip_white_unfold(1)) simp_all
    have ih: "\<forall>i\<in>{Suc s ..< skip_white b (Suc s)}. i < length b \<longrightarrow> \<not> wordchar (b ! i)" using 1 True by simp
    have "\<not> wordchar (b ! s)" using True by (simp add: wordchar_def strchr_none_iff)
    then show ?thesis using ih unfolding e by (metis Suc_leI atLeastLessThan_iff le_neq_implies_less)
  next
    case False
    then have "skip_white b s = s" by (rule skip_white_unfold(2))
    then show ?thesis by simp
  qed
qed

lemma peek_words:
  assumes "peek b s toks = (s0, m)" "boundary b s"
  shows "s \<le> s0" "boundary b s0" "words_in b s s0 = {}"
  using assms no_words [OF skip_white_run [of s b]] skip_white_bounds [of s b] by (auto simp: peek_def Let_def)

text \<open>
  \<^verbatim>\<open>gettoken\<close> passes over exactly one word when it returns \<^verbatim>\<open>'a'\<close>, the one it delivers, and over none
  otherwise; it stops at a boundary again.
\<close>

lemma gettoken_word:
  assumes g: "gettoken b s = (t, q, e, s2)" and s: "boundary b s" and b: "0 \<notin> set b"
  shows "s \<le> s2" "boundary b s2" "words_in b s s2 = (if t = 97 then {(q, e)} else {})"
proof -
  have q: "q = skip_white b s" and s2: "s2 = skip_white b e" using g by (auto simp: gettoken_def Let_def split: if_splits)
  note f = gettoken_forward [OF g]
  then show "s \<le> s2" by linarith
  have w1: "words_in b s q = {}" "boundary b q" using no_words [OF skip_white_run [of s b]] s f unfolding q by auto
  have w: "boundary b e \<and> words_in b q e = (if t = 97 then {(q, e)} else {})"
  proof (cases "t = 97")
    case False
    consider "byte_at b q = 0" "e = q" | "byte_at b q \<in> {124, 40, 41, 59, 38, 60, 62}" "e = q + 1"
      | "byte_at b q = 62" "byte_at b (q + 1) = 62" "e = q + 2"
      using g False by (auto simp: gettoken_def Let_def split: if_splits)
    then have "\<forall>i\<in>{q ..< e}. i < length b \<longrightarrow> \<not> wordchar (b ! i)"
      by cases (auto simp: wordchar_def symbols_def byte_at_def less_Suc_eq split: if_splits)
    then show ?thesis using no_words [of q e b] w1 f False by simp
  next
    case True
    have c: "byte_at b q \<noteq> 0" "byte_at b q \<notin> {124, 40, 41, 59, 38, 60, 62}" "e = skip_word b q"
      using g True by (auto simp: gettoken_def Let_def split: if_splits)
    have l: "q < length b" using byte_at_pos [OF c(1)] .
    have wc: "wordchar (b ! q)"
      using skip_white_stops [of b s] q l c(2) by (auto simp: wordchar_def strchr_none_iff symbols_def byte_at_def)
    then have qe: "q < e" using skip_word_progress [OF c(1)] by (simp add: c(3) wordchar_def strchr_none_iff)
    have run: "\<forall>i\<in>{q ..< e}. wordchar (b ! i)" "e < length b \<longrightarrow> \<not> wordchar (b ! e)" "e \<le> length b"
      using skip_word_run [of q b] skip_word_bounds [of q b] l by (simp_all add: c(3))
    have wa: "word_at b (q, e)" using w1(2) wc l qe run by (auto simp: word_at_def boundary_def)
    have "w = (q, e)" if "word_at b w" "q \<le> fst w" "fst w < e" for w
    proof -
      have f: "fst w = q"
      proof (rule ccontr)
        assume "fst w \<noteq> q"
        then have "fst w - 1 \<in> {q ..< e}" "fst w \<noteq> 0" using that by auto
        then show False using run(1) that(1) by (auto simp: word_at_def)
      qed
      have "\<not> snd w < e" using that(1) run f by (auto simp: word_at_def)
      moreover have "\<not> e < snd w" using that run(2) f qe by (auto simp: word_at_def)
      ultimately show ?thesis using f by (simp add: prod_eq_iff)
    qed
    then have "words_in b q e = {(q, e)}" using wa qe unfolding words_in_def by fastforce
    then show ?thesis using run by (auto simp: boundary_def True)
  qed
  have n: "\<forall>i\<in>{e ..< s2}. i < length b \<longrightarrow> \<not> wordchar (b ! i)" unfolding s2 by (rule skip_white_run)
  show "boundary b s2" using no_words(2) [OF n] w f by simp
  show "words_in b s s2 = (if t = 97 then {(q, e)} else {})"
    using words_in_append [of s q s2 b] words_in_append [of q e s2 b] no_words(1) [OF n] w1 w f by auto
qed

text \<open>
  The words of a parsed command are exactly those that begin in the stretch of the line that was parsed.
\<close>

definition covers :: "u8 list \<Rightarrow> nat \<Rightarrow> nat \<Rightarrow> (nat \<times> nat) set \<Rightarrow> bool" where
  "covers b s t W \<longleftrightarrow> s \<le> t \<and> boundary b t \<and> W = words_in b s t"

lemma covers_refl: "boundary b s \<Longrightarrow> covers b s s {}"
  by (simp add: covers_def)

lemma covers_trans: "covers b s t V \<Longrightarrow> covers b t u W \<Longrightarrow> covers b s u (V \<union> W)"
  using words_in_append [of s t u b] by (auto simp: covers_def)

lemma covers_boundary: "covers b s t W \<Longrightarrow> boundary b t"
  by (simp add: covers_def)

lemma covers_peek: "peek b s toks = (s0, m) \<Longrightarrow> boundary b s \<Longrightarrow> covers b s s0 {}"
  using peek_words [of b s toks s0 m] by (simp add: covers_def)

lemma covers_gettoken:
  "gettoken b s = (t, q, e, s2) \<Longrightarrow> boundary b s \<Longrightarrow> 0 \<notin> set b \<Longrightarrow> covers b s s2 (if t = 97 then {(q, e)} else {})"
  using gettoken_word [of b s t q e s2] by (simp add: covers_def)

text \<open>An operator that was peeked at: the token is its symbol and no word.\<close>

lemma covers_symbol:
  assumes "peek b s toks = (s0, True)" "gettoken b s0 = (t, q, e, s1)" "boundary b s" "0 \<notin> set b" "set toks \<subseteq> set symbols" "0 \<notin> set toks"
  shows "covers b s s1 {}" "set toks \<subseteq> {60, 62} \<Longrightarrow> t \<in> {60, 62, 43}"
proof -
  have p: "skip_white b s0 = s0" "byte_at b s0 \<noteq> 0" "byte_at b s0 \<in> set toks"
    using assms(1) strchr_found [OF assms(6), of "byte_at b s0"] by (auto simp: peek_def Let_def)
  then have "byte_at b s0 \<in> {60, 124, 62, 38, 59, 40, 41}" using assms(5) by (auto simp: symbols_def)
  then have "t \<noteq> 97" using assms(2) p by (auto simp: gettoken_def Let_def split: if_splits)
  then show "covers b s s1 {}"
    using covers_trans [OF covers_peek [OF assms(1,3)] covers_gettoken [OF assms(2) _ assms(4)]]
      covers_boundary [OF covers_peek [OF assms(1,3)]] by simp
  assume "set toks \<subseteq> {60, 62}"
  then show "t \<in> {60, 62, 43}" using assms(2) p by (auto simp: gettoken_def Let_def split: if_splits)
qed

lemma symbols_in [simp]: "60 \<in> set symbols" "62 \<in> set symbols" "38 \<in> set symbols" "59 \<in> set symbols"
  "124 \<in> set symbols" "40 \<in> set symbols" "41 \<in> set symbols"
  by (simp_all add: symbols_def)

text \<open>The commands under construction: an \<^verbatim>\<open>execcmd\<close> with redirections around it.\<close>

fun execlike :: "'w cmd \<Rightarrow> bool" where
  "execlike (EXEC args) = True"
| "execlike (REDIR c f m d) = execlike c"
| "execlike c = False"

lemma add_arg_words: "execlike c \<Longrightarrow> set_cmd (add_arg c w) = insert w (set_cmd c) \<and> execlike (add_arg c w)"
  by (induction c w rule: add_arg.induct) auto

lemma redirect_words: "t \<in> {60, 62, 43} \<Longrightarrow> set_cmd (redirect t c w) = insert w (set_cmd c)"
  by (auto simp: redirect_def)

lemma redirect_execlike: "execlike c \<Longrightarrow> execlike (redirect t c w)"
  by (simp add: redirect_def)

lemma parseredirs_words:
  "parseredirs b c s = Inr (c2, s2) \<Longrightarrow> boundary b s \<Longrightarrow> 0 \<notin> set b \<Longrightarrow>
     (\<exists>W. covers b s s2 W \<and> set_cmd c2 = set_cmd c \<union> W) \<and> (execlike c \<longrightarrow> execlike c2)"
proof (induction b c s rule: parseredirs.induct)
  case (1 b c s)
  obtain s0 m tok q0 e0 s1 tok2 q e s3 where p: "peek b s [60, 62] = (s0, m)"
    "gettoken b s0 = (tok, q0, e0, s1)" "gettoken b s1 = (tok2, q, e, s3)" by (metis prod_cases4 surj_pair)
  show ?case
  proof (cases m)
    case False
    then show ?thesis using "1.prems" p covers_peek [OF p(1)] by (auto simp: parseredirs.simps [of b c s])
  next
    case True
    have t: "tok2 = 97" and r: "parseredirs b (redirect tok c (q, e)) s3 = Inr (c2, s2)"
      using "1.prems"(1) p True by (auto simp: parseredirs.simps [of b c s] split: if_splits)
    have y: "covers b s s1 {}" "tok \<in> {60, 62, 43}"
      using covers_symbol [of b s "[60, 62]" s0 tok q0 e0 s1] p True "1.prems" by simp_all
    have g: "covers b s s3 {(q, e)}"
      using covers_trans [OF y(1) covers_gettoken [OF p(3) covers_boundary [OF y(1)] "1.prems"(3)]] t by simp
    obtain W where "covers b s3 s2 W" "set_cmd c2 = set_cmd (redirect tok c (q, e)) \<union> W" "execlike (redirect tok c (q, e)) \<longrightarrow> execlike c2"
      using "1.IH" [OF p(1) [symmetric] True p(2) [symmetric] refl refl p(3) [symmetric] refl refl] t r
        covers_boundary [OF g] "1.prems"(3) by auto
    then show ?thesis using covers_trans [OF g] redirect_words [OF y(2), of c "(q, e)"] redirect_execlike [of c tok "(q, e)"]
      by (auto intro!: exI [of _ "{(q, e)} \<union> W"])
  qed
qed

lemma parseargs_words:
  "parseargs b c argc s = Inr (c2, s2) \<Longrightarrow> boundary b s \<Longrightarrow> 0 \<notin> set b \<Longrightarrow> execlike c \<Longrightarrow>
     \<exists>W. covers b s s2 W \<and> set_cmd c2 = set_cmd c \<union> W"
proof (induction b c argc s rule: parseargs.induct)
  case (1 b c argc s)
  obtain s0 m tok q e s1 where p: "peek b s [124, 41, 38, 59] = (s0, m)" "gettoken b s0 = (tok, q, e, s1)"
    by (metis prod_cases4 surj_pair)
  note k = covers_peek [OF p(1) "1.prems"(2)]
  have g: "covers b s s1 (if tok = 97 then {(q, e)} else {})"
    using covers_trans [OF k covers_gettoken [OF p(2) covers_boundary [OF k] "1.prems"(3)]] by simp
  consider "m" | "\<not> m" "tok = 0" | "\<not> m" "tok = 97" "\<not> MAXARGS \<le> argc + 1"
    using "1.prems"(1) p by (auto simp: parseargs.simps [of b c argc s] split: if_splits)
  then show ?case
  proof cases
    case 3
    obtain c3 s3 where r: "parseredirs b (add_arg c (q, e)) s1 = Inr (c3, s3)" "parseargs b c3 (argc + 1) s3 = Inr (c2, s2)"
      using "1.prems"(1) p 3 by (auto simp: parseargs.simps [of b c argc s] res_simps)
    have a: "set_cmd (add_arg c (q, e)) = insert (q, e) (set_cmd c)" "execlike (add_arg c (q, e))"
      using add_arg_words [OF "1.prems"(4), of "(q, e)"] by simp_all
    obtain V where V: "covers b s1 s3 V" "set_cmd c3 = set_cmd (add_arg c (q, e)) \<union> V" "execlike c3"
      using parseredirs_words [OF r(1) covers_boundary [OF g] "1.prems"(3)] a by auto
    obtain W where "covers b s3 s2 W" "set_cmd c2 = set_cmd c3 \<union> W"
      using "1.IH" [OF p(1) [symmetric] _ p(2) [symmetric] refl refl] 3 r covers_boundary [OF V(1)] V(3) "1.prems"(3) by force
    then show ?thesis using covers_trans [OF covers_trans [OF g V(1)]] 3 a V(2)
      by (auto intro!: exI [of _ "{(q, e)} \<union> V \<union> W"])
  qed (use "1.prems"(1) p k g in \<open>auto simp: parseargs.simps [of b c argc s]\<close>)
qed

lemma parseback_words:
  "parseback b c s = (c2, s2) \<Longrightarrow> boundary b s \<Longrightarrow> 0 \<notin> set b \<Longrightarrow> covers b s s2 {} \<and> set_cmd c2 = set_cmd c"
proof (induction b c s rule: parseback.induct)
  case (1 b c s)
  obtain s0 m tok q e s1 where p: "peek b s [38] = (s0, m)" "gettoken b s0 = (tok, q, e, s1)"
    by (metis prod_cases4 surj_pair)
  show ?case
  proof (cases m)
    case True
    then have y: "covers b s s1 {}" using covers_symbol(1) [of b s "[38]" s0 tok q e s1] p "1.prems" by simp
    have "parseback b (BACK c) s1 = (c2, s2)" using "1.prems"(1) p True by (simp add: parseback.simps [of b c s])
    then have "covers b s1 s2 {} \<and> set_cmd c2 = set_cmd (BACK c)"
      using "1.IH" [OF p(1) [symmetric] True p(2) [symmetric] refl refl] covers_boundary [OF y] "1.prems"(3) by simp
    then show ?thesis using covers_trans [OF y, of s2 "{}"] by simp
  next
    case False
    then show ?thesis using "1.prems" p covers_peek [OF p(1)] by (auto simp: parseback.simps [of b c s])
  qed
qed

lemma parse_words:
  "parseline b s = Inr (c, t) \<Longrightarrow> boundary b s \<Longrightarrow> 0 \<notin> set b \<Longrightarrow> covers b s t (set_cmd c)"
  "parsepipe b s = Inr (c, t) \<Longrightarrow> boundary b s \<Longrightarrow> 0 \<notin> set b \<Longrightarrow> covers b s t (set_cmd c)"
  "parseexec b s = Inr (c, t) \<Longrightarrow> boundary b s \<Longrightarrow> 0 \<notin> set b \<Longrightarrow> covers b s t (set_cmd c)"
  "parseblock b s = Inr (c, t) \<Longrightarrow> boundary b s \<Longrightarrow> 0 \<notin> set b \<Longrightarrow> covers b s t (set_cmd c)"
proof (induction b s and b s and b s and b s arbitrary: c t and c t and c t and c t
    rule: parseline_parsepipe_parseexec_parseblock.induct)
  case (1 b s)
  obtain c1 t1 where p: "parsepipe b s = Inr (c1, t1)" using 1 by (auto simp: parseline.simps [of b s] res_simps)
  obtain c2 t2 t3 m tok q e t4 where l: "parseback b c1 t1 = (c2, t2)" "peek b t2 [59] = (t3, m)"
    "gettoken b t3 = (tok, q, e, t4)" by (metis prod_cases4 surj_pair)
  have w1: "covers b s t1 (set_cmd c1)" using "1.IH"(1) [OF p] "1.prems" by simp
  have w2: "covers b s t2 (set_cmd c2)"
    using parseback_words [OF l(1) covers_boundary [OF w1] "1.prems"(3)] covers_trans [OF w1, of t2 "{}"] by simp
  show ?case
  proof (cases m)
    case False
    then show ?thesis using "1.prems"(1) p l covers_trans [OF w2 covers_peek [OF l(2) covers_boundary [OF w2]]]
      by (simp add: parseline.simps [of b s])
  next
    case True
    obtain r where r: "parseline b t4 = Inr (r, t)" "c = LIST c2 r"
      using "1.prems"(1) p l True by (auto simp: parseline.simps [of b s] res_simps)
    have w3: "covers b s t4 (set_cmd c2)"
      using covers_trans [OF w2 covers_symbol(1) [of b t2 "[59]" t3 tok q e t4]] l True covers_boundary [OF w2] "1.prems"(3) by simp
    then show ?thesis
      using "1.IH"(2) [OF p refl l(1) [symmetric] l(2) [symmetric] True l(3) [symmetric] refl refl r(1)]
        covers_trans [OF w3] covers_boundary [OF w3] "1.prems"(3) r(2) by simp
  qed
next
  case (2 b s)
  obtain c1 t1 where p: "parseexec b s = Inr (c1, t1)" using 2 by (auto simp: parsepipe.simps [of b s] res_simps)
  obtain t2 m tok q e t3 where l: "peek b t1 [124] = (t2, m)" "gettoken b t2 = (tok, q, e, t3)"
    by (metis prod_cases4 surj_pair)
  have w1: "covers b s t1 (set_cmd c1)" using "2.IH"(1) [OF p] "2.prems" by simp
  show ?case
  proof (cases m)
    case False
    then show ?thesis using "2.prems"(1) p l covers_trans [OF w1 covers_peek [OF l(1) covers_boundary [OF w1]]]
      by (simp add: parsepipe.simps [of b s])
  next
    case True
    obtain r where r: "parsepipe b t3 = Inr (r, t)" "c = PIPE c1 r"
      using "2.prems"(1) p l True by (auto simp: parsepipe.simps [of b s] res_simps)
    have w3: "covers b s t3 (set_cmd c1)"
      using covers_trans [OF w1 covers_symbol(1) [of b t1 "[124]" t2 tok q e t3]] l True covers_boundary [OF w1] "2.prems"(3) by simp
    then show ?thesis
      using "2.IH"(2) [OF p refl l(1) [symmetric] True l(2) [symmetric] refl refl r(1)]
        covers_trans [OF w3] covers_boundary [OF w3] "2.prems"(3) r(2) by simp
  qed
next
  case (3 b s)
  obtain s0 m where p: "peek b s [40] = (s0, m)" by fastforce
  note k = covers_peek [OF p "3.prems"(2)]
  show ?case
  proof (cases m)
    case True
    then show ?thesis
      using "3.prems" p "3.IH" [OF p [symmetric] True] covers_trans [OF k] covers_boundary [OF k]
      by (auto simp: parseexec.simps [of b s])
  next
    case False
    obtain c1 s1 where r: "parseredirs b (EXEC []) s0 = Inr (c1, s1)" "parseargs b c1 0 s1 = Inr (c, t)"
      using "3.prems"(1) p False by (auto simp: parseexec.simps [of b s] res_simps)
    obtain V where V: "covers b s0 s1 V" "set_cmd c1 = V" "execlike c1"
      using parseredirs_words [OF r(1) covers_boundary [OF k] "3.prems"(3)] by auto
    show ?thesis
      using parseargs_words [OF r(2) covers_boundary [OF V(1)] "3.prems"(3) V(3)] V(2) covers_trans [OF covers_trans [OF k V(1)]] by auto
  qed
next
  case (4 b s)
  obtain s0 m tok q e s1 where p: "peek b s [40] = (s0, m)" "gettoken b s0 = (tok, q, e, s1)"
    by (metis prod_cases4 surj_pair)
  have m: m using "4.prems" p by (cases m) (auto simp: parseblock.simps [of b s])
  obtain c1 t1 where l: "parseline b s1 = Inr (c1, t1)"
    using "4.prems" p m by (auto simp: parseblock.simps [of b s] res_simps)
  obtain t2 m2 tok2 q2 e2 t3 where r: "peek b t1 [41] = (t2, m2)" "gettoken b t2 = (tok2, q2, e2, t3)"
    by (metis prod_cases4 surj_pair)
  have m2: m2 and re: "parseredirs b c1 t3 = Inr (c, t)"
    using "4.prems"(1) p m l r by (auto simp: parseblock.simps [of b s] split: if_splits)
  have y1: "covers b s s1 {}" using covers_symbol(1) [of b s "[40]" s0 tok q e s1] p m "4.prems" by simp
  have w1: "covers b s t1 (set_cmd c1)"
    using covers_trans [OF y1] "4.IH" [OF p(1) [symmetric] _ p(2) [symmetric] refl refl l] m covers_boundary [OF y1] "4.prems"(3) by simp
  have w2: "covers b s t3 (set_cmd c1)"
    using covers_trans [OF w1 covers_symbol(1) [of b t1 "[41]" t2 tok2 q2 e2 t3]] r m2 covers_boundary [OF w1] "4.prems"(3) by simp
  show ?case using parseredirs_words [OF re covers_boundary [OF w2] "4.prems"(3)] covers_trans [OF w2] by auto
qed

text \<open>In particular all words of a command that was parsed are words of the line.\<close>

definition words_ok :: "u8 list \<Rightarrow> pcmd \<Rightarrow> bool" where
  "words_ok b c \<longleftrightarrow> (\<forall>w\<in>set_cmd c. word_at b w)"

lemma covers_words_ok: "covers b s t (set_cmd c) \<Longrightarrow> words_ok b c"
  by (auto simp: covers_def words_in_def words_ok_def)

text \<open>Writing the NULs does not touch a word: each one ends exactly there.\<close>

lemma nulterminate_length [simp]: "length (nulterminate c buf) = length buf"
proof (induction c buf rule: nulterminate.induct)
  case (1 args buf)
  have "length (fold (\<lambda>(q, e) buf. buf[e := 0]) args buf) = length buf"
    by (induction args arbitrary: buf) auto
  then show ?case by simp
qed simp_all

lemma fold_NUL_nth:
  "i < length buf \<Longrightarrow>
     fold (\<lambda>(q, e) buf. buf[e := 0]) args buf ! i = (if i \<in> snd ` set args then 0 else (buf ! i :: u8))"
  by (induction args arbitrary: buf) (force simp: nth_list_update)+

lemma nulterminate_nth:
  "i < length buf \<Longrightarrow> nulterminate c buf ! i = (if i \<in> snd ` set_cmd c then 0 else buf ! i)"
proof (induction c buf rule: nulterminate.induct)
  case (1 args buf)
  then show ?case by (simp add: fold_NUL_nth)
next
  case (2 c f m d buf)
  then show ?case by (cases "i = snd f") auto
qed (simp_all add: image_Un)

definition word :: "u8 list \<Rightarrow> nat \<times> nat \<Rightarrow> u8 list" where
  "word b w = take (snd w - fst w) (drop (fst w) b)"

lemma cstring_word:
  assumes c: "words_ok b c" and w: "w \<in> set_cmd c" and b: "0 \<notin> set b"
  shows "cstring (nulterminate c (b @ [0])) (fst w) = word b w"
proof -
  let ?n = "nulterminate c (b @ [0])"
  obtain q e where qe: "w = (q, e)" by (cases w)
  have we: "q < e" "e \<le> length b" "\<forall>i\<in>{q ..< e}. wordchar (b ! i)" using c w by (auto simp: words_ok_def word_at_def qe)
  have ends: "snd v \<notin> {q ..< e}" if v: "v \<in> set_cmd c" for v
  proof
    assume "snd v \<in> {q ..< e}"
    then have "wordchar (b ! snd v)" "snd v < length b" using we by auto
    then show False using c v by (auto simp: words_ok_def word_at_def)
  qed
  have same: "?n ! i = b ! i" if "i \<in> {q ..< e}" for i
    using that ends we by (auto simp: nulterminate_nth nth_append)
  have "drop q ?n = take (e - q) (drop q ?n) @ drop e ?n"
    using append_take_drop_id [of "e - q" "drop q ?n"] we by simp
  moreover have "take (e - q) (drop q ?n) = word b w"
    using we same by (auto simp: word_def qe intro!: nth_equalityI)
  moreover have "drop e ?n = 0 # drop (Suc e) ?n"
  proof -
    have "?n ! e = 0" using w we by (simp add: nulterminate_nth qe) (force simp: image_iff)
    then show ?thesis using we by (metis Cons_nth_drop_Suc length_append_singleton less_Suc_eq_le nulterminate_length)
  qed
  moreover have "x \<noteq> 0" if "x \<in> set (word b w)" for x
    using b that by (auto simp: word_def dest: in_set_takeD in_set_dropD)
  ultimately show ?thesis by (simp add: cstring_def qe)
qed


section \<open>Printing a command\<close>

text \<open>
  A command on words that are byte strings is printed as tokens, each followed by a space; the parts of a
  pipe, a list, a background command or a redirection are put in parentheses unless they are simple.
\<close>

fun simple :: "'w cmd \<Rightarrow> bool" where
  "simple (EXEC args) = True"
| "simple (REDIR c f m d) = True"
| "simple c = False"

definition paren :: "u8 list cmd \<Rightarrow> u8 list list \<Rightarrow> u8 list list" where
  "paren c ts = (if simple c then ts else [40] # ts @ [[41]])"

definition operator :: "nat \<Rightarrow> nat \<Rightarrow> u8 list" where
  "operator m d = (if d = 0 then [60] else if m = 0x601 then [62] else [62, 62])"

fun tokens :: "u8 list cmd \<Rightarrow> u8 list list" where
  "tokens (EXEC args) = args"
| "tokens (REDIR c f m d) = paren c (tokens c) @ [operator m d, f]"
| "tokens (PIPE l r) = paren l (tokens l) @ [124] # paren r (tokens r)"
| "tokens (LIST l r) = paren l (tokens l) @ [59] # paren r (tokens r)"
| "tokens (BACK c) = paren c (tokens c) @ [[38]]"

definition render :: "u8 list list \<Rightarrow> u8 list" where
  "render ts = concat (List.map (\<lambda>t. t @ [32]) ts)"

text \<open>The commands a line can hold: proper words, at most nine of them, and the three redirections.\<close>

definition proper :: "u8 list \<Rightarrow> bool" where
  "proper w \<longleftrightarrow> w \<noteq> [] \<and> (\<forall>c\<in>set w. wordchar c \<and> c \<noteq> 0)"

fun printable :: "u8 list cmd \<Rightarrow> bool" where
  "printable (EXEC args) \<longleftrightarrow> length args < MAXARGS \<and> (\<forall>w\<in>set args. proper w)"
| "printable (REDIR c f m d) \<longleftrightarrow> printable c \<and> proper f \<and> (m, d) \<in> {(0, 0), (0x601, 1), (0x201, 1)}"
| "printable (PIPE l r) \<longleftrightarrow> printable l \<and> printable r"
| "printable (LIST l r) \<longleftrightarrow> printable l \<and> printable r"
| "printable (BACK c) \<longleftrightarrow> printable c"

definition token :: "u8 list \<Rightarrow> bool" where
  "token t \<longleftrightarrow> proper t \<or> t \<in> {[60], [62], [62, 62], [124], [38], [59], [40], [41]}"

definition kind :: "u8 list \<Rightarrow> u8" where
  "kind t = (if proper t then 97 else if t = [62, 62] then 43 else hd t)"

lemma render_simps [simp]: "render [] = []" "render (t # ts) = t @ 32 # render ts" "render (ts @ us) = render ts @ render us"
  by (simp_all add: render_def)

text \<open>The scanner stands before the tokens \<open>ts\<close>, the rest of the line.\<close>

definition before :: "u8 list \<Rightarrow> nat \<Rightarrow> u8 list list \<Rightarrow> bool" where
  "before b s ts \<longleftrightarrow> s \<le> length b \<and> drop s b = render ts \<and> (\<forall>t\<in>set ts. token t)"

lemma symbol_hd:
  assumes "t \<in> {[60], [62], [62, 62], [124], [38], [59], [40], [41 :: u8]}"
  shows "t \<noteq> []" "hd t \<in> set symbols" "hd t \<notin> set whitespace" "hd t \<noteq> 0"
  using assms by (elim insertE; simp add: symbols_def whitespace_def)+

lemma proper_hd:
  assumes "proper t"
  shows "t \<noteq> []" "wordchar (hd t)" "hd t \<noteq> 0" "hd t \<notin> set whitespace" "hd t \<notin> set symbols"
  using assms hd_in_set [of t] by (auto simp: proper_def wordchar_def)

lemma proper_not_symbol: "proper t \<Longrightarrow> t \<notin> {[60], [62], [62, 62], [124], [38], [59], [40], [41]}"
  using proper_hd(5) symbol_hd(2) by blast

lemma token_hd: "token t \<Longrightarrow> t \<noteq> []" "token t \<Longrightarrow> hd t \<notin> set whitespace" "token t \<Longrightarrow> hd t \<noteq> 0"
  unfolding token_def using proper_hd(1,3,4) symbol_hd(1,3,4) by blast+

lemma before_start:
  assumes "before b s ts"
  shows "skip_white b s = s" "byte_at b s = (if ts = [] then 0 else hd (hd ts))" "s < length b \<longleftrightarrow> ts \<noteq> []"
proof -
  have d: "drop s b = render ts" and tok: "\<forall>t\<in>set ts. token t" and l: "s \<le> length b" using assms by (auto simp: before_def)
  have nth: "b ! s = hd (hd ts) \<and> s < length b" if ts: "ts \<noteq> []"
  proof -
    have "drop s b = hd ts @ 32 # render (tl ts)" using d ts by (cases ts) auto
    moreover have "hd ts \<noteq> []" using token_hd(1) [of "hd ts"] tok ts by simp
    ultimately have "hd (drop s b) = hd (hd ts)" "s < length b" by (auto intro: ccontr)
    then show ?thesis by (simp add: hd_drop_conv_nth)
  qed
  have "length b = s" if "ts = []" using that d l by simp
  then show "s < length b \<longleftrightarrow> ts \<noteq> []" "byte_at b s = (if ts = [] then 0 else hd (hd ts))"
    using nth by (auto simp: byte_at_def)
  show "skip_white b s = s"
  proof (rule skip_white_unfold(2), cases "ts = []")
    case False
    then have "hd (hd ts) \<notin> set whitespace" using token_hd(2) [of "hd ts"] tok by simp
    then show "\<not> (s < length b \<and> strchr whitespace (b ! s) \<noteq> None)" using nth [OF False] by (simp add: strchr_none_iff)
  qed (use \<open>ts = [] \<Longrightarrow> length b = s\<close> in simp)
qed

lemma before_step:
  assumes "before b s (t # ts)"
  shows "before b (Suc (s + length t)) ts" "skip_white b (s + length t) = Suc (s + length t)" "take (length t) (drop s b) = t"
proof -
  have d: "drop s b = t @ 32 # render ts" "s \<le> length b" "\<forall>t\<in>set (t # ts). token t" using assms by (auto simp: before_def)
  have e: "drop (s + length t) b = 32 # render ts" "drop (Suc (s + length t)) b = render ts"
    using arg_cong [OF d(1), of "drop (length t)"] arg_cong [OF d(1), of "drop (length t + 1)"]
    by (simp_all add: add.commute add.left_commute)
  then have l: "s + length t < length b" by (metis drop_all list.discI linorder_not_less)
  then show b: "before b (Suc (s + length t)) ts" using d e by (simp add: before_def)
  have "b ! (s + length t) = 32" using e(1) l by (metis hd_drop_conv_nth list.sel(1))
  then have "skip_white b (s + length t) = skip_white b (Suc (s + length t))"
    using l skip_white_unfold(1) [of "s + length t" b] by (simp add: whitespace_def)
  then show "skip_white b (s + length t) = Suc (s + length t)" using before_start(1) [OF b] by simp
  show "take (length t) (drop s b) = t" by (simp add: d)
qed


lemma skip_word_over:
  assumes "\<forall>i<n. s + i < length b \<and> wordchar (b ! (s + i))" "\<not> (s + n < length b \<and> wordchar (b ! (s + n)))"
  shows "skip_word b s = s + n"
  using assms
proof (induction n arbitrary: s)
  case 0
  then show ?case using skip_word_unfold(2) [of s b] by (simp add: strchr_none_iff wordchar_def)
next
  case (Suc n)
  have "skip_word b (Suc s) = Suc s + n" using Suc.prems by (intro Suc.IH) (fastforce, simp)
  moreover have "skip_word b s = skip_word b (Suc s)"
    using Suc.prems(1) by (intro skip_word_unfold(1)) (auto simp: strchr_none_iff wordchar_def dest: spec [of _ 0])
  ultimately show ?case by simp
qed

lemma peek_before:
  "before b s ts \<Longrightarrow> 0 \<notin> set toks \<Longrightarrow> peek b s toks = (s, ts \<noteq> [] \<and> hd (hd ts) \<in> set toks)"
  using before_start [of b s ts] token_hd(3) [of "hd ts"] strchr_found [of toks "hd (hd ts)"]
  by (auto simp: peek_def Let_def before_def)

lemma gettoken_end: "before b s [] \<Longrightarrow> gettoken b s = (0, s, s, s)"
  using before_start [of b s "[]"] by (simp add: gettoken_def)

lemma gettoken_before:
  assumes "before b s (t # ts)"
  shows "gettoken b s = (kind t, s, s + length t, Suc (s + length t))"
proof -
  note st = before_start [OF assms, simplified]
  have d: "drop s b = t @ 32 # render ts" "token t" using assms by (auto simp: before_def)
  have nth: "b ! (s + i) = (t @ [32]) ! i" "s + i < length b" if "i \<le> length t" for i
  proof -
    have "length (drop s b) = length t + 1 + length (render ts)" by (simp add: d)
    then show "s + i < length b" using that by simp
    then have "b ! (s + i) = drop s b ! i" by simp
    then show "b ! (s + i) = (t @ [32]) ! i" using that by (simp add: d nth_append)
  qed
  note white = before_step(2) [OF assms]
  show ?thesis
  proof (cases "proper t")
    case True
    have w: "skip_word b s = s + length t"
      using True nth by (intro skip_word_over) (auto simp: proper_def nth_append wordchar_def whitespace_def)
    have "hd t \<notin> {124, 40, 41, 59, 38, 60, 62}" using proper_hd(5) [OF True] by (simp add: symbols_def)
    then show ?thesis
      using st w white proper_hd(3) [OF True] True by (simp add: gettoken_def Let_def kind_def)
  next
    case False
    then consider "t = [62]" | "t = [62, 62]" | "t \<in> {[60], [124], [38], [59], [40], [41]}"
      using d(2) by (auto simp: token_def)
    then show ?thesis
    proof cases
      case 1
      then show ?thesis using st white nth [of 1] False by (simp add: gettoken_def Let_def kind_def byte_at_def)
    next
      case 2
      then show ?thesis using st white nth [of 1] False by (simp add: gettoken_def Let_def kind_def byte_at_def)
    next
      case 3
      then show ?thesis
        using st white False by (elim insertE) (simp_all add: gettoken_def Let_def kind_def)
    qed
  qed
qed


section \<open>Parsing what was printed\<close>

text \<open>A command is a core surrounded by redirections.\<close>

definition wrap :: "'w cmd \<Rightarrow> ('w \<times> nat \<times> nat) list \<Rightarrow> 'w cmd" where
  "wrap c fs = foldl (\<lambda>c (f, m, d). REDIR c f m d) c fs"

definition redir_tokens :: "(u8 list \<times> nat \<times> nat) list \<Rightarrow> u8 list list" where
  "redir_tokens fs = concat (List.map (\<lambda>(f, m, d). [operator m d, f]) fs)"

definition redir_ok :: "u8 list \<times> nat \<times> nat \<Rightarrow> bool" where
  "redir_ok r \<longleftrightarrow> proper (fst r) \<and> snd r \<in> {(0, 0), (0x601, 1), (0x201, 1)}"

lemma wrap_simps [simp]: "wrap c [] = c" "wrap c ((f, m, d) # fs) = wrap (REDIR c f m d) fs"
  "wrap c (fs @ [(f, m, d)]) = REDIR (wrap c fs) f m d"
  by (simp_all add: wrap_def)

lemma redir_tokens_simps [simp]: "redir_tokens [] = []" "redir_tokens ((f, m, d) # fs) = operator m d # f # redir_tokens fs"
  "redir_tokens (fs @ gs) = redir_tokens fs @ redir_tokens gs"
  by (simp_all add: redir_tokens_def)

lemma core_exists:
  "\<exists>base fs. c = wrap base fs \<and> (simple base \<longrightarrow> (\<exists>args. base = EXEC args)) \<and> size base \<le> size c"
proof (induction c)
  case (REDIR c f m d)
  then obtain base fs where "c = wrap base fs" "simple base \<longrightarrow> (\<exists>args. base = EXEC args)" "size base \<le> size c" by blast
  then show ?case by (intro exI [of _ base] exI [of _ "fs @ [(f, m, d)]"]) simp
qed (intro exI [of _ "EXEC _"] exI [of _ "PIPE _ _"] exI [of _ "LIST _ _"] exI [of _ "BACK _"] exI [of _ "[]"]; force)+

lemma simple_wrap: "simple (wrap c fs) \<longleftrightarrow> simple c \<or> fs \<noteq> []"
  by (induction fs rule: rev_induct) (auto simp: split: prod.splits)

lemma tokens_wrap: "paren (wrap c fs) (tokens (wrap c fs)) = paren c (tokens c) @ redir_tokens fs"
proof (induction fs rule: rev_induct)
  case (snoc r fs)
  then show ?case by (cases r) (simp add: paren_def)
qed simp

lemma printable_wrap: "printable (wrap c fs) \<longleftrightarrow> printable c \<and> (\<forall>r\<in>set fs. redir_ok r)"
proof (induction fs rule: rev_induct)
  case (snoc r fs)
  then show ?case by (cases r) (auto simp: redir_ok_def)
qed simp

definition reads :: "u8 list \<Rightarrow> (pcmd \<times> nat) res \<Rightarrow> u8 list cmd \<Rightarrow> u8 list list \<Rightarrow> bool" where
  "reads b r c ts \<longleftrightarrow> (\<exists>c2 s2. r = Inr (c2, s2) \<and> map_cmd (word b) c2 = c \<and> before b s2 ts)"

lemma word_token: "before b s (t # ts) \<Longrightarrow> word b (s, s + length t) = t"
  using before_step(3) [of b s t ts] by (simp add: word_def)

lemma redir_step:
  assumes "redir_ok (f, m, d)"
  shows "hd (operator m d) \<in> {60, 62}" "kind f = 97"
    "map_cmd g (redirect (kind (operator m d)) c w) = REDIR (map_cmd g c) (g w) m d"
  using assms proper_not_symbol [of "[60]"] proper_not_symbol [of "[62]"] proper_not_symbol [of "[62, 62]"]
  by (auto simp: redir_ok_def operator_def kind_def redirect_def)

lemma redirs_read:
  assumes "before b s (redir_tokens fs @ rest)" "\<forall>r\<in>set fs. redir_ok r" "rest = [] \<or> hd (hd rest) \<notin> {60, 62}"
  shows "reads b (parseredirs b c s) (wrap (map_cmd (word b) c) fs) rest"
  using assms
proof (induction fs arbitrary: c s)
  case Nil
  then show ?case by (subst parseredirs.simps) (auto simp: peek_before reads_def)
next
  case (Cons r fs)
  obtain f m d where r: "r = (f, m, d)" by (cases r)
  have ok: "redir_ok (f, m, d)" using Cons.prems(2) by (simp add: r)
  let ?o = "operator m d" and ?ts = "redir_tokens fs @ rest"
  have b1: "before b s (?o # f # ?ts)" using Cons.prems(1) by (simp add: r)
  note b2 = before_step(1) [OF b1]
  note b3 = before_step(1) [OF b2]
  let ?s1 = "Suc (s + length ?o)"
  have "parseredirs b c s = parseredirs b (redirect (kind ?o) c (?s1, ?s1 + length f)) (Suc (?s1 + length f))"
    using redir_step [OF ok] peek_before [OF b1, of "[60, 62]"]
    by (subst parseredirs.simps) (simp add: gettoken_before [OF b1] gettoken_before [OF b2])
  moreover have "map_cmd (word b) (redirect (kind ?o) c (?s1, ?s1 + length f)) = REDIR (map_cmd (word b) c) f m d"
    using word_token [OF b2] by (simp add: redir_step(3) [OF ok])
  ultimately show ?case
    using Cons.IH [OF b3 _ Cons.prems(3), of "redirect (kind ?o) c (?s1, ?s1 + length f)"] Cons.prems(2) by (simp add: r)
qed


definition stops :: "u8 list list \<Rightarrow> bool" where
  "stops ts \<longleftrightarrow> ts = [] \<or> hd ts \<in> {[124], [41], [38], [59]}"

lemma stops_hd: "stops ts \<Longrightarrow> ts \<noteq> [] \<Longrightarrow> hd (hd ts) \<in> {124, 41, 38, 59}"
  by (auto simp: stops_def)

lemma map_add_arg: "map_cmd g (add_arg c a) = add_arg (map_cmd g c) (g a)"
  by (induction c a rule: add_arg.induct) auto

lemma args_wrap: "foldl add_arg (wrap (EXEC as) fs) args = wrap (EXEC (as @ args)) fs"
proof (induction args arbitrary: as)
  case (Cons a args)
  have "add_arg (wrap (EXEC as) fs) a = wrap (EXEC (as @ [a])) fs"
    by (induction fs rule: rev_induct) auto
  then show ?case using Cons.IH [of "as @ [a]"] by simp
qed simp

lemma args_read:
  assumes "before b s (args @ (if args = [] then [] else redir_tokens fs) @ rest)" "\<forall>w\<in>set args. proper w"
    "\<forall>r\<in>set fs. redir_ok r" "stops rest" "argc + length args < MAXARGS"
  shows "reads b (parseargs b c argc s)
    (if args = [] then map_cmd (word b) c else wrap (foldl add_arg (map_cmd (word b) c) args) fs) rest"
  using assms
proof (induction args arbitrary: c s argc)
  case Nil
  have b: "before b s rest" using Nil.prems(1) by simp
  show ?case
  proof (cases "rest = []")
    case True
    then show ?thesis
      using b peek_before [OF b, of "[124, 41, 38, 59]"] gettoken_end [of b s]
      by (subst parseargs.simps) (simp add: reads_def)
  next
    case False
    then show ?thesis
      using b peek_before [OF b, of "[124, 41, 38, 59]"] stops_hd [OF Nil.prems(4) False]
      by (subst parseargs.simps) (simp add: reads_def)
  qed
next
  case (Cons a args)
  let ?rest = "args @ redir_tokens fs @ rest"
  have b1: "before b s (a # ?rest)" using Cons.prems(1) by simp
  note b2 = before_step(1) [OF b1]
  have a: "proper a" using Cons.prems(2) by simp
  have na: "hd a \<notin> {124, 41, 38, 59}" and k: "kind a = 97"
    using proper_hd(5) [OF a] a by (auto simp: symbols_def kind_def)
  let ?c = "add_arg c (s, s + length a)"
  have mc: "map_cmd (word b) ?c = add_arg (map_cmd (word b) c) a"
    using word_token [OF b1] by (simp add: map_add_arg)
  let ?fs = "if args = [] then fs else []"
  let ?rs = "args @ (if args = [] then [] else redir_tokens fs) @ rest"
  have r: "reads b (parseredirs b ?c (Suc (s + length a))) (wrap (map_cmd (word b) ?c) ?fs) ?rs"
  proof (rule redirs_read)
    show "before b (Suc (s + length a)) (redir_tokens ?fs @ ?rs)" using b2 by (cases "args = []") simp_all
    show "\<forall>r\<in>set ?fs. redir_ok r" using Cons.prems(3) by simp
    show "?rs = [] \<or> hd (hd ?rs) \<notin> {60, 62}"
      using stops_hd [OF Cons.prems(4)] Cons.prems(2) proper_hd(5) [of "hd args"]
      by (cases args) (auto simp: symbols_def)
  qed
  then obtain c2 s2 where c2: "parseredirs b ?c (Suc (s + length a)) = Inr (c2, s2)"
    "map_cmd (word b) c2 = wrap (map_cmd (word b) ?c) ?fs" "before b s2 ?rs" by (auto simp: reads_def)
  have "reads b (parseargs b c2 (argc + 1) s2)
    (if args = [] then map_cmd (word b) c2 else wrap (foldl add_arg (map_cmd (word b) c2) args) fs) rest"
    by (rule Cons.IH [OF c2(3)]) (use Cons.prems in auto)
  moreover have "parseargs b c argc s = parseargs b c2 (argc + 1) s2"
    using peek_before [OF b1, of "[124, 41, 38, 59]"] na k c2(1) Cons.prems(5)
    by (subst parseargs.simps) (simp add: gettoken_before [OF b1])
  ultimately show ?case by (auto simp: c2(2) mc split: if_splits)
qed


lemma exec_read:
  assumes b: "before b s (args @ redir_tokens fs @ rest)" and ok: "\<forall>w\<in>set args. proper w" "\<forall>r\<in>set fs. redir_ok r"
    and st: "stops rest" and n: "length args < MAXARGS"
  shows "reads b (parseexec b s) (wrap (EXEC args) fs) rest"
proof -
  have fs: "fs \<noteq> [] \<Longrightarrow> hd (hd (redir_tokens fs @ rest)) \<in> {60, 62}"
    using ok(2) redir_step(1) by (cases fs) fastforce+
  have "hd (hd (args @ redir_tokens fs @ rest)) \<noteq> 40" if "args @ redir_tokens fs @ rest \<noteq> []"
  proof (cases args)
    case (Cons a as)
    then show ?thesis using ok(1) proper_hd(5) [of a] by (auto simp: symbols_def)
  next
    case Nil
    then show ?thesis using that fs stops_hd [OF st] by (cases "fs = []") auto
  qed
  then have p: "peek b s [40] = (s, False)" using peek_before [OF b, of "[40]"] by auto
  let ?fs = "if args = [] then fs else []"
  let ?rs = "args @ (if args = [] then [] else redir_tokens fs) @ rest"
  have "reads b (parseredirs b (EXEC []) s) (wrap (map_cmd (word b) (EXEC [])) ?fs) ?rs"
  proof (rule redirs_read)
    show "before b s (redir_tokens ?fs @ ?rs)" using b by (cases "args = []") simp_all
    show "\<forall>r\<in>set ?fs. redir_ok r" using ok(2) by simp
    show "?rs = [] \<or> hd (hd ?rs) \<notin> {60, 62}"
      using stops_hd [OF st] ok(1) proper_hd(5) [of "hd args"] by (cases args) (auto simp: symbols_def)
  qed
  then obtain c2 s2 where c2: "parseredirs b (EXEC []) s = Inr (c2, s2)" "map_cmd (word b) c2 = wrap (EXEC []) ?fs"
    "before b s2 ?rs" by (auto simp: reads_def)
  have "reads b (parseargs b c2 0 s2)
    (if args = [] then map_cmd (word b) c2 else wrap (foldl add_arg (map_cmd (word b) c2) args) fs) rest"
    by (rule args_read [OF c2(3) ok st]) (use n in simp)
  moreover have "parseexec b s = parseargs b c2 0 s2" by (simp add: parseexec.simps [of b s] p c2(1))
  ultimately show ?thesis using args_wrap [of "[]" "[]" args] by (auto simp: c2(2) split: if_splits)
qed

text \<open>After a part of a line, the callers in the grammar look for their operators.\<close>

lemma pipe_read:
  assumes "reads b (parseexec b s) c rest" "rest = [] \<or> hd (hd rest) \<noteq> 124"
  shows "reads b (parsepipe b s) c rest"
  using assms by (auto simp: reads_def parsepipe.simps [of b s] peek_before)

lemma line_read:
  assumes "reads b (parsepipe b s) c rest" "rest = [] \<or> hd (hd rest) \<notin> {38, 59}"
  shows "reads b (parseline b s) c rest"
proof -
  obtain c2 s2 where c2: "parsepipe b s = Inr (c2, s2)" "map_cmd (word b) c2 = c" "before b s2 rest"
    using assms(1) by (auto simp: reads_def)
  have "parseback b c2 s2 = (c2, s2)"
    using peek_before [OF c2(3), of "[38]"] assms(2) by (subst parseback.simps) auto
  then show ?thesis
    using c2 peek_before [OF c2(3), of "[59]"] assms(2) by (auto simp: reads_def parseline.simps [of b s])
qed

lemma block_read:
  assumes line: "\<And>s rest. before b s (tokens c @ rest) \<Longrightarrow> rest = [] \<or> hd rest = [41] \<Longrightarrow> reads b (parseline b s) c rest"
    and b: "before b s ([40] # tokens c @ [41] # redir_tokens fs @ rest)" and ok: "\<forall>r\<in>set fs. redir_ok r" and st: "stops rest"
  shows "reads b (parseexec b s) (wrap c fs) rest"
proof -
  note b1 = before_step(1) [OF b]
  have k: "kind [40] = 40" "kind [41] = 41"
    using proper_not_symbol [of "[40]"] proper_not_symbol [of "[41]"] by (auto simp: kind_def)
  obtain c1 t1 where c1: "parseline b (s + 2) = Inr (c1, t1)" "map_cmd (word b) c1 = c"
      "before b t1 ([41] # redir_tokens fs @ rest)"
    using line [of "s + 2" "[41] # redir_tokens fs @ rest"] b1 by (auto simp: reads_def)
  note b2 = before_step(1) [OF c1(3)]
  have "parseexec b s = parseredirs b c1 (t1 + 2)"
    using peek_before [OF b, of "[40]"] peek_before [OF c1(3), of "[41]"] c1(1)
    by (simp add: parseexec.simps [of b s] parseblock.simps [of b s] gettoken_before [OF b] gettoken_before [OF c1(3)])
  moreover have "reads b (parseredirs b c1 (t1 + 2)) (wrap (map_cmd (word b) c1) fs) rest"
    using b2 ok stops_hd [OF st] by (intro redirs_read) auto
  ultimately show ?thesis by (simp add: c1(2))
qed

lemma size_wrap: "fs \<noteq> [] \<Longrightarrow> size c < size (wrap c fs)"
proof (induction fs rule: rev_induct)
  case (snoc r fs)
  then show ?case by (cases "fs = []"; cases r) auto
qed simp

text \<open>The whole command, by induction on its size.\<close>

lemma operator_step:
  assumes "before b s ([x] # ts)" "x \<in> {124, 59, 38}"
  shows "before b (s + 2) ts" "peek b s toks = (s, x \<in> set toks) \<or> 0 \<in> set toks" "gettoken b s = (x, s, s + 1, s + 2)"
proof -
  have "kind [x] = x" using assms(2) proper_not_symbol [of "[x]"] by (auto simp: kind_def)
  then show "before b (s + 2) ts" "gettoken b s = (x, s, s + 1, s + 2)"
    using before_step(1) [OF assms(1)] gettoken_before [OF assms(1)] by simp_all
  show "peek b s toks = (s, x \<in> set toks) \<or> 0 \<in> set toks" using peek_before [OF assms(1), of toks] by auto
qed

definition atom_reads :: "u8 list \<Rightarrow> u8 list cmd \<Rightarrow> bool" where
  "atom_reads b c \<longleftrightarrow> (\<forall>s rest. before b s (paren c (tokens c) @ rest) \<longrightarrow> stops rest \<longrightarrow> reads b (parseexec b s) c rest)"

definition line_reads :: "u8 list \<Rightarrow> u8 list cmd \<Rightarrow> bool" where
  "line_reads b c \<longleftrightarrow> (\<forall>s rest. before b s (tokens c @ rest) \<longrightarrow> rest = [] \<or> hd rest = [41] \<longrightarrow> reads b (parseline b s) c rest)"

lemma simple_line: "simple c \<Longrightarrow> atom_reads b c \<Longrightarrow> line_reads b c"
  by (force simp: atom_reads_def line_reads_def paren_def stops_def intro: line_read pipe_read)

lemma pipe_line:
  assumes "atom_reads b l" "atom_reads b r"
  shows "line_reads b (PIPE l r)"
  unfolding line_reads_def
proof (intro allI impI)
  fix s rest
  assume b: "before b s (tokens (PIPE l r) @ rest)" and rest: "rest = [] \<or> hd rest = [41]"
  have "reads b (parseexec b s) l ([124] # paren r (tokens r) @ rest)"
    using assms(1) b by (auto simp: atom_reads_def stops_def)
  then obtain c1 t1 where c1: "parseexec b s = Inr (c1, t1)" "map_cmd (word b) c1 = l" "before b t1 ([124] # paren r (tokens r) @ rest)"
    by (auto simp: reads_def)
  note op = operator_step [OF c1(3)]
  have "reads b (parseexec b (t1 + 2)) r rest"
    using assms(2) op(1) rest by (auto simp: atom_reads_def stops_def)
  then have "reads b (parsepipe b (t1 + 2)) r rest" by (rule pipe_read) (use rest in auto)
  then have "reads b (parsepipe b s) (PIPE l r) rest"
    using c1 op(2) [of "[124]"] op(3) by (auto simp: reads_def parsepipe.simps [of b s])
  then show "reads b (parseline b s) (PIPE l r) rest" by (rule line_read) (use rest in auto)
qed

lemma list_line:
  assumes "atom_reads b l" "atom_reads b r"
  shows "line_reads b (LIST l r)"
  unfolding line_reads_def
proof (intro allI impI)
  fix s rest
  assume b: "before b s (tokens (LIST l r) @ rest)" and rest: "rest = [] \<or> hd rest = [41]"
  have "reads b (parseexec b s) l ([59] # paren r (tokens r) @ rest)"
    using assms(1) b by (auto simp: atom_reads_def stops_def)
  then have "reads b (parsepipe b s) l ([59] # paren r (tokens r) @ rest)" by (rule pipe_read) simp
  then obtain c1 t1 where c1: "parsepipe b s = Inr (c1, t1)" "map_cmd (word b) c1 = l" "before b t1 ([59] # paren r (tokens r) @ rest)"
    by (auto simp: reads_def)
  note op = operator_step [OF c1(3)]
  have "parseback b c1 t1 = (c1, t1)" using op(2) [of "[38]"] by (subst parseback.simps) simp
  moreover have "reads b (parseexec b (t1 + 2)) r rest"
    using assms(2) op(1) rest by (auto simp: atom_reads_def stops_def)
  then have "reads b (parseline b (t1 + 2)) r rest" by (intro line_read pipe_read) (use rest in auto)
  ultimately show "reads b (parseline b s) (LIST l r) rest"
    using c1 op(2) [of "[59]"] op(3) by (auto simp: reads_def parseline.simps [of b s])
qed

lemma back_line:
  assumes "atom_reads b c"
  shows "line_reads b (BACK c)"
  unfolding line_reads_def
proof (intro allI impI)
  fix s rest
  assume b: "before b s (tokens (BACK c) @ rest)" and rest: "rest = [] \<or> hd rest = [41]"
  have "reads b (parseexec b s) c ([38] # rest)" using assms b by (auto simp: atom_reads_def stops_def)
  then have "reads b (parsepipe b s) c ([38] # rest)" by (rule pipe_read) simp
  then obtain c1 t1 where c1: "parsepipe b s = Inr (c1, t1)" "map_cmd (word b) c1 = c" "before b t1 ([38] # rest)"
    by (auto simp: reads_def)
  note op = operator_step [OF c1(3)]
  have "peek b (t1 + 2) [38] = (t1 + 2, False)" "peek b (t1 + 2) [59] = (t1 + 2, False)"
    using op(1) rest peek_before [of b "t1 + 2" rest] by auto
  then have "parseback b c1 t1 = (BACK c1, t1 + 2)"
    using op(2) [of "[38]"] op(3) by (subst parseback.simps, simp, subst parseback.simps) simp
  then show "reads b (parseline b s) (BACK c) rest"
    using c1 op(1) \<open>peek b (t1 + 2) [59] = (t1 + 2, False)\<close> by (auto simp: reads_def parseline.simps [of b s])
qed

lemma command_reads: "printable c \<Longrightarrow> atom_reads b c \<and> line_reads b c"
proof (induction "size c" arbitrary: c rule: less_induct)
  case less
  obtain base fs where c: "c = wrap base fs" "simple base \<longrightarrow> (\<exists>args. base = EXEC args)" using core_exists by blast
  have ok: "printable base" "\<forall>r\<in>set fs. redir_ok r" using less.prems by (auto simp: c(1) printable_wrap)
  have core: "atom_reads b c" if "\<not> simple base" "line_reads b base"
  proof -
    have "paren c (tokens c) = paren base (tokens base) @ redir_tokens fs" by (simp add: c(1) tokens_wrap)
    then have t: "paren c (tokens c) = [40] # tokens base @ [41] # redir_tokens fs" using that(1) by (simp add: paren_def)
    have line: "\<And>s rest. before b s (tokens base @ rest) \<Longrightarrow> rest = [] \<or> hd rest = [41] \<Longrightarrow> reads b (parseline b s) base rest"
      using that(2) unfolding line_reads_def by blast
    have "reads b (parseexec b s) c rest" if b: "before b s (paren c (tokens c) @ rest)" "stops rest" for s rest
      unfolding c(1)
      by (rule block_read [OF line _ ok(2) b(2)]) (use b(1) in \<open>simp_all add: t\<close>)
    then show ?thesis by (simp add: atom_reads_def)
  qed
  show ?case
  proof (cases "simple c")
    case True
    have "atom_reads b c"
    proof (cases "simple base")
      case True
      then obtain args where "base = EXEC args" using c(2) by blast
      then have "paren c (tokens c) = args @ redir_tokens fs" by (simp add: c(1) tokens_wrap) (simp add: paren_def)
      then show ?thesis using exec_read [of b _ args fs] ok \<open>base = EXEC args\<close> by (auto simp: atom_reads_def c(1))
    next
      case False
      then have "fs \<noteq> []" using True by (simp add: c(1) simple_wrap)
      then have "line_reads b base" using less.hyps [of base] size_wrap [of fs base] ok(1) by (simp add: c(1))
      then show ?thesis using core False by simp
    qed
    then show ?thesis using simple_line True by blast
  next
    case False
    then have base: "base = c" by (auto simp: c(1) simple_wrap)
    have "line_reads b c"
    proof (cases c)
      case (PIPE l r)
      then show ?thesis using less pipe_line by simp
    next
      case (LIST l r)
      then show ?thesis using less list_line by simp
    next
      case (BACK d)
      then show ?thesis using less back_line by simp
    qed (use False in simp_all)
    then show ?thesis using core False base by simp
  qed
qed

lemma tokens_ok: "printable c \<Longrightarrow> t \<in> set (tokens c) \<Longrightarrow> token t"
proof (induction c arbitrary: t)
  case (EXEC args)
  then show ?case by (simp add: token_def)
next
  case (REDIR c f m d)
  then have "t \<in> set (tokens c) \<or> t \<in> {[40], [41], operator m d, f}" by (auto simp: paren_def split: if_splits)
  then show ?case using REDIR by (auto simp: token_def operator_def)
next
  case (PIPE l r)
  then have "t \<in> set (tokens l) \<or> t \<in> set (tokens r) \<or> t \<in> {[40], [41], [124]}" by (auto simp: paren_def split: if_splits)
  then show ?case using PIPE by (auto simp: token_def)
next
  case (LIST l r)
  then have "t \<in> set (tokens l) \<or> t \<in> set (tokens r) \<or> t \<in> {[40], [41], [59]}" by (auto simp: paren_def split: if_splits)
  then show ?case using LIST by (auto simp: token_def)
next
  case (BACK c)
  then have "t \<in> set (tokens c) \<or> t \<in> {[40], [41], [38]}" by (auto simp: paren_def split: if_splits)
  then show ?case using BACK by (auto simp: token_def)
qed

lemma render_no_NUL: "\<forall>t\<in>set ts. token t \<Longrightarrow> 0 \<notin> set (render ts)"
proof (induction ts)
  case (Cons t ts)
  have "0 \<notin> set t" if "t \<in> {[60], [62], [62, 62], [124], [38], [59], [40], [41]}"
    using that by (elim insertE) simp_all
  then have "0 \<notin> set t" using Cons.prems unfolding token_def proper_def by auto
  then show ?case using Cons by simp
qed simp

lemma boundary_0 [simp]: "boundary b 0"
  by (simp add: boundary_def)

lemma parsecmd_words:
  assumes "parsecmd b = Inr (c, buf)" "0 \<notin> set b"
  shows "set_cmd c = {w. word_at b w}" "buf = nulterminate c (b @ [0])"
proof -
  obtain c1 s where p: "parseline b 0 = Inr (c1, s)" using assms by (auto simp: parsecmd_def res_simps)
  obtain s1 m where k: "peek b s [] = (s1, m)" by fastforce
  have e: "c1 = c" "buf = nulterminate c (b @ [0])" "s1 = length b"
    using assms(1) p k by (auto simp: parsecmd_def split: if_splits)
  have w: "covers b 0 s (set_cmd c)" using parse_words(1) [OF p] assms(2) e(1) by simp
  have "covers b 0 (length b) (set_cmd c)"
    using covers_trans [OF w covers_peek [OF k covers_boundary [OF w]]] e(3) by simp
  then show "set_cmd c = {w. word_at b w}" by (auto simp: covers_def words_in_def word_at_def)
  show "buf = nulterminate c (b @ [0])" by (rule e(2))
qed

text \<open>
  C31: When the parser accepts a line, the words of the command (arguments and file names) are exactly the
  words of the line, that is its runs of word characters (neither whitespace nor a symbol of the shell) that are
  longest to the left and to the right: none is lost, cut short or merged. The NUL-terminated buffer holds each
  word as a string at the place where it begins in the line.
\<close>
theorem parsecmd_cuts_words:
  assumes "parsecmd b = Inr (c, buf)" "0 \<notin> set b"
  shows "set_cmd c = {w. word_at b w} \<and> (\<forall>w\<in>set_cmd c. cstring buf (fst w) = word b w)"
  using parsecmd_words [OF assms] cstring_word [OF _ _ assms(2)] by (simp add: words_ok_def)

text \<open>
  C18. Every command can be written down: the parser reads a printed command back, with the same words in the
  NUL-terminated buffer.
\<close>
theorem parsecmd_inverts_print:
  assumes "printable c"
  shows "\<exists>p buf. parsecmd (render (tokens c)) = Inr (p, buf) \<and> map_cmd (\<lambda>w. cstring buf (fst w)) p = c"
proof -
  let ?b = "render (tokens c)"
  have tok: "\<forall>t\<in>set (tokens c). token t" using tokens_ok [OF assms] by blast
  then have "before ?b 0 (tokens c @ [])" by (simp add: before_def)
  then obtain p s where p: "parseline ?b 0 = Inr (p, s)" "map_cmd (word ?b) p = c" "before ?b s []"
    using command_reads [OF assms, of ?b] unfolding line_reads_def reads_def by blast
  have "s = length ?b" using p(3) by (auto simp: before_def)
  then have parse: "parsecmd ?b = Inr (p, nulterminate p (?b @ [0]))"
    using p(1) peek_before [OF p(3), of "[]"] by (simp add: parsecmd_def)
  have "map_cmd (\<lambda>w. cstring (nulterminate p (?b @ [0])) (fst w)) p = map_cmd (word ?b) p"
    using cstring_word [OF covers_words_ok [OF parse_words(1) [OF p(1) _ render_no_NUL [OF tok]]] _ render_no_NUL [OF tok]] by (intro cmd.map_cong refl) simp
  then show ?thesis using p(2) by (intro exI conjI) (rule parse, simp)
qed

lemma parsecmd_cuts_words_witness:
  "parsecmd [97, 62, 98, 99] = Inr (REDIR (EXEC [(0, 1)]) (2, 4) 0x601 1, [97, 0, 98, 99, 0]) \<and>
     {w. word_at [97, 62, 98, 99] w} = {(0, 1), (2, 4)} \<and> cstring [97, 0, 98, 99, 0] 2 = [98, 99]"
proof -
  have p: "parsecmd [97, 62, 98, 99] = Inr (REDIR (EXEC [(0, 1)]) (2, 4) 0x601 1, [97, 0, 98, 99, 0])" by code_simp
  have s: "set_cmd (REDIR (EXEC [(0, 1)]) (2, 4) 0x601 1 :: pcmd) = {(0, 1), (2, 4)}" by auto
  have n: "0 \<notin> set [97, 62, 98, 99 :: u8]" by simp
  note w = parsecmd_cuts_words [OF p n, unfolded s]
  then have "cstring [97, 0, 98, 99, 0] (fst (2 :: nat, 4 :: nat)) = word [97, 62, 98, 99] (2, 4)" by blast
  then show ?thesis using p conjunct1 [OF w] by (auto simp: word_def)
qed

lemma parsecmd_inverts_print_witness:
  "let c = PIPE (EXEC [[97]]) (BACK (REDIR (EXEC [[98], [99]]) [100] 0 0))
   in \<exists>p buf. parsecmd (render (tokens c)) = Inr (p, buf) \<and> map_cmd (\<lambda>w. cstring buf (fst w)) p = c"
  unfolding Let_def
  by (rule parsecmd_inverts_print) (simp add: MAXARGS_def proper_def wordchar_def whitespace_def symbols_def)

end
