(* ===== verification/Virtio.thy ===== *)
theory Virtio
  imports Ring Bio "HOL-Library.Multiset"
begin

unbundle bit_operations_syntax

text \<open>
  \<^verbatim>\<open>kernel/virtio_disk.c\<close>: the driver of the virtio disk. Requests are chains of three descriptors; their
  heads go to the device through the \<^verbatim>\<open>avail\<close> ring and come back through the \<^verbatim>\<open>used\<close> ring. The device is not part
  of the program: it is a parameter, of which the virtio specification is assumed, error answers included. The
  driver is shown to refine the atomic transfer \<open>disk_rw\<close> of the block cache, to panic only on an error that the
  device reports, and not to lose a wakeup.
\<close>

section \<open>Descriptors and rings\<close>

abbreviation (input) NUM :: nat where "NUM \<equiv> 8"

text \<open>The addresses in descriptors: a command header, the data of a buffer, a status byte.\<close>

datatype dma = DNull | DOp nat | DData nat | DStatus nat

record vdesc =
  daddr :: dma
  dlen :: u32
  dflags :: u16
  dnext :: u16

record vreq =
  rtype :: u32
  rreserved :: u32
  rsector :: u64

record vinfo =
  ibuf :: "nat option"
  istatus :: u8

text \<open>
  Where a process is in \<^verbatim>\<open>virtio_disk_rw(b, write)\<close>: about to try for descriptors (again), asleep on
  \<^verbatim>\<open>disk.free\<close>, asleep on \<open>b\<close> with the vchain that begins at \<open>h\<close>, or vwoken from that sleep.
\<close>

datatype vpc = Outside | Trying nat bool | SleepFree nat bool | SleepBuf nat nat bool | Woken nat nat bool

text \<open>
  The block cache with \<^verbatim>\<open>struct disk\<close>, the flags \<^verbatim>\<open>b->disk\<close> of the buffers, the processes, and the part of
  the device that is not shared: how far it has read the \<^verbatim>\<open>avail\<close> ring, and the requests it is working on.
\<close>

record vst = bst +
  vdesc :: "nat \<Rightarrow> vdesc"
  avail_ring :: "u16 list"
  avail_idx :: u16
  used_ring :: "u32 list"
  used_idx_dev :: u16
  vfree :: "nat \<Rightarrow> bool"
  used_idx :: u16
  vinfo :: "nat \<Rightarrow> vinfo"
  vops :: "nat \<Rightarrow> vreq"
  ondisk :: "nat \<Rightarrow> bool"
  vpcs :: "nat \<Rightarrow> vpc"
  dev_idx :: u16
  dev_busy :: "nat list"

section \<open>The driver\<close>

definition wakeup_free :: "vst \<Rightarrow> vst" where
  "wakeup_free s = s\<lparr>vpcs := (\<lambda>p. case vpcs s p of SleepFree b w \<Rightarrow> Trying b w | x \<Rightarrow> x)\<rparr>"

definition wakeup_buf :: "nat \<Rightarrow> vst \<Rightarrow> vst" where
  "wakeup_buf b s = s\<lparr>vpcs := (\<lambda>p. case vpcs s p of SleepBuf h b' w \<Rightarrow> if b' = b then Woken h b' w else SleepBuf h b' w | x \<Rightarrow> x)\<rparr>"

function alloc_desc_from :: "nat \<Rightarrow> vst \<Rightarrow> nat option \<times> vst" where
  "alloc_desc_from i s =
     (if i < NUM then
        if vfree s i then (Some i, s\<lparr>vfree := (vfree s)(i := False)\<rparr>) else alloc_desc_from (i + 1) s
      else (None, s))"
  by pat_completeness auto
termination by (relation "measure (\<lambda>(i, s). NUM - i)") auto

definition alloc_desc :: "vst \<Rightarrow> nat option \<times> vst" where
  "alloc_desc s = alloc_desc_from 0 s"

definition no_desc :: vdesc where
  "no_desc = \<lparr>daddr = DNull, dlen = 0, dflags = 0, dnext = 0\<rparr>"

definition free_desc :: "nat \<Rightarrow> vst \<Rightarrow> vst res" where
  "free_desc i s =
     (if i \<ge> NUM then Inl (Panic ''free_desc 1'')
      else if vfree s i then Inl (Panic ''free_desc 2'')
      else Inr (wakeup_free (s\<lparr>vdesc := (vdesc s)(i := no_desc), vfree := (vfree s)(i := True)\<rparr>)))"

definition VRING_DESC_F_NEXT :: u16 where "VRING_DESC_F_NEXT = 1"
definition VRING_DESC_F_WRITE :: u16 where "VRING_DESC_F_WRITE = 2"

definition descs_used :: "vst \<Rightarrow> nat set" where
  "descs_used s = {i. i < NUM \<and> \<not> vfree s i}"

lemma finite_descs_used [simp]: "finite (descs_used s)"
  by (simp add: descs_used_def)

lemma free_desc_used:
  assumes "free_desc i s = Inr t"
  shows "descs_used t = descs_used s - {i}" "i \<in> descs_used s"
  using assms by (auto simp: free_desc_def descs_used_def wakeup_free_def split: if_splits)

function free_chain :: "nat \<Rightarrow> vst \<Rightarrow> vst res" where
  "free_chain i s =
     (if i \<ge> NUM then Inl OutOfBounds
      else
        let flag = dflags (vdesc s i);
            nxt = unat (dnext (vdesc s i))
        in bnd (free_desc i s) (\<lambda>t. if flag AND VRING_DESC_F_NEXT \<noteq> 0 then free_chain nxt t else Inr t))"
  by pat_completeness auto
termination
proof (relation "measure (\<lambda>(i, s). card (descs_used s))", goal_cases)
  case (2 i s flag nxt t)
  then have "free_desc i s = Inr t" by simp
  from free_desc_used [OF this] have "descs_used t \<subset> descs_used s" by blast
  then show ?case by (simp add: psubset_card_mono)
qed simp

declare alloc_desc_from.simps [simp del] free_chain.simps [simp del]

function alloc3_loop :: "nat list \<Rightarrow> vst \<Rightarrow> (nat list option \<times> vst) res" where
  "alloc3_loop idx s =
     (if length idx < 3 then
        (case alloc_desc s of
           (Some d, s1) \<Rightarrow> alloc3_loop (idx @ [d]) s1
         | (None, s1) \<Rightarrow> bnd (foldres free_desc idx s1) (\<lambda>s2. Inr (None, s2)))
      else Inr (Some idx, s))"
  by pat_completeness auto
termination by (relation "measure (\<lambda>(idx, s). 3 - length idx)") simp_all

declare alloc3_loop.simps [simp del]

definition alloc3_desc :: "vst \<Rightarrow> (nat list option \<times> vst) res" where
  "alloc3_desc s = alloc3_loop [] s"

text \<open>The three descriptors of a request for the buffer \<open>b\<close>.\<close>

definition sector :: "nat \<Rightarrow> vst \<Rightarrow> u64" where
  "sector b s = ucast (word_of_nat (blockno (bufs s ! b)) * 2 :: u32)"

definition desc_op :: "nat \<Rightarrow> nat \<Rightarrow> vdesc" where
  "desc_op i0 i1 = \<lparr>daddr = DOp i0, dlen = 16, dflags = VRING_DESC_F_NEXT, dnext = word_of_nat i1\<rparr>"

definition desc_data :: "nat \<Rightarrow> bool \<Rightarrow> nat \<Rightarrow> vdesc" where
  "desc_data b write i2 =
     \<lparr>daddr = DData b, dlen = word_of_nat BSIZE,
      dflags = (if write then 0 else VRING_DESC_F_WRITE) OR VRING_DESC_F_NEXT, dnext = word_of_nat i2\<rparr>"

definition desc_status :: "nat \<Rightarrow> vdesc" where
  "desc_status i0 = \<lparr>daddr = DStatus i0, dlen = 1, dflags = VRING_DESC_F_WRITE, dnext = 0\<rparr>"

definition request_op :: "nat \<Rightarrow> bool \<Rightarrow> vst \<Rightarrow> vreq" where
  "request_op b write s = \<lparr>rtype = (if write then 1 else 0), rreserved = 0, rsector = sector b s\<rparr>"

definition format_request :: "nat \<Rightarrow> bool \<Rightarrow> nat \<Rightarrow> nat \<Rightarrow> nat \<Rightarrow> vst \<Rightarrow> vst" where
  "format_request b write i0 i1 i2 s =
     s\<lparr>vops := (vops s)(i0 := request_op b write s),
       vdesc := (vdesc s)(i0 := desc_op i0 i1, i1 := desc_data b write i2, i2 := desc_status i0),
       vinfo := (vinfo s)(i0 := \<lparr>ibuf = Some b, istatus = 0xff\<rparr>),
       ondisk := (ondisk s)(b := True)\<rparr>"

definition notify :: "nat \<Rightarrow> vst \<Rightarrow> vst" where
  "notify i0 s =
     s\<lparr>avail_ring := (avail_ring s)[unat (avail_idx s) mod NUM := word_of_nat i0], avail_idx := avail_idx s + 1\<rparr>"

definition goto :: "nat \<Rightarrow> vpc \<Rightarrow> vst \<Rightarrow> vst" where
  "goto p l s = s\<lparr>vpcs := (vpcs s)(p := l)\<rparr>"

text \<open>
  \<^verbatim>\<open>virtio_disk_rw\<close> up to a sleep: for want of descriptors, or with the request on its way, when
  \<^verbatim>\<open>b->disk\<close> has just been set; and from the wakeup for the buffer on.
\<close>

definition virtio_disk_rw :: "nat \<Rightarrow> nat \<Rightarrow> bool \<Rightarrow> vst \<Rightarrow> vst res" where
  "virtio_disk_rw p b write s =
     bnd (alloc3_desc s) (\<lambda>(r, s1).
       case r of
         Some [i0, i1, i2] \<Rightarrow> Inr (goto p (SleepBuf i0 b write) (notify i0 (format_request b write i0 i1 i2 s1)))
       | _ \<Rightarrow> Inr (goto p (SleepFree b write) s1))"

definition virtio_disk_rw_resume :: "nat \<Rightarrow> nat \<Rightarrow> nat \<Rightarrow> bool \<Rightarrow> vst \<Rightarrow> vst res" where
  "virtio_disk_rw_resume p i0 b write s =
     (if ondisk s b then Inr (goto p (SleepBuf i0 b write) s)
      else bnd (free_chain i0 (s\<lparr>vinfo := (vinfo s)(i0 := (vinfo s i0)\<lparr>ibuf := None\<rparr>)\<rparr>)) (\<lambda>s1.
        Inr (goto p Outside s1)))"

function intr_loop :: "vst \<Rightarrow> vst res" where
  "intr_loop s =
     (if used_idx s \<noteq> used_idx_dev s then
        let id = unat (used_ring s ! (unat (used_idx s) mod NUM)) in
        if id \<ge> NUM then Inl OutOfBounds
        else if istatus (vinfo s id) \<noteq> 0 then Inl (Panic ''virtio_disk_intr status'')
        else
          (case ibuf (vinfo s id) of
             None \<Rightarrow> Inl OutOfBounds
           | Some b \<Rightarrow> intr_loop ((wakeup_buf b (s\<lparr>ondisk := (ondisk s)(b := False)\<rparr>))\<lparr>used_idx := used_idx s + 1\<rparr>))
      else Inr s)"
  by pat_completeness auto
termination
proof (relation "measure (\<lambda>s. unat (used_idx_dev s - used_idx s))", goal_cases)
  case (2 s id b)
  have "used_idx_dev s - used_idx s \<noteq> 0" using 2 by auto
  then have "unat (used_idx_dev s - used_idx s - 1) < unat (used_idx_dev s - used_idx s)"
    by (simp add: unat_minus_one unat_gt_0)
  then show ?case by (simp add: wakeup_buf_def algebra_simps)
qed simp

declare intr_loop.simps [simp del]

definition virtio_disk_intr :: "vst \<Rightarrow> vst res" where
  "virtio_disk_intr s = intr_loop s"

section \<open>The device\<close>

text \<open>
  What the virtio specification says of the device: it reads the heads of chains from the \<^verbatim>\<open>avail\<close> ring, and
  answers each, in any order, by storing a status byte through the third descriptor and then adding the head to
  the \<^verbatim>\<open>used\<close> ring. The status is 0 (\<^verbatim>\<open>VIRTIO_BLK_S_OK\<close>) when it has transferred the block of the sector in the
  header between the disk and the memory of the second descriptor. It is 1 or 2 (\<^verbatim>\<open>VIRTIO_BLK_S_IOERR\<close>,
  \<^verbatim>\<open>VIRTIO_BLK_S_UNSUPP\<close>) when the request failed; then the destination of the transfer, the block of the disk or
  the data of the buffer, is as before or holds any contents. \<open>dwrites\<close> records the writes in the order in
  which they reach the disk.
\<close>

definition dev_fetch :: "vst \<Rightarrow> vst option" where
  "dev_fetch s =
     (if dev_idx s = avail_idx s then None
      else Some (s\<lparr>dev_busy := dev_busy s @ [unat (avail_ring s ! (unat (dev_idx s) mod NUM))], dev_idx := dev_idx s + 1\<rparr>))"

definition dev_store :: "nat \<Rightarrow> block \<Rightarrow> vst \<Rightarrow> vst" where
  "dev_store n x s = s\<lparr>disk := (disk s)(n := x), dwrites := dwrites s @ [(n, x)]\<rparr>"

definition dev_load :: "nat \<Rightarrow> block \<Rightarrow> vst \<Rightarrow> vst" where
  "dev_load b x s = buf_upd b (\<lambda>y. y\<lparr>bdata := x\<rparr>) s"

text \<open>The transfer of a request: the whole block, or, where it fails, the contents \<open>x\<close> or nothing.\<close>

definition dev_transfer :: "vreq \<Rightarrow> vdesc \<Rightarrow> nat \<Rightarrow> vst \<Rightarrow> vst option" where
  "dev_transfer r d b s =
     (let n = unat (rsector r) div 2 in
      if odd (unat (rsector r)) \<or> dlen d \<noteq> word_of_nat BSIZE then None
      else if rtype r = 1 \<and> dflags d AND VRING_DESC_F_WRITE = 0 then Some (dev_store n (bdata (bufs s ! b)) s)
      else if rtype r = 0 \<and> dflags d AND VRING_DESC_F_WRITE \<noteq> 0 then Some (dev_load b (disk s n) s)
      else None)"

definition dev_partial :: "block option \<Rightarrow> vreq \<Rightarrow> vdesc \<Rightarrow> nat \<Rightarrow> vst \<Rightarrow> vst option" where
  "dev_partial x r d b s =
     (case x of
        None \<Rightarrow> Some s
      | Some c \<Rightarrow>
          if rtype r = 1 \<and> dflags d AND VRING_DESC_F_WRITE = 0 then Some (dev_store (unat (rsector r) div 2) c s)
          else if rtype r = 0 \<and> dflags d AND VRING_DESC_F_WRITE \<noteq> 0 then Some (dev_load b c s)
          else None)"

definition dev_answer :: "nat \<Rightarrow> nat \<Rightarrow> u8 \<Rightarrow> vst \<Rightarrow> vst" where
  "dev_answer h j st t =
     t\<lparr>vinfo := (vinfo t)(j := (vinfo t j)\<lparr>istatus := st\<rparr>),
       used_ring := (used_ring t)[unat (used_idx_dev t) mod NUM := word_of_nat h],
       used_idx_dev := used_idx_dev t + 1, dev_busy := remove1 h (dev_busy t)\<rparr>"

definition dev_request :: "(vreq \<Rightarrow> vdesc \<Rightarrow> nat \<Rightarrow> vst \<Rightarrow> vst option) \<Rightarrow> u8 \<Rightarrow> nat \<Rightarrow> vst \<Rightarrow> vst option" where
  "dev_request f st h s =
     (let d0 = vdesc s h; d1 = vdesc s (unat (dnext d0)); d2 = vdesc s (unat (dnext d1)) in
      case (daddr d0, daddr d1, daddr d2) of
        (DOp k, DData b, DStatus j) \<Rightarrow> map_option (dev_answer h j st) (f (vops s k) d1 b s)
      | _ \<Rightarrow> None)"

definition dev_complete :: "nat \<Rightarrow> vst \<Rightarrow> vst option" where
  "dev_complete h s = dev_request dev_transfer 0 h s"

definition dev_fail :: "u8 \<Rightarrow> block option \<Rightarrow> nat \<Rightarrow> vst \<Rightarrow> vst option" where
  "dev_fail st x h s = dev_request (dev_partial x) st h s"

definition device_ok :: "(vst \<Rightarrow> vst \<Rightarrow> bool) \<Rightarrow> bool" where
  "device_ok dev \<longleftrightarrow> (\<forall>s t. dev s t \<longrightarrow> dev_fetch s = Some t \<or>
     (\<exists>h\<in>set (dev_busy s). dev_complete h s = Some t \<or> (\<exists>st x. st \<in> {1, 2} \<and> dev_fail st x h s = Some t)))"


section \<open>Interleaving\<close>

text \<open>The buffer that a process is transferring, and its request once it has the descriptors.\<close>

fun buf_of :: "vpc \<Rightarrow> nat option" where
  "buf_of Outside = None"
| "buf_of (Trying b w) = Some b"
| "buf_of (SleepFree b w) = Some b"
| "buf_of (SleepBuf h b w) = Some b"
| "buf_of (Woken h b w) = Some b"

fun request_of :: "vpc \<Rightarrow> (nat \<times> nat \<times> bool) option" where
  "request_of (SleepBuf h b w) = Some (h, b, w)"
| "request_of (Woken h b w) = Some (h, b, w)"
| "request_of x = None"

definition in_use :: "nat \<Rightarrow> vst \<Rightarrow> bool" where
  "in_use b s \<longleftrightarrow> (\<exists>p. buf_of (vpcs s p) = Some b)"

text \<open>
  A process calls \<^verbatim>\<open>virtio_disk_rw\<close> with a buffer whose sleep lock it holds, so no other process is
  transferring it. Buffers that are not in transfer may change in any way. A panic in the interrupt handler is
  no step: it stops the processor that holds \<^verbatim>\<open>vdisk_lock\<close>.
\<close>

inductive vstep :: "(vst \<Rightarrow> vst \<Rightarrow> bool) \<Rightarrow> vst \<Rightarrow> vst \<Rightarrow> bool" for dev where
  enter: "vpcs s p = Outside \<Longrightarrow> \<not> in_use b s \<Longrightarrow> b < length (bufs s) \<Longrightarrow> blockno (bufs s ! b) < 2 ^ 31 \<Longrightarrow>
    vstep dev s (goto p (Trying b w) s)"
| try_rw: "vpcs s p = Trying b w \<Longrightarrow> virtio_disk_rw p b w s = Inr t \<Longrightarrow> vstep dev s t"
| resume: "vpcs s p = Woken h b w \<Longrightarrow> virtio_disk_rw_resume p h b w s = Inr t \<Longrightarrow> vstep dev s t"
| intr: "virtio_disk_intr s = Inr t \<Longrightarrow> vstep dev s t"
| device: "dev s t \<Longrightarrow> vstep dev s t"
| edit: "length bs = length (bufs s) \<Longrightarrow> (\<forall>b. in_use b s \<longrightarrow> bs ! b = bufs s ! b) \<Longrightarrow> vstep dev s (s\<lparr>bufs := bs\<rparr>)"

definition vinit :: "vst \<Rightarrow> bool" where
  "vinit s \<longleftrightarrow> (\<forall>p. vpcs s p = Outside) \<and> (\<forall>i<NUM. vfree s i) \<and> (\<forall>b. \<not> ondisk s b) \<and>
     length (avail_ring s) = NUM \<and> length (used_ring s) = NUM \<and> dev_idx s = avail_idx s \<and>
     used_idx s = used_idx_dev s \<and> dev_busy s = []"

inductive vreach :: "(vst \<Rightarrow> vst \<Rightarrow> bool) \<Rightarrow> vst \<Rightarrow> bool" for dev where
  init: "vinit s \<Longrightarrow> vreach dev s"
| step: "vreach dev s \<Longrightarrow> vstep dev s t \<Longrightarrow> vreach dev t"

section \<open>The invariant\<close>

definition vchain :: "vst \<Rightarrow> nat \<Rightarrow> nat list" where
  "vchain s h = (let i1 = unat (dnext (vdesc s h)) in [h, i1, unat (dnext (vdesc s i1))])"

definition request_ok :: "vst \<Rightarrow> nat \<Rightarrow> nat \<Rightarrow> bool \<Rightarrow> bool" where
  "request_ok s h b w \<longleftrightarrow>
     (\<exists>i1 i2. distinct [h, i1, i2] \<and> h < NUM \<and> i1 < NUM \<and> i2 < NUM \<and> \<not> vfree s h \<and> \<not> vfree s i1 \<and> \<not> vfree s i2 \<and>
        vdesc s h = desc_op h i1 \<and> vdesc s i1 = desc_data b w i2 \<and> vdesc s i2 = desc_status h \<and>
        vops s h = request_op b w s \<and> ibuf (vinfo s h) = Some b)"

text \<open>The heads in the \<^verbatim>\<open>avail\<close> ring, in the device, and in the \<^verbatim>\<open>used\<close> ring.\<close>

definition waiting :: "vst \<Rightarrow> nat list" where
  "waiting s = List.map unat (ring_bytes NUM (avail_ring s) (dev_idx s) (avail_idx s)) @ dev_busy s"

definition returned :: "vst \<Rightarrow> nat list" where
  "returned s = List.map unat (ring_bytes NUM (used_ring s) (used_idx s) (used_idx_dev s))"

definition users_ok :: "vst \<Rightarrow> bool" where
  "users_ok s \<longleftrightarrow>
     (\<forall>p b. buf_of (vpcs s p) = Some b \<longrightarrow> b < length (bufs s) \<and> blockno (bufs s ! b) < 2 ^ 31) \<and>
     (\<forall>p q b. buf_of (vpcs s p) = Some b \<and> buf_of (vpcs s q) = Some b \<longrightarrow> p = q)"

definition chains_ok :: "vst \<Rightarrow> bool" where
  "chains_ok s \<longleftrightarrow>
     (\<forall>p h b w. request_of (vpcs s p) = Some (h, b, w) \<longrightarrow> request_ok s h b w) \<and>
     (\<forall>p q h b w h' b' w'. request_of (vpcs s p) = Some (h, b, w) \<and> request_of (vpcs s q) = Some (h', b', w') \<and> p \<noteq> q \<longrightarrow>
        set (vchain s h) \<inter> set (vchain s h') = {}) \<and>
     (\<forall>i<NUM. \<not> vfree s i \<longrightarrow> (\<exists>p h b w. request_of (vpcs s p) = Some (h, b, w) \<and> i \<in> set (vchain s h)))"

definition flight_ok :: "vst \<Rightarrow> bool" where
  "flight_ok s \<longleftrightarrow> length (avail_ring s) = NUM \<and> length (used_ring s) = NUM \<and>
     distinct (waiting s @ returned s) \<and> set (waiting s @ returned s) = {h. \<exists>p b w. vpcs s p = SleepBuf h b w} \<and>
     (\<forall>h\<in>set (waiting s). istatus (vinfo s h) = 0xff) \<and> (\<forall>h\<in>set (returned s). istatus (vinfo s h) \<in> {0, 1, 2}) \<and>
     (\<forall>p h b w. vpcs s p = Woken h b w \<longrightarrow> istatus (vinfo s h) = 0) \<and>
     (\<forall>b. ondisk s b \<longleftrightarrow> (\<exists>p h w. vpcs s p = SleepBuf h b w))"

definition sleepers_ok :: "vst \<Rightarrow> bool" where
  "sleepers_ok s \<longleftrightarrow> (\<forall>p b w. vpcs s p = SleepFree b w \<longrightarrow> card {i. i < NUM \<and> vfree s i} < 3)"

definition vinv :: "vst \<Rightarrow> bool" where
  "vinv s \<longleftrightarrow> users_ok s \<and> chains_ok s \<and> flight_ok s \<and> sleepers_ok s"

lemma vinv_init: "vinit s \<Longrightarrow> vinv s"
  by (auto simp: vinit_def vinv_def users_ok_def chains_ok_def flight_ok_def sleepers_ok_def waiting_def returned_def ring_bytes_def)

section \<open>Descriptors\<close>

lemma alloc_desc_cases:
  "(\<exists>d<NUM. vfree s d \<and> alloc_desc s = (Some d, s\<lparr>vfree := (vfree s)(d := False)\<rparr>)) \<or>
   (\<forall>d<NUM. \<not> vfree s d) \<and> alloc_desc s = (None, s)"
proof -
  have "(\<exists>d\<ge>i. d < NUM \<and> vfree s d \<and> alloc_desc_from i s = (Some d, s\<lparr>vfree := (vfree s)(d := False)\<rparr>)) \<or>
      (\<forall>d\<ge>i. d < NUM \<longrightarrow> \<not> vfree s d) \<and> alloc_desc_from i s = (None, s)" for i
  proof (induction i s rule: alloc_desc_from.induct)
    case (1 i s)
    show ?case
    proof (cases "i < NUM \<and> \<not> vfree s i")
      case True
      then have "alloc_desc_from i s = alloc_desc_from (i + 1) s" by (subst alloc_desc_from.simps) simp
      moreover have "(\<forall>d\<ge>i + 1. d < NUM \<longrightarrow> \<not> vfree s d) \<Longrightarrow> (\<forall>d\<ge>i. d < NUM \<longrightarrow> \<not> vfree s d)"
        using True by (metis Suc_eq_plus1 Suc_leI le_neq_implies_less)
      ultimately show ?thesis using 1 [OF _ ] True by (metis Suc_eq_plus1 Suc_leD)
    next
      case False
      then show ?thesis by (subst (1 2) alloc_desc_from.simps) auto
    qed
  qed
  from this [of 0] show ?thesis by (auto simp: alloc_desc_def)
qed

definition vwoken :: "(nat \<Rightarrow> vpc) \<Rightarrow> nat \<Rightarrow> vpc" where
  "vwoken f = (\<lambda>p. case f p of SleepFree b w \<Rightarrow> Trying b w | x \<Rightarrow> x)"

lemma vwoken_vwoken [simp]: "vwoken (vwoken f) = vwoken f"
  by (auto simp: vwoken_def fun_eq_iff split: vpc.splits)

lemma vwoken_simps [simp]: "buf_of (vwoken f p) = buf_of (f p)" "request_of (vwoken f p) = request_of (f p)"
  "vwoken f p = SleepBuf h b w \<longleftrightarrow> f p = SleepBuf h b w" "vwoken f p = Woken h b w \<longleftrightarrow> f p = Woken h b w"
  "vwoken f p \<noteq> SleepFree b w"
  by (auto simp: vwoken_def split: vpc.splits)

lemma wakeup_free_eq: "wakeup_free s = s\<lparr>vpcs := vwoken (vpcs s)\<rparr>"
  by (simp add: wakeup_free_def vwoken_def)

lemma free_desc_eq:
  "i < NUM \<Longrightarrow> \<not> vfree s i \<Longrightarrow>
     free_desc i s = Inr (s\<lparr>vdesc := (vdesc s)(i := no_desc), vfree := (vfree s)(i := True), vpcs := vwoken (vpcs s)\<rparr>)"
  by (simp add: free_desc_def wakeup_free_eq)

lemma fun_upd_back: "f a \<Longrightarrow> f(a := True) = f" "f a \<Longrightarrow> f b \<Longrightarrow> f(a := True, b := True) = f"
  by (auto simp: fun_eq_iff)

lemma alloc3_cases:
  "(\<exists>a b c. distinct [a, b, c] \<and> a < NUM \<and> b < NUM \<and> c < NUM \<and> vfree s a \<and> vfree s b \<and> vfree s c \<and>
     alloc3_desc s = Inr (Some [a, b, c], s\<lparr>vfree := (vfree s)(a := False, b := False, c := False)\<rparr>)) \<or>
   (\<exists>D P. alloc3_desc s = Inr (None, s\<lparr>vdesc := D, vpcs := P\<rparr>) \<and> (\<forall>i. \<not> vfree s i \<longrightarrow> D i = vdesc s i) \<and>
     (P = vpcs s \<or> P = vwoken (vpcs s)) \<and> card {i. i < NUM \<and> vfree s i} < 3)"
proof -
  have out: "alloc3_loop idx u = bnd (foldres free_desc idx u) (\<lambda>s2. Inr (None, s2))"
    if "length idx < 3" "alloc_desc u = (None, u)" for idx u
    using that by (subst alloc3_loop.simps) simp
  have more: "alloc3_loop idx u = alloc3_loop (idx @ [d]) (u\<lparr>vfree := (vfree u)(d := False)\<rparr>)"
    if "length idx < 3" "alloc_desc u = (Some d, u\<lparr>vfree := (vfree u)(d := False)\<rparr>)" for idx u d
    using that by (subst alloc3_loop.simps) simp
  show ?thesis
  proof (cases "\<forall>d<NUM. \<not> vfree s d")
    case True
    then have "alloc_desc s = (None, s)" using alloc_desc_cases [of s] by blast
    then have "alloc3_desc s = Inr (None, s\<lparr>vdesc := vdesc s, vpcs := vpcs s\<rparr>)" using out [of "[]" s] by (simp add: alloc3_desc_def)
    moreover have e: "{i. i < NUM \<and> vfree s i} = {}" using True by auto
    have "card {i. i < NUM \<and> vfree s i} < 3" unfolding e by simp
    ultimately show ?thesis by (intro disjI2 exI [of _ "vdesc s"] exI [of _ "vpcs s"]) simp
  next
    case False
    then obtain a where a: "a < NUM" "vfree s a" "alloc_desc s = (Some a, s\<lparr>vfree := (vfree s)(a := False)\<rparr>)"
      using alloc_desc_cases [of s] by blast
    let ?s1 = "s\<lparr>vfree := (vfree s)(a := False)\<rparr>"
    have l1: "alloc3_desc s = alloc3_loop [a] ?s1" using more [of "[]", OF _ a(3)] by (simp add: alloc3_desc_def)
    show ?thesis
    proof (cases "\<forall>d<NUM. \<not> vfree ?s1 d")
      case True
      then have n: "alloc_desc ?s1 = (None, ?s1)" using alloc_desc_cases [of ?s1] by blast
      have "alloc3_desc s = Inr (None, s\<lparr>vdesc := (vdesc s)(a := no_desc), vpcs := vwoken (vpcs s)\<rparr>)"
        unfolding l1 using out [of "[a]", OF _ n] a(1, 2) by (simp add: free_desc_eq fun_upd_back)
      moreover have "{i. i < NUM \<and> vfree s i} \<subseteq> {a}" using True by (auto split: if_splits)
      then have "card {i. i < NUM \<and> vfree s i} \<le> card {a}" by (intro card_mono) auto
      ultimately show ?thesis using a(2) by (intro disjI2 exI conjI) (assumption, auto)
    next
      case False
      then obtain b where b: "b < NUM" "vfree ?s1 b" "alloc_desc ?s1 = (Some b, ?s1\<lparr>vfree := (vfree ?s1)(b := False)\<rparr>)"
        using alloc_desc_cases [of ?s1] by blast
      then have ab: "a \<noteq> b" "vfree s b" by (auto split: if_splits)
      let ?s2 = "s\<lparr>vfree := (vfree s)(a := False, b := False)\<rparr>"
      have l2: "alloc3_desc s = alloc3_loop [a, b] ?s2" unfolding l1 using more [of "[a]", OF _ b(3)] by simp
      show ?thesis
      proof (cases "\<forall>d<NUM. \<not> vfree ?s2 d")
        case True
        then have n: "alloc_desc ?s2 = (None, ?s2)" using alloc_desc_cases [of ?s2] by blast
        have "alloc3_desc s = Inr (None, s\<lparr>vdesc := (vdesc s)(a := no_desc, b := no_desc), vpcs := vwoken (vpcs s)\<rparr>)"
          unfolding l2 using out [of "[a, b]", OF _ n] a(1, 2) b(1) ab by (simp add: free_desc_eq fun_upd_back)
        moreover have "{i. i < NUM \<and> vfree s i} \<subseteq> {a, b}" using True by (auto split: if_splits)
        then have "card {i. i < NUM \<and> vfree s i} \<le> card {a, b}" by (intro card_mono) auto
        then have "card {i. i < NUM \<and> vfree s i} < 3" using ab by simp
        ultimately show ?thesis using a(2) ab(2) by (intro disjI2 exI conjI) (assumption, auto)
      next
        case False
        then obtain c where c: "c < NUM" "vfree ?s2 c" "alloc_desc ?s2 = (Some c, ?s2\<lparr>vfree := (vfree ?s2)(c := False)\<rparr>)"
          using alloc_desc_cases [of ?s2] by blast
        then have "c \<noteq> a" "c \<noteq> b" "vfree s c" by (auto split: if_splits)
        moreover have "alloc3_desc s = Inr (Some [a, b, c], s\<lparr>vfree := (vfree s)(a := False, b := False, c := False)\<rparr>)"
          unfolding l2 using more [of "[a, b]", OF _ c(3)] by (simp add: alloc3_loop.simps [of "[a, b, c]"])
        ultimately show ?thesis using a(1, 2) b(1) c(1) ab
          by (intro disjI1 exI [of _ a] exI [of _ b] exI [of _ c]) simp
      qed
    qed
  qed
qed


lemma flags [simp]: "VRING_DESC_F_NEXT \<noteq> 0" "VRING_DESC_F_NEXT AND VRING_DESC_F_NEXT \<noteq> 0" "VRING_DESC_F_WRITE AND VRING_DESC_F_NEXT = 0"
  "((if w then 0 else VRING_DESC_F_WRITE) OR VRING_DESC_F_NEXT) AND VRING_DESC_F_NEXT \<noteq> 0"
  "((if w then 0 else VRING_DESC_F_WRITE) OR VRING_DESC_F_NEXT) AND VRING_DESC_F_WRITE = 0 \<longleftrightarrow> w"
  by (simp_all add: VRING_DESC_F_NEXT_def VRING_DESC_F_WRITE_def)

lemma unat_u16 [simp]: "i < NUM \<Longrightarrow> unat (word_of_nat i :: u16) = i"
  by (simp add: unat_of_nat take_bit_nat_eq_self)

lemma unat_u32 [simp]: "i < NUM \<Longrightarrow> unat (word_of_nat i :: u32) = i"
  by (simp add: unat_of_nat take_bit_nat_eq_self)

definition vfreed :: "nat \<Rightarrow> vst \<Rightarrow> vst" where
  "vfreed i s = s\<lparr>vdesc := (vdesc s)(i := no_desc), vfree := (vfree s)(i := True), vpcs := vwoken (vpcs s)\<rparr>"

lemma vfreed_simps [simp]: "vdesc (vfreed i s) = (vdesc s)(i := no_desc)" "vfree (vfreed i s) = (vfree s)(i := True)"
  by (simp_all add: vfreed_def)

lemma free_chain_step:
  assumes "i < NUM" "\<not> vfree s i"
  shows "free_chain i s = (if dflags (vdesc s i) AND VRING_DESC_F_NEXT \<noteq> 0
      then free_chain (unat (dnext (vdesc s i))) (vfreed i s) else Inr (vfreed i s))"
  using assms by (simp add: free_chain.simps [of i s] free_desc_eq vfreed_def)

lemma free_chain_request:
  assumes "request_ok s h b w"
  shows "free_chain h (s\<lparr>vinfo := V\<rparr>) = Inr (s\<lparr>vdesc := (\<lambda>i. if i \<in> set (vchain s h) then no_desc else vdesc s i),
      vfree := (\<lambda>i. i \<in> set (vchain s h) \<or> vfree s i), vinfo := V, vpcs := vwoken (vpcs s)\<rparr>)"
    and "\<forall>i\<in>set (vchain s h). i < NUM \<and> \<not> vfree s i"
proof -
  obtain i1 i2 where r: "distinct [h, i1, i2]" "h < NUM" "i1 < NUM" "i2 < NUM" "\<not> vfree s h" "\<not> vfree s i1" "\<not> vfree s i2"
    "vdesc s h = desc_op h i1" "vdesc s i1 = desc_data b w i2" "vdesc s i2 = desc_status h"
    using assms by (auto simp: request_ok_def)
  have c: "vchain s h = [h, i1, i2]" using r by (simp add: vchain_def desc_op_def desc_data_def)
  show "\<forall>i\<in>set (vchain s h). i < NUM \<and> \<not> vfree s i" using r by (simp add: c)
  let ?s = "s\<lparr>vinfo := V\<rparr>"
  have "free_chain h ?s = free_chain i1 (vfreed h ?s)"
    using free_chain_step [of h ?s] r by (simp add: desc_op_def)
  also have "\<dots> = free_chain i2 (vfreed i1 (vfreed h ?s))"
    using free_chain_step [of i1 "vfreed h ?s"] r by (simp add: desc_data_def)
  also have "\<dots> = Inr (vfreed i2 (vfreed i1 (vfreed h ?s)))"
    using free_chain_step [of i2 "vfreed i1 (vfreed h ?s)"] r by (simp add: desc_status_def)
  also have "vfreed i2 (vfreed i1 (vfreed h ?s)) = s\<lparr>vdesc := (vdesc s)(h := no_desc, i1 := no_desc, i2 := no_desc),
      vfree := (vfree s)(h := True, i1 := True, i2 := True), vinfo := V, vpcs := vwoken (vpcs s)\<rparr>" by (simp add: vfreed_def)
  also have "(vdesc s)(h := no_desc, i1 := no_desc, i2 := no_desc) = (\<lambda>i. if i \<in> set (vchain s h) then no_desc else vdesc s i)"
    by (auto simp: c fun_eq_iff)
  also have "(vfree s)(h := True, i1 := True, i2 := True) = (\<lambda>i. i \<in> set (vchain s h) \<or> vfree s i)"
    by (auto simp: c fun_eq_iff)
  finally show "free_chain h ?s = Inr (s\<lparr>vdesc := (\<lambda>i. if i \<in> set (vchain s h) then no_desc else vdesc s i),
      vfree := (\<lambda>i. i \<in> set (vchain s h) \<or> vfree s i), vinfo := V, vpcs := vwoken (vpcs s)\<rparr>)" .
qed

text \<open>A request is not touched by what happens to other descriptors.\<close>

lemma request_ok_cong:
  assumes "request_ok s h b w" "\<forall>i\<in>set (vchain s h). vdesc t i = vdesc s i \<and> \<not> vfree t i" "vops t h = vops s h"
    "ibuf (vinfo t h) = ibuf (vinfo s h)" "sector b t = sector b s"
  shows "request_ok t h b w" "vchain t h = vchain s h"
proof -
  obtain i1 i2 where r: "distinct [h, i1, i2]" "h < NUM" "i1 < NUM" "i2 < NUM"
    "vdesc s h = desc_op h i1" "vdesc s i1 = desc_data b w i2" "vdesc s i2 = desc_status h" "vops s h = request_op b w s"
    "ibuf (vinfo s h) = Some b"
    using assms(1) by (auto simp: request_ok_def)
  have c: "vchain s h = [h, i1, i2]" using r by (simp add: vchain_def desc_op_def desc_data_def)
  have t: "vdesc t h = desc_op h i1" "vdesc t i1 = desc_data b w i2" "vdesc t i2 = desc_status h"
    "\<not> vfree t h" "\<not> vfree t i1" "\<not> vfree t i2" using assms(2) r by (auto simp: c)
  show "vchain t h = vchain s h" unfolding c using r t by (simp add: vchain_def desc_op_def desc_data_def)
  show "request_ok t h b w"
    unfolding request_ok_def using r t assms(3-5) by (intro exI [of _ i1] exI [of _ i2]) (simp add: request_op_def)
qed

lemma request_ok_head: "request_ok s h b w \<Longrightarrow> h < NUM" "request_ok s h b w \<Longrightarrow> ibuf (vinfo s h) = Some b"
  "h \<in> set (vchain s h)"
  by (auto simp: request_ok_def vchain_def Let_def)

section \<open>Every step keeps the invariant\<close>

text \<open>What each part of the invariant depends on.\<close>

lemma users_ok_cong:
  assumes "users_ok s" "\<And>p. buf_of (vpcs t p) = buf_of (vpcs s p)" "length (bufs t) = length (bufs s)"
    "\<And>b. in_use b s \<Longrightarrow> blockno (bufs t ! b) = blockno (bufs s ! b)"
  shows "users_ok t"
  using assms unfolding users_ok_def in_use_def by metis

lemma sector_cong: "blockno (bufs t ! b) = blockno (bufs s ! b) \<Longrightarrow> sector b t = sector b s"
  by (simp add: sector_def)

lemma chains_ok_cong:
  assumes "chains_ok s" "\<And>p. request_of (vpcs t p) = request_of (vpcs s p)"
    "\<And>i. \<not> vfree s i \<Longrightarrow> vdesc t i = vdesc s i" "vfree t = vfree s" "vops t = vops s"
    "\<And>i. ibuf (vinfo t i) = ibuf (vinfo s i)"
    "\<And>b. in_use b s \<Longrightarrow> blockno (bufs t ! b) = blockno (bufs s ! b)"
  shows "chains_ok t"
proof -
  have "request_ok t h b w \<and> vchain t h = vchain s h" if r: "request_of (vpcs s p) = Some (h, b, w)" for p h b w
  proof -
    have ok: "request_ok s h b w" using assms(1) r by (auto simp: chains_ok_def)
    have "in_use b s" using r by (cases "vpcs s p") (auto simp: in_use_def intro!: exI [of _ p])
    then show ?thesis using request_ok_cong [OF ok] free_chain_request(2) [OF ok] assms(3-7) sector_cong by metis
  qed
  then show ?thesis using assms(1,2,4) unfolding chains_ok_def by metis
qed

lemma sleepers_ok_cong: "sleepers_ok s \<Longrightarrow> (\<And>p b w. vpcs t p = SleepFree b w \<Longrightarrow> vpcs s p = SleepFree b w) \<Longrightarrow>
    vfree t = vfree s \<Longrightarrow> sleepers_ok t"
  unfolding sleepers_ok_def by metis

lemma flight_ok_cong:
  assumes "flight_ok s" "\<And>p h b w. vpcs t p = SleepBuf h b w \<longleftrightarrow> vpcs s p = SleepBuf h b w"
    "\<And>p h b w. vpcs t p = Woken h b w \<longleftrightarrow> vpcs s p = Woken h b w"
    "vinfo t = vinfo s" "ondisk t = ondisk s" "waiting t = waiting s" "returned t = returned s"
    "avail_ring t = avail_ring s" "used_ring t = used_ring s"
  shows "flight_ok t"
  using assms(1) unfolding flight_ok_def assms(2-9) .

lemma venter_inv:
  assumes "vinv s" "vpcs s p = Outside" "\<not> in_use b s" "b < length (bufs s)" "blockno (bufs s ! b) < 2 ^ 31"
  shows "vinv (goto p (Trying b w) s)"
proof -
  have "users_ok (goto p (Trying b w) s)"
    using assms by (auto simp: vinv_def users_ok_def goto_def in_use_def)
  moreover have "chains_ok (goto p (Trying b w) s)"
    by (rule chains_ok_cong [of s]) (use assms in \<open>auto simp: vinv_def goto_def\<close>)
  moreover have "flight_ok (goto p (Trying b w) s)"
    by (rule flight_ok_cong [of s]) (use assms in \<open>auto simp: vinv_def goto_def waiting_def returned_def\<close>)
  moreover have "sleepers_ok (goto p (Trying b w) s)"
    by (rule sleepers_ok_cong [of s]) (use assms in \<open>auto simp: vinv_def goto_def split: if_splits\<close>)
  ultimately show ?thesis by (simp add: vinv_def)
qed

lemma edit_inv:
  assumes "vinv s" "length bs = length (bufs s)" "\<forall>b. in_use b s \<longrightarrow> bs ! b = bufs s ! b"
  shows "vinv (s\<lparr>bufs := bs\<rparr>)"
proof -
  have "users_ok (s\<lparr>bufs := bs\<rparr>)" by (rule users_ok_cong [of s]) (use assms in \<open>auto simp: vinv_def\<close>)
  moreover have "chains_ok (s\<lparr>bufs := bs\<rparr>)" by (rule chains_ok_cong [of s]) (use assms in \<open>auto simp: vinv_def\<close>)
  moreover have "flight_ok (s\<lparr>bufs := bs\<rparr>)"
    by (rule flight_ok_cong [of s]) (use assms in \<open>auto simp: vinv_def waiting_def returned_def\<close>)
  moreover have "sleepers_ok (s\<lparr>bufs := bs\<rparr>)" by (rule sleepers_ok_cong [of s]) (use assms in \<open>auto simp: vinv_def\<close>)
  ultimately show ?thesis by (simp add: vinv_def)
qed

lemma wait_free_inv:
  assumes "vinv s" "vpcs s p = Trying b w" "\<forall>i. \<not> vfree s i \<longrightarrow> D i = vdesc s i" "P = vpcs s \<or> P = vwoken (vpcs s)"
    "card {i. i < NUM \<and> vfree s i} < 3"
  shows "vinv (goto p (SleepFree b w) (s\<lparr>vdesc := D, vpcs := P\<rparr>))" (is "vinv ?t")
proof -
  have "users_ok ?t" by (rule users_ok_cong [of s]) (use assms in \<open>auto simp: vinv_def goto_def\<close>)
  moreover have "chains_ok ?t" by (rule chains_ok_cong [of s]) (use assms in \<open>auto simp: vinv_def goto_def\<close>)
  moreover have "flight_ok ?t"
    by (rule flight_ok_cong [of s]) (use assms in \<open>auto simp: vinv_def goto_def waiting_def returned_def\<close>)
  moreover have "sleepers_ok ?t" using assms(5) by (simp add: sleepers_ok_def goto_def)
  ultimately show ?thesis by (simp add: vinv_def)
qed


definition submit :: "nat \<Rightarrow> nat \<Rightarrow> bool \<Rightarrow> nat \<Rightarrow> nat \<Rightarrow> nat \<Rightarrow> vst \<Rightarrow> vst" where
  "submit p b w i0 i1 i2 s = goto p (SleepBuf i0 b w) (notify i0 (format_request b w i0 i1 i2
     (s\<lparr>vfree := (vfree s)(i0 := False, i1 := False, i2 := False)\<rparr>)))"

lemma submit_simps [simp]:
  "vpcs (submit p b w i0 i1 i2 s) = (vpcs s)(p := SleepBuf i0 b w)" "bufs (submit p b w i0 i1 i2 s) = bufs s"
  "vfree (submit p b w i0 i1 i2 s) = (vfree s)(i0 := False, i1 := False, i2 := False)"
  "vdesc (submit p b w i0 i1 i2 s) = (vdesc s)(i0 := desc_op i0 i1, i1 := desc_data b w i2, i2 := desc_status i0)"
  "vops (submit p b w i0 i1 i2 s) = (vops s)(i0 := request_op b w s)"
  "vinfo (submit p b w i0 i1 i2 s) = (vinfo s)(i0 := \<lparr>ibuf = Some b, istatus = 0xff\<rparr>)"
  "ondisk (submit p b w i0 i1 i2 s) = (ondisk s)(b := True)" "dev_busy (submit p b w i0 i1 i2 s) = dev_busy s"
  "used_ring (submit p b w i0 i1 i2 s) = used_ring s" "returned (submit p b w i0 i1 i2 s) = returned s"
  "length (avail_ring (submit p b w i0 i1 i2 s)) = length (avail_ring s)"
  by (simp_all add: submit_def goto_def notify_def format_request_def request_op_def sector_def returned_def)

lemma request_buf: "request_of x = Some (h, b, w) \<Longrightarrow> buf_of x = Some b"
  by (cases x) auto

lemma request_cases: "request_of x = Some (h, b, w) \<longleftrightarrow> x = SleepBuf h b w \<or> x = Woken h b w"
  by (cases x) auto

lemma submit_chains:
  assumes "chains_ok s" "vpcs s p = Trying b w" "distinct [i0, i1, i2]" "i0 < NUM" "i1 < NUM" "i2 < NUM"
    "vfree s i0" "vfree s i1" "vfree s i2"
  shows "chains_ok (submit p b w i0 i1 i2 s)" (is "chains_ok ?t")
proof -
  have old: "request_ok ?t h b' w'" "vchain ?t h = vchain s h" "\<forall>i\<in>set (vchain s h). i \<notin> {i0, i1, i2}"
    if "request_of (vpcs s q) = Some (h, b', w')" for q h b' w'
  proof -
    have ok: "request_ok s h b' w'" using assms(1) that by (auto simp: chains_ok_def)
    show out: "\<forall>i\<in>set (vchain s h). i \<notin> {i0, i1, i2}" using free_chain_request(2) [OF ok] assms(7-9) by auto
    then have "h \<noteq> i0" using request_ok_head(3) by blast
    then show "request_ok ?t h b' w'" "vchain ?t h = vchain s h"
      using request_ok_cong [OF ok, of ?t] free_chain_request(2) [OF ok] out by (auto simp: sector_def)
  qed
  have "request_op b w ?t = request_op b w s" by (simp add: request_op_def sector_def)
  then have new: "request_ok ?t i0 b w" unfolding request_ok_def
    using assms(3-6) by (intro exI [of _ i1] exI [of _ i2]) simp
  have new_chain: "vchain ?t i0 = [i0, i1, i2]"
    using assms(3-6) by (simp add: vchain_def desc_op_def desc_data_def)
  have req: "request_of (vpcs ?t q) = (if q = p then Some (i0, b, w) else request_of (vpcs s q))" for q by simp
  have none: "request_of (vpcs s p) = None" using assms(2) by simp
  show ?thesis unfolding chains_ok_def
  proof (intro conjI allI impI)
    fix q h b' w' assume "request_of (vpcs ?t q) = Some (h, b', w')"
    then show "request_ok ?t h b' w'" using old(1) new unfolding req by (auto split: if_splits)
  next
    fix q q' h b' w' h' b'' w''
    assume a: "request_of (vpcs ?t q) = Some (h, b', w') \<and> request_of (vpcs ?t q') = Some (h', b'', w'') \<and> q \<noteq> q'"
    show "set (vchain ?t h) \<inter> set (vchain ?t h') = {}"
    proof (cases "q = p \<or> q' = p")
      case True
      then show ?thesis using a old(2,3) new_chain unfolding req by (fastforce split: if_splits)
    next
      case False
      then have r: "request_of (vpcs s q) = Some (h, b', w')" "request_of (vpcs s q') = Some (h', b'', w'')"
        using a unfolding req by auto
      then show ?thesis using assms(1) a old(2) [OF r(1)] old(2) [OF r(2)] unfolding chains_ok_def by metis
    qed
  next
    fix i assume i: "i < NUM" "\<not> vfree ?t i"
    show "\<exists>q h b' w'. request_of (vpcs ?t q) = Some (h, b', w') \<and> i \<in> set (vchain ?t h)"
    proof (cases "i \<in> {i0, i1, i2}")
      case True
      then show ?thesis using new_chain req [of p] by (intro exI [of _ p] exI [of _ i0] exI [of _ b] exI [of _ w]) auto
    next
      case False
      then have "\<not> vfree s i" using i(2) by auto
      then obtain q h b' w' where r: "request_of (vpcs s q) = Some (h, b', w')" "i \<in> set (vchain s h)"
        using assms(1) i(1) unfolding chains_ok_def by blast
      then have "q \<noteq> p" using none by auto
      then show ?thesis using r old(2) [OF r(1)] req [of q] by metis
    qed
  qed
qed

text \<open>The heads in the rings are allocated and distinct, so there is room in the rings.\<close>

lemma in_flight:
  assumes "vinv s"
  shows "h \<in> set (waiting s @ returned s) \<Longrightarrow> \<exists>p b w. vpcs s p = SleepBuf h b w \<and> request_ok s h b w"
    and "set (waiting s @ returned s) \<subseteq> {i. i < NUM \<and> \<not> vfree s i}"
    and "distinct (waiting s @ returned s)"
proof -
  show req: "\<exists>p b w. vpcs s p = SleepBuf h b w \<and> request_ok s h b w" if h: "h \<in> set (waiting s @ returned s)" for h
  proof -
    have "flight_ok s" using assms by (simp add: vinv_def)
    then obtain p b w where "vpcs s p = SleepBuf h b w" using h unfolding flight_ok_def by auto
    moreover from this have "request_of (vpcs s p) = Some (h, b, w)" by simp
    then have "request_ok s h b w" using assms unfolding vinv_def chains_ok_def by blast
    ultimately show ?thesis by blast
  qed
  show "set (waiting s @ returned s) \<subseteq> {i. i < NUM \<and> \<not> vfree s i}"
  proof
    fix h assume "h \<in> set (waiting s @ returned s)"
    then obtain b w where "request_ok s h b w" using req by blast
    then show "h \<in> {i. i < NUM \<and> \<not> vfree s i}" by (auto simp: request_ok_def)
  qed
  show "distinct (waiting s @ returned s)" using assms by (simp add: vinv_def flight_ok_def)
qed

lemma ring_room:
  assumes "vinv s"
  shows "length (waiting s) + length (returned s) \<le> NUM"
    and "i < NUM \<Longrightarrow> vfree s i \<Longrightarrow> length (waiting s) + length (returned s) < NUM"
proof -
  have c: "length (waiting s) + length (returned s) = card (set (waiting s @ returned s))"
    using distinct_card [OF in_flight(3) [OF assms]] by simp
  have sub: "set (waiting s @ returned s) \<subseteq> {..<NUM}" using in_flight(2) [OF assms] by auto
  then have "card (set (waiting s @ returned s)) \<le> card {..<NUM}" by (intro card_mono) auto
  then show "length (waiting s) + length (returned s) \<le> NUM" using c by simp
  assume i: "i < NUM" "vfree s i"
  then have "set (waiting s @ returned s) \<subset> {..<NUM}" using in_flight(2) [OF assms] sub by blast
  then have "card (set (waiting s @ returned s)) < card {..<NUM}" by (intro psubset_card_mono) auto
  then show "length (waiting s) + length (returned s) < NUM" using c by simp
qed

lemma dvd_u16 [simp]: "NUM dvd 2 ^ LENGTH(16)" "NUM < 2 ^ LENGTH(16)"
  by simp_all

lemma submit_waiting:
  assumes "vinv s" "i0 < NUM" "vfree s i0"
  shows "\<exists>xs. waiting s = xs @ dev_busy s \<and> waiting (submit p b w i0 i1 i2 s) = xs @ i0 # dev_busy s"
proof -
  let ?xs = "ring_bytes NUM (avail_ring s) (dev_idx s) (avail_idx s)"
  have "ring_len (dev_idx s) (avail_idx s) < NUM" using ring_room(2) [OF assms] by (simp add: waiting_def)
  moreover have "length (avail_ring s) = NUM" using assms(1) by (simp add: vinv_def flight_ok_def)
  ultimately have "ring_bytes NUM ((avail_ring s)[unat (avail_idx s) mod NUM := word_of_nat i0]) (dev_idx s) (avail_idx s + 1) =
      ?xs @ [word_of_nat i0]" by (intro ring_put) simp_all
  then show ?thesis using assms(2)
    by (intro exI [of _ "List.map unat ?xs"]) (simp add: waiting_def submit_def goto_def notify_def format_request_def)
qed

lemma submit_inv:
  assumes "vinv s" "vpcs s p = Trying b w" "distinct [i0, i1, i2]" "i0 < NUM" "i1 < NUM" "i2 < NUM"
    "vfree s i0" "vfree s i1" "vfree s i2"
  shows "vinv (submit p b w i0 i1 i2 s)" (is "vinv ?t")
proof -
  have "users_ok ?t" by (rule users_ok_cong [of s]) (use assms in \<open>auto simp: vinv_def\<close>)
  moreover have "chains_ok ?t" by (rule submit_chains) (use assms in \<open>auto simp: vinv_def\<close>)
  moreover have "flight_ok ?t"
  proof -
    obtain xs where xs: "waiting s = xs @ dev_busy s" "waiting ?t = xs @ i0 # dev_busy s"
      using submit_waiting [OF assms(1,4,7)] by blast
    have i0: "i0 \<notin> set (waiting s @ returned s)" using in_flight(2) [OF assms(1)] assms(7) by auto
    have f: "flight_ok s" using assms(1) by (simp add: vinv_def)
    have d: "vpcs ?t q = SleepBuf h b' w' \<longleftrightarrow> q = p \<and> h = i0 \<and> b' = b \<and> w' = w \<or> vpcs s q = SleepBuf h b' w'"
      "vpcs ?t q = Woken h b' w' \<longleftrightarrow> vpcs s q = Woken h b' w'" for q h b' w'
      using assms(2) by auto
    have vwoken: "h \<noteq> i0" if "vpcs s q = Woken h b' w'" for q h b' w'
    proof -
      have "request_of (vpcs s q) = Some (h, b', w')" using that by simp
      then have "request_ok s h b' w'" using assms(1) unfolding vinv_def chains_ok_def by blast
      then show ?thesis using assms(7) by (auto simp: request_ok_def)
    qed
    have dist: "distinct (waiting ?t @ returned ?t)" using i0 f by (auto simp: flight_ok_def xs)
    have set: "set (waiting ?t @ returned ?t) = insert i0 (set (waiting s @ returned s))" by (auto simp: xs)
    have stat: "\<forall>h\<in>set (waiting ?t). istatus (vinfo ?t h) = 0xff" "\<forall>h\<in>set (returned ?t). istatus (vinfo ?t h) \<in> {0, 1, 2}"
      using i0 f by (auto simp: flight_ok_def xs)
    show ?thesis
      unfolding flight_ok_def d set
      using f dist stat vwoken by (auto simp: flight_ok_def)
  qed
  moreover have "sleepers_ok ?t" unfolding sleepers_ok_def
  proof (intro allI impI)
    fix q b' w' assume "vpcs ?t q = SleepFree b' w'"
    then have "vpcs s q = SleepFree b' w'" by (auto split: if_splits)
    then have "card {i. i < NUM \<and> vfree s i} < 3" using assms(1) by (auto simp: vinv_def sleepers_ok_def)
    moreover have "card {i. i < NUM \<and> vfree ?t i} \<le> card {i. i < NUM \<and> vfree s i}" by (rule card_mono) auto
    ultimately show "card {i. i < NUM \<and> vfree ?t i} < 3" by linarith
  qed
  ultimately show ?thesis by (simp add: vinv_def)
qed

text \<open>\<^verbatim>\<open>virtio_disk_rw\<close> either submits its request or waits for descriptors.\<close>

lemma virtio_disk_rw_cases:
  obtains (submit) i0 i1 i2 where "distinct [i0, i1, i2]" "i0 < NUM" "i1 < NUM" "i2 < NUM" "vfree s i0" "vfree s i1" "vfree s i2"
      "virtio_disk_rw p b w s = Inr (submit p b w i0 i1 i2 s)"
    | (wait) D P where "\<forall>i. \<not> vfree s i \<longrightarrow> D i = vdesc s i" "P = vpcs s \<or> P = vwoken (vpcs s)"
      "card {i. i < NUM \<and> vfree s i} < 3" "virtio_disk_rw p b w s = Inr (goto p (SleepFree b w) (s\<lparr>vdesc := D, vpcs := P\<rparr>))"
proof (rule disjE [OF alloc3_cases [of s]]; elim exE conjE)
  fix i0 i1 i2
  assume a: "distinct [i0, i1, i2]" "i0 < NUM" "i1 < NUM" "i2 < NUM" "vfree s i0" "vfree s i1" "vfree s i2"
    and al: "alloc3_desc s = Inr (Some [i0, i1, i2], s\<lparr>vfree := (vfree s)(i0 := False, i1 := False, i2 := False)\<rparr>)"
  have "virtio_disk_rw p b w s = Inr (submit p b w i0 i1 i2 s)" by (simp add: virtio_disk_rw_def al submit_def)
  then show thesis using submit a by blast
next
  fix D P
  assume a: "\<forall>i. \<not> vfree s i \<longrightarrow> D i = vdesc s i" "P = vpcs s \<or> P = vwoken (vpcs s)" "card {i. i < NUM \<and> vfree s i} < 3"
    and al: "alloc3_desc s = Inr (None, s\<lparr>vdesc := D, vpcs := P\<rparr>)"
  have "virtio_disk_rw p b w s = Inr (goto p (SleepFree b w) (s\<lparr>vdesc := D, vpcs := P\<rparr>))" by (simp add: virtio_disk_rw_def al)
  then show thesis using wait a by blast
qed

lemma try_rw_inv:
  assumes "vinv s" "vpcs s p = Trying b w" "virtio_disk_rw p b w s = Inr t"
  shows "vinv t"
proof (rule virtio_disk_rw_cases [of s p b w], goal_cases)
  case submit: (1 i0 i1 i2)
  then show ?thesis using submit_inv [OF assms(1,2) submit(1-7)] assms(3) by simp
next
  case wait: (2 D P)
  then show ?thesis using wait_free_inv [OF assms(1,2) wait(1-3)] assms(3) by simp
qed

text \<open>A process vwoken for its buffer finds \<^verbatim>\<open>b->disk\<close> clear and frees its vchain.\<close>

lemma request_inD:
  assumes "vinv s" "vpcs s p = SleepBuf h b w \<or> vpcs s p = Woken h b w"
  shows "request_ok s h b w" "b < length (bufs s)" "blockno (bufs s ! b) < 2 ^ 31"
    and "vpcs s q = SleepBuf h' b w' \<or> vpcs s q = Woken h' b w' \<Longrightarrow> q = p"
    and "q \<noteq> p \<Longrightarrow> request_of (vpcs s q) = Some (h', b', w') \<Longrightarrow> set (vchain s h) \<inter> set (vchain s h') = {}"
proof -
  have r: "request_of (vpcs s p) = Some (h, b, w)" using assms(2) by auto
  show "request_ok s h b w" using r assms(1) unfolding vinv_def chains_ok_def by blast
  show "b < length (bufs s)" "blockno (bufs s ! b) < 2 ^ 31"
    using request_buf [OF r] assms(1) unfolding vinv_def users_ok_def by blast+
  show "q = p" if "vpcs s q = SleepBuf h' b w' \<or> vpcs s q = Woken h' b w'"
  proof -
    have "buf_of (vpcs s q) = Some b" using that by auto
    then show ?thesis using request_buf [OF r] assms(1) unfolding vinv_def users_ok_def by blast
  qed
  show "set (vchain s h) \<inter> set (vchain s h') = {}" if "q \<noteq> p" "request_of (vpcs s q) = Some (h', b', w')"
    using r that assms(1) unfolding vinv_def chains_ok_def by blast
qed

definition finish :: "nat \<Rightarrow> nat \<Rightarrow> vst \<Rightarrow> vst" where
  "finish p h s = s\<lparr>vdesc := (\<lambda>i. if i \<in> set (vchain s h) then no_desc else vdesc s i),
     vfree := (\<lambda>i. i \<in> set (vchain s h) \<or> vfree s i), vinfo := (vinfo s)(h := (vinfo s h)\<lparr>ibuf := None\<rparr>),
     vpcs := (vwoken (vpcs s))(p := Outside)\<rparr>"

lemma resume_eq:
  assumes "vinv s" "vpcs s p = Woken h b w"
  shows "virtio_disk_rw_resume p h b w s = Inr (finish p h s)"
proof -
  note r = request_inD [OF assms(1) disjI2, OF assms(2)]
  have "\<not> ondisk s b"
  proof
    assume "ondisk s b"
    then obtain q h' w' where "vpcs s q = SleepBuf h' b w'" using assms(1) by (auto simp: vinv_def flight_ok_def)
    then show False using r(4) [of q h' w'] assms(2) by auto
  qed
  then show ?thesis
    by (simp add: virtio_disk_rw_resume_def free_chain_request(1) [OF r(1)] finish_def goto_def)
qed

lemma finish_inv:
  assumes "vinv s" "vpcs s p = Woken h b w"
  shows "vinv (finish p h s)" (is "vinv ?t")
proof -
  note r = request_inD [OF assms(1) disjI2, OF assms(2)]
  have pc: "vpcs ?t q = (if q = p then Outside else vwoken (vpcs s) q)" for q by (simp add: finish_def)
  have other: "request_ok ?t h' b' w' \<and> vchain ?t h' = vchain s h' \<and> h' \<noteq> h"
    if "request_of (vpcs s q) = Some (h', b', w')" "q \<noteq> p" for q h' b' w'
  proof -
    have ok: "request_ok s h' b' w'" using that assms(1) unfolding vinv_def chains_ok_def by blast
    have d: "set (vchain s h) \<inter> set (vchain s h') = {}" using r(5) that by blast
    then have "h' \<noteq> h" using request_ok_head(3) by blast
    have "\<forall>i\<in>set (vchain s h'). vdesc ?t i = vdesc s i \<and> \<not> vfree ?t i" "vops ?t h' = vops s h'"
      "ibuf (vinfo ?t h') = ibuf (vinfo s h')" "sector b' ?t = sector b' s"
      using d \<open>h' \<noteq> h\<close> free_chain_request(2) [OF ok] by (auto simp: finish_def sector_def)
    then show ?thesis using request_ok_cong [OF ok, of ?t] \<open>h' \<noteq> h\<close> by blast
  qed
  have req: "request_of (vpcs ?t q) = (if q = p then None else request_of (vpcs s q))" for q by (simp add: pc)
  have "users_ok ?t"
    using assms(1) unfolding vinv_def users_ok_def by (auto simp: finish_def)
  moreover have "chains_ok ?t" unfolding chains_ok_def
  proof (intro conjI allI impI)
    fix q h' b' w' assume "request_of (vpcs ?t q) = Some (h', b', w')"
    then show "request_ok ?t h' b' w'" using other by (auto simp: req split: if_splits)
  next
    fix q q' h1 b1 w1 h2 b2 w2
    assume "request_of (vpcs ?t q) = Some (h1, b1, w1) \<and> request_of (vpcs ?t q') = Some (h2, b2, w2) \<and> q \<noteq> q'"
    then show "set (vchain ?t h1) \<inter> set (vchain ?t h2) = {}"
      using other [of q] other [of q'] assms(1) unfolding vinv_def chains_ok_def req by (metis option.distinct(1))
  next
    fix i assume i: "i < NUM" "\<not> vfree ?t i"
    then have "i \<notin> set (vchain s h)" "\<not> vfree s i" by (auto simp: finish_def)
    then obtain q h' b' w' where q: "request_of (vpcs s q) = Some (h', b', w')" "i \<in> set (vchain s h')"
      using assms(1) i(1) unfolding vinv_def chains_ok_def by blast
    then have "q \<noteq> p" using assms(2) \<open>i \<notin> set (vchain s h)\<close> by auto
    then show "\<exists>q h' b' w'. request_of (vpcs ?t q) = Some (h', b', w') \<and> i \<in> set (vchain ?t h')"
      using q other [OF q(1)] req [of q] by metis
  qed
  moreover have "flight_ok ?t"
  proof -
    have d: "vpcs ?t q = SleepBuf h' b' w' \<longleftrightarrow> vpcs s q = SleepBuf h' b' w'"
      "vpcs ?t q = Woken h' b' w' \<longleftrightarrow> q \<noteq> p \<and> vpcs s q = Woken h' b' w'" for q h' b' w'
      using assms(2) by (auto simp: pc)
    have e: "istatus (vinfo ?t i) = istatus (vinfo s i)" "waiting ?t = waiting s" "returned ?t = returned s"
      "avail_ring ?t = avail_ring s" "used_ring ?t = used_ring s" "ondisk ?t = ondisk s" for i
      by (simp_all add: finish_def waiting_def returned_def)
    have "flight_ok s" using assms(1) by (simp add: vinv_def)
    then show ?thesis unfolding flight_ok_def d e by blast
  qed
  moreover have "sleepers_ok ?t" by (simp add: sleepers_ok_def pc)
  ultimately show ?thesis by (simp add: vinv_def)
qed

text \<open>One round of the interrupt handler: the process of the request that the device has returned wakes.\<close>

definition reap :: "nat \<Rightarrow> nat \<Rightarrow> nat \<Rightarrow> bool \<Rightarrow> vst \<Rightarrow> vst" where
  "reap p h b w s = s\<lparr>ondisk := (ondisk s)(b := False), vpcs := (vpcs s)(p := Woken h b w), used_idx := used_idx s + 1\<rparr>"

lemma reap_returned:
  assumes "used_idx s \<noteq> used_idx_dev s"
  shows "returned s = unat (used_ring s ! (unat (used_idx s) mod NUM)) # returned (reap p h b w s)"
proof -
  have "0 < ring_len (used_idx s) (used_idx_dev s)" using assms by (metis gr0I ring_len_0)
  then show ?thesis by (simp add: returned_def reap_def ring_get [of "used_idx s" "used_idx_dev s"])
qed

lemma reap_inv:
  assumes "vinv s" "used_idx s \<noteq> used_idx_dev s" "vpcs s p = SleepBuf h b w" "returned s = h # returned (reap p h b w s)"
    "istatus (vinfo s h) = 0"
  shows "vinv (reap p h b w s)" (is "vinv ?t")
proof -
  have "users_ok ?t" by (rule users_ok_cong [of s]) (use assms(1,3) in \<open>auto simp: vinv_def reap_def\<close>)
  moreover have "chains_ok ?t" by (rule chains_ok_cong [of s]) (use assms(1,3) in \<open>auto simp: vinv_def reap_def\<close>)
  moreover have "sleepers_ok ?t"
    by (rule sleepers_ok_cong [of s]) (use assms(1) in \<open>auto simp: vinv_def reap_def split: if_splits\<close>)
  moreover have "flight_ok ?t"
  proof -
    have f: "flight_ok s" using assms(1) by (simp add: vinv_def)
    have d: "vpcs ?t q = SleepBuf h' b' w' \<longleftrightarrow> q \<noteq> p \<and> vpcs s q = SleepBuf h' b' w'"
      "vpcs ?t q = Woken h' b' w' \<longleftrightarrow> q = p \<and> h' = h \<and> b' = b \<and> w' = w \<or> vpcs s q = Woken h' b' w'" for q h' b' w'
      using assms(3) by (auto simp: reap_def)
    have e: "waiting ?t = waiting s" "vinfo ?t = vinfo s" "avail_ring ?t = avail_ring s" "used_ring ?t = used_ring s"
      "ondisk ?t = (ondisk s)(b := False)" by (simp_all add: reap_def waiting_def)
    note r = request_inD [OF assms(1) disjI1, OF assms(3)]
    have one: "q = p" if "vpcs s q = SleepBuf h b' w'" for q b' w'
    proof (rule ccontr)
      assume "q \<noteq> p"
      then have "set (vchain s h) \<inter> set (vchain s h) = {}" using r(5) [of q h b' w'] that by simp
      then show False using request_ok_head(3) by blast
    qed
    have dist: "distinct (waiting s @ returned ?t)" and hd: "h \<notin> set (waiting s @ returned ?t)"
      using f assms(4) unfolding flight_ok_def by auto
    have set: "set (waiting s @ returned ?t) = {h. \<exists>q b w. q \<noteq> p \<and> vpcs s q = SleepBuf h b w}"
    proof -
      have "insert h (set (waiting s @ returned ?t)) = {h. \<exists>p b w. vpcs s p = SleepBuf h b w}"
        using f assms(4) unfolding flight_ok_def by auto
      then have "set (waiting s @ returned ?t) = {h. \<exists>p b w. vpcs s p = SleepBuf h b w} - {h}"
        using hd by (metis Diff_insert_absorb)
      moreover have "(\<exists>q b w. vpcs s q = SleepBuf h' b w) \<and> h' \<noteq> h \<longleftrightarrow> (\<exists>q b w. q \<noteq> p \<and> vpcs s q = SleepBuf h' b w)" for h'
        using one assms(3) by (metis vpc.inject(3))
      ultimately show ?thesis by (simp only: set_eq_iff Diff_iff mem_Collect_eq singleton_iff simp_thms)
    qed
    have stat: "istatus (vinfo s h) = 0" "\<forall>h\<in>set (returned ?t). istatus (vinfo s h) \<in> {0, 1, 2}"
      using f assms(4,5) unfolding flight_ok_def by auto
    have disk: "((ondisk s)(b := False)) b' \<longleftrightarrow> (\<exists>q h w. q \<noteq> p \<and> vpcs s q = SleepBuf h b' w)" for b'
    proof -
      have "ondisk s b' \<longleftrightarrow> (\<exists>q h w. vpcs s q = SleepBuf h b' w)" using f by (simp add: flight_ok_def)
      moreover have "(\<exists>q h w. vpcs s q = SleepBuf h b' w) \<longleftrightarrow> (\<exists>q h w. q \<noteq> p \<and> vpcs s q = SleepBuf h b' w)" if "b' \<noteq> b"
        using assms(3) that by (metis vpc.inject(3))
      moreover have "\<not> (\<exists>q h w. q \<noteq> p \<and> vpcs s q = SleepBuf h b w)" using r(4) by blast
      ultimately show ?thesis by (cases "b' = b") simp_all
    qed
    have rest: "length (avail_ring s) = NUM" "length (used_ring s) = NUM" "\<forall>h\<in>set (waiting s). istatus (vinfo s h) = 0xff"
      "\<And>q h b w. vpcs s q = Woken h b w \<Longrightarrow> istatus (vinfo s h) = 0"
      using f unfolding flight_ok_def by blast+
    show ?thesis unfolding flight_ok_def d e set
    proof (intro conjI allI ballI impI)
      fix q h' b' w' assume "q = p \<and> h' = h \<and> b' = b \<and> w' = w \<or> vpcs s q = Woken h' b' w'"
      then show "istatus (vinfo s h') = 0" using rest(4) stat(1) by blast
    qed (use rest dist stat disk in \<open>simp_all\<close>)
  qed
  ultimately show ?thesis by (simp add: vinv_def)
qed

lemma intr_round:
  assumes "vinv s" "used_idx s \<noteq> used_idx_dev s"
  obtains (panic) h rest where "returned s = h # rest" "istatus (vinfo s h) \<noteq> 0"
      "intr_loop s = Inl (Panic ''virtio_disk_intr status'')"
    | (wake) p h b w where "vpcs s p = SleepBuf h b w" "istatus (vinfo s h) = 0" "intr_loop s = intr_loop (reap p h b w s)"
      "vinv (reap p h b w s)" "returned s = h # returned (reap p h b w s)"
proof -
  let ?h = "unat (used_ring s ! (unat (used_idx s) mod NUM))"
  have ret: "returned s = ?h # returned (reap p h b w s)" for p h b w by (rule reap_returned [OF assms(2)])
  then have m: "?h \<in> set (returned s)" by (metis list.set_intros(1))
  then obtain p b w where p: "vpcs s p = SleepBuf ?h b w" "request_ok s ?h b w"
    using in_flight(1) [OF assms(1), of ?h] by auto
  note hd = request_ok_head(1,2) [OF p(2)]
  show thesis
  proof (cases "istatus (vinfo s ?h) = 0")
    case False
    then have "intr_loop s = Inl (Panic ''virtio_disk_intr status'')"
      using assms(2) hd by (subst intr_loop.simps) (simp add: Let_def)
    then show thesis using panic [OF ret False] by blast
  next
    case True
    have "wakeup_buf b (s\<lparr>ondisk := (ondisk s)(b := False)\<rparr>) = s\<lparr>ondisk := (ondisk s)(b := False), vpcs := (vpcs s)(p := Woken ?h b w)\<rparr>"
    proof -
      have "(case vpcs s q of SleepBuf h b' w \<Rightarrow> if b' = b then Woken h b' w else SleepBuf h b' w | x \<Rightarrow> x) =
          ((vpcs s)(p := Woken ?h b w)) q" for q
        using request_inD(4) [OF assms(1) disjI1, OF p(1), of q] p(1) by (cases "vpcs s q") auto
      then have e: "(\<lambda>q. case vpcs s q of SleepBuf h b' w \<Rightarrow> if b' = b then Woken h b' w else SleepBuf h b' w | x \<Rightarrow> x) =
          (vpcs s)(p := Woken ?h b w)" by (rule ext)
      show ?thesis by (simp add: wakeup_buf_def e)
    qed
    then have "intr_loop s = intr_loop (reap p ?h b w s)"
      using assms(2) True hd by (subst intr_loop.simps) (simp add: reap_def Let_def)
    then show thesis using wake [OF p(1) True] reap_inv [OF assms(1,2) p(1) ret True] ret by blast
  qed
qed

lemma intr_done: "used_idx s = used_idx_dev s \<Longrightarrow> intr_loop s = Inr s \<and> returned s = []"
  by (simp add: intr_loop.simps returned_def ring_bytes_def)

lemma reap_vinfo [simp]: "vinfo (reap p h b w s) = vinfo s"
  by (simp add: reap_def)

lemma intr_rule:
  assumes "vinv s" "\<forall>h\<in>set (returned s). istatus (vinfo s h) = 0" "Q s"
    and keep: "\<And>s p h b w. vinv s \<Longrightarrow> Q s \<Longrightarrow> vpcs s p = SleepBuf h b w \<Longrightarrow> istatus (vinfo s h) = 0 \<Longrightarrow> Q (reap p h b w s)"
  shows "\<exists>t. virtio_disk_intr s = Inr t \<and> vinv t \<and> Q t \<and> returned t = []"
  using assms(1-3) unfolding virtio_disk_intr_def
proof (induction "length (returned s)" arbitrary: s rule: less_induct)
  case less
  show ?case
  proof (cases "used_idx s = used_idx_dev s")
    case True
    then show ?thesis using less.prems intr_done [of s] by blast
  next
    case False
    show ?thesis
    proof (rule intr_round [OF less.prems(1) False], goal_cases)
      case (1 h rest)
      then show ?case using less.prems(2) by simp
    next
      case (2 p h b w)
      then show ?case using less.hyps [of "reap p h b w s"] keep [OF less.prems(1,3) 2(1,2)] less.prems(2) by auto
    qed
  qed
qed

text \<open>A request that failed is never passed over: the handler panics.\<close>

lemma intr_panics:
  assumes "vinv s" "\<exists>h\<in>set (returned s). istatus (vinfo s h) \<noteq> 0"
  shows "virtio_disk_intr s = Inl (Panic ''virtio_disk_intr status'')"
  using assms unfolding virtio_disk_intr_def
proof (induction "length (returned s)" arbitrary: s rule: less_induct)
  case less
  have "used_idx s \<noteq> used_idx_dev s" using less.prems(2) intr_done [of s] by auto
  then show ?case
  proof (rule intr_round [OF less.prems(1)], goal_cases)
    case (2 p h b w)
    then show ?case using less.hyps [of "reap p h b w s"] less.prems(2) by auto
  qed
qed

lemma intr_ok_status:
  "vinv s \<Longrightarrow> virtio_disk_intr s = Inr t \<Longrightarrow> \<forall>h\<in>set (returned s). istatus (vinfo s h) = 0"
  using intr_panics [of s] by force

text \<open>The device takes the next head from the \<^verbatim>\<open>avail\<close> ring.\<close>

lemma fetch_inv:
  assumes "vinv s" "dev_fetch s = Some t"
  shows "vinv t"
proof -
  let ?h = "unat (avail_ring s ! (unat (dev_idx s) mod NUM))"
  have t: "dev_idx s \<noteq> avail_idx s" "t = s\<lparr>dev_busy := dev_busy s @ [?h], dev_idx := dev_idx s + 1\<rparr>"
    using assms(2) by (auto simp: dev_fetch_def split: if_splits)
  have "0 < ring_len (dev_idx s) (avail_idx s)" using t(1) by (metis gr0I ring_len_0)
  then have w: "mset (waiting t) = mset (waiting s)" by (simp add: waiting_def t(2) ring_get [of "dev_idx s"])
  have same: "vpcs t = vpcs s" "returned t = returned s" "avail_ring t = avail_ring s" "used_ring t = used_ring s"
    "vinfo t = vinfo s" "ondisk t = ondisk s" "bufs t = bufs s" "vdesc t = vdesc s" "vfree t = vfree s" "vops t = vops s"
    by (simp_all add: t(2) returned_def)
  have "users_ok t" by (rule users_ok_cong [of s]) (use assms(1) same in \<open>auto simp: vinv_def\<close>)
  moreover have "chains_ok t" by (rule chains_ok_cong [of s]) (use assms(1) same in \<open>auto simp: vinv_def\<close>)
  moreover have "sleepers_ok t" by (rule sleepers_ok_cong [of s]) (use assms(1) same in \<open>auto simp: vinv_def\<close>)
  moreover have "flight_ok t"
  proof -
    have "mset (waiting t @ returned s) = mset (waiting s @ returned s)" using w by simp
    then have "set (waiting t @ returned s) = set (waiting s @ returned s)" "distinct (waiting t @ returned s) = distinct (waiting s @ returned s)"
      by (metis mset_eq_setD) (metis \<open>mset (waiting t @ returned s) = mset (waiting s @ returned s)\<close> mset_eq_imp_distinct_iff)
    moreover have "set (waiting t) = set (waiting s)" using w by (metis mset_eq_setD)
    ultimately show ?thesis using assms(1) unfolding vinv_def flight_ok_def same by simp
  qed
  ultimately show ?thesis by (simp add: vinv_def)
qed

text \<open>A request is served by the atomic transfer of the block cache.\<close>

definition answered :: "nat \<Rightarrow> u8 \<Rightarrow> vst \<Rightarrow> vst" where
  "answered h st t = dev_answer h h st t"

text \<open>A transfer that failed: the destination is as it was, or holds \<open>c\<close>.\<close>

fun disk_fail :: "nat \<Rightarrow> bool \<Rightarrow> block option \<Rightarrow> 'z bst_scheme \<Rightarrow> 'z bst_scheme" where
  "disk_fail b w None s = s"
| "disk_fail b True (Some c) s =
     s\<lparr>disk := (disk s)(blockno (bufs s ! b) := c), dwrites := dwrites s @ [(blockno (bufs s ! b), c)]\<rparr>"
| "disk_fail b False (Some c) s = buf_upd b (\<lambda>x. x\<lparr>bdata := c\<rparr>) s"

text \<open>Both touch only the disk and the data of the buffers.\<close>

definition moved :: "vst \<Rightarrow> vst \<Rightarrow> bool" where
  "moved s u \<longleftrightarrow> (\<exists>bs D W. u = s\<lparr>bufs := bs, disk := D, dwrites := W\<rparr> \<and> length bs = length (bufs s) \<and>
     (\<forall>i. blockno (bs ! i) = blockno (bufs s ! i)))"

lemma moved_buf: "moved s (buf_upd b (\<lambda>x. x\<lparr>bdata := c\<rparr>) s)"
proof (cases "b < length (bufs s)")
  case True
  then show ?thesis unfolding moved_def
    by (intro exI [of _ "bufs (buf_upd b (\<lambda>x. x\<lparr>bdata := c\<rparr>) s)"] exI [of _ "disk s"] exI [of _ "dwrites s"])
      (simp add: buf_upd_def nth_list_update)
next
  case False
  then show ?thesis unfolding moved_def
    by (intro exI [of _ "bufs s"] exI [of _ "disk s"] exI [of _ "dwrites s"]) (simp add: buf_upd_def list_update_beyond)
qed

lemma moved_disk: "moved s (s\<lparr>disk := D, dwrites := W\<rparr>)"
  unfolding moved_def by (intro exI [of _ "bufs s"] exI [of _ D] exI [of _ W]) simp

lemma moved_transfer [simp]: "moved s (disk_rw b w s)" "moved s (disk_fail b w x s)"
proof -
  have e: "buf_upd b (\<lambda>y. y\<lparr>bdata := disk s (blockno y)\<rparr>) s = buf_upd b (\<lambda>y. y\<lparr>bdata := disk s (blockno (bufs s ! b))\<rparr>) s"
    by (simp add: buf_upd_def)
  show "moved s (disk_rw b w s)" using moved_buf moved_disk by (cases w) (simp_all add: disk_rw_def Let_def e)
  show "moved s (disk_fail b w x s)"
    using moved_disk [where s = s and D = "disk s" and W = "dwrites s"] moved_buf moved_disk by (cases x; cases w) simp_all
qed

lemma sector_eq:
  assumes "blockno (bufs s ! b) < 2 ^ 31"
  shows "unat (sector b s) = 2 * blockno (bufs s ! b)"
proof -
  have "unat (word_of_nat (blockno (bufs s ! b)) * 2 :: u32) = 2 * blockno (bufs s ! b)"
    using assms by (simp add: unat_word_ariths(2) unat_of_nat take_bit_eq_mod)
  then show ?thesis using assms by (simp add: sector_def unsigned_ucast_eq take_bit_eq_mod)
qed

lemma dev_request_eq:
  assumes "request_ok s h b w"
  shows "\<exists>d. dlen d = word_of_nat BSIZE \<and> (dflags d AND VRING_DESC_F_WRITE = 0 \<longleftrightarrow> w) \<and>
     dev_request f st h s = map_option (answered h st) (f (request_op b w s) d b s)"
proof -
  obtain i1 i2 where r: "h < NUM" "i1 < NUM" "i2 < NUM" "vdesc s h = desc_op h i1" "vdesc s i1 = desc_data b w i2"
    "vdesc s i2 = desc_status h" "vops s h = request_op b w s"
    using assms(1) by (auto simp: request_ok_def)
  have n: "unat (dnext (vdesc s h)) = i1" "unat (dnext (desc_data b w i2)) = i2"
    using r by (simp_all add: desc_op_def desc_data_def)
  have "dev_request f st h s = map_option (answered h st) (f (request_op b w s) (desc_data b w i2) b s)"
    unfolding answered_def using r n
    by (simp add: dev_request_def Let_def) (simp add: desc_op_def desc_data_def desc_status_def)
  then show ?thesis by (intro exI [of _ "desc_data b w i2"]) (simp add: desc_data_def)
qed

lemma dev_complete_eq:
  assumes "request_ok s h b w" "blockno (bufs s ! b) < 2 ^ 31"
  shows "dev_complete h s = Some (answered h 0 (disk_rw b w s))"
proof -
  obtain d where d: "dlen d = word_of_nat BSIZE" "dflags d AND VRING_DESC_F_WRITE = 0 \<longleftrightarrow> w"
    "dev_complete h s = map_option (answered h 0) (dev_transfer (request_op b w s) d b s)"
    using dev_request_eq [OF assms(1), of dev_transfer 0] by (auto simp: dev_complete_def)
  have "dev_transfer (request_op b w s) d b s = Some (disk_rw b w s)"
    using d(1,2) sector_eq [OF assms(2)]
    by (cases w) (simp_all add: dev_transfer_def request_op_def disk_rw_def dev_store_def dev_load_def Let_def buf_upd_def)
  then show ?thesis using d(3) by simp
qed

lemma dev_fail_eq:
  assumes "request_ok s h b w" "blockno (bufs s ! b) < 2 ^ 31"
  shows "dev_fail st x h s = Some (answered h st (disk_fail b w x s))"
proof -
  obtain d where d: "dflags d AND VRING_DESC_F_WRITE = 0 \<longleftrightarrow> w"
    "dev_fail st x h s = map_option (answered h st) (dev_partial x (request_op b w s) d b s)"
    using dev_request_eq [OF assms(1), of "dev_partial x" st] by (auto simp: dev_fail_def)
  have "dev_partial x (request_op b w s) d b s = Some (disk_fail b w x s)"
    using d(1) sector_eq [OF assms(2)]
    by (cases w; cases x) (simp_all add: dev_partial_def request_op_def dev_store_def dev_load_def)
  then show ?thesis using d(2) by simp
qed

lemma answered_simps:
  assumes "moved s u"
  shows "vpcs (answered h st u) = vpcs s" "vdesc (answered h st u) = vdesc s"
    "vfree (answered h st u) = vfree s" "vops (answered h st u) = vops s"
    "ondisk (answered h st u) = ondisk s" "avail_ring (answered h st u) = avail_ring s"
    "vinfo (answered h st u) = (vinfo s)(h := (vinfo s h)\<lparr>istatus := st\<rparr>)"
    "length (bufs (answered h st u)) = length (bufs s)"
    "length (used_ring (answered h st u)) = length (used_ring s)"
    "blockno (bufs (answered h st u) ! b') = blockno (bufs s ! b')"
    "avail_idx (answered h st u) = avail_idx s" "dev_idx (answered h st u) = dev_idx s"
    "dev_busy (answered h st u) = remove1 h (dev_busy s)" "used_idx (answered h st u) = used_idx s"
    "used_idx_dev (answered h st u) = used_idx_dev s + 1"
    "used_ring (answered h st u) = (used_ring s)[unat (used_idx_dev s) mod NUM := word_of_nat h]"
  using assms by (auto simp: answered_def dev_answer_def moved_def)

lemma answered_queues:
  assumes "vinv s" "h \<in> set (dev_busy s)" "moved s u"
  shows "returned (answered h st u) = returned s @ [h]"
    and "waiting (answered h st u) = remove1 h (waiting s)"
proof -
  have d: "distinct (waiting s @ returned s)" and h: "h \<in> set (waiting s)" using in_flight(3) [OF assms(1)] assms(2) by (simp_all add: waiting_def)
  then have "length (returned s) < NUM" using ring_room(1) [OF assms(1)] by (cases "waiting s") auto
  then have lt: "ring_len (used_idx s) (used_idx_dev s) < NUM" by (simp add: returned_def)
  have "h < NUM" using in_flight(2) [OF assms(1)] h by auto
  moreover have "length (used_ring s) = NUM" using assms(1) by (simp add: vinv_def flight_ok_def)
  then have "ring_bytes NUM ((used_ring s)[unat (used_idx_dev s) mod NUM := word_of_nat h]) (used_idx s) (used_idx_dev s + 1) =
      ring_bytes NUM (used_ring s) (used_idx s) (used_idx_dev s) @ [word_of_nat h]"
    using lt by (intro ring_put) simp_all
  ultimately show "returned (answered h st u) = returned s @ [h]"
    by (simp add: returned_def answered_simps [OF assms(3)])
  have "h \<notin> set (List.map unat (ring_bytes NUM (avail_ring s) (dev_idx s) (avail_idx s)))"
    using d assms(2) by (auto simp: waiting_def)
  then show "waiting (answered h st u) = remove1 h (waiting s)"
    by (simp add: waiting_def remove1_append answered_simps [OF assms(3)])
qed

lemma answered_inv:
  assumes "vinv s" "h \<in> set (dev_busy s)" "moved s u" "st \<in> {0, 1, 2}"
  shows "vinv (answered h st u)" (is "vinv ?t")
proof -
  note a = answered_simps [OF assms(3), of h st]
  have "users_ok ?t" by (rule users_ok_cong [of s]) (use assms(1) a in \<open>auto simp: vinv_def\<close>)
  moreover have "chains_ok ?t" by (rule chains_ok_cong [of s]) (use assms(1) a in \<open>auto simp: vinv_def\<close>)
  moreover have "sleepers_ok ?t" by (rule sleepers_ok_cong [of s]) (use assms(1) a in \<open>auto simp: vinv_def\<close>)
  moreover have "flight_ok ?t"
  proof -
    have f: "flight_ok s" using assms(1) by (simp add: vinv_def)
    have h: "h \<in> set (waiting s)" "distinct (waiting s @ returned s)"
      using assms(2) in_flight(3) [OF assms(1)] by (simp_all add: waiting_def)
    note q = answered_queues [OF assms(1-3), of st]
    have "set (waiting ?t @ returned ?t) = set (waiting s @ returned s)" "distinct (waiting ?t @ returned ?t)"
      using h by (auto simp: q set_remove1_eq)
    moreover have "\<forall>i\<in>set (waiting ?t). istatus (vinfo ?t i) = 0xff" "\<forall>i\<in>set (returned ?t). istatus (vinfo ?t i) \<in> {0, 1, 2}"
      using f h assms(4) by (auto simp: q set_remove1_eq flight_ok_def a)
    moreover have "istatus (vinfo ?t h') = 0" if "vpcs s p = Woken h' b w" for p h' b w
    proof -
      have "istatus (vinfo s h') = 0" "istatus (vinfo s h) = 0xff" using f h that unfolding flight_ok_def by blast+
      then show ?thesis using a(7) by auto
    qed
    ultimately show ?thesis using f unfolding flight_ok_def a(1,5,6,9) by simp
  qed
  ultimately show ?thesis by (simp add: vinv_def)
qed

lemma device_cases:
  assumes "vinv s" "device_ok dev" "dev s t"
  obtains (fetch) "dev_fetch s = Some t"
    | (serve) p h b w where "h \<in> set (dev_busy s)" "vpcs s p = SleepBuf h b w" "istatus (vinfo s h) = 0xff"
        "t = answered h 0 (disk_rw b w s)"
    | (fail) p h b w st x where "h \<in> set (dev_busy s)" "vpcs s p = SleepBuf h b w" "istatus (vinfo s h) = 0xff"
        "st \<in> {1, 2}" "t = answered h st (disk_fail b w x s)"
proof -
  have "dev_fetch s = Some t \<or>
     (\<exists>h\<in>set (dev_busy s). dev_complete h s = Some t \<or> (\<exists>st x. st \<in> {1, 2} \<and> dev_fail st x h s = Some t))"
    using assms(2,3) unfolding device_ok_def by blast
  then show thesis
  proof
    assume "\<exists>h\<in>set (dev_busy s). dev_complete h s = Some t \<or> (\<exists>st x. st \<in> {1, 2} \<and> dev_fail st x h s = Some t)"
    then obtain h where h: "h \<in> set (dev_busy s)"
      "dev_complete h s = Some t \<or> (\<exists>st x. st \<in> {1, 2} \<and> dev_fail st x h s = Some t)" by blast
    then have m: "h \<in> set (waiting s)" by (simp add: waiting_def)
    then obtain p b w where p: "vpcs s p = SleepBuf h b w" using in_flight(1) [OF assms(1), of h] by auto
    have i: "istatus (vinfo s h) = 0xff" using m assms(1) unfolding vinv_def flight_ok_def by blast
    note e = request_inD(1,3) [OF assms(1) disjI1, OF p]
    show thesis using h(2)
    proof
      assume "dev_complete h s = Some t"
      then show thesis using serve [OF h(1) p i] dev_complete_eq [OF e] by simp
    next
      assume "\<exists>st x. st \<in> {1, 2} \<and> dev_fail st x h s = Some t"
      then show thesis using fail [OF h(1) p i] dev_fail_eq [OF e] by auto
    qed
  qed (rule fetch)
qed

lemma vstep_inv:
  assumes "vinv s" "device_ok dev" "vstep dev s t"
  shows "vinv t"
  using assms(3)
proof cases
  case (enter p b w)
  then show ?thesis using venter_inv assms(1) by simp
next
  case (try_rw p b w)
  then show ?thesis using try_rw_inv assms(1) by blast
next
  case (resume p h b w)
  then show ?thesis using resume_eq [OF assms(1)] finish_inv [OF assms(1)] by (metis Inr_inject)
next
  case intr
  then show ?thesis using intr_rule [OF assms(1) intr_ok_status [OF assms(1) intr], of "\<lambda>_. True"] by auto
next
  case device
  show ?thesis
  proof (rule device_cases [OF assms(1,2) device], goal_cases)
    case 1
    then show ?case by (rule fetch_inv [OF assms(1)])
  next
    case (2 p h b w)
    then show ?case using answered_inv [OF assms(1) 2(1) moved_transfer(1), of 0] by simp
  next
    case (3 p h b w st x)
    then show ?case using answered_inv [OF assms(1) 3(1) moved_transfer(2), of st] by auto
  qed
next
  case (edit bs)
  then show ?thesis using edit_inv assms(1) by simp
qed

lemma vreach_inv:
  assumes "device_ok dev" "vreach dev s"
  shows "vinv s"
  using assms(2) by induction (auto intro: vinv_init vstep_inv [OF _ assms(1)])

section \<open>The driver refines the atomic transfer\<close>

text \<open>
  The specification of the driver: a process calls it, the transfer takes place at one instant between the call
  and the return, and the process returns. Where the device reports an error the destination of the transfer may
  be spoiled, and the process never returns.
\<close>

datatype apc = AOut | ATodo nat bool | ADone nat bool | AFailed nat bool

fun apc_buf :: "apc \<Rightarrow> nat option" where
  "apc_buf AOut = None"
| "apc_buf (ATodo b w) = Some b"
| "apc_buf (ADone b w) = Some b"
| "apc_buf (AFailed b w) = Some b"

inductive dstep :: "bst \<times> (nat \<Rightarrow> apc) \<Rightarrow> bst \<times> (nat \<Rightarrow> apc) \<Rightarrow> bool" where
  call: "a p = AOut \<Longrightarrow> (\<forall>q. apc_buf (a q) \<noteq> Some b) \<Longrightarrow> dstep (c, a) (c, a(p := ATodo b w))"
| transfer: "a p = ATodo b w \<Longrightarrow> dstep (c, a) (disk_rw b w c, a(p := ADone b w))"
| fail: "a p = ATodo b w \<Longrightarrow> dstep (c, a) (disk_fail b w x c, a(p := AFailed b w))"
| return: "a p = ADone b w \<Longrightarrow> dstep (c, a) (c, a(p := AOut))"
| change: "length bs = length (bufs c) \<Longrightarrow> (\<forall>b. (\<exists>q. apc_buf (a q) = Some b) \<longrightarrow> bs ! b = bufs c ! b) \<Longrightarrow>
    dstep (c, a) (c\<lparr>bufs := bs\<rparr>, a)"

definition abs_pc :: "(nat \<Rightarrow> vinfo) \<Rightarrow> vpc \<Rightarrow> apc" where
  "abs_pc f x = (case x of Outside \<Rightarrow> AOut | Trying b w \<Rightarrow> ATodo b w | SleepFree b w \<Rightarrow> ATodo b w
     | SleepBuf h b w \<Rightarrow> if istatus (f h) = 0 then ADone b w else if istatus (f h) = 0xff then ATodo b w else AFailed b w
     | Woken h b w \<Rightarrow> if istatus (f h) = 0 then ADone b w else if istatus (f h) = 0xff then ATodo b w else AFailed b w)"

definition abs_vst :: "vst \<Rightarrow> bst \<times> (nat \<Rightarrow> apc)" where
  "abs_vst s = (bst.truncate s, \<lambda>p. abs_pc (vinfo s) (vpcs s p))"

lemma abs_pc_buf [simp]: "apc_buf (abs_pc f x) = buf_of x"
  by (cases x) (auto simp: abs_pc_def)

lemma abs_pc_woken [simp]: "abs_pc f (vwoken P p) = abs_pc f (P p)"
  by (auto simp: abs_pc_def vwoken_def split: vpc.splits)

lemma truncate_disk_rw: "bst.truncate (disk_rw b w s) = disk_rw b w (bst.truncate s)"
  by (simp add: disk_rw_def buf_upd_def bst.defs Let_def)

lemma truncate_disk_fail: "bst.truncate (disk_fail b w x s) = disk_fail b w x (bst.truncate s)"
  by (cases x; cases w) (simp_all add: buf_upd_def bst.defs)

lemma abs_eqI:
  assumes "bst.truncate t = bst.truncate s" "\<And>p. abs_pc (vinfo t) (vpcs t p) = abs_pc (vinfo s) (vpcs s p)"
  shows "abs_vst t = abs_vst s"
  using assms by (simp add: abs_vst_def)

text \<open>Requests of different processes have different heads, so the status of one says nothing of another.\<close>

lemma abs_pc_other:
  assumes "vinv s" "request_of (vpcs s p) = Some (h, b, w)" "q \<noteq> p"
  shows "abs_pc ((vinfo s)(h := x)) (vpcs s q) = abs_pc (vinfo s) (vpcs s q)"
proof -
  have "h' \<noteq> h" if "request_of (vpcs s q) = Some (h', b', w')" for h' b' w'
  proof -
    have "set (vchain s h) \<inter> set (vchain s h') = {}" using assms that unfolding vinv_def chains_ok_def by blast
    then show ?thesis using request_ok_head(3) by blast
  qed
  then show ?thesis by (cases "vpcs s q") (auto simp: abs_pc_def)
qed

lemma abs_pc_free:
  assumes "vinv s" "vfree s i"
  shows "abs_pc ((vinfo s)(i := x)) (vpcs s q) = abs_pc (vinfo s) (vpcs s q)"
proof -
  have "h \<noteq> i" if "request_of (vpcs s q) = Some (h, b, w)" for h b w
  proof -
    have "request_ok s h b w" using assms(1) that unfolding vinv_def chains_ok_def by blast
    then show ?thesis using assms(2) by (auto simp: request_ok_def)
  qed
  then show ?thesis by (cases "vpcs s q") (auto simp: abs_pc_def)
qed

lemma abs_answered:
  assumes "vinv s" "vpcs s p = SleepBuf h b w" "moved s u"
  shows "abs_vst (answered h st u) =
    (bst.truncate u, (\<lambda>q. abs_pc (vinfo s) (vpcs s q))(p := abs_pc (\<lambda>_. \<lparr>ibuf = None, istatus = st\<rparr>) (SleepBuf h b w)))"
proof -
  note a = answered_simps [OF assms(3), of h st]
  have "abs_pc (vinfo (answered h st u)) (vpcs s q) =
      ((\<lambda>q. abs_pc (vinfo s) (vpcs s q))(p := abs_pc (\<lambda>_. \<lparr>ibuf = None, istatus = st\<rparr>) (SleepBuf h b w))) q" for q
    using abs_pc_other [OF assms(1), of p h b w q] assms(2) unfolding a(7) by (simp add: abs_pc_def)
  moreover have "bst.truncate (answered h st u) = bst.truncate u" by (simp add: answered_def dev_answer_def bst.defs)
  ultimately show ?thesis by (simp add: abs_vst_def fun_eq_iff a(1))
qed

lemma abs_served:
  assumes "vinv s" "vpcs s p = SleepBuf h b w" "istatus (vinfo s h) = 0xff"
  shows "dstep (abs_vst s) (abs_vst (answered h 0 (disk_rw b w s)))"
    and "st \<in> {1, 2} \<Longrightarrow> dstep (abs_vst s) (abs_vst (answered h st (disk_fail b w x s)))"
proof -
  let ?a = "\<lambda>q. abs_pc (vinfo s) (vpcs s q)"
  have todo: "?a p = ATodo b w" using assms(2,3) by (simp add: abs_pc_def)
  show "dstep (abs_vst s) (abs_vst (answered h 0 (disk_rw b w s)))"
    using transfer [of ?a, OF todo, of "bst.truncate s"] abs_answered [OF assms(1,2) moved_transfer(1), of 0 b w]
    by (simp add: truncate_disk_rw abs_pc_def [of _ "SleepBuf h b w"] abs_vst_def [of s])
  assume st: "st \<in> {1, 2}"
  then have n: "st \<noteq> 0" "st \<noteq> 0xff" by auto
  show "dstep (abs_vst s) (abs_vst (answered h st (disk_fail b w x s)))"
    using dstep.fail [of ?a, OF todo, of "bst.truncate s" x] abs_answered [OF assms(1,2) moved_transfer(2), of st b w x] n
    by (simp add: truncate_disk_fail abs_pc_def [of _ "SleepBuf h b w"] abs_vst_def [of s])
qed

lemma abs_finish:
  assumes "vinv s" "vpcs s p = Woken h b w"
  shows "dstep (abs_vst s) (abs_vst (finish p h s))"
proof -
  have "istatus (vinfo s h) = 0" using assms unfolding vinv_def flight_ok_def by blast
  moreover have "abs_pc (vinfo (finish p h s)) (vpcs (finish p h s) q) = ((\<lambda>q. abs_pc (vinfo s) (vpcs s q))(p := AOut)) q" for q
    using abs_pc_other [OF assms(1), of p h b w q] assms(2) by (simp add: finish_def) (simp add: abs_pc_def)
  then have "abs_vst (finish p h s) = (bst.truncate s, (\<lambda>q. abs_pc (vinfo s) (vpcs s q))(p := AOut))"
    by (simp add: abs_vst_def fun_eq_iff finish_def bst.defs)
  ultimately show ?thesis using return [of "\<lambda>q. abs_pc (vinfo s) (vpcs s q)" p b w "bst.truncate s"] assms(2)
    by (simp add: abs_vst_def abs_pc_def)
qed

text \<open>Every step of the driver, the device and the interrupt handler is a step of the specification, or none.\<close>

lemma abs_intr:
  assumes "vinv s" "virtio_disk_intr s = Inr t"
  shows "abs_vst t = abs_vst s"
proof -
  have "abs_vst (reap p h b w u) = abs_vst u" if "vpcs u p = SleepBuf h b w" for u p h b w
    using that by (intro abs_eqI) (auto simp: reap_def abs_pc_def bst.defs)
  then show ?thesis
    using intr_rule [OF assms(1) intr_ok_status [OF assms], of "\<lambda>u. abs_vst u = abs_vst s"] assms(2) by auto
qed

lemma abs_try:
  assumes "vinv s" "vpcs s p = Trying b w" "virtio_disk_rw p b w s = Inr t"
  shows "abs_vst t = abs_vst s"
proof (rule virtio_disk_rw_cases [of s p b w], goal_cases)
  case (1 i0 i1 i2)
  have t: "t = submit p b w i0 i1 i2 s" using 1(8) assms(3) by simp
  show ?case
  proof (rule abs_eqI)
    show "bst.truncate t = bst.truncate s"
      by (simp add: t submit_def goto_def notify_def format_request_def bst.defs)
    show "abs_pc (vinfo t) (vpcs t q) = abs_pc (vinfo s) (vpcs s q)" for q
      using abs_pc_free [OF assms(1) 1(5)] assms(2) by (cases "q = p") (simp_all add: t, simp add: abs_pc_def)
  qed
next
  case (2 D P)
  then have t: "t = goto p (SleepFree b w) (s\<lparr>vdesc := D, vpcs := P\<rparr>)" using assms(3) by simp
  show ?case
  proof (rule abs_eqI)
    show "bst.truncate t = bst.truncate s" by (simp add: t goto_def bst.defs)
    show "abs_pc (vinfo t) (vpcs t q) = abs_pc (vinfo s) (vpcs s q)" for q
      using assms(2) 2(2) by (cases "q = p") (auto simp: t goto_def, auto simp: abs_pc_def)
  qed
qed

lemma abs_edit: "bst.truncate (s\<lparr>bufs := bs\<rparr>) = (bst.truncate s)\<lparr>bufs := bs\<rparr>"
  by (simp add: bst.defs)

text \<open>
  C4: for every device that keeps to the virtio specification, devices that report errors included, each step of a
  reachable state, by a process in \<^verbatim>\<open>virtio_disk_rw\<close>, by the device or by the interrupt handler, is either invisible
  or a step of the specification \<open>dstep\<close>: a transfer happens once, at one instant between its call and its return,
  and moves the right block. A request that the device fails spoils at most its own block or buffer, and the
  process that made it never returns from \<^verbatim>\<open>virtio_disk_rw\<close>.
\<close>

theorem virtio_refines_disk:
  assumes "device_ok dev" "vreach dev s" "vstep dev s t"
  shows "abs_vst t = abs_vst s \<or> dstep (abs_vst s) (abs_vst t)"
proof -
  have v: "vinv s" using vreach_inv [OF assms(1,2)] .
  from assms(3) show ?thesis
  proof cases
    case (enter p b w)
    have "abs_vst t = (bst.truncate s, (\<lambda>q. abs_pc (vinfo s) (vpcs s q))(p := ATodo b w))"
      by (auto simp: abs_vst_def enter goto_def bst.defs abs_pc_def fun_eq_iff)
    then show ?thesis using call [of "\<lambda>q. abs_pc (vinfo s) (vpcs s q)" p b "bst.truncate s" w] enter(2,3)
      by (auto simp: abs_vst_def in_use_def) (simp add: abs_pc_def)
  next
    case (try_rw p b w)
    then show ?thesis using abs_try [OF v] by blast
  next
    case (resume p h b w)
    then show ?thesis using abs_finish [OF v] resume_eq [OF v] by (metis Inr_inject)
  next
    case intr
    then show ?thesis using abs_intr [OF v] by blast
  next
    case device
    then show ?thesis
    proof (rule device_cases [OF v assms(1)], goal_cases)
      case 1
      then have "abs_vst t = abs_vst s" by (intro abs_eqI) (auto simp: dev_fetch_def bst.defs split: if_splits)
      then show ?thesis ..
    next
      case (2 p h b w)
      then show ?thesis using abs_served(1) [OF v] by simp
    next
      case (3 p h b w st x)
      then show ?thesis using abs_served(2) [OF v] by simp
    qed
  next
    case (edit bs)
    have "dstep (abs_vst s) ((bst.truncate s)\<lparr>bufs := bs\<rparr>, \<lambda>p. abs_pc (vinfo s) (vpcs s p))"
      unfolding abs_vst_def using edit(2,3) by (intro change) (auto simp: in_use_def bst.defs)
    then show ?thesis unfolding edit(1) by (simp add: abs_vst_def abs_edit)
  qed
qed

section \<open>The driver panics only on an error of the device, and no wakeup is lost\<close>

lemma intr_wakes:
  assumes "vinv s"
  shows "if \<exists>h\<in>set (returned s). istatus (vinfo s h) \<noteq> 0 then virtio_disk_intr s = Inl (Panic ''virtio_disk_intr status'')
    else \<exists>t. virtio_disk_intr s = Inr t \<and> returned t = [] \<and>
      (\<forall>p. vpcs t p = (case vpcs s p of SleepBuf h b w \<Rightarrow> if h \<in> set (returned s) then Woken h b w else SleepBuf h b w | x \<Rightarrow> x))"
proof (cases "\<exists>h\<in>set (returned s). istatus (vinfo s h) \<noteq> 0")
  case True
  then show ?thesis using intr_panics [OF assms] by simp
next
  case False
  have v: "vinv s" by (rule assms)
  define Q where "Q u \<longleftrightarrow> waiting u = waiting s \<and>
    (\<forall>p. vpcs u p = vpcs s p \<or> (\<exists>h b w. vpcs s p = SleepBuf h b w \<and> vpcs u p = Woken h b w))" for u
  have "Q s" by (auto simp: Q_def)
  moreover have "Q (reap p h b w u)" if q: "Q u" and u: "vpcs u p = SleepBuf h b w" for u p h b w
  proof -
    have "vpcs s p = SleepBuf h b w" using q u unfolding Q_def by (metis vpc.distinct(19))
    then show ?thesis using q by (simp add: Q_def reap_def waiting_def)
  qed
  ultimately obtain t where t: "virtio_disk_intr s = Inr t" "vinv t" "Q t" "returned t = []"
    using intr_rule [OF v, of Q] False by blast
  have "vpcs t p = (case vpcs s p of SleepBuf h b w \<Rightarrow> if h \<in> set (returned s) then Woken h b w else SleepBuf h b w | x \<Rightarrow> x)" for p
  proof (cases "vpcs s p")
    case (SleepBuf h b w)
    have w: "waiting t = waiting s" using t(3) by (simp add: Q_def)
    have pt: "vpcs t p = SleepBuf h b w \<or> vpcs t p = Woken h b w" 
    proof -
      have "vpcs t p = vpcs s p \<or> (\<exists>h b w. vpcs s p = SleepBuf h b w \<and> vpcs t p = Woken h b w)" using t(3) by (simp add: Q_def)
      then show ?thesis using SleepBuf by auto
    qed
    show ?thesis
    proof (cases "h \<in> set (returned s)")
      case True
      then have "h \<notin> set (waiting t @ returned t)" using in_flight(3) [OF v] by (auto simp: w t(4))
      then have "vpcs t p \<noteq> SleepBuf h b w" using t(2) unfolding vinv_def flight_ok_def by blast
      then show ?thesis using pt True SleepBuf by simp
    next
      case False
      have "h \<in> set (waiting s @ returned s)" using v SleepBuf unfolding vinv_def flight_ok_def by blast
      then have "h \<in> set (waiting t @ returned t)" using False by (simp add: w)
      then obtain q b' w' where q: "vpcs t q = SleepBuf h b' w'" using in_flight(1) [OF t(2)] by blast
      have "q = p"
      proof (rule ccontr)
        assume "q \<noteq> p"
        moreover have "request_of (vpcs t q) = Some (h, b', w')" using q by simp
        ultimately have "set (vchain t h) \<inter> set (vchain t h) = {}" using request_inD(5) [OF t(2) pt] by blast
        then show False using request_ok_head(3) by blast
      qed
      then show ?thesis using pt q False SleepBuf by auto
    qed
  qed (use t(3) in \<open>simp add: Q_def, metis vpc.distinct\<close>)+
  then show ?thesis using t False by auto
qed

text \<open>
  C21: in every reachable state, with any device of the virtio specification: when every request that the device has
  returned succeeded, \<^verbatim>\<open>virtio_disk_intr\<close> returns without panic, has then seen all of them, and has woken exactly the
  processes that wait for these; when one of them has an error status, it panics with its status message.
\<close>

theorem virtio_intr_wakes:
  assumes "device_ok dev" "vreach dev s"
  shows "if \<exists>h\<in>set (returned s). istatus (vinfo s h) \<noteq> 0 then virtio_disk_intr s = Inl (Panic ''virtio_disk_intr status'')
    else \<exists>t. virtio_disk_intr s = Inr t \<and> returned t = [] \<and>
      (\<forall>p. vpcs t p = (case vpcs s p of SleepBuf h b w \<Rightarrow> if h \<in> set (returned s) then Woken h b w else SleepBuf h b w | x \<Rightarrow> x))"
  by (rule intr_wakes [OF vreach_inv [OF assms]])

text \<open>
  C14: no wakeup is lost, and \<^verbatim>\<open>virtio_disk_rw\<close> never panics. In a reachable state, with any device of the virtio
  specification, a process that tries for descriptors can run; one asleep for want of descriptors has another process
  that holds some; one asleep on its buffer has a request that the device can fetch, can serve, or has returned, and
  in the last case the next interrupt wakes the process or, if the device has reported an error for this or
  another request, panics; one that was woken frees its chain and leaves the driver.
\<close>

theorem virtio_never_stuck:
  assumes "device_ok dev" "vreach dev s"
  shows "case vpcs s p of
      Outside \<Rightarrow> True
    | Trying b w \<Rightarrow> \<exists>t. virtio_disk_rw p b w s = Inr t \<and> (vpcs t p = SleepFree b w \<or> (\<exists>h. vpcs t p = SleepBuf h b w))
    | SleepFree b w \<Rightarrow> \<exists>q h b' w'. vpcs s q = SleepBuf h b' w' \<or> vpcs s q = Woken h b' w'
    | SleepBuf h b w \<Rightarrow> dev_fetch s \<noteq> None \<or> h \<in> set (dev_busy s) \<and> dev_complete h s \<noteq> None \<or>
        h \<in> set (returned s) \<and> ((\<exists>t. virtio_disk_intr s = Inr t \<and> vpcs t p = Woken h b w) \<or>
          (\<exists>i\<in>set (returned s). istatus (vinfo s i) \<in> {1, 2}) \<and> virtio_disk_intr s = Inl (Panic ''virtio_disk_intr status''))
    | Woken h b w \<Rightarrow> \<exists>t. virtio_disk_rw_resume p h b w s = Inr t \<and> vpcs t p = Outside"
proof -
  have v: "vinv s" using vreach_inv [OF assms] .
  show ?thesis
  proof (cases "vpcs s p")
    case Outside
    then show ?thesis by simp
  next
    case (Trying b w)
    have "\<exists>t. virtio_disk_rw p b w s = Inr t \<and> (vpcs t p = SleepFree b w \<or> (\<exists>h. vpcs t p = SleepBuf h b w))"
      by (rule virtio_disk_rw_cases [of s p b w]) (simp_all add: goto_def)
    then show ?thesis using Trying by simp
  next
    case (SleepFree b w)
    have "\<exists>i<NUM. \<not> vfree s i"
    proof (rule ccontr)
      assume "\<not> (\<exists>i<NUM. \<not> vfree s i)"
      then have e: "{i. i < NUM \<and> vfree s i} = {..<NUM}" by auto
      have "card {i. i < NUM \<and> vfree s i} < 3" using v SleepFree unfolding vinv_def sleepers_ok_def by blast
      then show False unfolding e by simp
    qed
    then have "\<exists>q h b' w'. request_of (vpcs s q) = Some (h, b', w')" using v unfolding vinv_def chains_ok_def by blast
    then show ?thesis using SleepFree by (simp add: request_cases)
  next
    case (SleepBuf h b w)
    have "h \<in> set (waiting s @ returned s)" using v SleepBuf unfolding vinv_def flight_ok_def by blast
    moreover have "dev_fetch s \<noteq> None" if "h \<in> set (List.map unat (ring_bytes NUM (avail_ring s) (dev_idx s) (avail_idx s)))"
      using that by (auto simp: dev_fetch_def ring_bytes_def)
    moreover have "dev_complete h s \<noteq> None"
      using dev_complete_eq request_inD(1,3) [OF v disjI1, OF SleepBuf] by simp
    moreover have "(\<exists>t. virtio_disk_intr s = Inr t \<and> vpcs t p = Woken h b w) \<or>
        (\<exists>i\<in>set (returned s). istatus (vinfo s i) \<in> {1, 2}) \<and> virtio_disk_intr s = Inl (Panic ''virtio_disk_intr status'')"
      if r: "h \<in> set (returned s)"
    proof (cases "\<exists>i\<in>set (returned s). istatus (vinfo s i) \<noteq> 0")
      case True
      then obtain i where i: "i \<in> set (returned s)" "istatus (vinfo s i) \<noteq> 0" by blast
      moreover from this have "istatus (vinfo s i) \<in> {0, 1, 2}" using v unfolding vinv_def flight_ok_def by blast
      ultimately show ?thesis using intr_wakes [OF v] True by auto
    next
      case False
      then obtain t where "virtio_disk_intr s = Inr t"
        "\<forall>p. vpcs t p = (case vpcs s p of SleepBuf h b w \<Rightarrow> if h \<in> set (returned s) then Woken h b w else SleepBuf h b w | x \<Rightarrow> x)"
        using intr_wakes [OF v] by auto
      then show ?thesis using SleepBuf r by simp
    qed
    ultimately show ?thesis using SleepBuf unfolding waiting_def set_append by auto
  next
    case (Woken h b w)
    then show ?thesis using resume_eq [OF v] by (simp add: finish_def)
  qed
qed

section \<open>A run\<close>

text \<open>One process writes one buffer; the device takes the request and serves it.\<close>

definition vdev :: "vst \<Rightarrow> vst \<Rightarrow> bool" where
  "vdev s t \<longleftrightarrow> dev_fetch s = Some t \<or>
     (\<exists>h\<in>set (dev_busy s). dev_complete h s = Some t \<or> dev_fail 1 None h s = Some t)"

lemma vdev_ok: "device_ok vdev"
  unfolding device_ok_def vdev_def by blast

definition disk_run0 :: vst where
  "disk_run0 = \<lparr>bufs = [\<lparr>bvalid = True, bdev = 1, blockno = 7, block = initsleeplock, refcnt = 1, bdata = [5, 6]\<rparr>],
     lru = [0], disk = (\<lambda>_. []), dwrites = [], curpid = 1, wakes = [],
     vdesc = (\<lambda>_. no_desc), avail_ring = replicate NUM 0, avail_idx = 0xffff, used_ring = replicate NUM 0, used_idx_dev = 0xffff,
     vfree = (\<lambda>_. True), used_idx = 0xffff, vinfo = (\<lambda>_. \<lparr>ibuf = None, istatus = 0\<rparr>),
     vops = (\<lambda>_. \<lparr>rtype = 0, rreserved = 0, rsector = 0\<rparr>), ondisk = (\<lambda>_. False), vpcs = (\<lambda>_. Outside),
     dev_idx = 0xffff, dev_busy = []\<rparr>"

definition disk_run1 :: vst where "disk_run1 = goto 3 (Trying 0 True) disk_run0"
definition disk_run2 :: vst where "disk_run2 = submit 3 0 True 0 1 2 disk_run1"
definition disk_run3 :: vst where "disk_run3 = disk_run2\<lparr>dev_busy := [0], dev_idx := 0\<rparr>"
definition disk_run4 :: vst where "disk_run4 = answered 0 0 (disk_rw 0 True disk_run3)"
definition disk_run5 :: vst where "disk_run5 = answered 0 1 (disk_fail 0 True None disk_run3)"

lemma disk_run_alloc:
  "virtio_disk_rw 3 0 True disk_run1 = Inr disk_run2"
proof -
  have f: "vfree s 0 \<Longrightarrow> alloc_desc s = (Some 0, s\<lparr>vfree := (vfree s)(0 := False)\<rparr>)"
    "\<not> vfree s 0 \<Longrightarrow> vfree s 1 \<Longrightarrow> alloc_desc s = (Some 1, s\<lparr>vfree := (vfree s)(1 := False)\<rparr>)"
    "\<not> vfree s 0 \<Longrightarrow> \<not> vfree s 1 \<Longrightarrow> vfree s 2 \<Longrightarrow> alloc_desc s = (Some 2, s\<lparr>vfree := (vfree s)(2 := False)\<rparr>)" for s
    by (simp_all add: alloc_desc_def alloc_desc_from.simps numeral_2_eq_2)
  have "alloc3_desc disk_run1 = Inr (Some [0, 1, 2], disk_run1\<lparr>vfree := (vfree disk_run1)(0 := False, 1 := False, 2 := False)\<rparr>)"
    by (simp add: alloc3_desc_def alloc3_loop.simps f disk_run1_def goto_def disk_run0_def)
  then show ?thesis by (simp add: virtio_disk_rw_def disk_run2_def submit_def)
qed

lemma disk_run_steps: "vreach vdev disk_run0" "vstep vdev disk_run0 disk_run1" "vstep vdev disk_run1 disk_run2" "vstep vdev disk_run2 disk_run3"
proof -
  show "vreach vdev disk_run0" by (rule vreach.init) (simp add: vinit_def disk_run0_def)
  show "vstep vdev disk_run0 disk_run1" unfolding disk_run1_def
    by (rule vstep.enter) (simp_all add: disk_run0_def in_use_def)
  have "vpcs disk_run1 3 = Trying 0 True" by (simp add: disk_run1_def goto_def)
  then show "vstep vdev disk_run1 disk_run2" using disk_run_alloc by (rule vstep.try_rw)
  have "dev_fetch disk_run2 = Some disk_run3"
    by (simp add: dev_fetch_def disk_run3_def disk_run2_def disk_run1_def disk_run0_def submit_def goto_def notify_def format_request_def)
  then show "vstep vdev disk_run2 disk_run3" by (intro vstep.device) (simp add: vdev_def)
qed

lemma disk_run3: "vreach vdev disk_run3" "vpcs disk_run3 3 = SleepBuf 0 0 True" "dev_busy disk_run3 = [0]" "returned disk_run3 = []"
proof -
  show "vreach vdev disk_run3" using disk_run_steps by (blast intro: vreach.step)
  show "vpcs disk_run3 3 = SleepBuf 0 0 True" "dev_busy disk_run3 = [0]" by (simp_all add: disk_run3_def disk_run2_def)
  show "returned disk_run3 = []"
    by (simp add: disk_run3_def disk_run2_def disk_run1_def disk_run0_def submit_def goto_def notify_def format_request_def returned_def ring_bytes_def)
qed

lemma disk_run4: "vstep vdev disk_run3 disk_run4" "vreach vdev disk_run4" "vpcs disk_run4 3 = SleepBuf 0 0 True" "returned disk_run4 = [0]"
proof -
  have v: "vinv disk_run3" using vreach_inv [OF vdev_ok disk_run3(1)] .
  have "dev_complete 0 disk_run3 = Some disk_run4"
    using dev_complete_eq request_inD(1,3) [OF v disjI1, OF disk_run3(2)] by (simp add: disk_run4_def)
  then show "vstep vdev disk_run3 disk_run4" by (intro vstep.device) (simp add: vdev_def disk_run3(3))
  then show "vreach vdev disk_run4" using disk_run3(1) by (blast intro: vreach.step)
  show "vpcs disk_run4 3 = SleepBuf 0 0 True" using disk_run3(2) by (simp add: disk_run4_def answered_simps(1) [OF moved_transfer(1)])
  show "returned disk_run4 = [0]" using answered_queues(1) [OF v, of 0] disk_run3(3,4) by (simp add: disk_run4_def)
qed

lemma disk_run5: "vreach vdev disk_run5" "returned disk_run5 = [0]" "istatus (vinfo disk_run5 0) = 1"
proof -
  have v: "vinv disk_run3" using vreach_inv [OF vdev_ok disk_run3(1)] .
  have "dev_fail 1 None 0 disk_run3 = Some disk_run5"
    using dev_fail_eq request_inD(1,3) [OF v disjI1, OF disk_run3(2)] by (simp only: disk_run5_def)
  then have "vstep vdev disk_run3 disk_run5" by (intro vstep.device) (simp add: vdev_def disk_run3(3))
  then show "vreach vdev disk_run5" using disk_run3(1) by (blast intro: vreach.step)
  have m: "moved disk_run3 (disk_fail 0 True None disk_run3)" by (rule moved_transfer)
  show "returned disk_run5 = [0]" using answered_queues(1) [OF v _ m, of 0] disk_run3(3,4) by (simp add: disk_run5_def)
  show "istatus (vinfo disk_run5 0) = 1" unfolding disk_run5_def answered_simps(7) [OF m] by simp
qed

theorem virtio_refines_disk_witness: "abs_vst disk_run4 = abs_vst disk_run3 \<or> dstep (abs_vst disk_run3) (abs_vst disk_run4)"
  using virtio_refines_disk [OF vdev_ok disk_run3(1) disk_run4(1)] .

theorem virtio_intr_wakes_witness:
  "(\<exists>t. virtio_disk_intr disk_run4 = Inr t \<and> vpcs t 3 = Woken 0 0 True) \<and>
    virtio_disk_intr disk_run5 = Inl (Panic ''virtio_disk_intr status'')"
proof -
  have "istatus (vinfo disk_run4 0) = 0" unfolding disk_run4_def answered_simps(7) [OF moved_transfer(1)] by simp
  then obtain t where "virtio_disk_intr disk_run4 = Inr t"
    "vpcs t 3 = (case vpcs disk_run4 3 of SleepBuf h b w \<Rightarrow> if h \<in> set (returned disk_run4) then Woken h b w else SleepBuf h b w | x \<Rightarrow> x)"
    using virtio_intr_wakes [OF vdev_ok disk_run4(2)] disk_run4(4) by auto
  then show ?thesis using disk_run4(3,4) virtio_intr_wakes [OF vdev_ok disk_run5(1)] disk_run5 by simp
qed

theorem virtio_never_stuck_witness:
  "vpcs disk_run3 3 = SleepBuf 0 0 True \<and> ((\<exists>t. dev_fetch disk_run3 = Some t) \<or>
     0 \<in> set (dev_busy disk_run3) \<and> (\<exists>t. dev_complete 0 disk_run3 = Some t) \<or> 0 \<in> set (returned disk_run3))"
  using virtio_never_stuck [OF vdev_ok disk_run3(1), of 3] disk_run3(2) by auto

end
