(* ===== verification/VirtioInit.thy ===== *)
theory VirtioInit
  imports Kalloc
begin

unbundle bit_operations_syntax

text \<open>
  \<^verbatim>\<open>virtio_disk_init\<close> (\<^verbatim>\<open>kernel/virtio_disk.c\<close>): the handshake that finds the disk, agrees on features and
  gives the device the memory of the queue. The registers belong to the device: what a read of register \<open>r\<close>
  returns is a parameter \<open>rd r ws\<close>, which may depend on the list \<open>ws\<close> of the writes made so far.
\<close>

section \<open>Registers\<close>

abbreviation (input) R_MAGIC :: nat where "R_MAGIC \<equiv> 0x000"
abbreviation (input) R_VERSION :: nat where "R_VERSION \<equiv> 0x004"
abbreviation (input) R_DEVICE_ID :: nat where "R_DEVICE_ID \<equiv> 0x008"
abbreviation (input) R_VENDOR_ID :: nat where "R_VENDOR_ID \<equiv> 0x00c"
abbreviation (input) R_DEVICE_FEATURES :: nat where "R_DEVICE_FEATURES \<equiv> 0x010"
abbreviation (input) R_DRIVER_FEATURES :: nat where "R_DRIVER_FEATURES \<equiv> 0x020"
abbreviation (input) R_QUEUE_SEL :: nat where "R_QUEUE_SEL \<equiv> 0x030"
abbreviation (input) R_QUEUE_NUM_MAX :: nat where "R_QUEUE_NUM_MAX \<equiv> 0x034"
abbreviation (input) R_QUEUE_NUM :: nat where "R_QUEUE_NUM \<equiv> 0x038"
abbreviation (input) R_QUEUE_READY :: nat where "R_QUEUE_READY \<equiv> 0x044"
abbreviation (input) R_STATUS :: nat where "R_STATUS \<equiv> 0x070"

type_synonym reg_writes = "(nat \<times> u32) list"
type_synonym reg_reads = "nat \<Rightarrow> reg_writes \<Rightarrow> u32"

record vboot = km +
  mmio :: reg_writes
  qdesc :: nat
  qavail :: nat
  qused :: nat
  qfree :: "nat \<Rightarrow> bool"

definition reg_write :: "nat \<Rightarrow> u32 \<Rightarrow> vboot \<Rightarrow> vboot" where
  "reg_write r v s = s\<lparr>mmio := mmio s @ [(r, v)]\<rparr>"

definition reg_write64 :: "nat \<Rightarrow> nat \<Rightarrow> vboot \<Rightarrow> vboot" where
  "reg_write64 r a s = reg_write (r + 4) (word_of_nat (a div 2 ^ 32)) (reg_write r (word_of_nat a) s)"

text \<open>The features the driver declines: read-only, SCSI, cache mode, multi-queue, layout, event index, indirect.\<close>

definition blk_features :: "u64 \<Rightarrow> u64" where
  "blk_features f = f AND NOT (push_bit 5 1) AND NOT (push_bit 7 1) AND NOT (push_bit 11 1) AND NOT (push_bit 12 1)
     AND NOT (push_bit 27 1) AND NOT (push_bit 29 1) AND NOT (push_bit 28 1)"

section \<open>The handshake\<close>

definition virtio_negotiate :: "reg_reads \<Rightarrow> vboot \<Rightarrow> vboot" where
  "virtio_negotiate rd s =
     (let s1 = reg_write R_STATUS 0 s;
          s2 = reg_write R_STATUS 1 s1;
          s3 = reg_write R_STATUS (1 OR 2) s2;
          features = blk_features (ucast (rd R_DEVICE_FEATURES (mmio s3)));
          s4 = reg_write R_DRIVER_FEATURES (ucast features) s3
      in reg_write R_STATUS (1 OR 2 OR 8) s4)"

definition virtio_queue_memory :: "vboot \<Rightarrow> vboot res" where
  "virtio_queue_memory s =
     (let (d, s1) = kalloc s; (a, s2) = kalloc s1; (u, s3) = kalloc s2 in
      if d = 0 \<or> a = 0 \<or> u = 0 then Inl (Panic ''virtio disk kalloc'')
      else
        let m = memset (memset (memset (mem s3) d 0 PGSIZE) a 0 PGSIZE) u 0 PGSIZE;
            s4 = reg_write R_QUEUE_NUM 8 (s3\<lparr>mem := m, qdesc := d, qavail := a, qused := u\<rparr>)
        in Inr (reg_write64 0x0a0 u (reg_write64 0x090 a (reg_write64 0x080 d s4))))"

definition virtio_disk_init :: "reg_reads \<Rightarrow> vboot \<Rightarrow> vboot res" where
  "virtio_disk_init rd s =
     (if rd R_MAGIC (mmio s) \<noteq> 0x74726976 \<or> rd R_VERSION (mmio s) \<noteq> 2 \<or> rd R_DEVICE_ID (mmio s) \<noteq> 2 \<or>
         rd R_VENDOR_ID (mmio s) \<noteq> 0x554d4551 then Inl (Panic ''could not find virtio disk'')
      else
        let s1 = virtio_negotiate rd s; status = rd R_STATUS (mmio s1) in
        if status AND 8 = 0 then Inl (Panic ''virtio disk FEATURES_OK unset'')
        else
          let s2 = reg_write R_QUEUE_SEL 0 s1 in
          if rd R_QUEUE_READY (mmio s2) \<noteq> 0 then Inl (Panic ''virtio disk should not be ready'')
          else
            let max = rd R_QUEUE_NUM_MAX (mmio s2) in
            if max = 0 then Inl (Panic ''virtio disk has no queue 0'')
            else if max < 8 then Inl (Panic ''virtio disk max queue too short'')
            else
              bnd (virtio_queue_memory s2) (\<lambda>s3.
              let s4 = (reg_write R_QUEUE_READY 1 s3)\<lparr>qfree := (\<lambda>i. i < 8 \<or> qfree s i)\<rparr> in
              Inr (reg_write R_STATUS (status OR 4) s4)))"

section \<open>The device accepted, and the order of the writes\<close>

text \<open>The answers of a device that the driver can use.\<close>

definition negotiated :: "reg_reads \<Rightarrow> reg_writes" where
  "negotiated rd =
     (let w = [(R_STATUS, 0), (R_STATUS, 1), (R_STATUS, 3)] in
      w @ [(R_DRIVER_FEATURES, ucast (blk_features (ucast (rd R_DEVICE_FEATURES w)))), (R_STATUS, 11)])"

definition usable :: "reg_reads \<Rightarrow> bool" where
  "usable rd \<longleftrightarrow> rd R_MAGIC [] = 0x74726976 \<and> rd R_VERSION [] = 2 \<and> rd R_DEVICE_ID [] = 2 \<and> rd R_VENDOR_ID [] = 0x554d4551 \<and>
     rd R_STATUS (negotiated rd) AND 8 \<noteq> 0 \<and> rd R_QUEUE_READY (negotiated rd @ [(R_QUEUE_SEL, 0)]) = 0 \<and>
     8 \<le> rd R_QUEUE_NUM_MAX (negotiated rd @ [(R_QUEUE_SEL, 0)])"

text \<open>An address written to a register as two halves.\<close>

definition told :: "reg_writes \<Rightarrow> nat \<Rightarrow> nat \<Rightarrow> bool" where
  "told ws r a \<longleftrightarrow> (\<exists>lo hi. (r, lo) \<in> set ws \<and> (r + 4, hi) \<in> set ws \<and> a = unat hi * 2 ^ 32 + unat lo)"

lemma halves: "a < 2 ^ 64 \<Longrightarrow> a = unat (word_of_nat (a div 2 ^ 32) :: u32) * 2 ^ 32 + unat (word_of_nat a :: u32)"
  by (simp add: unat_of_nat take_bit_eq_mod)

lemma negotiate_mmio: "mmio s = [] \<Longrightarrow> mmio (virtio_negotiate rd s) = negotiated rd"
  by (simp add: virtio_negotiate_def negotiated_def reg_write_def Let_def)

lemma negotiate_mem [simp]: "mem (virtio_negotiate rd s) = mem s" "freelist (virtio_negotiate rd s) = freelist s"
  "kend (virtio_negotiate rd s) = kend s" "qfree (virtio_negotiate rd s) = qfree s"
  by (simp_all add: virtio_negotiate_def reg_write_def Let_def)

lemma bit_features:
  "bit (ucast (blk_features (ucast x)) :: u32) i \<longleftrightarrow> bit (x :: u32) i \<and> i \<notin> {5, 7, 11, 12, 27, 28, 29}"
proof -
  have n: "bit (NOT (push_bit k (1 :: u64))) j \<longleftrightarrow> j < 64 \<and> j \<noteq> k" for j k
    by (auto simp: bit_simps)
  have u: "bit (ucast y :: u32) i \<longleftrightarrow> i < 32 \<and> bit (y :: u64) i" for y by (simp add: bit_simps)
  have v: "bit (ucast x :: u64) i \<longleftrightarrow> i < 64 \<and> bit x i" by (auto simp: bit_simps)
  have "bit x i \<Longrightarrow> i < 32" by (auto dest: bit_imp_le_length)
  then show ?thesis unfolding u blk_features_def bit_and_iff n v by auto
qed

lemma features_subset: "ucast (blk_features (ucast x)) AND x = (ucast (blk_features (ucast x)) :: u32)"
  by (rule bit_word_eqI) (simp only: bit_and_iff bit_features, blast)

lemma kalloc_page:
  fixes s :: "'z km_scheme"
  assumes "flist s (p # ps)"
  obtains m r where "kalloc s = (p, s\<lparr>freelist := r, mem := m\<rparr>)" "flist (s\<lparr>freelist := r, mem := m\<rparr>) ps"
    "p \<noteq> 0" "p < 2 ^ 64" "page_ok s p" "p \<notin> set ps"
  using kalloc_Cons [OF assms] assms that by (fastforce simp: flist_def page_ok_def)

lemma queue_memory:
  assumes "flist s (d # a # u # ps)"
  shows "\<exists>t ws. virtio_queue_memory s = Inr t \<and> flist t ps \<and> (\<forall>x\<in>page_bytes d \<union> page_bytes a \<union> page_bytes u. mem t x = 0) \<and>
    mmio t = mmio s @ (R_QUEUE_NUM, 8) # ws \<and> told ws 0x080 d \<and> told ws 0x090 a \<and> told ws 0x0a0 u \<and>
    fst ` set ws \<subseteq> {0x080, 0x084, 0x090, 0x094, 0x0a0, 0x0a4}"
proof -
  obtain m1 r1 where k1: "kalloc s = (d, s\<lparr>freelist := r1, mem := m1\<rparr>)" "flist (s\<lparr>freelist := r1, mem := m1\<rparr>) (a # u # ps)"
    "d \<noteq> 0" "d < 2 ^ 64" "page_ok s d" "d \<notin> set (a # u # ps)" by (rule kalloc_page [OF assms])
  obtain m2 r2 where k2: "kalloc (s\<lparr>freelist := r1, mem := m1\<rparr>) = (a, s\<lparr>freelist := r2, mem := m2\<rparr>)"
    "flist (s\<lparr>freelist := r2, mem := m2\<rparr>) (u # ps)" "a \<noteq> 0" "a < 2 ^ 64" "page_ok s a" "a \<notin> set (u # ps)"
    by (rule kalloc_page [OF k1(2)]) (simp add: page_ok_def)
  obtain m3 r3 where k3: "kalloc (s\<lparr>freelist := r2, mem := m2\<rparr>) = (u, s\<lparr>freelist := r3, mem := m3\<rparr>)"
    "flist (s\<lparr>freelist := r3, mem := m3\<rparr>) ps" "u \<noteq> 0" "u < 2 ^ 64" "page_ok s u" "u \<notin> set ps"
    by (rule kalloc_page [OF k2(2)]) (simp add: page_ok_def)
  let ?m = "memset (memset (memset m3 d 0 PGSIZE) a 0 PGSIZE) u 0 PGSIZE"
  let ?ws = "[(0x080, word_of_nat d), (0x084, word_of_nat (d div 2 ^ 32)), (0x090, word_of_nat a), (0x094, word_of_nat (a div 2 ^ 32)),
    (0x0a0, word_of_nat u), (0x0a4, word_of_nat (u div 2 ^ 32))] :: reg_writes"
  let ?t = "s\<lparr>freelist := r3, mem := ?m, qdesc := d, qavail := a, qused := u, mmio := mmio s @ (R_QUEUE_NUM, 8) # ?ws\<rparr>"
  have "virtio_queue_memory s = Inr ?t"
    using k1(3) k2(3) k3(3) by (simp add: virtio_queue_memory_def k1(1) k2(1) k3(1) reg_write64_def reg_write_def)
  moreover have "flist ?t ps"
  proof (rule flist_frame [OF k3(2)])
    fix p x assume p: "p \<in> set ps" "x \<in> page_bytes p"
    have "page_ok s p" using k3(2) p(1) by (auto simp: flist_def page_ok_def)
    then have "page_bytes p \<inter> page_bytes q = {}" if "q \<in> {d, a, u}" for q
      using that p(1) k1(5,6) k2(5,6) k3(5,6) by (intro page_bytes_disjoint) (auto simp: page_ok_def)
    then have "x \<notin> page_bytes d \<union> page_bytes a \<union> page_bytes u" using p(2) by blast
    then show "mem ?t x = mem (s\<lparr>freelist := r3, mem := m3\<rparr>) x" by (auto simp: memset_apply)
  qed simp_all
  moreover have "\<forall>x\<in>page_bytes d \<union> page_bytes a \<union> page_bytes u. mem ?t x = 0" by (auto simp: memset_apply)
  moreover have "told ?ws 0x080 d" "told ?ws 0x090 a" "told ?ws 0x0a0 u"
    unfolding told_def using halves k1(4) k2(4) k3(4) by fastforce+
  ultimately show ?thesis by (intro exI [of _ ?t] exI [of _ ?ws]) simp
qed

text \<open>
  C25: when three pages are free, \<^verbatim>\<open>virtio_disk_init\<close> succeeds exactly on a usable device. Then it has taken three pages and cleared them,
  all descriptors are free, no declined feature and none that the device lacks is accepted, and the device was told it
  may run (\<^verbatim>\<open>DRIVER_OK\<close>) only by the last write, after the addresses of the queue and \<^verbatim>\<open>QUEUE_READY\<close>.
\<close>

theorem virtio_disk_init_handshake:
  assumes "flist s (d # a # u # ps)" "mmio s = []"
  shows "case virtio_disk_init rd s of
      Inl e \<Rightarrow> \<not> usable rd
    | Inr t \<Rightarrow> usable rd \<and> flist t ps \<and> (\<forall>x\<in>page_bytes d \<union> page_bytes a \<union> page_bytes u. mem t x = 0) \<and> (\<forall>i<8. qfree t i) \<and>
        (\<exists>ws v. mmio t = ws @ [(R_QUEUE_READY, 1), (R_STATUS, v)] \<and> bit v 2 \<and>
           (\<forall>x. (R_STATUS, x) \<in> set ws \<longrightarrow> \<not> bit x 2) \<and> R_QUEUE_READY \<notin> fst ` set ws \<and>
           told ws 0x080 d \<and> told ws 0x090 a \<and> told ws 0x0a0 u \<and>
           (\<forall>f. (R_DRIVER_FEATURES, f) \<in> set ws \<longrightarrow>
              f AND rd R_DEVICE_FEATURES [(R_STATUS, 0), (R_STATUS, 1), (R_STATUS, 3)] = f \<and>
              (\<forall>i\<in>{5, 7, 11, 12, 27, 28, 29}. \<not> bit f i)))"
proof -
  let ?s1 = "virtio_negotiate rd s"
  let ?s2 = "reg_write R_QUEUE_SEL 0 ?s1"
  have m: "mmio ?s1 = negotiated rd" "mmio ?s2 = negotiated rd @ [(R_QUEUE_SEL, 0)]"
    using negotiate_mmio [OF assms(2)] by (simp_all add: reg_write_def)
  have "flist ?s2 (d # a # u # ps)" by (rule flist_frame [OF assms(1)]) (simp_all add: reg_write_def)
  then obtain t ws where t: "virtio_queue_memory ?s2 = Inr t" "flist t ps"
    "\<forall>x\<in>page_bytes d \<union> page_bytes a \<union> page_bytes u. mem t x = 0" "mmio t = mmio ?s2 @ (R_QUEUE_NUM, 8) # ws"
    "told ws 0x080 d" "told ws 0x090 a" "told ws 0x0a0 u" "fst ` set ws \<subseteq> {0x080, 0x084, 0x090, 0x094, 0x0a0, 0x0a4}"
    using queue_memory by blast
  let ?status = "rd R_STATUS (negotiated rd)"
  let ?t = "reg_write R_STATUS (?status OR 4) ((reg_write R_QUEUE_READY 1 t)\<lparr>qfree := (\<lambda>i. i < 8 \<or> qfree s i)\<rparr>)"
  show ?thesis
  proof (cases "usable rd")
    case False
    then show ?thesis using m assms(2)
      by (auto simp: virtio_disk_init_def usable_def Let_def not_less [symmetric] split: sum.splits if_splits)
  next
    case True
    then have "virtio_disk_init rd s = Inr ?t"
      using m assms(2) t(1) by (auto simp: virtio_disk_init_def usable_def Let_def not_less [symmetric])
    moreover have "flist ?t ps" by (rule flist_frame [OF t(2)]) (simp_all add: reg_write_def)
    moreover have "\<exists>ws v. mmio ?t = ws @ [(R_QUEUE_READY, 1), (R_STATUS, v)] \<and> bit v 2 \<and>
        (\<forall>x. (R_STATUS, x) \<in> set ws \<longrightarrow> \<not> bit x 2) \<and> R_QUEUE_READY \<notin> fst ` set ws \<and>
        told ws 0x080 d \<and> told ws 0x090 a \<and> told ws 0x0a0 u \<and>
        (\<forall>f. (R_DRIVER_FEATURES, f) \<in> set ws \<longrightarrow>
           f AND rd R_DEVICE_FEATURES [(R_STATUS, 0), (R_STATUS, 1), (R_STATUS, 3)] = f \<and>
           (\<forall>i\<in>{5, 7, 11, 12, 27, 28, 29}. \<not> bit f i))"
    proof (intro exI [of _ "mmio ?s2 @ (R_QUEUE_NUM, 8) # ws"] exI [of _ "?status OR 4"] conjI)
      have old: "(r, x) \<in> set (negotiated rd @ [(R_QUEUE_SEL, 0)] @ [(R_QUEUE_NUM, 8)]) \<or> r \<in> {0x080, 0x084, 0x090, 0x094, 0x0a0, 0x0a4}"
        if "(r, x) \<in> set (mmio ?s2 @ (R_QUEUE_NUM, 8) # ws)" for r x
        using that t(8) by (force simp: m)
      show "\<forall>x. (R_STATUS, x) \<in> set (mmio ?s2 @ (R_QUEUE_NUM, 8) # ws) \<longrightarrow> \<not> bit x 2"
      proof (intro allI impI)
        fix x assume "(R_STATUS, x) \<in> set (mmio ?s2 @ (R_QUEUE_NUM, 8) # ws)"
        from old [OF this] have "x = 0 \<or> x = 1 \<or> x = 3 \<or> x = 11" by (auto simp: negotiated_def Let_def)
        moreover have "\<not> bit (0 :: u32) 2" "\<not> bit (1 :: u32) 2" "\<not> bit (3 :: u32) 2" "\<not> bit (11 :: u32) 2"
          by (simp_all add: bit_iff_odd)
        ultimately show "\<not> bit x 2" by blast
      qed
      show "R_QUEUE_READY \<notin> fst ` set (mmio ?s2 @ (R_QUEUE_NUM, 8) # ws)"
      proof
        assume "R_QUEUE_READY \<in> fst ` set (mmio ?s2 @ (R_QUEUE_NUM, 8) # ws)"
        then obtain x where "(R_QUEUE_READY, x) \<in> set (mmio ?s2 @ (R_QUEUE_NUM, 8) # ws)" unfolding image_iff by (metis prod.collapse)
        from old [OF this] show False by (auto simp: negotiated_def Let_def)
      qed
      show "\<forall>f. (R_DRIVER_FEATURES, f) \<in> set (mmio ?s2 @ (R_QUEUE_NUM, 8) # ws) \<longrightarrow>
         f AND rd R_DEVICE_FEATURES [(R_STATUS, 0), (R_STATUS, 1), (R_STATUS, 3)] = f \<and>
         (\<forall>i\<in>{5, 7, 11, 12, 27, 28, 29}. \<not> bit f i)"
      proof (intro allI impI)
        fix f assume "(R_DRIVER_FEATURES, f) \<in> set (mmio ?s2 @ (R_QUEUE_NUM, 8) # ws)"
        from old [OF this] have "f = ucast (blk_features (ucast (rd R_DEVICE_FEATURES [(R_STATUS, 0), (R_STATUS, 1), (R_STATUS, 3)])))"
          by (simp add: negotiated_def Let_def)
        then show "f AND rd R_DEVICE_FEATURES [(R_STATUS, 0), (R_STATUS, 1), (R_STATUS, 3)] = f \<and>
            (\<forall>i\<in>{5, 7, 11, 12, 27, 28, 29}. \<not> bit f i)"
          by (simp only: features_subset bit_features) blast
      qed
    qed (use t(5-7) in \<open>auto simp: reg_write_def t(4) told_def bit_simps\<close>)
    ultimately show ?thesis using True t(3) by (simp add: reg_write_def)
  qed
qed

definition qemu_disk :: reg_reads where
  "qemu_disk r ws = (if r = R_MAGIC then 0x74726976 else if r = R_VERSION \<or> r = R_DEVICE_ID then 2 else if r = R_VENDOR_ID then 0x554d4551
     else if r = R_DEVICE_FEATURES then 0x30006a54 else if r = R_STATUS then snd (last ws) else if r = R_QUEUE_NUM_MAX then 1024 else 0)"

lemma qemu_usable: "usable qemu_disk"
  by (simp add: usable_def negotiated_def qemu_disk_def Let_def)

theorem virtio_disk_init_handshake_witness:
  "\<exists>s t ws v. flist s [KERNBASE, KERNBASE + 4096, KERNBASE + 8192] \<and> virtio_disk_init qemu_disk s = Inr t \<and> flist t [] \<and>
     mem t (KERNBASE + 9000) = 0 \<and> mmio t = ws @ [(R_QUEUE_READY, 1), (R_STATUS, v)]"
proof -
  let ?s0 = "\<lparr>mem = (\<lambda>_. 0), freelist = 0, kend = KERNBASE, mmio = [], qdesc = 0, qavail = 0, qused = 0, qfree = (\<lambda>_. False)\<rparr>"
  have s0: "flist ?s0 []" by (simp add: flist_def)
  obtain m1 where s1: "flist (?s0\<lparr>mem := m1, freelist := KERNBASE + 8192\<rparr>) [KERNBASE + 8192]"
    using kfree_ok [OF s0, of "KERNBASE + 8192"] by (auto simp: page_ok_def)
  obtain m2 where s2: "flist (?s0\<lparr>mem := m2, freelist := KERNBASE + 4096\<rparr>) [KERNBASE + 4096, KERNBASE + 8192]"
    using kfree_ok [OF s1, of "KERNBASE + 4096"] by (auto simp: page_ok_def)
  obtain m3 where s3: "flist (?s0\<lparr>mem := m3, freelist := KERNBASE\<rparr>) [KERNBASE, KERNBASE + 4096, KERNBASE + 8192]"
    using kfree_ok [OF s2, of KERNBASE] by (auto simp: page_ok_def)
  let ?s = "?s0\<lparr>mem := m3, freelist := KERNBASE\<rparr>"
  obtain t where t: "virtio_disk_init qemu_disk ?s = Inr t"
    using virtio_disk_init_handshake [OF s3, of qemu_disk] qemu_usable by (cases "virtio_disk_init qemu_disk ?s") auto
  then have "flist t []" "mem t (KERNBASE + 9000) = 0" "\<exists>ws v. mmio t = ws @ [(R_QUEUE_READY, 1), (R_STATUS, v)]"
    using virtio_disk_init_handshake [OF s3, of qemu_disk] by auto
  then show ?thesis using s3 t by blast
qed

end
