(* ===== verification/FsWrite.thy ===== *)
theory FsWrite
  imports FsInodes
begin

text \<open>
  Writing files (\<^verbatim>\<open>bmap\<close> and \<^verbatim>\<open>writei\<close> of \<^verbatim>\<open>kernel/fs.c\<close>) inside a transaction, block allocation included. A file
  is well-formed when its block map is injective and stays among the data blocks that the bitmap marks as
  used; the operations keep that, and a write changes exactly the bytes it is asked to.
\<close>

section \<open>Well-formed files\<close>

text \<open>The block numbers in the map: slots 0 to 267 for the contents, fslot 268 for the indirect block.\<close>

definition fslot :: "(nat \<Rightarrow> block) \<Rightarrow> inode \<Rightarrow> nat \<Rightarrow> nat" where
  "fslot v x j = (if j = 268 then addrs x ! 12 else if j < 12 then addrs x ! j
     else if addrs x ! 12 = 0 then 0 else get32 (4 * (j - 12)) (v (addrs x ! 12)))"

definition logarea :: "nat \<Rightarrow> nat set" where
  "logarea L = {L..<L + 30}"

definition bitmap_blocks :: "superblock \<Rightarrow> nat set" where
  "bitmap_blocks S = (\<lambda>b. BBLOCK b S) ` {..<fssize S}"

text \<open>The layout: bitmap and the block \<open>I\<close> of the inode outside the log, and all of it marked as used.\<close>

definition layout :: "superblock \<Rightarrow> nat \<Rightarrow> nat \<Rightarrow> (nat \<Rightarrow> block) \<Rightarrow> bool" where
  "layout S L I v \<longleftrightarrow> fssize S < 2 ^ 32 \<and>
     (\<forall>b\<in>insert I (bitmap_blocks S). b < 2 ^ 32 \<and> b \<notin> logarea L \<and> length (v b) = 1024) \<and> I \<notin> bitmap_blocks S \<and>
     (\<forall>b<fssize S. b \<in> insert 0 (insert I (logarea L \<union> bitmap_blocks S)) \<longrightarrow> used S v b)"

definition data_block :: "superblock \<Rightarrow> nat \<Rightarrow> nat \<Rightarrow> (nat \<Rightarrow> block) \<Rightarrow> nat \<Rightarrow> bool" where
  "data_block S L I v a \<longleftrightarrow> a < fssize S \<and> used S v a \<and> a \<notin> insert I (logarea L \<union> bitmap_blocks S) \<and> length (v a) = 1024"

definition wfile :: "superblock \<Rightarrow> nat \<Rightarrow> nat \<Rightarrow> (nat \<Rightarrow> block) \<Rightarrow> inode \<Rightarrow> bool" where
  "wfile S L I v x \<longleftrightarrow> layout S L I v \<and> idev x = 1 \<and> length (addrs x) = 13 \<and> isize x \<le> 268 * 1024 \<and>
     (\<forall>j\<le>268. fslot v x j \<noteq> 0 \<longrightarrow> data_block S L I v (fslot v x j)) \<and>
     (\<forall>i\<le>268. \<forall>j\<le>268. fslot v x i = fslot v x j \<and> fslot v x i \<noteq> 0 \<longrightarrow> i = j) \<and>
     (\<forall>bn. bn * 1024 < isize x \<longrightarrow> fslot v x bn \<noteq> 0)"

lemma BBLOCK_in: "b < fssize S \<Longrightarrow> BBLOCK b S \<in> bitmap_blocks S"
  by (simp add: bitmap_blocks_def)

lemma layout_geo:
  fixes s :: "'z fsst_scheme"
  assumes "layout (sb s) (lstart s) I (view s)"
  shows "geo s {}" "bitmap_used s" "I < 2 ^ 32" "I \<notin> {lstart s..<lstart s + 30}" "length (view s I) = 1024"
  using assms BBLOCK_in [of _ "sb s"] by (auto simp: layout_def geo_def bitmap_used_def logarea_def)

lemma layout_geo_held:
  fixes s :: "'z fsst_scheme"
  assumes "layout (sb s) (lstart s) I (view s)" "data_block (sb s) (lstart s) I (view s) a" "blockno (bufs s ! i) = a"
  shows "geo s {i}"
  using layout_geo(1) [OF assms(1)] assms(2,3) BBLOCK_in [of _ "sb s"] unfolding geo_def data_block_def by auto

text \<open>Contents of data blocks do not matter, apart from the indirect block.\<close>

lemma fslot_cong: "addrs x ! 12 \<noteq> 0 \<Longrightarrow> v' (addrs x ! 12) = v (addrs x ! 12) \<Longrightarrow> fslot v' x = fslot v x"
  "addrs x ! 12 = 0 \<Longrightarrow> fslot v' x = fslot v x"
  by (auto simp: fslot_def)

lemma used_cong: "b < fssize S \<Longrightarrow> \<forall>b\<in>bitmap_blocks S. v' b = v b \<Longrightarrow> used S v' b = used S v b"
  using BBLOCK_in [of b S] by (simp add: used_def)

lemma layout_cong:
  assumes "layout S L I v" "\<forall>b\<in>bitmap_blocks S. v' b = v b" "\<forall>b. length (v b) = 1024 \<longrightarrow> length (v' b) = 1024"
  shows "layout S L I v'"
  using assms used_cong [OF _ assms(2)] unfolding layout_def by (metis (no_types, lifting))

lemma wfile_cong:
  assumes "wfile S L I v x" "\<forall>b\<in>bitmap_blocks S. v' b = v b" "\<forall>b. length (v b) = 1024 \<longrightarrow> length (v' b) = 1024"
    "\<forall>j\<le>268. fslot v' x' j = fslot v x j" "idev x' = idev x" "length (addrs x') = length (addrs x)"
    "isize x' \<le> 268 * 1024" "\<forall>bn. bn * 1024 < isize x' \<longrightarrow> fslot v' x' bn \<noteq> 0"
  shows "wfile S L I v' x'"
proof -
  have "data_block S L I v' a" if "data_block S L I v a" for a
    using that used_cong [OF _ assms(2)] assms(3) by (simp add: data_block_def)
  then show ?thesis using assms layout_cong [OF _ assms(2,3)] unfolding wfile_def by simp
qed

text \<open>The bitmap after an allocation.\<close>

lemma used_install:
  assumes lay: "layout S L I v" and r: "r < fssize S" "\<not> used S v r"
    and b: "\<forall>b\<in>bitmap_blocks S. v' b = alloc_view S v r b"
  shows "r \<notin> insert 0 (insert I (logarea L \<union> bitmap_blocks S))" "length (v (BBLOCK r S)) = 1024"
    "c < fssize S \<Longrightarrow> used S v' c \<longleftrightarrow> c = r \<or> used S v c"
proof -
  show rn: "r \<notin> insert 0 (insert I (logarea L \<union> bitmap_blocks S))" using lay r unfolding layout_def by blast
  show len: "length (v (BBLOCK r S)) = 1024" using lay BBLOCK_in [OF r(1)] by (auto simp: layout_def)
  assume c: "c < fssize S"
  have "BBLOCK c S \<noteq> r" using BBLOCK_in [OF c] rn by auto
  then show "used S v' c \<longleftrightarrow> c = r \<or> used S v c"
    using used_alloc [of v r S c] len b BBLOCK_in [OF c] by (simp add: used_def)
qed

text \<open>The block that \<^verbatim>\<open>balloc\<close> returns is put into an empty fslot.\<close>

lemma wfile_install:
  assumes w: "wfile S L I v x" and r: "r < fssize S" "\<not> used S v r" and j: "j \<le> 268"
    and b: "\<forall>b\<in>bitmap_blocks S. v' b = alloc_view S v r b" and l: "\<forall>b. length (alloc_view S v r b) = 1024 \<longrightarrow> length (v' b) = 1024"
    and s: "\<forall>i\<le>268. fslot v' x' i = ((fslot v x)(j := r)) i" "idev x' = idev x" "length (addrs x') = length (addrs x)" "isize x' = isize x"
  shows "wfile S L I v' x'"
proof -
  have lay: "layout S L I v" using w by (simp add: wfile_def)
  note U = used_install [OF lay r b]
  have rn: "r \<noteq> 0" "r \<noteq> I" "r \<notin> logarea L" "r \<notin> bitmap_blocks S" using U(1) by simp_all
  have l': "length (v' b) = 1024" if "length (v b) = 1024 \<or> b = r" for b
    using l that U(2) by (auto simp: alloc_view_def)
  have "layout S L I v'" using lay U(3) l' unfolding layout_def by blast
  moreover have "data_block S L I v' a" if "data_block S L I v a" for a using that U(3) l' by (auto simp: data_block_def)
  moreover have "data_block S L I v' r" using r rn U(3) l' by (simp add: data_block_def)
  moreover have "fslot v x i \<noteq> r" if "i \<le> 268" for i
    using w that r(2) rn(1) unfolding wfile_def data_block_def by metis
  moreover have "fslot v' x' bn \<noteq> 0" if "bn * 1024 < isize x'" for bn
  proof -
    have "fslot v x bn \<noteq> 0" "bn \<le> 268" using w that s(4) by (auto simp: wfile_def)
    then show ?thesis using s(1) rn(1) by simp
  qed
  ultimately show ?thesis using w s rn(1) unfolding wfile_def by (auto simp: fun_upd_def split: if_splits)
qed

lemma wfile_indirect: "wfile S L I v x \<Longrightarrow> addrs x ! 12 \<noteq> 0 \<Longrightarrow> data_block S L I v (addrs x ! 12)"
  unfolding wfile_def by (metis le_refl fslot_def)

section \<open>The block map\<close>

text \<open>Blocks that belong to somebody else.\<close>

definition foreign :: "superblock \<Rightarrow> (nat \<Rightarrow> block) \<Rightarrow> inode \<Rightarrow> nat \<Rightarrow> bool" where
  "foreign S v x b \<longleftrightarrow> (b < fssize S \<longrightarrow> used S v b) \<and> b \<notin> bitmap_blocks S \<and> b \<notin> fslot v x ` {..268}"

definition fframe :: "superblock \<Rightarrow> (nat \<Rightarrow> block) \<Rightarrow> inode \<Rightarrow> (nat \<Rightarrow> block) \<Rightarrow> inode \<Rightarrow> bool" where
  "fframe S v x v' x' \<longleftrightarrow> (\<forall>b. foreign S v x b \<longrightarrow> v' b = v b \<and> foreign S v' x' b)"

lemma fframe_refl: "fframe S v x v x"
  by (simp add: fframe_def)

lemma fframe_trans: "fframe S v x v1 x1 \<Longrightarrow> fframe S v1 x1 v2 x2 \<Longrightarrow> fframe S v x v2 x2"
  by (simp add: fframe_def)

text \<open>What \<^verbatim>\<open>bmap\<close> does to the file when it returns block \<open>a\<close> for fslot \<open>j\<close>.\<close>

definition fmapped :: "superblock \<Rightarrow> nat \<Rightarrow> nat \<Rightarrow> (nat \<Rightarrow> block) \<Rightarrow> inode \<Rightarrow> (nat \<Rightarrow> block) \<Rightarrow> inode \<Rightarrow> nat \<Rightarrow> nat \<Rightarrow> bool" where
  "fmapped S L I v x v' x' j a \<longleftrightarrow> wfile S L I v' x' \<and> (\<exists>A. x' = x\<lparr>addrs := A\<rparr>) \<and>
     (\<forall>i<268. fslot v x i \<noteq> 0 \<longrightarrow> fslot v' x' i = fslot v x i \<and> v' (fslot v x i) = v (fslot v x i)) \<and>
     fframe S v x v' x' \<and> (if a = 0 then \<forall>b<fssize S. used S v' b else fslot v' x' j = a)"

lemma fmapped_trans:
  assumes "fmapped S L I v x v1 x1 k a1" "fmapped S L I v1 x1 v2 x2 j a"
  shows "fmapped S L I v x v2 x2 j a"
proof -
  obtain A1 A where "x1 = x\<lparr>addrs := A1\<rparr>" "x2 = x1\<lparr>addrs := A\<rparr>" using assms unfolding fmapped_def by blast
  then have "x2 = x\<lparr>addrs := A\<rparr>" by simp
  then have "\<exists>A. x2 = x\<lparr>addrs := A\<rparr>" ..
  moreover have "\<forall>i<268. fslot v x i \<noteq> 0 \<longrightarrow> fslot v2 x2 i = fslot v x i \<and> v2 (fslot v x i) = v (fslot v x i)"
    using assms unfolding fmapped_def by metis
  ultimately show ?thesis using assms fframe_trans unfolding fmapped_def by blast
qed

lemma fmapped_install:
  assumes w: "wfile S L I v x" and r: "r < fssize S" "\<not> used S v r" and j: "j \<le> 268" "fslot v x j = 0"
    and v': "\<forall>b. v' b = alloc_view S v r b \<or> b = addrs x ! 12 \<and> b \<noteq> 0 \<and> length (v' b) = 1024"
    and s: "\<forall>i\<le>268. fslot v' (x\<lparr>addrs := A\<rparr>) i = ((fslot v x)(j := r)) i" "length A = 13"
  shows "fmapped S L I v x v' (x\<lparr>addrs := A\<rparr>) j r"
proof -
  have lay: "layout S L I v" using w by (simp add: wfile_def)
  have ind: "addrs x ! 12 \<noteq> 0 \<Longrightarrow> data_block S L I v (addrs x ! 12)"
    using wfile_indirect [OF w] .
  have b: "\<forall>b\<in>bitmap_blocks S. v' b = alloc_view S v r b" using v' ind by (auto simp: data_block_def)
  note U = used_install [OF lay r b]
  have l: "\<forall>b. length (alloc_view S v r b) = 1024 \<longrightarrow> length (v' b) = 1024" using v' by metis
  have "wfile S L I v' (x\<lparr>addrs := A\<rparr>)"
    by (rule wfile_install [OF w r j(1) b l]) (use s w in \<open>auto simp: wfile_def\<close>)
  moreover have "fslot v' (x\<lparr>addrs := A\<rparr>) i = fslot v x i \<and> v' (fslot v x i) = v (fslot v x i)" if i: "i < 268" "fslot v x i \<noteq> 0" for i
  proof -
    have d: "data_block S L I v (fslot v x i)" using w i by (simp add: wfile_def)
    have "fslot v x i \<noteq> fslot v x 268" using w i unfolding wfile_def by (metis le_refl less_imp_le nat_neq_iff)
    then have "v' (fslot v x i) = alloc_view S v r (fslot v x i)" using v' by (auto simp: fslot_def)
    also have "\<dots> = v (fslot v x i)" using d r BBLOCK_in [OF r(1)] by (auto simp: alloc_view_def data_block_def)
    finally show ?thesis using s(1) i j(2) by auto
  qed
  moreover have "fframe S v x v' (x\<lparr>addrs := A\<rparr>)" unfolding fframe_def
  proof (intro allI impI)
    fix c assume f: "foreign S v x c"
    have "c \<noteq> r" using f r by (auto simp: foreign_def)
    moreover have "c \<noteq> addrs x ! 12" using f by (auto simp: foreign_def fslot_def)
    moreover have "c \<noteq> BBLOCK r S" using f BBLOCK_in [OF r(1)] by (auto simp: foreign_def)
    ultimately have "alloc_view S v r c = v c" "c \<noteq> addrs x ! 12" using \<open>c \<noteq> r\<close> by (simp_all add: alloc_view_def)
    then have "v' c = v c" using v' by metis
    moreover have "fslot v' (x\<lparr>addrs := A\<rparr>) i \<noteq> c" if "i \<le> 268" for i
      using s(1) that f \<open>c \<noteq> r\<close> by (auto simp: foreign_def)
    ultimately show "v' c = v c \<and> foreign S v' (x\<lparr>addrs := A\<rparr>) c" using f U(3) by (auto simp: foreign_def)
  qed
  moreover have "fslot v' (x\<lparr>addrs := A\<rparr>) j = r" "r \<noteq> 0" using s(1) j(1) U(1) by auto
  ultimately show ?thesis unfolding fmapped_def by auto
qed

lemma fmapped_full: "wfile S L I v x \<Longrightarrow> (\<forall>b<fssize S. used S v b) \<Longrightarrow> fmapped S L I v x v x j 0"
  "wfile S L I v x \<Longrightarrow> fslot v x j = a \<Longrightarrow> a \<noteq> 0 \<Longrightarrow> fmapped S L I v x v x j a"
  unfolding fmapped_def by (auto simp: fframe_refl intro: exI [of _ "addrs x"])

section \<open>The operation \<^verbatim>\<open>bmap\<close>\<close>

definition ifile :: "'z fsst_scheme \<Rightarrow> nat \<Rightarrow> bool" where
  "ifile s ip \<longleftrightarrow> ip < length (inodes s) \<and>
     wfile (sb s) (lstart s) (IBLOCK (inum (inodes s ! ip)) (sb s)) (view s) (inodes s ! ip)"

text \<open>What an operation on the inode \<open>ip\<close> leaves alone.\<close>

definition ikept :: "nat \<Rightarrow> 'z fsst_scheme \<Rightarrow> 'z fsst_scheme \<Rightarrow> bool" where
  "ikept ip s t \<longleftrightarrow> lstart t = lstart s \<and> sb t = sb s \<and> curpid t = curpid s \<and> disk t = disk s \<and> dwrites t = dwrites s \<and>
     outstanding t = outstanding s \<and> committing t = committing s \<and> length (inodes t) = length (inodes s) \<and> (\<forall>j. j \<noteq> ip \<longrightarrow> inodes t ! j = inodes s ! j)"

lemma ikept_refl: "ikept ip s s"
  by (simp add: ikept_def)

lemma ikept_trans: "ikept ip s t \<Longrightarrow> ikept ip t u \<Longrightarrow> ikept ip s u"
  by (simp add: ikept_def)

lemma kept_ikept:
  fixes s t :: "'z fsst_scheme"
  assumes "kept s t"
  shows "ikept ip s t"
  using kept_fs [OF assms] keptD [OF assms] by (simp add: ikept_def)

lemma upd_ikept: "ikept ip s (inode_upd ip f s)"
  by (simp add: ikept_def)

abbreviation (input) bmapped :: "nat \<Rightarrow> 'z fsst_scheme \<Rightarrow> 'z fsst_scheme \<Rightarrow> nat \<Rightarrow> nat \<Rightarrow> bool" where
  "bmapped ip s t j a \<equiv> ikept ip s t \<and>
     fmapped (sb s) (lstart s) (IBLOCK (inum (inodes s ! ip)) (sb s)) (view s) (inodes s ! ip) (view t) (inodes t ! ip) j a"

text \<open>A search that finds no free block reads the bitmap and changes nothing.\<close>

lemma balloc_loop_full:
  fixes s :: "'z fsst_scheme"
  assumes "txn s H" "nat (lh_n s) + card H < 30" "\<forall>b\<in>set bs. \<forall>i\<in>H. blockno (bufs s ! i) \<noteq> BBLOCK b (sb s)"
    "\<forall>b\<in>set bs. \<forall>i<min 8192 (fssize (sb s) - b). bit_used i (view s (BBLOCK b (sb s)))"
  shows "\<exists>t. balloc_loop 1 bs s = Inr (0, t) \<and> txn t H \<and> kept s t \<and> view t = view s \<and> lh_n t = lh_n s \<and> logged t = logged s \<and>
     (\<forall>i\<in>H. blockno (bufs t ! i) = blockno (bufs s ! i) \<and> bdata (bufs t ! i) = bdata (bufs s ! i))"
  using assms
proof (induction bs arbitrary: s)
  case (Cons b bs)
  have h: "\<forall>i\<in>H. blockno (bufs s ! i) \<noteq> BBLOCK b (sb s)" using Cons.prems(3) by simp
  obtain i s1 t where t: "bread 1 (BBLOCK b (sb s)) s = Inr (i, s1)" "bdata (bufs s1 ! i) = view s (BBLOCK b (sb s))" "brelse i s1 = Inr t"
    "txn t H" "view t = view s" "kept s s1" "kept s t" "lh_n t = lh_n s" "logged t = logged s"
    "\<forall>i\<in>H. blockno (bufs t ! i) = blockno (bufs s ! i) \<and> bdata (bufs t ! i) = bdata (bufs s ! i)"
    by (rule txn_peek [OF Cons.prems(1,2) h])
  have e: "sb t = sb s" "sb s1 = sb s" using kept_fs(1) t(6,7) by blast+
  have "List.find (\<lambda>bi. \<not> bit_used bi (view s (BBLOCK b (sb s)))) [0..<min 8192 (fssize (sb s) - b)] = None"
    using Cons.prems(4) by (simp add: find_None_iff)
  then have "balloc_loop 1 (b # bs) s = balloc_loop 1 bs t" using t(1-3) e by simp
  moreover have "\<exists>u. balloc_loop 1 bs t = Inr (0, u) \<and> txn u H \<and> kept t u \<and> view u = view t \<and> lh_n u = lh_n t \<and> logged u = logged t \<and>
     (\<forall>i\<in>H. blockno (bufs u ! i) = blockno (bufs t ! i) \<and> bdata (bufs u ! i) = bdata (bufs t ! i))"
    by (rule Cons.IH [OF t(4)]) (use Cons.prems t(5,8,10) e in auto)
  ultimately show ?case using t(5,7-10) kept_trans [OF t(7)] by auto
qed simp

lemma balloc_rule:
  fixes s :: "'z fsst_scheme"
  assumes "txn s H" "lh_n s < 28" "nat (lh_n s) + card H < 29" "geo s H"
  obtains (full) t where "balloc 1 s = Inr (0, t)" "\<forall>b<fssize (sb s). used (sb s) (view s) b" "txn t H" "kept s t" "view t = view s"
      "lh_n t = lh_n s" "\<forall>i\<in>H. blockno (bufs t ! i) = blockno (bufs s ! i) \<and> bdata (bufs t ! i) = bdata (bufs s ! i)"
      "logged t = logged s"
    | (got) r t where "balloc 1 s = Inr (r, t)" "r < fssize (sb s)" "\<not> used (sb s) (view s) r" "txn t H" "kept s t"
      "view t = alloc_view (sb s) (view s) r"
      "lh_n t \<le> lh_n s + 2" "\<forall>i\<in>H. blockno (bufs t ! i) = blockno (bufs s ! i) \<and> bdata (bufs t ! i) = bdata (bufs s ! i)"
proof (cases "List.find (\<lambda>c. \<not> used (sb s) (view s) c) [0..<fssize (sb s)]")
  case None
  then have u: "\<forall>b<fssize (sb s). used (sb s) (view s) b" by (simp add: find_None_iff)
  let ?bs = "map (\<lambda>k. k * 8192) [0..<(fssize (sb s) + 8192 - 1) div 8192]"
  have "k * 8192 < n" if "k < (n + 8191) div 8192" for k n :: nat using that by linarith
  then have bs: "\<forall>b\<in>set ?bs. b mod 8192 = 0 \<and> b < fssize (sb s)" by auto
  have bits: "bit_used i (view s (BBLOCK b (sb s)))" if "b \<in> set ?bs" "i < min 8192 (fssize (sb s) - b)" for b i
  proof -
    have "b + i < fssize (sb s)" using that(2) by linarith
    then have "used (sb s) (view s) (b + i)" using u by blast
    moreover have "b mod 8192 = 0" using bs that(1) by blast
    ultimately show ?thesis using that(2) by (simp add: used_def BBLOCK_def mod_add_eq [symmetric] div_add1_eq [of b i])
  qed
  have "\<exists>t. balloc_loop 1 ?bs s = Inr (0, t) \<and> txn t H \<and> kept s t \<and> view t = view s \<and> lh_n t = lh_n s \<and> logged t = logged s \<and>
     (\<forall>i\<in>H. blockno (bufs t ! i) = blockno (bufs s ! i) \<and> bdata (bufs t ! i) = bdata (bufs s ! i))"
    by (rule balloc_loop_full [OF assms(1)]) (use assms(3) bs bits geoD(4) [OF assms(4)] in auto)
  then show thesis using full u unfolding balloc_def by auto
next
  case (Some r)
  then have "r < fssize (sb s)" "\<not> used (sb s) (view s) r" by (auto simp: find_Some_iff)
  then show thesis using balloc_spec [OF assms] got unfolding Some by auto
qed

lemma get32_zeros [simp]: "o' + 4 \<le> n \<Longrightarrow> get32 o' (replicate n 0) = 0"
  by (simp add: get32_def min_def numeral_eq_Suc)

text \<open>A block for an entry of the inode itself: a direct block or the indirect block.\<close>

definition addr_block :: "nat \<Rightarrow> nat \<Rightarrow> 'z fsst_scheme \<Rightarrow> (nat \<times> 'z fsst_scheme) res" where
  "addr_block ip k s =
     (if addrs (inodes s ! ip) ! k = 0 then
        bnd (balloc (idev (inodes s ! ip)) s) (\<lambda>(addr, s1).
        if addr = 0 then Inr (0, s1)
        else Inr (addr, inode_upd ip (\<lambda>x. x\<lparr>addrs := (addrs x)[k := addr]\<rparr>) s1))
      else Inr (addrs (inodes s ! ip) ! k, s))"

lemma addr_block_spec:
  fixes s :: "'z fsst_scheme"
  assumes x: "txn s {}" "lh_n s < 28" and w: "ifile s ip" and k: "k \<le> 12"
  defines "j \<equiv> if k = 12 then 268 else k"
  obtains a t where "addr_block ip k s = Inr (a, t)" "txn t {}" "lh_n t \<le> lh_n s + 2" "bmapped ip s t j a" "addrs (inodes t ! ip) ! k = a"
proof -
  let ?x = "inodes s ! ip" and ?S = "sb s" and ?v = "view s"
  have W: "wfile ?S (lstart s) (IBLOCK (inum ?x) ?S) ?v ?x" and ip: "ip < length (inodes s)" using w by (simp_all add: ifile_def)
  have dev: "idev ?x = 1" and len: "length (addrs ?x) = 13" using W by (simp_all add: wfile_def)
  have lay: "layout ?S (lstart s) (IBLOCK (inum ?x) ?S) ?v" using W by (simp add: wfile_def)
  have sj: "fslot ?v ?x j = addrs ?x ! k" using k by (auto simp: j_def fslot_def)
  show thesis
  proof (cases "addrs ?x ! k = 0")
    case False
    then have "addr_block ip k s = Inr (addrs ?x ! k, s)" by (simp add: addr_block_def)
    then show thesis using that [of _ s] x(1) fmapped_full(2) [OF W sj False] by (simp add: ikept_refl)
  next
    case True
    have n: "nat (lh_n s) + card ({} :: nat set) < 29" using x(2) by simp
    show thesis
    proof (rule balloc_rule [OF x n layout_geo(1) [OF lay]], goal_cases)
      case (1 t)
      have e: "inodes t = inodes s" using kept_fs(2) [OF 1(4)] .
      have "addr_block ip k s = Inr (0, t)" using True dev 1(1) by (simp add: addr_block_def)
      moreover have "bmapped ip s t j 0" using fmapped_full(1) [OF W 1(2)] kept_ikept [OF 1(4)] 1(5) e by simp
      ultimately show thesis using that 1(3,6) True e by simp
    next
      case (2 r t)
      note e = kept_fs [OF 2(5)]
      let ?A = "(addrs ?x)[k := r]" and ?t = "inode_upd ip (\<lambda>x. x\<lparr>addrs := (addrs x)[k := r]\<rparr>) t"
      have U: "r \<noteq> 0" using used_install(1) [OF lay 2(2,3), of "alloc_view ?S ?v r"] by simp
      have "addr_block ip k s = Inr (r, ?t)" using True dev 2(1) U by (simp add: addr_block_def)
      moreover have "fslot (alloc_view ?S ?v r) (?x\<lparr>addrs := ?A\<rparr>) i = ((fslot ?v ?x)(j := r)) i" if "i \<le> 268" for i
      proof (cases "k = 12")
        case True
        then show ?thesis using that len U \<open>addrs ?x ! k = 0\<close> by (auto simp: fslot_def j_def alloc_view_def)
      next
        case False
        have "alloc_view ?S ?v r (addrs ?x ! 12) = ?v (addrs ?x ! 12)" if "addrs ?x ! 12 \<noteq> 0"
        proof -
          show ?thesis using wfile_indirect [OF W that] 2(2,3) BBLOCK_in [OF 2(2)] by (auto simp: alloc_view_def data_block_def)
        qed
        then show ?thesis using that len k False by (auto simp: fslot_def j_def)
      qed
      then have "fmapped ?S (lstart s) (IBLOCK (inum ?x) ?S) ?v ?x (alloc_view ?S ?v r) (?x\<lparr>addrs := ?A\<rparr>) j r"
        using True sj len k by (intro fmapped_install [OF W 2(2,3)]) (auto simp: j_def)
      moreover have "inodes ?t ! ip = ?x\<lparr>addrs := ?A\<rparr>" using ip e by simp
      ultimately show thesis
        using that [of r ?t] 2(4,6,7) ikept_trans [OF kept_ikept [OF 2(5)] upd_ikept] len k by simp
    qed
  qed
qed

lemma bmap_direct: "bn < 12 \<Longrightarrow> bmap ip bn s = addr_block ip bn s"
  by (simp add: bmap_def addr_block_def Let_def)

definition entry_block :: "nat \<Rightarrow> nat \<Rightarrow> 'z fsst_scheme \<Rightarrow> (nat \<times> 'z fsst_scheme) res" where
  "entry_block addr k s =
     bnd (bread 1 addr s) (\<lambda>(i, s2).
     let a = get32 (4 * k) (bdata (bufs s2 ! i)) in
     bnd (if a = 0 then
            bnd (balloc 1 s2) (\<lambda>(a', s3).
            if a' \<noteq> 0 then
              bnd (log_write i (bset i (put32 (4 * k) a' (bdata (bufs s3 ! i))) s3)) (\<lambda>s4. Inr (a', s4))
            else Inr (0, s3))
          else Inr (a, s2)) (\<lambda>(a', s5).
     bnd (brelse i s5) (\<lambda>s6. Inr (a', s6))))"

lemma bmap_indirect:
  assumes "12 \<le> bn" "bn < 268" "idev (inodes s ! ip) = 1"
  shows "bmap ip bn s = bnd (addr_block ip 12 s) (\<lambda>(addr, s1). if addr = 0 then Inr (0, s1) else entry_block addr (bn - 12) s1)"
proof -
  have c: "(bn < 12) = False" "(bn - 12 < 256) = True" using assms by simp_all
  show ?thesis unfolding bmap_def addr_block_def entry_block_def Let_def assms(3) by (simp only: c if_False if_True)
qed

lemma fslot_entry:
  assumes "addrs x ! 12 \<noteq> 0" "12 \<le> bn" "bn < 268" "length d = 1024" "r < 2 ^ 32" "v' (addrs x ! 12) = put32 (4 * (bn - 12)) r d"
    "v (addrs x ! 12) = d" "i \<le> 268"
  shows "fslot v' x i = ((fslot v x)(bn := r)) i"
proof -
  have "get32 (4 * (i - 12)) (put32 (4 * (bn - 12)) r d) = (if i = bn then r else get32 (4 * (i - 12)) d)" if "12 \<le> i"
    using assms(2-5) that by (auto intro!: get32_put32 get32_put32_other)
  then show ?thesis using assms by (auto simp: fslot_def)
qed

lemma entry_block_spec:
  fixes s :: "'z fsst_scheme"
  assumes x: "txn s {}" "lh_n s < 27" and w: "ifile s ip" and bn: "12 \<le> bn" "bn < 268" and ind: "addrs (inodes s ! ip) ! 12 \<noteq> 0"
  obtains a t where "entry_block (addrs (inodes s ! ip) ! 12) (bn - 12) s = Inr (a, t)" "txn t {}" "lh_n t \<le> lh_n s + 3" "bmapped ip s t bn a"
proof -
  let ?x = "inodes s ! ip" and ?S = "sb s" and ?v = "view s"
  let ?I = "IBLOCK (inum ?x) ?S" and ?m = "addrs ?x ! 12"
  have W: "wfile ?S (lstart s) ?I ?v ?x" using w by (simp add: ifile_def)
  have lay: "layout ?S (lstart s) ?I ?v" using W by (simp add: wfile_def)
  have md: "data_block ?S (lstart s) ?I ?v ?m" using wfile_indirect [OF W ind] .
  have m32: "?m < 2 ^ 32" "?m \<notin> {lstart s..<lstart s + 30}" "length (?v ?m) = 1024"
    using md lay by (auto simp: data_block_def layout_def logarea_def)
  have sbn: "fslot ?v ?x bn = get32 (4 * (bn - 12)) (?v ?m)" using bn ind by (simp add: fslot_def)
  have c: "nat (lh_n s) + card ({} :: nat set) < 30" using x(2) by simp
  obtain i s2 where s2: "bread 1 ?m s = Inr (i, s2)" "txn s2 {i}" "view s2 = ?v" "bdata (bufs s2 ! i) = ?v ?m"
    "blockno (bufs s2 ! i) = ?m" "kept s s2" "lh_n s2 = lh_n s" "logged s2 = logged s"
    by (rule txn_bread [OF x(1) c, of ?m]) auto
  have i: "i \<in> {i}" by simp
  have e2: "sb s2 = ?S" "lstart s2 = lstart s" "inodes s2 = inodes s" "disk s2 = disk s"
    using kept_fs [OF s2(6)] s2(6) by (simp_all add: kept_def)
  have cl: "?m \<in> set (logged s) \<or> ?v ?m = disk s ?m" by (rule read_clean [OF txnD(2) [OF x(1)]]) simp
  show thesis
  proof (cases "get32 (4 * (bn - 12)) (?v ?m) = 0")
    case False
    obtain t where t: "brelse i s2 = Inr t" "txn t ({i} - {i})" "view t = view s2" "kept s2 t" "lh_n t = lh_n s2"
      by (rule txn_brelse [OF s2(2) i]) (use cl s2(4,5,8) e2(4) in auto)
    have "entry_block ?m (bn - 12) s = Inr (fslot ?v ?x bn, t)"
      using False s2(1,4) t(1) by (simp add: entry_block_def sbn Let_def)
    moreover have "inodes t = inodes s" using kept_fs(2) [OF t(4)] e2 by simp
    moreover have "fslot ?v ?x bn \<noteq> 0" using False sbn by simp
    ultimately show thesis
      using that [of "fslot ?v ?x bn" t] t s2(3,7) fmapped_full(2) [OF W refl] kept_ikept [OF kept_trans [OF s2(6) t(4)]] by simp
  next
    case True
    have g: "geo s2 {i}" by (rule layout_geo_held [of s2 ?I ?m]) (use lay md s2(3,5) e2 in auto)
    have n: "lh_n s2 < 28" "nat (lh_n s2) + card {i} < 29" using x(2) s2(7) by simp_all
    show thesis
    proof (rule balloc_rule [OF s2(2) n g], goal_cases)
      case (1 s3)
      have c3: "blockno (bufs s3 ! i) \<in> set (logged s3) \<or> bdata (bufs s3 ! i) = disk s3 (blockno (bufs s3 ! i))"
        using cl s2(4,5,8) e2(4) 1(4,7,8) by (simp add: kept_def)
      obtain t where t: "brelse i s3 = Inr t" "txn t ({i} - {i})" "view t = view s3" "kept s3 t" "lh_n t = lh_n s3"
        by (rule txn_brelse [OF 1(3) i c3]) auto
      have k: "kept s t" using kept_trans [OF kept_trans [OF s2(6) 1(4)] t(4)] .
      have "entry_block ?m (bn - 12) s = Inr (0, t)"
        using True s2(1,4) 1(1) t(1) by (simp add: entry_block_def Let_def)
      moreover have "\<forall>b<fssize ?S. used ?S ?v b" using 1(2) e2 s2(3) by simp
      ultimately show thesis
        using that [of 0 t] t 1(5,6) s2(3,7) fmapped_full(1) [OF W] kept_ikept [OF k] kept_fs(2) [OF k] by simp
    next
      case (2 r s3)
      have r: "r < fssize ?S" "\<not> used ?S ?v r" using 2(2,3) e2 s2(3) by simp_all
      have U: "r \<noteq> 0" using used_install(1) [OF lay r, of "alloc_view ?S ?v r"] by simp
      have r32: "r < 2 ^ 32" using r(1) lay by (simp add: layout_def)
      have b3: "bdata (bufs s3 ! i) = ?v ?m" "blockno (bufs s3 ! i) = ?m" using 2(8) s2(4,5) by simp_all
      let ?d = "put32 (4 * (bn - 12)) r (?v ?m)"
      have n3: "lh_n s3 < 29" using 2(7) x(2) s2(7) by simp
      have m3: "?m \<notin> {lstart s3..<lstart s3 + 30}" using m32(2) e2(2) 2(5) by (simp add: kept_def)
      obtain u t where t: "log_write i (bset i ?d s3) = Inr u" "brelse i u = Inr t" "txn t ({i} - {i})" "view t = (view s3)(?m := ?d)"
        "kept s3 t" "lh_n t \<le> lh_n s3 + 1"
        by (rule txn_store [OF 2(4) n3 i b3(2) m32(1) m3]) auto
      have k: "kept s t" using kept_trans [OF kept_trans [OF s2(6) 2(5)] t(5)] .
      have E: "entry_block ?m (bn - 12) s = Inr (r, t)"
        using True s2(1,4) 2(1) b3(1) U t(1,2) by (simp add: entry_block_def Let_def)
      have v: "view t = (alloc_view ?S ?v r)(?m := ?d)" using t(4) 2(6) e2(1) s2(3) by simp
      have "fmapped ?S (lstart s) ?I ?v ?x (view t) (?x\<lparr>addrs := addrs ?x\<rparr>) bn r"
      proof (rule fmapped_install [OF W r])
        show "\<forall>b. view t b = alloc_view ?S ?v r b \<or> b = ?m \<and> b \<noteq> 0 \<and> length (view t b) = 1024"
          using ind m32(3) bn by (auto simp: v)
        show "\<forall>i\<le>268. fslot (view t) (?x\<lparr>addrs := addrs ?x\<rparr>) i = ((fslot ?v ?x)(bn := r)) i"
          using fslot_entry [OF ind bn m32(3) r32, of "view t" ?v] by (simp add: v)
      qed (use bn sbn True W in \<open>auto simp: wfile_def\<close>)
      then show thesis using that [OF E] t(3,6) 2(7) s2(7) kept_ikept [OF k] kept_fs(2) [OF k] by simp
    qed
  qed
qed

lemma ifile_fmapped:
  fixes s t :: "'z fsst_scheme"
  assumes "ifile s ip" "bmapped ip s t j a"
  shows "ifile t ip" "inum (inodes t ! ip) = inum (inodes s ! ip)" "isize (inodes t ! ip) = isize (inodes s ! ip)"
proof -
  obtain A where A: "inodes t ! ip = (inodes s ! ip)\<lparr>addrs := A\<rparr>" using assms(2) unfolding fmapped_def by blast
  show "inum (inodes t ! ip) = inum (inodes s ! ip)" "isize (inodes t ! ip) = isize (inodes s ! ip)" by (simp_all add: A)
  then show "ifile t ip" using assms by (simp add: ifile_def fmapped_def ikept_def)
qed

lemma bmap_spec:
  fixes s :: "'z fsst_scheme"
  assumes x: "txn s {}" "lh_n s < 25" and w: "ifile s ip" and bn: "bn < 268"
  obtains a t where "bmap ip bn s = Inr (a, t)" "txn t {}" "lh_n t \<le> lh_n s + 5" "bmapped ip s t bn a"
proof -
  have l: "lh_n s < 28" using x(2) by simp
  have dev: "idev (inodes s ! ip) = 1" using w by (simp add: ifile_def wfile_def)
  show thesis
  proof (cases "bn < 12")
    case True
    obtain a t where t: "addr_block ip bn s = Inr (a, t)" "txn t {}" "lh_n t \<le> lh_n s + 2"
      "bmapped ip s t (if bn = 12 then 268 else bn) a"
      by (rule addr_block_spec [OF x(1) l w, of bn]) (use True in auto)
    then show thesis using that [of a t] True by (simp add: bmap_direct)
  next
    case False
    obtain m s1 where s1: "addr_block ip 12 s = Inr (m, s1)" "txn s1 {}" "lh_n s1 \<le> lh_n s + 2" "bmapped ip s s1 268 m"
      "addrs (inodes s1 ! ip) ! 12 = m"
      by (rule addr_block_spec [OF x(1) l w, of 12]) auto
    note e = bmap_indirect [OF _ bn dev, folded s1(1)]
    note f1 = ifile_fmapped [OF w s1(4)]
    show thesis
    proof (cases "m = 0")
      case True
      have "bmap ip bn s = Inr (0, s1)" using False bn dev s1(1) True by (simp add: bmap_indirect)
      moreover have "bmapped ip s s1 bn 0" using s1(4) True by (simp add: fmapped_def)
      ultimately show thesis using that s1(2,3) by simp
    next
      case False2: False
      have l1: "lh_n s1 < 27" using s1(3) x(2) by simp
      obtain a t where t: "entry_block m (bn - 12) s1 = Inr (a, t)" "txn t {}" "lh_n t \<le> lh_n s1 + 3" "bmapped ip s1 t bn a"
        by (rule entry_block_spec [OF s1(2) l1 f1(1), of bn]) (use False False2 bn s1(5) in auto)
      have "bmap ip bn s = Inr (a, t)" using False bn dev s1(1) False2 t(1) by (simp add: bmap_indirect)
      moreover have "bmapped ip s t bn a"
        using s1(4) t(4) fmapped_trans ikept_trans f1(2) by (fastforce simp: ikept_def)
      ultimately show thesis using that t(2,3) s1(3) by simp
    qed
  qed
qed

section \<open>The bytes of a file\<close>

lemma fslot_blkaddr: "bn < 268 \<Longrightarrow> fslot v x bn \<noteq> 0 \<Longrightarrow> blkaddr v x bn = fslot v x bn"
  by (auto simp: fslot_def blkaddr_def split: if_splits)

lemma put_nth: "o' + length bs \<le> length d \<Longrightarrow> q < length d \<Longrightarrow>
    put o' bs d ! q = (if o' \<le> q \<and> q < o' + length bs then bs ! (q - o') else d ! q)"
  by (auto simp: put_def nth_append)

text \<open>
  The first \<open>M\<close> bytes of the file are fmapped, and then \<open>r\<close> bytes \<open>f\<close> are stored from \<open>off\<close> on: these change,
  the other bytes, and the blocks of other files, do not.
\<close>

definition fwrote :: "superblock \<Rightarrow> nat \<Rightarrow> nat \<Rightarrow> (nat \<Rightarrow> block) \<Rightarrow> inode \<Rightarrow> (nat \<Rightarrow> block) \<Rightarrow> inode \<Rightarrow> nat \<Rightarrow> nat \<Rightarrow>
    (nat \<Rightarrow> u8) \<Rightarrow> nat \<Rightarrow> bool" where
  "fwrote S L I v x v' x' M off f r \<longleftrightarrow> wfile S L I v' x' \<and> (\<exists>A. x' = x\<lparr>addrs := A\<rparr>) \<and> fframe S v x v' x' \<and>
     (\<forall>bn. bn * 1024 < max M (off + r) \<longrightarrow> fslot v' x' bn \<noteq> 0) \<and>
     (\<forall>p<max M (off + r). fbyte v' x' p = (if off \<le> p \<and> p < off + r then f (p - off) else fbyte v x p))"

lemma fwrote_trans:
  assumes "fwrote S L I v x v1 x1 M off f k" "fwrote S L I v1 x1 v2 x2 (max M (off + k)) (off + k) (\<lambda>i. f (k + i)) r"
  shows "fwrote S L I v x v2 x2 M off f (k + r)"
proof -
  obtain A1 A where "x1 = x\<lparr>addrs := A1\<rparr>" "x2 = x1\<lparr>addrs := A\<rparr>" using assms unfolding fwrote_def by blast
  then have "x2 = x\<lparr>addrs := A\<rparr>" by simp
  moreover have m: "max (max M (off + k)) (off + k + r) = max M (off + (k + r))" by simp
  moreover have "fframe S v x v2 x2" using assms fframe_trans unfolding fwrote_def by blast
  moreover have "fbyte v2 x2 p = (if off \<le> p \<and> p < off + (k + r) then f (p - off) else fbyte v x p)" if p: "p < max M (off + (k + r))" for p
  proof -
    have b2: "fbyte v2 x2 p = (if off + k \<le> p \<and> p < off + k + r then f (k + (p - (off + k))) else fbyte v1 x1 p)"
      using assms(2) p unfolding fwrote_def m by blast
    show ?thesis
    proof (cases "off + k \<le> p \<and> p < off + k + r")
      case True
      then have "k + (p - (off + k)) = p - off" by simp
      then show ?thesis using b2 True by simp
    next
      case False
      then have "p < max M (off + k)" using p by auto
      then have "fbyte v1 x1 p = (if off \<le> p \<and> p < off + k then f (p - off) else fbyte v x p)"
        using assms(1) unfolding fwrote_def by blast
      then show ?thesis using b2 False by auto
    qed
  qed
  ultimately show ?thesis using assms(2) unfolding fwrote_def m by blast
qed

lemma fwrote_none:
  assumes "fmapped S L I v x v' x' j a" "off \<le> M" "M \<le> 268 * 1024" "\<forall>bn. bn * 1024 < M \<longrightarrow> fslot v x bn \<noteq> 0"
  shows "fwrote S L I v x v' x' M off f 0"
proof -
  have same: "fslot v' x' bn = fslot v x bn \<and> v' (fslot v x bn) = v (fslot v x bn) \<and> fslot v x bn \<noteq> 0 \<and> bn < 268" if "bn * 1024 < M" for bn
    using assms that unfolding fmapped_def by simp
  have "fbyte v' x' p = fbyte v x p" if "p < M" for p
  proof -
    have "p div 1024 * 1024 < M" using that by (metis div_times_less_eq_dividend le_less_trans)
    from same [OF this] show ?thesis by (simp add: fbyte_def fslot_blkaddr)
  qed
  then have "\<forall>p<max M (off + 0). fbyte v' x' p = (if off \<le> p \<and> p < off + 0 then f (p - off) else fbyte v x p)"
    using assms(2) by (auto simp: max_absorb1)
  then show ?thesis using assms same unfolding fwrote_def fmapped_def by (simp add: max_absorb1)
qed

lemma wfile_data_write:
  assumes w: "wfile S L I v x" and bn: "bn < 268" "fslot v x bn \<noteq> 0" and d: "length d = 1024"
  shows "wfile S L I (v(fslot v x bn := d)) x" "fslot (v(fslot v x bn := d)) x = fslot v x" "fframe S v x (v(fslot v x bn := d)) x"
proof -
  let ?a = "fslot v x bn"
  have dt: "data_block S L I v ?a" using w bn by (simp add: wfile_def)
  have ne: "?a \<noteq> addrs x ! 12"
  proof
    assume "?a = addrs x ! 12"
    then have "fslot v x bn = fslot v x 268" by (simp add: fslot_def)
    then have "bn = 268" using w bn unfolding wfile_def by (metis le_refl less_imp_le)
    then show False using bn(1) by simp
  qed
  show sl: "fslot (v(?a := d)) x = fslot v x" using ne by (cases "addrs x ! 12 = 0") (auto intro: fslot_cong)
  have b: "\<forall>b\<in>bitmap_blocks S. (v(?a := d)) b = v b" using dt by (auto simp: data_block_def)
  show "wfile S L I (v(?a := d)) x"
    by (rule wfile_cong [where v' = "v(?a := d)", OF w b]) (use sl d w in \<open>simp_all add: wfile_def\<close>)
  have "foreign S (v(?a := d)) x c" "c \<noteq> ?a" if "foreign S v x c" for c
    using that bn(1) used_cong [where v' = "v(?a := d)", OF _ b] by (simp_all add: foreign_def sl) auto
  then show "fframe S v x (v(?a := d)) x" by (auto simp: fframe_def)
qed

lemma chunk_arith:
  fixes off k p i :: nat
  assumes "k \<le> 1024 - off mod 1024"
  shows "off + k \<le> off div 1024 * 1024 + 1024"
    and "off \<le> i * 1024 \<Longrightarrow> i * 1024 < off div 1024 * 1024 + 1024 \<Longrightarrow> i = off div 1024"
    and "p div 1024 = off div 1024 \<Longrightarrow> off mod 1024 \<le> p mod 1024 \<and> p mod 1024 < off mod 1024 + k \<longleftrightarrow> off \<le> p \<and> p < off + k"
    and "p div 1024 = off div 1024 \<Longrightarrow> off \<le> p \<Longrightarrow> p mod 1024 - off mod 1024 = p - off"
    and "off \<le> p \<and> p < off + k \<Longrightarrow> p div 1024 = off div (1024 :: nat)"
proof -
  define b q c u where "b = off div 1024" and "q = off mod 1024" and "c = p div 1024" and "u = p mod 1024"
  have e: "off = 1024 * b + q" "q < 1024" "p = 1024 * c + u" "u < 1024" by (simp_all add: b_def q_def c_def u_def)
  have "off mod 1024 < 1024" by simp
  then have "k + q \<le> 1024" using assms unfolding q_def by linarith
  note e = e this
  have "off + k \<le> b * 1024 + 1024" using e by linarith
  then show "off + k \<le> off div 1024 * 1024 + 1024" by (simp only: b_def)
  have "off \<le> i * 1024 \<Longrightarrow> i * 1024 < b * 1024 + 1024 \<Longrightarrow> i = b" using e by linarith
  then show "off \<le> i * 1024 \<Longrightarrow> i * 1024 < off div 1024 * 1024 + 1024 \<Longrightarrow> i = off div 1024" by (simp only: b_def)
  have "c = b \<Longrightarrow> q \<le> u \<and> u < q + k \<longleftrightarrow> off \<le> p \<and> p < off + k" using e by auto
  then show "p div 1024 = off div 1024 \<Longrightarrow> off mod 1024 \<le> p mod 1024 \<and> p mod 1024 < off mod 1024 + k \<longleftrightarrow> off \<le> p \<and> p < off + k"
    by (simp only: b_def q_def c_def u_def)
  have "c = b \<Longrightarrow> off \<le> p \<Longrightarrow> u - q = p - off" using e by auto
  then show "p div 1024 = off div 1024 \<Longrightarrow> off \<le> p \<Longrightarrow> p mod 1024 - off mod 1024 = p - off" by (simp only: b_def q_def c_def u_def)
  have "off \<le> p \<and> p < off + k \<Longrightarrow> c = b" using e by linarith
  then show "off \<le> p \<and> p < off + k \<Longrightarrow> p div 1024 = off div 1024" by (simp only: b_def c_def)
qed

lemma fwrote_chunk:
  assumes m: "fmapped S L I v x v1 x1 (off div 1024) a" "a \<noteq> 0" and M: "off \<le> M" "M \<le> 268 * 1024" "off < 268 * 1024"
    and mp: "\<forall>bn. bn * 1024 < M \<longrightarrow> fslot v x bn \<noteq> 0" and bs: "length bs = k" "k \<le> 1024 - off mod 1024"
  shows "fwrote S L I v x (v1(a := put (off mod 1024) bs (v1 a))) x1 M off ((!) bs) k"
proof -
  let ?bn = "off div 1024" and ?v2 = "v1(a := put (off mod 1024) bs (v1 a))"
  have bn: "?bn < 268" using M(3) by (simp add: less_mult_imp_div_less)
  have a: "fslot v1 x1 ?bn = a" and w1: "wfile S L I v1 x1" using m by (auto simp: fmapped_def)
  have la: "length (v1 a) = 1024" using w1 a m(2) bn unfolding wfile_def data_block_def by (metis less_imp_le)
  have room: "off mod 1024 + length bs \<le> length (v1 a)" using bs la by (simp add: le_diff_conv2 add.commute)
  note dw = wfile_data_write [OF w1 bn, unfolded a, OF m(2), of "put (off mod 1024) bs (v1 a)"]
  have len: "length (put (off mod 1024) bs (v1 a)) = 1024" using room la by simp
  have same: "fslot v1 x1 i = fslot v x i \<and> v1 (fslot v x i) = v (fslot v x i) \<and> fslot v x i \<noteq> 0 \<and> i < 268" if "i * 1024 < M" for i
    using m(1) mp M(2) that unfolding fmapped_def by simp
  have other: "fslot v1 x1 i \<noteq> a" if "i < 268" "i \<noteq> ?bn" "fslot v1 x1 i \<noteq> 0" for i
    using w1 that a m(2) bn unfolding wfile_def by (metis less_imp_le)
  note ar = chunk_arith [OF bs(2)]
  have small: "i * 1024 < M \<or> i = ?bn" if "i * 1024 < max M (off + k)" for i
  proof (rule ccontr)
    assume n: "\<not> (i * 1024 < M \<or> i = ?bn)"
    then have "i * 1024 < ?bn * 1024 + 1024" "off \<le> i * 1024" using that ar(1) M(1) by auto
    then have "i = ?bn" using ar(2) by blast
    then show False using n by simp
  qed
  have "fbyte ?v2 x1 p = (if off \<le> p \<and> p < off + k then bs ! (p - off) else fbyte v x p)" if p: "p < max M (off + k)" for p
  proof -
    have pd: "p div 1024 * 1024 < max M (off + k)" using p by (metis div_times_less_eq_dividend le_less_trans)
    show ?thesis
    proof (cases "p div 1024 = ?bn")
      case True
      have "fbyte ?v2 x1 p = put (off mod 1024) bs (v1 a) ! (p mod 1024)"
        using True a m(2) bn fslot_blkaddr [OF bn, of ?v2 x1] dw(2) len by (simp add: fbyte_def)
      also have "\<dots> = (if off \<le> p \<and> p < off + k then bs ! (p - off) else v1 a ! (p mod 1024))"
        using put_nth [OF room, of "p mod 1024"] la ar(3,4) [OF True] bs(1) by auto
      also have "v1 a ! (p mod 1024) = fbyte v x p" if "\<not> (off \<le> p \<and> p < off + k)"
      proof -
        have "p < M" using that p M(1) by auto
        then have "p div 1024 * 1024 < M" by (metis div_times_less_eq_dividend le_less_trans)
        from same [OF this] show ?thesis using a True by (simp add: fbyte_def fslot_blkaddr)
      qed
      ultimately show ?thesis by auto
    next
      case False
      then have s: "p div 1024 * 1024 < M" using small [OF pd] by blast
      note e = same [OF s]
      have na: "fslot v1 x1 (p div 1024) \<noteq> a" using other [of "p div 1024"] False e by auto
      have "\<not> (off \<le> p \<and> p < off + k)"
      proof
        assume "off \<le> p \<and> p < off + k"
        then have "p div 1024 = ?bn" using ar(5) by blast
        then show False using False by simp
      qed
      moreover have "fbyte ?v2 x1 p = fbyte v x p"
        using e na dw(2) len fslot_blkaddr [of "p div 1024" ?v2 x1] fslot_blkaddr [of "p div 1024" v x] by (simp add: fbyte_def)
      ultimately show ?thesis by auto
    qed
  qed
  moreover have "fslot ?v2 x1 i \<noteq> 0" if "i * 1024 < max M (off + k)" for i
    using small [OF that] same a m(2) dw(2) len by auto
  ultimately show ?thesis using dw len m(1) fframe_trans unfolding fwrote_def fmapped_def by blast
qed

section \<open>The operation \<^verbatim>\<open>writei\<close>\<close>

text \<open>The number of blocks that a write of \<open>m\<close> bytes at \<open>off\<close> touches.\<close>

definition nblk :: "nat \<Rightarrow> nat \<Rightarrow> nat" where
  "nblk off m = (if m = 0 then 0 else (off mod 1024 + m + 1023) div 1024)"

lemma nblk_step:
  assumes "0 < m" "k = min m (1024 - off mod 1024)"
  shows "nblk off m = Suc (nblk (off + k) (m - k))"
proof -
  define q where "q = off mod 1024"
  have q: "q < 1024" by (simp add: q_def)
  show ?thesis
  proof (cases "m \<le> 1024 - q")
    case True
    then have "(q + m + 1023) div 1024 = 1" using assms(1) q by (intro div_nat_eqI) auto
    then show ?thesis using True assms by (simp add: nblk_def q_def [symmetric])
  next
    case False
    then have k: "k = 1024 - q" "0 < m - k" using assms by (simp_all add: q_def [symmetric])
    have "off = 1024 * (off div 1024) + q" by (simp add: q_def)
    moreover have "off div 1024 * 1024 + 1024 = (off div 1024 + 1) * 1024" by simp
    ultimately have "off + k = (off div 1024 + 1) * 1024" using k(1) q by linarith
    then have z: "(off + k) mod 1024 = 0" by simp
    have "q + m + 1023 = 1024 + (m - k + 1023)" using k q False by simp
    then have "(q + m + 1023) div 1024 = Suc ((m - k + 1023) div 1024)" by simp
    then show ?thesis using assms(1) k(2) z by (simp add: nblk_def q_def [symmetric])
  qed
qed

text \<open>One block is read, changed in part, logged and released.\<close>

lemma write_block:
  fixes s :: "'z fsst_scheme"
  assumes x: "txn s {}" "lh_n s < 29" and w: "ifile s ip" and bn: "bn < 268" "fslot (view s) (inodes s ! ip) bn = a" "a \<noteq> 0"
  obtains t where "bnd (bread 1 a s) (\<lambda>(i, s1). bnd (log_write i (bset i (f (bdata (bufs s1 ! i))) s1)) (brelse i)) = Inr t"
    "txn t {}" "view t = (view s)(a := f (view s a))" "kept s t" "lh_n t \<le> lh_n s + 1"
proof -
  let ?x = "inodes s ! ip"
  have W: "wfile (sb s) (lstart s) (IBLOCK (inum ?x) (sb s)) (view s) ?x" using w by (simp add: ifile_def)
  then have "data_block (sb s) (lstart s) (IBLOCK (inum ?x) (sb s)) (view s) a" using bn unfolding wfile_def by (metis less_imp_le)
  then have a: "a < 2 ^ 32" "a \<notin> {lstart s..<lstart s + 30}"
    using W by (auto simp: data_block_def wfile_def layout_def logarea_def)
  show thesis by (rule txn_update [OF x, of a f]) (use a x(2) that in auto)
qed

lemma wfile_inode_ok:
  assumes "wfile S L I v x" "z \<le> 268 * 1024"
  shows "inode_ok (x\<lparr>isize := z\<rparr>)"
proof -
  have "addrs x ! k < 2 ^ 32" if "k < 13" for k
  proof (cases "addrs x ! k = 0")
    case False
    define j where "j = (if k = 12 then 268 else k)"
    have "fslot v x j = addrs x ! k" "j \<le> 268" using that by (auto simp: fslot_def j_def)
    then have "data_block S L I v (addrs x ! k)" using assms(1) False unfolding wfile_def by metis
    then show ?thesis using assms(1) by (auto simp: data_block_def wfile_def layout_def)
  qed simp
  then show ?thesis using assms by (auto simp: inode_ok_def wfile_def in_set_conv_nth)
qed

text \<open>The new size and the inode block do not touch the contents.\<close>

lemma fwrote_finish:
  assumes w: "fwrote S L I v x v1 (x\<lparr>addrs := A\<rparr>) (isize x) off f r" and I: "length d = 1024" and z: "isize x \<le> 268 * 1024" "off + r \<le> 268 * 1024"
  defines "x' \<equiv> x\<lparr>addrs := A, isize := max (isize x) (off + r)\<rparr>" and "v' \<equiv> v1(I := d)"
  shows "wfile S L I v' x'" "foreign S v x b \<Longrightarrow> b \<noteq> I \<Longrightarrow> v' b = v b"
    "p < max (isize x) (off + r) \<Longrightarrow> fbyte v' x' p = (if off \<le> p \<and> p < off + r then f (p - off) else fbyte v x p)"
proof -
  let ?x1 = "x\<lparr>addrs := A\<rparr>"
  have W: "wfile S L I v1 ?x1" using w by (simp add: fwrote_def)
  have ne: "fslot v1 ?x1 j \<noteq> I" if "j \<le> 268" "fslot v1 ?x1 j \<noteq> 0" for j
    using W that by (auto simp: wfile_def data_block_def)
  have sl: "fslot v' x' j = fslot v1 ?x1 j" for j
    using ne [of 268] by (auto simp: fslot_def v'_def x'_def)
  have nz: "fslot v1 ?x1 bn \<noteq> 0" if "bn * 1024 < max (isize x) (off + r)" for bn using w that by (simp add: fwrote_def)
  have "I \<notin> bitmap_blocks S" using W by (simp add: wfile_def layout_def)
  then have b: "\<forall>b\<in>bitmap_blocks S. v' b = v1 b" by (auto simp: v'_def)
  have l: "\<forall>b. length (v1 b) = 1024 \<longrightarrow> length (v' b) = 1024" using I by (simp add: v'_def)
  show "wfile S L I v' x'" by (rule wfile_cong [OF W b l]) (use sl nz z W in \<open>auto simp: x'_def wfile_def\<close>)
  show "v' b = v b" if "foreign S v x b" "b \<noteq> I" using w that by (simp add: fwrote_def fframe_def v'_def)
  assume p: "p < max (isize x) (off + r)"
  have pd: "p div 1024 * 1024 < max (isize x) (off + r)" using p by (metis div_times_less_eq_dividend le_less_trans)
  then have bn: "p div 1024 < 268" using z by auto
  have "fbyte v' x' p = fbyte v1 ?x1 p"
    using fslot_blkaddr [OF bn, of v' x'] fslot_blkaddr [OF bn, of v1 ?x1] sl nz [OF pd] ne [of "p div 1024"] bn
    by (simp add: fbyte_def v'_def)
  then show "fbyte v' x' p = (if off \<le> p \<and> p < off + r then f (p - off) else fbyte v x p)" using w p by (simp add: fwrote_def)
qed

text \<open>The entry of the inode table agrees with the inode in the block device.\<close>

definition synced :: "'z fsst_scheme \<Rightarrow> nat \<Rightarrow> bool" where
  "synced s ip \<longleftrightarrow> disk_fields (dinode_load (dinode_off (inum (inodes s ! ip)))
     (view s (IBLOCK (inum (inodes s ! ip)) (sb s))) (inodes s ! ip)) = disk_fields (inodes s ! ip)"

text \<open>
  A source of \<^verbatim>\<open>writei\<close>: bytes from \<open>base\<close> up to \<open>top\<close> that \<^verbatim>\<open>either_copyin\<close> delivers.
\<close>

locale byte_source =
  fixes cpi :: "nat \<Rightarrow> nat \<Rightarrow> (int \<times> u8 list) res"
    and byte :: "nat \<Rightarrow> u8"
    and base top :: nat
  assumes copy: "base \<le> src \<Longrightarrow> src + k \<le> top \<Longrightarrow> cpi src k = Inr (0, map byte [src..<src + k])"
begin

lemma writei_loop_step:
  fixes s :: "'z fsst_scheme"
  assumes x: "txn s {}" "lh_n s < 23" and w: "ifile s ip" and lt: "tot < n" "off < 268 * 1024" "base \<le> src \<and> src + (n - tot) \<le> top"
  defines "k \<equiv> min (n - tot) (1024 - off mod 1024)"
  obtains (full) t where "writei_loop cpi ip src off n tot s = Inr (tot, off, t)" "txn t {}" "lh_n t \<le> lh_n s + 6"
      "bmapped ip s t (off div 1024) 0"
    | (go) a t u where "writei_loop cpi ip src off n tot s = writei_loop cpi ip (src + k) (off + k) n (tot + k) u" "a \<noteq> 0"
      "bmapped ip s t (off div 1024) a" "txn u {}" "lh_n u \<le> lh_n s + 6" "kept t u"
      "view u = (view t)(a := put (off mod 1024) (map byte [src..<src + k]) (view t a))"
proof -
  have bn: "off div 1024 < 268" using lt(2) by (simp add: less_mult_imp_div_less)
  have l: "lh_n s < 25" using x(2) by simp
  obtain a t where t: "bmap ip (off div 1024) s = Inr (a, t)" "txn t {}" "lh_n t \<le> lh_n s + 5" "bmapped ip s t (off div 1024) a"
    by (rule bmap_spec [OF x(1) l w bn])
  note f = ifile_fmapped [OF w t(4)]
  show thesis
  proof (cases "a = 0")
    case True
    then have "writei_loop cpi ip src off n tot s = Inr (tot, off, t)" using lt(1) t(1) by (simp add: writei_loop.simps [of cpi])
    then show thesis using full t(2-4) True by simp
  next
    case False
    have sl: "fslot (view t) (inodes t ! ip) (off div 1024) = a" using t(4) False by (simp add: fmapped_def)
    have l2: "lh_n t < 29" using t(3) x(2) by simp
    have dev: "idev (inodes t ! ip) = 1" using f(1) by (simp add: ifile_def wfile_def)
    obtain u where u: "bnd (bread 1 a t) (\<lambda>(i, s1). bnd (log_write i (bset i (put (off mod 1024) (map byte [src..<src + k]) (bdata (bufs s1 ! i))) s1)) (brelse i)) = Inr u"
      "txn u {}" "view u = (view t)(a := put (off mod 1024) (map byte [src..<src + k]) (view t a))" "kept t u" "lh_n u \<le> lh_n t + 1"
      by (rule write_block [OF t(2) l2 f(1) bn sl False])
    have c: "cpi src k = Inr (0, map byte [src..<src + k])" using lt(1,3) by (intro copy) (auto simp: k_def min_def)
    have "writei_loop cpi ip src off n tot s = bnd (bnd (bread 1 a t) (\<lambda>(i, s1). bnd (log_write i (bset i (put (off mod 1024) (map byte [src..<src + k]) (bdata (bufs s1 ! i))) s1)) (brelse i)))
        (writei_loop cpi ip (src + k) (off + k) n (tot + k))"
      unfolding bnd_assoc using lt(1) t(1) False c dev
      by (simp add: writei_loop.simps [of cpi ip src off] k_def [symmetric] bnd_assoc case_prod_beta Let_def) (simp only: split_def)
    then show thesis using go [of u a t] u False t(3,4) by simp
  qed
qed

lemma writei_loop_writes:
  fixes s :: "'z fsst_scheme"
  assumes "txn s {}" "ifile s ip" "tot \<le> n" "off + (n - tot) \<le> 268 * 1024" "base \<le> src \<and> src + (n - tot) \<le> top"
    "lh_n s + 6 * int (nblk off (n - tot)) < 29" "off \<le> M" "M \<le> 268 * 1024"
    "\<forall>bn. bn * 1024 < M \<longrightarrow> fslot (view s) (inodes s ! ip) bn \<noteq> 0"
  shows "\<exists>r t. writei_loop cpi ip src off n tot s = Inr (tot + r, off + r, t) \<and> r \<le> n - tot \<and> txn t {} \<and> ikept ip s t \<and>
     lh_n t \<le> lh_n s + 6 * int (nblk off (n - tot)) \<and>
     fwrote (sb s) (lstart s) (IBLOCK (inum (inodes s ! ip)) (sb s)) (view s) (inodes s ! ip) (view t) (inodes t ! ip) M off (\<lambda>i. byte (src + i)) r \<and>
     (r < n - tot \<longrightarrow> (\<forall>b<fssize (sb s). used (sb s) (view t) b))"
  using assms
proof (induction "n - tot" arbitrary: s src off tot M rule: less_induct)
  case less
  let ?x = "inodes s ! ip"
  let ?I = "IBLOCK (inum ?x) (sb s)"
  have W: "wfile (sb s) (lstart s) ?I (view s) ?x" using less.prems(2) by (simp add: ifile_def)
  show ?case
  proof (cases "tot = n")
    case True
    have "fwrote (sb s) (lstart s) ?I (view s) ?x (view s) ?x M off (\<lambda>i. byte (src + i)) 0"
      unfolding fwrote_def using W less.prems(7,9) by (auto simp: fframe_refl max_absorb1 intro: exI [of _ "addrs ?x"])
    then show ?thesis using True less.prems(1) by (intro exI [of _ 0] exI [of _ s]) (simp add: writei_loop.simps [of cpi] ikept_refl)
  next
    case False
    then have lt: "tot < n" "off < 268 * 1024" "base \<le> src \<and> src + (n - tot) \<le> top" using less.prems(3-5) by simp_all
    define k where "k = min (n - tot) (1024 - off mod 1024)"
    have k: "0 < k" "k \<le> n - tot" "k \<le> 1024 - off mod 1024" using lt(1) by (simp_all add: k_def)
    have nb: "nblk off (n - tot) = Suc (nblk (off + k) (n - (tot + k)))" using nblk_step [of "n - tot" k off] lt(1) by (simp add: k_def)
    then have l: "lh_n s < 23" using less.prems(6) by simp
    show ?thesis
    proof (rule writei_loop_step [OF less.prems(1) l less.prems(2) lt], goal_cases)
      case (1 t)
      have "fwrote (sb s) (lstart s) ?I (view s) ?x (view t) (inodes t ! ip) M off (\<lambda>i. byte (src + i)) 0"
        using fwrote_none 1(4) less.prems(7-9) by blast
      moreover have "\<forall>b<fssize (sb s). used (sb s) (view t) b" using 1(4) by (simp add: fmapped_def)
      moreover have "lh_n t \<le> lh_n s + 6 * int (nblk off (n - tot))" using 1(3) nb by simp
      ultimately show ?thesis using 1(1,2,4) by (intro exI [of _ 0] exI [of _ t]) simp
    next
      case (2 a t u)
      note e = kept_fs [OF 2(6)]
      have bs: "length (map byte [src..<src + k]) = k" by simp
      have w1: "fwrote (sb s) (lstart s) ?I (view s) ?x (view u) (inodes u ! ip) M off ((!) (map byte [src..<src + k])) k"
        unfolding 2(7) [folded k_def] e(2) using fwrote_chunk [OF _ 2(2) less.prems(7,8) lt(2) less.prems(9) bs k(3)] 2(3) by blast
      then have w1: "fwrote (sb s) (lstart s) ?I (view s) ?x (view u) (inodes u ! ip) M off (\<lambda>i. byte (src + i)) k"
        unfolding fwrote_def by auto
      have ik: "ikept ip s u" using ikept_trans [OF conjunct1 [OF 2(3)] kept_ikept [OF 2(6)]] .
      obtain A where A: "inodes u ! ip = ?x\<lparr>addrs := A\<rparr>" using w1 unfolding fwrote_def by blast
      have fu: "ifile u ip" using w1 ik less.prems(2) A by (simp add: ifile_def fwrote_def ikept_def)
      have "\<exists>r t. writei_loop cpi ip (src + k) (off + k) n (tot + k) u = Inr (tot + k + r, off + k + r, t) \<and> r \<le> n - (tot + k) \<and> txn t {} \<and>
        ikept ip u t \<and> lh_n t \<le> lh_n u + 6 * int (nblk (off + k) (n - (tot + k))) \<and>
        fwrote (sb u) (lstart u) (IBLOCK (inum (inodes u ! ip)) (sb u)) (view u) (inodes u ! ip) (view t) (inodes t ! ip) (max M (off + k)) (off + k)
          (\<lambda>i. byte (src + k + i)) r \<and>
        (r < n - (tot + k) \<longrightarrow> (\<forall>b<fssize (sb u). used (sb u) (view t) b))"
      proof (rule less.hyps)
        show "lh_n u + 6 * int (nblk (off + k) (n - (tot + k))) < 29" using 2(5) less.prems(6) nb by simp
        show "\<forall>bn. bn * 1024 < max M (off + k) \<longrightarrow> fslot (view u) (inodes u ! ip) bn \<noteq> 0" using w1 by (simp add: fwrote_def)
      qed (use k lt fu 2(4) less.prems(3-5,8) in auto)
      then obtain r t' where t': "writei_loop cpi ip (src + k) (off + k) n (tot + k) u = Inr (tot + k + r, off + k + r, t')"
        "r \<le> n - (tot + k)" "txn t' {}" "ikept ip u t'" "lh_n t' \<le> lh_n u + 6 * int (nblk (off + k) (n - (tot + k)))"
        "fwrote (sb s) (lstart s) ?I (view u) (inodes u ! ip) (view t') (inodes t' ! ip) (max M (off + k)) (off + k) (\<lambda>i. byte (src + k + i)) r"
        "r < n - (tot + k) \<longrightarrow> (\<forall>b<fssize (sb s). used (sb s) (view t') b)"
        using ik A by (auto simp: ikept_def)
      have "fwrote (sb s) (lstart s) ?I (view s) ?x (view t') (inodes t' ! ip) M off (\<lambda>i. byte (src + i)) (k + r)"
        using fwrote_trans [OF w1, of "view t'" "inodes t' ! ip" r] t'(6) by (simp add: add.assoc)
      then show ?thesis
        using 2(1) [folded k_def] t' 2(5) nb k ikept_trans [OF ik t'(4)]
        by (intro exI [of _ "k + r"] exI [of _ t']) (auto simp: add.assoc)
    qed
  qed
qed

text \<open>The new size and the block map reach the inode on disk.\<close>

lemma writei_writes:
  fixes s :: "'z fsst_scheme"
  assumes "txn s {}" "ifile s ip" "off \<le> isize (inodes s ! ip)" "off + n \<le> 268 * 1024" "base \<le> src \<and> src + n \<le> top"
    "lh_n s + 6 * int (nblk off n) < 29"
  shows "\<exists>r t. writei cpi ip src off n s = Inr (int r, t) \<and> r \<le> n \<and> txn t {} \<and> ikept ip s t \<and> ifile t ip \<and> synced t ip \<and>
     (r < n \<longrightarrow> (\<forall>b<fssize (sb s). used (sb s) (view t) b)) \<and>
     (\<exists>A. inodes t ! ip = (inodes s ! ip)\<lparr>addrs := A, isize := max (isize (inodes s ! ip)) (off + r)\<rparr>) \<and>
     (\<forall>b. foreign (sb s) (view s) (inodes s ! ip) b \<and> b \<noteq> IBLOCK (inum (inodes s ! ip)) (sb s) \<longrightarrow> view t b = view s b) \<and>
     (\<forall>p<max (isize (inodes s ! ip)) (off + r). fbyte (view t) (inodes t ! ip) p =
        (if off \<le> p \<and> p < off + r then byte (src + (p - off)) else fbyte (view s) (inodes s ! ip) p))"
proof -
  let ?x = "inodes s ! ip" and ?S = "sb s"
  let ?I = "IBLOCK (inum ?x) ?S" and ?z = "isize (inodes s ! ip)"
  have W: "wfile ?S (lstart s) ?I (view s) ?x" and ip: "ip < length (inodes s)" using assms(2) by (simp_all add: ifile_def)
  have size: "?z \<le> 268 * 1024" "\<forall>bn. bn * 1024 < ?z \<longrightarrow> fslot (view s) ?x bn \<noteq> 0" using W by (simp_all add: wfile_def)
  have "\<exists>r t. writei_loop cpi ip src off n 0 s = Inr (0 + r, off + r, t) \<and> r \<le> n - 0 \<and> txn t {} \<and> ikept ip s t \<and>
     lh_n t \<le> lh_n s + 6 * int (nblk off (n - 0)) \<and>
     fwrote ?S (lstart s) ?I (view s) ?x (view t) (inodes t ! ip) ?z off (\<lambda>i. byte (src + i)) r \<and>
     (r < n - 0 \<longrightarrow> (\<forall>b<fssize ?S. used ?S (view t) b))"
    by (rule writei_loop_writes) (use assms size in auto)
  then obtain r t where t: "writei_loop cpi ip src off n 0 s = Inr (r, off + r, t)" "r \<le> n" "txn t {}" "ikept ip s t"
    "lh_n t < 29" "fwrote ?S (lstart s) ?I (view s) ?x (view t) (inodes t ! ip) ?z off (\<lambda>i. byte (src + i)) r"
    "r < n \<longrightarrow> (\<forall>b<fssize ?S. used ?S (view t) b)"
    using assms(6) by auto
  obtain A where A: "inodes t ! ip = ?x\<lparr>addrs := A\<rparr>" using t(6) unfolding fwrote_def by blast
  have W1: "wfile ?S (lstart s) ?I (view t) (inodes t ! ip)" using t(6) by (simp add: fwrote_def)
  let ?z' = "max ?z (off + r)"
  define t1 where "t1 = (if off + r > isize (inodes t ! ip) then inode_upd ip (\<lambda>x. x\<lparr>isize := off + r\<rparr>) t else t)"
  have ipt: "ip < length (inodes t)" using ip t(4) by (simp add: ikept_def)
  have t1: "inodes t1 ! ip = ?x\<lparr>addrs := A, isize := ?z'\<rparr>" "txn t1 {}" "lh_n t1 < 29" "view t1 = view t" "sb t1 = ?S" "lstart t1 = lstart s"
    using A ipt t(3-5) by (auto simp: t1_def ikept_def)
  have d: "idev (inodes t1 ! ip) = 1" and b: "iblock_ok t1 (inum (inodes t1 ! ip))"
    using W W1 t1 by (auto simp: wfile_def layout_def iblock_ok_def logarea_def)
  obtain u where u: "iupdate ip t1 = Inr u" "txn u {}" "kept t1 u"
    "view u = (view t1)(IBLOCK (inum (inodes t1 ! ip)) (sb t1) :=
       dinode_store (dinode_off (inum (inodes t1 ! ip))) (inodes t1 ! ip) (view t1 (IBLOCK (inum (inodes t1 ! ip)) (sb t1))))"
    by (rule iupdate_spec [OF t1(2,3) d b])
  have inum: "inum (inodes t1 ! ip) = inum ?x" by (simp add: t1(1))
  let ?d = "dinode_store (dinode_off (inum ?x)) (inodes t1 ! ip) (view t ?I)"
  have z: "off + r \<le> 268 * 1024" "max ?z (off + r) \<le> 268 * 1024" using t(2) assms(4) size(1) by simp_all
  have "inode_ok ((inodes t ! ip)\<lparr>isize := max ?z (off + r)\<rparr>)" by (rule wfile_inode_ok [OF W1 z(2)])
  then have ok: "inode_ok (inodes t1 ! ip)" by (simp add: A t1(1))
  have room: "dinode_off (inum ?x) + 64 \<le> length (view t ?I)"
    using b t1(4,5) inum by (simp add: iblock_ok_def dinode_off_def) 
  have len: "length ?d = 1024" using length_dinode_store [OF ok room] b t1(4,5) inum by (simp add: iblock_ok_def)
  have v: "view u = (view t)(?I := ?d)" using u(4) t1(4,5) inum by simp
  note e = kept_fs [OF u(3)]
  have x': "inodes u ! ip = ?x\<lparr>addrs := A, isize := max ?z (off + r)\<rparr>" using e(2) t1(1) by simp
  note fin = fwrote_finish [OF t(6) [unfolded A] len size(1) z(1), folded v x']
  have "ikept ip s t1" using t(4) ikept_trans upd_ikept by (simp add: t1_def) blast
  then have ik: "ikept ip s u" using ikept_trans kept_ikept [OF u(3)] by blast
  have iu: "inum (inodes u ! ip) = inum ?x" by (simp add: x')
  have f: "ifile u ip" using fin(1) ik ip iu by (simp add: ifile_def ikept_def)
  have sy: "synced u ip"
    using dinode_roundtrip [OF ok room, of "inodes u ! ip"] ik iu x' t1(1) by (simp add: synced_def v ikept_def)
  have full: "r < n \<longrightarrow> (\<forall>b<fssize ?S. used ?S (view u) b)"
    using t(7) W1 used_cong [of _ ?S "view u" "view t"] by (auto simp: v wfile_def layout_def)
  have "writei cpi ip src off n s = Inr (int r, u)"
    using assms(3,4) t(1) u(1) by (simp add: writei_def t1_def [symmetric] Let_def)
  then show ?thesis using t(2) u(2) ik f sy full x' fin(2,3) by blast
qed

end

text \<open>Bytes of the kernel, as in \<^verbatim>\<open>dirlink\<close>, are such a source.\<close>

interpretation src: byte_source "cpi_local bs" "\<lambda>i. bs ! i" 0 "length bs" for bs
proof
  fix src' k assume "src' + k \<le> length bs"
  then show "cpi_local bs src' k = Inr (0, map (\<lambda>i. bs ! i) [src'..<src' + k])"
    by (auto simp: cpi_local_def intro!: nth_equalityI)
qed

section \<open>Writing and reading back\<close>

lemma fbytes_put:
  assumes "off \<le> z" "\<forall>p<max z (off + length ys). fbyte v' x' p = (if off \<le> p \<and> p < off + length ys then ys ! (p - off) else fbyte v x p)"
  shows "fbytes v' x' 0 (max z (off + length ys)) = put off ys (fbytes v x 0 z)"
proof (rule nth_equalityI)
  show "length (fbytes v' x' 0 (max z (off + length ys))) = length (put off ys (fbytes v x 0 z))"
    using assms(1) by (simp add: put_def max_def)
next
  fix p assume "p < length (fbytes v' x' 0 (max z (off + length ys)))"
  then show "fbytes v' x' 0 (max z (off + length ys)) ! p = put off ys (fbytes v x 0 z) ! p"
    using assms by (auto simp: fbytes_def put_def nth_append)
qed

text \<open>
  C5: \<^verbatim>\<open>writei\<close> inside a transaction with room in the log stores the bytes at the offset, one byte after the other, and
  extends the file when it goes past its end. No other byte of the file and no block outside it changes, apart
  from the bitmap and the inode; the file stays well-formed, whatever blocks had to be allocated. It stops early only
  when the disk is full, and then the bytes counted by its result have been written.
\<close>

theorem writei_writes_bytes:
  fixes s :: "'z fsst_scheme"
  assumes "txn s {}" "ifile s ip" "off \<le> isize (inodes s ! ip)" "off + length bs \<le> 268 * 1024"
    and "lh_n s + 6 * int (nblk off (length bs)) < 29"
  shows "\<exists>r t. writei (cpi_local bs) ip 0 off (length bs) s = Inr (int r, t) \<and> r \<le> length bs \<and>
     (r < length bs \<longrightarrow> (\<forall>b<fssize (sb s). used (sb s) (view t) b)) \<and> txn t {} \<and> ifile t ip \<and> disk t = disk s \<and>
     isize (inodes t ! ip) = max (isize (inodes s ! ip)) (off + r) \<and>
     fbytes (view t) (inodes t ! ip) 0 (isize (inodes t ! ip)) =
       put off (take r bs) (fbytes (view s) (inodes s ! ip) 0 (isize (inodes s ! ip))) \<and>
     (\<forall>b. foreign (sb s) (view s) (inodes s ! ip) b \<and> b \<noteq> IBLOCK (inum (inodes s ! ip)) (sb s) \<longrightarrow> view t b = view s b)"
proof -
  let ?x = "inodes s ! ip"
  obtain r t where t: "writei (cpi_local bs) ip 0 off (length bs) s = Inr (int r, t)" "r \<le> length bs" "txn t {}" "ikept ip s t" "ifile t ip"
    "r < length bs \<longrightarrow> (\<forall>b<fssize (sb s). used (sb s) (view t) b)" "\<exists>A. inodes t ! ip = ?x\<lparr>addrs := A, isize := max (isize ?x) (off + r)\<rparr>"
    "\<forall>b. foreign (sb s) (view s) ?x b \<and> b \<noteq> IBLOCK (inum ?x) (sb s) \<longrightarrow> view t b = view s b"
    "\<forall>p<max (isize ?x) (off + r). fbyte (view t) (inodes t ! ip) p =
        (if off \<le> p \<and> p < off + r then bs ! (0 + (p - off)) else fbyte (view s) ?x p)"
    using src.writei_writes [OF assms(1-4), of 0 bs] assms(5) by auto
  have z: "isize (inodes t ! ip) = max (isize ?x) (off + length (take r bs))" using t(2,7) by auto
  have "fbytes (view t) (inodes t ! ip) 0 (max (isize ?x) (off + length (take r bs))) = put off (take r bs) (fbytes (view s) ?x 0 (isize ?x))"
    by (rule fbytes_put [OF assms(3)]) (use t(2,9) in auto)
  then show ?thesis using t z by (intro exI [of _ r] exI [of _ t]) (simp add: ikept_def)
qed

lemma ifile_file_ok:
  assumes "ifile s ip"
  shows "file_ok (view s) (inodes s ! ip)"
proof -
  let ?x = "inodes s ! ip"
  obtain S L I where W: "wfile S L I (view s) ?x" using assms unfolding ifile_def by blast
  have "blkaddr (view s) ?x bn = fslot (view s) ?x bn \<and> fslot (view s) ?x bn \<noteq> 0 \<and> length (view s (fslot (view s) ?x bn)) = 1024 \<and>
      (12 \<le> bn \<longrightarrow> addrs ?x ! 12 \<noteq> 0)" if "bn * 1024 < isize ?x" for bn
  proof -
    have bn: "bn < 268" "fslot (view s) ?x bn \<noteq> 0" using W that unfolding wfile_def by auto
    then have "data_block S L I (view s) (fslot (view s) ?x bn)" using W by (simp add: wfile_def)
    moreover have "12 \<le> bn \<longrightarrow> addrs ?x ! 12 \<noteq> 0" using bn by (auto simp: fslot_def split: if_splits)
    ultimately show ?thesis using bn fslot_blkaddr [OF bn] by (simp add: data_block_def)
  qed
  then show ?thesis using W by (auto simp: file_ok_def wfile_def)
qed

text \<open>
  C12: what \<^verbatim>\<open>writei\<close> has written, \<^verbatim>\<open>readi\<close> reads back: unless the disk is full all bytes are written, and a read of
  as many bytes at the same offset, in the same transaction, returns exactly them.
\<close>

theorem writei_readi_roundtrip:
  fixes s :: "'z fsst_scheme"
  assumes "txn s {}" "ifile s ip" "off \<le> isize (inodes s ! ip)" "off + length bs \<le> 268 * 1024"
    and "lh_n s + 6 * int (nblk off (length bs)) < 29" "length bs \<le> length m"
  shows "\<exists>r t u. writei (cpi_local bs) ip 0 off (length bs) s = Inr (int r, t) \<and>
     (r = length bs \<or> r < length bs \<and> (\<forall>b<fssize (sb s). used (sb s) (view t) b)) \<and>
     readi cpo_local ip 0 off r t m = Inr (int r, u, put 0 (take r bs) m)"
proof -
  let ?x = "inodes s ! ip"
  obtain r t where t: "writei (cpi_local bs) ip 0 off (length bs) s = Inr (int r, t)" "r \<le> length bs" "txn t {}" "ifile t ip"
    "r < length bs \<longrightarrow> (\<forall>b<fssize (sb s). used (sb s) (view t) b)" "\<exists>A. inodes t ! ip = ?x\<lparr>addrs := A, isize := max (isize ?x) (off + r)\<rparr>"
    "\<forall>p<max (isize ?x) (off + r). fbyte (view t) (inodes t ! ip) p =
        (if off \<le> p \<and> p < off + r then bs ! (0 + (p - off)) else fbyte (view s) ?x p)"
    using src.writei_writes [OF assms(1-4), of 0 bs] assms(5) by auto
  have z: "isize (inodes t ! ip) = max (isize ?x) (off + r)" using t(6) by auto
  then have le: "off \<le> isize (inodes t ! ip)" "off + r < 2 ^ 32" and mn: "min r (isize (inodes t ! ip) - off) = r"
    using assms(3,4) t(2) by auto
  have "fbytes (view t) (inodes t ! ip) off r = take r bs"
    using t(2,7) by (intro nth_equalityI) (auto simp: fbytes_def)
  moreover have "lh_n t < 30" using txnD(7) [OF t(3)] .
  then obtain u where "readi cpo_local ip 0 off r t m =
      Inr (int (min r (isize (inodes t ! ip) - off)), u, put 0 (fbytes (view t) (inodes t ! ip) off (min r (isize (inodes t ! ip) - off))) m)"
    using loc.readi_copies [OF t(3) _ ifile_file_ok [OF t(4)] le, of 0 m] t(2) assms(6) by fastforce
  ultimately show ?thesis using t(1,2,5) mn by (intro exI [of _ r] exI [of _ t] exI [of _ u]) auto
qed

section \<open>An instance\<close>

text \<open>An empty file in the small file system.\<close>

definition fs_new :: fsst where
  "fs_new = inode_upd 0 (\<lambda>x. \<lparr>idev = 1, inum = 1, iref = 1, ilk = initsleeplock, ivalid = True, itype = 2, major = 0, minor = 0,
       nlink = 1, isize = 0, addrs = replicate 13 0\<rparr>) fs_demo"

lemma fs_new_simps: "txn fs_new {}" "lh_n fs_new = 0" "view fs_new = fs_disk" "length (inodes fs_new) = 50"
  "inodes fs_new ! 0 = \<lparr>idev = 1, inum = 1, iref = 1, ilk = initsleeplock, ivalid = True, itype = 2, major = 0, minor = 0,
       nlink = 1, isize = 0, addrs = replicate 13 0\<rparr>" "sb fs_new = sb fs_demo" "lstart fs_new = 2"
  by (simp_all add: fs_new_def fs_demo_txn fs_demo_sel fs_demo_view) (simp_all add: fs_demo_def)

lemma fs_new_file: "ifile fs_new 0"
proof -
  have B: "bitmap_blocks (sb fs_demo) = {45}"
    by (auto simp: bitmap_blocks_def BBLOCK_def fs_demo_sel intro!: image_eqI [of _ _ 0])
  have u: "used (sb fs_demo) fs_disk b \<longleftrightarrow> b < 46" if "b < 100" for b using fs_demo_used [OF that] by (simp add: fs_demo_view)
  have "layout (sb fs_demo) 2 32 fs_disk"
    unfolding layout_def B using u by (auto simp: logarea_def) (auto simp: fs_demo_sel fs_disk_def)
  moreover have "fslot fs_disk (inodes fs_new ! 0) j = 0" if "j \<le> 268" for j using that by (simp add: fslot_def fs_new_simps)
  ultimately show ?thesis unfolding ifile_def wfile_def
    by (simp add: fs_new_simps IBLOCK_def) (simp add: fs_demo_sel)
qed

lemma fs_new_room: "0 \<le> isize (inodes fs_new ! 0)" "0 + length [7 :: u8, 8, 9] \<le> 268 * 1024"
  "lh_n fs_new + 6 * int (nblk 0 (length [7 :: u8, 8, 9])) < 29" "length [7 :: u8, 8, 9] \<le> length [1 :: u8, 1, 1, 1]"
  by (simp_all add: fs_new_simps nblk_def)

theorem writei_writes_bytes_witness:
  "\<exists>r t. writei (cpi_local [7, 8, 9]) 0 0 0 (length [7 :: u8, 8, 9]) fs_new = Inr (int r, t) \<and> ifile t 0 \<and> isize (inodes t ! 0) = r \<and>
     fbytes (view t) (inodes t ! 0) 0 r = take r [7, 8, 9]"
proof -
  obtain r t where t: "writei (cpi_local [7, 8, 9]) 0 0 0 (length [7 :: u8, 8, 9]) fs_new = Inr (int r, t)" "ifile t 0"
    "isize (inodes t ! 0) = max (isize (inodes fs_new ! 0)) (0 + r)"
    "fbytes (view t) (inodes t ! 0) 0 (isize (inodes t ! 0)) =
       put 0 (take r [7, 8, 9]) (fbytes (view fs_new) (inodes fs_new ! 0) 0 (isize (inodes fs_new ! 0)))"
    using writei_writes_bytes [OF fs_new_simps(1) fs_new_file fs_new_room(1-3)] by blast
  have z: "isize (inodes fs_new ! 0) = 0" by (simp add: fs_new_simps)
  have "fbytes (view t) (inodes t ! 0) 0 r = take r [7, 8, 9]"
    using t(3,4) unfolding z by (simp add: put_def fbytes_def)
  then show ?thesis using t z by (intro exI [of _ r] exI [of _ t]) simp
qed

theorem writei_readi_roundtrip_witness:
  "\<exists>r t u. writei (cpi_local [7, 8, 9]) 0 0 0 (length [7 :: u8, 8, 9]) fs_new = Inr (int r, t) \<and>
     readi cpo_local 0 0 0 r t [1, 1, 1, 1] = Inr (int r, u, put 0 (take r [7, 8, 9]) [1, 1, 1, 1])"
  using writei_readi_roundtrip [OF fs_new_simps(1) fs_new_file fs_new_room] by blast

end
