(* ===== verification/FileWrite.thy ===== *)
theory FileWrite
  imports File FsWrite
begin

text \<open>
  One transaction of \<^verbatim>\<open>filewrite\<close> of \<^verbatim>\<open>kernel/file.c\<close>, from \<^verbatim>\<open>begin_op\<close> to \<^verbatim>\<open>end_op\<close>: user memory,
  file system and log together. A crash at any point of it leaves the old file or the written one.
\<close>

section \<open>User memory as a source of bytes\<close>

lemma copyin_list_ok:
  assumes "\<forall>v\<in>{va..<va + len}. user_page (mem s) pt v"
  shows "copyin_list pt va len s = Inr (0, map (\<lambda>v. mem s (phys (mem s) pt v)) [va..<va + len])"
  using assms
proof (induction len arbitrary: va rule: less_induct)
  case (less len)
  let ?f = "\<lambda>v. mem s (phys (mem s) pt v)"
  show ?case
  proof (cases "len = 0")
    case True
    then show ?thesis by (simp add: copyin_list.simps)
  next
    case False
    then have pos: "0 < len" by simp
    let ?va0 = "PGROUNDDOWN va" and ?n = "chunk va len"
    have n: "0 < ?n" "?n \<le> len" "?n < len \<Longrightarrow> ?va0 + 4096 = va + ?n" using chunk_facts [OF pos] by auto
    have up: "user_page (mem s) pt ?va0" using less.prems pos by (intro user_page_rounddown) simp
    have first: "read_list (mem s) (PTE2PA (xl 2 (mem s) pt va) + (va - ?va0)) ?n = map ?f [va..<va + ?n]"
      by (rule nth_equalityI) (simp_all add: read_list_def chunk_phys [OF pos])
    have rest: "copyin_list pt (?va0 + 4096) (len - ?n) s = Inr (0, map ?f [va + ?n..<va + len])"
    proof (cases "?n < len")
      case True
      then have "copyin_list pt (va + ?n) (len - ?n) s = Inr (0, map ?f [va + ?n..<va + ?n + (len - ?n)])"
        using less.prems n(1) by (intro less.IH) auto
      then show ?thesis using n(3) [OF True] True by simp
    next
      case False
      then show ?thesis using n(2) by (simp add: copyin_list.simps)
    qed
    have "[va..<va + len] = [va..<va + ?n] @ [va + ?n..<va + len]"
      using upt_add_eq_append [of va "va + ?n" "len - ?n"] n(2) by simp
    then show ?thesis
      using walkaddr_page [OF up] pos first rest
      by (subst copyin_list.simps) (simp add: Let_def chunk_def xl_rounddown)
  qed
qed

text \<open>The bytes of the current process at user addresses from \<open>va\<close> on.\<close>

definition user_bytes :: "'z kst_scheme \<Rightarrow> nat \<Rightarrow> nat \<Rightarrow> nat \<Rightarrow> u8 list" where
  "user_bytes k pt va n = map (\<lambda>v. mem k (phys (mem k) pt v)) [va..<va + n]"

lemma user_source:
  assumes "myproc k = Inr p" "\<forall>v\<in>{lo..<hi}. user_page (mem k) (pagetable (procs k ! p)) v"
  shows "byte_source (\<lambda>a m. either_copyin True a m k)
     (\<lambda>v. mem k (phys (mem k) (pagetable (procs k ! p)) v)) lo hi"
proof
  fix src n assume "lo \<le> src" "src + n \<le> hi"
  then have "\<forall>v\<in>{src..<src + n}. user_page (mem k) (pagetable (procs k ! p)) v" using assms(2) by auto
  then show "either_copyin True src n k = Inr (0, map (\<lambda>v. mem k (phys (mem k) (pagetable (procs k ! p)) v)) [src..<src + n])"
    using assms(1) by (simp add: either_copyin_def copyin_list_ok)
qed

section \<open>The last operation of a transaction\<close>

text \<open>No operation is in progress, and the log in memory and on disk is empty.\<close>

definition quiet :: "'z lst_scheme \<Rightarrow> bool" where
  "quiet s \<longleftrightarrow> held s {} {} \<and> ldev s = 1 \<and> length (lh_block s) = 30 \<and> lh_n s = 0 \<and> outstanding s = 0 \<and> \<not> committing s \<and>
     30 \<le> lsize s \<and> 128 \<le> length (disk s (lstart s)) \<and> get32 0 (disk s (lstart s)) = 0"

definition off_log :: "'z lst_scheme \<Rightarrow> (nat \<Rightarrow> block) \<Rightarrow> (nat \<Rightarrow> block) \<Rightarrow> bool" where
  "off_log s m v \<longleftrightarrow> (\<forall>b. b \<notin> logarea (lstart s) \<longrightarrow> m b = v b)"

lemma begin_op_quiet:
  fixes s :: "'z lst_scheme"
  assumes "quiet s"
  obtains t where "begin_op s = Inr t" "t = s\<lparr>outstanding := 1\<rparr>" "txn t {}"
  using that [of "s\<lparr>outstanding := 1\<rparr>"] assms
  by (simp add: quiet_def begin_op_def txn_def log_ok_def logged_def)

lemma quiet_view: "quiet s \<Longrightarrow> view s = disk s"
  using held_clean [of s "{}"] by (auto simp: quiet_def)

text \<open>The \<^verbatim>\<open>end_op\<close> of the only operation commits; a reboot after any part of its writes finds all or nothing.\<close>

lemma end_op_last:
  fixes s :: "'z lst_scheme"
  assumes x: "txn s {}" "outstanding s = 1" "\<not> committing s" and hd: "128 \<le> length (disk s (lstart s))" "get32 0 (disk s (lstart s)) = 0"
  obtains t where "end_op s = Inr t" "quiet t" "lst.more t = lst.more s" "lstart t = lstart s" "off_log s (disk t) (view s)"
    "\<And>j nl (b :: 'y lst_scheme). held b {} {} \<Longrightarrow> disk b = writes (take j (drop (length (dwrites s)) (dwrites t))) (disk s) \<Longrightarrow>
       \<exists>u. initlog 1 (lstart s) nl b = Inr u \<and> lh_n u = 0 \<and> (off_log s (disk u) (disk s) \<or> off_log s (disk u) (view s))"
proof -
  note X = txnD [OF x(1)]
  let ?s = "s\<lparr>outstanding := 0, committing := True\<rparr>"
  have ok: "log_ok ?s" "held ?s (set (logged ?s)) {}" "view ?s = view s" "disk ?s = disk s" "logged ?s = logged s"
    using X(1,2) by (simp_all add: log_ok_def logged_def)
  have "lstart s \<notin> set (logged s)" using log_okD(8) [OF X(1)] by force
  then have vh: "view s (lstart s) = disk s (lstart s)" using held_clean [OF X(2)] by blast
  show thesis
  proof (cases "0 < lh_n s")
    case True
    obtain t h1 h0 where t: "commit ?s = Inr t" "dwrites t = dwrites s @ commit_list ?s h1 h0" "disk t = writes (commit_list ?s h1 h0) (disk s)"
      "held t {} {}" "lh_n t = 0" "outstanding t = 0" "lst.more t = lst.more s" "lstart t = lstart s" "lsize t = lsize s" "ldev t = 1"
      "lh_block t = lh_block s" and w: "get32 0 h1 = length (logged s)" "\<forall>k<length (logged s). get32 (4 + 4 * k) h1 = logged s ! k"
      "get32 0 h0 = 0" "128 \<le> length h1" "128 \<le> length h0"
      by (rule commit_wrote [OF ok(1) _ ok(2)]) (use True hd(1) vh ok in simp_all)
    let ?t = "t\<lparr>committing := False, wakes := wakes t @ [ChLog]\<rparr>"
    have e: "end_op s = Inr ?t" using x t(1) by (simp add: end_op_def Let_def)
    have all: "take (length (commit_list ?s h1 h0)) (commit_list ?s h1 h0) = commit_list ?s h1 h0" by simp
    have D: "disk t (lstart s) = h0 \<and> (\<forall>b. b \<notin> {lstart s..<lstart s + 30} \<longrightarrow> disk t b = view s b)"
      using commit_prefix(3) [OF ok(1,2), where k = "length (commit_list ?s h1 h0)" and ?h1.0 = h1 and ?h0.0 = h0, unfolded all] ok(5) t(3)
      by (simp add: commit_list_def ok(3,4))
    have q: "quiet ?t" using t D w X(1,3) by (simp add: quiet_def log_ok_def)
    have ol: "off_log s (disk ?t) (view s)" using D by (simp add: off_log_def logarea_def)
    have r: "\<exists>u. initlog 1 (lstart s) nl b = Inr u \<and> lh_n u = 0 \<and> (off_log s (disk u) (disk s) \<or> off_log s (disk u) (view s))"
      if b: "held b {} {}" "disk b = writes (take j (drop (length (dwrites s)) (dwrites ?t))) (disk s)" for j nl and b :: "'y lst_scheme"
    proof -
      have "disk b = writes (take j (commit_list ?s h1 h0)) (disk ?s)" using b(2) t(2) by simp
      from commit_reboot [OF ok(1,2) _ _ _ _ w(3-5) b(1) this, of nl]
      show ?thesis using hd w(1,2) by (auto simp: off_log_def logarea_def ok(3,5))
    qed
    show thesis by (rule that [of ?t, OF e q _ _ ol r]) (use t in simp_all)
  next
    case False
    then have n: "lh_n s = 0" "logged s = []" using X(6) by (simp_all add: logged_def)
    let ?t = "s\<lparr>outstanding := 0, committing := False, wakes := wakes s @ [ChLog]\<rparr>"
    have e: "end_op s = Inr ?t" using x n by (simp add: end_op_def Let_def commit_def)
    have q: "quiet ?t" using X n hd by (simp add: quiet_def log_ok_def)
    have ol: "off_log s (disk ?t) (view s)" using held_clean [OF X(2)] n by (simp add: off_log_def)
    have r: "\<exists>u. initlog 1 (lstart s) nl b = Inr u \<and> lh_n u = 0 \<and> (off_log s (disk u) (disk s) \<or> off_log s (disk u) (view s))"
      if b: "held b {} {}" "disk b = writes (take j (drop (length (dwrites s)) (dwrites ?t))) (disk s)" for j nl and b :: "'y lst_scheme"
    proof -
      let ?b = "b\<lparr>lstart := lstart s, lsize := int nl, ldev := 1\<rparr>"
      obtain u h0 where "recover_from_log ?b = Inr u" "lh_n u = 0" "disk u = (disk ?b)(lstart s := h0)"
        by (rule recover_empty [of ?b]) (use b hd in simp_all)
      then show ?thesis using b(2) by (auto simp: initlog_eq off_log_def logarea_def)
    qed
    show thesis by (rule that [of ?t, OF e q _ _ ol r]) simp_all
  qed
qed

section \<open>Files on disk\<close>

definition no_inode :: inode where
  "no_inode = \<lparr>idev = 0, inum = 0, iref = 0, ilk = initsleeplock, ivalid = False, itype = 0, major = 0, minor = 0,
     nlink = 0, isize = 0, addrs = []\<rparr>"

text \<open>The bytes of the file with inode number \<open>n\<close> that the blocks \<open>m\<close> hold.\<close>

definition file_on_disk :: "superblock \<Rightarrow> nat \<Rightarrow> (nat \<Rightarrow> block) \<Rightarrow> u8 list" where
  "file_on_disk S n m = (let x = dinode_load (dinode_off n) (m (IBLOCK n S)) no_inode in fbytes m x 0 (isize x))"

lemma fbytes_addrs: "addrs x' = addrs x \<Longrightarrow> fbytes v x' = fbytes v x"
  by (simp add: fun_eq_iff fbytes_def fbyte_def blkaddr_def)

text \<open>The blocks of a well-formed file are outside the log.\<close>

lemma wfile_fbytes:
  assumes "wfile S L I v x" "\<forall>b. b \<notin> logarea L \<longrightarrow> m b = v b"
  shows "fbytes m x 0 (isize x) = fbytes v x 0 (isize x)"
proof (rule nth_equalityI)
  fix p assume "p < length (fbytes m x 0 (isize x))"
  then have p: "p < isize x" by simp
  let ?bn = "p div 1024"
  have "?bn * 1024 < isize x" using p div_times_less_eq_dividend [of p 1024] by linarith
  then have bn: "?bn < 268" "fslot v x ?bn \<noteq> 0" using assms(1) unfolding wfile_def by auto
  then have d: "data_block S L I v (fslot v x ?bn)" using assms(1) unfolding wfile_def by (metis less_imp_le)
  have "12 \<le> ?bn \<Longrightarrow> addrs x ! 12 \<noteq> 0" using bn by (auto simp: fslot_def split: if_splits)
  then have "blkaddr m x ?bn = blkaddr v x ?bn"
    using wfile_indirect [OF assms(1)] assms(2) by (auto simp: blkaddr_def data_block_def)
  moreover have "m (blkaddr v x ?bn) = v (blkaddr v x ?bn)"
    using fslot_blkaddr [OF bn] d assms(2) by (simp add: data_block_def)
  ultimately show "fbytes m x 0 (isize x) ! p = fbytes v x 0 (isize x) ! p"
    using p by (simp add: fbytes_def fbyte_def)
qed simp

lemma file_on_disk_synced:
  fixes s :: "'z fsst_scheme"
  assumes f: "ifile s ip" and sy: "synced s ip" and m: "off_log s m (view s)"
  shows "file_on_disk (sb s) (inum (inodes s ! ip)) m = fbytes (view s) (inodes s ! ip) 0 (isize (inodes s ! ip))"
proof -
  let ?x = "inodes s ! ip" and ?I = "IBLOCK (inum (inodes s ! ip)) (sb s)"
  have W: "wfile (sb s) (lstart s) ?I (view s) ?x" using f by (simp add: ifile_def)
  have mv: "\<forall>b. b \<notin> logarea (lstart s) \<longrightarrow> m b = view s b" using m by (simp add: off_log_def)
  have "m ?I = view s ?I" using W mv by (simp add: wfile_def layout_def)
  then have "isize (dinode_load (dinode_off (inum ?x)) (m ?I) no_inode) = isize ?x"
    "addrs (dinode_load (dinode_off (inum ?x)) (m ?I) no_inode) = addrs ?x"
    using sy by (simp_all add: synced_def disk_fields_def dinode_load_def)
  then show ?thesis
    using fbytes_addrs [of "dinode_load (dinode_off (inum ?x)) (m ?I) no_inode" ?x m] wfile_fbytes [OF W mv]
    by (simp add: file_on_disk_def Let_def)
qed

lemma wfile_off_log:
  assumes w: "wfile S L I v x" and v: "\<forall>b. b \<notin> logarea L \<longrightarrow> v' b = v b"
    and y: "addrs y = addrs x" "isize y = isize x" "idev y = idev x"
  shows "wfile S L I v' y"
proof -
  have lay: "layout S L I v" using w by (simp add: wfile_def)
  have I: "\<forall>b\<in>insert I (bitmap_blocks S). v' b = v b" using lay v by (simp add: layout_def)
  then have u: "\<And>b. b < fssize S \<Longrightarrow> used S v' b = used S v b" using used_cong by blast
  have lay': "layout S L I v'" using lay I u unfolding layout_def by simp
  have d: "data_block S L I v' a" if "data_block S L I v a" for a
    using that u v by (simp add: data_block_def)
  have "addrs x ! 12 \<noteq> 0 \<Longrightarrow> v' (addrs x ! 12) = v (addrs x ! 12)"
    using wfile_indirect [OF w] v by (simp add: data_block_def)
  then have "fslot v' y = fslot v x" using y by (auto simp: fslot_def fun_eq_iff)
  then show ?thesis using w lay' d y unfolding wfile_def by simp
qed

text \<open>Fields of the entry that the file does not depend on, and blocks of the log.\<close>

lemma ifile_entry:
  fixes s t :: "'z fsst_scheme"
  assumes "sb t = sb s" "lstart t = lstart s" "off_log s (view t) (view s)" "length (inodes t) = length (inodes s)"
    and "inum (inodes t ! ip) = inum (inodes s ! ip)" "idev (inodes t ! ip) = idev (inodes s ! ip)"
      "disk_fields (inodes t ! ip) = disk_fields (inodes s ! ip)"
    and f: "ifile s ip"
  shows "ifile t ip" "synced t ip = synced s ip"
proof -
  let ?x = "inodes s ! ip" and ?y = "inodes t ! ip" and ?I = "IBLOCK (inum (inodes s ! ip)) (sb s)"
  have W: "wfile (sb s) (lstart s) ?I (view s) ?x" using f by (simp add: ifile_def)
  have v: "\<forall>b. b \<notin> logarea (lstart s) \<longrightarrow> view t b = view s b" using assms(3) by (simp add: off_log_def)
  have y: "addrs ?y = addrs ?x" "isize ?y = isize ?x" using assms(7) by (simp_all add: disk_fields_def)
  have I: "view t ?I = view s ?I" using W v by (auto simp: wfile_def layout_def)
  show "synced t ip = synced s ip"
    using I assms(1,5,7) by (simp add: synced_def disk_fields_def dinode_load_def)
  show "ifile t ip"
    using wfile_off_log [OF W v y assms(6)] f assms(1,2,4,5) by (simp add: ifile_def)
qed

section \<open>The transaction\<close>

text \<open>An inode that a process has open and nobody has locked; the entry is valid and agrees with the disk.\<close>

definition open_file :: "'z fsst_scheme \<Rightarrow> nat \<Rightarrow> bool" where
  "open_file s ip \<longleftrightarrow> ifile s ip \<and> synced s ip \<and> ivalid (inodes s ! ip) \<and> 1 \<le> iref (inodes s ! ip) \<and> \<not> slocked (ilk (inodes s ! ip))"

lemma ilock_valid:
  fixes s :: "'z fsst_scheme"
  assumes "ip < length (inodes s)" "ivalid (inodes s ! ip)" "1 \<le> iref (inodes s ! ip)" "\<not> slocked (ilk (inodes s ! ip))"
  shows "ilock ip s = Inr (inode_upd ip (\<lambda>x. x\<lparr>ilk := \<lparr>slocked = True, slpid = curpid s\<rparr>\<rparr>) s)"
  using assms by (simp add: ilock_def sl_acquire_free Let_def)

lemma txn_wakes [simp]:
  fixes s :: "'z lst_scheme"
  shows "txn (s\<lparr>wakes := w\<rparr>) H = txn s H"
  by (simp add: txn_def log_ok_def logged_def)

lemma nblk_max: "n \<le> 3072 \<Longrightarrow> nblk off n < 5"
proof -
  assume "n \<le> 3072"
  then have "off mod 1024 + n + 1023 < 5 * 1024" using mod_less_divisor [of 1024 off] by linarith
  then show ?thesis by (simp add: nblk_def less_mult_imp_div_less)
qed

text \<open>\<^verbatim>\<open>ilock\<close> and \<^verbatim>\<open>iunlock\<close> change the lock of the entry only.\<close>

lemma lock_open:
  fixes s :: "'z fsst_scheme"
  assumes x: "txn s {}" and o: "open_file s ip"
  obtains t where "ilock ip s = Inr t" "t = inode_upd ip (\<lambda>x. x\<lparr>ilk := \<lparr>slocked = True, slpid = curpid s\<rparr>\<rparr>) s" "txn t {}" "view t = view s"
    "inodes t ! ip = (inodes s ! ip)\<lparr>ilk := \<lparr>slocked = True, slpid = curpid s\<rparr>\<rparr>" "ifile t ip"
proof -
  let ?t = "inode_upd ip (\<lambda>x. x\<lparr>ilk := \<lparr>slocked = True, slpid = curpid s\<rparr>\<rparr>) s"
  have f: "ifile s ip" and ip: "ip < length (inodes s)" using o by (simp_all add: open_file_def ifile_def)
  have l: "ilock ip s = Inr ?t" using ilock_valid [of ip s] o ip by (simp add: open_file_def)
  have "ifile ?t ip" by (rule ifile_entry(1) [OF _ _ _ _ _ _ _ f]; simp add: off_log_def ip disk_fields_def)
  then show thesis using that [OF l refl] x ip by simp
qed

lemma unlock_file:
  fixes s :: "'z fsst_scheme"
  assumes x: "txn s {}" and f: "ifile s ip" "synced s ip" and l: "ilk (inodes s ! ip) = \<lparr>slocked = True, slpid = curpid s\<rparr>" "1 \<le> iref (inodes s ! ip)"
  obtains t where "iunlock ip s = Inr t" "t = (inode_upd ip (\<lambda>x. x\<lparr>ilk := sl_release (ilk x)\<rparr>) s)\<lparr>wakes := wakes s @ [ChInode ip]\<rparr>"
    "txn t {}" "view t = view s" "inodes t ! ip = (inodes s ! ip)\<lparr>ilk := sl_release (ilk (inodes s ! ip))\<rparr>" "ifile t ip" "synced t ip"
proof -
  let ?t = "(inode_upd ip (\<lambda>x. x\<lparr>ilk := sl_release (ilk x)\<rparr>) s)\<lparr>wakes := wakes s @ [ChInode ip]\<rparr>"
  have ip: "ip < length (inodes s)" using f by (simp add: ifile_def)
  have u: "iunlock ip s = Inr ?t" using l by (simp add: iunlock_def sl_holding_def)
  have d: "disk_fields (inodes ?t ! ip) = disk_fields (inodes s ! ip)" "inum (inodes ?t ! ip) = inum (inodes s ! ip)"
    "idev (inodes ?t ! ip) = idev (inodes s ! ip)" "length (inodes ?t) = length (inodes s)" "sb ?t = sb s" "lstart ?t = lstart s"
    "off_log s (view ?t) (view s)"
    using ip by (simp_all add: disk_fields_def off_log_def)
  note e = ifile_entry [OF d(5,6,7,4,2,3,1) f(1)]
  show thesis by (rule that [OF u refl _ _ _ e(1)]) (use x ip e(2) f(2) in simp_all)
qed

text \<open>The bytes of the file after a write, as a list.\<close>

lemma written_bytes:
  assumes "off \<le> z" "r \<le> n" and w: "\<forall>p<max z (off + r). fbyte v' x' p =
      (if off \<le> p \<and> p < off + r then byte (va + (p - off)) else fbyte v x p)"
  shows "fbytes v' x' 0 (max z (off + r)) = put off (take r (map byte [va..<va + n])) (fbytes v x 0 z)"
proof -
  let ?bs = "take r (map byte [va..<va + n])"
  have bs: "length ?bs = r" "\<And>i. i < r \<Longrightarrow> ?bs ! i = byte (va + i)" using assms(2) by simp_all
  have "fbyte v' x' p = (if off \<le> p \<and> p < off + length ?bs then ?bs ! (p - off) else fbyte v x p)"
    if "p < max z (off + length ?bs)" for p
  proof -
    have "byte (va + (p - off)) = ?bs ! (p - off)" if "off \<le> p" "p < off + r"
      by (rule bs(2) [symmetric]) (use that in linarith)
    then show ?thesis using w that unfolding bs(1) by presburger
  qed
  then show ?thesis using fbytes_put [OF assms(1), of ?bs v' x' v x] unfolding bs(1) by blast
qed

text \<open>The transaction up to \<^verbatim>\<open>end_op\<close>.\<close>

lemma file_write_body:
  fixes x :: "'z fsst_scheme"
  assumes q: "quiet x" and o: "open_file x ip" "off \<le> isize (inodes x ! ip)" "off + n \<le> 268 * 1024" "n \<le> 3072"
    and src: "byte_source cpi byte va (va + n)"
  obtains r y t where "filewrite_txn cpi ip va off n x = Inr (int r, t)" "end_op y = Inr t" "r \<le> n"
    "txn y {}" "outstanding y = 1" "\<not> committing y" "disk y = disk x" "dwrites y = dwrites x" "lstart y = lstart x" "sb y = sb x"
    "ifile y ip" "synced y ip" "ivalid (inodes y ! ip)" "1 \<le> iref (inodes y ! ip)" "\<not> slocked (ilk (inodes y ! ip))"
    "inum (inodes y ! ip) = inum (inodes x ! ip)" "r < n \<longrightarrow> (\<forall>b<fssize (sb x). used (sb x) (view y) b)"
    "fbytes (view y) (inodes y ! ip) 0 (isize (inodes y ! ip)) =
       put off (take r (map byte [va..<va + n])) (fbytes (view x) (inodes x ! ip) 0 (isize (inodes x ! ip)))"
proof -
  let ?x = "inodes x ! ip" and ?lk = "\<lparr>slocked = True, slpid = curpid x\<rparr>"
  let ?x1 = "x\<lparr>outstanding := 1\<rparr>"
  have x1: "begin_op x = Inr ?x1" "txn ?x1 {}" using begin_op_quiet [OF q] by blast+
  have o1: "open_file ?x1 ip" using o(1) by (simp add: open_file_def ifile_def synced_def)
  obtain x2 where x2: "ilock ip ?x1 = Inr x2" "x2 = inode_upd ip (\<lambda>x. x\<lparr>ilk := ?lk\<rparr>) ?x1" "txn x2 {}" "view x2 = view x"
      "inodes x2 ! ip = ?x\<lparr>ilk := ?lk\<rparr>" "ifile x2 ip"
    by (rule lock_open [OF x1(2) o1]) simp
  have pre: "off \<le> isize (inodes x2 ! ip)" "va \<le> va \<and> va + n \<le> va + n" "lh_n x2 + 6 * int (nblk off n) < 29"
    using o(2) nblk_max [OF o(4), of off] q by (simp_all add: x2(5)) (simp add: x2(2) quiet_def)
  note W = byte_source.writei_writes [OF src x2(3,6) pre(1) o(3) pre(2,3), unfolded x2(4,5)]
  obtain r x3 A where w: "writei cpi ip va off n x2 = Inr (int r, x3)" "r \<le> n" "txn x3 {}" "ikept ip x2 x3" "ifile x3 ip" "synced x3 ip"
      "r < n \<longrightarrow> (\<forall>b<fssize (sb x2). used (sb x2) (view x3) b)"
      "inodes x3 ! ip = (?x\<lparr>ilk := ?lk\<rparr>)\<lparr>addrs := A, isize := max (isize (?x\<lparr>ilk := ?lk\<rparr>)) (off + r)\<rparr>"
      "\<forall>p<max (isize (?x\<lparr>ilk := ?lk\<rparr>)) (off + r). fbyte (view x3) (inodes x3 ! ip) p =
        (if off \<le> p \<and> p < off + r then byte (va + (p - off)) else fbyte (view x) (?x\<lparr>ilk := ?lk\<rparr>) p)"
    using W by blast
  have k: "curpid x3 = curpid x" "sb x3 = sb x" "lstart x3 = lstart x" "disk x3 = disk x" "dwrites x3 = dwrites x"
    "outstanding x3 = 1" "committing x3 = committing x" "sb x2 = sb x"
    using w(4) x2(2) by (simp_all add: ikept_def)
  obtain y where y: "iunlock ip x3 = Inr y" "y = (inode_upd ip (\<lambda>x. x\<lparr>ilk := sl_release (ilk x)\<rparr>) x3)\<lparr>wakes := wakes x3 @ [ChInode ip]\<rparr>"
      "txn y {}" "view y = view x3" "inodes y ! ip = (inodes x3 ! ip)\<lparr>ilk := sl_release (ilk (inodes x3 ! ip))\<rparr>" "ifile y ip" "synced y ip"
    by (rule unlock_file [OF w(3,5,6)]) (use w(8) o(1) k(1) in \<open>simp_all add: open_file_def\<close>)
  have hd: "128 \<le> length (disk y (lstart y))" "get32 0 (disk y (lstart y)) = 0" "outstanding y = 1" "\<not> committing y"
    using q k by (simp_all add: quiet_def y(2))
  obtain t where t: "end_op y = Inr t" by (rule end_op_last [OF y(3) hd(3,4,1,2)])
  have z: "off \<le> isize (?x\<lparr>ilk := ?lk\<rparr>)" using o(2) by simp
  have F: "fbytes (view y) (inodes y ! ip) 0 (isize (inodes y ! ip)) =
      put off (take r (map byte [va..<va + n])) (fbytes (view x) ?x 0 (isize ?x))"
    using written_bytes [OF z w(2,9)] fbytes_addrs [of "?x\<lparr>ilk := ?lk\<rparr>" ?x "view x"] fbytes_addrs [of "inodes y ! ip" "inodes x3 ! ip" "view x3"]
    by (simp add: y(4,5) w(8))
  have e: "filewrite_txn cpi ip va off n x = Inr (int r, t)"
    using x1(1) x2(1) w(1) y(1) t by (simp add: filewrite_txn_def)
  show thesis
    by (rule that [OF e t w(2) y(3) hd(3,4) _ _ _ _ y(6,7) _ _ _ _ _ F])
      (use k w(7,8) o(1) y(4,5) in \<open>simp_all add: y(2) open_file_def sl_release_def\<close>)
qed

text \<open>
  C3: one transaction of \<^verbatim>\<open>filewrite\<close> on an open file, with no other operation in progress, is total, durable and
  atomic. It copies up to 3072 bytes of the user into the file at the offset, stops early only when the disk is full,
  and when it returns the file on disk has exactly those bytes and the log is empty again. If the machine stops after any
  number of its disk writes and boots again, \<^verbatim>\<open>initlog\<close> leaves the file on disk as it was before or as it is
  after the call, never in between.
\<close>

theorem filewrite_crash_atomic:
  fixes x :: "'z fsst_scheme" and k :: "'k kst_scheme"
  assumes q: "quiet x" and o: "open_file x ip" "off \<le> isize (inodes x ! ip)" "off + n \<le> 268 * 1024" "n \<le> 3072"
    and u: "myproc k = Inr p" "\<forall>v\<in>{va..<va + n}. user_page (mem k) (pagetable (procs k ! p)) v"
  defines "i \<equiv> inum (inodes x ! ip)" and "bytes \<equiv> user_bytes k (pagetable (procs k ! p)) va n"
  shows "\<exists>r t. filewrite_txn (\<lambda>a m. either_copyin True a m k) ip va off n x = Inr (int r, t) \<and> r \<le> n \<and>
     (r < n \<longrightarrow> (\<forall>b<fssize (sb x). used (sb x) (disk t) b)) \<and> quiet t \<and> open_file t ip \<and>
     file_on_disk (sb x) i (disk t) = put off (take r bytes) (file_on_disk (sb x) i (disk x)) \<and>
     (\<forall>j nl (b :: 'y lst_scheme). held b {} {} \<and> disk b = writes (take j (drop (length (dwrites x)) (dwrites t))) (disk x) \<longrightarrow>
        (\<exists>b'. initlog 1 (lstart x) nl b = Inr b' \<and> lh_n b' = 0 \<and>
           file_on_disk (sb x) i (disk b') \<in> {file_on_disk (sb x) i (disk x), file_on_disk (sb x) i (disk t)}))"
proof -
  obtain r y t where t: "filewrite_txn (\<lambda>a m. either_copyin True a m k) ip va off n x = Inr (int r, t)" and e: "end_op y = Inr t" "r \<le> n"
    "txn y {}" "outstanding y = 1" "\<not> committing y" "disk y = disk x" "dwrites y = dwrites x" "lstart y = lstart x" "sb y = sb x"
    and f: "ifile y ip" "synced y ip" "ivalid (inodes y ! ip)" "1 \<le> iref (inodes y ! ip)" "\<not> slocked (ilk (inodes y ! ip))"
    "inum (inodes y ! ip) = inum (inodes x ! ip)" and full: "r < n \<longrightarrow> (\<forall>b<fssize (sb x). used (sb x) (view y) b)"
    and F: "fbytes (view y) (inodes y ! ip) 0 (isize (inodes y ! ip)) =
       put off (take r bytes) (fbytes (view x) (inodes x ! ip) 0 (isize (inodes x ! ip)))"
    unfolding bytes_def user_bytes_def by (rule file_write_body [OF q o user_source [OF u]])
  have hd: "128 \<le> length (disk y (lstart y))" "get32 0 (disk y (lstart y)) = 0" using q e by (simp_all add: quiet_def)
  obtain t' where t': "end_op y = Inr t'" "quiet t'" "lst.more t' = lst.more y" "lstart t' = lstart y" "off_log y (disk t') (view y)"
    "\<And>j nl (b :: 'y lst_scheme). held b {} {} \<Longrightarrow> disk b = writes (take j (drop (length (dwrites y)) (dwrites t'))) (disk y) \<Longrightarrow>
       \<exists>u. initlog 1 (lstart y) nl b = Inr u \<and> lh_n u = 0 \<and> (off_log y (disk u) (disk y) \<or> off_log y (disk u) (view y))"
    by (rule end_op_last [OF e(3-5) hd]) blast
  have tt: "t' = t" using t'(1) e(1) by simp
  have old: "file_on_disk (sb x) i m = fbytes (view x) (inodes x ! ip) 0 (isize (inodes x ! ip))" if "off_log y m (disk x)" for m
    unfolding i_def using file_on_disk_synced [of x ip m] o(1) quiet_view [OF q] that e(8) by (simp add: open_file_def off_log_def)
  have new: "file_on_disk (sb x) i m = fbytes (view y) (inodes y ! ip) 0 (isize (inodes y ! ip))" if "off_log y m (view y)" for m
    unfolding i_def using file_on_disk_synced [OF f(1,2) that] f(6) e(9) by simp
  have m: "sb t = sb y" "inodes t = inodes y" using t'(3) unfolding tt by (cases t; cases y; simp)+
  have ol: "off_log y (view t) (view y)" using t'(5) quiet_view [OF t'(2)] by (simp add: tt)
  have "ifile t ip" "synced t ip"
    using ifile_entry [OF m(1) _ ol _ _ _ _ f(1)] f(2) t'(4) m(2) by (simp_all add: tt)
  then have op: "open_file t ip" using f m(2) by (simp add: open_file_def)
  have full': "\<forall>b<fssize (sb x). used (sb x) (disk t) b" if "r < n"
  proof -
    have "\<forall>b\<in>bitmap_blocks (sb x). disk t b = view y b"
      using f(1) e(9) t'(5) by (auto simp: tt ifile_def wfile_def layout_def off_log_def)
    then show ?thesis using full that used_cong by blast
  qed
  have d: "file_on_disk (sb x) i (disk t) = put off (take r bytes) (file_on_disk (sb x) i (disk x))"
    using new [of "disk t"] old [of "disk x"] t'(5) F by (simp add: tt off_log_def)
  have c: "\<exists>b'. initlog 1 (lstart x) nl b = Inr b' \<and> lh_n b' = 0 \<and>
      file_on_disk (sb x) i (disk b') \<in> {file_on_disk (sb x) i (disk x), file_on_disk (sb x) i (disk t)}"
    if "held b {} {}" "disk b = writes (take j (drop (length (dwrites x)) (dwrites t))) (disk x)" for j nl and b :: "'y lst_scheme"
  proof -
    note R = t'(6) [unfolded tt e(6-8), OF that]
    obtain b' where b': "initlog 1 (lstart x) nl b = Inr b'" "lh_n b' = 0" "off_log y (disk b') (disk x) \<or> off_log y (disk b') (view y)"
      using R by blast
    have "file_on_disk (sb x) i (disk b') = file_on_disk (sb x) i (disk x) \<or> file_on_disk (sb x) i (disk b') = file_on_disk (sb x) i (disk t)"
      using b'(3) old [of "disk b'"] old [of "disk x"] new [of "disk b'"] new [of "disk t"] t'(5) by (auto simp: tt off_log_def)
    then show ?thesis using b' by blast
  qed
  show ?thesis using t e(2) full' t'(2) op d c unfolding tt by blast
qed

section \<open>An instance\<close>

text \<open>An empty file whose inode is on disk, in an idle file system; a process that writes 40 bytes of its memory.\<close>

definition fs_open :: fsst where
  "fs_open = fs_new\<lparr>outstanding := 0, disk := fs_disk(32 := dinode_store 64 (inodes fs_new ! 0) (fs_disk 32))\<rparr>"

lemma fs_open_sel: "inodes fs_open ! 0 = inodes fs_new ! 0" "sb fs_open = sb fs_new" "lstart fs_open = 2" "length (inodes fs_open) = 50"
  "disk fs_open = fs_disk(32 := dinode_store 64 (inodes fs_new ! 0) (fs_disk 32))"
  by (simp_all add: fs_open_def fs_new_simps)

lemma fs_open_quiet: "quiet fs_open"
proof -
  have "held fs_open {} {}"
    by (auto simp: held_def on_def fs_open_def fs_new_def fs_demo_def no_buf_def initsleeplock_def)
  moreover have "fs_disk 2 = replicate 1024 0" by (simp add: fs_disk_def)
  ultimately show ?thesis
    using fs_open_sel(3,5) get32_zeros [of 0 1024]
    by (simp add: quiet_def) (simp add: fs_open_def fs_new_def fs_demo_def inode_upd_def)
qed

lemma fs_open_file: "open_file fs_open 0"
proof -
  let ?x = "inodes fs_new ! 0" and ?d = "dinode_store 64 (inodes fs_new ! 0) (fs_disk 32)"
  have ok: "inode_ok ?x" by (simp add: fs_new_simps inode_ok_def)
  have len: "length (fs_disk 32) = 1024" by (simp add: fs_disk_def)
  have v: "view fs_open = fs_disk(32 := ?d)" using quiet_view [OF fs_open_quiet] fs_open_sel(5) by simp
  have B: "bitmap_blocks (sb fs_new) = {45}" 
    by (auto simp: bitmap_blocks_def BBLOCK_def fs_new_simps fs_demo_sel intro!: image_eqI [of _ _ 0])
  have I: "IBLOCK (inum ?x) (sb fs_new) = 32" by (simp add: fs_new_simps IBLOCK_def fs_demo_sel)
  have W: "wfile (sb fs_new) 2 32 fs_disk ?x" using fs_new_file I by (simp add: ifile_def fs_new_simps(3,7))
  have bm: "\<forall>b\<in>bitmap_blocks (sb fs_new). (fs_disk(32 := ?d)) b = fs_disk b" unfolding B by simp
  have "wfile (sb fs_new) 2 32 (fs_disk(32 := ?d)) ?x"
    by (rule wfile_cong [OF W bm]) (use length_dinode_store [OF ok, of 64 "fs_disk 32"] len in \<open>simp_all add: fslot_def fs_new_simps\<close>)
  then have "ifile fs_open 0" using I by (simp add: ifile_def fs_open_sel v)
  moreover have "synced fs_open 0"
    using dinode_roundtrip [OF ok, of 64 "fs_disk 32" ?x] len I by (simp add: synced_def fs_open_sel v) (simp add: fs_new_simps dinode_off_def)
  ultimately show ?thesis by (simp add: open_file_def fs_open_sel) (simp add: fs_new_simps initsleeplock_def)
qed

theorem filewrite_crash_atomic_witness:
  "\<forall>qt P. \<exists>r t. filewrite_txn (\<lambda>a m. either_copyin True a m (pipe_demo qt P)) 0 100 0 40 fs_open = Inr (int r, t) \<and> quiet t \<and>
     length (file_on_disk (sb fs_open) 1 (disk t)) = r"
proof (intro allI)
  fix qt P
  let ?k = "pipe_demo qt P"
  have u: "\<forall>v\<in>{100..<100 + 40}. user_page (mem ?k) (pagetable (procs ?k ! 0)) v"
    using urangeD(1) [OF ptdemo_urange] by (simp add: pipe_demo_simps)
  have c: "myproc ?k = Inr 0" by (simp add: myproc_def pipe_demo_simps)
  have z: "0 \<le> isize (inodes fs_open ! 0)" "0 + 40 \<le> (268 * 1024 :: nat)" "40 \<le> (3072 :: nat)" by simp_all
  have i: "inum (inodes fs_open ! 0) = 1" "isize (inodes fs_open ! 0) = 0" by (simp_all add: fs_open_sel fs_new_simps)
  have o: "file_on_disk (sb fs_open) 1 (disk fs_open) = []"
    using file_on_disk_synced [of fs_open 0 "disk fs_open"] fs_open_file quiet_view [OF fs_open_quiet]
    by (simp add: open_file_def i off_log_def fbytes_def)
  obtain r t where t: "filewrite_txn (\<lambda>a m. either_copyin True a m ?k) 0 100 0 40 fs_open = Inr (int r, t)" "r \<le> 40" "quiet t"
    "file_on_disk (sb fs_open) 1 (disk t) =
       put 0 (take r (user_bytes ?k (pagetable (procs ?k ! 0)) 100 40)) (file_on_disk (sb fs_open) 1 (disk fs_open))"
    using filewrite_crash_atomic [OF fs_open_quiet fs_open_file z c u] unfolding i by blast
  have "length (file_on_disk (sb fs_open) 1 (disk t)) = r"
    using t(2) unfolding t(4) o by (simp add: put_def user_bytes_def)
  then show "\<exists>r t. filewrite_txn (\<lambda>a m. either_copyin True a m ?k) 0 100 0 40 fs_open = Inr (int r, t) \<and> quiet t \<and>
     length (file_on_disk (sb fs_open) 1 (disk t)) = r" using t by blast
qed

end
