(* ===== verification/Runcmd.thy ===== *)
theory Runcmd
  imports Shell Sysfile
begin

text \<open>
  \<^verbatim>\<open>runcmd\<close> of \<^verbatim>\<open>user/sh.c\<close>: what a command does with its processes and their descriptors. A process sees the kernel as
  its descriptor table, on which \<^verbatim>\<open>close\<close>, \<^verbatim>\<open>dup\<close>, \<^verbatim>\<open>open\<close> and \<^verbatim>\<open>pipe\<close> act as in \<^verbatim>\<open>kernel/sysfile.c\<close>: the lowest free entry is
  taken. The specification \<open>wire\<close> of a command has no descriptors, only the three streams each program is to have.
\<close>

section \<open>Descriptor tables\<close>

definition fd_alloc :: "'o \<Rightarrow> 'o option list \<Rightarrow> (nat \<times> 'o option list) option" where
  "fd_alloc x t = map_option (\<lambda>fd. (fd, t[fd := Some x])) (List.find (\<lambda>fd. t ! fd = None) [0..<NOFILE])"

definition fd_close :: "nat \<Rightarrow> 'o option list \<Rightarrow> 'o option list" where
  "fd_close fd t = t[fd := None]"

definition fd_dup :: "nat \<Rightarrow> 'o option list \<Rightarrow> 'o option list" where
  "fd_dup fd t = (case t ! fd of None \<Rightarrow> t | Some x \<Rightarrow> (case fd_alloc x t of None \<Rightarrow> t | Some (_, t1) \<Rightarrow> t1))"

text \<open>The table is the one of the kernel: \<open>fdalloc\<close> of the kernel is \<open>fd_alloc\<close> on the files of the process.\<close>

lemma fdalloc_fd_alloc:
  assumes "myproc s = Inr i"
  shows "fdalloc f s = (case fd_alloc f (ofile (procs s ! i)) of
      None \<Rightarrow> Inr (-1, s)
    | Some (fd, t) \<Rightarrow> Inr (int fd, proc_upd i (\<lambda>p. p\<lparr>ofile := (ofile p)[fd := Some f]\<rparr>) s))"
  using assms by (simp add: fdalloc_def fd_alloc_def set_ofile_def split: option.splits)

section \<open>The operation \<^verbatim>\<open>runcmd\<close>\<close>

text \<open>What a descriptor refers to: a stream of the shell, an opened file, an end of the pipe made at position \<open>\<pi>\<close>.\<close>

datatype fobj = Stream nat | FileOf "u8 list" nat | PipeR "nat list" | PipeW "nat list"

type_synonym fdt = "fobj option list"

text \<open>Which system calls succeed. A position is the list of the branches taken from the shell.\<close>

record shenv =
  open_ok :: "u8 list \<Rightarrow> nat \<Rightarrow> bool"
  exec_ok :: "u8 list list \<Rightarrow> bool"
  pipe_ok :: "nat list \<Rightarrow> bool"
  fork_ok :: "nat list \<Rightarrow> bool"

text \<open>The life of a process: the child of a fork and the rest, a wait, and how it ends.\<close>

datatype ptree = Exec "u8 list list" fdt | Exit nat | Fork ptree ptree | Wait fdt ptree

definition fd_pipe :: "nat list \<Rightarrow> fdt \<Rightarrow> (nat \<times> nat \<times> fdt) option" where
  "fd_pipe \<pi> t = (case fd_alloc (PipeR \<pi>) t of None \<Rightarrow> None
     | Some (r, t1) \<Rightarrow> (case fd_alloc (PipeW \<pi>) t1 of None \<Rightarrow> None | Some (w, t2) \<Rightarrow> Some (r, w, t2)))"

definition fork1 :: "shenv \<Rightarrow> nat list \<Rightarrow> ptree \<Rightarrow> ptree \<Rightarrow> ptree" where
  "fork1 e \<pi> child rest = (if fork_ok e \<pi> then Fork child rest else Exit 1)"

fun runcmd :: "shenv \<Rightarrow> nat list \<Rightarrow> fdt \<Rightarrow> u8 list cmd \<Rightarrow> ptree" where
  "runcmd e \<pi> t (EXEC argv) = (if argv = [] then Exit 1 else if exec_ok e argv then Exec argv t else Exit 0)"
| "runcmd e \<pi> t (REDIR c file mode fd) =
     (let t1 = fd_close fd t in
      if \<not> open_ok e file mode then Exit 1
      else case fd_alloc (FileOf file mode) t1 of None \<Rightarrow> Exit 1 | Some (_, t2) \<Rightarrow> runcmd e \<pi> t2 c)"
| "runcmd e \<pi> t (LIST l r) = fork1 e (0 # \<pi>) (runcmd e (0 # \<pi>) t l) (Wait t (runcmd e (2 # \<pi>) t r))"
| "runcmd e \<pi> t (PIPE l r) =
     (case (if pipe_ok e \<pi> then fd_pipe \<pi> t else None) of
        None \<Rightarrow> Exit 1
      | Some (p0, p1, t1) \<Rightarrow>
          fork1 e (0 # \<pi>) (runcmd e (0 # \<pi>) (fd_close p1 (fd_close p0 (fd_dup p1 (fd_close 1 t1)))) l)
            (fork1 e (1 # \<pi>) (runcmd e (1 # \<pi>) (fd_close p1 (fd_close p0 (fd_dup p0 (fd_close 0 t1)))) r)
              (let t2 = fd_close p1 (fd_close p0 t1) in Wait t2 (Wait t2 (Exit 0)))))"
| "runcmd e \<pi> t (BACK c) = fork1 e (0 # \<pi>) (runcmd e (0 # \<pi>) t c) (Exit 0)"

section \<open>The specification\<close>

definition streams :: "fobj \<Rightarrow> fobj \<Rightarrow> fobj \<Rightarrow> fdt" where
  "streams i ou er = [Some i, Some ou, Some er] @ replicate 13 None"

fun wire :: "shenv \<Rightarrow> nat list \<Rightarrow> fobj \<Rightarrow> fobj \<Rightarrow> fobj \<Rightarrow> u8 list cmd \<Rightarrow> ptree" where
  "wire e \<pi> i ou er (EXEC argv) = (if argv = [] then Exit 1 else if exec_ok e argv then Exec argv (streams i ou er) else Exit 0)"
| "wire e \<pi> i ou er (REDIR c file mode fd) =
     (if \<not> open_ok e file mode then Exit 1
      else if fd = 0 then wire e \<pi> (FileOf file mode) ou er c else wire e \<pi> i (FileOf file mode) er c)"
| "wire e \<pi> i ou er (LIST l r) = fork1 e (0 # \<pi>) (wire e (0 # \<pi>) i ou er l) (Wait (streams i ou er) (wire e (2 # \<pi>) i ou er r))"
| "wire e \<pi> i ou er (PIPE l r) =
     (if \<not> pipe_ok e \<pi> then Exit 1
      else fork1 e (0 # \<pi>) (wire e (0 # \<pi>) i (PipeW \<pi>) er l)
        (fork1 e (1 # \<pi>) (wire e (1 # \<pi>) (PipeR \<pi>) ou er r)
          (Wait (streams i ou er) (Wait (streams i ou er) (Exit 0)))))"
| "wire e \<pi> i ou er (BACK c) = fork1 e (0 # \<pi>) (wire e (0 # \<pi>) i ou er c) (Exit 0)"

text \<open>The commands that the parser builds redirect descriptor 0 or 1.\<close>

fun redirects_ok :: "'w cmd \<Rightarrow> bool" where
  "redirects_ok (EXEC argv) = True"
| "redirects_ok (REDIR c f m fd) = (fd \<le> 1 \<and> redirects_ok c)"
| "redirects_ok (PIPE l r) = (redirects_ok l \<and> redirects_ok r)"
| "redirects_ok (LIST l r) = (redirects_ok l \<and> redirects_ok r)"
| "redirects_ok (BACK c) = redirects_ok c"

lemma find_first: "k < n \<Longrightarrow> P k \<Longrightarrow> (\<forall>j<k. \<not> P j) \<Longrightarrow> List.find P [0..<n] = Some k"
  by (auto simp: find_Some_iff intro!: exI [of _ k])

lemma fd_alloc_first:
  "k < 16 \<Longrightarrow> t ! k = None \<Longrightarrow> (\<forall>j<k. t ! j \<noteq> None) \<Longrightarrow> fd_alloc x t = Some (k, t[k := Some x])"
  unfolding fd_alloc_def by (subst find_first [of k]) auto

lemma streams_redirect:
  "fd_alloc x (fd_close 0 (streams i ou er)) = Some (0, streams x ou er)"
  "fd_alloc x (fd_close 1 (streams i ou er)) = Some (1, streams i x er)"
  by (simp_all add: fd_close_def streams_def fd_alloc_first [of 0] fd_alloc_first [of 1])

text \<open>Both children end up with the three streams, and the parent with its own.\<close>

lemma streams_pipe:
  assumes "fd_pipe \<pi> (streams i ou er) = Some (p0, p1, t)"
  shows "fd_close p1 (fd_close p0 (fd_dup p1 (fd_close 1 t))) = streams i (PipeW \<pi>) er"
    and "fd_close p1 (fd_close p0 (fd_dup p0 (fd_close 0 t))) = streams (PipeR \<pi>) ou er"
    and "fd_close p1 (fd_close p0 t) = streams i ou er"
proof -
  let ?t = "[Some i, Some ou, Some er, Some (PipeR \<pi>), Some (PipeW \<pi>)] @ replicate 11 None"
  have "fd_alloc (PipeR \<pi>) (streams i ou er) = Some (3, [Some i, Some ou, Some er, Some (PipeR \<pi>)] @ replicate 12 None)"
    by (subst fd_alloc_first [of 3]) (auto simp: streams_def less_Suc_eq numeral_eq_Suc)
  moreover have "fd_alloc (PipeW \<pi>) ([Some i, Some ou, Some er, Some (PipeR \<pi>)] @ replicate 12 None) = Some (4, ?t)"
    by (subst fd_alloc_first [of 4]) (auto simp: less_Suc_eq numeral_eq_Suc)
  ultimately have e: "p0 = 3" "p1 = 4" "t = ?t" using assms by (simp_all add: fd_pipe_def)
  show "fd_close p1 (fd_close p0 (fd_dup p1 (fd_close 1 t))) = streams i (PipeW \<pi>) er"
    by (simp add: e fd_close_def fd_dup_def streams_def fd_alloc_first [of 1] numeral_eq_Suc)
  show "fd_close p1 (fd_close p0 (fd_dup p0 (fd_close 0 t))) = streams (PipeR \<pi>) ou er"
    by (simp add: e fd_close_def fd_dup_def streams_def fd_alloc_first [of 0] numeral_eq_Suc)
  show "fd_close p1 (fd_close p0 t) = streams i ou er"
    by (simp add: e fd_close_def streams_def numeral_eq_Suc)
qed

lemma fd_pipe_streams: "fd_pipe \<pi> (streams i ou er) \<noteq> None"
proof -
  have "fd_alloc (PipeR \<pi>) (streams i ou er) = Some (3, [Some i, Some ou, Some er, Some (PipeR \<pi>)] @ replicate 12 None)"
    by (subst fd_alloc_first [of 3]) (auto simp: streams_def less_Suc_eq numeral_eq_Suc)
  moreover have "fd_alloc (PipeW \<pi>) ([Some i, Some ou, Some er, Some (PipeR \<pi>)] @ replicate 12 None) \<noteq> None"
    by (subst fd_alloc_first [of 4]) (auto simp: less_Suc_eq numeral_eq_Suc)
  ultimately show ?thesis by (auto simp: fd_pipe_def)
qed

lemma runcmd_wire: "redirects_ok c \<Longrightarrow> runcmd e \<pi> (streams i ou er) c = wire e \<pi> i ou er c"
proof (induction c arbitrary: \<pi> i ou er)
  case (REDIR c f m fd)
  then have "fd = 0 \<or> fd = 1" by auto
  then show ?case using REDIR streams_redirect by (auto simp: Let_def)
next
  case (PIPE l r)
  obtain p0 p1 t where p: "fd_pipe \<pi> (streams i ou er) = Some (p0, p1, t)" using fd_pipe_streams by fast
  show ?case using PIPE streams_pipe [OF p] by (simp add: p Let_def)
qed simp_all

section \<open>Who holds which end of a pipe\<close>

fun tables :: "ptree \<Rightarrow> fdt set" where
  "tables (Exec argv t) = {t}"
| "tables (Exit st) = {}"
| "tables (Fork p q) = tables p \<union> tables q"
| "tables (Wait t p) = insert t (tables p)"

fun made_at :: "fobj \<Rightarrow> nat list option" where
  "made_at (PipeR p) = Some p"
| "made_at (PipeW p) = Some p"
| "made_at x = None"

lemma tables_fork1: "t \<in> tables (fork1 e \<pi> p q) \<Longrightarrow> t \<in> tables p \<or> t \<in> tables q"
  by (auto simp: fork1_def split: if_splits)

lemma streams_set: "Some x \<in> set (streams i ou er) \<longleftrightarrow> x = i \<or> x = ou \<or> x = er"
  by (auto simp: streams_def)

lemma wire_tables:
  assumes "t \<in> tables (wire e \<pi> i ou er c)"
  shows "(\<exists>i' o' e'. t = streams i' o' e') \<and>
    (\<forall>x p. Some x \<in> set t \<and> made_at x = Some p \<longrightarrow> x = i \<or> x = ou \<or> x = er \<or> length \<pi> \<le> length p)"
  using assms
proof (induction c arbitrary: \<pi> i ou er)
  case (EXEC argv)
  then show ?case by (auto simp: streams_set split: if_splits)
next
  case (REDIR c f m fd)
  then show ?case by (fastforce split: if_splits)
next
  case (PIPE l r)
  then show ?case by (fastforce dest!: tables_fork1 simp: streams_set split: if_splits)
next
  case (LIST l r)
  then show ?case by (fastforce dest!: tables_fork1 simp: streams_set)
next
  case (BACK c)
  then show ?case by (fastforce dest!: tables_fork1)
qed

text \<open>
  C19: \<^verbatim>\<open>runcmd\<close> gives every program of a command line the streams it should have. With its three streams open, a shell
  process behaves as \<open>wire\<close>: whenever a process runs a program or waits, exactly the descriptors 0, 1 and 2 are open, and
  they are what the redirections and pipes around the program say. Of a pipeline, neither the shell nor any process
  on the right keeps the write end of the pipe, so the reader sees its end when the left side is done; and neither the
  shell nor any process on the left keeps the read end.
\<close>

theorem runcmd_wires_streams:
  assumes "redirects_ok c"
  shows "runcmd e \<pi> (streams i ou er) c = wire e \<pi> i ou er c \<and>
    (\<forall>t\<in>tables (runcmd e \<pi> (streams i ou er) c). \<exists>i' ou' er'. t = streams i' ou' er') \<and>
    (\<forall>l r L R P. c = PIPE l r \<longrightarrow> {PipeR \<pi>, PipeW \<pi>} \<inter> {i, ou, er} = {} \<longrightarrow>
       runcmd e \<pi> (streams i ou er) c = Fork L (Fork R P) \<longrightarrow>
       (\<forall>t\<in>tables R \<union> tables P. Some (PipeW \<pi>) \<notin> set t) \<and> (\<forall>t\<in>tables L \<union> tables P. Some (PipeR \<pi>) \<notin> set t))"
proof (intro conjI allI impI)
  note eq = runcmd_wire [OF assms, of e \<pi> i ou er]
  show "runcmd e \<pi> (streams i ou er) c = wire e \<pi> i ou er c" by (rule eq)
  show "\<forall>t\<in>tables (runcmd e \<pi> (streams i ou er) c). \<exists>i' ou' er'. t = streams i' ou' er'"
    using wire_tables unfolding eq by blast
  fix l r L R P
  assume a: "c = PIPE l r" "{PipeR \<pi>, PipeW \<pi>} \<inter> {i, ou, er} = {}" "runcmd e \<pi> (streams i ou er) c = Fork L (Fork R P)"
  from a(3) have f: "L = wire e (0 # \<pi>) i (PipeW \<pi>) er l" "R = wire e (1 # \<pi>) (PipeR \<pi>) ou er r" "tables P = {streams i ou er}"
    unfolding eq unfolding a(1) by (auto simp: fork1_def split: if_splits)
  have R: "Some (PipeW \<pi>) \<notin> set t" if "t \<in> tables R" for t
    using wire_tables [OF that [unfolded f]] a(2) by fastforce
  have L: "Some (PipeR \<pi>) \<notin> set t" if "t \<in> tables L" for t
    using wire_tables [OF that [unfolded f]] a(2) by fastforce
  show "\<forall>t\<in>tables R \<union> tables P. Some (PipeW \<pi>) \<notin> set t" using R a(2) f(3) by (auto simp: streams_set)
  show "\<forall>t\<in>tables L \<union> tables P. Some (PipeR \<pi>) \<notin> set t" using L a(2) f(3) by (auto simp: streams_set)
qed

definition all_ok :: shenv where
  "all_ok = \<lparr>open_ok = (\<lambda>_ _. True), exec_ok = (\<lambda>_. True), pipe_ok = (\<lambda>_. True), fork_ok = (\<lambda>_. True)\<rparr>"

theorem runcmd_wires_streams_witness:
  "runcmd all_ok [] (streams (Stream 0) (Stream 1) (Stream 2)) (PIPE (EXEC [[97]]) (REDIR (EXEC [[98]]) [102] 0x601 1)) =
     Fork (Exec [[97]] (streams (Stream 0) (PipeW []) (Stream 2)))
       (Fork (Exec [[98]] (streams (PipeR []) (FileOf [102] 0x601) (Stream 2)))
         (Wait (streams (Stream 0) (Stream 1) (Stream 2)) (Wait (streams (Stream 0) (Stream 1) (Stream 2)) (Exit 0))))"
proof -
  have "redirects_ok (PIPE (EXEC [[97 :: u8]]) (REDIR (EXEC [[98]]) [102] 0x601 1))" by simp
  from conjunct1 [OF runcmd_wires_streams [OF this, of all_ok "[]" "Stream 0" "Stream 1" "Stream 2"]]
  show ?thesis by (rule trans) (simp add: all_ok_def fork1_def)
qed

section \<open>The main loop\<close>

text \<open>A line that begins with \<^verbatim>\<open>cd \<close> is obeyed by the shell itself, with its last byte chopped; other lines run.\<close>

datatype sh_action = Chdir "u8 list" | Run "u8 list"

definition getcmd :: "u8 list list \<Rightarrow> u8 list option \<times> u8 list list" where
  "getcmd rs = (let (buf, rs2) = gets 100 rs in (if cstring buf 0 = [] then None else Some buf, rs2))"

definition sh_line :: "u8 list \<Rightarrow> sh_action" where
  "sh_line buf =
     (let line = cstring buf 0 in
      if take 3 line = [99, 100, 32] then Chdir (drop 3 (butlast line)) else Run line)"

text \<open>The chopped byte is the newline only when the line has one.\<close>

lemma sh_line_cd:
  assumes "0 \<notin> set p"
  shows "sh_line ([99, 100, 32] @ p @ [10]) = Chdir p" "p \<noteq> [] \<Longrightarrow> sh_line ([99, 100, 32] @ p) = Chdir (butlast p)"
proof -
  have "cstring ([99, 100, 32] @ p @ [10]) 0 = [99, 100, 32] @ p @ [10]" "cstring ([99, 100, 32] @ p) 0 = [99, 100, 32] @ p"
    using assms by (auto simp: cstring_def takeWhile_eq_all_conv)
  then show "sh_line ([99, 100, 32] @ p @ [10]) = Chdir p" "p \<noteq> [] \<Longrightarrow> sh_line ([99, 100, 32] @ p) = Chdir (butlast p)"
    by (simp_all add: sh_line_def butlast_append)
qed

end
