(* ===== verification/Spec2Isabelle.thy ===== *)
theory Spec2Isabelle
  imports Spinlock Traps SchedRun FreeWalk Umalloc Grep Shell Virtio VirtioInit FileWrite Runcmd
begin

text \<open>
  \<^bold>\<open>A verification development of the xv6 kernel of \<^verbatim>\<open>projects/project_1c\<close>.\<close>

  The repository holds course work on operating systems. Its core is \<^verbatim>\<open>projects/project_1c\<close>: the
  teaching kernel xv6 for RISC-V with a multi-level feedback queue (MLFQ) scheduler, a \<^verbatim>\<open>nice\<close> system
  call and a scheduling log added to it. \<^verbatim>\<open>projects/project_1b\<close> is an earlier state of the same tree.
  All paths below are relative to \<^verbatim>\<open>src/projects/project_1c/\<close>.

  \<^bold>\<open>The parts of the program.\<close>
  A trap enters the kernel at \<^verbatim>\<open>usertrap\<close>, which runs a system call through the table
  \<^verbatim>\<open>syscalls[]\<close>, a device interrupt, or a timer tick. System calls work on the process table
  (\<^verbatim>\<open>proc.c\<close>), on open files (\<^verbatim>\<open>file.c\<close>, \<^verbatim>\<open>sysfile.c\<close>), and through these on pipes, the
  console, and the file system. The file system is a stack of layers: the block cache (\<^verbatim>\<open>bio.c\<close>), the
  write-ahead log (\<^verbatim>\<open>log.c\<close>), then blocks, inodes, directories and path names (\<^verbatim>\<open>fs.c\<close>).
  A process that has to wait calls \<^verbatim>\<open>sleep\<close> on a channel and is put back on its run queue by
  \<^verbatim>\<open>wakeup\<close>; \<^verbatim>\<open>scheduler\<close> takes the next process from the run queues of \<^verbatim>\<open>queue.c\<close>.
  Everything allocates pages from \<^verbatim>\<open>kalloc.c\<close>, and user memory is reached through the page tables
  of \<^verbatim>\<open>vm.c\<close>.

  \<^bold>\<open>The theories, from the bottom up.\<close>
  \<^item> \<open>Prelude\<close>: results \<open>kerror + 'a\<close> with sequencing \<open>bnd\<close> and the loop \<open>foldres\<close>; the errors are
    a \<^verbatim>\<open>panic\<close> with its message, an access outside an array or through a null pointer, a signed
    overflow, and \<open>Blocked\<close>.
  \<^item> \<open>RunQueue\<close> (\<^verbatim>\<open>queue.c\<close>, \<^verbatim>\<open>queue.h\<close>): the table of doubly linked lists. \<open>rq_inv\<close> relates it
    to one list of processes per level; the locale of queues is interpreted on the code's operations.
  \<^item> \<open>Kstring\<close> (\<^verbatim>\<open>string.c\<close>): byte and string routines on a memory of bytes.
  \<^item> \<open>Kalloc\<close> (\<^verbatim>\<open>kalloc.c\<close>): \<open>flist s ps\<close> says that the free pages are \<open>ps\<close>; the locale
    \<open>page_allocator\<close> is the contract of the allocator.
  \<^item> \<open>Sched\<close> (scheduling half of \<^verbatim>\<open>proc.c\<close>, timer path of \<^verbatim>\<open>trap.c\<close>): the record \<open>kst\<close> is the
    process table and the globals of the scheduler; \<open>sched_inv\<close> ties process states to the run queues,
    \<open>scheduler\<close> is an iteration without interrupts.
  \<^item> \<open>VM\<close>, \<open>PageTable\<close>, \<open>Copy\<close>, \<open>FreeWalk\<close> (\<^verbatim>\<open>vm.c\<close>): the operations; the tree of table pages
    \<open>pt_wf\<close> and its abstract content \<open>xl\<close>, a map from virtual pages to entries; copies between user and
    kernel memory; the release of a table.
  \<^item> \<open>Spinlock\<close>, \<open>Sleeplock\<close> (\<^verbatim>\<open>spinlock.c\<close>, \<^verbatim>\<open>sleeplock.c\<close>): the lock protocol as a step relation
    of several harts; \<open>lock_inv\<close>.
  \<^item> \<open>Ring\<close>, \<open>Pipe\<close>, \<open>Console\<close> (\<^verbatim>\<open>pipe.c\<close>, \<^verbatim>\<open>console.c\<close>, \<^verbatim>\<open>uart.c\<close>): ring buffers with
    32 or 64 bit counters that wrap; the locale \<open>bounded_queue\<close> is interpreted on the pipe and on the
    transmit buffer; the line editor refines \<open>line_edit\<close>.
  \<^item> \<open>Bio\<close>, \<open>Log\<close> (\<^verbatim>\<open>bio.c\<close>, \<^verbatim>\<open>log.c\<close>): \<open>view s\<close> is the content of the blocks that the kernel
    sees, \<open>disk s\<close> the disk, \<open>dwrites s\<close> the sequence of disk writes. A crash keeps a prefix of it.
  \<^item> \<open>Virtio\<close>, \<open>VirtioInit\<close> (\<^verbatim>\<open>virtio_disk.c\<close>): the driver below the block cache, with the device as a
    parameter. \<open>vstep\<close> interleaves processes, interrupts and the device; \<open>vinv\<close> says which descriptors belong to which
    request and where it is; \<open>dstep\<close> is the specification, in which \<open>Bio.disk_rw\<close> is one step.
  \<^item> \<open>Fs\<close>, \<open>FsBlocks\<close>, \<open>FsInodes\<close>, \<open>FsWrite\<close> (\<^verbatim>\<open>fs.c\<close>): the operations; the block layer inside a
    transaction (\<open>txn\<close>, \<open>geo\<close>, \<open>used\<close>); inodes, contents of files (\<open>fbytes\<close>), directories and path elements;
    well-formed files (\<open>wfile\<close>, \<open>ifile\<close>), block allocation and writing. The copy routines that \<^verbatim>\<open>readi\<close> and
    \<^verbatim>\<open>writei\<close> call are the locales \<open>byte_sink\<close> and \<open>byte_source\<close>.
  \<^item> \<open>File\<close>, \<open>Proc\<close>, \<open>Exec\<close>, \<open>Sysfile\<close>, \<open>Syscall\<close> (\<^verbatim>\<open>file.c\<close>, the rest of \<^verbatim>\<open>proc.c\<close>,
    \<^verbatim>\<open>exec.c\<close>, \<^verbatim>\<open>syscall.c\<close>, \<^verbatim>\<open>sysfile.c\<close>, \<^verbatim>\<open>sysproc.c\<close>, \<^verbatim>\<open>trap.c\<close>): the
    record \<open>sys\<close> joins the kernel state \<open>ks\<close>, the file system \<open>fs\<close> and the file table \<open>files\<close>; on it
    the life of a process, all system calls, the dispatcher and the trap handlers.
  \<^item> \<open>FileWrite\<close> (\<^verbatim>\<open>file.c\<close> over \<^verbatim>\<open>fs.c\<close>, \<^verbatim>\<open>log.c\<close>, \<^verbatim>\<open>vm.c\<close>): one transaction of \<^verbatim>\<open>filewrite\<close>
    as a whole. \<open>quiet\<close> is the file system between operations, \<open>open_file\<close> an inode whose entry agrees with the disk,
    \<open>file_on_disk\<close> the bytes of a file that the disk holds.
  \<^item> \<open>Frame\<close>, \<open>FileRefs\<close>, \<open>Descriptors\<close>, \<open>Traps\<close>: what every operation leaves alone, and the invariant
    \<open>fd_inv\<close> of the reference counts of open files, through every operation up to \<^verbatim>\<open>usertrap\<close>.
  \<^item> \<open>ExitWait\<close>: the hand-over between \<^verbatim>\<open>exit\<close> and \<^verbatim>\<open>wait\<close>.
  \<^item> \<open>SchedRun\<close>: the scheduler with interrupts. \<open>run_step\<close> interleaves the parts of \<^verbatim>\<open>scheduler\<close>, the wakeups of
    handlers, and the critical sections of the processes (ticks, \<^verbatim>\<open>nice\<close>, sleeping, killing, taking, starting, leaving and
    freeing a process slot); \<open>run_inv\<close> is \<open>sched_inv\<close> in each phase of the scheduler. The lemmas with the suffix \<open>_runs\<close> show that the timer
    interrupts, \<^verbatim>\<open>sys_nice\<close>, \<^verbatim>\<open>kill\<close>, \<^verbatim>\<open>fork\<close>, \<^verbatim>\<open>exit\<close>, \<^verbatim>\<open>wait\<close> and an iteration of \<^verbatim>\<open>scheduler\<close> are runs of these steps.
  \<^item> \<open>Ulib\<close>, \<open>Umalloc\<close>, \<open>Grep\<close>, \<open>Shell\<close>, \<open>Runcmd\<close> (\<^verbatim>\<open>user/ulib.c\<close> and \<^verbatim>\<open>printf.c\<close>, \<^verbatim>\<open>umalloc.c\<close>,
    \<^verbatim>\<open>grep.c\<close>, \<^verbatim>\<open>sh.c\<close>): user space on its own. \<open>heap_ok u L\<close> says that the live blocks \<open>L\<close>
    and the free list share the heap; \<open>lang\<close> is the language of a pattern; \<open>tokens\<close> prints a command;
    \<open>wire\<close> is the meaning of a command in terms of streams, which \<^verbatim>\<open>runcmd\<close> implements with descriptors.

  \<^bold>\<open>How state and operations correspond to the code.\<close>
  A record has the fields of the structures and the globals of its file; a pointer into an array is an
  index, a pointer that can be null an option, an address a natural number, a page a range of the byte
  memory \<open>mem\<close>. The state records extend each other: \<open>km\<close> (memory), \<open>kst\<close> (processes), \<open>pst\<close> (pipes),
  \<open>cst\<close> (console), and \<open>bst\<close>, \<open>lst\<close>, \<open>fsst\<close> for the file system. An operation has the name of the C
  function; a loop of a function has the suffix \<open>_loop\<close>, a label its name. A function that the code leaves by
  going to sleep ends there with the result \<open>Sleeps\<close> (or \<open>Asleep\<close> in the dispatcher) and continues in the
  operation with the suffix \<open>_resume\<close>.
  Integers of C are words where they wrap (\<^verbatim>\<open>uint\<close> counters, \<^verbatim>\<open>uint64\<close> loop variables),
  integers with the undefined overflow made an error where they are signed, and naturals with \<open>mod\<close>
  written out for addresses and sizes.

  \<^bold>\<open>What the groups of lemmas show.\<close>
  No runnable process is lost by the scheduler, whatever interrupts arrive between its parts, as long as none arrives
  between the stores of \<^verbatim>\<open>remove_pid\<close> (\<open>dequeue_race_loses\<close> shows what then happens); each rule of the MLFQ holds as the code has it; the
  run queues serve by priority and then in order of arrival. A crash at any point of a commit leaves all
  or none of the writes of the transaction; for \<^verbatim>\<open>filewrite\<close> this means that every transaction of it leaves the
  file on disk as it was before or with the new bytes in it. Blocks handed out are free and zero, and freeing gives them
  back. Page tables map what \<^verbatim>\<open>mappages\<close> was asked to map and nothing else, and copies across page
  boundaries move the right bytes. Locks exclude, pipes and the console keep every byte in order. Reads of
  a file give its bytes, writes change exactly the bytes they are asked to, directory lookup finds the first entry of a name. Open files are
  counted exactly under every trap; \<^verbatim>\<open>dup\<close> and \<^verbatim>\<open>close\<close> undo each other; an exiting child wakes
  its waiting parent; a page table is released completely and the walk ends. The user allocator
  hands out disjoint blocks, \<^verbatim>\<open>grep\<close> prints the matching lines however its input is cut, and the shell's
  parser reads back every command that can be written. The disk driver
  refines the atomic transfer that the block cache assumes, under every interleaving of processes, device and interrupts,
  and loses no wakeup; a device may also fail a request, on which the interrupt handler panics and not before. Several theorems state what
  the code does where its comments or the README say something else; the manifest lists these findings.

  \<^bold>\<open>Termination, fuel and non-termination.\<close>
  Loops with a bound in the code are total functions, with a measure where the recursion is not structural.
  \<open>uartstart_loop\<close>, \<open>uartintr_loop\<close> and \<open>kill_line\<close> take as fuel the number of bytes between the two
  counters (or waiting in the receive register), which every iteration lowers by one, so it is always enough.
  \<^verbatim>\<open>freewalk\<close> and \<^verbatim>\<open>strlen\<close> follow what they find in memory and need not return: they are
  partial functions into option, \<open>None\<close> when they do not return, and so are \<^verbatim>\<open>fork\<close>, \<^verbatim>\<open>wait\<close>,
  \<^verbatim>\<open>exec\<close> and the trap handler that call them; \<open>FreeWalk.freewalk_returns\<close> shows that the walk ends on
  page tables the kernel builds. \<^verbatim>\<open>dequeue\<close> reads outside its table when nothing is queued, which is
  an error of the model.
  The search of the user allocator for a neighbour or a block follows a circular list; it is a partial function,
  and the theorems of \<open>Umalloc\<close> include that it returns. The shell's parser is total because it moves forward.

  \<^bold>\<open>Concurrency.\<close>
  The Makefile builds one hart (\<^verbatim>\<open>CPUS := 1\<close>). The code between \<^verbatim>\<open>acquire\<close> and
  \<^verbatim>\<open>release\<close> is atomic in the component theories; that the lock protocol gives this, also
  for several harts, is the theory \<open>Spinlock\<close>. Processes interleave where the code sleeps or is switched
  out. The file system is modelled for one process at a time: where a buffer, inode or the log is held by
  another process the operation ends with \<open>Blocked\<close> instead of sleeping, and the wakeups it makes are
  recorded in \<open>wakes\<close> and performed on the process table when the operation ends.

  \<^bold>\<open>Not modelled.\<close>
  Assembly (\<^verbatim>\<open>entry.S\<close>, \<^verbatim>\<open>kernelvec.S\<close>, \<^verbatim>\<open>swtch.S\<close>, \<^verbatim>\<open>trampoline.S\<close>) and with it the
  saved kernel contexts: the switch between processes is the field \<open>cur\<close>. The machine setup of
  \<^verbatim>\<open>start.c\<close> and \<^verbatim>\<open>main.c\<close>, the register writes of \<^verbatim>\<open>plic.c\<close>, \<^verbatim>\<open>kvminithart\<close> and the
  initialisation of the UART, which only program devices. The virtio device itself is a parameter: \<open>device_ok\<close> is what
  its specification promises, error answers included. In the file system a transfer is one atomic copy of a block, which the driver is
  shown to refine. Kernel messages (\<^verbatim>\<open>printf.c\<close>, \<^verbatim>\<open>procdump\<close>) do not change the
  modelled state. The other user programs are tests or a few system calls each, \<^verbatim>\<open>mkfs\<close> is a
  host program, and the C++ exercises of \<^verbatim>\<open>threading/\<close> are
  apart from the kernel; \<^verbatim>\<open>projects/project_1b\<close> is an earlier copy of the same files.
\<close>

end
